(* ===== verification/Prelude.thy ===== *)
theory Prelude
  imports Main "HOL-Library.Word" "HOL-Library.Monad_Syntax"
begin

unbundle bit_operations_syntax

text \<open>
  Shared vocabulary of the development: the machine types, the outcome of a kernel
  routine, little-endian access to byte arrays and the list lemmas the component
  theories use.  Unsigned machine integers whose arithmetic matters are kept as
  natural numbers with their bound or their overflow check written out; bit-level code
  uses words.
\<close>

section \<open>Types and lemma collections\<close>

type_synonym byte = "8 word"
type_synonym u32 = "32 word"

text \<open>A Rust \<open>char\<close> is its Unicode scalar value.\<close>

type_synonym uchar = nat

named_theorems le_simps \<open>little-endian reads and writes\<close>
named_theorems slice_simps \<open>lengths and elements of updated byte arrays\<close>

section \<open>Outcome of a kernel routine\<close>

text \<open>
  A routine returns a value, reports an error, panics (an index out of bounds, an
  \<open>unwrap\<close> of nothing, an arithmetic overflow in the checked build), is cut
  off by a loss of power, or goes round a loop for ever.  The last three end the run: the state
  is the one at that moment.
\<close>

datatype ('e, 'a) outcome = Ret 'a | Fail 'e | Panic | PowerOff | Hang

type_synonym ('s, 'e, 'a) kernel = "'s \<Rightarrow> ('e, 'a) outcome \<times> 's"

definition ret :: "'a \<Rightarrow> ('s, 'e, 'a) kernel" where
  "ret a = (\<lambda>s. (Ret a, s))"

definition fail :: "'e \<Rightarrow> ('s, 'e, 'a) kernel" where
  "fail e = (\<lambda>s. (Fail e, s))"

definition panic :: "('s, 'e, 'a) kernel" where
  "panic = (\<lambda>s. (Panic, s))"

definition hang :: "('s, 'e, 'a) kernel" where
  "hang = (\<lambda>s. (Hang, s))"

definition bnd :: "('s, 'e, 'a) kernel \<Rightarrow> ('a \<Rightarrow> ('s, 'e, 'b) kernel) \<Rightarrow> ('s, 'e, 'b) kernel" where
  "bnd m f = (\<lambda>s. case m s of
       (Ret a, s') \<Rightarrow> f a s'
     | (Fail e, s') \<Rightarrow> (Fail e, s')
     | (Panic, s') \<Rightarrow> (Panic, s')
     | (PowerOff, s') \<Rightarrow> (PowerOff, s')
     | (Hang, s') \<Rightarrow> (Hang, s'))"

definition gets :: "('s \<Rightarrow> 'a) \<Rightarrow> ('s, 'e, 'a) kernel" where
  "gets f = (\<lambda>s. (Ret (f s), s))"

definition modify :: "('s \<Rightarrow> 's) \<Rightarrow> ('s, 'e, unit) kernel" where
  "modify f = (\<lambda>s. (Ret (), f s))"

text \<open>\<open>m.is_ok()\<close>, \<open>m.ok()\<close>: the error becomes a value, a panic does not.\<close>

definition attempt :: "('s, 'e, 'a) kernel \<Rightarrow> ('s, 'e, 'e + 'a) kernel" where
  "attempt m = (\<lambda>s. case m s of
       (Ret a, s') \<Rightarrow> (Ret (Inr a), s')
     | (Fail e, s') \<Rightarrow> (Ret (Inl e), s')
     | (Panic, s') \<Rightarrow> (Panic, s')
     | (PowerOff, s') \<Rightarrow> (PowerOff, s')
     | (Hang, s') \<Rightarrow> (Hang, s'))"

definition assert_or :: "'e \<Rightarrow> bool \<Rightarrow> ('s, 'e, unit) kernel" where
  "assert_or e b = (if b then ret () else fail e)"

definition guard_panic :: "bool \<Rightarrow> ('s, 'e, unit) kernel" where
  "guard_panic b = (if b then ret () else panic)"

lemma ret_apply [simp]: "ret a s = (Ret a, s)"
  by (simp add: ret_def)

lemma fail_apply [simp]: "fail e s = (Fail e, s)"
  by (simp add: fail_def)

lemma panic_apply [simp]: "panic s = (Panic, s)"
  by (simp add: panic_def)

lemma hang_apply [simp]: "hang s = (Hang, s)"
  by (simp add: hang_def)

lemma gets_apply [simp]: "gets f s = (Ret (f s), s)"
  by (simp add: gets_def)

lemma modify_apply [simp]: "modify f s = (Ret (), f s)"
  by (simp add: modify_def)

lemma assert_or_apply [simp]: "assert_or e b s = (if b then (Ret (), s) else (Fail e, s))"
  by (simp add: assert_or_def)

lemma guard_panic_apply [simp]: "guard_panic b s = (if b then (Ret (), s) else (Panic, s))"
  by (simp add: guard_panic_def)

lemma bnd_Ret: "m s = (Ret a, s') \<Longrightarrow> bnd m f s = f a s'"
  by (simp add: bnd_def)

lemma bnd_Fail: "m s = (Fail e, s') \<Longrightarrow> bnd m f s = (Fail e, s')"
  by (simp add: bnd_def)

lemma bnd_Panic: "m s = (Panic, s') \<Longrightarrow> bnd m f s = (Panic, s')"
  by (simp add: bnd_def)

lemma bnd_PowerOff: "m s = (PowerOff, s') \<Longrightarrow> bnd m f s = (PowerOff, s')"
  by (simp add: bnd_def)

lemma bnd_Hang: "m s = (Hang, s') \<Longrightarrow> bnd m f s = (Hang, s')"
  by (simp add: bnd_def)

lemmas bnd_cases = bnd_Ret bnd_Fail bnd_Panic bnd_PowerOff bnd_Hang

lemma bnd_ret [simp]: "bnd (ret a) f = f a"
  by (rule ext) (simp add: bnd_def)

lemma bnd_fail [simp]: "bnd (fail e) f = fail e"
  by (rule ext) (simp add: bnd_def)

lemma bnd_gets [simp]: "bnd (gets g) f s = f (g s) s"
  by (simp add: bnd_def)

lemma bnd_modify [simp]: "bnd (modify g) f s = f () (g s)"
  by (simp add: bnd_def)

lemma bnd_RetE:
  assumes "bnd m f s = (Ret b, s'')"
  obtains a s' where "m s = (Ret a, s')" and "f a s' = (Ret b, s'')"
  using assms by (auto simp: bnd_def split: prod.splits outcome.splits)

lemma bnd_assoc: "bnd (bnd m f) g = bnd m (\<lambda>a. bnd (f a) g)"
  by (rule ext) (simp add: bnd_def split: prod.split outcome.split)

section \<open>Indexing\<close>

text \<open>
  \<open>v[i]\<close> and \<open>v[..n]\<close> with the bounds check of the source language; \<open>None\<close> is the panic.
\<close>

definition idx :: "'a list \<Rightarrow> nat \<Rightarrow> 'a option" where
  "idx xs i = (if i < length xs then Some (xs ! i) else None)"

definition upto_idx :: "'a list \<Rightarrow> nat \<Rightarrow> 'a list option" where
  "upto_idx xs n = (if n \<le> length xs then Some (take n xs) else None)"

section \<open>Byte arrays\<close>

text \<open>
  \<open>put o ys xs\<close> is \<open>xs[o..o+n].copy_from_slice(ys)\<close> for a target range inside
  \<open>xs\<close>, \<open>sub o n xs\<close> is \<open>xs[o..o+n]\<close>.
\<close>

definition put :: "nat \<Rightarrow> 'a list \<Rightarrow> 'a list \<Rightarrow> 'a list" where
  "put off ys xs = take off xs @ ys @ drop (off + length ys) xs"

definition sub :: "nat \<Rightarrow> nat \<Rightarrow> 'a list \<Rightarrow> 'a list" where
  "sub off n xs = take n (drop off xs)"

lemma length_put [simp, slice_simps]:
  "off + length ys \<le> length xs \<Longrightarrow> length (put off ys xs) = length xs"
  by (simp add: put_def)

lemma length_sub [simp, slice_simps]: "off + n \<le> length xs \<Longrightarrow> length (sub off n xs) = n"
  by (simp add: sub_def)

lemma sub_put_same [simp, slice_simps]:
  assumes "off + length ys \<le> length xs" and "n = length ys"
  shows "sub off n (put off ys xs) = ys"
  using assms by (simp add: sub_def put_def)

lemma nth_put:
  assumes "off + length ys \<le> length xs" and "i < length xs"
  shows "put off ys xs ! i = (if off \<le> i \<and> i < off + length ys then ys ! (i - off) else xs ! i)"
  using assms by (auto simp: put_def nth_append)

lemma nth_sub: "off + n \<le> length xs \<Longrightarrow> i < n \<Longrightarrow> sub off n xs ! i = xs ! (off + i)"
  by (simp add: sub_def)

lemma sub_put_other [slice_simps]:
  assumes "off + length ys \<le> length xs" and "p + n \<le> length xs"
    and "p + n \<le> off \<or> off + length ys \<le> p"
  shows "sub p n (put off ys xs) = sub p n xs"
  by (rule nth_equalityI) (use assms in \<open>auto simp: nth_sub nth_put\<close>)

lemma put_nth_other:
  assumes "off + length ys \<le> length xs" and "i < off \<or> off + length ys \<le> i" and "i < length xs"
  shows "put off ys xs ! i = xs ! i"
  using assms by (auto simp: nth_put)

lemma sub_append_left: "p + n \<le> length xs \<Longrightarrow> sub p n (xs @ ys) = sub p n xs"
  by (simp add: sub_def)

text \<open>A list is the concatenation of its pieces of a fixed length.\<close>

lemma concat_pieces: "concat (map (\<lambda>j. take b (drop (j * b) xs)) [0..<n]) = take (n * b) xs"
proof (induction n)
  case 0
  show ?case by simp
next
  case (Suc n)
  have "take (Suc n * b) xs = take (n * b) xs @ take b (drop (n * b) xs)"
    by (metis add.commute mult_Suc take_add)
  with Suc.IH show ?case by simp
qed

section \<open>Little-endian integers\<close>

fun le_enc :: "nat \<Rightarrow> nat \<Rightarrow> byte list" where
  "le_enc 0 v = []"
| "le_enc (Suc n) v = of_nat v # le_enc n (v div 256)"

fun le_dec :: "byte list \<Rightarrow> nat" where
  "le_dec [] = 0"
| "le_dec (b # bs) = unat b + 256 * le_dec bs"

lemma length_le_enc [simp, slice_simps]: "length (le_enc n v) = n"
  by (induction n arbitrary: v) simp_all

lemma unat_of_nat_byte [simp]: "unat (of_nat v :: byte) = v mod 256"
  by (simp add: unat_of_nat)

lemma le_dec_enc [le_simps]: "le_dec (le_enc n v) = v mod 256 ^ n"
proof (induction n arbitrary: v)
  case 0
  show ?case by simp
next
  case (Suc n)
  have "v mod (256 * 256 ^ n) = 256 * (v div 256 mod 256 ^ n) + v mod 256"
    by (rule mod_mult2_eq)
  then show ?case by (simp add: Suc.IH)
qed

lemma le_dec_less: "le_dec bs < 256 ^ length bs"
proof (induction bs)
  case Nil
  show ?case by simp
next
  case (Cons b bs)
  have "unat b < 256" using unsigned_less [of b] by simp
  with Cons.IH show ?case by simp
qed

lemma unat_byte_less [simp]: "unat (b :: byte) < 256"
  using unsigned_less [of b] by simp

lemma byte_of_nat_low [simp]: "(of_nat (unat (b :: byte) + 256 * v) :: byte) = b"
proof -
  have "unat (of_nat (unat b + 256 * v) :: byte) = unat b"
    using unat_byte_less [of b] by (simp only: unat_of_nat_byte) simp
  then show ?thesis by (simp only: unsigned_word_eqI)
qed

lemma le_enc_dec [le_simps]: "length bs = n \<Longrightarrow> le_enc n (le_dec bs) = bs"
proof (induction bs arbitrary: n)
  case Nil
  then show ?case by simp
next
  case (Cons b bs)
  have "(unat b + 256 * le_dec bs) div 256 = le_dec bs"
    using unat_byte_less [of b] by linarith
  with Cons show ?case by (cases n) (simp_all del: of_nat_add of_nat_mult)
qed

text \<open>
  \<open>rd n b o\<close> is \<open>uN::from_le_bytes(b[o..o+n])\<close> and \<open>wr n b o v\<close> the
  matching store, for offsets inside the array.
\<close>

definition rd :: "nat \<Rightarrow> byte list \<Rightarrow> nat \<Rightarrow> nat" where
  "rd n b off = le_dec (sub off n b)"

definition wr :: "nat \<Rightarrow> byte list \<Rightarrow> nat \<Rightarrow> nat \<Rightarrow> byte list" where
  "wr n b off v = put off (le_enc n v) b"

abbreviation r16 :: "byte list \<Rightarrow> nat \<Rightarrow> nat" where "r16 \<equiv> rd 2"
abbreviation r32 :: "byte list \<Rightarrow> nat \<Rightarrow> nat" where "r32 \<equiv> rd 4"
abbreviation w16 :: "byte list \<Rightarrow> nat \<Rightarrow> nat \<Rightarrow> byte list" where "w16 \<equiv> wr 2"
abbreviation w32 :: "byte list \<Rightarrow> nat \<Rightarrow> nat \<Rightarrow> byte list" where "w32 \<equiv> wr 4"

lemma length_wr [simp, slice_simps]: "off + n \<le> length b \<Longrightarrow> length (wr n b off v) = length b"
  by (simp add: wr_def)

lemma rd_wr_same [le_simps]: "off + n \<le> length b \<Longrightarrow> rd n (wr n b off v) off = v mod 256 ^ n"
  by (simp add: rd_def wr_def le_dec_enc)

lemma rd_wr_other [le_simps]:
  "off + n \<le> length b \<Longrightarrow> p + m \<le> length b \<Longrightarrow> p + m \<le> off \<or> off + n \<le> p \<Longrightarrow>
   rd m (wr n b off v) p = rd m b p"
  by (simp add: rd_def wr_def sub_put_other)

lemma rd_less: "off + n \<le> length b \<Longrightarrow> rd n b off < 256 ^ n"
  using le_dec_less [of "sub off n b"] by (simp add: rd_def)

lemma r32_less: "off + 4 \<le> length b \<Longrightarrow> r32 b off < 4294967296"
  using rd_less [of off 4 b] by simp

lemma r16_less: "off + 2 \<le> length b \<Longrightarrow> r16 b off < 65536"
  using rd_less [of off 2 b] by simp

text \<open>Unfolding at numerals, for concrete images.\<close>

lemma le_enc_numeral: "le_enc (numeral n) v = of_nat v # le_enc (pred_numeral n) (v div 256)"
  by (simp only: numeral_eq_Suc [of n] le_enc.simps)

lemma replicate_num: "replicate (numeral n) x = x # replicate (pred_numeral n) x"
  by (simp only: numeral_eq_Suc [of n] replicate.simps)

section \<open>Memory\<close>

text \<open>Bytes stored at an address, and read from it.\<close>

definition put_bytes :: "nat \<Rightarrow> byte list \<Rightarrow> (nat \<Rightarrow> byte) \<Rightarrow> nat \<Rightarrow> byte" where
  "put_bytes a bs m = (\<lambda>x. if a \<le> x \<and> x < a + length bs then bs ! (x - a) else m x)"

definition get_bytes :: "nat \<Rightarrow> nat \<Rightarrow> (nat \<Rightarrow> byte) \<Rightarrow> byte list" where
  "get_bytes a n m = map m [a..<a + n]"

lemma length_get_bytes [simp]: "length (get_bytes a n m) = n"
  by (simp add: get_bytes_def)

lemma get_put_bytes:
  assumes "a \<le> x" and "x + n \<le> a + length bs"
  shows "get_bytes x n (put_bytes a bs m) = sub (x - a) n bs"
proof (rule nth_equalityI)
  show "length (get_bytes x n (put_bytes a bs m)) = length (sub (x - a) n bs)"
    using assms by (simp add: sub_def)
next
  fix i assume "i < length (get_bytes x n (put_bytes a bs m))"
  then have i: "i < n" by simp
  have "x + i - a = x - a + i" using assms(1) by simp
  then show "get_bytes x n (put_bytes a bs m) ! i = sub (x - a) n bs ! i"
    using assms i by (simp add: get_bytes_def put_bytes_def sub_def)
qed

lemma get_put_bytes_other: "x + n \<le> a \<or> a + length bs \<le> x \<Longrightarrow> get_bytes x n (put_bytes a bs m) = get_bytes x n m"
  by (auto simp: get_bytes_def put_bytes_def)

end
