(* ===== verification/Heap.thy ===== *)
theory Heap
  imports Prelude
begin

text \<open>
  The kernel heap (\<open>kernel/src/heap.rs\<close>): a first-fit free list whose headers live in
  the memory they describe.  The model keeps the header memory as a function from
  addresses, so that the pointer updates of the code are the updates of the model, and
  shows that the code refines a first-fit allocator on lists, that live blocks never
  overlap, and what alignment and accounting the code really gives.
\<close>

section \<open>State\<close>

record free_block =
  blk_size :: nat
  blk_next :: nat

record heap_inner =
  hmem :: "nat \<Rightarrow> free_block"
  free_head :: nat
  h_total :: nat
  h_used :: nat
  h_allocs :: nat
  h_frees :: nat

definition BLOCK_HEADER :: nat where "BLOCK_HEADER = 16"
definition MIN_BLOCK :: nat where "MIN_BLOCK = 32"
definition PMO :: nat where "PMO = 0xFFFF800000000000"

text \<open>A \<open>usize\<close> result; the checked build panics where it does not fit.\<close>

definition usz :: "nat \<Rightarrow> nat option" where
  "usz n = (if n < 2 ^ 64 then Some n else None)"

definition align_up :: "nat \<Rightarrow> nat \<Rightarrow> nat option" where
  "align_up v a = do {
     t \<leftarrow> usz (v + a);
     Some (nat ((int t - 1) AND NOT (int a - 1)))
   }"

section \<open>Operations\<close>

text \<open>\<open>HeapAllocator::init\<close>\<close>

definition heap_setup :: "nat \<Rightarrow> nat \<Rightarrow> heap_inner \<Rightarrow> heap_inner option" where
  "heap_setup base_phys sz h = do {
     p \<leftarrow> align_up base_phys 16;
     base \<leftarrow> usz (p + PMO);
     start \<leftarrow> usz (base_phys + PMO);
     if sz < base - start \<or> sz - (base - start) < BLOCK_HEADER then None
     else (let usable = sz - (base - start) in
       Some (h\<lparr>hmem := (hmem h)(base := \<lparr>blk_size = usable - BLOCK_HEADER, blk_next = 0\<rparr>),
               free_head := base, h_total := usable, h_used := 0, h_allocs := 0,
               h_frees := 0\<rparr>))
   }"

text \<open>
  The search loop of \<open>alloc_locked\<close>.  \<open>None\<close> is a run that does not come back: an
  overflow panic, or a cyclic list.
\<close>

partial_function (option) alloc_loop ::
  "heap_inner \<Rightarrow> nat \<Rightarrow> nat \<Rightarrow> nat \<Rightarrow> nat \<Rightarrow> (nat \<times> heap_inner) option" where
  "alloc_loop h off tot prev cur =
     (if cur = 0 then Some (0, h)
      else if blk_size (hmem h cur) \<ge> tot then do {
        end_addr \<leftarrow> usz (cur + blk_size (hmem h cur));
        t \<leftarrow> usz (cur + tot);
        rest_addr \<leftarrow> align_up t 16;
        let b = hmem h cur;
        let h1 =
          (if rest_addr < end_addr \<and> end_addr - rest_addr \<ge> MIN_BLOCK
           then
             (let m1 = (hmem h)(rest_addr := \<lparr>blk_size = end_addr - rest_addr, blk_next = blk_next b\<rparr>);
                  m2 = m1(cur := \<lparr>blk_size = rest_addr - cur, blk_next = 0\<rparr>)
              in if prev = 0 then h\<lparr>hmem := m2, free_head := rest_addr\<rparr>
                 else h\<lparr>hmem := m2(prev := (m2 prev)\<lparr>blk_next := rest_addr\<rparr>)\<rparr>)
           else
             (let h2 = (if prev = 0 then h\<lparr>free_head := blk_next b\<rparr>
                        else h\<lparr>hmem := (hmem h)(prev := (hmem h prev)\<lparr>blk_next := blk_next b\<rparr>)\<rparr>)
              in h2\<lparr>hmem := (hmem h2)(cur := (hmem h2 cur)\<lparr>blk_next := 0\<rparr>)\<rparr>));
        Some (cur + off, h1\<lparr>h_used := h_used h1 + tot, h_allocs := h_allocs h1 + 1\<rparr>)
      }
      else alloc_loop h off tot cur (blk_next (hmem h cur)))"

definition alloc_locked :: "heap_inner \<Rightarrow> nat \<Rightarrow> nat \<Rightarrow> (nat \<times> heap_inner) option" where
  "alloc_locked h sz align = do {
     off \<leftarrow> align_up BLOCK_HEADER align;
     tot \<leftarrow> usz (off + sz);
     if free_head h = 0 then Some (0, h)
     else alloc_loop h off tot 0 (free_head h)
   }"

definition dealloc :: "heap_inner \<Rightarrow> nat \<Rightarrow> nat \<Rightarrow> heap_inner option" where
  "dealloc h ptr align =
     (if ptr = 0 then Some h
      else do {
        off \<leftarrow> align_up BLOCK_HEADER align;
        if ptr < off then None
        else (let block = ptr - off;
                  sz = blk_size (hmem h block);
                  head = free_head h
              in Some (h\<lparr>free_head := block,
                         hmem := (hmem h)(block := (hmem h block)\<lparr>blk_next := head\<rparr>),
                         h_used := h_used h - sz,
                         h_frees := h_frees h + 1\<rparr>))
      })"

text \<open>
  \<open>realloc\<close>: the payload bytes are a memory of their own (\<open>data\<close>); that they never
  share an address with a header is part of the invariant below.
\<close>

definition copy_bytes :: "(nat \<Rightarrow> byte) \<Rightarrow> nat \<Rightarrow> nat \<Rightarrow> nat \<Rightarrow> nat \<Rightarrow> byte" where
  "copy_bytes data src dst n = (\<lambda>a. if dst \<le> a \<and> a < dst + n then data (src + (a - dst)) else data a)"

definition realloc ::
  "heap_inner \<Rightarrow> (nat \<Rightarrow> byte) \<Rightarrow> nat \<Rightarrow> nat \<Rightarrow> nat \<Rightarrow> nat \<Rightarrow> (nat \<times> heap_inner \<times> (nat \<Rightarrow> byte)) option" where
  "realloc h data ptr sz align new_size = do {
     (new_ptr, h1) \<leftarrow> alloc_locked h new_size align;
     if new_ptr = 0 then Some (0, h1, data)
     else do {
       let data1 = copy_bytes data ptr new_ptr (min sz new_size);
       h2 \<leftarrow> dealloc h1 ptr align;
       Some (new_ptr, h2, data1)
     }
   }"

text \<open>
  \<open>heap::init\<close>: the heap is the last 16 MB of the largest usable region of the boot
  memory map, given here as (start, end, usable).
\<close>

definition HEAP_BYTES :: nat where "HEAP_BYTES = 16 * 1024 * 1024"

fun best_region :: "(nat \<times> nat \<times> bool) list \<Rightarrow> nat \<times> nat \<Rightarrow> (nat \<times> nat) option" where
  "best_region [] best = Some best"
| "best_region ((s, e, usable) # rs) (best_start, best_len) =
     (if usable then
        (if e < s then None
         else if e - s > best_len then best_region rs (s, e - s)
         else best_region rs (best_start, best_len))
      else best_region rs (best_start, best_len))"

definition heap_init :: "(nat \<times> nat \<times> bool) list \<Rightarrow> heap_inner \<Rightarrow> (bool \<times> heap_inner) option" where
  "heap_init regions h = do {
     (best_start, best_len) \<leftarrow> best_region regions (0, 0);
     if best_len < HEAP_BYTES then Some (False, h)
     else do {
       t \<leftarrow> usz (best_start + best_len);
       h' \<leftarrow> heap_setup (t - HEAP_BYTES) HEAP_BYTES h;
       Some (True, h')
     }
   }"

section \<open>Alignment\<close>

definition up :: "nat \<Rightarrow> nat \<Rightarrow> nat" where
  "up v a = (v + a - 1) div a * a"

lemma and_not_mask_int: "(x::int) AND NOT (2 ^ k - 1) = x div 2 ^ k * 2 ^ k"
proof -
  have "x AND NOT (mask k) = push_bit k (drop_bit k x)"
    by (rule bit_eqI) (auto simp: bit_simps)
  then show ?thesis
    by (simp add: mask_eq_exp_minus_1 push_bit_eq_mult drop_bit_eq_div)
qed

lemma align_up_eq:
  assumes "a = 2 ^ k"
  shows "align_up v a = (if v + a < 2 ^ 64 then Some (up v a) else None)"
proof -
  have "1 \<le> v + a"
    using assms by (simp add: Suc_leI)
  then have "int (v + a) - 1 = int (v + a - 1)"
    by (simp add: of_nat_diff)
  then have "(int (v + a) - 1) AND NOT (int a - 1) = int ((v + a - 1) div a * a)"
    using assms and_not_mask_int [of "int (v + a - 1)" k]
    by (simp add: zdiv_int)
  then show ?thesis
    by (simp add: align_up_def usz_def up_def nat_mult_distrib)
qed

lemma up_bounds:
  assumes "0 < a"
  shows "v \<le> up v a" and "up v a < v + a" and "up v a mod a = 0"
proof -
  have e: "up v a = v + a - 1 - (v + a - 1) mod a"
    by (simp add: up_def minus_mod_eq_div_mult)
  have m: "(v + a - 1) mod a < a" using assms by simp
  show "v \<le> up v a" using e m by linarith
  show "up v a < v + a" using e assms by linarith
  show "up v a mod a = 0" by (simp add: up_def)
qed

lemma up_id:
  assumes "0 < a" and "v mod a = 0"
  shows "up v a = v"
proof -
  have "v \<le> up v a" and "up v a < v + a" and "up v a mod a = 0"
    using up_bounds [OF assms(1)] by blast+
  then have "a dvd up v a - v" and "up v a - v < a"
    using assms by (auto simp: mod_eq_0_iff_dvd dvd_diff_nat)
  then have "up v a - v = 0"
    by (meson nat_dvd_not_less neq0_conv)
  with \<open>v \<le> up v a\<close> show ?thesis by simp
qed

section \<open>The abstract allocator: first fit on lists\<close>

text \<open>
  A block is an (address, size) pair.  \<open>ff_alloc\<close> takes the first block that is large
  enough, splits it where the rest is worth keeping, and leaves the order of the list.
\<close>

definition take_block ::
  "nat \<Rightarrow> (nat \<times> nat) list \<Rightarrow> nat \<Rightarrow> nat \<Rightarrow> (nat \<times> nat) list \<Rightarrow> (nat \<times> nat) \<times> (nat \<times> nat) list" where
  "take_block tot pre a sz post =
     (let r = up (a + tot) 16 in
       if r < a + sz \<and> MIN_BLOCK \<le> a + sz - r then ((a, r - a), pre @ (r, a + sz - r) # post)
       else ((a, sz), pre @ post))"

fun ff_alloc :: "nat \<Rightarrow> (nat \<times> nat) list \<Rightarrow> ((nat \<times> nat) \<times> (nat \<times> nat) list) option" where
  "ff_alloc tot [] = None"
| "ff_alloc tot ((a, sz) # fs) =
     (if tot \<le> sz then Some (take_block tot [] a sz fs)
      else map_option (\<lambda>(b, fs'). (b, (a, sz) # fs')) (ff_alloc tot fs))"

lemma ff_alloc_None: "ff_alloc tot fs = None \<longleftrightarrow> (\<forall>x \<in> set fs. snd x < tot)"
  by (induction tot fs rule: ff_alloc.induct) auto

lemma take_block_Cons:
  "take_block tot (x # pre) a sz post =
     (fst (take_block tot pre a sz post), x # snd (take_block tot pre a sz post))"
  by (simp add: take_block_def Let_def)

lemma ff_alloc_Some:
  "ff_alloc tot fs = Some r \<Longrightarrow>
   \<exists>pre a sz post. fs = pre @ (a, sz) # post \<and> (\<forall>x \<in> set pre. snd x < tot) \<and> tot \<le> sz \<and>
     r = take_block tot pre a sz post"
proof (induction tot fs arbitrary: r rule: ff_alloc.induct)
  case (1 tot)
  then show ?case by simp
next
  case (2 tot a sz fs)
  show ?case
  proof (cases "tot \<le> sz")
    case True
    with 2 have "(a, sz) # fs = [] @ (a, sz) # fs" and "r = take_block tot [] a sz fs"
      by auto
    with True show ?thesis
      by (metis empty_iff empty_set)
  next
    case False
    with 2(2) obtain r2 where f: "ff_alloc tot fs = Some r2" and r: "r = (fst r2, (a, sz) # snd r2)"
      by (auto simp: case_prod_beta)
    from 2(1) [OF False f] obtain pre a' sz' post where
      "fs = pre @ (a', sz') # post" and "\<forall>x \<in> set pre. snd x < tot" and "tot \<le> sz'"
      and "r2 = take_block tot pre a' sz' post"
      by blast
    with False r have "(a, sz) # fs = ((a, sz) # pre) @ (a', sz') # post"
      and "\<forall>x \<in> set ((a, sz) # pre). snd x < tot"
      and "r = take_block tot ((a, sz) # pre) a' sz' post" and "tot \<le> sz'"
      by (auto simp: take_block_Cons)
    then show ?thesis by blast
  qed
qed

section \<open>The representation invariant\<close>

fun fseg :: "(nat \<Rightarrow> free_block) \<Rightarrow> nat \<Rightarrow> (nat \<times> nat) list \<Rightarrow> nat \<Rightarrow> bool" where
  "fseg m p [] q \<longleftrightarrow> p = q"
| "fseg m p ((a, sz) # fs) q \<longleftrightarrow> p = a \<and> a \<noteq> 0 \<and> blk_size (m a) = sz \<and> fseg m (blk_next (m a)) fs q"

definition disj :: "nat \<times> nat \<Rightarrow> nat \<times> nat \<Rightarrow> bool" where
  "disj x y \<longleftrightarrow> fst x + snd x \<le> fst y \<or> fst y + snd y \<le> fst x"

definition in_arena :: "nat \<Rightarrow> nat \<Rightarrow> nat \<times> nat \<Rightarrow> bool" where
  "in_arena lo hi b \<longleftrightarrow> lo \<le> fst b \<and> fst b + snd b \<le> hi \<and> fst b mod 16 = 0 \<and> 16 \<le> snd b"

definition blocks_ok :: "nat \<Rightarrow> nat \<Rightarrow> (nat \<times> nat) list \<Rightarrow> bool" where
  "blocks_ok lo hi bs \<longleftrightarrow> (\<forall>b \<in> set bs. in_arena lo hi b) \<and> sorted_wrt disj bs"

definition heap_inv ::
  "nat \<Rightarrow> nat \<Rightarrow> (nat \<times> nat) list \<Rightarrow> (nat \<times> nat) list \<Rightarrow> heap_inner \<Rightarrow> bool" where
  "heap_inv lo hi fs live h \<longleftrightarrow>
     fseg (hmem h) (free_head h) fs 0 \<and> (\<forall>(a, sz) \<in> set live. blk_size (hmem h a) = sz) \<and>
     blocks_ok lo hi (fs @ live) \<and> 0 < lo \<and> hi + 32 \<le> 2 ^ 64"

lemma disj_sym: "disj x y \<longleftrightarrow> disj y x"
  by (auto simp: disj_def)

lemma blocks_ok_middle:
  "blocks_ok lo hi (xs @ b # ys) \<longleftrightarrow>
   in_arena lo hi b \<and> (\<forall>x \<in> set (xs @ ys). disj b x) \<and> blocks_ok lo hi (xs @ ys)"
  by (auto simp: blocks_ok_def sorted_wrt_append disj_sym)

lemma blocks_ok_Cons:
  "blocks_ok lo hi (b # ys) \<longleftrightarrow>
   in_arena lo hi b \<and> (\<forall>x \<in> set ys. disj b x) \<and> blocks_ok lo hi ys"
  using blocks_ok_middle [of lo hi "[]"] by simp

text \<open>The order of the blocks does not matter, only which blocks there are.\<close>

lemma blocks_ok_swap: "blocks_ok lo hi (xs @ ys) \<longleftrightarrow> blocks_ok lo hi (ys @ xs)"
  by (auto simp: blocks_ok_def sorted_wrt_append disj_sym)

lemma blocks_ok_distinct:
  assumes "blocks_ok lo hi bs"
  shows "distinct (map fst bs)"
  using assms
proof (induction bs)
  case Nil
  show ?case by simp
next
  case (Cons b bs)
  then show ?case
    by (fastforce simp: blocks_ok_Cons in_arena_def disj_def blocks_ok_def)
qed

lemma fseg_append: "fseg m p (xs @ ys) q \<longleftrightarrow> (\<exists>r. fseg m p xs r \<and> fseg m r ys q)"
  by (induction m p xs q rule: fseg.induct) auto

lemma fseg_upd: "a \<notin> fst ` set xs \<Longrightarrow> fseg (m(a := v)) p xs q \<longleftrightarrow> fseg m p xs q"
  by (induction m p xs q rule: fseg.induct) auto

lemma fseg_relink:
  assumes "fseg m p (xs @ [(l, sz)]) q" and "l \<notin> fst ` set xs"
  shows "fseg (m(l := (m l)\<lparr>blk_next := r\<rparr>)) p (xs @ [(l, sz)]) r"
  using assms by (auto simp: fseg_append fseg_upd)

lemma inside_fresh:
  assumes "blocks_ok lo hi (xs @ (a, sz) # ys)" and "a < r" and "r < a + sz"
  shows "r \<notin> fst ` set (xs @ (a, sz) # ys)"
proof
  assume "r \<in> fst ` set (xs @ (a, sz) # ys)"
  then obtain t where "(r, t) = (a, sz) \<or> (r, t) \<in> set (xs @ ys)"
    by (auto, blast, blast)
  with assms(2) have m: "(r, t) \<in> set (xs @ ys)" by auto
  then have "disj (a, sz) (r, t)"
    using assms(1) by (simp only: blocks_ok_middle)
  moreover have "in_arena lo hi (r, t)"
    using assms(1) m by (auto simp: blocks_ok_def)
  ultimately show False
    using assms by (auto simp: disj_def in_arena_def)
qed

lemma disj_inside: "disj (a, sz) x \<Longrightarrow> a \<le> r \<Longrightarrow> r + t \<le> a + sz \<Longrightarrow> disj (r, t) x"
  by (auto simp: disj_def)

lemma split_blocks_ok:
  assumes ok: "blocks_ok lo hi (xs @ (a, sz) # ys @ zs)"
    and r: "a + 16 \<le> r" "r + 16 \<le> a + sz" "r mod 16 = 0"
  shows "blocks_ok lo hi ((xs @ (r, a + sz - r) # ys) @ (a, r - a) # zs)"
proof -
  have ar: "in_arena lo hi (a, sz)" and dj: "\<forall>x \<in> set (xs @ ys @ zs). disj (a, sz) x"
    and rest: "blocks_ok lo hi (xs @ ys @ zs)"
    using ok by (auto simp: blocks_ok_middle)
  have "in_arena lo hi (r, a + sz - r)" and "in_arena lo hi (a, r - a)"
    and "disj (a, r - a) (r, a + sz - r)"
    using ar r by (auto simp: in_arena_def disj_def)
  moreover have "\<forall>x \<in> set (xs @ ys @ zs). disj (r, a + sz - r) x"
    and "\<forall>x \<in> set (xs @ ys @ zs). disj (a, r - a) x"
    using dj r by (metis disj_inside [of a sz] le_add1 le_add_diff_inverse le_trans order_refl add_leD1)+
  moreover have "blocks_ok lo hi (xs @ (r, a + sz - r) # ys @ zs)"
    using calculation rest by (simp add: blocks_ok_middle)
  ultimately show ?thesis
    using blocks_ok_middle [of lo hi "xs @ (r, a + sz - r) # ys" "(a, r - a)" zs]
    by (auto simp: disj_sym)
qed

lemma move_blocks_ok:
  "blocks_ok lo hi (xs @ b # ys @ zs) \<longleftrightarrow> blocks_ok lo hi ((xs @ ys) @ b # zs)"
  using blocks_ok_middle [of lo hi xs b "ys @ zs"] blocks_ok_middle [of lo hi "xs @ ys" b zs]
  by simp

section \<open>The loop\<close>

lemma loop_skip:
  "fseg (hmem h) cur (pre @ (a, sz) # post) 0 \<Longrightarrow> \<forall>x \<in> set pre. snd x < tot \<Longrightarrow>
   alloc_loop h off tot prev cur =
   alloc_loop h off tot (if pre = [] then prev else fst (last pre)) a"
proof (induction pre arbitrary: prev cur)
  case Nil
  then show ?case by simp
next
  case (Cons x pre)
  obtain c t where x: "x = (c, t)" by fastforce
  with Cons.prems have "cur = c" "c \<noteq> 0" "blk_size (hmem h c) < tot"
    and "fseg (hmem h) (blk_next (hmem h c)) (pre @ (a, sz) # post) 0"
    by auto
  with Cons.IH [of "blk_next (hmem h c)" c] Cons.prems x show ?case
    by (subst alloc_loop.simps) auto
qed

lemma loop_none:
  "fseg (hmem h) cur fs 0 \<Longrightarrow> \<forall>x \<in> set fs. snd x < tot \<Longrightarrow>
   alloc_loop h off tot prev cur = Some (0, h)"
proof (induction fs arbitrary: prev cur)
  case Nil
  then show ?case by (subst alloc_loop.simps) simp
next
  case (Cons x fs)
  then show ?case
    by (cases x) (subst alloc_loop.simps, auto)
qed

text \<open>The memory and the list head after the hit, as functions of the predecessor.\<close>

definition relink :: "heap_inner \<Rightarrow> nat \<Rightarrow> nat \<Rightarrow> heap_inner" where
  "relink h prev nxt =
     (if prev = 0 then h\<lparr>free_head := nxt\<rparr>
      else h\<lparr>hmem := (hmem h)(prev := (hmem h prev)\<lparr>blk_next := nxt\<rparr>)\<rparr>)"

lemma relink_size [simp]: "blk_size (hmem (relink h p n) x) = blk_size (hmem h x)"
  by (simp add: relink_def)

lemma relink_frame [simp]:
  "h_used (relink h p n) = h_used h" "h_allocs (relink h p n) = h_allocs h"
  "h_total (relink h p n) = h_total h" "h_frees (relink h p n) = h_frees h"
  by (simp_all add: relink_def)

definition count_alloc :: "nat \<Rightarrow> heap_inner \<Rightarrow> heap_inner" where
  "count_alloc tot h = h\<lparr>h_used := h_used h + tot, h_allocs := h_allocs h + 1\<rparr>"

lemma loop_hit:
  assumes "a \<noteq> 0" and "blk_size (hmem h a) = sz" and "tot \<le> sz" and "a + sz + 32 \<le> 2 ^ 64"
  shows "alloc_loop h off tot prev a = Some (a + off, count_alloc tot
    (let r = up (a + tot) 16 in
      if r < a + sz \<and> MIN_BLOCK \<le> a + sz - r
      then relink (h\<lparr>hmem := (hmem h)(r := \<lparr>blk_size = a + sz - r, blk_next = blk_next (hmem h a)\<rparr>,
                                       a := \<lparr>blk_size = r - a, blk_next = 0\<rparr>)\<rparr>) prev r
      else (let h2 = relink h prev (blk_next (hmem h a))
            in h2\<lparr>hmem := (hmem h2)(a := (hmem h2 a)\<lparr>blk_next := 0\<rparr>)\<rparr>)))"
proof -
  have "align_up (a + tot) 16 = Some (up (a + tot) 16)"
    using assms align_up_eq [of 16 4 "a + tot"] by simp
  moreover have "usz (a + sz) = Some (a + sz)" and "usz (a + tot) = Some (a + tot)"
    using assms by (auto simp: usz_def)
  ultimately show ?thesis
    using assms
    by (subst alloc_loop.simps) (simp add: Let_def relink_def count_alloc_def)
qed

section \<open>Refinement\<close>

lemma fseg_relink_tail:
  assumes "fseg (hmem h) (free_head h) pre c" and "distinct (map fst pre)"
    and "fseg (hmem h) n post 0" and "fst ` set pre \<inter> fst ` set post = {}"
    and "prev = (if pre = [] then 0 else fst (last pre))"
  shows "fseg (hmem (relink h prev n)) (free_head (relink h prev n)) (pre @ post) 0"
proof (cases pre rule: rev_cases)
  case Nil
  with assms show ?thesis by (simp add: relink_def)
next
  case (snoc xs y)
  obtain l sz where y: "y = (l, sz)" by fastforce
  have "l \<noteq> 0" using assms(1) snoc y by (auto simp: fseg_append)
  then have rl: "relink h prev n = h\<lparr>hmem := (hmem h)(l := (hmem h l)\<lparr>blk_next := n\<rparr>)\<rparr>"
    using assms(5) snoc y by (simp add: relink_def)
  have "fseg ((hmem h)(l := (hmem h l)\<lparr>blk_next := n\<rparr>)) (free_head h) (xs @ [(l, sz)]) n"
    using assms(1,2) snoc y by (intro fseg_relink) auto
  moreover have "fseg ((hmem h)(l := (hmem h l)\<lparr>blk_next := n\<rparr>)) n post 0"
    using assms(3,4) snoc y by (subst fseg_upd) auto
  ultimately show ?thesis
    using snoc y rl by (auto simp: fseg_append)
qed

lemma pow2_pos [simp]: "0 < (2::nat) ^ k"
  by simp

text \<open>
  An allocation that finds a block: the code's memory and head after the loop represent
  the list of the abstract allocator, with the block taken moved to the live blocks.
\<close>

lemma hit_inv:
  assumes inv: "heap_inv lo hi (pre @ (a, sz) # post) live h"
    and small: "tot \<le> sz" "16 \<le> tot" and prev: "prev = (if pre = [] then 0 else fst (last pre))"
    and r: "take_block tot pre a sz post = (b, fs')"
  shows "\<exists>h'. alloc_loop h off tot prev a = Some (fst b + off, h') \<and> heap_inv lo hi fs' (b # live) h' \<and>
     h_used h' = h_used h + tot \<and> h_allocs h' = h_allocs h + 1 \<and> h_total h' = h_total h \<and> h_frees h' = h_frees h"
proof -
  let ?m = "hmem h" and ?r = "up (a + tot) 16"
  have ok: "blocks_ok lo hi (pre @ (a, sz) # post @ live)" and lo: "0 < lo" and hi: "hi + 32 \<le> 2 ^ 64"
    and ch: "fseg ?m (free_head h) (pre @ (a, sz) # post) 0"
    and lv: "\<forall>(x, t) \<in> set live. blk_size (?m x) = t"
    using inv by (auto simp: heap_inv_def)
  from ch have c1: "fseg ?m (free_head h) pre a" and a0: "a \<noteq> 0" and sz: "blk_size (?m a) = sz"
    and c2: "fseg ?m (blk_next (?m a)) post 0"
    by (auto simp: fseg_append)
  have dst: "distinct (map fst (pre @ (a, sz) # post @ live))"
    using ok by (rule blocks_ok_distinct)
  have ar: "in_arena lo hi (a, sz)" using ok by (simp add: blocks_ok_middle)
  have run: "alloc_loop h off tot prev a = Some (a + off, count_alloc tot
      (if ?r < a + sz \<and> MIN_BLOCK \<le> a + sz - ?r
       then relink (h\<lparr>hmem := ?m(?r := \<lparr>blk_size = a + sz - ?r, blk_next = blk_next (?m a)\<rparr>,
                                  a := \<lparr>blk_size = ?r - a, blk_next = 0\<rparr>)\<rparr>) prev ?r
       else (relink h prev (blk_next (?m a)))\<lparr>hmem := (hmem (relink h prev (blk_next (?m a))))
              (a := (hmem (relink h prev (blk_next (?m a))) a)\<lparr>blk_next := 0\<rparr>)\<rparr>))"
    using loop_hit [OF a0 sz small(1)] ar hi by (simp add: in_arena_def Let_def)
  have prev_in: "prev \<noteq> 0 \<Longrightarrow> prev \<in> fst ` set pre"
    using prev by (auto split: if_splits)
  show ?thesis
  proof (cases "?r < a + sz \<and> MIN_BLOCK \<le> a + sz - ?r")
    case True
    have rb: "a + 16 \<le> ?r" "?r + 16 \<le> a + sz" "?r mod 16 = 0"
      using True small up_bounds [of 16 "a + tot"] by (auto simp: MIN_BLOCK_def)
    have fr: "?r \<notin> fst ` set (pre @ (a, sz) # post @ live)"
      using inside_fresh [OF ok, of ?r] rb by simp
    let ?h1 = "h\<lparr>hmem := ?m(?r := \<lparr>blk_size = a + sz - ?r, blk_next = blk_next (?m a)\<rparr>,
                           a := \<lparr>blk_size = ?r - a, blk_next = 0\<rparr>)\<rparr>"
    let ?h2 = "relink ?h1 prev ?r"
    have eq: "b = (a, ?r - a)" "fs' = pre @ (?r, a + sz - ?r) # post"
      using r True by (auto simp: take_block_def Let_def)
    have "fseg (hmem ?h2) (free_head ?h2) (pre @ (?r, a + sz - ?r) # post) 0"
    proof (rule fseg_relink_tail [OF _ _ _ _ prev])
      have nr: "?r \<notin> fst ` set pre" "?r \<notin> fst ` set post" "?r \<noteq> a"
        and na: "a \<notin> fst ` set pre" "a \<notin> fst ` set post"
        using fr dst by (auto simp: image_Un)
      show "fseg (hmem ?h1) (free_head ?h1) pre a"
        using c1 nr na by (simp add: fseg_upd)
      show "fseg (hmem ?h1) ?r ((?r, a + sz - ?r) # post) 0"
        using c2 nr na rb by (simp add: fseg_upd)
      show "distinct (map fst pre)" using dst by simp
      show "fst ` set pre \<inter> fst ` set ((?r, a + sz - ?r) # post) = {}"
        using nr dst by auto
    qed
    moreover have "\<forall>(x, t) \<in> set ((a, ?r - a) # live). blk_size (hmem ?h2 x) = t"
    proof (clarify)
      fix x t assume "(x, t) \<in> set ((a, ?r - a) # live)"
      then consider "x = a" "t = ?r - a" | "(x, t) \<in> set live" "x \<in> fst ` set live" by force
      then show "blk_size (hmem ?h2 x) = t"
      proof cases
        case 2
        have "a \<notin> fst ` set live" and "?r \<notin> fst ` set live"
          using dst fr by (simp_all add: image_Un)
        with 2 have "x \<noteq> a" "x \<noteq> ?r" by metis+
        with 2 lv show ?thesis by auto
      qed simp
    qed
    moreover have "blocks_ok lo hi (fs' @ b # live)"
      using split_blocks_ok [OF ok rb] eq by simp
    ultimately show ?thesis
      using run True eq lo hi by (auto simp: heap_inv_def count_alloc_def)
  next
    case False
    let ?h2 = "relink h prev (blk_next (?m a))"
    have eq: "b = (a, sz)" "fs' = pre @ post"
      using r False by (auto simp: take_block_def Let_def split: if_splits)
    have "fseg (hmem ?h2) (free_head ?h2) (pre @ post) 0"
      by (rule fseg_relink_tail [OF c1 _ c2 _ prev]) (use dst in auto)
    then have "fseg ((hmem ?h2)(a := (hmem ?h2 a)\<lparr>blk_next := 0\<rparr>)) (free_head ?h2) (pre @ post) 0"
      using dst by (subst fseg_upd) auto
    moreover have "\<forall>(x, t) \<in> set ((a, sz) # live).
        blk_size (((hmem ?h2)(a := (hmem ?h2 a)\<lparr>blk_next := 0\<rparr>)) x) = t"
      using lv sz by auto
    moreover have "blocks_ok lo hi (fs' @ b # live)"
      using ok move_blocks_ok [of lo hi pre "(a, sz)" post live] eq by simp
    ultimately show ?thesis
      using run False eq lo hi by (auto simp: heap_inv_def count_alloc_def)
  qed
qed

text \<open>
  \<open>alloc_locked\<close> against the abstract allocator: the request is the payload behind an
  aligned header offset; a null pointer and an unchanged heap where first fit finds
  nothing, and otherwise the pointer \<open>off\<close> bytes into the block first fit takes.
\<close>

definition hdr_off :: "nat \<Rightarrow> nat" where
  "hdr_off align = up BLOCK_HEADER align"

lemma hdr_off_ge: "0 < align \<Longrightarrow> 16 \<le> hdr_off align"
  using up_bounds [of align BLOCK_HEADER] by (simp add: hdr_off_def BLOCK_HEADER_def)

lemma alloc_locked_loop:
  assumes "align = 2 ^ k" and "k < 64" and "hdr_off align + sz < 2 ^ 64"
  shows "alloc_locked h sz align =
    (if free_head h = 0 then Some (0, h)
     else alloc_loop h (hdr_off align) (hdr_off align + sz) 0 (free_head h))"
proof -
  have "(2::nat) ^ k \<le> 2 ^ 63" using assms(2) by (intro power_increasing) auto
  then have "align_up BLOCK_HEADER align = Some (hdr_off align)"
    using assms(1) align_up_eq [OF assms(1)] by (simp add: hdr_off_def BLOCK_HEADER_def)
  then show ?thesis
    using assms(3) by (simp add: alloc_locked_def usz_def)
qed

lemma alloc_none:
  assumes inv: "heap_inv lo hi fs live h" and al: "align = 2 ^ k" "k < 64" "hdr_off align + sz < 2 ^ 64"
    and ff: "ff_alloc (hdr_off align + sz) fs = None"
  shows "alloc_locked h sz align = Some (0, h)"
  using inv ff loop_none [of h "free_head h" fs "hdr_off align + sz" "hdr_off align" 0]
  by (auto simp: alloc_locked_loop [OF al] heap_inv_def ff_alloc_None)

lemma alloc_some:
  assumes inv: "heap_inv lo hi fs live h" and al: "align = 2 ^ k" "k < 64" "hdr_off align + sz < 2 ^ 64"
    and ff: "ff_alloc (hdr_off align + sz) fs = Some (b, fs')"
  shows "\<exists>h'. alloc_locked h sz align = Some (fst b + hdr_off align, h') \<and> heap_inv lo hi fs' (b # live) h' \<and>
     h_used h' = h_used h + (hdr_off align + sz) \<and> h_allocs h' = h_allocs h + 1 \<and>
     h_total h' = h_total h \<and> h_frees h' = h_frees h"
proof -
  from ff_alloc_Some [OF ff] obtain pre a sz' post where fs: "fs = pre @ (a, sz') # post"
    and sm: "\<forall>x \<in> set pre. snd x < hdr_off align + sz" and big: "hdr_off align + sz \<le> sz'"
    and tk: "take_block (hdr_off align + sz) pre a sz' post = (b, fs')"
    by metis
  have ch: "fseg (hmem h) (free_head h) (pre @ (a, sz') # post) 0"
    using inv fs by (simp add: heap_inv_def)
  then have "free_head h \<noteq> 0"
    by (cases pre) auto
  then have "alloc_locked h sz align =
      alloc_loop h (hdr_off align) (hdr_off align + sz) (if pre = [] then 0 else fst (last pre)) a"
    using loop_skip [OF ch sm] by (simp add: alloc_locked_loop [OF al])
  moreover have "16 \<le> hdr_off align + sz"
    using hdr_off_ge [of align] al by simp
  ultimately show ?thesis
    using hit_inv [of lo hi pre a sz' post live h "hdr_off align + sz" _ b fs' "hdr_off align"] inv fs big tk
    by simp
qed

section \<open>Release and set-up\<close>

lemma align_up_header:
  assumes "align = 2 ^ k" and "k < 64"
  shows "align_up BLOCK_HEADER align = Some (hdr_off align)"
proof -
  have "(2::nat) ^ k \<le> 2 ^ 63" using assms(2) by (intro power_increasing) auto
  then show ?thesis
    using assms(1) align_up_eq [OF assms(1)] by (simp add: hdr_off_def BLOCK_HEADER_def)
qed

lemma dealloc_inv:
  assumes inv: "heap_inv lo hi fs (xs @ (a, sz) # ys) h" and al: "align = 2 ^ k" "k < 64"
  shows "\<exists>h'. dealloc h (a + hdr_off align) align = Some h' \<and> heap_inv lo hi ((a, sz) # fs) (xs @ ys) h' \<and>
    h_used h' = h_used h - sz \<and> h_frees h' = h_frees h + 1 \<and> h_allocs h' = h_allocs h \<and> h_total h' = h_total h"
proof -
  have ok: "blocks_ok lo hi ((fs @ xs) @ (a, sz) # ys)" and lo: "0 < lo"
    and ch: "fseg (hmem h) (free_head h) fs 0" and sz: "blk_size (hmem h a) = sz"
    and lv: "\<forall>(x, t) \<in> set (xs @ ys). blk_size (hmem h x) = t" and hi: "hi + 32 \<le> 2 ^ 64"
    using inv by (auto simp: heap_inv_def)
  have "in_arena lo hi (a, sz)" using ok unfolding blocks_ok_middle by blast
  then have a0: "a \<noteq> 0" using lo by (auto simp: in_arena_def)
  have na: "a \<notin> fst ` set fs" using blocks_ok_distinct [OF ok] by auto
  have "blocks_ok lo hi (((a, sz) # fs) @ (xs @ ys))"
    using ok blocks_ok_middle [of lo hi "fs @ xs" "(a, sz)" ys] blocks_ok_Cons [of lo hi "(a, sz)" "fs @ xs @ ys"]
    by simp
  moreover have "fseg ((hmem h)(a := (hmem h a)\<lparr>blk_next := free_head h\<rparr>)) a ((a, sz) # fs) 0"
    using ch na a0 sz by (simp add: fseg_upd)
  moreover have "\<forall>(x, t) \<in> set (xs @ ys). blk_size (((hmem h)(a := (hmem h a)\<lparr>blk_next := free_head h\<rparr>)) x) = t"
    using lv by (simp add: case_prod_beta) metis
  ultimately show ?thesis
    using a0 sz lo hi align_up_header [OF al]
    by (simp add: dealloc_def heap_inv_def)
qed

lemma heap_setup_inv:
  assumes "base = up base_phys 16 + PMO" and "64 \<le> sz" and "base_phys + PMO + sz + 32 \<le> 2 ^ 64"
  shows "\<exists>h' n. heap_setup base_phys sz h = Some h' \<and> heap_inv base (base_phys + PMO + sz) [(base, n)] [] h' \<and>
    n + BLOCK_HEADER + (base - (base_phys + PMO)) = sz \<and> h_used h' = 0"
proof -
  have u: "base_phys \<le> up base_phys 16" "up base_phys 16 < base_phys + 16" "up base_phys 16 mod 16 = 0"
    using up_bounds [of 16 base_phys] by auto
  have a: "align_up base_phys 16 = Some (up base_phys 16)"
    using align_up_eq [of 16 4 base_phys] assms by (simp add: PMO_def)
  have m: "base mod 16 = 0"
    using u(3) assms(1) by (auto simp: PMO_def)
  show ?thesis
    using a u m assms
    by (auto simp: heap_setup_def usz_def Let_def heap_inv_def blocks_ok_def in_arena_def BLOCK_HEADER_def
        PMO_def mod_eq_0_iff_dvd)
qed

section \<open>What the abstract allocator keeps\<close>

lemma take_block_size:
  assumes "take_block tot pre a sz post = (b, fs')" and "tot \<le> sz"
  shows "tot \<le> snd b"
    and "snd b + sum_list (map snd fs') = sz + sum_list (map snd pre) + sum_list (map snd post)"
  using assms up_bounds(1) [of 16 "a + tot"]
  by (auto simp: take_block_def Let_def split: if_splits)

lemma ff_alloc_size:
  assumes "ff_alloc tot fs = Some (b, fs')"
  shows "tot \<le> snd b" and "snd b + sum_list (map snd fs') = sum_list (map snd fs)"
proof -
  from ff_alloc_Some [OF assms] obtain pre a sz post where fs: "fs = pre @ (a, sz) # post"
    and big: "tot \<le> sz" and tk: "take_block tot pre a sz post = (b, fs')"
    by metis
  show "tot \<le> snd b" using take_block_size(1) [OF tk big] .
  show "snd b + sum_list (map snd fs') = sum_list (map snd fs)"
    using take_block_size(2) [OF tk big] fs by simp
qed

section \<open>The allocator interface\<close>

text \<open>
  What a client of the heap relies on: with \<open>L\<close> the live payloads as (pointer, size,
  alignment), a good request answers null and changes nothing or adds a payload, a live
  payload can be released, and live payloads never share an address.
\<close>

definition payload_disj :: "nat \<times> nat \<times> nat \<Rightarrow> nat \<times> nat \<times> nat \<Rightarrow> bool" where
  "payload_disj x y \<longleftrightarrow> fst x + fst (snd x) \<le> fst y \<or> fst y + fst (snd y) \<le> fst x"

definition good_request :: "nat \<Rightarrow> nat \<Rightarrow> bool" where
  "good_request sz align \<longleftrightarrow> (\<exists>k < 64. align = 2 ^ k) \<and> hdr_off align + sz < 2 ^ 64"

locale allocator =
  fixes alloc :: "'h \<Rightarrow> nat \<Rightarrow> nat \<Rightarrow> (nat \<times> 'h) option"
    and free :: "'h \<Rightarrow> nat \<Rightarrow> nat \<Rightarrow> 'h option"
    and valid :: "'h \<Rightarrow> (nat \<times> nat \<times> nat) list \<Rightarrow> bool"
    and good :: "nat \<Rightarrow> nat \<Rightarrow> bool"
  assumes alloc_total: "valid h L \<Longrightarrow> good sz al \<Longrightarrow>
      (\<exists>p h'. alloc h sz al = Some (p, h') \<and> (p = 0 \<and> h' = h \<or> p \<noteq> 0 \<and> valid h' ((p, sz, al) # L)))"
    and free_total: "valid h (L1 @ (p, sz, al) # L2) \<Longrightarrow> (\<exists>h'. free h p al = Some h' \<and> valid h' (L1 @ L2))"
    and valid_disj: "valid h L \<Longrightarrow> sorted_wrt payload_disj L"
begin

lemma two_allocs:
  assumes "valid h L" and "good s1 a1" and "good s2 a2"
    and "alloc h s1 a1 = Some (p, h1)" and "p \<noteq> 0" and "alloc h1 s2 a2 = Some (q, h2)" and "q \<noteq> 0"
  shows "valid h2 ((q, s2, a2) # (p, s1, a1) # L) \<and> (p + s1 \<le> q \<or> q + s2 \<le> p)"
proof -
  have "valid h1 ((p, s1, a1) # L)"
    using alloc_total [OF assms(1,2)] assms(4,5) by auto
  then have v: "valid h2 ((q, s2, a2) # (p, s1, a1) # L)"
    using alloc_total [OF _ assms(3), of h1] assms(6,7) by fastforce
  with valid_disj [OF v] show ?thesis
    by (auto simp: payload_disj_def)
qed

end

datatype heap_op = HAlloc nat nat | HFree nat

text \<open>
  A client's run: requests are served in order, the \<open>i\<close>-th live payload is released,
  and a null answer leaves the client without the payload.
\<close>

fun script_run ::
  "('h \<Rightarrow> nat \<Rightarrow> nat \<Rightarrow> (nat \<times> 'h) option) \<Rightarrow> ('h \<Rightarrow> nat \<Rightarrow> nat \<Rightarrow> 'h option) \<Rightarrow>
   'h \<Rightarrow> (nat \<times> nat \<times> nat) list \<Rightarrow> heap_op list \<Rightarrow> ('h \<times> (nat \<times> nat \<times> nat) list) option" where
  "script_run al fr h L [] = Some (h, L)"
| "script_run al fr h L (HAlloc sz a # ops) =
     (case al h sz a of None \<Rightarrow> None
      | Some (p, h') \<Rightarrow> script_run al fr h' (if p = 0 then L else (p, sz, a) # L) ops)"
| "script_run al fr h L (HFree i # ops) =
     (if i < length L then
        (case fr h (fst (L ! i)) (snd (snd (L ! i))) of None \<Rightarrow> None
         | Some h' \<Rightarrow> script_run al fr h' (take i L @ drop (Suc i) L) ops)
      else script_run al fr h L ops)"

context allocator
begin

lemma script_valid:
  assumes "valid h L" and "\<forall>sz a. HAlloc sz a \<in> set ops \<longrightarrow> good sz a"
  shows "\<exists>h' L'. script_run alloc free h L ops = Some (h', L') \<and> valid h' L'"
  using assms
proof (induction ops arbitrary: h L)
  case Nil
  then show ?case by simp
next
  case (Cons opr ops)
  show ?case
  proof (cases opr)
    case (HAlloc sz a)
    with Cons.prems obtain p h' where
      al: "alloc h sz a = Some (p, h')" and "p = 0 \<and> h' = h \<or> p \<noteq> 0 \<and> valid h' ((p, sz, a) # L)"
      using alloc_total [of h L sz a] by auto
    with Cons.prems have "valid h' (if p = 0 then L else (p, sz, a) # L)" by auto
    with Cons.IH Cons.prems HAlloc al show ?thesis by auto
  next
    case (HFree i)
    show ?thesis
    proof (cases "i < length L")
      case True
      then have "L = take i L @ (fst (L ! i), fst (snd (L ! i)), snd (snd (L ! i))) # drop (Suc i) L"
        by (simp add: id_take_nth_drop)
      with Cons.prems(1) free_total [of h "take i L" "fst (L ! i)" "fst (snd (L ! i))"
          "snd (snd (L ! i))" "drop (Suc i) L"]
      obtain h' where "free h (fst (L ! i)) (snd (snd (L ! i))) = Some h'" and "valid h' (take i L @ drop (Suc i) L)"
        by auto
      with Cons.IH Cons.prems HFree True show ?thesis by auto
    next
      case False
      with Cons.IH Cons.prems HFree show ?thesis by auto
    qed
  qed
qed

end

section \<open>The code provides the interface\<close>

definition payload_of :: "nat \<times> nat \<Rightarrow> nat \<times> nat \<times> nat \<Rightarrow> bool" where
  "payload_of blk pl \<longleftrightarrow> (case (blk, pl) of ((a, bsz), (p, sz, al)) \<Rightarrow>
     p = a + hdr_off al \<and> hdr_off al + sz \<le> bsz \<and> (\<exists>k < 64. al = 2 ^ k))"

definition heap_valid :: "nat \<Rightarrow> nat \<Rightarrow> heap_inner \<Rightarrow> (nat \<times> nat \<times> nat) list \<Rightarrow> bool" where
  "heap_valid lo hi h L \<longleftrightarrow> (\<exists>fs live. heap_inv lo hi fs live h \<and> list_all2 payload_of live L)"

lemma payload_disjI:
  "disj x y \<Longrightarrow> payload_of x u \<Longrightarrow> payload_of y v \<Longrightarrow> payload_disj u v"
  by (cases x; cases y; cases u; cases v) (auto simp: disj_def payload_of_def payload_disj_def)

lemma payloads_disj:
  "sorted_wrt disj live \<Longrightarrow> list_all2 payload_of live L \<Longrightarrow> sorted_wrt payload_disj L"
proof (induction live arbitrary: L)
  case Nil
  then show ?case by simp
next
  case (Cons b live)
  from Cons.prems(2) obtain u L' where L: "L = u # L'" and b: "payload_of b u" and t: "list_all2 payload_of live L'"
    by (auto simp: list_all2_Cons1)
  have "\<forall>v \<in> set L'. payload_disj u v"
  proof
    fix v assume "v \<in> set L'"
    with t obtain y where "y \<in> set live" and "payload_of y v"
      by (metis in_set_conv_nth list_all2_conv_all_nth)
    with Cons.prems(1) b show "payload_disj u v"
      by (auto intro: payload_disjI)
  qed
  with Cons.IH [OF _ t] Cons.prems(1) L show ?case by simp
qed

interpretation kheap: allocator alloc_locked dealloc "heap_valid lo hi" good_request for lo hi
proof unfold_locales
  fix h L sz al
  assume "heap_valid lo hi h L" and "good_request sz al"
  then obtain fs live k where inv: "heap_inv lo hi fs live h" and pl: "list_all2 payload_of live L"
    and al: "al = 2 ^ k" "k < 64" "hdr_off al + sz < 2 ^ 64"
    by (auto simp: heap_valid_def good_request_def)
  show "\<exists>p h'. alloc_locked h sz al = Some (p, h') \<and>
      (p = 0 \<and> h' = h \<or> p \<noteq> 0 \<and> heap_valid lo hi h' ((p, sz, al) # L))"
  proof (cases "ff_alloc (hdr_off al + sz) fs")
    case None
    then show ?thesis using alloc_none [OF inv al] by simp
  next
    case (Some r)
    obtain b fs' where r: "r = (b, fs')" by fastforce
    from alloc_some [OF inv al Some [unfolded r]] obtain h' where
      run: "alloc_locked h sz al = Some (fst b + hdr_off al, h')" and inv': "heap_inv lo hi fs' (b # live) h'"
      by blast
    have "payload_of b (fst b + hdr_off al, sz, al)"
      using ff_alloc_size(1) [OF Some [unfolded r]] al by (auto simp: payload_of_def split: prod.splits)
    with inv' pl have "heap_valid lo hi h' ((fst b + hdr_off al, sz, al) # L)"
      by (auto simp: heap_valid_def)
    moreover have "0 < hdr_off al" using hdr_off_ge [of al] al by simp
    ultimately show ?thesis using run by auto
  qed
next
  fix h L1 p sz al L2
  assume "heap_valid lo hi h (L1 @ (p, sz, al) # L2)"
  then obtain fs live where inv: "heap_inv lo hi fs live h" and pl: "list_all2 payload_of live (L1 @ (p, sz, al) # L2)"
    by (auto simp: heap_valid_def)
  from pl obtain xs a bsz ys where lv: "live = xs @ (a, bsz) # ys" and "list_all2 payload_of xs L1"
    and "list_all2 payload_of ys L2" and b: "payload_of (a, bsz) (p, sz, al)"
    by (auto simp: list_all2_append2 list_all2_Cons2)
  with b obtain k where "al = 2 ^ k" "k < 64" "p = a + hdr_off al" by (auto simp: payload_of_def)
  with dealloc_inv [OF inv [unfolded lv], of al k] \<open>list_all2 payload_of xs L1\<close> \<open>list_all2 payload_of ys L2\<close>
  show "\<exists>h'. dealloc h p al = Some h' \<and> heap_valid lo hi h' (L1 @ L2)"
    by (auto simp: heap_valid_def intro: list_all2_appendI)
next
  fix h L assume "heap_valid lo hi h L"
  then show "sorted_wrt payload_disj L"
    by (auto simp: heap_valid_def heap_inv_def blocks_ok_def sorted_wrt_append intro: payloads_disj)
qed

section \<open>Properties\<close>

lemma heap_valid_arena:
  assumes "heap_valid lo hi h L" and "(p, sz, al) \<in> set L"
  shows "lo < p" and "p + sz \<le> hi"
proof -
  obtain fs live where inv: "heap_inv lo hi fs live h" and pl: "list_all2 payload_of live L"
    using assms(1) by (auto simp: heap_valid_def)
  from pl assms(2) obtain b where "b \<in> set live" and b: "payload_of b (p, sz, al)"
    by (metis in_set_conv_nth list_all2_conv_all_nth)
  with inv have "in_arena lo hi b" by (auto simp: heap_inv_def blocks_ok_def)
  moreover have "0 < hdr_off al"
    using b hdr_off_ge [of al] by (auto simp: payload_of_def split: prod.splits)
  ultimately show "lo < p" and "p + sz \<le> hi"
    using b by (auto simp: payload_of_def in_arena_def split: prod.splits)
qed

lemma heap_setup_valid:
  assumes "64 \<le> sz" and "base_phys + PMO + sz + 32 \<le> 2 ^ 64"
  shows "\<exists>h'. heap_setup base_phys sz h = Some h' \<and> heap_valid (up base_phys 16 + PMO) (base_phys + PMO + sz) h' []"
  using heap_setup_inv [OF refl assms, of h] by (fastforce simp: heap_valid_def)

text \<open>C2: From a fresh heap every sequence of allocations and releases by a client runs to the
  end (no panic, no endless walk of the free list), and the payloads that are live at the
  end lie inside the heap's memory and are pairwise disjoint.
\<close>

theorem heap_script_safe:
  assumes "64 \<le> sz" and "base_phys + PMO + sz + 32 \<le> 2 ^ 64"
    and "\<forall>n a. HAlloc n a \<in> set ops \<longrightarrow> good_request n a"
  shows "\<exists>h0 h1 L. heap_setup base_phys sz h = Some h0 \<and>
     script_run alloc_locked dealloc h0 [] ops = Some (h1, L) \<and> sorted_wrt payload_disj L \<and>
     (\<forall>(p, n, a) \<in> set L. base_phys + PMO < p \<and> p + n \<le> base_phys + PMO + sz)"
proof -
  obtain h0 where h0: "heap_setup base_phys sz h = Some h0"
    and v: "heap_valid (up base_phys 16 + PMO) (base_phys + PMO + sz) h0 []"
    using heap_setup_valid [OF assms(1,2)] by blast
  from kheap.script_valid [OF v assms(3)] obtain h1 L where
    run: "script_run alloc_locked dealloc h0 [] ops = Some (h1, L)"
    and v1: "heap_valid (up base_phys 16 + PMO) (base_phys + PMO + sz) h1 L"
    by blast
  have "\<forall>(p, n, a) \<in> set L. base_phys + PMO < p \<and> p + n \<le> base_phys + PMO + sz"
    using heap_valid_arena [OF v1] up_bounds(1) [of 16 base_phys] by fastforce
  with h0 run kheap.valid_disj [OF v1] show ?thesis by blast
qed

lemma good_request_intro: "al = 2 ^ k \<Longrightarrow> k < 64 \<Longrightarrow> hdr_off al + n < 2 ^ 64 \<Longrightarrow> good_request n al"
  by (auto simp: good_request_def)

lemma hdr_off_values [simp]: "hdr_off 8 = 16" "hdr_off 16 = 16" "hdr_off 4096 = 4096"
  by (simp_all add: hdr_off_def up_def BLOCK_HEADER_def)

lemma good_requests [simp]:
  "n < 2 ^ 63 \<Longrightarrow> good_request n 8" "n < 2 ^ 63 \<Longrightarrow> good_request n 4096"
  using good_request_intro [of 8 3 n] good_request_intro [of 4096 12 n] by auto

definition zero_heap :: heap_inner where
  "zero_heap = \<lparr>hmem = (\<lambda>_. \<lparr>blk_size = 0, blk_next = 0\<rparr>), free_head = 0, h_total = 0, h_used = 0,
     h_allocs = 0, h_frees = 0\<rparr>"

theorem heap_script_safe_witness:
  "\<exists>h0 h1 L. heap_setup 0x1000000 HEAP_BYTES zero_heap = Some h0 \<and>
     script_run alloc_locked dealloc h0 [] [HAlloc 100 8, HAlloc 5000 4096, HFree 1] = Some (h1, L) \<and>
     sorted_wrt payload_disj L \<and>
     (\<forall>(p, n, a) \<in> set L. 0x1000000 + PMO < p \<and> p + n \<le> 0x1000000 + PMO + HEAP_BYTES)"
  by (rule heap_script_safe) (auto simp: HEAP_BYTES_def PMO_def)

text \<open>C19: The pointer-level allocator refines first fit on the list of free blocks: it answers
  null and leaves the heap alone exactly when no free block is large enough, and otherwise
  hands out the first block that is, split where the rest holds at least 32 bytes; no byte
  of the free blocks is lost and the block covers the request.
\<close>

theorem alloc_refines_first_fit:
  assumes "heap_inv lo hi fs live h" and "good_request sz align"
  shows "case ff_alloc (hdr_off align + sz) fs of
      None \<Rightarrow> alloc_locked h sz align = Some (0, h) \<and> (\<forall>b \<in> set fs. snd b < hdr_off align + sz)
    | Some (b, fs') \<Rightarrow> hdr_off align + sz \<le> snd b \<and>
        snd b + sum_list (map snd fs') = sum_list (map snd fs) \<and>
        (\<exists>h'. alloc_locked h sz align = Some (fst b + hdr_off align, h') \<and> heap_inv lo hi fs' (b # live) h')"
proof -
  obtain k where k: "align = 2 ^ k" "k < 64" "hdr_off align + sz < 2 ^ 64"
    using assms(2) by (auto simp: good_request_def)
  show ?thesis
  proof (cases "ff_alloc (hdr_off align + sz) fs")
    case None
    with alloc_none [OF assms(1) k None] show ?thesis
      using ff_alloc_None [of "hdr_off align + sz" fs] by simp
  next
    case (Some r)
    obtain b fs' where r: "r = (b, fs')" by fastforce
    with Some have ff: "ff_alloc (hdr_off align + sz) fs = Some (b, fs')" by simp
    from ff_alloc_size [OF ff] alloc_some [OF assms(1) k ff] show ?thesis
      by (auto simp: ff)
  qed
qed

theorem alloc_refines_first_fit_witness:
  "\<exists>lo hi fs h. fs \<noteq> [] \<and> (case ff_alloc (hdr_off 8 + 100) fs of
      None \<Rightarrow> alloc_locked h 100 8 = Some (0, h) \<and> (\<forall>b \<in> set fs. snd b < hdr_off 8 + 100)
    | Some (b, fs') \<Rightarrow> hdr_off 8 + 100 \<le> snd b \<and>
        snd b + sum_list (map snd fs') = sum_list (map snd fs) \<and>
        (\<exists>h'. alloc_locked h 100 8 = Some (fst b + hdr_off 8, h') \<and> heap_inv lo hi fs' (b # []) h'))"
proof -
  obtain h n where "heap_inv (up 0x1000000 16 + PMO) (0x1000000 + PMO + HEAP_BYTES)
      [(up 0x1000000 16 + PMO, n)] [] h"
    using heap_setup_inv [where base_phys = "0x1000000" and sz = HEAP_BYTES and h = zero_heap, OF refl]
    by (auto simp: HEAP_BYTES_def PMO_def)
  note inv = this
  show ?thesis
    by (intro exI, rule conjI [rotated], rule alloc_refines_first_fit [OF inv]) simp_all
qed

lemma payload_apart:
  assumes "sorted_wrt payload_disj (u # L)" and "v \<in> set L"
  shows "fst u + fst (snd u) \<le> fst v \<or> fst v + fst (snd v) \<le> fst u"
  using assms by (auto simp: payload_disj_def)

text \<open>C20: \<open>realloc\<close> of a live payload always returns; on success the new payload starts
  with the old bytes up to the smaller of the two sizes, every other live payload keeps
  its bytes and the old block is released; without room the answer is null and neither
  the heap nor a byte changes.
\<close>

theorem realloc_correct:
  assumes v: "heap_valid lo hi h (L1 @ (p, sz, al) # L2)" and good: "good_request new al"
  shows "\<exists>q h' data'. realloc h data p sz al new = Some (q, h', data') \<and>
     (q = 0 \<and> h' = h \<and> data' = data \<or>
      q \<noteq> 0 \<and> heap_valid lo hi h' ((q, new, al) # L1 @ L2) \<and>
      (\<forall>i < min sz new. data' (q + i) = data (p + i)) \<and>
      (\<forall>(r, n, a) \<in> set (L1 @ L2). \<forall>i < n. data' (r + i) = data (r + i)))"
proof -
  from kheap.alloc_total [OF v good] obtain q h1 where al: "alloc_locked h new al = Some (q, h1)"
    and "q = 0 \<and> h1 = h \<or> q \<noteq> 0 \<and> heap_valid lo hi h1 ((q, new, al) # L1 @ (p, sz, al) # L2)"
    by blast
  then consider "q = 0" "h1 = h" | "q \<noteq> 0" "heap_valid lo hi h1 ((q, new, al) # L1 @ (p, sz, al) # L2)"
    by blast
  then show ?thesis
  proof cases
    case 1
    with al show ?thesis by (simp add: realloc_def)
  next
    case 2
    from kheap.free_total [of lo hi h1 "(q, new, al) # L1" p sz al L2] 2
    obtain h2 where fr: "dealloc h1 p al = Some h2" and v2: "heap_valid lo hi h2 ((q, new, al) # L1 @ L2)"
      by auto
    note apart = payload_apart [OF kheap.valid_disj [OF v2]]
    let ?d = "copy_bytes data p q (min sz new)"
    have "\<forall>(r, n, a) \<in> set (L1 @ L2). \<forall>i < n. ?d (r + i) = data (r + i)"
      using apart by (fastforce simp: copy_bytes_def)
    moreover have "\<forall>i < min sz new. ?d (q + i) = data (p + i)"
      by (simp add: copy_bytes_def)
    ultimately show ?thesis
      using al fr v2 2(1) by (auto simp: realloc_def Let_def)
  qed
qed

lemma fresh_then_alloc:
  assumes "good_request n a"
  shows "\<exists>h0 p h1. heap_setup 0x1000000 HEAP_BYTES zero_heap = Some h0 \<and> alloc_locked h0 n a = Some (p, h1) \<and>
    (p = 0 \<or> heap_valid (0x1000000 + PMO) (0x1000000 + PMO + HEAP_BYTES) h1 [(p, n, a)])"
proof -
  have u: "up 0x1000000 16 = 0x1000000" by (rule up_id) simp_all
  obtain h0 where h0: "heap_setup 0x1000000 HEAP_BYTES zero_heap = Some h0"
    and v: "heap_valid (0x1000000 + PMO) (0x1000000 + PMO + HEAP_BYTES) h0 []"
    using heap_setup_valid [of HEAP_BYTES "0x1000000" zero_heap] u by (auto simp: HEAP_BYTES_def PMO_def)
  with kheap.alloc_total [OF v assms] show ?thesis by fastforce
qed

text \<open>Alignment as the code has it: the pointer is always a multiple of 16, and for a
  request aligned to more than that it is the block address plus the alignment, so it is
  aligned exactly when the block address is.
\<close>

theorem alloc_alignment:
  assumes inv: "heap_inv lo hi fs live h" and good: "good_request sz align"
    and run: "alloc_locked h sz align = Some (p, h')" and "p \<noteq> 0"
  shows "p mod 16 = 0 \<and>
    (\<exists>a n. (a, n) \<in> set fs \<and> (if 16 \<le> align then p = a + align \<and> (align dvd p \<longleftrightarrow> align dvd a) else p = a + 16))"
proof -
  obtain k where k: "align = 2 ^ k" "k < 64" "hdr_off align + sz < 2 ^ 64"
    using good by (auto simp: good_request_def)
  obtain b fs' where ff: "ff_alloc (hdr_off align + sz) fs = Some (b, fs')"
    using alloc_none [OF inv k] run \<open>p \<noteq> 0\<close> by (cases "ff_alloc (hdr_off align + sz) fs") auto
  from ff_alloc_Some [OF ff] obtain pre a n post where fs: "fs = pre @ (a, n) # post"
    and tk: "take_block (hdr_off align + sz) pre a n post = (b, fs')" by metis
  have a: "fst b = a" using tk by (auto simp: take_block_def Let_def split: if_splits)
  have p: "p = a + hdr_off align"
    using alloc_some [OF inv k ff] run a by auto
  have "in_arena lo hi (a, n)" using inv fs by (auto simp: heap_inv_def blocks_ok_def)
  then have a16: "16 dvd a" by (auto simp: in_arena_def)
  show ?thesis
  proof (cases "16 \<le> align")
    case True
    have "4 \<le> k"
    proof (rule ccontr)
      assume "\<not> 4 \<le> k"
      then have "(2::nat) ^ k < 2 ^ 4" by (intro power_strict_increasing) auto
      with True k show False by simp
    qed
    then have d16: "16 dvd align" using le_imp_power_dvd [OF \<open>4 \<le> k\<close>, of "2::nat"] k by simp
    have "hdr_off align = align"
    proof -
      have "(align + 15) div align = 1" using True by (subst le_div_geq) auto
      then show ?thesis by (simp add: hdr_off_def up_def BLOCK_HEADER_def add.commute)
    qed
    with p a16 d16 fs True show ?thesis by auto
  next
    case False
    have "k < 4"
    proof (rule ccontr)
      assume "\<not> k < 4"
      then have "(2::nat) ^ 4 \<le> 2 ^ k" by (intro power_increasing) auto
      with False k show False by simp
    qed
    then have "k = 0 \<or> k = 1 \<or> k = 2 \<or> k = 3" by auto
    then have "hdr_off align = 16"
      using k by (auto simp: hdr_off_def up_def BLOCK_HEADER_def)
    with p a16 fs False show ?thesis by auto
  qed
qed

lemma fresh_heap:
  "\<exists>h0. heap_setup 0x1000000 HEAP_BYTES zero_heap = Some h0 \<and>
     heap_inv (0x1000000 + PMO) (0x1000000 + PMO + HEAP_BYTES) [(0x1000000 + PMO, 16777200)] [] h0"
proof -
  have "up 0x1000000 16 = 0x1000000" by (rule up_id) simp_all
  then obtain h0 n where "heap_setup 0x1000000 HEAP_BYTES zero_heap = Some h0"
    and "heap_inv (0x1000000 + PMO) (0x1000000 + PMO + HEAP_BYTES) [(0x1000000 + PMO, n)] [] h0"
    and "n + BLOCK_HEADER + (0x1000000 + PMO - (0x1000000 + PMO)) = HEAP_BYTES"
    using heap_setup_inv [where base_phys = "0x1000000" and sz = HEAP_BYTES and h = zero_heap, OF refl]
    by (auto simp: HEAP_BYTES_def PMO_def)
  moreover from this have "n = 16777200" by (simp add: BLOCK_HEADER_def HEAP_BYTES_def)
  ultimately show ?thesis by blast
qed

lemma fresh_first:
  "\<exists>h0 h1. heap_setup 0x1000000 HEAP_BYTES zero_heap = Some h0 \<and>
     alloc_locked h0 100 8 = Some (0x1000000 + PMO + 16, h1) \<and>
     heap_inv (0x1000000 + PMO) (0x1000000 + PMO + HEAP_BYTES) [(0x1000080 + PMO, 16777072)]
       [(0x1000000 + PMO, 128)] h1"
proof -
  obtain h0 where h0: "heap_setup 0x1000000 HEAP_BYTES zero_heap = Some h0"
    and inv: "heap_inv (0x1000000 + PMO) (0x1000000 + PMO + HEAP_BYTES) [(0x1000000 + PMO, 16777200)] [] h0"
    using fresh_heap by blast
  have ff: "ff_alloc (hdr_off 8 + 100) [(0x1000000 + PMO, 16777200)] =
      Some ((0x1000000 + PMO, 128), [(0x1000080 + PMO, 16777072)])"
    by (simp add: take_block_def up_def PMO_def MIN_BLOCK_def Let_def)
  from alloc_some [OF inv _ _ _ ff, of 3] h0 show ?thesis by auto
qed

theorem realloc_correct_witness:
  "\<exists>h1 p q h' data'. p \<noteq> 0 \<and> realloc h1 (\<lambda>a. of_nat a) p 100 8 200 = Some (q, h', data') \<and>
     (q = 0 \<and> h' = h1 \<and> data' = (\<lambda>a. of_nat a) \<or>
      q \<noteq> 0 \<and> heap_valid (0x1000000 + PMO) (0x1000000 + PMO + HEAP_BYTES) h' ((q, 200, 8) # [] @ []) \<and>
      (\<forall>i < min 100 200. data' (q + i) = of_nat (p + i)) \<and>
      (\<forall>(r, n, a) \<in> set ([] @ []). \<forall>i < n. data' (r + i) = of_nat (r + i)))"
proof -
  obtain h1 where "heap_inv (0x1000000 + PMO) (0x1000000 + PMO + HEAP_BYTES) [(0x1000080 + PMO, 16777072)]
      [(0x1000000 + PMO, 128)] h1"
    using fresh_first by blast
  moreover have "list_all2 payload_of [(0x1000000 + PMO, 128)] ([] @ (0x1000010 + PMO, 100, 8) # [])"
    by (auto simp: payload_of_def intro: exI [of _ 3])
  ultimately have v: "heap_valid (0x1000000 + PMO) (0x1000000 + PMO + HEAP_BYTES) h1 ([] @ (0x1000010 + PMO, 100, 8) # [])"
    unfolding heap_valid_def by blast
  have g: "good_request 200 8" by simp
  show ?thesis
    by (rule exI [of _ h1], rule exI [of _ "0x1000010 + PMO"])
      (use realloc_correct [OF v g, where data = "\<lambda>a. of_nat a"] in auto)
qed

theorem alloc_alignment_witness:
  "(0x1000010 + PMO) mod 16 = 0 \<and>
    (\<exists>a n. (a, n) \<in> set [(0x1000000 + PMO, 16777200::nat)] \<and>
      (if (16::nat) \<le> 8 then 0x1000010 + PMO = a + 8 \<and> (8 dvd 0x1000010 + PMO \<longleftrightarrow> 8 dvd a)
       else 0x1000010 + PMO = a + 16))"
proof -
  obtain h0 h1 where "heap_setup 0x1000000 HEAP_BYTES zero_heap = Some h0"
    and al: "alloc_locked h0 100 8 = Some (0x1000010 + PMO, h1)"
    using fresh_first by (auto simp: add.commute add.left_commute)
  then have inv: "heap_inv (0x1000000 + PMO) (0x1000000 + PMO + HEAP_BYTES) [(0x1000000 + PMO, 16777200)] [] h0"
    using fresh_heap by auto
  show ?thesis
    by (rule alloc_alignment [OF inv _ al]) (simp_all add: PMO_def)
qed

text \<open>A page-aligned request is in general not page aligned: on a fresh heap at a
  page-aligned address, after one 100-byte allocation, a request for a page aligned to
  4096 is answered with a pointer that is 128 bytes past a page boundary.
\<close>

theorem page_request_misaligned:
  "\<exists>h0 p h1 q h2. heap_setup 0x1000000 HEAP_BYTES zero_heap = Some h0 \<and>
     alloc_locked h0 100 8 = Some (p, h1) \<and> alloc_locked h1 4096 4096 = Some (q, h2) \<and>
     q \<noteq> 0 \<and> q mod 4096 = 128"
proof -
  obtain h0 h1 where h: "heap_setup 0x1000000 HEAP_BYTES zero_heap = Some h0"
     "alloc_locked h0 100 8 = Some (0x1000000 + PMO + 16, h1)"
    and inv: "heap_inv (0x1000000 + PMO) (0x1000000 + PMO + HEAP_BYTES) [(0x1000080 + PMO, 16777072)]
       [(0x1000000 + PMO, 128)] h1"
    using fresh_first by blast
  have ff: "ff_alloc (hdr_off 4096 + 4096) [(0x1000080 + PMO, 16777072)] =
      Some ((0x1000080 + PMO, 8192), [(0x1002080 + PMO, 16768880)])"
    by (simp add: take_block_def up_def PMO_def MIN_BLOCK_def Let_def)
  from alloc_some [OF inv _ _ _ ff, of 12] obtain h2 where
    "alloc_locked h1 4096 4096 = Some (0x1000080 + PMO + 4096, h2)" by auto
  with h show ?thesis by (auto simp: PMO_def)
qed

text \<open>The \<open>used\<close> counter drifts: an allocation adds the request with its header offset,
  the release of the same block subtracts the whole block, which is never smaller; a round
  trip never raises the counter and lowers it by the difference (down to zero).
\<close>

theorem used_counter_drift:
  assumes inv: "heap_inv lo hi fs live h" and good: "good_request sz align"
    and run: "alloc_locked h sz align = Some (p, h1)" and "p \<noteq> 0"
  shows "\<exists>n h2. hdr_off align + sz \<le> n \<and> dealloc h1 p align = Some h2 \<and>
     h_used h1 = h_used h + (hdr_off align + sz) \<and> h_used h2 = h_used h + (hdr_off align + sz) - n"
proof -
  obtain k where k: "align = 2 ^ k" "k < 64" "hdr_off align + sz < 2 ^ 64"
    using good by (auto simp: good_request_def)
  obtain b fs' where ff: "ff_alloc (hdr_off align + sz) fs = Some (b, fs')"
    using alloc_none [OF inv k] run \<open>p \<noteq> 0\<close> by (cases "ff_alloc (hdr_off align + sz) fs") auto
  obtain a n where b: "b = (a, n)" by fastforce
  from alloc_some [OF inv k ff] run b have p: "p = a + hdr_off align"
    and inv1: "heap_inv lo hi fs' ([] @ (a, n) # live) h1" and u1: "h_used h1 = h_used h + (hdr_off align + sz)"
    by auto
  from dealloc_inv [OF inv1 k(1,2)] p u1 ff_alloc_size(1) [OF ff] b show ?thesis by auto
qed

theorem used_counter_drift_witness:
  "\<exists>(h::heap_inner) (h1::heap_inner) n (h2::heap_inner). hdr_off 8 + 100 \<le> n \<and> dealloc h1 (0x1000010 + PMO) 8 = Some h2 \<and>
     h_used h1 = h_used h + (hdr_off 8 + 100) \<and> h_used h2 = h_used h + (hdr_off 8 + 100) - n"
proof -
  obtain h0 h1 where "heap_setup 0x1000000 HEAP_BYTES zero_heap = Some h0"
    and al: "alloc_locked h0 100 8 = Some (0x1000010 + PMO, h1)"
    using fresh_first by (auto simp: add.commute add.left_commute)
  then have inv: "heap_inv (0x1000000 + PMO) (0x1000000 + PMO + HEAP_BYTES) [(0x1000000 + PMO, 16777200)] [] h0"
    using fresh_heap by auto
  have "(0x1000010::nat) + PMO \<noteq> 0" by simp
  have "good_request 100 8" by simp
  from used_counter_drift [OF inv this al \<open>0x1000010 + PMO \<noteq> 0\<close>] show ?thesis by blast
qed

end
