(* ===== verification/Sched.thy ===== *)
theory Sched
  imports Heap
begin

text \<open>
  The scheduler (\<open>kernel/src/sched.rs\<close>), the timer interrupt that drives it
  (\<open>timer_interrupt_handler\<close> and \<open>sleep_ms\<close> of \<open>kernel/src/interrupts.rs\<close>) and the
  stack switch it ends with.  \<open>None\<close> is a panic.  The statics \<open>SCHED\<close>,
  \<open>INIT_DONE\<close>, \<open>TASK_SWITCHES\<close>, the TSS field \<open>rsp0\<close> and the system call entry's copy of
  it are the fields of one record.
\<close>

section \<open>State\<close>

datatype task_state = Ready | Sleeping nat | Dead

record task =
  t_name :: string
  saved_rsp :: nat
  t_stack :: "nat option"
  t_state :: task_state
  t_switches :: nat
  kstack_top :: nat

record scheduler =
  tasks :: "task list"
  ready :: "nat list"
  sleepers :: "(nat \<times> nat) list"
  current :: nat
  init_done :: bool
  task_switches :: nat
  tss_rsp0 :: nat
  sys_kstack :: nat

definition STACK_BYTES :: nat where "STACK_BYTES = 128 * 1024"
definition MAX_TASKS :: nat where "MAX_TASKS = 24"
definition U32_MAX :: nat where "U32_MAX = 2 ^ 32 - 1"

text \<open>\<open>v[i] = f(v[i])\<close> on the task table.\<close>

definition upd_task :: "nat \<Rightarrow> (task \<Rightarrow> task) \<Rightarrow> scheduler \<Rightarrow> scheduler option" where
  "upd_task i f s = do {
     t \<leftarrow> idx (tasks s) i;
     Some (s\<lparr>tasks := (tasks s)[i := f t]\<rparr>)
   }"

definition set_state :: "nat \<Rightarrow> task_state \<Rightarrow> scheduler \<Rightarrow> scheduler option" where
  "set_state i st = upd_task i (\<lambda>t. t\<lparr>t_state := st\<rparr>)"

section \<open>Stack memory and the context switch\<close>

text \<open>
  Stack memory in cells of eight bytes; the registers the calling convention makes a
  callee preserve, the stack pointer and the instruction pointer.
\<close>

record cpu =
  rsp :: nat
  rip :: nat
  rbp :: nat
  rbx :: nat
  r12 :: nat
  r13 :: nat
  r14 :: nat
  r15 :: nat

type_synonym stack_mem = "nat \<Rightarrow> nat"

definition push64 :: "nat \<Rightarrow> cpu \<times> stack_mem \<Rightarrow> cpu \<times> stack_mem" where
  "push64 v = (\<lambda>(c, m). (c\<lparr>rsp := rsp c - 8\<rparr>, m(rsp c - 8 := v)))"

definition pop64 :: "(nat \<Rightarrow> cpu \<Rightarrow> cpu) \<Rightarrow> cpu \<times> stack_mem \<Rightarrow> cpu \<times> stack_mem" where
  "pop64 set_reg = (\<lambda>(c, m). (set_reg (m (rsp c)) (c\<lparr>rsp := rsp c + 8\<rparr>), m))"

text \<open>
  The assembly routine.  It answers the stack pointer that it stores through its first
  argument, and the processor after its final \<open>ret\<close>.
\<close>

definition context_switch :: "nat \<Rightarrow> cpu \<times> stack_mem \<Rightarrow> nat \<times> cpu \<times> stack_mem" where
  "context_switch next_rsp cm =
    (let (c1, m1) = push64 (rbp (fst cm)) (push64 (rbx (fst cm)) (push64 (r12 (fst cm))
                      (push64 (r13 (fst cm)) (push64 (r14 (fst cm)) (push64 (r15 (fst cm)) cm)))));
         switched = (c1\<lparr>rsp := next_rsp\<rparr>, m1)
     in (rsp c1,
         pop64 (\<lambda>v c. c\<lparr>rip := v\<rparr>)
          (pop64 (\<lambda>v c. c\<lparr>r15 := v\<rparr>) (pop64 (\<lambda>v c. c\<lparr>r14 := v\<rparr>)
          (pop64 (\<lambda>v c. c\<lparr>r13 := v\<rparr>) (pop64 (\<lambda>v c. c\<lparr>r12 := v\<rparr>)
          (pop64 (\<lambda>v c. c\<lparr>rbx := v\<rparr>) (pop64 (\<lambda>v c. c\<lparr>rbp := v\<rparr>) switched))))))))"

section \<open>Operations\<close>

definition init :: "nat \<Rightarrow> scheduler \<Rightarrow> scheduler" where
  "init boot_stack_top s =
    s\<lparr>tasks := tasks s @ [\<lparr>t_name = ''kernel'', saved_rsp = 0, t_stack = None,
        t_state = Ready, t_switches = 0, kstack_top = boot_stack_top\<rparr>],
      ready := ready s @ [0], init_done := True\<rparr>"

text \<open>
  \<open>alloc\<close> is the address of the boxed stack, or nothing when the heap is exhausted, which
  ends in the allocation error handler's panic.
\<close>

definition spawn ::
  "string \<Rightarrow> nat \<Rightarrow> nat option \<Rightarrow> scheduler \<times> stack_mem \<Rightarrow> (nat \<times> scheduler \<times> stack_mem) option"
where
  "spawn name entry alloc = (\<lambda>(s, m).
    if MAX_TASKS \<le> length (tasks s) then Some (U32_MAX, s, m)
    else do {
      stack \<leftarrow> alloc;
      tp \<leftarrow> usz (stack + STACK_BYTES);
      let tid = length (tasks s);
      let sp = tp div 16 * 16 - 7 * 8;
      let zeroed = (\<lambda>a. if stack \<le> a \<and> a < tp then 0 else m a);
      Some (tid,
        s\<lparr>tasks := tasks s @ [\<lparr>t_name = name, saved_rsp = sp, t_stack = Some stack,
            t_state = Ready, t_switches = 0, kstack_top = tp\<rparr>],
          ready := ready s @ [tid]\<rparr>,
        zeroed(sp + 6 * 8 := entry))
    })"

text \<open>\<open>Vec::swap_remove\<close>\<close>

definition swap_remove :: "nat \<Rightarrow> 'a list \<Rightarrow> 'a list" where
  "swap_remove i xs = butlast (xs[i := last xs])"

lemma length_swap_remove [simp]: "length (swap_remove i xs) = length xs - 1"
  by (simp add: swap_remove_def)

text \<open>The first loop of \<open>schedule\<close>: wakes the sleepers whose target has passed.\<close>

function wake_loop :: "nat \<Rightarrow> nat \<Rightarrow> scheduler \<Rightarrow> scheduler option" where
  "wake_loop now i s =
    (if i < length (sleepers s) then
       (let (tid, target) = sleepers s ! i in
        if target \<le> now then
          (let s1 = s\<lparr>sleepers := swap_remove i (sleepers s)\<rparr> in
           case idx (tasks s1) tid of
             None \<Rightarrow> None
           | Some t \<Rightarrow>
               if t_state t = Sleeping target then
                 wake_loop now i (s1\<lparr>tasks := (tasks s1)[tid := t\<lparr>t_state := Ready\<rparr>],
                                    ready := ready s1 @ [tid]\<rparr>)
               else wake_loop now i s1)
        else wake_loop now (i + 1) s)
     else Some s)"
  by pat_completeness auto
termination
  by (relation "measure (\<lambda>(now, i, s). length (sleepers s) - i)") auto

declare wake_loop.simps [simp del]

text \<open>
  The second loop, shared by \<open>schedule\<close> and \<open>terminate_current\<close>: it drops entries from
  the front of the ready queue until it finds a ready task other than the current one.
\<close>

fun pop_ready :: "task list \<Rightarrow> nat \<Rightarrow> nat list \<Rightarrow> (nat option \<times> nat list) option" where
  "pop_ready ts cur [] = Some (None, [])"
| "pop_ready ts cur (tid # q) =
    (if tid = cur then pop_ready ts cur q
     else do {
       t \<leftarrow> idx ts tid;
       if t_state t \<noteq> Ready then pop_ready ts cur q else Some (Some tid, q)
     })"

text \<open>\<open>set_rsp0\<close> of \<open>gdt.rs\<close> together with \<open>set_kstack_top\<close> of \<open>syscall.rs\<close>\<close>

definition set_kernel_stack :: "nat \<Rightarrow> scheduler \<Rightarrow> scheduler" where
  "set_kernel_stack tp s = s\<lparr>tss_rsp0 := tp, sys_kstack := tp\<rparr>"

text \<open>How a pass of the scheduler ends.\<close>

datatype hand_over = Stay | Switch nat nat | Halted

definition bump :: "nat \<Rightarrow> scheduler \<Rightarrow> scheduler option" where
  "bump i s = do {
     t \<leftarrow> idx (tasks s) i;
     n \<leftarrow> usz (t_switches t + 1);
     Some (s\<lparr>tasks := (tasks s)[i := t\<lparr>t_switches := n\<rparr>]\<rparr>)
   }"

definition schedule :: "nat \<Rightarrow> scheduler \<Rightarrow> (hand_over \<times> scheduler) option" where
  "schedule now s0 =
    (if \<not> init_done s0 then Some (Stay, s0)
     else do {
       s1 \<leftarrow> wake_loop now 0 s0;
       let cur = current s1;
       t \<leftarrow> idx (tasks s1) cur;
       let s2 = (if t_state t = Ready then s1\<lparr>ready := ready s1 @ [cur]\<rparr> else s1);
       (next_id, q) \<leftarrow> pop_ready (tasks s2) cur (ready s2);
       let s3 = s2\<lparr>ready := q\<rparr>;
       case next_id of
         None \<Rightarrow> Some (Stay, s3)
       | Some nid \<Rightarrow> do {
           let s4 = s3\<lparr>current := nid, task_switches := (task_switches s3 + 1) mod 2 ^ 64\<rparr>;
           s5 \<leftarrow> bump cur s4;
           s6 \<leftarrow> bump nid s5;
           n \<leftarrow> idx (tasks s6) nid;
           Some (Switch cur (saved_rsp n), set_kernel_stack (kstack_top n) s6)
         }
     })"

text \<open>The critical section of \<open>sleep_until\<close>, and the test that ends its waiting loop.\<close>

definition sleep_enter :: "nat \<Rightarrow> scheduler \<Rightarrow> scheduler option" where
  "sleep_enter target s = do {
     s1 \<leftarrow> set_state (current s) (Sleeping target) s;
     Some (s1\<lparr>sleepers := sleepers s1 @ [(current s, target)]\<rparr>)
   }"

definition sleep_over :: "nat \<Rightarrow> nat \<Rightarrow> bool" where
  "sleep_over now target = (target \<le> now)"

text \<open>\<open>Halted\<close> is the loop around \<open>hlt\<close> inside the section without interrupts.\<close>

definition terminate_current :: "scheduler \<Rightarrow> (hand_over \<times> scheduler) option" where
  "terminate_current s = do {
     let cur = current s;
     s1 \<leftarrow> set_state cur Dead s;
     (next_id, q) \<leftarrow> pop_ready (tasks s1) cur (ready s1);
     let s2 = s1\<lparr>ready := q\<rparr>;
     case next_id of
       None \<Rightarrow> Some (Halted, s2)
     | Some nid \<Rightarrow> do {
         let s3 = s2\<lparr>current := nid, task_switches := (task_switches s2 + 1) mod 2 ^ 64\<rparr>;
         n \<leftarrow> idx (tasks s3) nid;
         Some (Switch cur (saved_rsp n), set_kernel_stack (kstack_top n) s3)
       }
   }"

section \<open>The timer interrupt and the sleeping loop\<close>

text \<open>
  The processor with the scheduler: the tick counter, the registers and stack memory, and
  whether the machine sits in the final \<open>hlt\<close> loop.
\<close>

record machine =
  sch :: scheduler
  ticks :: nat
  proc :: "cpu \<times> stack_mem"
  halted :: bool

text \<open>
  The end of a pass: the stack pointer goes to the outgoing task's slot (a dead task's goes
  to a dummy), then the registers are those of the incoming task.
\<close>

definition hand_to :: "bool \<Rightarrow> hand_over \<Rightarrow> machine \<Rightarrow> machine option" where
  "hand_to keep r m = (case r of
     Stay \<Rightarrow> Some m
   | Halted \<Rightarrow> Some (m\<lparr>halted := True\<rparr>)
   | Switch out next_rsp \<Rightarrow>
      (let (old, p) = context_switch next_rsp (proc m) in
       if keep then do {
         s \<leftarrow> upd_task out (\<lambda>t. t\<lparr>saved_rsp := old\<rparr>) (sch m);
         Some (m\<lparr>sch := s, proc := p\<rparr>)
       } else Some (m\<lparr>proc := p\<rparr>)))"

definition timer_interrupt :: "machine \<Rightarrow> machine option" where
  "timer_interrupt m = do {
     let now = (ticks m + 1) mod 2 ^ 64;
     (r, s) \<leftarrow> schedule now (sch m);
     hand_to True r (m\<lparr>ticks := now, sch := s\<rparr>)
   }"

definition exit_task :: "machine \<Rightarrow> machine option" where
  "exit_task m = do {
     (r, s) \<leftarrow> terminate_current (sch m);
     hand_to False r (m\<lparr>sch := s\<rparr>)
   }"

text \<open>\<open>sleep_ms\<close> up to the waiting loop, with the scheduler running.\<close>

definition sleep_ms :: "nat \<Rightarrow> machine \<Rightarrow> machine option" where
  "sleep_ms ms m = do {
     target \<leftarrow> usz (ticks m + max ms 1);
     s \<leftarrow> sleep_enter target (sch m);
     Some (m\<lparr>sch := s\<rparr>)
   }"

definition spawn_task :: "string \<Rightarrow> nat \<Rightarrow> nat option \<Rightarrow> machine \<Rightarrow> machine option" where
  "spawn_task name entry alloc m = do {
     (tid, s, mem) \<leftarrow> spawn name entry alloc (sch m, snd (proc m));
     Some (m\<lparr>sch := s, proc := (fst (proc m), mem)\<rparr>)
   }"

section \<open>The invariant\<close>

definition is_sleeping :: "task list \<Rightarrow> nat \<Rightarrow> nat \<Rightarrow> bool" where
  "is_sleeping ts i tgt = (i < length ts \<and> t_state (ts ! i) = Sleeping tgt)"

definition is_ready :: "task list \<Rightarrow> nat \<Rightarrow> bool" where
  "is_ready ts i = (i < length ts \<and> t_state (ts ! i) = Ready)"

text \<open>
  Every index is in range, a runnable task that is not running waits in the ready queue,
  and a sleeping task is registered with its own deadline.
\<close>

definition ids_ok :: "scheduler \<Rightarrow> bool" where
  "ids_ok s = (current s < length (tasks s) \<and>
     (\<forall>i \<in> set (ready s). i < length (tasks s)) \<and>
     (\<forall>e \<in> set (sleepers s). fst e < length (tasks s)))"

definition none_lost :: "scheduler \<Rightarrow> bool" where
  "none_lost s = (\<forall>i. is_ready (tasks s) i \<longrightarrow> i \<noteq> current s \<longrightarrow> i \<in> set (ready s))"

definition listed :: "scheduler \<Rightarrow> bool" where
  "listed s = (\<forall>i tgt. is_sleeping (tasks s) i tgt \<longrightarrow> (i, tgt) \<in> set (sleepers s))"

definition stacks_set :: "scheduler \<Rightarrow> bool" where
  "stacks_set s = (tss_rsp0 s = kstack_top (tasks s ! current s) \<and>
     (current s \<noteq> 0 \<longrightarrow> sys_kstack s = tss_rsp0 s))"

definition sched_inv :: "scheduler \<Rightarrow> bool" where
  "sched_inv s = (init_done s \<and> length (tasks s) \<le> MAX_TASKS \<and> ids_ok s \<and> none_lost s \<and>
     listed s \<and> stacks_set s)"

definition max_switches :: "scheduler \<Rightarrow> nat" where
  "max_switches s = Max (insert 0 (t_switches ` set (tasks s)))"

lemma max_switches_ge: "i < length (tasks s) \<Longrightarrow> t_switches (tasks s ! i) \<le> max_switches s"
  by (simp add: max_switches_def)

lemma max_switches_le:
  "(\<And>i. i < length (tasks s) \<Longrightarrow> t_switches (tasks s ! i) \<le> b) \<Longrightarrow> max_switches s \<le> b"
  by (auto simp: max_switches_def in_set_conv_nth)

subsection \<open>Waking\<close>

lemma set_swap_remove:
  assumes "i < length xs"
  shows "set (swap_remove i xs) \<subseteq> set xs"
    and "x \<in> set xs \<Longrightarrow> x \<noteq> xs ! i \<Longrightarrow> x \<in> set (swap_remove i xs)"
proof -
  have ne: "xs \<noteq> []" using assms by auto
  have split: "xs = butlast xs @ [last xs]" using ne by simp
  show "set (swap_remove i xs) \<subseteq> set xs"
    using ne set_update_subset_insert [of xs i "last xs"]
    by (auto simp: swap_remove_def dest!: in_set_butlastD)
  assume x: "x \<in> set xs" "x \<noteq> xs ! i"
  then obtain j where j: "j < length xs" "x = xs ! j" "j \<noteq> i" by (metis in_set_conv_nth)
  show "x \<in> set (swap_remove i xs)"
  proof (cases "j = length xs - 1")
    case True
    then have "x = last xs" and "i < length xs - 1" using j ne assms by (simp_all add: last_conv_nth)
    then have "swap_remove i xs ! i = x" by (simp add: swap_remove_def nth_butlast)
    then show ?thesis using \<open>i < length xs - 1\<close> by (metis length_swap_remove nth_mem)
  next
    case False
    then have "j < length xs - 1" using j by simp
    moreover from this have "swap_remove i xs ! j = x" using j by (simp add: swap_remove_def nth_butlast)
    ultimately show ?thesis by (metis length_swap_remove nth_mem)
  qed
qed

lemma take_swap_remove: "i < length xs \<Longrightarrow> take i (swap_remove i xs) = take i xs"
  by (rule nth_equalityI) (auto simp: swap_remove_def nth_butlast)

text \<open>What the waking loop does to a state, for the tasks and for the queue.\<close>

definition woken :: "nat \<Rightarrow> task \<Rightarrow> task \<Rightarrow> bool" where
  "woken now t t' = (t' = t \<or> (\<exists>tgt. t_state t = Sleeping tgt \<and> tgt \<le> now \<and> t' = t\<lparr>t_state := Ready\<rparr>))"

definition wakes :: "nat \<Rightarrow> scheduler \<Rightarrow> scheduler \<Rightarrow> bool" where
  "wakes now s s' = (\<exists>ts qs sl. s' = s\<lparr>tasks := ts, ready := ready s @ qs, sleepers := sl\<rparr> \<and>
     length ts = length (tasks s) \<and> (\<forall>i < length ts. woken now (tasks s ! i) (ts ! i)))"

lemma wakes_refl: "wakes now s s"
  unfolding wakes_def
  by (rule exI [of _ "tasks s"], rule exI [of _ "[]"], rule exI [of _ "sleepers s"]) (simp add: woken_def)

lemma wakes_trans:
  assumes "wakes now s s1" and "wakes now s1 s2"
  shows "wakes now s s2"
proof -
  obtain ts qs sl where 1: "s1 = s\<lparr>tasks := ts, ready := ready s @ qs, sleepers := sl\<rparr>"
    "length ts = length (tasks s)" "\<forall>i < length ts. woken now (tasks s ! i) (ts ! i)"
    using assms(1) by (auto simp: wakes_def)
  obtain ts' qs' sl' where 2: "s2 = s1\<lparr>tasks := ts', ready := ready s1 @ qs', sleepers := sl'\<rparr>"
    "length ts' = length (tasks s1)" "\<forall>i < length ts'. woken now (tasks s1 ! i) (ts' ! i)"
    using assms(2) by (auto simp: wakes_def)
  have "\<forall>i < length ts'. woken now (tasks s ! i) (ts' ! i)"
    using 1 2 by (fastforce simp: woken_def)
  then show ?thesis unfolding wakes_def
    by (intro exI [of _ ts'] exI [of _ "qs @ qs'"] exI [of _ sl']) (use 1 2 in simp)
qed

text \<open>One entry leaves the sleeper list: its task is woken, or the entry was stale.\<close>

definition wake_entry :: "nat \<Rightarrow> scheduler \<Rightarrow> scheduler" where
  "wake_entry i s = (let (tid, target) = sleepers s ! i;
       s1 = s\<lparr>sleepers := swap_remove i (sleepers s)\<rparr>;
       t = tasks s ! tid
     in if t_state t = Sleeping target
        then s1\<lparr>tasks := (tasks s)[tid := t\<lparr>t_state := Ready\<rparr>], ready := ready s @ [tid]\<rparr>
        else s1)"

lemma wake_loop_step:
  assumes "ids_ok s" and "i < length (sleepers s)" and "snd (sleepers s ! i) \<le> now"
  shows "wake_loop now i s = wake_loop now i (wake_entry i s)"
proof -
  obtain tid tgt where e: "sleepers s ! i = (tid, tgt)" by (cases "sleepers s ! i")
  have "tid < length (tasks s)"
    using assms(1,2) e by (force simp: ids_ok_def in_set_conv_nth)
  then show ?thesis
    using assms e by (subst wake_loop.simps) (simp add: wake_entry_def idx_def Let_def)
qed

lemma wake_entry_inv:
  assumes inv: "ids_ok s" "none_lost s" "listed s"
    and i: "i < length (sleepers s)" and now: "snd (sleepers s ! i) \<le> now"
  shows "wakes now s (wake_entry i s)" and "ids_ok (wake_entry i s)"
    and "none_lost (wake_entry i s)" and "listed (wake_entry i s)"
    and "sleepers (wake_entry i s) = swap_remove i (sleepers s)"
proof -
  obtain tid tgt where e: "sleepers s ! i = (tid, tgt)" by (cases "sleepers s ! i")
  let ?t = "tasks s ! tid"
  have tid: "tid < length (tasks s)" and tgt: "tgt \<le> now"
    using inv(1) i e now by (force simp: ids_ok_def in_set_conv_nth)+
  note sw = set_swap_remove [OF i]
  show "wakes now s (wake_entry i s)"
    unfolding wakes_def
  proof (cases "t_state ?t = Sleeping tgt")
    case True
    then show "\<exists>ts qs sl. wake_entry i s = s\<lparr>tasks := ts, ready := ready s @ qs, sleepers := sl\<rparr> \<and>
        length ts = length (tasks s) \<and> (\<forall>i<length ts. woken now (tasks s ! i) (ts ! i))"
      using e tid tgt
      by (intro exI [of _ "(tasks s)[tid := ?t\<lparr>t_state := Ready\<rparr>]"] exI [of _ "[tid]"]
          exI [of _ "swap_remove i (sleepers s)"])
        (auto simp: wake_entry_def woken_def nth_list_update)
  next
    case False
    then show "\<exists>ts qs sl. wake_entry i s = s\<lparr>tasks := ts, ready := ready s @ qs, sleepers := sl\<rparr> \<and>
        length ts = length (tasks s) \<and> (\<forall>i<length ts. woken now (tasks s ! i) (ts ! i))"
      using e
      by (intro exI [of _ "tasks s"] exI [of _ "[]"] exI [of _ "swap_remove i (sleepers s)"])
        (auto simp: wake_entry_def woken_def)
  qed
  show "ids_ok (wake_entry i s)"
    using inv(1) e sw(1) tid by (auto simp: wake_entry_def ids_ok_def Let_def)
  show "none_lost (wake_entry i s)"
    using inv(2) e tid by (auto simp: wake_entry_def none_lost_def is_ready_def nth_list_update Let_def)
  show "sleepers (wake_entry i s) = swap_remove i (sleepers s)"
    using e by (simp add: wake_entry_def Let_def)
  show "listed (wake_entry i s)"
    unfolding listed_def
  proof (intro allI impI)
    fix j u assume a: "is_sleeping (tasks (wake_entry i s)) j u"
    then have "is_sleeping (tasks s) j u" and ne: "(j, u) \<noteq> (tid, tgt)"
      using e tid by (auto simp: wake_entry_def is_sleeping_def nth_list_update Let_def split: if_splits)
    then have "(j, u) \<in> set (sleepers s)" using inv(3) by (auto simp: listed_def)
    then have "(j, u) \<in> set (swap_remove i (sleepers s))" using sw(2) ne e by simp
    then show "(j, u) \<in> set (sleepers (wake_entry i s))"
      using e by (simp add: wake_entry_def Let_def)
  qed
qed

lemma wake_loop_ok:
  assumes "ids_ok s" and "none_lost s" and "listed s"
    and "\<forall>e \<in> set (take i (sleepers s)). now < snd e"
  shows "\<exists>s'. wake_loop now i s = Some s' \<and> wakes now s s' \<and> ids_ok s' \<and> none_lost s' \<and>
           listed s' \<and> (\<forall>e \<in> set (sleepers s'). now < snd e)"
  using assms
proof (induction "length (sleepers s) - i" arbitrary: i s)
  case 0
  then have "wake_loop now i s = Some s" by (subst wake_loop.simps) simp
  with 0 show ?case by (auto simp: wakes_refl)
next
  case (Suc n)
  then have i: "i < length (sleepers s)" by simp
  show ?case
  proof (cases "snd (sleepers s ! i) \<le> now")
    case True
    note we = wake_entry_inv [OF Suc.prems(1-3) i True]
    have "\<forall>e \<in> set (take i (sleepers (wake_entry i s))). now < snd e"
      using Suc.prems(4) i by (simp add: we(5) take_swap_remove)
    moreover have "n = length (sleepers (wake_entry i s)) - i"
      using Suc.hyps(2) by (simp add: we(5))
    ultimately obtain s' where "wake_loop now i (wake_entry i s) = Some s'"
      and "wakes now (wake_entry i s) s'" and "ids_ok s'" "none_lost s'" "listed s'"
      and "\<forall>e \<in> set (sleepers s'). now < snd e"
      using Suc.hyps(1) [of "wake_entry i s" i] we by blast
    then show ?thesis
      using wake_loop_step [OF Suc.prems(1) i True] wakes_trans [OF we(1)] by auto
  next
    case False
    then have "wake_loop now i s = wake_loop now (i + 1) s"
      using i by (subst wake_loop.simps) (auto split: prod.split)
    moreover have "\<forall>e \<in> set (take (i + 1) (sleepers s)). now < snd e"
      using False Suc.prems(4) i by (auto simp: take_Suc_conv_app_nth)
    moreover have "n = length (sleepers s) - (i + 1)" using Suc.hyps(2) by simp
    ultimately show ?thesis using Suc.hyps(1) [of s "i + 1"] Suc.prems by metis
  qed
qed

subsection \<open>Choosing the next task\<close>

definition skipped :: "task list \<Rightarrow> nat \<Rightarrow> nat \<Rightarrow> bool" where
  "skipped ts cur i = (i = cur \<or> \<not> is_ready ts i)"

lemma pop_ready_skip:
  "a < length ts \<Longrightarrow> skipped ts cur a \<Longrightarrow> pop_ready ts cur (a # q) = pop_ready ts cur q"
  by (auto simp: skipped_def is_ready_def idx_def)

lemma pop_ready_take:
  "a < length ts \<Longrightarrow> \<not> skipped ts cur a \<Longrightarrow> pop_ready ts cur (a # q) = Some (Some a, q)"
  by (auto simp: skipped_def is_ready_def idx_def)

lemma pop_ready_ok:
  assumes "\<forall>i \<in> set q. i < length ts"
  obtains (found) pre nid q' where "pop_ready ts cur q = Some (Some nid, q')"
      and "q = pre @ nid # q'" and "\<forall>i \<in> set pre. skipped ts cur i" and "\<not> skipped ts cur nid"
  | (none) "pop_ready ts cur q = Some (None, [])" and "\<forall>i \<in> set q. skipped ts cur i"
  using assms
proof (induction q arbitrary: thesis)
  case Nil
  show ?case by (rule Nil.prems(2)) simp_all
next
  case (Cons a q)
  have a: "a < length ts" and q: "\<forall>i \<in> set q. i < length ts" using Cons.prems(3) by auto
  show ?case
  proof (cases "skipped ts cur a")
    case True
    show ?thesis
    proof (rule Cons.IH)
      fix pre nid q'
      assume "pop_ready ts cur q = Some (Some nid, q')" "q = pre @ nid # q'"
        "\<forall>i \<in> set pre. skipped ts cur i" "\<not> skipped ts cur nid"
      then show thesis
        using True a by (intro Cons.prems(1) [of nid q' "a # pre"]) (simp_all only: pop_ready_skip, auto)
    next
      assume "pop_ready ts cur q = Some (None, [])" "\<forall>i \<in> set q. skipped ts cur i"
      then show thesis
        using True a by (intro Cons.prems(2)) (simp_all only: pop_ready_skip, auto)
    qed (rule q)
  next
    case False
    show ?thesis
      by (rule Cons.prems(1) [OF pop_ready_take [OF a False], of "[]"]) (use False in simp_all)
  qed
qed

subsection \<open>One pass of the scheduler\<close>

text \<open>The fields of a task that the scheduler's bookkeeping leaves alone.\<close>

definition same_context :: "task \<Rightarrow> task \<Rightarrow> bool" where
  "same_context t t' = (t_name t' = t_name t \<and> saved_rsp t' = saved_rsp t \<and>
     t_stack t' = t_stack t \<and> kstack_top t' = kstack_top t)"

lemma wakes_facts:
  assumes "wakes now s s'"
  shows "length (tasks s') = length (tasks s)" and "current s' = current s"
    and "init_done s' = init_done s" and "tss_rsp0 s' = tss_rsp0 s" and "sys_kstack s' = sys_kstack s"
    and "task_switches s' = task_switches s"
    and "i < length (tasks s) \<Longrightarrow> woken now (tasks s ! i) (tasks s' ! i)"
    and "\<exists>qs. ready s' = ready s @ qs"
  using assms by (auto simp: wakes_def)

lemma woken_facts:
  assumes "woken now t t'"
  shows "same_context t t'" and "t_switches t' = t_switches t"
    and "t_state t = Ready \<Longrightarrow> t_state t' = Ready" and "t_state t = Dead \<Longrightarrow> t_state t' = Dead"
    and "t_state t' = Sleeping u \<Longrightarrow> t_state t = Sleeping u"
    and "t_state t' = Dead \<Longrightarrow> t_state t = Dead"
  using assms by (auto simp: woken_def same_context_def)

definition requeue :: "scheduler \<Rightarrow> scheduler" where
  "requeue s = (if is_ready (tasks s) (current s) then s\<lparr>ready := ready s @ [current s]\<rparr> else s)"

definition run_task :: "nat \<Rightarrow> nat list \<Rightarrow> scheduler \<Rightarrow> scheduler" where
  "run_task nid q s = (let ts = (tasks s)[current s :=
          (tasks s ! current s)\<lparr>t_switches := t_switches (tasks s ! current s) + 1\<rparr>];
        n = (ts ! nid)\<lparr>t_switches := t_switches (ts ! nid) + 1\<rparr>
     in set_kernel_stack (kstack_top n) (s\<lparr>ready := q, current := nid,
          task_switches := (task_switches s + 1) mod 2 ^ 64, tasks := ts[nid := n]\<rparr>))"

definition counters_ok :: "scheduler \<Rightarrow> bool" where
  "counters_ok s = (\<forall>t \<in> set (tasks s). t_switches t + 1 < 2 ^ 64)"

text \<open>The two ways a pass ends after the sleepers are woken.\<close>

definition picks :: "scheduler \<Rightarrow> (hand_over \<times> scheduler) option \<Rightarrow> bool" where
  "picks s1 out = (
     (\<exists>pre nid q. ready (requeue s1) = pre @ nid # q \<and>
        (\<forall>i \<in> set pre. skipped (tasks s1) (current s1) i) \<and>
        \<not> skipped (tasks s1) (current s1) nid \<and>
        out = Some (Switch (current s1) (saved_rsp (tasks s1 ! nid)), run_task nid q (requeue s1))) \<or>
     (\<forall>i \<in> set (ready (requeue s1)). skipped (tasks s1) (current s1) i) \<and>
        out = Some (Stay, (requeue s1)\<lparr>ready := []\<rparr>))"

lemma schedule_cases:
  assumes inv: "sched_inv s" and cnt: "counters_ok s"
  obtains s1 where "wakes now s s1" and "ids_ok s1" and "none_lost s1" and "listed s1"
    and "\<forall>e \<in> set (sleepers s1). now < snd e"
    and "picks s1 (schedule now s)"
proof -
  have i: "init_done s" and ids: "ids_ok s" "none_lost s" "listed s"
    using inv by (auto simp: sched_inv_def)
  obtain s1 where w: "wake_loop now 0 s = Some s1" "wakes now s s1"
    and s1: "ids_ok s1" "none_lost s1" "listed s1" "\<forall>e \<in> set (sleepers s1). now < snd e"
    using wake_loop_ok [OF ids, of 0 now] by auto
  note f = wakes_facts [OF w(2)]
  let ?cur = "current s1" and ?ts = "tasks s1"
  have cur: "?cur < length ?ts" using s1(1) by (simp add: ids_ok_def)
  have q: "\<forall>i \<in> set (ready (requeue s1)). i < length ?ts"
    using s1(1) by (auto simp: ids_ok_def requeue_def)
  have sw: "t_switches (?ts ! i) + 1 < 2 ^ 64" if "i < length ?ts" for i
    using that cnt f(1) woken_facts(2) [OF f(7), of i] by (auto simp: counters_ok_def)
  have req: "requeue s1 = (if t_state (?ts ! ?cur) = Ready then s1\<lparr>ready := ready s1 @ [?cur]\<rparr> else s1)"
    using cur by (simp add: requeue_def is_ready_def)
  have tsr: "tasks (requeue s1) = ?ts" "current (requeue s1) = ?cur"
    "task_switches (requeue s1) = task_switches s1" by (simp_all add: requeue_def)
  show ?thesis
  proof (rule that [OF w(2) s1], rule pop_ready_ok [OF q, of ?cur])
    fix pre nid q'
    assume p: "pop_ready ?ts ?cur (ready (requeue s1)) = Some (Some nid, q')"
      and split: "ready (requeue s1) = pre @ nid # q'"
      and sk: "\<forall>i \<in> set pre. skipped ?ts ?cur i" "\<not> skipped ?ts ?cur nid"
    have nid: "nid < length ?ts" "nid \<noteq> ?cur" using sk(2) by (auto simp: skipped_def is_ready_def)
    have "schedule now s = Some (Switch ?cur (saved_rsp (?ts ! nid)), run_task nid q' (requeue s1))"
      using i w(1) p cur nid sw [OF cur] sw [OF nid(1)] tsr
      by (simp add: schedule_def idx_def bump_def usz_def run_task_def Let_def req [symmetric] ac_simps)
    then show "picks s1 (schedule now s)"
      using split sk by (auto simp: picks_def)
  next
    assume p: "pop_ready ?ts ?cur (ready (requeue s1)) = Some (None, [])"
      and sk: "\<forall>i \<in> set (ready (requeue s1)). skipped ?ts ?cur i"
    have "schedule now s = Some (Stay, (requeue s1)\<lparr>ready := []\<rparr>)"
      using i w(1) p cur tsr by (simp add: schedule_def idx_def Let_def req [symmetric])
    then show "picks s1 (schedule now s)"
      using sk by (simp add: picks_def)
  qed
qed

lemma run_task_facts:
  assumes "nid \<noteq> current s" and "nid < length (tasks s)" and "current s < length (tasks s)"
  shows "length (tasks (run_task nid q s)) = length (tasks s)" and "current (run_task nid q s) = nid"
    and "ready (run_task nid q s) = q" and "sleepers (run_task nid q s) = sleepers s"
    and "init_done (run_task nid q s) = init_done s"
    and "i < length (tasks s) \<Longrightarrow> t_state (tasks (run_task nid q s) ! i) = t_state (tasks s ! i)"
    and "i < length (tasks s) \<Longrightarrow> same_context (tasks s ! i) (tasks (run_task nid q s) ! i)"
    and "i < length (tasks s) \<Longrightarrow> t_switches (tasks (run_task nid q s) ! i) =
           t_switches (tasks s ! i) + (if i = nid \<or> i = current s then 1 else 0)"
    and "tss_rsp0 (run_task nid q s) = kstack_top (tasks s ! nid)"
    and "sys_kstack (run_task nid q s) = kstack_top (tasks s ! nid)"
  using assms
  by (auto simp: run_task_def Let_def set_kernel_stack_def nth_list_update same_context_def)

lemma requeue_facts [simp]:
  "tasks (requeue s) = tasks s" "current (requeue s) = current s" "sleepers (requeue s) = sleepers s"
  "init_done (requeue s) = init_done s" "tss_rsp0 (requeue s) = tss_rsp0 s"
  "sys_kstack (requeue s) = sys_kstack s" "task_switches (requeue s) = task_switches s"
  by (simp_all add: requeue_def)

lemma requeue_ready:
  "ids_ok s \<Longrightarrow> none_lost s \<Longrightarrow> is_ready (tasks s) i \<Longrightarrow> i \<in> set (ready (requeue s))"
  by (auto simp: requeue_def none_lost_def)

lemma picks_state:
  assumes "picks s1 (Some (r, s'))" and "ids_ok s1" and "i < length (tasks s1)"
  shows "t_state (tasks s' ! i) = t_state (tasks s1 ! i)"
  using assms(1) unfolding picks_def
proof (elim disjE exE conjE)
  fix pre nid q
  assume a: "\<not> skipped (tasks s1) (current s1) nid"
    "Some (r, s') = Some (Switch (current s1) (saved_rsp (tasks s1 ! nid)), run_task nid q (requeue s1))"
  then show ?thesis
    using run_task_facts(6) [of nid "requeue s1" i q] assms(2,3)
    by (auto simp: skipped_def is_ready_def ids_ok_def)
qed simp

text \<open>After the pass every runnable task still waits, the chosen one excepted.\<close>

lemma schedule_inv:
  assumes inv: "sched_inv s" and cnt: "counters_ok s"
  obtains r s' where "schedule now s = Some (r, s')" and "sched_inv s'"
    and "\<forall>e \<in> set (sleepers s'). now < snd e" and "max_switches s' \<le> max_switches s + 1"
    and "r = Stay \<and> current s' = current s \<and> (\<forall>i. is_ready (tasks s') i \<longrightarrow> i = current s) \<or>
         r = Switch (current s) (saved_rsp (tasks s' ! current s')) \<and> current s' \<noteq> current s \<and>
           is_ready (tasks s') (current s')"
    and "length (tasks s') = length (tasks s)"
    and "\<forall>i < length (tasks s). same_context (tasks s ! i) (tasks s' ! i) \<and>
           (t_state (tasks s ! i) = Ready \<longrightarrow> t_state (tasks s' ! i) = Ready) \<and>
           (t_state (tasks s' ! i) = Dead) = (t_state (tasks s ! i) = Dead)"
proof -
  obtain s1 where w: "wakes now s s1" and s1: "ids_ok s1" "none_lost s1" "listed s1"
    and late: "\<forall>e \<in> set (sleepers s1). now < snd e" and p: "picks s1 (schedule now s)"
    by (rule schedule_cases [OF inv cnt])
  note f = wakes_facts [OF w]
  note fw = woken_facts [OF f(7)]
  have base: "init_done s1" "length (tasks s1) \<le> MAX_TASKS" "current s1 < length (tasks s1)"
    and st: "tss_rsp0 s1 = kstack_top (tasks s1 ! current s1)"
      "current s1 \<noteq> 0 \<longrightarrow> sys_kstack s1 = tss_rsp0 s1"
    using inv f fw(1) [of "current s"]
    by (auto simp: sched_inv_def stacks_set_def ids_ok_def same_context_def)
  have keep: "\<forall>i < length (tasks s). same_context (tasks s ! i) (tasks s1 ! i) \<and>
           (t_state (tasks s ! i) = Ready \<longrightarrow> t_state (tasks s1 ! i) = Ready) \<and>
           (t_state (tasks s1 ! i) = Dead) = (t_state (tasks s ! i) = Dead)"
    using fw by blast
  have msw: "t_switches (tasks s1 ! i) \<le> max_switches s" if "i < length (tasks s1)" for i
    using that fw(2) f(1) max_switches_ge by simp
  from p consider
    (run) pre nid q where "ready (requeue s1) = pre @ nid # q"
      "\<forall>i \<in> set pre. skipped (tasks s1) (current s1) i" "\<not> skipped (tasks s1) (current s1) nid"
      "schedule now s = Some (Switch (current s1) (saved_rsp (tasks s1 ! nid)), run_task nid q (requeue s1))"
  | (stay) "\<forall>i \<in> set (ready (requeue s1)). skipped (tasks s1) (current s1) i"
      "schedule now s = Some (Stay, (requeue s1)\<lparr>ready := []\<rparr>)"
    by (auto simp: picks_def)
  then show ?thesis
  proof cases
    case run
    let ?s = "run_task nid q (requeue s1)"
    have nid: "nid < length (tasks s1)" "nid \<noteq> current s1" "is_ready (tasks s1) nid"
      using run(3) by (auto simp: skipped_def is_ready_def)
    note g = run_task_facts [where nid = nid and s = "requeue s1" and q = q, simplified, OF nid(2,1) base(3)]
    have rdy: "is_ready (tasks ?s) i = is_ready (tasks s1) i" for i
      using g(1,6) by (auto simp: is_ready_def)
    have slp: "is_sleeping (tasks ?s) i u = is_sleeping (tasks s1) i u" for i u
      using g(1,6) by (auto simp: is_sleeping_def)
    have "ids_ok ?s"
    proof -
      have "\<forall>i \<in> set (pre @ nid # q). i < length (tasks s1)"
        using s1(1) unfolding run(1) [symmetric] by (auto simp: ids_ok_def requeue_def)
      then show ?thesis using s1(1) g nid(1) by (auto simp: ids_ok_def)
    qed
    moreover have "none_lost ?s"
      unfolding none_lost_def
    proof (intro allI impI)
      fix i assume a: "is_ready (tasks ?s) i" "i \<noteq> current ?s"
      then have r: "is_ready (tasks s1) i" using rdy by simp
      then have "i \<in> set (pre @ nid # q)" using requeue_ready [OF s1(1,2)] run(1) by simp
      moreover have "i \<noteq> nid" using a(2) g(2) by simp
      moreover have "i \<in> set q" if "i \<in> set pre"
      proof -
        have "i = current s1" using that run(2) r by (auto simp: skipped_def)
        then have "ready s1 @ [current s1] = pre @ nid # q"
          using run(1) r by (simp add: requeue_def)
        then show ?thesis using nid(2) \<open>i = current s1\<close>
          by (metis last_ConsL last_ConsR last_appendR last_in_set last_snoc list.discI)
      qed
      ultimately show "i \<in> set (ready ?s)" using g(3) by auto
    qed
    moreover have "listed ?s" using s1(3) slp g(4) by (simp add: listed_def)
    moreover have "stacks_set ?s"
      using g(2,9,10) g(7) [OF nid(1)] by (simp add: stacks_set_def same_context_def)
    ultimately have inv': "sched_inv ?s" using base g by (simp add: sched_inv_def)
    have ms: "max_switches ?s \<le> max_switches s + 1"
      using g(1,8) msw by (intro max_switches_le) (auto intro: le_SucI)
    have ctx: "saved_rsp (tasks s1 ! nid) = saved_rsp (tasks ?s ! current ?s)"
      using g(2) g(7) [OF nid(1)] by (simp add: same_context_def)
    have kp: "\<forall>i < length (tasks s). same_context (tasks s ! i) (tasks ?s ! i) \<and>
           (t_state (tasks s ! i) = Ready \<longrightarrow> t_state (tasks ?s ! i) = Ready) \<and>
           (t_state (tasks ?s ! i) = Dead) = (t_state (tasks s ! i) = Dead)"
      using keep g(6,7) f(1) by (simp add: same_context_def)
    show ?thesis
      by (rule that [OF run(4) inv' _ ms _ _ kp])
        (use late g(1,2,4) nid f(1,2) rdy ctx in auto)
  next
    case stay
    let ?s = "(requeue s1)\<lparr>ready := []\<rparr>"
    have only: "is_ready (tasks s1) i \<Longrightarrow> i = current s1" for i
      using stay(1) requeue_ready [OF s1(1,2)] by (auto simp: skipped_def)
    have "sched_inv ?s"
      using base st s1 only
      by (auto simp: sched_inv_def ids_ok_def none_lost_def listed_def stacks_set_def)
    moreover have "max_switches ?s \<le> max_switches s + 1"
      using msw by (intro max_switches_le) (auto intro: le_SucI)
    ultimately show ?thesis
      by (intro that [OF stay(2)]) (use late only f(1,2) keep in auto)
  qed
qed

subsection \<open>The other operations\<close>

lemma upd_task_some:
  "i < length (tasks s) \<Longrightarrow> upd_task i f s = Some (s\<lparr>tasks := (tasks s)[i := f (tasks s ! i)]\<rparr>)"
  by (simp add: upd_task_def idx_def)

lemma sleep_enter_inv:
  assumes "sched_inv s"
  obtains s' where "sleep_enter tgt s = Some s'" and "sched_inv s'" and "ready s' = ready s"
    and "current s' = current s" and "max_switches s' = max_switches s"
    and "tasks s' = (tasks s)[current s := (tasks s ! current s)\<lparr>t_state := Sleeping tgt\<rparr>]"
proof -
  have c: "current s < length (tasks s)" using assms by (simp add: sched_inv_def ids_ok_def)
  let ?s = "s\<lparr>tasks := (tasks s)[current s := (tasks s ! current s)\<lparr>t_state := Sleeping tgt\<rparr>],
              sleepers := sleepers s @ [(current s, tgt)]\<rparr>"
  have "sleep_enter tgt s = Some ?s"
    using c by (simp add: sleep_enter_def set_state_def upd_task_some)
  moreover have "sched_inv ?s"
    using assms c
    by (auto simp: sched_inv_def ids_ok_def none_lost_def listed_def stacks_set_def is_ready_def
        is_sleeping_def nth_list_update split: if_splits)
  moreover have "max_switches ?s = max_switches s"
  proof -
    have "map t_switches (tasks ?s) = map t_switches (tasks s)"
      using c by (intro nth_equalityI) (auto simp: nth_list_update)
    then show ?thesis unfolding max_switches_def by (metis list.set_map)
  qed
  ultimately show ?thesis by (intro that [of ?s]) simp_all
qed

lemma max_switches_add:
  "t_switches t = 0 \<Longrightarrow> max_switches (s\<lparr>tasks := tasks s @ [t], ready := q\<rparr>) = max_switches s"
  by (simp add: max_switches_def insert_commute)

lemma spawn_inv:
  assumes inv: "sched_inv s"
    and a: "MAX_TASKS \<le> length (tasks s) \<or> (\<exists>base. alloc = Some base \<and> base + STACK_BYTES < 2 ^ 64)"
  obtains tid s' mem' where "spawn nm entry alloc (s, mem) = Some (tid, s', mem')" and "sched_inv s'"
    and "\<exists>qs. ready s' = ready s @ qs" and "current s' = current s"
    and "max_switches s' = max_switches s" and "\<exists>ts. tasks s' = tasks s @ ts"
proof (cases "MAX_TASKS \<le> length (tasks s)")
  case True
  then show ?thesis by (intro that [of U32_MAX s mem]) (simp_all add: spawn_def inv)
next
  case False
  then obtain base where b: "alloc = Some base" "base + STACK_BYTES < 2 ^ 64" using a by auto
  let ?t = "\<lparr>t_name = nm, saved_rsp = (base + STACK_BYTES) div 16 * 16 - 56, t_stack = Some base,
            t_state = Ready, t_switches = 0, kstack_top = base + STACK_BYTES\<rparr>"
  let ?s = "s\<lparr>tasks := tasks s @ [?t], ready := ready s @ [length (tasks s)]\<rparr>"
  have "\<exists>mem'. spawn nm entry alloc (s, mem) = Some (length (tasks s), ?s, mem')"
    using False b by (simp add: spawn_def usz_def Let_def)
  then obtain mem' where sp: "spawn nm entry alloc (s, mem) = Some (length (tasks s), ?s, mem')" by blast
  have "sched_inv ?s"
    using inv False
    by (auto simp: sched_inv_def ids_ok_def none_lost_def listed_def stacks_set_def is_ready_def
        is_sleeping_def nth_append less_Suc_eq split: if_splits)
  then show ?thesis by (intro that [OF sp]) (simp_all add: max_switches_add)
qed

lemma terminate_inv:
  assumes inv: "sched_inv s"
  obtains r s' where "terminate_current s = Some (r, s')"
    and "length (tasks s') = length (tasks s)" and "max_switches s' = max_switches s"
    and "r = Halted \<and> current s' = current s \<and> (\<forall>i. \<not> is_ready (tasks s') i) \<or>
         r = Switch (current s) (saved_rsp (tasks s' ! current s')) \<and> sched_inv s' \<and>
           current s' \<noteq> current s \<and> is_ready (tasks s') (current s') \<and>
           (\<exists>pre. ready s = pre @ current s' # ready s' \<and>
              (\<forall>i \<in> set pre. skipped (tasks s') (current s) i))"
    and "tasks s' = (tasks s)[current s := (tasks s ! current s)\<lparr>t_state := Dead\<rparr>]"
proof -
  let ?cur = "current s"
  have c: "?cur < length (tasks s)" using inv by (simp add: sched_inv_def ids_ok_def)
  let ?ts = "(tasks s)[?cur := (tasks s ! ?cur)\<lparr>t_state := Dead\<rparr>]"
  have dead: "set_state ?cur Dead s = Some (s\<lparr>tasks := ?ts\<rparr>)"
    using c by (simp add: set_state_def upd_task_some)
  have q: "\<forall>i \<in> set (ready s). i < length ?ts" using inv by (simp add: sched_inv_def ids_ok_def)
  have ms: "max_switches s' = max_switches s" if "tasks s' = ?ts" for s'
  proof -
    have "map t_switches ?ts = map t_switches (tasks s)"
      using c by (intro nth_equalityI) (auto simp: nth_list_update)
    then show ?thesis unfolding max_switches_def that by (metis list.set_map)
  qed
  have rdy: "is_ready ?ts i \<Longrightarrow> i \<noteq> ?cur \<and> is_ready (tasks s) i \<and> i \<in> set (ready s)" for i
    using inv c by (auto simp: is_ready_def sched_inv_def none_lost_def nth_list_update split: if_splits)
  show ?thesis
  proof (rule pop_ready_ok [OF q, of ?cur])
    fix pre nid q'
    assume p: "pop_ready ?ts ?cur (ready s) = Some (Some nid, q')"
      and split: "ready s = pre @ nid # q'" and sk: "\<forall>i \<in> set pre. skipped ?ts ?cur i"
      "\<not> skipped ?ts ?cur nid"
    have n: "nid \<noteq> ?cur" "nid < length (tasks s)" "is_ready ?ts nid"
      using sk(2) by (auto simp: skipped_def is_ready_def)
    let ?s = "set_kernel_stack (kstack_top (?ts ! nid)) (s\<lparr>tasks := ?ts, ready := q', current := nid,
                task_switches := (task_switches s + 1) mod 2 ^ 64\<rparr>)"
    have t: "terminate_current s = Some (Switch ?cur (saved_rsp (?ts ! nid)), ?s)"
      using dead p n by (simp add: terminate_current_def idx_def Let_def)
    have "none_lost ?s"
      using rdy split sk by (fastforce simp: none_lost_def set_kernel_stack_def skipped_def)
    then have "sched_inv ?s"
      using inv n split c
      by (auto simp: sched_inv_def ids_ok_def listed_def stacks_set_def set_kernel_stack_def
          is_sleeping_def nth_list_update split: if_splits)
    then show ?thesis
      by (intro that [OF t]) (use n split sk ms in \<open>auto simp: set_kernel_stack_def\<close>)
  next
    assume p: "pop_ready ?ts ?cur (ready s) = Some (None, [])"
      and sk: "\<forall>i \<in> set (ready s). skipped ?ts ?cur i"
    have t: "terminate_current s = Some (Halted, s\<lparr>tasks := ?ts, ready := []\<rparr>)"
      using dead p by (simp add: terminate_current_def Let_def)
    have "\<not> is_ready ?ts i" for i using rdy sk by (auto simp: skipped_def)
    then show ?thesis by (intro that [OF t]) (use ms in auto)
  qed
qed

section \<open>Runs of the machine\<close>

text \<open>
  The steps of the machine: a timer interrupt, the three services a running task asks for,
  and its own work, which may change registers and any memory but the stacks of the
  others.  \<open>B\<close> is the region of the boot stack.  A pass of the scheduler starts at the
  call of \<open>context_switch\<close>, with the return address on top of the running task's
  stack and room for six registers below it; a new stack comes from the allocator, disjoint
  from those in use.
\<close>

datatype event = Timer | Spawned | Slept | Exited | Worked

definition stack_of :: "nat set \<Rightarrow> task \<Rightarrow> nat set" where
  "stack_of B t = (case t_stack t of None \<Rightarrow> B | Some b \<Rightarrow> {b..<b + STACK_BYTES})"

definition task_at :: "machine \<Rightarrow> nat \<Rightarrow> task" where
  "task_at m i = tasks (sch m) ! i"

abbreviation cur :: "machine \<Rightarrow> nat" where "cur m \<equiv> current (sch m)"
abbreviation ntasks :: "machine \<Rightarrow> nat" where "ntasks m \<equiv> length (tasks (sch m))"

definition at_call :: "nat set \<Rightarrow> machine \<Rightarrow> bool" where
  "at_call B m = (let sp = rsp (fst (proc m)) in
     48 \<le> sp \<and> {sp - 48..<sp + 8} \<subseteq> stack_of B (task_at m (cur m)))"

definition can_run :: "machine \<Rightarrow> bool" where
  "can_run m = (case t_state (task_at m (cur m)) of
     Ready \<Rightarrow> True | Sleeping tgt \<Rightarrow> sleep_over (ticks m) tgt | Dead \<Rightarrow> False)"

definition fresh_stack :: "nat set \<Rightarrow> nat option \<Rightarrow> machine \<Rightarrow> bool" where
  "fresh_stack B a m = (\<forall>b. a = Some b \<longrightarrow> {b..<b + STACK_BYTES} \<inter> B = {} \<and>
     (\<forall>i < ntasks m. {b..<b + STACK_BYTES} \<inter> stack_of B (task_at m i) = {}))"

definition spares_others :: "nat set \<Rightarrow> machine \<Rightarrow> stack_mem \<Rightarrow> bool" where
  "spares_others B m mem = (\<forall>i < ntasks m. i \<noteq> cur m \<longrightarrow>
     (\<forall>a \<in> stack_of B (task_at m i). mem a = snd (proc m) a))"

inductive kstep :: "nat set \<Rightarrow> machine \<Rightarrow> event \<Rightarrow> machine \<Rightarrow> bool" for B where
  timer: "\<not> halted m \<Longrightarrow> at_call B m \<Longrightarrow> timer_interrupt m = Some m' \<Longrightarrow> kstep B m Timer m'"
| spawned: "\<not> halted m \<Longrightarrow> can_run m \<Longrightarrow> fresh_stack B alloc m \<Longrightarrow>
    spawn_task nm entry alloc m = Some m' \<Longrightarrow> kstep B m Spawned m'"
| slept: "\<not> halted m \<Longrightarrow> can_run m \<Longrightarrow> sleep_ms ms m = Some m' \<Longrightarrow> kstep B m Slept m'"
| exited: "\<not> halted m \<Longrightarrow> can_run m \<Longrightarrow> at_call B m \<Longrightarrow> exit_task m = Some m' \<Longrightarrow> kstep B m Exited m'"
| worked: "\<not> halted m \<Longrightarrow> spares_others B m mem \<Longrightarrow> kstep B m Worked (m\<lparr>proc := (c, mem)\<rparr>)"

inductive_cases kstepE: "kstep B m e m'"

text \<open>A run whose states, the first included, all satisfy \<open>P\<close>.\<close>

inductive kpath :: "nat set \<Rightarrow> (machine \<Rightarrow> bool) \<Rightarrow> machine \<Rightarrow> event list \<Rightarrow> machine \<Rightarrow> bool"
  for B P m where
  start: "P m \<Longrightarrow> kpath B P m [] m"
| more: "kpath B P m es m' \<Longrightarrow> kstep B m' e m'' \<Longrightarrow> P m'' \<Longrightarrow> kpath B P m (es @ [e]) m''"

definition zero_sched :: "nat \<Rightarrow> scheduler" where
  "zero_sched rsp0 = \<lparr>tasks = [], ready = [], sleepers = [], current = 0, init_done = False,
     task_switches = 0, tss_rsp0 = rsp0, sys_kstack = 0\<rparr>"

text \<open>The machine when \<open>sched::init\<close> returns: \<open>gdt::init\<close> has put the boot stack into the TSS.\<close>

definition booted :: "machine \<Rightarrow> bool" where
  "booted m = (sch m = init (tss_rsp0 (sch m)) (zero_sched (tss_rsp0 (sch m))) \<and> \<not> halted m)"

abbreviation kreach :: "nat set \<Rightarrow> machine \<Rightarrow> event list \<Rightarrow> machine \<Rightarrow> bool" where
  "kreach B \<equiv> kpath B (\<lambda>m. True)"

subsection \<open>Invariants of runs\<close>

definition stacks_apart :: "nat set \<Rightarrow> machine \<Rightarrow> bool" where
  "stacks_apart B m = (\<forall>i < ntasks m. \<forall>j < ntasks m. i \<noteq> j \<longrightarrow>
     stack_of B (task_at m i) \<inter> stack_of B (task_at m j) = {})"

definition machine_inv :: "nat set \<Rightarrow> nat \<Rightarrow> machine \<Rightarrow> bool" where
  "machine_inv B n m = ((halted m \<or> sched_inv (sch m)) \<and> max_switches (sch m) \<le> n \<and>
     stacks_apart B m \<and> ntasks m \<noteq> 0 \<and>
     (\<forall>i < ntasks m. t_stack (task_at m i) = None \<longrightarrow> i = 0))"

definition save_rsp :: "nat \<Rightarrow> nat \<Rightarrow> scheduler \<Rightarrow> scheduler" where
  "save_rsp i v s = s\<lparr>tasks := (tasks s)[i := (tasks s ! i)\<lparr>saved_rsp := v\<rparr>]\<rparr>"

lemma save_rsp_facts [simp]:
  "length (tasks (save_rsp i v s)) = length (tasks s)" "ready (save_rsp i v s) = ready s"
  "current (save_rsp i v s) = current s" "sleepers (save_rsp i v s) = sleepers s"
  by (simp_all add: save_rsp_def)

lemma save_rsp_task:
  "j < length (tasks s) \<Longrightarrow> tasks (save_rsp i v s) ! j =
     (if j = i then (tasks s ! j)\<lparr>saved_rsp := v\<rparr> else tasks s ! j)"
  by (simp add: save_rsp_def nth_list_update)

lemma save_rsp_ready [simp]: "is_ready (tasks (save_rsp i v s)) j = is_ready (tasks s) j"
  by (auto simp: is_ready_def save_rsp_task split: if_splits)

lemma save_rsp_inv:
  assumes "i < length (tasks s)"
  shows "upd_task i (\<lambda>t. t\<lparr>saved_rsp := v\<rparr>) s = Some (save_rsp i v s)"
    and "sched_inv s \<Longrightarrow> sched_inv (save_rsp i v s)"
    and "max_switches (save_rsp i v s) = max_switches s"
proof -
  show "upd_task i (\<lambda>t. t\<lparr>saved_rsp := v\<rparr>) s = Some (save_rsp i v s)"
    using assms by (simp add: upd_task_some save_rsp_def)
  have slp: "is_sleeping (tasks (save_rsp i v s)) j u = is_sleeping (tasks s) j u" for j u
    by (auto simp: is_sleeping_def save_rsp_task split: if_splits)
  have "sched_inv (save_rsp i v s)" if "sched_inv s"
  proof -
    have "stacks_set (save_rsp i v s)"
      using that by (auto simp: sched_inv_def stacks_set_def ids_ok_def save_rsp_task)
        (auto simp: save_rsp_def)
    moreover have "init_done (save_rsp i v s)" using that by (simp add: save_rsp_def sched_inv_def)
    ultimately show ?thesis
      using that slp by (simp add: sched_inv_def ids_ok_def none_lost_def listed_def)
  qed
  then show "sched_inv s \<Longrightarrow> sched_inv (save_rsp i v s)" .
  have "map t_switches (tasks (save_rsp i v s)) = map t_switches (tasks s)"
    by (intro nth_equalityI) (auto simp: save_rsp_task)
  then show "max_switches (save_rsp i v s) = max_switches s"
    unfolding max_switches_def by (metis list.set_map)
qed

lemma counters_okI: "max_switches s + 1 < 2 ^ 64 \<Longrightarrow> counters_ok s"
  unfolding counters_ok_def by (metis add_le_mono1 in_set_conv_nth le_less_trans max_switches_ge)

abbreviation next_tick :: "machine \<Rightarrow> nat" where "next_tick m \<equiv> (ticks m + 1) mod 2 ^ 64"

lemma timer_step:
  assumes inv: "sched_inv (sch m)" and cnt: "max_switches (sch m) + 1 < 2 ^ 64"
  obtains s' m' where "timer_interrupt m = Some m'"
    and "schedule (next_tick m) (sch m) = Some (Stay, s') \<and> m' = m\<lparr>ticks := next_tick m, sch := s'\<rparr> \<or>
      (\<exists>old p. schedule (next_tick m) (sch m) = Some (Switch (cur m) (saved_rsp (tasks s' ! current s')), s') \<and>
         context_switch (saved_rsp (tasks s' ! current s')) (proc m) = (old, p) \<and>
         m' = m\<lparr>ticks := next_tick m, sch := save_rsp (cur m) old s', proc := p\<rparr> \<and> current s' \<noteq> cur m)"
    and "sched_inv s'" and "sched_inv (sch m')" and "max_switches (sch m') \<le> max_switches (sch m) + 1"
    and "\<forall>e \<in> set (sleepers (sch m')). next_tick m < snd e" and "ntasks m' = ntasks m"
    and "\<forall>i < ntasks m. same_context (task_at m i) (tasks s' ! i)"
    and "\<forall>i < ntasks m. t_state (task_at m' i) = t_state (tasks s' ! i) \<and>
           t_stack (task_at m' i) = t_stack (task_at m i) \<and>
           (t_state (task_at m i) = Ready \<longrightarrow> t_state (task_at m' i) = Ready) \<and>
           (t_state (task_at m' i) = Dead) = (t_state (task_at m i) = Dead)"
proof -
  obtain r s' where s: "schedule (next_tick m) (sch m) = Some (r, s')" "sched_inv s'"
    and late: "\<forall>e \<in> set (sleepers s'). next_tick m < snd e"
    and ms: "max_switches s' \<le> max_switches (sch m) + 1"
    and r: "r = Stay \<and> current s' = cur m \<and> (\<forall>i. is_ready (tasks s') i \<longrightarrow> i = cur m) \<or>
         r = Switch (cur m) (saved_rsp (tasks s' ! current s')) \<and> current s' \<noteq> cur m \<and>
           is_ready (tasks s') (current s')"
    and len: "length (tasks s') = ntasks m"
    and ctx: "\<forall>i < ntasks m. same_context (task_at m i) (tasks s' ! i) \<and>
           (t_state (task_at m i) = Ready \<longrightarrow> t_state (tasks s' ! i) = Ready) \<and>
           (t_state (tasks s' ! i) = Dead) = (t_state (task_at m i) = Dead)"
    unfolding task_at_def by (rule schedule_inv [OF inv counters_okI [OF cnt]])
  have c: "cur m < length (tasks s')" using inv len by (simp add: sched_inv_def ids_ok_def)
  show ?thesis
  proof (cases "r = Stay")
    case True
    then have t: "timer_interrupt m = Some (m\<lparr>ticks := next_tick m, sch := s'\<rparr>)"
      using s by (simp add: timer_interrupt_def hand_to_def Let_def)
    show ?thesis
      by (rule that [OF t, of s']) (use True s late ms len ctx in \<open>auto simp: task_at_def same_context_def\<close>)
  next
    case False
    obtain old p where cs: "context_switch (saved_rsp (tasks s' ! current s')) (proc m) = (old, p)"
      by (cases "context_switch (saved_rsp (tasks s' ! current s')) (proc m)")
    note sv = save_rsp_inv [OF c, of old]
    have t: "timer_interrupt m = Some (m\<lparr>ticks := next_tick m, sch := save_rsp (cur m) old s', proc := p\<rparr>)"
      using s r False cs sv(1) by (simp add: timer_interrupt_def hand_to_def Let_def)
    show ?thesis
      by (rule that [OF t, of s'])
        (use False r s late ms len ctx cs sv in \<open>auto simp: task_at_def same_context_def save_rsp_task\<close>)
  qed
qed

lemma exit_step:
  assumes inv: "sched_inv (sch m)"
  obtains s' m' where "exit_task m = Some m'"
    and "terminate_current (sch m) = Some (Halted, s') \<and> m' = m\<lparr>sch := s', halted := True\<rparr> \<and>
           current s' = cur m \<and> (\<forall>i. \<not> is_ready (tasks s') i) \<or>
      (\<exists>old p pre. terminate_current (sch m) = Some (Switch (cur m) (saved_rsp (tasks s' ! current s')), s') \<and>
         context_switch (saved_rsp (tasks s' ! current s')) (proc m) = (old, p) \<and>
         m' = m\<lparr>sch := s', proc := p\<rparr> \<and> sched_inv s' \<and> current s' \<noteq> cur m \<and>
         ready (sch m) = pre @ current s' # ready s' \<and>
         (\<forall>i \<in> set pre. skipped (tasks s') (cur m) i))"
    and "max_switches s' = max_switches (sch m)"
    and "tasks s' = (tasks (sch m))[cur m := (task_at m (cur m))\<lparr>t_state := Dead\<rparr>]"
proof -
  obtain r s' where s: "terminate_current (sch m) = Some (r, s')"
    and ms: "max_switches s' = max_switches (sch m)"
    and r: "r = Halted \<and> current s' = cur m \<and> (\<forall>i. \<not> is_ready (tasks s') i) \<or>
         r = Switch (cur m) (saved_rsp (tasks s' ! current s')) \<and> sched_inv s' \<and>
           current s' \<noteq> cur m \<and> is_ready (tasks s') (current s') \<and>
           (\<exists>pre. ready (sch m) = pre @ current s' # ready s' \<and>
              (\<forall>i \<in> set pre. skipped (tasks s') (cur m) i))"
    and ts: "tasks s' = (tasks (sch m))[cur m := (tasks (sch m) ! cur m)\<lparr>t_state := Dead\<rparr>]"
    by (rule terminate_inv [OF inv])
  show ?thesis
  proof (cases "r = Halted")
    case True
    then have "exit_task m = Some (m\<lparr>sch := s', halted := True\<rparr>)"
      using s by (simp add: exit_task_def hand_to_def)
    then show ?thesis by (rule that) (use True s r ms ts in \<open>auto simp: task_at_def\<close>)
  next
    case False
    obtain old p where cs: "context_switch (saved_rsp (tasks s' ! current s')) (proc m) = (old, p)"
      by (cases "context_switch (saved_rsp (tasks s' ! current s')) (proc m)")
    have "exit_task m = Some (m\<lparr>sch := s', proc := p\<rparr>)"
      using s r False cs by (simp add: exit_task_def hand_to_def)
    then show ?thesis by (rule that) (use False s r ms ts cs in \<open>auto simp: task_at_def\<close>)
  qed
qed

text \<open>What a step does to the task table: no task is lost, no stack moves.\<close>

definition table_grows :: "machine \<Rightarrow> machine \<Rightarrow> bool" where
  "table_grows m m' = (ntasks m \<le> ntasks m' \<and>
     (\<forall>i < ntasks m. t_stack (task_at m' i) = t_stack (task_at m i)))"

lemma spawn_task_step:
  assumes inv: "sched_inv (sch m)" and sp: "spawn_task nm entry alloc m = Some m'"
  obtains "m' = m"
  | b mem where "alloc = Some b" and "ntasks m < MAX_TASKS"
      and "sch m' = (sch m)\<lparr>tasks := tasks (sch m) @ [\<lparr>t_name = nm,
             saved_rsp = (b + STACK_BYTES) div 16 * 16 - 56, t_stack = Some b,
             t_state = Ready, t_switches = 0, kstack_top = b + STACK_BYTES\<rparr>],
             ready := ready (sch m) @ [ntasks m]\<rparr>"
      and "proc m' = (fst (proc m), mem)" and "ticks m' = ticks m" and "halted m' = halted m"
      and "mem = (\<lambda>a. if b \<le> a \<and> a < b + STACK_BYTES then 0 else snd (proc m) a)
             ((b + STACK_BYTES) div 16 * 16 - 8 := entry)"
      and "sched_inv (sch m')" and "max_switches (sch m') = max_switches (sch m)"
proof (cases "MAX_TASKS \<le> ntasks m")
  case True
  then have "m' = m" using sp by (cases m) (simp add: spawn_task_def spawn_def)
  then show ?thesis by (rule that)
next
  case False
  then obtain b where b: "alloc = Some b" "b + STACK_BYTES < 2 ^ 64"
    using sp by (auto simp: spawn_task_def spawn_def usz_def Let_def bind_eq_Some_conv split: if_splits)
  have eq: "(b + STACK_BYTES) div 16 * 16 - 7 * 8 + 6 * 8 = (b + STACK_BYTES) div 16 * 16 - (8::nat)"
    by (simp add: STACK_BYTES_def)
  obtain tid s' mem' where s: "spawn nm entry alloc (sch m, snd (proc m)) = Some (tid, s', mem')"
    and i: "sched_inv s'" "max_switches s' = max_switches (sch m)"
    by (rule spawn_inv [OF inv, of alloc nm entry "snd (proc m)"]) (use b in auto)
  show ?thesis
    by (rule that(2) [OF b(1), of "snd (proc m')"])
      (use s sp i b False eq in \<open>auto simp: spawn_task_def spawn_def usz_def Let_def not_le\<close>)
qed

lemma spawn_stacks:
  assumes "stacks_apart B m" and "fresh_stack B (Some b) m"
    and "tasks (sch m') = tasks (sch m) @ [t]" and "t_stack t = Some b"
  shows "stacks_apart B m'"
proof -
  have "stack_of B t = {b..<b + STACK_BYTES}" using assms(4) by (simp add: stack_of_def)
  then have "stack_of B t \<inter> stack_of B (task_at m i) = {}" if "i < ntasks m" for i
    using assms(2) that by (simp add: fresh_stack_def)
  then show ?thesis
    using assms(1,3) by (force simp: stacks_apart_def task_at_def nth_append less_Suc_eq)
qed

lemma stacks_apart_same:
  assumes "stacks_apart B m" and "ntasks m' = ntasks m"
    and "\<And>i. i < ntasks m \<Longrightarrow> t_stack (task_at m' i) = t_stack (task_at m i)"
  shows "stacks_apart B m'"
  using assms by (simp add: stacks_apart_def stack_of_def)

lemma kstep_inv:
  assumes st: "kstep B m e m'" and inv: "machine_inv B n m" and n: "n + 1 < 2 ^ 64"
  shows "machine_inv B (n + 1) m'" and "table_grows m m'"
proof -
  have live: "\<not> halted m" using st by (auto elim: kstepE)
  have s: "sched_inv (sch m)" and ms: "max_switches (sch m) \<le> n" and ap: "stacks_apart B m"
    and nt: "ntasks m \<noteq> 0" and none: "\<forall>i < ntasks m. t_stack (task_at m i) = None \<longrightarrow> i = 0"
    using inv live by (auto simp: machine_inv_def)
  have c: "cur m < ntasks m" using s by (simp add: sched_inv_def ids_ok_def)
  have "machine_inv B (n + 1) m' \<and> table_grows m m'"
    using st
  proof cases
    case timer
    have cnt: "max_switches (sch m) + 1 < 2 ^ 64" using ms n by simp
    obtain s' m2 where "timer_interrupt m = Some m2" "sched_inv (sch m2)"
      "max_switches (sch m2) \<le> max_switches (sch m) + 1" "ntasks m2 = ntasks m"
      "\<forall>i < ntasks m. t_stack (task_at m2 i) = t_stack (task_at m i)"
      by (rule timer_step [OF s cnt]) blast
    with timer show ?thesis
      using ms nt none stacks_apart_same [OF ap] by (auto simp: machine_inv_def table_grows_def)
  next
    case (spawned alloc nm entry)
    from spawned(5) show ?thesis
    proof (rule spawn_task_step [OF s])
      assume "m' = m"
      then show ?thesis using inv ms by (simp add: machine_inv_def table_grows_def)
    next
      fix b mem
      assume b: "alloc = Some b" and ts: "sch m' = (sch m)\<lparr>tasks := tasks (sch m) @ [\<lparr>t_name = nm,
             saved_rsp = (b + STACK_BYTES) div 16 * 16 - 56, t_stack = Some b,
             t_state = Ready, t_switches = 0, kstack_top = b + STACK_BYTES\<rparr>],
             ready := ready (sch m) @ [ntasks m]\<rparr>"
        and i: "sched_inv (sch m')" "max_switches (sch m') = max_switches (sch m)"
      have "stacks_apart B m'"
        by (rule spawn_stacks [OF ap]) (use spawned(4) b ts in auto)
      then show ?thesis
        using i ms ts nt none
        by (auto simp: machine_inv_def table_grows_def task_at_def nth_append less_Suc_eq)
    qed
  next
    case (slept ms')
    then obtain tgt s' where s': "sleep_enter tgt (sch m) = Some s'" and m': "m' = m\<lparr>sch := s'\<rparr>"
      by (auto simp: sleep_ms_def bind_eq_Some_conv)
    obtain s2 where "sleep_enter tgt (sch m) = Some s2" "sched_inv s2" "max_switches s2 = max_switches (sch m)"
      "tasks s2 = (tasks (sch m))[cur m := (tasks (sch m) ! cur m)\<lparr>t_state := Sleeping tgt\<rparr>]"
      by (rule sleep_enter_inv [OF s])
    with s' m' show ?thesis
      using ms nt none c stacks_apart_same [OF ap, of m']
      by (auto simp: machine_inv_def table_grows_def task_at_def nth_list_update)
  next
    case exited
    obtain s' m2 where "exit_task m = Some m2" "sch m2 = s'" "halted m2 \<or> sched_inv s'"
      "max_switches s' = max_switches (sch m)"
      "tasks s' = (tasks (sch m))[cur m := (task_at m (cur m))\<lparr>t_state := Dead\<rparr>]"
      by (rule exit_step [OF s]) auto
    with exited show ?thesis
      using ms nt none c stacks_apart_same [OF ap, of m']
      by (auto simp: machine_inv_def table_grows_def task_at_def nth_list_update)
  next
    case (worked mem c)
    then show ?thesis
      using inv ms live by (simp add: machine_inv_def table_grows_def stacks_apart_def task_at_def)
  qed
  then show "machine_inv B (n + 1) m'" and "table_grows m m'" by simp_all
qed

lemma booted_inv: "booted m \<Longrightarrow> machine_inv B 0 m"
proof -
  assume b: "booted m"
  define r0 where "r0 = tss_rsp0 (sch m)"
  have s: "sch m = init r0 (zero_sched r0)" using b by (simp add: booted_def r0_def)
  have "sched_inv (sch m)"
    unfolding s
    by (auto simp: init_def zero_sched_def sched_inv_def ids_ok_def none_lost_def listed_def
        stacks_set_def is_ready_def is_sleeping_def MAX_TASKS_def)
  moreover have "max_switches (sch m) = 0" unfolding s by (simp add: init_def zero_sched_def max_switches_def)
  moreover have "ntasks m = 1" unfolding s by (simp add: init_def zero_sched_def)
  ultimately show ?thesis by (simp add: machine_inv_def stacks_apart_def)
qed

lemma kpath_inv:
  assumes "kpath B P m es m'" and "machine_inv B n m" and "n + length es < 2 ^ 64"
  shows "machine_inv B (n + length es) m'"
  using assms by (induction rule: kpath.induct) (auto dest: kstep_inv(1))

lemma kreach_inv: "kreach B m es m' \<Longrightarrow> booted m \<Longrightarrow> length es < 2 ^ 64 \<Longrightarrow> machine_inv B (length es) m'"
  using kpath_inv [OF _ booted_inv] by fastforce

subsection \<open>Waiting in the ready queue\<close>

definition first_pos :: "nat \<Rightarrow> nat list \<Rightarrow> nat" where
  "first_pos i q = length (takeWhile (\<lambda>x. x \<noteq> i) q)"

lemma first_pos_append: "i \<in> set q \<Longrightarrow> first_pos i (q @ r) = first_pos i q"
  by (auto simp: first_pos_def takeWhile_append1)

lemma first_pos_later:
  "i \<notin> set pre \<Longrightarrow> i \<noteq> x \<Longrightarrow> first_pos i (pre @ x # q) = length pre + 1 + first_pos i q"
  unfolding first_pos_def by (subst takeWhile_append2) auto

definition passes :: "event \<Rightarrow> nat" where
  "passes e = (if e = Timer \<or> e = Exited then 1 else 0)"

lemma schedule_moves_up:
  assumes inv: "sched_inv s" and cnt: "counters_ok s" and r: "is_ready (tasks s) i" and ne: "i \<noteq> current s"
    and out: "schedule now s = Some (r', s')" and away: "current s' \<noteq> i"
  shows "first_pos i (ready s') + 1 \<le> first_pos i (ready s)"
proof -
  obtain s1 where w: "wakes now s s1" and s1: "ids_ok s1" "none_lost s1"
    and p: "picks s1 (schedule now s)"
    by (rule schedule_cases [OF inv cnt])
  note f = wakes_facts [OF w]
  have iq: "i \<in> set (ready s)" using inv r ne by (simp add: sched_inv_def none_lost_def)
  have r1: "is_ready (tasks s1) i"
    using r f(1) woken_facts(3) [OF f(7), of i] by (simp add: is_ready_def)
  then have unsk: "\<not> skipped (tasks s1) (current s1) i" using ne f(2) by (simp add: skipped_def)
  obtain qs where qs: "ready (requeue s1) = ready s @ qs"
    using f(8) by (cases "is_ready (tasks s1) (current s1)") (auto simp: requeue_def)
  from p consider
    (run) pre nid q where "ready (requeue s1) = pre @ nid # q"
      "\<forall>j \<in> set pre. skipped (tasks s1) (current s1) j" "\<not> skipped (tasks s1) (current s1) nid"
      "s' = run_task nid q (requeue s1)"
  | (stay) "\<forall>j \<in> set (ready (requeue s1)). skipped (tasks s1) (current s1) j"
    using out by (auto simp: picks_def)
  then show ?thesis
  proof cases
    case run
    have nid: "nid \<noteq> current s1" "nid < length (tasks s1)" "current s1 < length (tasks s1)"
      using run(3) s1(1) by (auto simp: skipped_def is_ready_def ids_ok_def)
    note g = run_task_facts [where nid = nid and s = "requeue s1" and q = q, simplified, OF nid]
    have "i \<notin> set pre" and "i \<noteq> nid" using run unsk away g(2) by auto
    then have "first_pos i (ready s @ qs) = length pre + 1 + first_pos i q"
      using first_pos_later run(1) qs by simp
    then show ?thesis using run(4) g(3) first_pos_append [OF iq] by simp
  next
    case stay
    then show ?thesis using unsk iq qs by auto
  qed
qed

lemma kstep_moves_up:
  assumes st: "kstep B m e m'" and s: "sched_inv (sch m)" and cnt: "max_switches (sch m) + 1 < 2 ^ 64"
    and r: "is_ready (tasks (sch m)) i" and ne: "cur m \<noteq> i" and away: "cur m' \<noteq> i"
  shows "is_ready (tasks (sch m')) i" and "first_pos i (ready (sch m')) + passes e \<le> first_pos i (ready (sch m))"
proof -
  have c: "cur m < ntasks m" using s by (simp add: sched_inv_def ids_ok_def)
  have iq: "i \<in> set (ready (sch m))" using s r ne by (simp add: sched_inv_def none_lost_def)
  have "is_ready (tasks (sch m')) i \<and> first_pos i (ready (sch m')) + passes e \<le> first_pos i (ready (sch m))"
    using st
  proof cases
    case timer
    obtain s' m2 where t: "timer_interrupt m = Some m2"
      and sc: "schedule (next_tick m) (sch m) = Some (Stay, s') \<and> m2 = m\<lparr>ticks := next_tick m, sch := s'\<rparr> \<or>
      (\<exists>old p. schedule (next_tick m) (sch m) = Some (Switch (cur m) (saved_rsp (tasks s' ! current s')), s') \<and>
         context_switch (saved_rsp (tasks s' ! current s')) (proc m) = (old, p) \<and>
         m2 = m\<lparr>ticks := next_tick m, sch := save_rsp (cur m) old s', proc := p\<rparr> \<and> current s' \<noteq> cur m)"
      and fr: "ntasks m2 = ntasks m" "\<forall>j < ntasks m. t_state (task_at m2 j) = t_state (tasks s' ! j) \<and>
           t_stack (task_at m2 j) = t_stack (task_at m j) \<and>
           (t_state (task_at m j) = Ready \<longrightarrow> t_state (task_at m2 j) = Ready) \<and>
           (t_state (task_at m2 j) = Dead) = (t_state (task_at m j) = Dead)"
      by (rule timer_step [OF s cnt])
    have m2: "m2 = m'" using t timer by simp
    have rq: "ready (sch m2) = ready s'" "cur m2 = current s'" using sc by auto
    obtain r' where "schedule (next_tick m) (sch m) = Some (r', s')" using sc by blast
    then have "first_pos i (ready s') + 1 \<le> first_pos i (ready (sch m))"
      using schedule_moves_up [OF s counters_okI [OF cnt] r] ne away rq m2 by auto
    moreover have "is_ready (tasks (sch m2)) i" using r fr by (auto simp: is_ready_def task_at_def)
    ultimately show ?thesis using rq m2 timer by (simp add: passes_def)
  next
    case (spawned alloc nm entry)
    from spawned(5) show ?thesis
      by (rule spawn_task_step [OF s])
        (use spawned r iq in \<open>auto simp: passes_def first_pos_append is_ready_def nth_append\<close>)
  next
    case (slept ms')
    then obtain tgt s' where s': "sleep_enter tgt (sch m) = Some s'" and m': "m' = m\<lparr>sch := s'\<rparr>"
      by (auto simp: sleep_ms_def bind_eq_Some_conv)
    obtain s2 where "sleep_enter tgt (sch m) = Some s2" "ready s2 = ready (sch m)"
      "tasks s2 = (tasks (sch m))[cur m := (tasks (sch m) ! cur m)\<lparr>t_state := Sleeping tgt\<rparr>]"
      by (rule sleep_enter_inv [OF s])
    with s' m' slept r ne show ?thesis by (auto simp: passes_def is_ready_def)
  next
    case exited
    obtain s' m2 where x: "exit_task m = Some m2" "sch m2 = s'"
      and h: "(\<forall>j. \<not> is_ready (tasks s') j) \<or> (\<exists>pre. ready (sch m) = pre @ current s' # ready s' \<and>
         (\<forall>j \<in> set pre. skipped (tasks s') (cur m) j))"
      and ts: "tasks s' = (tasks (sch m))[cur m := (task_at m (cur m))\<lparr>t_state := Dead\<rparr>]"
      by (rule exit_step [OF s]) auto
    have m2: "m2 = m'" using x exited by simp
    have r': "is_ready (tasks s') i" using r ne ts by (simp add: is_ready_def)
    then obtain pre where pre: "ready (sch m) = pre @ current s' # ready s'"
      "\<forall>j \<in> set pre. skipped (tasks s') (cur m) j" using h by auto
    have "i \<notin> set pre" using pre(2) r' ne by (auto simp: skipped_def)
    moreover have "i \<noteq> current s'" using away x m2 by auto
    ultimately have "first_pos i (ready (sch m)) = length pre + 1 + first_pos i (ready s')"
      using pre(1) first_pos_later by simp
    then show ?thesis using r' x m2 exited by (simp add: passes_def)
  next
    case (worked mem c)
    then show ?thesis using r by (simp add: passes_def)
  qed
  then show "is_ready (tasks (sch m')) i"
    and "first_pos i (ready (sch m')) + passes e \<le> first_pos i (ready (sch m))" by simp_all
qed

lemma kstep_live: "kstep B m e m' \<Longrightarrow> \<not> halted m"
  by (auto elim: kstepE)

lemma kpath_P: "kpath B P m es m' \<Longrightarrow> P m'"
  by (induction rule: kpath.induct) auto

lemma waiting_bound:
  assumes "kpath B (\<lambda>m. cur m \<noteq> i) m es m'" and "machine_inv B n m" and "n + length es < 2 ^ 64"
    and "is_ready (tasks (sch m)) i"
  shows "is_ready (tasks (sch m')) i \<and>
    first_pos i (ready (sch m')) + sum_list (map passes es) \<le> first_pos i (ready (sch m))"
  using assms
proof (induction rule: kpath.induct)
  case start
  then show ?case by simp
next
  case (more es m' e m'')
  have inv: "machine_inv B (n + length es) m'" using kpath_inv [OF more.hyps(1)] more.prems by simp
  have s: "sched_inv (sch m')" using inv kstep_live [OF more.hyps(2)] by (simp add: machine_inv_def)
  have c: "max_switches (sch m') + 1 < 2 ^ 64" using inv more.prems(2) by (simp add: machine_inv_def)
  have IH: "is_ready (tasks (sch m')) i"
    "first_pos i (ready (sch m')) + sum_list (map passes es) \<le> first_pos i (ready (sch m))"
    using more.IH more.prems by simp_all
  show ?case
    using kstep_moves_up [OF more.hyps(2) s c IH(1) kpath_P [OF more.hyps(1)] more.hyps(3)] IH(2) by simp
qed

subsection \<open>Saved contexts\<close>

definition callee_saved :: "cpu \<Rightarrow> nat list" where
  "callee_saved c = [rbp c, rbx c, r12 c, r13 c, r14 c, r15 c]"

text \<open>\<open>sp\<close> points at the six registers of \<open>regs\<close> and the return address.\<close>

definition frame_at :: "stack_mem \<Rightarrow> nat \<Rightarrow> nat list \<Rightarrow> nat \<Rightarrow> bool" where
  "frame_at m sp regs ra = (map (\<lambda>k. m (sp + 8 * k)) [0..<6] = regs \<and> m (sp + 48) = ra)"

lemma frame_at_cong:
  assumes "frame_at m sp regs ra" and "\<And>a. a \<in> {sp..<sp + 56} \<Longrightarrow> m' a = m a"
  shows "frame_at m' sp regs ra"
  using assms by (simp add: frame_at_def upt_rec)

lemma context_switch_saves:
  assumes "context_switch nsp (c, m) = (old, p)" and "48 \<le> rsp c"
  shows "old = rsp c - 48" and "frame_at (snd p) old (callee_saved c) (m (rsp c))"
    and "a \<notin> {rsp c - 48..<rsp c} \<Longrightarrow> snd p a = m a"
proof -
  obtain sp where sp: "rsp c = sp + 48" using assms(2) le_Suc_ex by (metis add.commute)
  have old: "old = sp" and mem: "snd p = m(sp + 40 := r15 c, sp + 32 := r14 c, sp + 24 := r13 c,
      sp + 16 := r12 c, sp + 8 := rbx c, sp := rbp c)"
    using assms(1) sp by (auto simp: context_switch_def push64_def pop64_def Let_def)
  show "old = rsp c - 48" using old sp by simp
  show "frame_at (snd p) old (callee_saved c) (m (rsp c))"
    by (simp add: old mem sp frame_at_def callee_saved_def upt_rec)
  show "a \<notin> {rsp c - 48..<rsp c} \<Longrightarrow> snd p a = m a" by (auto simp: mem sp)
qed

lemma add_numerals: "(n::nat) + numeral a + numeral b = n + numeral (a + b)"
  by simp

lemma context_switch_restores:
  assumes cs: "context_switch nsp cm = (old, (c', m'))" and fr: "frame_at m' nsp regs ra"
  shows "callee_saved c' = regs" and "rip c' = ra" and "rsp c' = nsp + 56"
proof -
  obtain c m where cm: "cm = (c, m)" by (cases cm)
  obtain mm where sw: "context_switch nsp (c, m) = (rsp c - 8 - 8 - 8 - 8 - 8 - 8, c\<lparr>rsp := nsp + 56, rip := mm (nsp + 48),
      rbp := mm nsp, rbx := mm (nsp + 8), r12 := mm (nsp + 16), r13 := mm (nsp + 24),
      r14 := mm (nsp + 32), r15 := mm (nsp + 40)\<rparr>, mm)"
    by (simp add: context_switch_def push64_def pop64_def Let_def add_numerals del: add_2_eq_Suc')
  then have m': "m' = mm" and c': "c' = c\<lparr>rsp := nsp + 56, rip := mm (nsp + 48),
      rbp := mm nsp, rbx := mm (nsp + 8), r12 := mm (nsp + 16), r13 := mm (nsp + 24),
      r14 := mm (nsp + 32), r15 := mm (nsp + 40)\<rparr>"
    using cs cm by auto
  show "callee_saved c' = regs" and "rip c' = ra" and "rsp c' = nsp + 56"
    using fr by (simp_all add: c' m' frame_at_def callee_saved_def upt_rec)
qed

text \<open>The context of task \<open>i\<close> rests, whole, on its own stack.\<close>

definition context_rests :: "nat set \<Rightarrow> nat \<Rightarrow> nat \<Rightarrow> nat list \<Rightarrow> nat \<Rightarrow> machine \<Rightarrow> bool" where
  "context_rests B i sp regs ra m = (i < ntasks m \<and> saved_rsp (task_at m i) = sp \<and>
     {sp..<sp + 56} \<subseteq> stack_of B (task_at m i) \<and> frame_at (snd (proc m)) sp regs ra)"

definition resumed :: "nat \<Rightarrow> nat list \<Rightarrow> nat \<Rightarrow> machine \<Rightarrow> bool" where
  "resumed sp regs ra m = (callee_saved (fst (proc m)) = regs \<and> rip (fst (proc m)) = ra \<and>
     rsp (fst (proc m)) = sp + 56)"

lemma stack_of_same: "t_stack t' = t_stack t \<Longrightarrow> stack_of B t' = stack_of B t"
  by (simp add: stack_of_def)

lemma switch_keeps_frame:
  assumes cs: "context_switch nsp (proc m) = (old, p)" and call: "at_call B m"
    and ap: "stacks_apart B m" and c: "cur m < ntasks m" and i: "cur m \<noteq> i"
    and rest: "context_rests B i sp regs ra m"
  shows "frame_at (snd p) sp regs ra" and "nsp = sp \<Longrightarrow> callee_saved (fst p) = regs \<and>
           rip (fst p) = ra \<and> rsp (fst p) = sp + 56"
proof -
  let ?sp = "rsp (fst (proc m))"
  have il: "i < ntasks m" and sub: "{sp..<sp + 56} \<subseteq> stack_of B (task_at m i)"
    and fr: "frame_at (snd (proc m)) sp regs ra" using rest by (simp_all add: context_rests_def)
  have r: "48 \<le> ?sp" "{?sp - 48..<?sp + 8} \<subseteq> stack_of B (task_at m (cur m))"
    using call by (simp_all add: at_call_def Let_def)
  have dis: "stack_of B (task_at m (cur m)) \<inter> stack_of B (task_at m i) = {}"
    using ap c il i by (simp add: stacks_apart_def)
  have out: "a \<notin> {?sp - 48..<?sp}" if "a \<in> {sp..<sp + 56}" for a
  proof
    assume "a \<in> {?sp - 48..<?sp}"
    then have "a \<in> stack_of B (task_at m (cur m))" using r(2) by auto
    then show False using that sub dis by blast
  qed
  have "context_switch nsp (fst (proc m), snd (proc m)) = (old, p)" using cs by simp
  note sv = context_switch_saves(3) [OF this r(1)]
  show fr': "frame_at (snd p) sp regs ra" using frame_at_cong [OF fr] sv out by simp
  show "callee_saved (fst p) = regs \<and> rip (fst p) = ra \<and> rsp (fst p) = sp + 56" if "nsp = sp"
    using context_switch_restores [of nsp "proc m" old "fst p" "snd p"] cs fr' that by simp
qed

lemma kstep_context:
  assumes st: "kstep B m e m'" and inv: "machine_inv B n m" and n: "n + 1 < 2 ^ 64"
    and i: "cur m \<noteq> i" and rest: "context_rests B i sp regs ra m"
  shows "context_rests B i sp regs ra m'" and "cur m' = i \<Longrightarrow> resumed sp regs ra m'"
proof -
  have live: "\<not> halted m" using st by (auto elim: kstepE)
  have s: "sched_inv (sch m)" and ms: "max_switches (sch m) + 1 < 2 ^ 64" and ap: "stacks_apart B m"
    using inv live n by (auto simp: machine_inv_def)
  have c: "cur m < ntasks m" using s by (simp add: sched_inv_def ids_ok_def)
  have il: "i < ntasks m" and sub: "{sp..<sp + 56} \<subseteq> stack_of B (task_at m i)"
    and fr: "frame_at (snd (proc m)) sp regs ra" and sr: "saved_rsp (task_at m i) = sp"
    using rest by (simp_all add: context_rests_def)
  have grow: "table_grows m m'" by (rule kstep_inv(2) [OF st inv n])
  have st': "stack_of B (task_at m' i) = stack_of B (task_at m i)" and il': "i < ntasks m'"
    using grow il by (auto simp: table_grows_def stack_of_def)
  have "saved_rsp (task_at m' i) = sp \<and> frame_at (snd (proc m')) sp regs ra \<and>
        (cur m' = i \<longrightarrow> resumed sp regs ra m')"
    using st
  proof cases
    case timer
    obtain s' m2 where t: "timer_interrupt m = Some m2"
      and sc: "schedule (next_tick m) (sch m) = Some (Stay, s') \<and> m2 = m\<lparr>ticks := next_tick m, sch := s'\<rparr> \<or>
      (\<exists>old p. schedule (next_tick m) (sch m) = Some (Switch (cur m) (saved_rsp (tasks s' ! current s')), s') \<and>
         context_switch (saved_rsp (tasks s' ! current s')) (proc m) = (old, p) \<and>
         m2 = m\<lparr>ticks := next_tick m, sch := save_rsp (cur m) old s', proc := p\<rparr> \<and> current s' \<noteq> cur m)"
      and sm: "\<forall>j < ntasks m. same_context (task_at m j) (tasks s' ! j)" and len: "ntasks m2 = ntasks m"
      by (rule timer_step [OF s ms]) blast
    have m2: "m2 = m'" using t timer by simp
    have sr': "saved_rsp (tasks s' ! i) = sp" using sm il sr by (simp add: same_context_def)
    from sc show ?thesis
    proof (elim disjE exE conjE)
      assume a: "schedule (next_tick m) (sch m) = Some (Stay, s')" "m2 = m\<lparr>ticks := next_tick m, sch := s'\<rparr>"
      obtain r s2 where "schedule (next_tick m) (sch m) = Some (r, s2)"
        "r = Stay \<and> current s2 = cur m \<or> r = Switch (cur m) (saved_rsp (tasks s2 ! current s2))"
        by (rule schedule_inv [OF s counters_okI [OF ms], of "next_tick m"]) blast
      then show ?thesis using a i m2 sr' fr by (auto simp: task_at_def)
    next
      fix old p
      assume a: "context_switch (saved_rsp (tasks s' ! current s')) (proc m) = (old, p)"
        "m2 = m\<lparr>ticks := next_tick m, sch := save_rsp (cur m) old s', proc := p\<rparr>"
      have l: "length (tasks s') = ntasks m" using a(2) len by simp
      note k = switch_keeps_frame [OF a(1) timer(3) ap c i rest]
      show ?thesis
        using k a(2) m2 sr' l il i by (auto simp: task_at_def save_rsp_task resumed_def)
    qed
  next
    case (spawned alloc nm entry)
    from spawned(5) show ?thesis
    proof (rule spawn_task_step [OF s])
      assume "m' = m"
      then show ?thesis using i sr fr by simp
    next
      fix b mem
      assume b: "alloc = Some b" and ts: "sch m' = (sch m)\<lparr>tasks := tasks (sch m) @ [\<lparr>t_name = nm,
             saved_rsp = (b + STACK_BYTES) div 16 * 16 - 56, t_stack = Some b,
             t_state = Ready, t_switches = 0, kstack_top = b + STACK_BYTES\<rparr>],
             ready := ready (sch m) @ [ntasks m]\<rparr>"
        and pr: "proc m' = (fst (proc m), mem)"
        and mem: "mem = (\<lambda>a. if b \<le> a \<and> a < b + STACK_BYTES then 0 else snd (proc m) a)
             ((b + STACK_BYTES) div 16 * 16 - 8 := entry)"
      have "{b..<b + STACK_BYTES} \<inter> stack_of B (task_at m i) = {}"
        using spawned(4) b il by (simp add: fresh_stack_def)
      then have out: "a \<notin> {b..<b + STACK_BYTES}" if "a \<in> {sp..<sp + 56}" for a using that sub by blast
      moreover have "(b + STACK_BYTES) div 16 * 16 - 8 \<in> {b..<b + STACK_BYTES}"
        by (simp add: STACK_BYTES_def) linarith
      ultimately have "mem a = snd (proc m) a" if "a \<in> {sp..<sp + 56}" for a
        using out [OF that] that unfolding mem by (auto simp del: atLeastLessThan_iff) auto
      then have "frame_at mem sp regs ra" by (rule frame_at_cong [OF fr])
      then show ?thesis using ts pr sr il i by (simp add: task_at_def nth_append)
    qed
  next
    case (slept ms')
    then obtain tgt s' where s': "sleep_enter tgt (sch m) = Some s'" and m': "m' = m\<lparr>sch := s'\<rparr>"
      by (auto simp: sleep_ms_def bind_eq_Some_conv)
    obtain s2 where "sleep_enter tgt (sch m) = Some s2" "current s2 = cur m"
      "tasks s2 = (tasks (sch m))[cur m := (tasks (sch m) ! cur m)\<lparr>t_state := Sleeping tgt\<rparr>]"
      by (rule sleep_enter_inv [OF s])
    with s' m' i sr fr show ?thesis by (simp add: task_at_def)
  next
    case exited
    obtain s' m2 where x: "exit_task m = Some m2"
      and h: "m2 = m\<lparr>sch := s', halted := True\<rparr> \<and> current s' = cur m \<or>
         (\<exists>old p. context_switch (saved_rsp (tasks s' ! current s')) (proc m) = (old, p) \<and>
            m2 = m\<lparr>sch := s', proc := p\<rparr>)"
      and ts: "tasks s' = (tasks (sch m))[cur m := (task_at m (cur m))\<lparr>t_state := Dead\<rparr>]"
      by (rule exit_step [OF s]) blast+
    have m2: "m2 = m'" using x exited by simp
    have sr': "saved_rsp (tasks s' ! i) = sp" using ts i sr by (simp add: task_at_def)
    from h show ?thesis
    proof (elim disjE exE conjE)
      assume "m2 = m\<lparr>sch := s', halted := True\<rparr>" "current s' = cur m"
      then show ?thesis using m2 sr' i fr by (auto simp: task_at_def)
    next
      fix old p
      assume a: "context_switch (saved_rsp (tasks s' ! current s')) (proc m) = (old, p)"
        "m2 = m\<lparr>sch := s', proc := p\<rparr>"
      note k = switch_keeps_frame [OF a(1) exited(4) ap c i rest]
      show ?thesis using k a(2) m2 sr' by (auto simp: task_at_def resumed_def)
    qed
  next
    case (worked mem c)
    have "mem a = snd (proc m) a" if "a \<in> {sp..<sp + 56}" for a
      using worked(4) il i that sub by (auto simp: spares_others_def)
    then have "frame_at mem sp regs ra" by (rule frame_at_cong [OF fr])
    then show ?thesis using worked sr i by (simp add: task_at_def)
  qed
  then show "context_rests B i sp regs ra m'" and "cur m' = i \<Longrightarrow> resumed sp regs ra m'"
    using st' il' sub by (simp_all add: context_rests_def)
qed

lemma kpath_context:
  assumes "kpath B (\<lambda>m. cur m \<noteq> i) m es m'" and "machine_inv B n m" and "n + length es < 2 ^ 64"
    and "context_rests B i sp regs ra m"
  shows "context_rests B i sp regs ra m'"
  using assms
proof (induction rule: kpath.induct)
  case start
  then show ?case by simp
next
  case (more es m' e m'')
  have "machine_inv B (n + length es) m'" using kpath_inv [OF more.hyps(1)] more.prems by simp
  then show ?case
    using kstep_context(1) [OF more.hyps(2) _ _ kpath_P [OF more.hyps(1)]] more by simp
qed

section \<open>Properties\<close>

text \<open>C6: in every state the scheduler can reach without having halted, none of its entry
  points panics: the timer interrupt, the end of the running task, a sleep whose deadline
  fits 64 bits and a spawn whose stack was allocated all return.\<close>

theorem sched_never_panics:
  assumes "kreach B b es m" and "booted b" and "length es + 1 < 2 ^ 64" and "\<not> halted m"
  shows "timer_interrupt m \<noteq> None \<and> exit_task m \<noteq> None \<and>
    (ticks m + max ms 1 < 2 ^ 64 \<longrightarrow> sleep_ms ms m \<noteq> None) \<and>
    (base + STACK_BYTES < 2 ^ 64 \<longrightarrow> spawn_task nm entry (Some base) m \<noteq> None)"
proof -
  have "machine_inv B (length es) m" using kreach_inv [OF assms(1,2)] assms(3) by simp
  then have s: "sched_inv (sch m)" and c: "max_switches (sch m) + 1 < 2 ^ 64"
    using assms(3,4) by (auto simp: machine_inv_def)
  obtain m1 where "timer_interrupt m = Some m1" by (rule timer_step [OF s c])
  moreover obtain m2 where "exit_task m = Some m2" by (rule exit_step [OF s])
  moreover have "sleep_ms ms m \<noteq> None" if "ticks m + max ms 1 < 2 ^ 64"
    by (rule sleep_enter_inv [OF s, of "ticks m + max ms 1"]) (use that in \<open>simp add: sleep_ms_def usz_def\<close>)
  moreover have "spawn_task nm entry (Some base) m \<noteq> None" if "base + STACK_BYTES < 2 ^ 64"
    by (rule spawn_inv [OF s, of "Some base" nm entry "snd (proc m)"])
      (use that in \<open>auto simp: spawn_task_def\<close>)
  ultimately show ?thesis by blast
qed

definition zero_cpu :: cpu where
  "zero_cpu = \<lparr>rsp = 0x8000, rip = 0, rbp = 1, rbx = 2, r12 = 3, r13 = 4, r14 = 5, r15 = 6\<rparr>"

definition boot_machine :: machine where
  "boot_machine = \<lparr>sch = init 0x9000 (zero_sched 0x9000), ticks = 0, proc = (zero_cpu, \<lambda>a. 0),
     halted = False\<rparr>"

definition boot_stack :: "nat set" where "boot_stack = {0x1000..<0x9000}"

lemma booted_boot_machine: "booted boot_machine"
  by (simp add: booted_def boot_machine_def init_def zero_sched_def)

lemma kreach_boot: "kreach boot_stack boot_machine [] boot_machine"
  by (rule start) simp

theorem sched_never_panics_witness:
  "timer_interrupt boot_machine \<noteq> None \<and> exit_task boot_machine \<noteq> None \<and>
   sleep_ms 10 boot_machine \<noteq> None \<and> spawn_task ''init'' 0x401000 (Some 0x200000) boot_machine \<noteq> None"
  using sched_never_panics [OF kreach_boot booted_boot_machine, where ms = 10 and
      base = "0x200000" and nm = "''init''" and entry = "0x401000"]
  by (simp add: STACK_BYTES_def) (simp add: boot_machine_def)

text \<open>C18: in every reachable state the scheduler's tables are coherent: all task numbers are in
  range, a runnable task that is not running is in the ready queue, a sleeping task is in
  the sleeper list with its own deadline, and the kernel stack that the next interrupt
  from ring 3 uses is the one of the running task.\<close>

theorem no_task_lost:
  assumes "kreach B b es m" and "booted b" and "length es < 2 ^ 64" and "\<not> halted m"
  shows "cur m < ntasks m \<and>
    (\<forall>i. is_ready (tasks (sch m)) i \<and> i \<noteq> cur m \<longrightarrow> i \<in> set (ready (sch m))) \<and>
    (\<forall>i tgt. is_sleeping (tasks (sch m)) i tgt \<longrightarrow> (i, tgt) \<in> set (sleepers (sch m))) \<and>
    (\<forall>i \<in> set (ready (sch m)). i < ntasks m) \<and> tss_rsp0 (sch m) = kstack_top (task_at m (cur m))"
  using kreach_inv [OF assms(1-3)] assms(4)
  by (auto simp: machine_inv_def sched_inv_def ids_ok_def none_lost_def listed_def stacks_set_def
      task_at_def)

text \<open>C30: a timer interrupt wakes every sleeper whose deadline has come: afterwards no task
  sleeps with a deadline at or before the tick counter, and a task it woke runs or waits in
  the ready queue.\<close>

theorem wakeup_on_time:
  assumes "kreach B b es m" and "booted b" and "length es + 1 < 2 ^ 64" and "kstep B m Timer m'"
    and "is_sleeping (tasks (sch m)) i tgt"
  shows "if tgt \<le> ticks m' then is_ready (tasks (sch m')) i \<and> (cur m' = i \<or> i \<in> set (ready (sch m')))
    else is_sleeping (tasks (sch m')) i tgt \<and> (i, tgt) \<in> set (sleepers (sch m'))"
proof -
  have "machine_inv B (length es) m" using kreach_inv [OF assms(1,2)] assms(3) by simp
  then have s: "sched_inv (sch m)" and c: "max_switches (sch m) + 1 < 2 ^ 64"
    using assms(3) kstep_live [OF assms(4)] by (auto simp: machine_inv_def)
  obtain s1 where w: "wakes (next_tick m) (sch m) s1" and ids1: "ids_ok s1"
    and p: "picks s1 (schedule (next_tick m) (sch m))"
    by (rule schedule_cases [OF s counters_okI [OF c]])
  obtain s' m2 where t: "timer_interrupt m = Some m2" and inv': "sched_inv (sch m2)"
    and late: "\<forall>e \<in> set (sleepers (sch m2)). next_tick m < snd e" and len: "ntasks m2 = ntasks m"
    and raw: "schedule (next_tick m) (sch m) = Some (Stay, s') \<and> m2 = m\<lparr>ticks := next_tick m, sch := s'\<rparr> \<or>
      (\<exists>old p. schedule (next_tick m) (sch m) = Some (Switch (cur m) (saved_rsp (tasks s' ! current s')), s') \<and>
         context_switch (saved_rsp (tasks s' ! current s')) (proc m) = (old, p) \<and>
         m2 = m\<lparr>ticks := next_tick m, sch := save_rsp (cur m) old s', proc := p\<rparr> \<and> current s' \<noteq> cur m)"
    and st: "\<forall>i < ntasks m. t_state (task_at m2 i) = t_state (tasks s' ! i) \<and>
           t_stack (task_at m2 i) = t_stack (task_at m i) \<and>
           (t_state (task_at m i) = Ready \<longrightarrow> t_state (task_at m2 i) = Ready) \<and>
           (t_state (task_at m2 i) = Dead) = (t_state (task_at m i) = Dead)"
    by (rule timer_step [OF s c]) blast
  have tk: "ticks m2 = next_tick m" and sc: "\<exists>r. schedule (next_tick m) (sch m) = Some (r, s')"
    using raw by auto
  have m2: "m2 = m'" using t assms(4) by (auto elim: kstepE)
  have i: "i < ntasks m" "t_state (task_at m i) = Sleeping tgt"
    using assms(5) by (auto simp: is_sleeping_def task_at_def)
  have "t_state (tasks s' ! i) = t_state (tasks s1 ! i)"
    using p sc picks_state [OF _ ids1] i(1) wakes_facts(1) [OF w] by auto
  moreover have "woken (next_tick m) (task_at m i) (tasks s1 ! i)"
    unfolding task_at_def using wakes_facts(7) [OF w i(1)] .
  ultimately have "t_state (task_at m2 i) = Sleeping tgt \<or>
      t_state (task_at m2 i) = Ready \<and> tgt \<le> next_tick m"
    using st i by (auto simp: woken_def)
  moreover have "next_tick m < tgt" if "t_state (task_at m2 i) = Sleeping tgt"
    using inv' late that i(1) len
    by (auto simp: sched_inv_def listed_def is_sleeping_def task_at_def) (metis snd_conv)
  ultimately show ?thesis
    using inv' i(1) len tk unfolding m2
    by (auto simp: is_ready_def is_sleeping_def task_at_def sched_inv_def none_lost_def listed_def)
qed

text \<open>C17: round-robin scheduling does not starve: while a runnable task waits at position \<open>p\<close>
  of the ready queue, whatever the running tasks do, at most \<open>p\<close> timer interrupts and task
  exits can happen before it runs.\<close>

theorem bounded_waiting:
  assumes "kreach B b es m" and "booted b" and "length es + length es' < 2 ^ 64"
    and "is_ready (tasks (sch m)) i"
    and "kpath B (\<lambda>m. cur m \<noteq> i) m es' m'"
  shows "length (filter (\<lambda>e. e = Timer \<or> e = Exited) es') \<le> first_pos i (ready (sch m))"
proof -
  have "sum_list (map passes es') = length (filter (\<lambda>e. e = Timer \<or> e = Exited) es')"
    by (induction es') (auto simp: passes_def)
  moreover have "machine_inv B (length es) m" using kreach_inv [OF assms(1,2)] assms(3) by simp
  ultimately show ?thesis using waiting_bound [OF assms(5) _ assms(3,4)] by linarith
qed

text \<open>C7: preemption is invisible to the preempted task: when a task that a timer interrupt
  switched away from runs again, whatever ran in between, its callee-saved registers are
  those it had, its stack pointer is past the return address of the call and execution
  resumes there.\<close>

theorem preemption_transparent:
  assumes "kreach B b es0 m0" and "booted b" and "length es0 + length es + 2 < 2 ^ 64"
    and "kstep B m0 Timer m1" and "kpath B (\<lambda>m. cur m \<noteq> cur m0) m1 es m2"
    and "kstep B m2 e m3" and "cur m3 = cur m0"
  shows "callee_saved (fst (proc m3)) = callee_saved (fst (proc m0)) \<and>
    rip (fst (proc m3)) = snd (proc m0) (rsp (fst (proc m0))) \<and>
    rsp (fst (proc m3)) = rsp (fst (proc m0)) + 8"
proof -
  let ?i = "cur m0" and ?c = "fst (proc m0)"
  have inv0: "machine_inv B (length es0) m0" using kreach_inv [OF assms(1,2)] assms(3) by simp
  have inv1: "machine_inv B (length es0 + 1) m1"
    using kstep_inv(1) [OF assms(4) inv0] assms(3) by simp
  have inv2: "machine_inv B (length es0 + 1 + length es) m2"
    using kpath_inv [OF assms(5) inv1] assms(3) by simp
  have s: "sched_inv (sch m0)" and c: "max_switches (sch m0) + 1 < 2 ^ 64"
    using inv0 assms(3) kstep_live [OF assms(4)] by (auto simp: machine_inv_def)
  have il: "?i < ntasks m0" using s by (simp add: sched_inv_def ids_ok_def)
  have away1: "cur m1 \<noteq> ?i" using assms(5)
    by (induction rule: kpath.induct) auto
  have call: "at_call B m0" and t0: "timer_interrupt m0 = Some m1" using assms(4) by (auto elim: kstepE)
  have r: "48 \<le> rsp ?c" "{rsp ?c - 48..<rsp ?c + 8} \<subseteq> stack_of B (task_at m0 ?i)"
    using call by (simp_all add: at_call_def Let_def)
  obtain s' m1' where t: "timer_interrupt m0 = Some m1'"
    and sc: "schedule (next_tick m0) (sch m0) = Some (Stay, s') \<and> m1' = m0\<lparr>ticks := next_tick m0, sch := s'\<rparr> \<or>
      (\<exists>old p. schedule (next_tick m0) (sch m0) = Some (Switch ?i (saved_rsp (tasks s' ! current s')), s') \<and>
         context_switch (saved_rsp (tasks s' ! current s')) (proc m0) = (old, p) \<and>
         m1' = m0\<lparr>ticks := next_tick m0, sch := save_rsp ?i old s', proc := p\<rparr> \<and> current s' \<noteq> ?i)"
    and len: "ntasks m1' = ntasks m0"
    by (rule timer_step [OF s c]) blast
  have "\<not> schedule (next_tick m0) (sch m0) = Some (Stay, s')"
  proof
    assume a: "schedule (next_tick m0) (sch m0) = Some (Stay, s')"
    obtain x s2 where "schedule (next_tick m0) (sch m0) = Some (x, s2)"
      "x = Stay \<and> current s2 = ?i \<or> x = Switch ?i (saved_rsp (tasks s2 ! current s2))"
      by (rule schedule_inv [OF s counters_okI [OF c], of "next_tick m0"]) blast
    then show False using a sc t t0 away1 by auto
  qed
  then obtain old p where cs: "context_switch (saved_rsp (tasks s' ! current s')) (?c, snd (proc m0)) = (old, p)"
    and m1: "m1 = m0\<lparr>ticks := next_tick m0, sch := save_rsp ?i old s', proc := p\<rparr>"
    using sc t t0 by auto
  note sv = context_switch_saves [OF cs r(1)]
  have "stack_of B (task_at m1 ?i) = stack_of B (task_at m0 ?i)"
    using kstep_inv(2) [OF assms(4) inv0] assms(3) il
    by (auto simp: table_grows_def stack_of_def)
  moreover have e: "rsp ?c - 48 + 56 = rsp ?c + 8" using r(1) by simp
  ultimately have sub: "{rsp ?c - 48..<rsp ?c - 48 + 56} \<subseteq> stack_of B (task_at m1 ?i)"
    using r(2) unfolding e by blast
  have rest: "context_rests B ?i (rsp ?c - 48) (callee_saved ?c) (snd (proc m0) (rsp ?c)) m1"
    using sub sv il len m1 t t0 by (auto simp: context_rests_def task_at_def save_rsp_task)
  have rest2: "context_rests B ?i (rsp ?c - 48) (callee_saved ?c) (snd (proc m0) (rsp ?c)) m2"
    by (rule kpath_context [OF assms(5) inv1 _ rest]) (use assms(3) in simp)
  have "resumed (rsp ?c - 48) (callee_saved ?c) (snd (proc m0) (rsp ?c)) m3"
    by (rule kstep_context(2) [OF assms(6) inv2 _ kpath_P [OF assms(5)] rest2 assms(7)])
      (use assms(3) in simp)
  then show ?thesis using r(1) by (simp add: resumed_def)
qed

subsection \<open>A run used as evidence\<close>

text \<open>The boot machine after it spawned one task and then another.\<close>

definition one_task :: machine where
  "one_task = the (spawn_task ''demo-count'' 0x1000 (Some 0x200000) boot_machine)"

definition two_tasks :: machine where
  "two_tasks = the (spawn_task ''init'' 0x2000 (Some 0x300000) one_task)"

lemmas machine_eval = boot_machine_def init_def zero_sched_def zero_cpu_def spawn_task_def spawn_def
  usz_def Let_def MAX_TASKS_def STACK_BYTES_def timer_interrupt_def schedule_def wake_loop.simps
  idx_def hand_to_def bump_def set_kernel_stack_def context_switch_def push64_def pop64_def
  upd_task_def sleep_ms_def sleep_enter_def set_state_def exit_task_def terminate_current_def
  swap_remove_def

lemma one_task_eq: "spawn_task ''demo-count'' 0x1000 (Some 0x200000) boot_machine = Some one_task"
  by (simp add: one_task_def machine_eval)

lemma two_tasks_eq: "spawn_task ''init'' 0x2000 (Some 0x300000) one_task = Some two_tasks"
  by (simp add: two_tasks_def one_task_def machine_eval)

lemma one_task_state:
  "cur one_task = 0 \<and> ntasks one_task = 2 \<and> ready (sch one_task) = [0, 1] \<and> ticks one_task = 0 \<and>
   \<not> halted one_task \<and> t_state (task_at one_task 0) = Ready \<and> t_state (task_at one_task 1) = Ready \<and>
   t_stack (task_at one_task 0) = None \<and> t_stack (task_at one_task 1) = Some 0x200000 \<and>
   fst (proc one_task) = zero_cpu"
  by (simp add: one_task_def machine_eval task_at_def)

lemma reach_one: "kreach boot_stack boot_machine [Spawned] one_task"
proof -
  have "kstep boot_stack boot_machine Spawned one_task"
    by (rule kstep.spawned [OF _ _ _ one_task_eq])
      (auto simp: machine_eval can_run_def task_at_def fresh_stack_def boot_stack_def stack_of_def)
  then show ?thesis using kpath.more [OF kreach_boot] by simp
qed

lemma reach_two: "kreach boot_stack boot_machine [Spawned, Spawned] two_tasks"
proof -
  have "kstep boot_stack one_task Spawned two_tasks"
    by (rule kstep.spawned [OF _ _ _ two_tasks_eq])
      (use one_task_state in \<open>auto simp: can_run_def fresh_stack_def boot_stack_def stack_of_def
        STACK_BYTES_def less_2_cases_iff\<close>)
  then show ?thesis using kpath.more [OF reach_one] by fastforce
qed

text \<open>A timer interrupt hands the boot machine's processor to the new task.\<close>

definition first_tick :: machine where "first_tick = the (timer_interrupt one_task)"

lemma first_tick_eq: "timer_interrupt one_task = Some first_tick"
  by (simp add: first_tick_def one_task_def machine_eval)

lemma first_tick_state:
  "cur first_tick = 1 \<and> ntasks first_tick = 2 \<and> ready (sch first_tick) = [0] \<and>
   \<not> halted first_tick \<and> t_state (task_at first_tick 1) = Ready \<and>
   t_stack (task_at first_tick 1) = Some 0x200000 \<and> t_stack (task_at first_tick 0) = None"
  by (simp add: first_tick_def one_task_def machine_eval task_at_def)

lemma step_first_tick: "kstep boot_stack one_task Timer first_tick"
  by (rule kstep.timer [OF _ _ first_tick_eq])
    (use one_task_state in \<open>auto simp: at_call_def zero_cpu_def stack_of_def boot_stack_def\<close>)

theorem no_task_lost_witness:
  "cur one_task < 2 \<and> 1 \<in> set (ready (sch one_task)) \<and>
   tss_rsp0 (sch one_task) = kstack_top (task_at one_task (cur one_task))"
  using no_task_lost [OF reach_one booted_boot_machine] one_task_state by (simp add: is_ready_def task_at_def)

text \<open>The boot task sleeps for one tick.\<close>

definition napping :: machine where "napping = the (sleep_ms 1 one_task)"

lemma napping_eq: "sleep_ms 1 one_task = Some napping"
  by (simp add: napping_def one_task_def machine_eval)

lemma napping_state:
  "is_sleeping (tasks (sch napping)) 0 1 \<and> timer_interrupt napping \<noteq> None \<and> \<not> halted napping \<and>
   at_call boot_stack napping"
  by (simp add: napping_def one_task_def machine_eval is_sleeping_def at_call_def task_at_def
      stack_of_def boot_stack_def)

theorem wakeup_on_time_witness:
  "\<exists>m'. kstep boot_stack napping Timer m' \<and> (if 1 \<le> ticks m'
     then is_ready (tasks (sch m')) 0 \<and> (cur m' = 0 \<or> 0 \<in> set (ready (sch m')))
     else is_sleeping (tasks (sch m')) 0 1 \<and> (0, 1) \<in> set (sleepers (sch m')))"
proof -
  obtain m' where m': "kstep boot_stack napping Timer m'"
    using napping_state by (auto intro: kstep.timer)
  have "kstep boot_stack one_task Slept napping"
    by (rule kstep.slept [OF _ _ napping_eq]) (use one_task_state in \<open>auto simp: can_run_def\<close>)
  then have "kreach boot_stack boot_machine [Spawned, Slept] napping"
    using kpath.more [OF reach_one] by fastforce
  from wakeup_on_time [OF this booted_boot_machine _ m' conjunct1 [OF napping_state]] m' show ?thesis
    by (intro exI [of _ m']) simp
qed

theorem bounded_waiting_witness:
  "\<exists>m'. kpath boot_stack (\<lambda>m. cur m \<noteq> 2) two_tasks [Timer] m' \<and> 1 \<le> first_pos 2 (ready (sch two_tasks))"
proof -
  have s: "is_ready (tasks (sch two_tasks)) 2 \<and> cur two_tasks = 0 \<and> \<not> halted two_tasks \<and>
      at_call boot_stack two_tasks \<and> (\<exists>m'. timer_interrupt two_tasks = Some m' \<and> cur m' = 1)"
    by (simp add: two_tasks_def one_task_def machine_eval is_ready_def at_call_def task_at_def
        stack_of_def boot_stack_def)
  then obtain m' where m': "timer_interrupt two_tasks = Some m'" "cur m' = 1" by blast
  then have "kstep boot_stack two_tasks Timer m'" using s by (auto intro: kstep.timer)
  moreover have "kpath boot_stack (\<lambda>m. cur m \<noteq> 2) two_tasks [] two_tasks"
    by (rule kpath.start) (use s in simp)
  ultimately have "kpath boot_stack (\<lambda>m. cur m \<noteq> 2) two_tasks [Timer] m'"
    using kpath.more [of boot_stack _ two_tasks "[]"] m'(2) by fastforce
  with bounded_waiting [OF reach_two booted_boot_machine _ _ this] s show ?thesis by auto
qed

text \<open>The new task works, then the next timer interrupt returns to the boot task.\<close>

definition at_work :: machine where
  "at_work = first_tick\<lparr>proc := (zero_cpu\<lparr>rsp := 0x210000, rbp := 77\<rparr>, snd (proc first_tick))\<rparr>"

theorem preemption_transparent_witness:
  "\<exists>m3. kstep boot_stack at_work Timer m3 \<and> cur m3 = 0 \<and> callee_saved (fst (proc m3)) = [1, 2, 3, 4, 5, 6] \<and>
     rsp (fst (proc m3)) = 0x8008"
proof -
  have s: "cur at_work = 1 \<and> \<not> halted at_work \<and> at_call boot_stack at_work \<and>
      (\<exists>m3. timer_interrupt at_work = Some m3 \<and> cur m3 = 0)"
    by (simp add: at_work_def first_tick_def one_task_def machine_eval at_call_def task_at_def stack_of_def)
  then obtain m3 where m3: "timer_interrupt at_work = Some m3" "cur m3 = 0" by blast
  then have t: "kstep boot_stack at_work Timer m3" using s by (auto intro: kstep.timer)
  have "kstep boot_stack first_tick Worked at_work"
    unfolding at_work_def by (rule kstep.worked) (use first_tick_state in \<open>auto simp: spares_others_def\<close>)
  moreover have "kpath boot_stack (\<lambda>m. cur m \<noteq> cur one_task) first_tick [] first_tick"
    by (rule kpath.start) (use first_tick_state one_task_state in simp)
  ultimately have p: "kpath boot_stack (\<lambda>m. cur m \<noteq> cur one_task) first_tick [Worked] at_work"
    using kpath.more [of boot_stack _ first_tick "[]"] s one_task_state by fastforce
  show ?thesis
    using preemption_transparent [OF reach_one booted_boot_machine _ step_first_tick p t] m3 t one_task_state
    by (intro exI [of _ m3]) (simp add: callee_saved_def zero_cpu_def)
qed

lemma spawn_task_adds:
  "spawn_task nm entry alloc m = Some m' \<Longrightarrow> ntasks m < MAX_TASKS \<Longrightarrow> ntasks m' = ntasks m + 1"
  by (auto simp: spawn_task_def spawn_def Let_def bind_eq_Some_conv)

lemma fresh_frame:
  assumes "base + 72 \<le> tp" and "tp \<le> base + n"
  shows "frame_at ((\<lambda>a. if base \<le> a \<and> a < base + n then 0 else m a)(tp - 8 := entry)) (tp - 56)
           [0, 0, 0, 0, 0, 0] entry"
proof -
  obtain k where k: "tp = base + 72 + k" using assms(1) le_Suc_ex by blast
  obtain j where j: "n = 72 + k + j" using assms(2) k le_Suc_ex by (metis add.assoc add_le_cancel_left)
  show ?thesis unfolding k j by (simp add: frame_at_def upt_rec)
qed

text \<open>a spawned task starts as its entry function: the first time it runs, whatever ran
  before, it is at its entry address with its stack pointer at the sixteen-byte boundary at
  the top of its stack and the six saved registers zero.\<close>

theorem spawned_task_starts_at_entry:
  assumes "kreach B b es0 m0" and "booted b" and "length es0 + length es + 2 < 2 ^ 64"
    and "\<not> halted m0" and "can_run m0" and "fresh_stack B (Some base) m0" and "ntasks m0 < MAX_TASKS"
    and "spawn_task nm entry (Some base) m0 = Some m1"
    and "kpath B (\<lambda>m. cur m \<noteq> ntasks m0) m1 es m2" and "kstep B m2 e m3" and "cur m3 = ntasks m0"
  shows "rip (fst (proc m3)) = entry \<and> rsp (fst (proc m3)) = (base + STACK_BYTES) div 16 * 16 \<and>
    callee_saved (fst (proc m3)) = [0, 0, 0, 0, 0, 0]"
proof -
  let ?i = "ntasks m0" and ?sp = "(base + STACK_BYTES) div 16 * 16 - 56"
  have inv0: "machine_inv B (length es0) m0" using kreach_inv [OF assms(1,2)] assms(3) by simp
  then have s: "sched_inv (sch m0)" using assms(4) by (simp add: machine_inv_def)
  have "kstep B m0 Spawned m1" using assms by (intro kstep.spawned)
  then have inv1: "machine_inv B (length es0 + 1) m1" using kstep_inv(1) inv0 assms(3) by simp
  have inv2: "machine_inv B (length es0 + 1 + length es) m2"
    using kpath_inv [OF assms(9) inv1] assms(3) by simp
  have top: "base + 72 \<le> (base + STACK_BYTES) div 16 * 16" "(base + STACK_BYTES) div 16 * 16 \<le> base + STACK_BYTES"
    by (simp_all add: STACK_BYTES_def)
  have "context_rests B ?i ?sp [0, 0, 0, 0, 0, 0] entry m1"
    using assms(8)
  proof (rule spawn_task_step [OF s])
    assume "m1 = m0"
    then show ?thesis using spawn_task_adds [OF assms(8,7)] by simp
  next
    fix b mem
    assume b: "Some base = Some b" and ts: "sch m1 = (sch m0)\<lparr>tasks := tasks (sch m0) @ [\<lparr>t_name = nm,
             saved_rsp = (b + STACK_BYTES) div 16 * 16 - 56, t_stack = Some b,
             t_state = Ready, t_switches = 0, kstack_top = b + STACK_BYTES\<rparr>],
             ready := ready (sch m0) @ [ntasks m0]\<rparr>"
      and pr: "proc m1 = (fst (proc m0), mem)"
      and mem: "mem = (\<lambda>a. if b \<le> a \<and> a < b + STACK_BYTES then 0 else snd (proc m0) a)
             ((b + STACK_BYTES) div 16 * 16 - 8 := entry)"
    have "frame_at mem ?sp [0, 0, 0, 0, 0, 0] entry"
      using fresh_frame [OF top] b unfolding mem by simp
    then show ?thesis
      using ts pr b top by (auto simp: context_rests_def task_at_def nth_append stack_of_def)
  qed
  then have "context_rests B ?i ?sp [0, 0, 0, 0, 0, 0] entry m2"
    by (intro kpath_context [OF assms(9) inv1]) (use assms(3) in simp_all)
  then have "resumed ?sp [0, 0, 0, 0, 0, 0] entry m3"
    by (intro kstep_context(2) [OF assms(10) inv2 _ kpath_P [OF assms(9)] _ assms(11)])
      (use assms(3) in simp_all)
  then show ?thesis using top(1) by (simp add: resumed_def)
qed

theorem spawned_task_starts_at_entry_witness:
  "cur first_tick = 1 \<and> rip (fst (proc first_tick)) = 0x1000 \<and> rsp (fst (proc first_tick)) = 0x220000"
proof -
  have c: "cur boot_machine = 0 \<and> ntasks boot_machine = 1 \<and> \<not> halted boot_machine \<and> can_run boot_machine \<and>
      fresh_stack boot_stack (Some 0x200000) boot_machine"
    by (auto simp: machine_eval can_run_def task_at_def fresh_stack_def boot_stack_def stack_of_def)
  have p: "kpath boot_stack (\<lambda>m. cur m \<noteq> ntasks boot_machine) one_task [] one_task"
    by (rule kpath.start) (use c one_task_state in simp)
  show ?thesis
    using spawned_task_starts_at_entry [OF kreach_boot booted_boot_machine _ _ _ _ _ one_task_eq p step_first_tick]
      c first_tick_state by (simp add: MAX_TASKS_def STACK_BYTES_def)
qed

text \<open>ending the last runnable task halts the machine for good even when other tasks only
  sleep: from the boot machine, after the boot task went to sleep for a tick and the new
  task took over and exited, the processor waits with interrupts off while the sleeper's
  deadline can no longer come.\<close>

theorem exit_abandons_sleepers:
  "\<exists>es m. kreach boot_stack boot_machine es m \<and> halted m \<and> (\<exists>tgt. is_sleeping (tasks (sch m)) 0 tgt) \<and>
     (\<nexists>e m'. kstep boot_stack m e m')"
proof -
  define nap where "nap = the (sleep_ms 100 one_task)"
  define run where "run = the (timer_interrupt nap)"
  define work where "work = run\<lparr>proc := (zero_cpu\<lparr>rsp := 0x210000\<rparr>, snd (proc run))\<rparr>"
  define stop where "stop = the (exit_task work)"
  have n: "sleep_ms 100 one_task = Some nap" "timer_interrupt nap = Some run" "exit_task work = Some stop"
    by (simp_all add: stop_def work_def run_def nap_def one_task_def machine_eval)
  have n2: "\<not> halted nap" "at_call boot_stack nap" "\<not> halted run"
    by (simp_all add: run_def nap_def one_task_def machine_eval at_call_def task_at_def stack_of_def boot_stack_def)
  have n3: "\<not> halted work" "at_call boot_stack work" "can_run work"
    by (simp_all add: work_def run_def nap_def one_task_def machine_eval at_call_def task_at_def
        stack_of_def boot_stack_def can_run_def)
  have n4: "halted stop" "is_sleeping (tasks (sch stop)) 0 100"
    by (simp_all add: stop_def work_def run_def nap_def one_task_def machine_eval is_sleeping_def)
  have s1: "kstep boot_stack one_task Slept nap"
    by (rule kstep.slept [OF _ _ n(1)]) (use one_task_state in \<open>auto simp: can_run_def\<close>)
  have s2: "kstep boot_stack nap Timer run" using n n2 by (auto intro: kstep.timer)
  have s3: "kstep boot_stack run Worked work"
    unfolding work_def by (rule kstep.worked) (use n2 in \<open>auto simp: spares_others_def\<close>)
  have s4: "kstep boot_stack work Exited stop" using n n3 by (auto intro: kstep.exited)
  have "kreach boot_stack boot_machine (([Spawned] @ [Slept]) @ [Timer] @ [Worked] @ [Exited]) stop"
    using kpath.more [OF kpath.more [OF kpath.more [OF kpath.more [OF reach_one s1] s2] s3] s4] by simp
  moreover have "\<nexists>e m'. kstep boot_stack stop e m'" using n4 kstep_live by blast
  ultimately show ?thesis using n4 by blast
qed

end
