(* ===== verification/Mem.thy ===== *)
theory Mem
  imports Heap
begin

text \<open>
  Marking and checking user pages (\<open>kernel/src/mem.rs\<close>).  A page table entry is what the
  \<open>x86_64\<close> crate shows of it, an address and a set of flags; the tables are a function from
  the virtual address of an entry to the entry, so tables that overlap are not excluded.
  Addresses are numbers, and a sum beyond 64 bits is a panic (None).
\<close>

section \<open>Page tables\<close>

datatype page_flag = PRESENT | WRITABLE | USER_ACCESSIBLE | HUGE_PAGE | NO_EXECUTE | OTHER_FLAG nat

record pte =
  pte_addr :: nat
  pte_flags :: "page_flag set"

record paging =
  cr3 :: nat
  entries :: "nat \<Rightarrow> pte"

definition PAGE :: nat where "PAGE = 4096"

definition phys_to_virt :: "nat \<Rightarrow> nat option" where
  "phys_to_virt p = usz (PMO + p)"

definition index_at :: "nat \<Rightarrow> nat \<Rightarrow> nat" where
  "index_at shift v = v div 2 ^ shift mod 512"

text \<open>The entry that a level of the walk looks at.\<close>

definition slot :: "nat \<Rightarrow> nat \<Rightarrow> nat \<Rightarrow> nat option" where
  "slot table shift v = map_option (\<lambda>t. t + 8 * index_at shift v) (phys_to_virt table)"

definition mark_entry :: "nat \<Rightarrow> paging \<Rightarrow> paging" where
  "mark_entry a p = (let e = entries p a in
     p\<lparr>entries := (entries p)(a := e\<lparr>pte_flags := insert USER_ACCESSIBLE (pte_flags e - {NO_EXECUTE})\<rparr>)\<rparr>)"

section \<open>Operations\<close>

text \<open>
  The walk of \<open>mark_one_page\<close>: the entry of each level must be present, is marked, and leads
  to the next level unless it maps a huge page (which the first level never does).
\<close>

fun mark_walk :: "(nat \<times> bool) list \<Rightarrow> nat \<Rightarrow> nat \<Rightarrow> paging \<Rightarrow> (bool \<times> paging) option" where
  "mark_walk [] table v p = Some (True, p)"
| "mark_walk ((shift, huge) # ls) table v p = (case slot table shift v of
     None \<Rightarrow> None
   | Some a \<Rightarrow>
      (if PRESENT \<notin> pte_flags (entries p a) then Some (False, p)
       else (let p' = mark_entry a p in
         if huge \<and> HUGE_PAGE \<in> pte_flags (entries p' a) then Some (True, p')
         else mark_walk ls (pte_addr (entries p' a)) v p')))"

definition LEVELS :: "(nat \<times> bool) list" where
  "LEVELS = [(39, False), (30, True), (21, True), (12, False)]"

definition mark_one_page :: "nat \<Rightarrow> paging \<Rightarrow> (bool \<times> paging) option" where
  "mark_one_page v p = mark_walk LEVELS (cr3 p) v p"

fun check_walk :: "(nat \<times> bool) list \<Rightarrow> nat \<Rightarrow> nat \<Rightarrow> paging \<Rightarrow> bool option" where
  "check_walk [] table v p = Some True"
| "check_walk ((shift, huge) # ls) table v p = (case slot table shift v of
     None \<Rightarrow> None
   | Some a \<Rightarrow>
      (if \<not> (PRESENT \<in> pte_flags (entries p a) \<and> USER_ACCESSIBLE \<in> pte_flags (entries p a)) then Some False
       else if huge \<and> HUGE_PAGE \<in> pte_flags (entries p a) then Some True
       else check_walk ls (pte_addr (entries p a)) v p))"

definition check_one_page :: "nat \<Rightarrow> paging \<Rightarrow> bool option" where
  "check_one_page v p = check_walk LEVELS (cr3 p) v p"

text \<open>The pages of \<open>[vaddr, vaddr + len)\<close>: the first and their number; None is the overflow.\<close>

definition page_span :: "nat \<Rightarrow> nat \<Rightarrow> (nat \<times> nat) option" where
  "page_span vaddr len = (if 2 ^ 64 \<le> vaddr + len + PAGE then None
     else (let start = vaddr div PAGE * PAGE; last = (vaddr + len + PAGE - 1) div PAGE * PAGE in
       Some (start, (last - start) div PAGE)))"

fun mark_pages :: "nat \<Rightarrow> nat \<Rightarrow> bool \<Rightarrow> paging \<Rightarrow> (bool \<times> paging) option" where
  "mark_pages page 0 ok p = Some (ok, p)"
| "mark_pages page (Suc n) ok p = (case mark_one_page page p of
     None \<Rightarrow> None
   | Some (r, p') \<Rightarrow> mark_pages (page + PAGE) n (ok \<and> r) p')"

definition mark_user_pages :: "nat \<Rightarrow> nat \<Rightarrow> paging \<Rightarrow> (bool \<times> paging) option" where
  "mark_user_pages vaddr len p = (case page_span vaddr len of
     None \<Rightarrow> None
   | Some (start, n) \<Rightarrow> mark_pages start n True p)"

fun check_pages :: "nat \<Rightarrow> nat \<Rightarrow> paging \<Rightarrow> bool option" where
  "check_pages page 0 p = Some True"
| "check_pages page (Suc n) p = (case check_one_page page p of
     None \<Rightarrow> None
   | Some r \<Rightarrow> (if r then check_pages (page + PAGE) n p else Some False))"

definition is_user_range :: "nat \<Rightarrow> nat \<Rightarrow> paging \<Rightarrow> bool option" where
  "is_user_range vaddr len p = (case page_span vaddr len of
     None \<Rightarrow> None
   | Some (start, n) \<Rightarrow> check_pages start n p)"

section \<open>Marking only opens\<close>

text \<open>
  \<open>opens p p'\<close>: the tables of \<open>p'\<close> have the addresses of \<open>p\<close>; flags are lost only for
  \<open>NO_EXECUTE\<close> and gained only for \<open>USER_ACCESSIBLE\<close>.
\<close>

definition opens :: "paging \<Rightarrow> paging \<Rightarrow> bool" where
  "opens p p' = (cr3 p' = cr3 p \<and> (\<forall>a. pte_addr (entries p' a) = pte_addr (entries p a) \<and>
     pte_flags (entries p a) - {NO_EXECUTE} \<subseteq> pte_flags (entries p' a) \<and>
     pte_flags (entries p' a) \<subseteq> insert USER_ACCESSIBLE (pte_flags (entries p a))))"

lemma opens_refl [simp]: "opens p p"
  by (auto simp: opens_def)

lemma opens_trans:
  assumes "opens p q" and "opens q r"
  shows "opens p r"
proof -
  have "pte_flags (entries p a) - {NO_EXECUTE} \<subseteq> pte_flags (entries r a) \<and>
      pte_flags (entries r a) \<subseteq> insert USER_ACCESSIBLE (pte_flags (entries p a))" for a
  proof -
    have "pte_flags (entries p a) - {NO_EXECUTE} \<subseteq> pte_flags (entries q a)"
      "pte_flags (entries q a) \<subseteq> insert USER_ACCESSIBLE (pte_flags (entries p a))"
      "pte_flags (entries q a) - {NO_EXECUTE} \<subseteq> pte_flags (entries r a)"
      "pte_flags (entries r a) \<subseteq> insert USER_ACCESSIBLE (pte_flags (entries q a))"
      using assms by (simp_all add: opens_def)
    then show ?thesis by blast
  qed
  then show ?thesis using assms by (simp add: opens_def)
qed

lemma opens_mark_entry [simp]: "opens p (mark_entry a p)"
  by (auto simp: opens_def mark_entry_def Let_def)

lemma opens_flag: "opens p p' \<Longrightarrow> f \<noteq> NO_EXECUTE \<Longrightarrow> f \<in> pte_flags (entries p a) \<Longrightarrow> f \<in> pte_flags (entries p' a)"
  by (auto simp: opens_def)

lemma opens_same_flag:
  "opens p p' \<Longrightarrow> f \<noteq> NO_EXECUTE \<Longrightarrow> f \<noteq> USER_ACCESSIBLE \<Longrightarrow>
   f \<in> pte_flags (entries p' a) \<longleftrightarrow> f \<in> pte_flags (entries p a)"
  by (auto simp: opens_def)

lemma opens_addr: "opens p p' \<Longrightarrow> pte_addr (entries p' a) = pte_addr (entries p a)"
  by (simp add: opens_def)

lemma mark_walk_opens: "mark_walk ls t v p = Some (r, p') \<Longrightarrow> opens p p'"
proof (induction ls t v p arbitrary: r p' rule: mark_walk.induct)
  case (2 shift huge ls table v p)
  then show ?case
    by (fastforce simp: Let_def split: option.splits if_splits intro: opens_trans [OF opens_mark_entry])
qed simp

lemma mark_pages_opens: "mark_pages page n ok p = Some (r, p') \<Longrightarrow> opens p p' \<and> (r \<longrightarrow> ok)"
proof (induction n arbitrary: page ok p)
  case (Suc n)
  from Suc.prems obtain b q where m: "mark_one_page page p = Some (b, q)" "mark_pages (page + PAGE) n (ok \<and> b) q = Some (r, p')"
    by (auto split: option.splits)
  then show ?case using Suc.IH [OF m(2)] mark_walk_opens opens_trans by (fastforce simp: mark_one_page_def)
qed simp

text \<open>What a check finds open stays open.\<close>

lemma check_walk_opens: "opens p p' \<Longrightarrow> check_walk ls t v p = Some True \<Longrightarrow> check_walk ls t v p' = Some True"
proof (induction ls t v p rule: check_walk.induct)
  case (2 shift huge ls table v p)
  then show ?case
    by (auto simp: opens_addr opens_same_flag split: option.splits if_splits intro: opens_flag)
qed simp

lemma check_pages_opens: "opens p p' \<Longrightarrow> check_pages page n p = Some True \<Longrightarrow> check_pages page n p' = Some True"
proof (induction n arbitrary: page)
  case (Suc n)
  then have "cr3 p' = cr3 p" by (simp add: opens_def)
  then show ?case using Suc check_walk_opens [OF Suc.prems(1)]
    by (auto simp: check_one_page_def split: option.splits if_splits)
qed simp

lemma mark_then_check: "mark_walk ls t v p = Some (True, p') \<Longrightarrow> check_walk ls t v p' = Some True"
proof (induction ls t v p arbitrary: p' rule: mark_walk.induct)
  case (2 shift huge ls table v p)
  from "2.prems" obtain a where a: "slot table shift v = Some a" "PRESENT \<in> pte_flags (entries p a)"
    by (auto split: option.splits if_splits)
  let ?q = "mark_entry a p"
  have f: "PRESENT \<in> pte_flags (entries ?q a)" "USER_ACCESSIBLE \<in> pte_flags (entries ?q a)"
    using a(2) by (auto simp: mark_entry_def Let_def)
  show ?case
  proof (cases "huge \<and> HUGE_PAGE \<in> pte_flags (entries ?q a)")
    case True
    then show ?thesis using "2.prems" a f by (auto simp: Let_def)
  next
    case False
    then have m: "mark_walk ls (pte_addr (entries ?q a)) v ?q = Some (True, p')"
      using "2.prems" a by (auto simp: Let_def)
    have o: "opens ?q p'" by (rule mark_walk_opens [OF m])
    have "check_walk ls (pte_addr (entries ?q a)) v p' = Some True"
      by (rule "2.IH" [OF a(1) _ refl _ m]) (use a False in auto)
    then show ?thesis using a(1) f False o
      by (auto simp: opens_addr opens_same_flag intro: opens_flag)
  qed
qed simp

lemma mark_pages_check: "mark_pages page n ok p = Some (True, p') \<Longrightarrow> check_pages page n p' = Some True"
proof (induction n arbitrary: page ok p)
  case (Suc n)
  from Suc.prems obtain r q where m: "mark_one_page page p = Some (r, q)" "mark_pages (page + PAGE) n (ok \<and> r) q = Some (True, p')"
    by (auto split: option.splits)
  have o: "opens q p'" and "r" using mark_pages_opens [OF m(2)] by auto
  moreover have "cr3 q = cr3 p" using mark_walk_opens m(1) by (auto simp: mark_one_page_def opens_def)
  moreover have "cr3 p' = cr3 q" using o by (simp add: opens_def)
  ultimately have "check_one_page page p' = Some True"
    using m(1) check_walk_opens [OF o mark_then_check] by (simp add: mark_one_page_def check_one_page_def)
  then show ?case using Suc.IH [OF m(2)] by simp
qed simp

section \<open>Translations\<close>

text \<open>The entry that maps an address, and the size of its page as a power of two.\<close>

fun leaf_walk :: "(nat \<times> bool) list \<Rightarrow> nat \<Rightarrow> nat \<Rightarrow> paging \<Rightarrow> (nat \<times> nat) option" where
  "leaf_walk [] table v p = None"
| "leaf_walk ((shift, huge) # ls) table v p = (case slot table shift v of
     None \<Rightarrow> None
   | Some a \<Rightarrow>
      (if PRESENT \<notin> pte_flags (entries p a) then None
       else if huge \<and> HUGE_PAGE \<in> pte_flags (entries p a) \<or> ls = [] then Some (pte_addr (entries p a), shift)
       else leaf_walk ls (pte_addr (entries p a)) v p))"

definition leaf :: "nat \<Rightarrow> paging \<Rightarrow> (nat \<times> nat) option" where
  "leaf v p = leaf_walk LEVELS (cr3 p) v p"

definition translate :: "nat \<Rightarrow> paging \<Rightarrow> nat option" where
  "translate v p = map_option (\<lambda>(a, shift). a + v mod 2 ^ shift) (leaf v p)"

lemma leaf_walk_opens: "opens p p' \<Longrightarrow> leaf_walk ls t v p' = leaf_walk ls t v p"
  by (induction ls t v p rule: leaf_walk.induct) (auto simp: opens_addr opens_same_flag split: option.split)

lemma leaf_opens: "opens p p' \<Longrightarrow> leaf v p' = leaf v p"
  by (simp add: leaf_def leaf_walk_opens) (simp add: opens_def)

lemma mark_user_pages_opens: "mark_user_pages v len p = Some (r, p') \<Longrightarrow> opens p p'"
  by (auto simp: mark_user_pages_def split: option.splits dest: mark_pages_opens)

section \<open>Properties\<close>

text \<open>C27: when \<open>mark_user_pages\<close> reports success, \<open>is_user_range\<close> accepts the range afterwards; a
  range that was accepted before still is, and no address is translated differently.
\<close>

theorem marked_range_is_user:
  assumes "mark_user_pages v len p = Some (True, p')"
  shows "is_user_range v len p' = Some True \<and>
    (\<forall>v' len'. is_user_range v' len' p = Some True \<longrightarrow> is_user_range v' len' p' = Some True) \<and>
    (\<forall>v'. translate v' p' = translate v' p)"
proof (intro conjI allI impI)
  have o: "opens p p'" by (rule mark_user_pages_opens [OF assms])
  show "is_user_range v len p' = Some True"
    using assms mark_pages_check by (auto simp: mark_user_pages_def is_user_range_def split: option.splits)
  show "is_user_range v' len' p' = Some True" if "is_user_range v' len' p = Some True" for v' len'
    using that check_pages_opens [OF o] by (auto simp: is_user_range_def split: option.splits)
  show "translate v' p' = translate v' p" for v'
    using leaf_opens [OF o] by (simp add: translate_def)
qed

lemma index_at_same:
  assumes "v' div 2 ^ 21 = v div 2 ^ 21" and "21 \<le> s"
  shows "index_at s v' = index_at s v"
proof -
  have "x div 2 ^ s = x div 2 ^ 21 div 2 ^ (s - 21)" for x :: nat
  proof -
    have "(2 :: nat) ^ s = 2 ^ 21 * 2 ^ (s - 21)" using assms(2) by (simp only: power_add [symmetric]) simp
    then show ?thesis by (simp only: div_mult2_eq)
  qed
  then show ?thesis using assms(1) by (simp add: index_at_def)
qed

text \<open>where memory is mapped by 2 MiB pages, opening one 4 KiB page opens the whole 2 MiB: every
  address of the large page is accepted as user memory afterwards.
\<close>

theorem large_page_opens_neighbours:
  assumes "mark_one_page v p = Some (True, p')" and "leaf v p = Some (a, 21)" and "v' div 2 ^ 21 = v div 2 ^ 21"
  shows "check_one_page v' p' = Some True"
proof -
  have o: "opens p p'" and c: "check_one_page v p' = Some True"
    using assms(1) mark_walk_opens mark_then_check opens_def
    by (auto simp: mark_one_page_def check_one_page_def)
  have l: "leaf v p' = Some (a, 21)" using assms(2) leaf_opens [OF o] by simp
  have s: "slot t 39 v' = slot t 39 v" "slot t 30 v' = slot t 30 v" "slot t 21 v' = slot t 21 v" for t
    using index_at_same [OF assms(3)] by (simp_all add: slot_def)
  show ?thesis using c l
    by (auto simp: check_one_page_def leaf_def LEVELS_def s split: option.splits if_splits)
qed

text \<open>A small set of tables: two 2 MiB pages from physical address 0 on, at \<open>PMO\<close>.\<close>

definition two_large :: paging where
  "two_large = \<lparr>cr3 = 0x1000, entries = (\<lambda>a.
     if a = PMO + 0x1000 + 8 * 256 then \<lparr>pte_addr = 0x2000, pte_flags = {PRESENT, WRITABLE}\<rparr>
     else if a = PMO + 0x2000 then \<lparr>pte_addr = 0x3000, pte_flags = {PRESENT, WRITABLE}\<rparr>
     else if a = PMO + 0x3000 then \<lparr>pte_addr = 0, pte_flags = {PRESENT, WRITABLE, HUGE_PAGE}\<rparr>
     else if a = PMO + 0x3008 then \<lparr>pte_addr = 0x200000, pte_flags = {PRESENT, WRITABLE, HUGE_PAGE}\<rparr>
     else \<lparr>pte_addr = 0, pte_flags = {}\<rparr>)\<rparr>"

lemma two_large_mark:
  "\<exists>p'. mark_one_page (PMO + 0x5000) two_large = Some (True, p')" "leaf (PMO + 0x5000) two_large = Some (0, 21)"
  by (simp_all add: mark_one_page_def leaf_def LEVELS_def slot_def phys_to_virt_def usz_def index_at_def PMO_def
      two_large_def mark_entry_def Let_def)

theorem marked_range_is_user_witness:
  "\<exists>p'. mark_user_pages (PMO + 0x5000) 100 two_large = Some (True, p') \<and> is_user_range (PMO + 0x5000) 100 p' = Some True"
proof -
  obtain p' where m: "mark_one_page (PMO + 0x5000) two_large = Some (True, p')" using two_large_mark(1) by blast
  have "page_span (PMO + 0x5000) 100 = Some (PMO + 0x5000, 1)"
    by (simp add: page_span_def PMO_def PAGE_def)
  then have "mark_user_pages (PMO + 0x5000) 100 two_large = Some (True, p')"
    using m by (simp add: mark_user_pages_def)
  then show ?thesis using marked_range_is_user by blast
qed

theorem large_page_opens_neighbours_witness:
  "\<exists>p'. mark_one_page (PMO + 0x5000) two_large = Some (True, p') \<and> check_one_page (PMO + 0x1FF000) p' = Some True"
proof -
  obtain p' where m: "mark_one_page (PMO + 0x5000) two_large = Some (True, p')" using two_large_mark(1) by blast
  have "(PMO + 0x1FF000) div 2 ^ 21 = (PMO + 0x5000) div 2 ^ 21" by (simp add: PMO_def)
  from large_page_opens_neighbours [OF m two_large_mark(2) this] m show ?thesis by blast
qed

end
