(* ===== verification/Elf.thy ===== *)
theory Elf
  imports Mem
begin

text \<open>
  The loader of user programs (\<open>kernel/src/elf.rs\<close>): parsing of the image, allocation of its
  memory on the kernel heap, copying of the segments, relocation and marking of the pages.
  The state holds the heap, the bytes of memory and the page tables; \<open>Fail ()\<close> is the
  \<open>return None\<close> of the code.
\<close>

section \<open>Layout\<close>

definition ET_DYN :: nat where "ET_DYN = 3"
definition PT_LOAD :: nat where "PT_LOAD = 1"
definition PT_DYNAMIC :: nat where "PT_DYNAMIC = 2"
definition DT_NULL :: nat where "DT_NULL = 0"
definition DT_RELA :: nat where "DT_RELA = 7"
definition DT_RELASZ :: nat where "DT_RELASZ = 8"
definition DT_RELAENT :: nat where "DT_RELAENT = 9"
definition R_X86_64_RELATIVE :: nat where "R_X86_64_RELATIVE = 8"
definition USER_STACK_BYTES :: nat where "USER_STACK_BYTES = 65536"

record loaded_program =
  prog_entry :: nat
  stack_top :: nat

record phdr =
  p_type :: nat
  p_offset :: nat
  p_vaddr :: nat
  p_filesz :: nat
  p_memsz :: nat

record loader =
  l_heap :: heap_inner
  l_mem :: "nat \<Rightarrow> byte"
  l_pages :: paging

type_synonym 'a load_op = "(loader, unit, 'a) kernel"

definition wrap64 :: "nat \<Rightarrow> nat" where
  "wrap64 n = n mod 2 ^ 64"

definition wrapping_sub :: "nat \<Rightarrow> nat \<Rightarrow> nat" where
  "wrapping_sub a b = wrap64 (a + 2 ^ 64 - b)"

text \<open>\<open>get16\<close>, \<open>get32\<close> and \<open>get64\<close> panic outside the slice.\<close>

definition get_num :: "nat \<Rightarrow> byte list \<Rightarrow> nat \<Rightarrow> nat load_op" where
  "get_num n b off = bnd (guard_panic (off + n \<le> length b)) (\<lambda>_. ret (rd n b off))"

section \<open>Memory\<close>

definition mem64 :: "(nat \<Rightarrow> byte) \<Rightarrow> nat \<Rightarrow> nat" where
  "mem64 m a = le_dec (map (\<lambda>k. m (wrap64 (a + k))) [0..<8])"

definition write_mem :: "nat \<Rightarrow> byte list \<Rightarrow> unit load_op" where
  "write_mem a bs = modify (\<lambda>s. s\<lparr>l_mem := put_bytes a bs (l_mem s)\<rparr>)"

section \<open>Parsing\<close>

fun read_phdrs :: "byte list \<Rightarrow> nat \<Rightarrow> nat \<Rightarrow> nat \<Rightarrow> nat \<Rightarrow> phdr list load_op" where
  "read_phdrs blob phoff entsize i 0 = ret []"
| "read_phdrs blob phoff entsize i (Suc n) = (let off = phoff + i * entsize in
     bnd (guard_panic (off + 56 < 2 ^ 64)) (\<lambda>_.
     if length blob < off + 56 then fail ()
     else bnd (read_phdrs blob phoff entsize (i + 1) n) (\<lambda>r.
       ret (\<lparr>p_type = rd 4 blob off, p_offset = rd 8 blob (off + 8), p_vaddr = rd 8 blob (off + 0x10),
         p_filesz = rd 8 blob (off + 0x20), p_memsz = rd 8 blob (off + 0x28)\<rparr> # r))))"

definition page_down :: "nat \<Rightarrow> nat" where
  "page_down v = v div PAGE * PAGE"

definition sat_add :: "nat \<Rightarrow> nat \<Rightarrow> nat" where
  "sat_add a b = min (a + b) (2 ^ 64 - 1)"

text \<open>The loop over the segments: lowest page and highest end.\<close>

fun image_span :: "phdr list \<Rightarrow> nat \<times> nat \<Rightarrow> nat \<times> nat" where
  "image_span [] sp = sp"
| "image_span (ph # phs) (lo, hi) =
    (if p_type ph \<noteq> PT_LOAD then image_span phs (lo, hi)
     else image_span phs (min lo (page_down (p_vaddr ph)), max hi (sat_add (p_vaddr ph) (p_memsz ph))))"

section \<open>Loading\<close>

definition heap_alloc :: "nat \<Rightarrow> nat \<Rightarrow> nat load_op" where
  "heap_alloc n align = (\<lambda>s. case alloc_locked (l_heap s) n align of
     None \<Rightarrow> (Panic, s)
   | Some (p, h) \<Rightarrow> (Ret p, s\<lparr>l_heap := h\<rparr>))"

definition mark_pages_op :: "nat \<Rightarrow> nat \<Rightarrow> bool load_op" where
  "mark_pages_op a n = (\<lambda>s. case mark_user_pages a n (l_pages s) of
     None \<Rightarrow> (Panic, s)
   | Some (ok, p) \<Rightarrow> (Ret ok, s\<lparr>l_pages := p\<rparr>))"

definition copy_segment :: "byte list \<Rightarrow> nat \<Rightarrow> phdr \<Rightarrow> unit load_op" where
  "copy_segment blob base ph = (let dst = wrap64 (base + p_vaddr ph) in
     if length blob < p_offset ph + p_filesz ph then fail ()
     else bnd (write_mem dst (sub (p_offset ph) (p_filesz ph) blob)) (\<lambda>_.
       if p_filesz ph < p_memsz ph
       then bnd (guard_panic (dst + p_filesz ph < 2 ^ 64)) (\<lambda>_.
         write_mem (dst + p_filesz ph) (replicate (p_memsz ph - p_filesz ph) 0))
       else ret ()))"

fun copy_segments :: "byte list \<Rightarrow> nat \<Rightarrow> phdr list \<Rightarrow> unit load_op" where
  "copy_segments blob base [] = ret ()"
| "copy_segments blob base (ph # phs) =
    (if p_type ph \<noteq> PT_LOAD then copy_segments blob base phs
     else bnd (copy_segment blob base ph) (\<lambda>_. copy_segments blob base phs))"

text \<open>The dynamic table: address, size and entry size of the relocations.\<close>

fun dyn_scan :: "(nat \<Rightarrow> byte) \<Rightarrow> nat \<Rightarrow> nat \<Rightarrow> nat \<times> nat \<times> nat \<Rightarrow> nat \<times> nat \<times> nat" where
  "dyn_scan m a 0 r = r"
| "dyn_scan m a (Suc n) (rela, sz, ent) = (let tag = mem64 m a; val = mem64 m (a + 8) in
     if tag = DT_NULL then (rela, sz, ent)
     else dyn_scan m (a + 16) n
       (if tag = DT_RELA then (val, sz, ent)
        else if tag = DT_RELASZ then (rela, val, ent)
        else if tag = DT_RELAENT then (rela, sz, val)
        else (rela, sz, ent)))"

definition relocate :: "nat \<Rightarrow> nat \<Rightarrow> (nat \<Rightarrow> byte) \<Rightarrow> nat \<Rightarrow> byte" where
  "relocate base r m =
     (if mem64 m (r + 8) mod 2 ^ 32 = R_X86_64_RELATIVE
      then put_bytes (wrap64 (base + mem64 m r)) (le_enc 8 (wrap64 (base + mem64 m (r + 16)))) m
      else m)"

text \<open>The entry size is at least 24; \<open>extra\<close> is what it has beyond that.\<close>

function rela_loop :: "nat \<Rightarrow> nat \<Rightarrow> nat \<Rightarrow> nat \<Rightarrow> nat \<Rightarrow> unit load_op" where
  "rela_loop base rela sz extra off =
    bnd (guard_panic (off + 24 < 2 ^ 64)) (\<lambda>_.
    if off + 24 \<le> sz
    then bnd (modify (\<lambda>s. s\<lparr>l_mem := relocate base (wrap64 (base + rela + off)) (l_mem s)\<rparr>)) (\<lambda>_.
      bnd (guard_panic (off + (24 + extra) < 2 ^ 64)) (\<lambda>_. rela_loop base rela sz extra (off + (24 + extra))))
    else ret ())"
  by pat_completeness auto
termination by (relation "measure (\<lambda>(base, rela, sz, extra, off). sz - off)") auto

declare rela_loop.simps [simp del]

definition apply_relocations :: "nat \<Rightarrow> phdr \<Rightarrow> unit load_op" where
  "apply_relocations base ph = bnd (gets (\<lambda>s. dyn_scan (l_mem s) (wrap64 (base + p_vaddr ph)) (p_memsz ph div 16) (0, 0, 24)))
     (\<lambda>(rela, sz, ent). if sz = 0 \<or> ent < 24 then ret () else rela_loop base rela sz (ent - 24) 0)"

fun relocate_all :: "nat \<Rightarrow> phdr list \<Rightarrow> unit load_op" where
  "relocate_all base [] = ret ()"
| "relocate_all base (ph # phs) =
    (if p_type ph = PT_DYNAMIC then bnd (apply_relocations base ph) (\<lambda>_. relocate_all base phs)
     else relocate_all base phs)"

definition parse_image :: "byte list \<Rightarrow> (nat \<times> phdr list) load_op" where
  "parse_image blob =
    (if length blob < 64 \<or> take 4 blob \<noteq> [0x7F, 0x45, 0x4C, 0x46] then fail ()
     else bnd (get_num 2 blob 0x10) (\<lambda>e_type. if e_type \<noteq> ET_DYN then fail () else
       bnd (get_num 8 blob 0x18) (\<lambda>e_entry. bnd (get_num 8 blob 0x20) (\<lambda>e_phoff.
       bnd (get_num 2 blob 0x36) (\<lambda>entsize. bnd (get_num 2 blob 0x38) (\<lambda>phnum.
       bnd (read_phdrs blob e_phoff entsize 0 phnum) (\<lambda>phs. ret (e_entry, phs))))))))"

definition place_image :: "byte list \<Rightarrow> phdr list \<Rightarrow> nat \<Rightarrow> nat \<Rightarrow> nat load_op" where
  "place_image blob phs lo n = bnd (heap_alloc n PAGE) (\<lambda>block.
     if block = 0 then fail ()
     else let base = wrapping_sub block lo in
       bnd (copy_segments blob base phs) (\<lambda>_.
       bnd (relocate_all base phs) (\<lambda>_.
       bnd (mark_pages_op block n) (\<lambda>ok. if ok then ret block else fail ()))))"

definition new_stack :: "nat load_op" where
  "new_stack = bnd (heap_alloc USER_STACK_BYTES PAGE) (\<lambda>stack.
     if stack = 0 then fail ()
     else bnd (mark_pages_op stack USER_STACK_BYTES) (\<lambda>_.
       bnd (guard_panic (stack + USER_STACK_BYTES < 2 ^ 64)) (\<lambda>_. ret stack)))"

definition image_size :: "nat \<times> nat \<Rightarrow> nat" where
  "image_size sp = page_down (snd sp - fst sp + PAGE - 1)"

definition load_user_elf :: "byte list \<Rightarrow> loaded_program load_op" where
  "load_user_elf blob = bnd (parse_image blob) (\<lambda>(e_entry, phs).
     let sp = image_span phs (2 ^ 64 - 1, 0) in
     if fst sp = 2 ^ 64 - 1 then fail ()
     else bnd (guard_panic (snd sp - fst sp + PAGE < 2 ^ 64)) (\<lambda>_.
       bnd (place_image blob phs (fst sp) (image_size sp)) (\<lambda>block.
       bnd new_stack (\<lambda>stack.
       ret \<lparr>prog_entry = wrap64 (wrapping_sub block (fst sp) + e_entry), stack_top = stack + USER_STACK_BYTES\<rparr>))))"

section \<open>What the loop over the segments does\<close>

lemma page_down_le: "page_down v \<le> v"
  by (simp add: page_down_def PAGE_def)

lemma image_span_bounds:
  assumes "image_span phs (l0, h0) = (lo, hi)"
  shows "lo \<le> l0 \<and> h0 \<le> hi \<and> (\<forall>ph \<in> set phs. p_type ph = PT_LOAD \<longrightarrow>
     lo \<le> page_down (p_vaddr ph) \<and> sat_add (p_vaddr ph) (p_memsz ph) \<le> hi)"
  using assms
proof (induction phs arbitrary: l0 h0)
  case (Cons ph phs)
  show ?case
  proof (cases "p_type ph = PT_LOAD")
    case True
    then have "image_span phs (min l0 (page_down (p_vaddr ph)), max h0 (sat_add (p_vaddr ph) (p_memsz ph))) = (lo, hi)"
      using Cons.prems by simp
    from Cons.IH [OF this] True show ?thesis by auto
  next
    case False
    then show ?thesis using Cons.IH [of l0 h0] Cons.prems by auto
  qed
qed simp

definition seg_wf :: "phdr \<Rightarrow> bool" where
  "seg_wf ph = (p_type ph = PT_LOAD \<longrightarrow> p_filesz ph \<le> p_memsz ph \<and> p_vaddr ph + p_memsz ph < 2 ^ 64)"

lemma image_size_bound: "hi - lo \<le> image_size (lo, hi)"
proof -
  have "n \<le> (n + 4095) div 4096 * 4096" for n :: nat
  proof -
    have "(n + 4095) div 4096 * 4096 + (n + 4095) mod 4096 = n + 4095" by (rule div_mult_mod_eq)
    moreover have "(n + 4095) mod 4096 < 4096" by simp
    ultimately show ?thesis by linarith
  qed
  then show ?thesis by (simp add: image_size_def page_down_def PAGE_def)
qed

text \<open>The memory of one segment: file bytes, then zeros.\<close>

definition seg_byte :: "byte list \<Rightarrow> phdr \<Rightarrow> nat \<Rightarrow> byte" where
  "seg_byte blob ph k = (if k < p_filesz ph then blob ! (p_offset ph + k) else 0)"

definition seg_put :: "byte list \<Rightarrow> nat \<Rightarrow> phdr \<Rightarrow> (nat \<Rightarrow> byte) \<Rightarrow> nat \<Rightarrow> byte" where
  "seg_put blob a ph m = (\<lambda>x. if a \<le> x \<and> x < a + p_memsz ph then seg_byte blob ph (x - a) else m x)"

lemma copy_segment_spec:
  assumes "copy_segment blob base ph s = (Ret (), s')" and "p_filesz ph \<le> p_memsz ph"
  shows "s' = s\<lparr>l_mem := seg_put blob (wrap64 (base + p_vaddr ph)) ph (l_mem s)\<rparr>"
proof -
  have len: "p_offset ph + p_filesz ph \<le> length blob"
    using assms(1) by (auto simp: copy_segment_def Let_def split: if_splits)
  let ?a = "wrap64 (base + p_vaddr ph)" and ?bs = "sub (p_offset ph) (p_filesz ph) blob"
  have ln: "length ?bs = p_filesz ph" using len by (simp add: sub_def)
  have nth: "k < p_filesz ph \<Longrightarrow> ?bs ! k = blob ! (p_offset ph + k)" for k
    using len by (simp add: sub_def)
  show ?thesis
  proof (cases "p_filesz ph < p_memsz ph")
    case True
    have "s' = s\<lparr>l_mem := put_bytes (?a + p_filesz ph) (replicate (p_memsz ph - p_filesz ph) 0) (put_bytes ?a ?bs (l_mem s))\<rparr>"
      using assms(1) len True
      by (auto simp: copy_segment_def Let_def write_mem_def bnd_def split: if_splits)
    moreover have "put_bytes (?a + p_filesz ph) (replicate (p_memsz ph - p_filesz ph) 0) (put_bytes ?a ?bs (l_mem s)) =
        seg_put blob ?a ph (l_mem s)"
      using True ln nth by (auto simp: put_bytes_def seg_put_def seg_byte_def fun_eq_iff)
    ultimately show ?thesis by simp
  next
    case False
    then have e: "p_filesz ph = p_memsz ph" using assms(2) by simp
    have "s' = s\<lparr>l_mem := put_bytes ?a ?bs (l_mem s)\<rparr>"
      using assms(1) len e by (auto simp: copy_segment_def Let_def write_mem_def)
    moreover have "put_bytes ?a ?bs (l_mem s) = seg_put blob ?a ph (l_mem s)"
      using e ln nth by (auto simp: put_bytes_def seg_put_def seg_byte_def fun_eq_iff)
    ultimately show ?thesis by simp
  qed
qed

text \<open>The address of a segment inside the block.\<close>

lemma seg_address:
  assumes "lo \<le> v" and "v < 2 ^ 64" and "block + (v - lo) < 2 ^ 64"
  shows "wrap64 (wrapping_sub block lo + v) = block + (v - lo)"
proof -
  have "wrap64 (wrapping_sub block lo + v) = (block + 2 ^ 64 - lo + v) mod 2 ^ 64"
    by (simp add: wrap64_def wrapping_sub_def mod_add_left_eq)
  also have "block + 2 ^ 64 - lo + v = block + (v - lo) + 2 ^ 64" using assms(1,2) by simp
  finally show ?thesis using assms(3) by simp
qed

definition seg_disj :: "phdr \<Rightarrow> phdr \<Rightarrow> bool" where
  "seg_disj x y = (p_type x = PT_LOAD \<and> p_type y = PT_LOAD \<longrightarrow>
     p_vaddr x + p_memsz x \<le> p_vaddr y \<or> p_vaddr y + p_memsz y \<le> p_vaddr x)"

lemma copy_segments_spec:
  assumes "copy_segments blob (wrapping_sub block lo) phs s = (Ret (), s')"
    and "\<And>ph. ph \<in> set phs \<Longrightarrow> p_type ph = PT_LOAD \<Longrightarrow> p_filesz ph \<le> p_memsz ph \<and> p_vaddr ph < 2 ^ 64 \<and>
        lo \<le> p_vaddr ph \<and> p_vaddr ph + p_memsz ph \<le> lo + n"
    and "sorted_wrt seg_disj phs" and "block + n < 2 ^ 64"
  shows "l_heap s' = l_heap s \<and> l_pages s' = l_pages s \<and>
    (\<forall>ph \<in> set phs. p_type ph = PT_LOAD \<longrightarrow> (\<forall>k < p_memsz ph.
       l_mem s' (block + (p_vaddr ph - lo) + k) = seg_byte blob ph k)) \<and>
    (\<forall>x. (\<forall>ph \<in> set phs. p_type ph = PT_LOAD \<longrightarrow> x < block + (p_vaddr ph - lo) \<or>
        block + (p_vaddr ph - lo) + p_memsz ph \<le> x) \<longrightarrow> l_mem s' x = l_mem s x)"
  using assms(1-3)
proof (induction phs arbitrary: s)
  case (Cons ph phs)
  show ?case
  proof (cases "p_type ph = PT_LOAD")
    case False
    then show ?thesis using Cons.IH [of s] Cons.prems by auto
  next
    case True
    from Cons.prems(1) True obtain s1 where c1: "copy_segment blob (wrapping_sub block lo) ph s = (Ret (), s1)"
      and c2: "copy_segments blob (wrapping_sub block lo) phs s1 = (Ret (), s')"
      by (auto elim: bnd_RetE)
    have w: "p_filesz ph \<le> p_memsz ph" "p_vaddr ph < 2 ^ 64" "lo \<le> p_vaddr ph" "p_vaddr ph + p_memsz ph \<le> lo + n"
      using Cons.prems(2) [of ph] True by simp_all
    let ?a = "block + (p_vaddr ph - lo)"
    have a: "wrap64 (wrapping_sub block lo + p_vaddr ph) = ?a"
      by (rule seg_address) (use w assms(4) in auto)
    have s1: "s1 = s\<lparr>l_mem := seg_put blob ?a ph (l_mem s)\<rparr>"
      using copy_segment_spec [OF c1 w(1)] a by simp
    have IH: "l_heap s' = l_heap s1 \<and> l_pages s' = l_pages s1 \<and>
      (\<forall>ph \<in> set phs. p_type ph = PT_LOAD \<longrightarrow> (\<forall>k < p_memsz ph.
         l_mem s' (block + (p_vaddr ph - lo) + k) = seg_byte blob ph k)) \<and>
      (\<forall>x. (\<forall>ph \<in> set phs. p_type ph = PT_LOAD \<longrightarrow> x < block + (p_vaddr ph - lo) \<or>
          block + (p_vaddr ph - lo) + p_memsz ph \<le> x) \<longrightarrow> l_mem s' x = l_mem s1 x)"
      by (rule Cons.IH [OF c2]) (use Cons.prems in auto)
    have first: "l_mem s' (?a + k) = seg_byte blob ph k" if k: "k < p_memsz ph" for k
    proof -
      have "?a + k < block + (p_vaddr q - lo) \<or> block + (p_vaddr q - lo) + p_memsz q \<le> ?a + k"
        if "q \<in> set phs" "p_type q = PT_LOAD" for q
      proof -
        have "seg_disj ph q" using Cons.prems(3) that(1) by simp
        moreover have "lo \<le> p_vaddr q" using Cons.prems(2) [of q] that by simp
        ultimately show ?thesis using True that(2) k w(3) by (auto simp: seg_disj_def)
      qed
      then have "l_mem s' (?a + k) = l_mem s1 (?a + k)" using IH by blast
      then show ?thesis using k by (simp add: s1 seg_put_def)
    qed
    have other: "l_mem s' x = l_mem s x"
      if x: "\<forall>q \<in> set (ph # phs). p_type q = PT_LOAD \<longrightarrow> x < block + (p_vaddr q - lo) \<or>
        block + (p_vaddr q - lo) + p_memsz q \<le> x" for x
    proof -
      have "l_mem s' x = l_mem s1 x" using IH x by simp
      then show ?thesis using x True by (auto simp: s1 seg_put_def)
    qed
    show ?thesis using IH first other s1 by simp
  qed
qed simp

section \<open>Relocation\<close>

lemma mem64_cong:
  assumes "a + 8 \<le> 2 ^ 64" and "\<And>x. a \<le> x \<Longrightarrow> x < a + 8 \<Longrightarrow> m' x = m x"
  shows "mem64 m' a = mem64 m a"
proof -
  have "map (\<lambda>k. m' (wrap64 (a + k))) [0..<8] = map (\<lambda>k. m (wrap64 (a + k))) [0..<8]"
    using assms by (intro map_cong) (auto simp: wrap64_def)
  then show ?thesis by (simp only: mem64_def)
qed

lemma mem64_put:
  assumes "a + 8 \<le> 2 ^ 64"
  shows "mem64 (put_bytes a (le_enc 8 v) m) a = v mod 2 ^ 64"
proof -
  have "map (\<lambda>k. put_bytes a (le_enc 8 v) m (wrap64 (a + k))) [0..<8] = map (\<lambda>k. le_enc 8 v ! k) [0..<8]"
    using assms by (intro map_cong) (auto simp: wrap64_def put_bytes_def)
  also have "\<dots> = le_enc 8 v" using map_nth [of "le_enc 8 v"] by simp
  finally show ?thesis by (simp add: mem64_def le_dec_enc)
qed

text \<open>A table of relative relocations, as pairs of offset and addend, at address \<open>t\<close>.\<close>

fun rela_table :: "(nat \<Rightarrow> byte) \<Rightarrow> nat \<Rightarrow> (nat \<times> nat) list \<Rightarrow> bool" where
  "rela_table m t [] = True"
| "rela_table m t (r # rs) = (mem64 m t = fst r \<and> mem64 m (t + 8) mod 2 ^ 32 = R_X86_64_RELATIVE \<and>
     mem64 m (t + 16) = snd r \<and> rela_table m (t + 24) rs)"

definition rela_target :: "nat \<Rightarrow> nat \<times> nat \<Rightarrow> nat" where
  "rela_target base r = wrap64 (base + fst r)"

definition targets_ok :: "nat \<Rightarrow> nat \<Rightarrow> nat \<Rightarrow> (nat \<times> nat) list \<Rightarrow> bool" where
  "targets_ok base t n rs = ((\<forall>r \<in> set rs. rela_target base r + 8 \<le> 2 ^ 64 \<and>
       (rela_target base r + 8 \<le> t \<or> t + n \<le> rela_target base r)) \<and>
     sorted_wrt (\<lambda>x y. rela_target base x + 8 \<le> rela_target base y \<or> rela_target base y + 8 \<le> rela_target base x) rs)"

lemma rela_table_cong:
  "t + 24 * length rs \<le> 2 ^ 64 \<Longrightarrow> (\<And>x. t \<le> x \<Longrightarrow> x < t + 24 * length rs \<Longrightarrow> m' x = m x) \<Longrightarrow>
   rela_table m' t rs = rela_table m t rs"
proof (induction rs arbitrary: t)
  case (Cons r rs)
  have "mem64 m' t = mem64 m t" "mem64 m' (t + 8) = mem64 m (t + 8)" "mem64 m' (t + 16) = mem64 m (t + 16)"
    using Cons.prems by (intro mem64_cong; simp)+
  moreover have "rela_table m' (t + 24) rs = rela_table m (t + 24) rs"
    by (rule Cons.IH) (use Cons.prems in auto)
  ultimately show ?case by simp
qed simp

lemma relocate_entry:
  assumes "rela_table m t (r # rs)"
  shows "relocate base t m = put_bytes (rela_target base r) (le_enc 8 (wrap64 (base + snd r))) m"
  using assms by (simp add: relocate_def rela_target_def)

lemma wrap64_step: "wrap64 a = t \<Longrightarrow> t + 24 < 2 ^ 64 \<Longrightarrow> wrap64 (a + 24) = t + 24"
  using mod_add_left_eq [of a "2 ^ 64" 24] by (simp add: wrap64_def)

lemma rela_loop_run:
  assumes "rela_table (l_mem s) t rs" and "rs \<noteq> [] \<Longrightarrow> wrap64 (base + rela + off) = t"
    and "t + 24 * length rs \<le> 2 ^ 64" and "sz = off + 24 * length rs" and "sz + 24 < 2 ^ 64"
    and "targets_ok base t (24 * length rs) rs"
  shows "\<exists>m. rela_loop base rela sz 0 off s = (Ret (), s\<lparr>l_mem := m\<rparr>) \<and>
     (\<forall>r \<in> set rs. mem64 m (rela_target base r) = wrap64 (base + snd r)) \<and>
     (\<forall>x. (\<forall>r \<in> set rs. x < rela_target base r \<or> rela_target base r + 8 \<le> x) \<longrightarrow> m x = l_mem s x)"
  using assms
proof (induction rs arbitrary: t off s)
  case Nil
  then show ?case by (intro exI [of _ "l_mem s"]) (simp add: rela_loop.simps [of base rela off 0 off] bnd_def)
next
  case (Cons r rs)
  let ?g = "rela_target base r" and ?v = "wrap64 (base + snd r)"
  let ?m1 = "put_bytes ?g (le_enc 8 ?v) (l_mem s)"
  let ?s1 = "s\<lparr>l_mem := ?m1\<rparr>"
  have g: "?g + 8 \<le> 2 ^ 64" "?g + 8 \<le> t \<or> t + 24 * length (r # rs) \<le> ?g"
    using Cons.prems(6) by (auto simp: targets_ok_def)
  have later: "?g + 8 \<le> rela_target base q \<or> rela_target base q + 8 \<le> ?g" if "q \<in> set rs" for q
    using Cons.prems(6) that by (simp add: targets_ok_def)
  have off_g: "?m1 x = l_mem s x" if "x < ?g \<or> ?g + 8 \<le> x" for x
    using that by (auto simp: put_bytes_def)
  have tab: "rela_table ?m1 (t + 24) rs"
  proof (subst rela_table_cong [where m = "l_mem s"])
    show "t + 24 + 24 * length rs \<le> 2 ^ 64" using Cons.prems(3) by simp
    show "?m1 x = l_mem s x" if "t + 24 \<le> x" "x < t + 24 + 24 * length rs" for x
      by (rule off_g) (use that g(2) in auto)
    show "rela_table (l_mem s) (t + 24) rs" using Cons.prems(1) by simp
  qed
  have step: "rela_loop base rela sz 0 off s = rela_loop base rela sz 0 (off + 24) ?s1"
    using Cons.prems(2,4,5) relocate_entry [OF Cons.prems(1), of base]
    by (subst rela_loop.simps) (simp add: bnd_def)
  have "\<exists>m. rela_loop base rela sz 0 (off + 24) ?s1 = (Ret (), ?s1\<lparr>l_mem := m\<rparr>) \<and>
     (\<forall>r \<in> set rs. mem64 m (rela_target base r) = wrap64 (base + snd r)) \<and>
     (\<forall>x. (\<forall>r \<in> set rs. x < rela_target base r \<or> rela_target base r + 8 \<le> x) \<longrightarrow> m x = l_mem ?s1 x)"
  proof (rule Cons.IH)
    show "rela_table (l_mem ?s1) (t + 24) rs" using tab by simp
    show "wrap64 (base + rela + (off + 24)) = t + 24" if "rs \<noteq> []"
      using wrap64_step [OF Cons.prems(2)] Cons.prems(3) that by (cases rs) (auto simp: add.assoc)
    show "t + 24 + 24 * length rs \<le> 2 ^ 64" "sz = off + 24 + 24 * length rs" "sz + 24 < 2 ^ 64"
      using Cons.prems(3-5) by simp_all
    show "targets_ok base (t + 24) (24 * length rs) rs"
      using Cons.prems(6) by (auto simp: targets_ok_def)
  qed
  then obtain m where m: "rela_loop base rela sz 0 (off + 24) ?s1 = (Ret (), ?s1\<lparr>l_mem := m\<rparr>)"
    "\<forall>r \<in> set rs. mem64 m (rela_target base r) = wrap64 (base + snd r)"
    "\<And>x. \<forall>r \<in> set rs. x < rela_target base r \<or> rela_target base r + 8 \<le> x \<Longrightarrow> m x = ?m1 x" by auto
  have "mem64 m ?g = mem64 ?m1 ?g"
    by (rule mem64_cong [OF g(1)]) (rule m(3), use later in fastforce)
  then have "mem64 m ?g = ?v" using mem64_put [OF g(1)] by (simp add: wrap64_def)
  moreover have "m x = l_mem s x" if "\<forall>q \<in> set (r # rs). x < rela_target base q \<or> rela_target base q + 8 \<le> x" for x
    using m(3) [of x] off_g [of x] that by auto
  ultimately show ?case using step m(1,2) by (intro exI [of _ m]) simp
qed

section \<open>Loading\<close>

lemma mark_pages_opD: "mark_pages_op a n s = (Ret ok, s') \<Longrightarrow>
    \<exists>p. mark_user_pages a n (l_pages s) = Some (ok, p) \<and> s' = s\<lparr>l_pages := p\<rparr>"
  by (auto simp: mark_pages_op_def split: option.splits)

lemma heap_allocD: "heap_alloc n al s = (Ret p, s') \<Longrightarrow>
    \<exists>h. alloc_locked (l_heap s) n al = Some (p, h) \<and> s' = s\<lparr>l_heap := h\<rparr>"
  by (auto simp: heap_alloc_def split: option.splits)

text \<open>A request that the allocator answered was a good one.\<close>

lemma page_request_good: "alloc_locked h n PAGE = Some r \<Longrightarrow> good_request n PAGE"
proof -
  assume r: "alloc_locked h n PAGE = Some r"
  have p: "PAGE = 2 ^ 12" by (simp add: PAGE_def)
  have off: "align_up BLOCK_HEADER PAGE = Some (hdr_off PAGE)"
    using align_up_eq [OF p] by (simp add: hdr_off_def BLOCK_HEADER_def PAGE_def up_def)
  have "usz (hdr_off PAGE + n) \<noteq> None"
    using r off by (cases "usz (hdr_off PAGE + n)") (auto simp: alloc_locked_def)
  then have "hdr_off PAGE + n < 2 ^ 64" by (simp add: usz_def split: if_splits)
  then show ?thesis using p by (auto simp: good_request_def intro!: exI [of _ 12])
qed

lemma relocate_all_frame:
  "relocate_all base phs s = (Ret u, s') \<Longrightarrow> l_heap s' = l_heap s \<and> l_pages s' = l_pages s"
proof (induction phs arbitrary: s)
  case (Cons ph phs)
  have loop: "rela_loop b r z e off t = (Ret u, t') \<Longrightarrow> l_heap t' = l_heap t \<and> l_pages t' = l_pages t" for b r z e off t t' u
  proof (induction b r z e off arbitrary: t rule: rela_loop.induct)
    case (1 b r z e off)
    show ?case
    proof (cases "off + 24 \<le> z")
      case True
      let ?t = "t\<lparr>l_mem := relocate b (wrap64 (b + r + off)) (l_mem t)\<rparr>"
      have "rela_loop b r z e (off + (24 + e)) ?t = (Ret u, t')"
        using "1.prems" True by (subst (asm) rela_loop.simps) (auto simp: bnd_def split: if_splits)
      from "1.IH" [OF True this] show ?thesis by simp
    next
      case False
      then show ?thesis using "1.prems" by (subst (asm) rela_loop.simps) (auto simp: bnd_def split: if_splits)
    qed
  qed
  show ?case
  proof (cases "p_type ph = PT_DYNAMIC")
    case True
    then obtain s1 v where a: "apply_relocations base ph s = (Ret v, s1)" "relocate_all base phs s1 = (Ret u, s')"
      using Cons.prems by (auto elim: bnd_RetE)
    have "l_heap s1 = l_heap s \<and> l_pages s1 = l_pages s"
      using a(1) loop by (auto simp: apply_relocations_def split: prod.splits if_splits)
    then show ?thesis using Cons.IH [OF a(2)] by simp
  next
    case False
    then show ?thesis using Cons by simp
  qed
qed simp

lemma place_imageD:
  assumes "place_image blob phs lo n s = (Ret block, s')"
  shows "\<exists>h s1 s2 pg. alloc_locked (l_heap s) n PAGE = Some (block, h) \<and> block \<noteq> 0 \<and>
    copy_segments blob (wrapping_sub block lo) phs (s\<lparr>l_heap := h\<rparr>) = (Ret (), s1) \<and>
    relocate_all (wrapping_sub block lo) phs s1 = (Ret (), s2) \<and>
    mark_user_pages block n (l_pages s2) = Some (True, pg) \<and> s' = s2\<lparr>l_pages := pg\<rparr>"
proof -
  from assms obtain b sa where b: "heap_alloc n PAGE s = (Ret b, sa)"
    and r: "(if b = 0 then fail () else let base = wrapping_sub b lo in
       bnd (copy_segments blob base phs) (\<lambda>_. bnd (relocate_all base phs) (\<lambda>_.
       bnd (mark_pages_op b n) (\<lambda>ok. if ok then ret b else fail ())))) sa = (Ret block, s')"
    unfolding place_image_def by (rule bnd_RetE)
  have b0: "b \<noteq> 0" using r by (cases "b = 0") auto
  then have "bnd (copy_segments blob (wrapping_sub b lo) phs) (\<lambda>_. bnd (relocate_all (wrapping_sub b lo) phs) (\<lambda>_.
       bnd (mark_pages_op b n) (\<lambda>ok. if ok then ret b else fail ()))) sa = (Ret block, s')"
    using r by (simp add: Let_def)
  then obtain u s1 where c: "copy_segments blob (wrapping_sub b lo) phs sa = (Ret u, s1)"
    and r1: "bnd (relocate_all (wrapping_sub b lo) phs) (\<lambda>_.
       bnd (mark_pages_op b n) (\<lambda>ok. if ok then ret b else fail ())) s1 = (Ret block, s')"
    by (rule bnd_RetE)
  from r1 obtain u' s2 where rl: "relocate_all (wrapping_sub b lo) phs s1 = (Ret u', s2)"
    and r2: "bnd (mark_pages_op b n) (\<lambda>ok. if ok then ret b else fail ()) s2 = (Ret block, s')"
    by (rule bnd_RetE)
  from r2 obtain ok s3 where m: "mark_pages_op b n s2 = (Ret ok, s3)" and e: "(if ok then ret b else fail ()) s3 = (Ret block, s')"
    by (rule bnd_RetE)
  have ok: "ok" "b = block" "s3 = s'" using e by (auto split: if_splits)
  from heap_allocD [OF b] obtain h where h: "alloc_locked (l_heap s) n PAGE = Some (b, h)" "sa = s\<lparr>l_heap := h\<rparr>" by blast
  from mark_pages_opD [OF m] obtain pg where "mark_user_pages b n (l_pages s2) = Some (ok, pg)" "s3 = s2\<lparr>l_pages := pg\<rparr>"
    by blast
  then show ?thesis using h c rl ok b0 by auto
qed

lemma new_stackD:
  assumes "new_stack s = (Ret stack, s')"
  shows "\<exists>h pg ok. alloc_locked (l_heap s) USER_STACK_BYTES PAGE = Some (stack, h) \<and> stack \<noteq> 0 \<and>
    mark_user_pages stack USER_STACK_BYTES (l_pages s) = Some (ok, pg) \<and> s' = s\<lparr>l_heap := h, l_pages := pg\<rparr>"
proof -
  from assms obtain b sa where b: "heap_alloc USER_STACK_BYTES PAGE s = (Ret b, sa)"
    and r: "(if b = 0 then fail () else bnd (mark_pages_op b USER_STACK_BYTES) (\<lambda>_.
       bnd (guard_panic (b + USER_STACK_BYTES < 2 ^ 64)) (\<lambda>_. ret b))) sa = (Ret stack, s')"
    unfolding new_stack_def by (rule bnd_RetE)
  have b0: "b \<noteq> 0" using r by (cases "b = 0") auto
  then have "bnd (mark_pages_op b USER_STACK_BYTES) (\<lambda>_.
       bnd (guard_panic (b + USER_STACK_BYTES < 2 ^ 64)) (\<lambda>_. ret b)) sa = (Ret stack, s')"
    using r by simp
  then obtain ok s3 where m: "mark_pages_op b USER_STACK_BYTES sa = (Ret ok, s3)"
    and e: "bnd (guard_panic (b + USER_STACK_BYTES < 2 ^ 64)) (\<lambda>_. (ret b :: nat load_op)) s3 = (Ret stack, s')"
    by (rule bnd_RetE)
  have "b = stack" "s3 = s'" using e by (auto simp: bnd_def split: if_splits)
  then show ?thesis using heap_allocD [OF b] mark_pages_opD [OF m] b0 by auto
qed

lemma load_user_elfD:
  assumes "load_user_elf blob s = (Ret prog, s')" and "parse_image blob s = (Ret (e, phs), s)"
    and "image_span phs (2 ^ 64 - 1, 0) = (lo, hi)"
  shows "\<exists>block stack s1. place_image blob phs lo (image_size (lo, hi)) s = (Ret block, s1) \<and>
    new_stack s1 = (Ret stack, s') \<and>
    prog = \<lparr>prog_entry = wrap64 (wrapping_sub block lo + e), stack_top = stack + USER_STACK_BYTES\<rparr>"
proof -
  have p: "load_user_elf blob s = (if lo = 2 ^ 64 - 1 then fail () else bnd (guard_panic (hi - lo + PAGE < 2 ^ 64)) (\<lambda>_.
       bnd (place_image blob phs lo (image_size (lo, hi))) (\<lambda>block. bnd new_stack (\<lambda>stack.
       ret \<lparr>prog_entry = wrap64 (wrapping_sub block lo + e), stack_top = stack + USER_STACK_BYTES\<rparr>)))) s"
    unfolding load_user_elf_def by (subst bnd_Ret [where m = "parse_image blob" and s = s and s' = s and a = "(e, phs)"])
      (simp_all add: assms(2) assms(3) [simplified] Let_def)
  have l: "lo \<noteq> 2 ^ 64 - 1" using assms(1) unfolding p by (cases "lo = 2 ^ 64 - 1") auto
  then have "bnd (guard_panic (hi - lo + PAGE < 2 ^ 64)) (\<lambda>_.
       bnd (place_image blob phs lo (image_size (lo, hi))) (\<lambda>block. bnd new_stack (\<lambda>stack.
       ret \<lparr>prog_entry = wrap64 (wrapping_sub block lo + e), stack_top = stack + USER_STACK_BYTES\<rparr>))) s = (Ret prog, s')"
    using assms(1) unfolding p by simp
  then obtain u sa where g: "(guard_panic (hi - lo + PAGE < 2 ^ 64) :: unit load_op) s = (Ret u, sa)" and
    b: "bnd (place_image blob phs lo (image_size (lo, hi))) (\<lambda>block. bnd new_stack (\<lambda>stack.
       ret \<lparr>prog_entry = wrap64 (wrapping_sub block lo + e), stack_top = stack + USER_STACK_BYTES\<rparr>)) sa = (Ret prog, s')"
    by (rule bnd_RetE)
  have "sa = s" using g by (auto split: if_splits)
  from b obtain block s1 where pl: "place_image blob phs lo (image_size (lo, hi)) sa = (Ret block, s1)"
    and b1: "bnd new_stack (\<lambda>stack. ret \<lparr>prog_entry = wrap64 (wrapping_sub block lo + e), stack_top = stack + USER_STACK_BYTES\<rparr>) s1 =
      (Ret prog, s')"
    by (rule bnd_RetE)
  from b1 obtain stack s2 where "new_stack s1 = (Ret stack, s2)"
    "ret \<lparr>prog_entry = wrap64 (wrapping_sub block lo + e), stack_top = stack + USER_STACK_BYTES\<rparr> s2 = (Ret prog, s')"
    by (rule bnd_RetE) (simp add: ret_def)
  then show ?thesis using pl \<open>sa = s\<close> by auto
qed

section \<open>Properties\<close>

text \<open>C12: a program that loads is in memory as its headers say.  When no segment has more bytes in
  the file than in memory and the segments do not overlap, the block for the image and the
  user stack are two separate payloads of the heap; before relocation every segment is at its
  place in the block, file bytes first, then zeros, and no byte outside the block has changed;
  what follows is the relocation of that memory (\<open>relocations_applied\<close>); the pages of the image are open to the user,
  and the entry point is the linked one moved with the image.
\<close>

theorem load_places_image:
  assumes run: "load_user_elf blob s = (Ret prog, s')" and parsed: "parse_image blob s = (Ret (e, phs), s)"
    and sp: "image_span phs (2 ^ 64 - 1, 0) = (lo, hi)"
    and wf: "\<forall>ph \<in> set phs. seg_wf ph" and dj: "sorted_wrt seg_disj phs"
    and heap: "heap_valid alo ahi (l_heap s) L" and ahi: "ahi < 2 ^ 64"
  shows "\<exists>block stack s1 s2.
    heap_valid alo ahi (l_heap s') ((stack, USER_STACK_BYTES, PAGE) # (block, image_size (lo, hi), PAGE) # L) \<and>
    (block + image_size (lo, hi) \<le> stack \<or> stack + USER_STACK_BYTES \<le> block) \<and>
    (\<forall>ph \<in> set phs. p_type ph = PT_LOAD \<longrightarrow> (\<forall>k < p_memsz ph.
       l_mem s1 (block + (p_vaddr ph - lo) + k) = (if k < p_filesz ph then blob ! (p_offset ph + k) else 0))) \<and>
    (\<forall>x. x < block \<or> block + image_size (lo, hi) \<le> x \<longrightarrow> l_mem s1 x = l_mem s x) \<and>
    relocate_all (wrapping_sub block lo) phs s1 = (Ret (), s2) \<and> l_mem s' = l_mem s2 \<and>
    is_user_range block (image_size (lo, hi)) (l_pages s') = Some True \<and>
    prog_entry prog = wrap64 (wrapping_sub block lo + e) \<and> stack_top prog = stack + USER_STACK_BYTES"
proof -
  let ?n = "image_size (lo, hi)"
  from load_user_elfD [OF run parsed sp] obtain block stack sm where
    pl: "place_image blob phs lo ?n s = (Ret block, sm)" and ns: "new_stack sm = (Ret stack, s')"
    and prog: "prog = \<lparr>prog_entry = wrap64 (wrapping_sub block lo + e), stack_top = stack + USER_STACK_BYTES\<rparr>" by blast
  from place_imageD [OF pl] obtain h s1 s2 pg where
    a1: "alloc_locked (l_heap s) ?n PAGE = Some (block, h)" "block \<noteq> 0"
    and cp: "copy_segments blob (wrapping_sub block lo) phs (s\<lparr>l_heap := h\<rparr>) = (Ret (), s1)"
    and rl: "relocate_all (wrapping_sub block lo) phs s1 = (Ret (), s2)"
    and mk: "mark_user_pages block ?n (l_pages s2) = Some (True, pg)" and sm: "sm = s2\<lparr>l_pages := pg\<rparr>" by blast
  from new_stackD [OF ns] obtain h2 pg2 ok where
    a2: "alloc_locked (l_heap sm) USER_STACK_BYTES PAGE = Some (stack, h2)" "stack \<noteq> 0"
    and mk2: "mark_user_pages stack USER_STACK_BYTES (l_pages sm) = Some (ok, pg2)"
    and s': "s' = sm\<lparr>l_heap := h2, l_pages := pg2\<rparr>" by blast
  have g1: "good_request ?n PAGE" and g2: "good_request USER_STACK_BYTES PAGE"
    using page_request_good a1(1) a2(1) by blast+
  have v1: "heap_valid alo ahi h ((block, ?n, PAGE) # L)"
    using kheap.alloc_total [OF heap g1] a1 by auto
  have bd: "block + ?n < 2 ^ 64" using heap_valid_arena(2) [OF v1, of block ?n PAGE] ahi by simp
  have seg: "p_filesz ph \<le> p_memsz ph \<and> p_vaddr ph < 2 ^ 64 \<and> lo \<le> p_vaddr ph \<and> p_vaddr ph + p_memsz ph \<le> lo + ?n"
    if "ph \<in> set phs" "p_type ph = PT_LOAD" for ph
  proof -
    have w: "p_filesz ph \<le> p_memsz ph" "p_vaddr ph + p_memsz ph < 2 ^ 64" using wf that by (auto simp: seg_wf_def)
    have "lo \<le> page_down (p_vaddr ph)" "sat_add (p_vaddr ph) (p_memsz ph) \<le> hi"
      using image_span_bounds [OF sp] that by auto
    then have "lo \<le> p_vaddr ph" "p_vaddr ph + p_memsz ph \<le> hi"
      using page_down_le [of "p_vaddr ph"] w(2) by (simp_all add: sat_add_def)
    then show ?thesis using w image_size_bound [of hi lo] by simp
  qed
  have C: "l_heap s1 = h" "l_pages s1 = l_pages s"
    "\<And>ph k. ph \<in> set phs \<Longrightarrow> p_type ph = PT_LOAD \<Longrightarrow> k < p_memsz ph \<Longrightarrow>
       l_mem s1 (block + (p_vaddr ph - lo) + k) = seg_byte blob ph k"
    "\<And>x. \<forall>ph \<in> set phs. p_type ph = PT_LOAD \<longrightarrow> x < block + (p_vaddr ph - lo) \<or>
        block + (p_vaddr ph - lo) + p_memsz ph \<le> x \<Longrightarrow> l_mem s1 x = l_mem s x"
    using copy_segments_spec [OF cp seg dj bd] by auto
  have out: "l_mem s1 x = l_mem s x" if "x < block \<or> block + ?n \<le> x" for x
    by (rule C(4)) (use that seg in fastforce)
  have fr: "l_heap s2 = h" using relocate_all_frame [OF rl] C(1) by simp
  have a2': "alloc_locked h USER_STACK_BYTES PAGE = Some (stack, h2)" using a2(1) sm fr by simp
  have two: "heap_valid alo ahi h2 ((stack, USER_STACK_BYTES, PAGE) # (block, ?n, PAGE) # L)"
    "block + ?n \<le> stack \<or> stack + USER_STACK_BYTES \<le> block"
    using kheap.two_allocs [OF heap g1 g2 a1 a2' a2(2)] by auto
  have "is_user_range block ?n pg = Some True"
    using mk mark_pages_check by (auto simp: mark_user_pages_def is_user_range_def split: option.splits)
  then have "is_user_range block ?n pg2 = Some True"
    using check_pages_opens [OF mark_user_pages_opens [OF mk2]] sm
    by (auto simp: is_user_range_def split: option.splits)
  then show ?thesis
    using two C(3) out rl s' sm prog by (intro exI [of _ block] exI [of _ stack] exI [of _ s1] exI [of _ s2]) (simp add: seg_byte_def)
qed

text \<open>the relocation of a dynamic segment whose table lies outside its targets stores at every
  target the image base plus the addend, and changes no other byte.
\<close>

theorem relocations_applied:
  assumes "dyn_scan (l_mem s) (wrap64 (base + p_vaddr ph)) (p_memsz ph div 16) (0, 0, 24) = (rela, 24 * length rs, 24)"
    and "rs \<noteq> []" and "rela_table (l_mem s) t rs" and "wrap64 (base + rela) = t" and "t + 24 * length rs \<le> 2 ^ 64"
    and "24 * length rs + 24 < 2 ^ 64" and "targets_ok base t (24 * length rs) rs"
  shows "\<exists>s'. apply_relocations base ph s = (Ret (), s') \<and>
    (\<forall>r \<in> set rs. mem64 (l_mem s') (wrap64 (base + fst r)) = wrap64 (base + snd r)) \<and>
    (\<forall>x. (\<forall>r \<in> set rs. x < wrap64 (base + fst r) \<or> wrap64 (base + fst r) + 8 \<le> x) \<longrightarrow> l_mem s' x = l_mem s x)"
proof -
  have "apply_relocations base ph s = rela_loop base rela (24 * length rs) 0 0 s"
    using assms(1,2) by (simp add: apply_relocations_def)
  moreover from rela_loop_run [OF assms(3) _ assms(5) _ assms(6,7), of rela 0] assms(4) obtain m where
    "rela_loop base rela (24 * length rs) 0 0 s = (Ret (), s\<lparr>l_mem := m\<rparr>)"
    "\<forall>r \<in> set rs. mem64 m (rela_target base r) = wrap64 (base + snd r)"
    "\<forall>x. (\<forall>r \<in> set rs. x < rela_target base r \<or> rela_target base r + 8 \<le> x) \<longrightarrow> m x = l_mem s x" by auto
  ultimately show ?thesis by (intro exI [of _ "s\<lparr>l_mem := m\<rparr>"]) (simp add: rela_target_def)
qed
section \<open>Witnesses\<close>

text \<open>An image with one segment of sixteen bytes, four of them in the file.\<close>

definition small_elf :: "byte list" where
  "small_elf = [0x7F, 0x45, 0x4C, 0x46] @ replicate 12 0 @ le_enc 2 3 @ replicate 6 0 @ le_enc 8 0x1000 @ le_enc 8 64 @
     replicate 14 0 @ le_enc 2 56 @ le_enc 2 1 @ replicate 6 0 @
     le_enc 4 1 @ le_enc 4 5 @ le_enc 8 120 @ le_enc 8 0x1000 @ le_enc 8 0x1000 @ le_enc 8 4 @ le_enc 8 16 @ le_enc 8 0x1000 @
     [1, 2, 3, 4]"

definition small_phdr :: phdr where
  "small_phdr = \<lparr>p_type = 1, p_offset = 120, p_vaddr = 0x1000, p_filesz = 4, p_memsz = 16\<rparr>"

text \<open>Page tables in which every entry is present and leads to table 0.\<close>

definition loop_tables :: "paging \<Rightarrow> bool" where
  "loop_tables p = (cr3 p = 0 \<and> (\<forall>a. PRESENT \<in> pte_flags (entries p a) \<and> pte_addr (entries p a) = 0))"

lemma loop_tables_walk: "loop_tables p \<Longrightarrow> \<exists>p'. mark_walk ls 0 v p = Some (True, p') \<and> loop_tables p'"
proof (induction ls arbitrary: p)
  case (Cons l ls)
  obtain shift huge where l: "l = (shift, huge)" by fastforce
  obtain a where a: "slot 0 shift v = Some a"
    by (simp add: slot_def phys_to_virt_def usz_def PMO_def)
  have q: "loop_tables (mark_entry a p)" using Cons.prems by (auto simp: loop_tables_def mark_entry_def Let_def)
  from Cons.IH [OF q] Cons.prems a q show ?case by (auto simp: l Let_def loop_tables_def)
qed simp

lemma loop_tables_pages: "loop_tables p \<Longrightarrow> \<exists>p'. mark_pages page n ok p = Some (ok, p') \<and> loop_tables p'"
proof (induction n arbitrary: page p)
  case (Suc n)
  from Suc.prems loop_tables_walk [OF Suc.prems, of LEVELS page] obtain q where
    "mark_one_page page p = Some (True, q)" "loop_tables q" by (auto simp: mark_one_page_def loop_tables_def)
  with Suc.IH [of q "page + PAGE"] show ?case by simp
qed simp

lemma loop_tables_user:
  assumes "loop_tables p" and "v + n + PAGE < 2 ^ 64"
  shows "\<exists>p'. mark_user_pages v n p = Some (True, p') \<and> loop_tables p'"
  using loop_tables_pages [OF assms(1)] assms(2) by (auto simp: mark_user_pages_def page_span_def Let_def)

lemma small_elf_bytes:
  "small_elf = [0x7F, 0x45, 0x4C, 0x46, 0, 0, 0, 0, 0, 0, 0, 0, 0, 0, 0, 0, 3, 0, 0, 0, 0, 0, 0, 0, 0, 0x10, 0, 0, 0, 0, 0, 0,
     64, 0, 0, 0, 0, 0, 0, 0, 0, 0, 0, 0, 0, 0, 0, 0, 0, 0, 0, 0, 0, 0, 56, 0, 1, 0, 0, 0, 0, 0, 0, 0,
     1, 0, 0, 0, 5, 0, 0, 0, 120, 0, 0, 0, 0, 0, 0, 0, 0, 16, 0, 0, 0, 0, 0, 0, 0, 16, 0, 0, 0, 0, 0, 0,
     4, 0, 0, 0, 0, 0, 0, 0, 16, 0, 0, 0, 0, 0, 0, 0, 0, 16, 0, 0, 0, 0, 0, 0, 1, 2, 3, 4]"
  by (simp add: small_elf_def le_enc_numeral replicate_num)

lemma small_elf_parse: "parse_image small_elf s = (Ret (0x1000, [small_phdr]), s)"
  by (simp add: parse_image_def small_elf_bytes small_phdr_def get_num_def rd_def sub_def bnd_def ET_DYN_def)

lemma small_elf_span: "image_span [small_phdr] (2 ^ 64 - 1, 0) = (0x1000, 0x1010)" "image_size (0x1000, 0x1010) = 4096"
  by (simp_all add: small_phdr_def PT_LOAD_def page_down_def PAGE_def sat_add_def image_size_def)

lemma small_elf_copy:
  assumes "wrap64 (base + 0x1000) + 4 < 2 ^ 64"
  shows "\<exists>s1. copy_segments small_elf base [small_phdr] s = (Ret (), s1) \<and>
    l_heap s1 = l_heap s \<and> l_pages s1 = l_pages s"
  using assms by (simp add: small_phdr_def PT_LOAD_def copy_segment_def Let_def write_mem_def bnd_def small_elf_bytes)

abbreviation HB :: nat where "HB \<equiv> 0x1000000 + PMO"

lemma small_elf_loads:
  assumes pages: "loop_tables (l_pages s)" and inv: "heap_inv HB (HB + HEAP_BYTES) [(HB, 16777200)] [] (l_heap s)"
  shows "\<exists>s'. load_user_elf small_elf s = (Ret \<lparr>prog_entry = HB + 4096, stack_top = HB + 77824\<rparr>, s')"
proof -
  have p: "(PAGE :: nat) = 2 ^ 12" by (simp add: PAGE_def)
  have off: "hdr_off PAGE = 4096" by (simp add: hdr_off_def up_def BLOCK_HEADER_def PAGE_def)
  have f1: "ff_alloc (hdr_off PAGE + 4096) [(HB, 16777200)] = Some ((HB, 8192), [(HB + 8192, 16769008)])"
    by (simp add: off take_block_def up_def PMO_def MIN_BLOCK_def Let_def)
  from alloc_some [OF inv p _ _ f1] obtain h1 where
    h1: "alloc_locked (l_heap s) 4096 PAGE = Some (HB + 4096, h1)"
    and inv1: "heap_inv HB (HB + HEAP_BYTES) [(HB + 8192, 16769008)] [(HB, 8192)] h1" by (auto simp: off)
  have f2: "\<exists>fs'. ff_alloc (hdr_off PAGE + USER_STACK_BYTES) [(HB + 8192, 16769008)] = Some ((HB + 8192, 69632), fs')"
    by (simp add: off take_block_def up_def PMO_def MIN_BLOCK_def Let_def USER_STACK_BYTES_def)
  then obtain fs' where f2: "ff_alloc (hdr_off PAGE + USER_STACK_BYTES) [(HB + 8192, 16769008)] = Some ((HB + 8192, 69632), fs')"
    by blast
  from alloc_some [OF inv1 p _ _ f2] obtain h2 where
    h2: "alloc_locked h1 USER_STACK_BYTES PAGE = Some (HB + 12288, h2)"
    by (auto simp: off USER_STACK_BYTES_def)
  let ?b = "HB + 4096"
  have w: "wrap64 (wrapping_sub ?b 0x1000 + 0x1000) + 4 < 2 ^ 64"
    by (simp add: wrap64_def wrapping_sub_def PMO_def)
  obtain s1 where s1: "copy_segments small_elf (wrapping_sub ?b 0x1000) [small_phdr] (s\<lparr>l_heap := h1\<rparr>) = (Ret (), s1)"
    and s1h: "l_heap s1 = h1" "l_pages s1 = l_pages s"
    using small_elf_copy [OF w, of "s\<lparr>l_heap := h1\<rparr>"] by auto
  obtain pg where pg: "mark_user_pages ?b 4096 (l_pages s) = Some (True, pg)" "loop_tables pg"
    using loop_tables_user [OF pages, of ?b 4096] by (auto simp: PMO_def PAGE_def)
  have stk: "HB + 12288 + USER_STACK_BYTES + PAGE < 2 ^ 64" by (simp add: PMO_def PAGE_def USER_STACK_BYTES_def)
  obtain pg2 where pg2: "mark_user_pages (HB + 12288) USER_STACK_BYTES pg = Some (True, pg2)"
    using loop_tables_user [OF pg(2) stk] by auto
  have "place_image small_elf [small_phdr] 0x1000 4096 s = (Ret ?b, s1\<lparr>l_pages := pg\<rparr>)"
    using h1 s1 s1h pg(1)
    by (simp add: place_image_def heap_alloc_def bnd_def mark_pages_op_def Let_def small_phdr_def PT_DYNAMIC_def)
  moreover have "new_stack (s1\<lparr>l_pages := pg\<rparr>) = (Ret (HB + 12288), s1\<lparr>l_pages := pg2, l_heap := h2\<rparr>)"
    using h2 s1h pg2 stk by (simp add: new_stack_def heap_alloc_def bnd_def mark_pages_op_def)
  ultimately show ?thesis
    unfolding load_user_elf_def
    by (subst bnd_Ret [where m = "parse_image small_elf" and s = s and s' = s and a = "(0x1000, [small_phdr])"])
      (simp_all add: small_elf_parse small_elf_span [simplified] Let_def bnd_def
        PAGE_def wrap64_def wrapping_sub_def PMO_def USER_STACK_BYTES_def)
qed

theorem load_places_image_witness:
  "\<exists>(prog :: loaded_program) (s' :: loader) block stack. heap_valid HB (HB + HEAP_BYTES) (l_heap s')
     [(stack, USER_STACK_BYTES, PAGE), (block, image_size (0x1000, 0x1010), PAGE)] \<and>
   prog_entry prog = wrap64 (wrapping_sub block 0x1000 + 0x1000) \<and>
   is_user_range block (image_size (0x1000, 0x1010)) (l_pages s') = Some True"
proof -
  obtain h0 where h0: "heap_inv HB (HB + HEAP_BYTES) [(HB, 16777200)] [] h0" using fresh_heap by blast
  let ?p = "\<lparr>cr3 = 0, entries = (\<lambda>a. \<lparr>pte_addr = 0, pte_flags = {PRESENT}\<rparr>)\<rparr>"
  let ?s = "\<lparr>l_heap = h0, l_mem = (\<lambda>a. 0), l_pages = ?p\<rparr>"
  obtain s' where run: "load_user_elf small_elf ?s = (Ret \<lparr>prog_entry = HB + 4096, stack_top = HB + 77824\<rparr>, s')"
    using small_elf_loads [of ?s] h0 by (auto simp: loop_tables_def)
  have v: "heap_valid HB (HB + HEAP_BYTES) (l_heap ?s) []" using h0 by (auto simp: heap_valid_def)
  have sp: "image_span [small_phdr] (2 ^ 64 - 1, 0) = (0x1000, 0x1010)" by (rule small_elf_span(1))
  have lim: "HB + HEAP_BYTES < 2 ^ 64" by (simp add: PMO_def HEAP_BYTES_def)
  have wf: "\<forall>ph \<in> set [small_phdr]. seg_wf ph" "sorted_wrt seg_disj [small_phdr]"
    by (simp_all add: seg_wf_def small_phdr_def)
  from load_places_image [OF run small_elf_parse sp wf v lim] show ?thesis
    by blast
qed

lemma mem64_put_bytes:
  assumes "i + 8 \<le> length bs" and "a + length bs \<le> 2 ^ 64"
  shows "mem64 (put_bytes a bs m) (a + i) = rd 8 bs i"
proof -
  have "map (\<lambda>k. put_bytes a bs m (wrap64 (a + i + k))) [0..<8] = map (\<lambda>k. bs ! (i + k)) [0..<8]"
    using assms by (intro map_cong) (auto simp: wrap64_def put_bytes_def)
  also have "\<dots> = sub i 8 bs"
    using assms(1) by (intro nth_equalityI) (auto simp: sub_def)
  finally show ?thesis by (simp add: mem64_def rd_def)
qed

text \<open>A dynamic table with one relocation behind it.\<close>

definition one_rela :: "byte list" where
  "one_rela = le_enc 8 7 @ le_enc 8 0x130 @ le_enc 8 8 @ le_enc 8 24 @ le_enc 8 0 @ le_enc 8 0 @
     le_enc 8 0x300 @ le_enc 8 8 @ le_enc 8 0x40"

lemma one_rela_mem:
  "i + 8 \<le> 72 \<Longrightarrow> mem64 (put_bytes 0x10100 one_rela m) (0x10100 + i) = rd 8 one_rela i"
  by (rule mem64_put_bytes) (simp_all add: one_rela_def)

lemma one_rela_values:
  "rd 8 one_rela 0 = 7" "rd 8 one_rela 8 = 0x130" "rd 8 one_rela 16 = 8" "rd 8 one_rela 24 = 24" "rd 8 one_rela 32 = 0"
  "rd 8 one_rela 40 = 0" "rd 8 one_rela 48 = 0x300" "rd 8 one_rela 56 = 8" "rd 8 one_rela 64 = 0x40"
  by (simp_all add: one_rela_def le_enc_numeral rd_def sub_def)

theorem relocations_applied_witness:
  "\<exists>(s :: loader) s' (ph :: phdr). apply_relocations 0x10000 ph s = (Ret (), s') \<and> mem64 (l_mem s') 0x10300 = 0x10040"
proof -
  let ?s = "\<lparr>l_heap = undefined, l_mem = put_bytes 0x10100 one_rela (\<lambda>a. 0), l_pages = undefined\<rparr>"
  let ?ph = "\<lparr>p_type = PT_DYNAMIC, p_offset = 0, p_vaddr = 0x100, p_filesz = 48, p_memsz = 48\<rparr>"
  let ?rs = "[(0x300, 0x40)] :: (nat \<times> nat) list"
  note m = one_rela_mem [where m = "\<lambda>a. 0"]
  note m' = m [of 0, simplified] m [of 8, simplified] m [of 16, simplified] m [of 24, simplified] m [of 32, simplified]
    m [of 48, simplified] m [of 56, simplified] m [of 64, simplified]
  have d: "dyn_scan (l_mem ?s) (wrap64 (0x10000 + p_vaddr ?ph)) (p_memsz ?ph div 16) (0, 0, 24) = (0x130, 24 * length ?rs, 24)"
    by (simp add: numeral_3_eq_3 wrap64_def Let_def m' one_rela_values DT_NULL_def DT_RELA_def DT_RELASZ_def DT_RELAENT_def)
  have t: "rela_table (l_mem ?s) 0x10130 ?rs" by (simp add: m' one_rela_values R_X86_64_RELATIVE_def)
  have ok: "targets_ok 0x10000 0x10130 (24 * length ?rs) ?rs" by (simp add: targets_ok_def rela_target_def wrap64_def)
  from relocations_applied [OF d _ t _ _ _ ok] show ?thesis by (auto simp: wrap64_def)
qed
text \<open>
  A segment with more bytes in the file than in memory is copied whole: nothing compares the two
  sizes, although only the memory size enters the size of the block.
\<close>

lemma copy_ignores_memsz:
  assumes "copy_segment blob base ph s = (Ret (), s')" and "p_memsz ph \<le> p_filesz ph" and "k < p_filesz ph"
  shows "l_mem s' (wrap64 (base + p_vaddr ph) + k) = blob ! (p_offset ph + k)"
  using assms by (auto simp: copy_segment_def Let_def write_mem_def put_bytes_def sub_def split: if_splits)

end
