(* ===== verification/Crc.thy ===== *)
theory Crc
  imports Prelude
begin

text \<open>
  The CRC32C of \<open>kernel/src/crc.rs\<close>, bit by bit as the code computes it, and why a stored
  checksum exposes damage: one step is injective, so any change of one byte changes the sum.
\<close>

definition POLY :: u32 where "POLY = 0x82F63B78"

definition crc_step :: "u32 \<Rightarrow> u32" where
  "crc_step c = (if c AND 1 \<noteq> 0 then drop_bit 1 c XOR POLY else drop_bit 1 c)"

definition crc_byte :: "u32 \<Rightarrow> byte \<Rightarrow> u32" where
  "crc_byte c b = (crc_step ^^ 8) (c XOR ucast b)"

definition crc32c :: "u32 \<Rightarrow> byte list \<Rightarrow> u32" where
  "crc32c init data = foldl crc_byte init data"

lemma crc32c_append: "crc32c i (xs @ ys) = crc32c (crc32c i xs) ys"
  by (simp add: crc32c_def)

lemma and_one_bit: "(c::u32) AND 1 \<noteq> 0 \<longleftrightarrow> bit c 0"
  by (simp add: and_one_eq bit_0 odd_iff_mod_2_eq_one)

lemma crc_step_bit:
  "n < 32 \<Longrightarrow> bit (crc_step c) n = ((n < 31 \<and> bit c (n + 1)) \<noteq> (bit c 0 \<and> bit POLY n))"
proof -
  assume n: "n < 32"
  have "bit (drop_bit 1 c) n = (n < 31 \<and> bit c (n + 1))"
    using n by (auto simp: bit_drop_bit_eq dest: bit_imp_le_length)
  then show ?thesis using n unfolding crc_step_def and_one_bit by (auto simp: bit_xor_iff)
qed

lemma poly_top: "bit POLY 31"
  by (simp add: POLY_def)

lemma crc_step_inj: "crc_step c = crc_step c' \<Longrightarrow> c = c'"
proof -
  assume eq: "crc_step c = crc_step c'"
  have b: "((n < 31 \<and> bit c (n + 1)) \<noteq> (bit c 0 \<and> bit POLY n)) =
      ((n < 31 \<and> bit c' (n + 1)) \<noteq> (bit c' 0 \<and> bit POLY n))" if "n < 32" for n
    using crc_step_bit [OF that, of c] crc_step_bit [OF that, of c'] eq by simp
  have b0: "bit c 0 = bit c' 0" using b [of 31] poly_top by simp
  have "bit c n = bit c' n" if "n < 32" for n
  proof (cases n)
    case 0
    then show ?thesis using b0 by simp
  next
    case (Suc m)
    then show ?thesis using b [of m] b0 that by auto
  qed
  then show ?thesis by (intro bit_word_eqI) simp
qed

lemma crc_steps_inj: "(crc_step ^^ n) c = (crc_step ^^ n) c' \<Longrightarrow> c = c'"
  by (induction n) (auto dest: crc_step_inj)

lemma xor_cancel:
  assumes "(a::u32) XOR c = b XOR c"
  shows "a = b"
proof -
  have "(a XOR c) XOR c = (b XOR c) XOR c" using assms by simp
  then show ?thesis by (simp only: xor.assoc xor_self_eq xor.right_neutral)
qed

lemma crc_byte_inj: "crc_byte c b = crc_byte c' b \<Longrightarrow> c = c'"
  unfolding crc_byte_def by (blast dest: crc_steps_inj xor_cancel)

lemma crc_byte_inj2: "crc_byte c b = crc_byte c b' \<Longrightarrow> b = b'"
proof -
  assume "crc_byte c b = crc_byte c b'"
  then have "c XOR ucast b = c XOR ucast b'" unfolding crc_byte_def by (rule crc_steps_inj)
  then have "(ucast b :: u32) = ucast b'" using xor_cancel [of "ucast b" c "ucast b'"] by (simp add: xor.commute)
  then have "unat (ucast b :: u32) = unat (ucast b' :: u32)" by simp
  moreover have "unat (ucast x :: u32) = unat x" for x :: byte
  proof -
    have "unat x < 2 ^ 32" by (rule less_trans [OF unat_byte_less]) simp
    then show ?thesis by (simp add: unsigned_ucast_eq take_bit_nat_eq_self)
  qed
  ultimately show ?thesis by (simp add: word_unat_eq_iff)
qed

lemma crc32c_inj: "crc32c c xs = crc32c c' xs \<Longrightarrow> c = c'"
  by (induction xs arbitrary: c c') (auto simp: crc32c_def dest: crc_byte_inj)

text \<open>a change of any single byte of the data changes the checksum.\<close>

theorem crc_detects_byte_change:
  assumes "crc32c i (xs @ [b] @ ys) = crc32c i (xs @ [b'] @ ys)"
  shows "b = b'"
proof -
  have "crc32c (crc_byte (crc32c i xs) b) ys = crc32c (crc_byte (crc32c i xs) b') ys"
    using assms by (simp add: crc32c_def)
  then show ?thesis using crc32c_inj crc_byte_inj2 by blast
qed

text \<open>The entry for byte 1 of the usual lookup table.\<close>

lemma pow8: "(f ^^ 8) x = f (f (f (f (f (f (f (f x)))))))"
  by (simp add: eval_nat_numeral)

lemma crc_table_1: "crc32c 0 [1] = 0xF26B8303"
proof -
  have "crc_step 1 = POLY" "crc_step 0x82F63B78 = 0x417B1DBC" "crc_step 0x417B1DBC = 0x20BD8EDE"
    "crc_step 0x20BD8EDE = 0x105EC76F" "crc_step 0x105EC76F = 0x8AD958CF" "crc_step 0x8AD958CF = 0xC79A971F"
    "crc_step 0xC79A971F = 0xE13B70F7" "crc_step 0xE13B70F7 = 0xF26B8303"
    by (simp_all add: crc_step_def POLY_def)
  then show ?thesis by (simp add: crc32c_def crc_byte_def pow8 POLY_def)
qed

theorem crc_detects_byte_change_witness:
  "crc32c 0 ([1] @ [2] @ [3]) = crc32c 0 ([1] @ [2] @ [3]) \<and> (2::byte) = 2"
  using crc_detects_byte_change [of 0 "[1]" 2 "[3]" 2] by simp

end
