(* ===== verification/Disk.thy ===== *)
theory Disk
  imports Crc
begin

text \<open>
  The data disk as the file systems reach it (\<open>kernel/src/fs.rs\<close>) and the state of the file
  system layer: the statics of \<open>fs.rs\<close>, \<open>fat.rs\<close> and \<open>ext4.rs\<close> are the fields of one
  record.  A disk is a function from sector numbers to sectors; reads and writes may be
  refused by the device, and \<open>power\<close> sector writes remain until the power fails, so that
  every crash point of an operation is a value of that field.
\<close>

section \<open>State\<close>

datatype fs_err = NoDevice | NotFormatted | Unsupported | Io | NotFound | NotDir | IsDir | Exists
  | BadName | TooBig | NoSpace | NotEmpty

definition err_str :: "fs_err \<Rightarrow> string" where
  "err_str e = (case e of
     NoDevice \<Rightarrow> ''no data disk found''
   | NotFormatted \<Rightarrow> ''data disk is not formatted (run '' @ [CHR 0x22] @ ''mkfs'' @ [CHR 0x22] @ '')''
   | Unsupported \<Rightarrow> ''unsupported filesystem features''
   | Io \<Rightarrow> ''I/O error''
   | NotFound \<Rightarrow> ''no such file or directory''
   | NotDir \<Rightarrow> ''not a directory''
   | IsDir \<Rightarrow> ''is a directory''
   | Exists \<Rightarrow> ''already exists''
   | BadName \<Rightarrow> ''invalid name''
   | TooBig \<Rightarrow> ''too many path components or file too big''
   | NoSpace \<Rightarrow> ''out of space''
   | NotEmpty \<Rightarrow> ''directory not empty'')"

text \<open>The fields of \<open>AtaDevice\<close> that the file systems look at.\<close>

record ata_device =
  present :: bool
  dev_sectors :: nat

datatype fs_kind = Fat | Ext4

record cwd =
  parts :: "byte list list"
  n_parts :: nat

record fat_info =
  sec_per_clus :: nat
  rsvc :: nat
  num_fats :: nat
  fat_size :: nat
  root_clus :: nat
  data_start :: nat
  cluster_count :: nat

record ext_info =
  e_groups :: nat
  e_total_blocks :: nat
  e_has_csum :: bool

record jbd =
  j_base :: nat
  j_start :: nat
  j_seq :: nat
  j_active :: bool
  j_pend :: "(nat \<times> nat) list"

record fsys =
  devs :: "ata_device list"
  disk :: "nat \<Rightarrow> byte list"
  rd_ok :: "nat \<Rightarrow> bool"
  wr_ok :: "nat \<Rightarrow> bool"
  power :: nat
  fs_base :: nat
  mount_st :: "fs_kind option"
  cwd_st :: cwd
  fat_st :: "fat_info option"
  ext_st :: "ext_info option"
  jbd_st :: "jbd option"
  tty :: "uchar list"

type_synonym 'a fsop = "(fsys, fs_err, 'a) kernel"

definition SECTOR_SIZE :: nat where "SECTOR_SIZE = 512"
definition MAX_DEPTH :: nat where "MAX_DEPTH = 16"

section \<open>Sectors\<close>

fun best_device :: "ata_device option \<Rightarrow> ata_device list \<Rightarrow> ata_device option" where
  "best_device best [] = best"
| "best_device best (d # ds) =
    (if \<not> present d then best_device best ds
     else if (case best of None \<Rightarrow> True | Some b \<Rightarrow> dev_sectors b < dev_sectors d)
          then best_device (Some d) ds
     else best_device best ds)"

definition data_device :: "fsys \<Rightarrow> ata_device option" where
  "data_device s = best_device None (devs s)"

definition set_base :: "nat \<Rightarrow> unit fsop" where
  "set_base b = modify (\<lambda>s. s\<lparr>fs_base := b\<rparr>)"

text \<open>
  The device answers a request inside its size unless the sector is bad; adding the base of
  the mounted file system may overflow, which is a panic.  \<open>None\<close> and \<open>False\<close> are the
  \<open>false\<close> of the code.
\<close>

definition raw_read :: "nat \<Rightarrow> byte list option fsop" where
  "raw_read lba = (\<lambda>s. case data_device s of
     None \<Rightarrow> (Ret None, s)
   | Some d \<Rightarrow>
      (let a = fs_base s + lba in
       if 2 ^ 32 \<le> a then (Panic, s)
       else if a < dev_sectors d \<and> rd_ok s a then (Ret (Some (disk s a)), s)
       else (Ret None, s)))"

definition raw_write :: "nat \<Rightarrow> byte list \<Rightarrow> bool fsop" where
  "raw_write lba b = (\<lambda>s. case data_device s of
     None \<Rightarrow> (Ret False, s)
   | Some d \<Rightarrow>
      (let a = fs_base s + lba in
       if 2 ^ 32 \<le> a then (Panic, s)
       else if a < dev_sectors d \<and> wr_ok s a then
         (if power s = 0 then (PowerOff, s)
          else (Ret True, s\<lparr>disk := (disk s)(a := b), power := power s - 1\<rparr>))
       else (Ret False, s)))"

text \<open>A sector the device serves, counted from the base.\<close>

definition served :: "fsys \<Rightarrow> nat \<Rightarrow> bool" where
  "served s lba = (\<exists>d. data_device s = Some d \<and> fs_base s + lba < dev_sectors d \<and>
     fs_base s + lba < 2 ^ 32 \<and> rd_ok s (fs_base s + lba) \<and> wr_ok s (fs_base s + lba))"

lemma raw_read_served: "served s lba \<Longrightarrow> raw_read lba s = (Ret (Some (disk s (fs_base s + lba))), s)"
  by (auto simp: served_def raw_read_def Let_def)

lemma raw_write_served:
  "served s lba \<Longrightarrow> raw_write lba b s =
     (if power s = 0 then (PowerOff, s)
      else (Ret True, s\<lparr>disk := (disk s)(fs_base s + lba := b), power := power s - 1\<rparr>))"
  by (auto simp: served_def raw_write_def Let_def)

text \<open>A state that differs in the sectors, the power and the journal only.\<close>

definition same_hw :: "fsys \<Rightarrow> fsys \<Rightarrow> bool" where
  "same_hw s s' = (devs s' = devs s \<and> rd_ok s' = rd_ok s \<and> wr_ok s' = wr_ok s \<and> fs_base s' = fs_base s)"

lemma served_cong: "same_hw s s' \<Longrightarrow> served s' lba = served s lba"
  by (simp add: same_hw_def served_def data_device_def)

lemma same_hw_refl [simp]: "same_hw s s"
  by (simp add: same_hw_def)

lemma same_hw_upd [simp]:
  "same_hw s (s\<lparr>disk := d\<rparr>)" "same_hw s (s\<lparr>power := p\<rparr>)" "same_hw s (s\<lparr>jbd_st := j\<rparr>)"
  "same_hw s (s\<lparr>disk := d, power := p\<rparr>)" "same_hw s (s\<lparr>disk := d, power := p, jbd_st := j\<rparr>)"
  by (simp_all add: same_hw_def)

section \<open>Blocks of the ext4 layer\<close>

definition BLOCK :: nat where "BLOCK = 4096"
definition SECTORS_PER_BLOCK :: nat where "SECTORS_PER_BLOCK = 8"

text \<open>The loops of \<open>read_block_raw\<close> and \<open>write_block_raw\<close> from sector \<open>i\<close> on.\<close>

fun read_secs :: "nat \<Rightarrow> nat \<Rightarrow> nat \<Rightarrow> byte list option fsop" where
  "read_secs blk i 0 = ret (Some [])"
| "read_secs blk i (Suc n) =
    bnd (guard_panic (blk * SECTORS_PER_BLOCK + i < 2 ^ 32)) (\<lambda>_.
    bnd (raw_read (blk * SECTORS_PER_BLOCK + i)) (\<lambda>r. case r of
       None \<Rightarrow> ret None
     | Some sec \<Rightarrow> bnd (read_secs blk (i + 1) n) (\<lambda>r'. ret (map_option (\<lambda>x. sec @ x) r'))))"

fun write_secs :: "nat \<Rightarrow> nat \<Rightarrow> nat \<Rightarrow> byte list \<Rightarrow> bool fsop" where
  "write_secs blk i 0 b = ret True"
| "write_secs blk i (Suc n) b =
    bnd (guard_panic (blk * SECTORS_PER_BLOCK + i < 2 ^ 32)) (\<lambda>_.
    bnd (raw_write (blk * SECTORS_PER_BLOCK + i) (sub (i * 512) 512 b)) (\<lambda>ok.
      if ok then write_secs blk (i + 1) n b else ret False))"

definition read_block_raw :: "nat \<Rightarrow> byte list option fsop" where
  "read_block_raw blk = read_secs blk 0 SECTORS_PER_BLOCK"

definition write_block_raw :: "nat \<Rightarrow> byte list \<Rightarrow> bool fsop" where
  "write_block_raw blk b = write_secs blk 0 SECTORS_PER_BLOCK b"

subsection \<open>Block contents and torn writes\<close>

text \<open>
  \<open>blk_at s0 d b\<close> is block \<open>b\<close> of the disk \<open>d\<close> when the file system starts at sector \<open>s0\<close>;
  \<open>put_blk s0 k (b, x) d\<close> is the disk after the first \<open>k\<close> sectors of \<open>x\<close> reached block \<open>b\<close>.
\<close>

definition blk_at :: "nat \<Rightarrow> (nat \<Rightarrow> byte list) \<Rightarrow> nat \<Rightarrow> byte list" where
  "blk_at s0 d b = concat (map (\<lambda>i. d (s0 + 8 * b + i)) [0..<8])"

definition put_blk :: "nat \<Rightarrow> nat \<Rightarrow> nat \<times> byte list \<Rightarrow> (nat \<Rightarrow> byte list) \<Rightarrow> nat \<Rightarrow> byte list" where
  "put_blk s0 k w d = (\<lambda>a. if s0 + 8 * fst w \<le> a \<and> a < s0 + 8 * fst w + k
     then sub ((a - (s0 + 8 * fst w)) * 512) 512 (snd w) else d a)"

text \<open>Block \<open>b\<close> can be read and written whole.\<close>

definition blk_ok :: "fsys \<Rightarrow> nat \<Rightarrow> bool" where
  "blk_ok s b = (\<forall>i < 8. served s (8 * b + i) \<and> 8 * b + i < 2 ^ 32)"

definition sectors_ok :: "(nat \<Rightarrow> byte list) \<Rightarrow> bool" where
  "sectors_ok d = (\<forall>a. length (d a) = 512)"

lemma blk_ok_cong: "same_hw s s' \<Longrightarrow> blk_ok s' b = blk_ok s b"
  by (simp add: blk_ok_def served_cong)

lemma read_secs_ok:
  assumes "blk_ok s b" and "i + n = 8"
  shows "read_secs b i n s = (Ret (Some (concat (map (\<lambda>k. disk s (fs_base s + 8 * b + k)) [i..<8]))), s)"
  using assms(2)
proof (induction n arbitrary: i)
  case 0
  then show ?case by simp
next
  case (Suc n)
  have sv: "served s (8 * b + i)" "8 * b + i < 2 ^ 32" using assms(1) Suc.prems by (auto simp: blk_ok_def)
  have lb: "b * SECTORS_PER_BLOCK + i = 8 * b + i" by (simp add: SECTORS_PER_BLOCK_def)
  have IH: "read_secs b (i + 1) n s =
      (Ret (Some (concat (map (\<lambda>k. disk s (fs_base s + 8 * b + k)) [i + 1..<8]))), s)"
    using Suc by simp
  have "[i..<8] = i # [i + 1..<8]" using Suc.prems by (simp add: upt_rec)
  then show ?case
    unfolding read_secs.simps lb using sv IH raw_read_served [OF sv(1)]
    by (simp add: bnd_def add.assoc)
qed

lemma read_block_raw_ok: "blk_ok s b \<Longrightarrow> read_block_raw b s = (Ret (Some (blk_at (fs_base s) (disk s) b)), s)"
  unfolding read_block_raw_def SECTORS_PER_BLOCK_def
  by (subst read_secs_ok) (simp_all add: blk_at_def)

lemma put_blk_step:
  "(put_blk s0 i w d)(s0 + 8 * fst w + i := sub (i * 512) 512 (snd w)) = put_blk s0 (Suc i) w d"
  by (rule ext) (auto simp: put_blk_def)

lemma write_secs_ok:
  assumes "blk_ok s b" and "i + n = 8" and "disk s = put_blk (fs_base s) i (b, x) d"
  shows "write_secs b i n x s =
    (if n \<le> power s
     then (Ret True, s\<lparr>disk := put_blk (fs_base s) 8 (b, x) d, power := power s - n\<rparr>)
     else (PowerOff, s\<lparr>disk := put_blk (fs_base s) (i + power s) (b, x) d, power := 0\<rparr>))"
  using assms
proof (induction n arbitrary: i s)
  case 0
  then show ?case by simp
next
  case (Suc n)
  have sv: "served s (8 * b + i)" "8 * b + i < 2 ^ 32" using Suc.prems(1,2) by (auto simp: blk_ok_def)
  have lb: "b * SECTORS_PER_BLOCK + i = 8 * b + i" by (simp add: SECTORS_PER_BLOCK_def)
  let ?s = "s\<lparr>disk := (disk s)(fs_base s + (8 * b + i) := sub (i * 512) 512 x), power := power s - 1\<rparr>"
  show ?case
  proof (cases "power s = 0")
    case True
    then show ?thesis
      unfolding write_secs.simps lb using sv raw_write_served [OF sv(1)] Suc.prems(3)
      by (simp add: bnd_def)
  next
    case False
    have d': "disk ?s = put_blk (fs_base ?s) (i + 1) (b, x) d"
      using put_blk_step [of "fs_base s" i "(b, x)" d] Suc.prems(3) by (simp add: add.assoc)
    have bo: "blk_ok ?s b" using Suc.prems(1) by (subst blk_ok_cong [of s]) simp_all
    have IH: "write_secs b (i + 1) n x ?s =
      (if n \<le> power ?s
       then (Ret True, ?s\<lparr>disk := put_blk (fs_base ?s) 8 (b, x) d, power := power ?s - n\<rparr>)
       else (PowerOff, ?s\<lparr>disk := put_blk (fs_base ?s) (i + 1 + power ?s) (b, x) d, power := 0\<rparr>))"
      using Suc.IH [OF bo _ d'] Suc.prems(2) by simp
    have "write_secs b i (Suc n) x s = write_secs b (i + 1) n x ?s"
      unfolding write_secs.simps lb using sv raw_write_served [OF sv(1)] False
      by (simp add: bnd_def)
    then show ?thesis using IH False by auto
  qed
qed

lemma put_blk_0: "put_blk s0 0 w d = d"
  by (rule ext) (auto simp: put_blk_def)

lemma write_block_raw_ok:
  assumes "blk_ok s b"
  shows "write_block_raw b x s =
    (if 8 \<le> power s
     then (Ret True, s\<lparr>disk := put_blk (fs_base s) 8 (b, x) (disk s), power := power s - 8\<rparr>)
     else (PowerOff, s\<lparr>disk := put_blk (fs_base s) (power s) (b, x) (disk s), power := 0\<rparr>))"
  unfolding write_block_raw_def SECTORS_PER_BLOCK_def
  using write_secs_ok [OF assms, of 0 8 x "disk s"] by (simp add: put_blk_0)

lemma sectors_ok_put: "sectors_ok d \<Longrightarrow> length (snd w) = 4096 \<Longrightarrow> k \<le> 8 \<Longrightarrow> sectors_ok (put_blk s0 k w d)"
  by (auto simp: sectors_ok_def put_blk_def)

lemma blk_at_length: "sectors_ok d \<Longrightarrow> length (blk_at s0 d b) = 4096"
  by (simp add: blk_at_def sectors_ok_def upt_rec)

lemma blk_at_put_other: "b \<noteq> fst w \<Longrightarrow> k \<le> 8 \<Longrightarrow> blk_at s0 (put_blk s0 k w d) b = blk_at s0 d b"
  unfolding blk_at_def
  by (intro arg_cong [where f = concat] map_cong) (auto simp: put_blk_def)

lemma blk_at_put_same:
  assumes "length x = 4096"
  shows "blk_at s0 (put_blk s0 8 (b, x) d) b = x"
proof -
  have "blk_at s0 (put_blk s0 8 (b, x) d) b = concat (map (\<lambda>i. sub (i * 512) 512 x) [0..<8])"
    unfolding blk_at_def by (intro arg_cong [where f = concat] map_cong) (auto simp: put_blk_def)
  also have "\<dots> = concat (map (\<lambda>i. take 512 (drop (i * 512) x)) [0..<8])" by (simp add: sub_def)
  also have "\<dots> = take (8 * 512) x"
    using concat_pieces [of 512 x 8] by simp
  finally show ?thesis using assms by simp
qed

text \<open>The first sector of a block survives unless it is rewritten.\<close>

lemma blk_at_hd: "sectors_ok d \<Longrightarrow> i + n \<le> 512 \<Longrightarrow> sub i n (blk_at s0 d b) = sub i n (d (s0 + 8 * b))"
  by (simp add: blk_at_def sectors_ok_def sub_def upt_rec)

lemma rd_blk_hd: "sectors_ok d \<Longrightarrow> i + n \<le> 512 \<Longrightarrow> rd n (blk_at s0 d b) i = rd n (d (s0 + 8 * b)) i"
  by (simp add: rd_def blk_at_hd)

end
