(* ===== verification/Paths.thy ===== *)
theory Paths
  imports Disk
begin

text \<open>
  Path strings (\<open>kernel/src/fs.rs\<close>; \<open>fat.rs\<close> and \<open>ext4.rs\<close> carry copies of the same
  helpers), the formatting done by \<open>println!\<close>, and the small monadic glue the file systems
  share.  A path is the list of its scalar values.
\<close>

section \<open>Components\<close>

abbreviation SLASH :: uchar where "SLASH \<equiv> 47"
abbreviation DOT :: uchar where "DOT \<equiv> 46"

definition strip_slashes :: "uchar list \<Rightarrow> uchar list" where
  "strip_slashes p = dropWhile (\<lambda>c. c = SLASH) p"

definition pop_comp :: "uchar list \<Rightarrow> (uchar list \<times> uchar list) option" where
  "pop_comp p = (let q = strip_slashes p in
     if q = [] then None else Some (takeWhile (\<lambda>c. c \<noteq> SLASH) q, dropWhile (\<lambda>c. c \<noteq> SLASH) q))"

fun last_slash :: "nat \<Rightarrow> uchar list \<Rightarrow> nat option \<Rightarrow> nat option" where
  "last_slash i [] r = r"
| "last_slash i (c # cs) r = last_slash (i + 1) cs (if c = SLASH then Some i else r)"

definition split_parent :: "uchar list \<Rightarrow> uchar list \<times> uchar list" where
  "split_parent path = (case last_slash 0 path None of
     Some i \<Rightarrow> (take i path, drop (i + 1) path)
   | None \<Rightarrow> ([], path))"

lemma strip_slashes_hd: "strip_slashes p = c # q \<Longrightarrow> c \<noteq> SLASH"
  using hd_dropWhile [of "\<lambda>c. c = SLASH" p] by (auto simp: strip_slashes_def)

lemma pop_comp_less: "pop_comp p = Some (c, t) \<Longrightarrow> length t < length p"
proof -
  assume p: "pop_comp p = Some (c, t)"
  then obtain x q where q: "strip_slashes p = x # q"
    by (cases "strip_slashes p") (auto simp: pop_comp_def)
  then have t: "t = dropWhile (\<lambda>c. c \<noteq> SLASH) (x # q)" using p by (simp add: pop_comp_def)
  have "x \<noteq> SLASH" by (rule strip_slashes_hd [OF q])
  then have "length t \<le> length q" using t by (simp add: length_dropWhile_le)
  moreover have "length (x # q) \<le> length p"
    using q length_dropWhile_le [of "\<lambda>c. c = SLASH" p] by (simp add: strip_slashes_def)
  ultimately show ?thesis by simp
qed

lemma pop_comp_comp:
  assumes "pop_comp p = Some (c, t)"
  shows "c \<noteq> []" and "SLASH \<notin> set c"
proof -
  obtain x q where q: "strip_slashes p = x # q"
    using assms by (cases "strip_slashes p") (auto simp: pop_comp_def)
  have x: "x \<noteq> SLASH" by (rule strip_slashes_hd [OF q])
  then show "c \<noteq> []" using assms q by (auto simp: pop_comp_def)
  have "c = takeWhile (\<lambda>c. c \<noteq> SLASH) (x # q)" using assms q by (simp add: pop_comp_def)
  then show "SLASH \<notin> set c" by (auto dest: set_takeWhileD)
qed

text \<open>The list of components, in order.\<close>

function comps :: "uchar list \<Rightarrow> uchar list list" where
  "comps p = (case pop_comp p of None \<Rightarrow> [] | Some (c, t) \<Rightarrow> c # comps t)"
  by pat_completeness auto
termination by (relation "measure length") (auto simp: pop_comp_less)

declare comps.simps [simp del]

lemma last_slash_none: "SLASH \<notin> set p \<Longrightarrow> last_slash i p r = r"
  by (induction p arbitrary: i r) auto

lemma split_parent_plain: "SLASH \<notin> set p \<Longrightarrow> split_parent p = ([], p)"
  by (simp add: split_parent_def last_slash_none)

lemma last_slash_append: "last_slash i (p @ q) r = last_slash (i + length p) q (last_slash i p r)"
  by (induction p arbitrary: i r) (simp_all add: add.assoc)

lemma split_parent_slash: "SLASH \<notin> set leaf \<Longrightarrow> split_parent (dir @ SLASH # leaf) = (dir, leaf)"
  by (simp add: split_parent_def last_slash_append last_slash_none)

section \<open>Text\<close>

definition chars :: "string \<Rightarrow> uchar list" where
  "chars s = map of_char s"

definition bytes :: "string \<Rightarrow> byte list" where
  "bytes s = map (\<lambda>c. of_nat (of_char c)) s"

definition upper :: "byte \<Rightarrow> byte" where
  "upper b = (if 97 \<le> b \<and> b \<le> 122 then b - 32 else b)"

definition lower :: "byte \<Rightarrow> byte" where
  "lower b = (if 65 \<le> b \<and> b \<le> 90 then b + 32 else b)"

lemma upper_idem [simp]: "upper (upper b) = upper b"
  by (auto simp: upper_def word_le_nat_alt unat_sub_if_size)

fun dec :: "nat \<Rightarrow> uchar list" where
  "dec n = (if n < 10 then [48 + n] else dec (n div 10) @ [48 + n mod 10])"

declare dec.simps [simp del]

text \<open>\<open>{:<n}\<close> and \<open>{:>n}\<close> of a string.\<close>

definition pad_right :: "nat \<Rightarrow> uchar list \<Rightarrow> uchar list" where
  "pad_right n s = s @ replicate (n - length s) 32"

definition pad_left :: "nat \<Rightarrow> uchar list \<Rightarrow> uchar list" where
  "pad_left n s = replicate (n - length s) 32 @ s"

definition print :: "uchar list \<Rightarrow> unit fsop" where
  "print cs = modify (\<lambda>s. s\<lparr>tty := tty s @ cs\<rparr>)"

section \<open>Results\<close>

definition of_result :: "fs_err + 'a \<Rightarrow> 'a fsop" where
  "of_result r = (case r of Inl e \<Rightarrow> fail e | Inr a \<Rightarrow> ret a)"

lemma of_result_simps [simp]: "of_result (Inl e) = fail e" "of_result (Inr a) = ret a"
  by (simp_all add: of_result_def)

text \<open>\<open>?\<close> on an \<open>Option\<close> or \<open>bool\<close> turned into an error; \<open>.unwrap()\<close>.\<close>

definition some_or :: "fs_err \<Rightarrow> 'a option \<Rightarrow> 'a fsop" where
  "some_or e r = (case r of None \<Rightarrow> fail e | Some a \<Rightarrow> ret a)"

definition unwrap :: "'a option \<Rightarrow> 'a fsop" where
  "unwrap r = (case r of None \<Rightarrow> panic | Some a \<Rightarrow> ret a)"

lemma some_or_simps [simp]: "some_or e None = fail e" "some_or e (Some a) = ret a"
  by (simp_all add: some_or_def)

lemma unwrap_simps [simp]: "unwrap None = panic" "unwrap (Some a) = ret a"
  by (simp_all add: unwrap_def)

text \<open>A step of a walk ends it with a result or goes on with an accumulator.\<close>

datatype 'a walk = Stop 'a | Go 'a

text \<open>The working directory, as \<open>pwd\<close> prints it.\<close>

definition pwd :: "unit fsop" where
  "pwd = bnd (gets cwd_st) (\<lambda>c.
     if n_parts c = 0 then print [SLASH, 10]
     else bnd (print (concat (map (\<lambda>p. SLASH # map (\<lambda>b. unat (lower b)) p) (take (n_parts c) (parts c)))))
       (\<lambda>_. print [10]))"

end
