(* ===== verification/Fat.thy ===== *)
theory Fat
  imports Paths
begin

text \<open>
  The FAT32 driver (\<open>kernel/src/fat.rs\<close>), operation by operation: the allocation table,
  directory walks, path resolution, the commands and the formatter.  Cluster and sector
  numbers are natural numbers; every sum the code forms in 32 bits is checked where it can
  leave them, and \<open>clu - 2\<close> is the underflow it is.  A directory walk takes the closure of
  the code as an operation on an accumulator.
\<close>

section \<open>Layout\<close>

definition ATTR_DIRECTORY :: byte where "ATTR_DIRECTORY = 0x10"
definition ATTR_ARCHIVE :: byte where "ATTR_ARCHIVE = 0x20"
definition ATTR_LFN :: byte where "ATTR_LFN = 0x0F"
definition FAT_EOC_MASK :: nat where "FAT_EOC_MASK = 0x0FFFFFF8"
definition MAX_FILE :: nat where "MAX_FILE = 65536"

record dir_entry =
  de_name :: "byte list"
  de_attr :: byte
  de_cluster :: nat
  de_size :: nat

definition is_dir :: "dir_entry \<Rightarrow> bool" where
  "is_dir e = (de_attr e AND ATTR_DIRECTORY \<noteq> 0)"

definition zero_sector :: "byte list" where "zero_sector = replicate 512 0"

definition fat_mount_at :: "nat \<Rightarrow> unit fsop" where
  "fat_mount_at base =
    bnd (set_base base) (\<lambda>_.
    bnd (gets data_device) (\<lambda>dev. case dev of None \<Rightarrow> fail NoDevice | Some _ \<Rightarrow>
    bnd (raw_read 0) (\<lambda>r. case r of None \<Rightarrow> fail Io | Some boot \<Rightarrow>
      (if boot ! 510 \<noteq> 0x55 \<or> boot ! 511 \<noteq> 0xAA then fail NotFormatted
       else (let byts = r16 boot 11; spc = unat (boot ! 13); rsvd = r16 boot 14; nfats = unat (boot ! 16);
                 tot = r32 boot 32; fat16 = r16 boot 22; fat32 = r32 boot 36; root = r32 boot 44 in
         if byts \<noteq> 512 \<or> spc = 0 \<or> 128 < spc \<or> rsvd = 0 \<or> nfats = 0 \<or> 4 < nfats \<or> tot < 70000 \<or>
            fat16 \<noteq> 0 \<or> fat32 = 0 \<or> root < 2 then fail NotFormatted
         else bnd (guard_panic (rsvd + nfats * fat32 < 2 ^ 32)) (\<lambda>_.
           let data = rsvd + nfats * fat32; count = (tot - data) div spc in
           if tot \<le> data then fail NotFormatted
           else if count < 65525 then fail NotFormatted
           else modify (\<lambda>s. s\<lparr>fat_st := Some \<lparr>sec_per_clus = spc, rsvc = rsvd, num_fats = nfats,
                  fat_size = fat32, root_clus = root, data_start = data, cluster_count = count\<rparr>,
                mount_st := Some Fat\<rparr>)))))))"

definition fat_info_or_panic :: "fat_info fsop" where
  "fat_info_or_panic = bnd (gets fat_st) unwrap"

definition first_sector :: "nat \<Rightarrow> nat fsop" where
  "first_sector clu = bnd fat_info_or_panic (\<lambda>i.
     bnd (guard_panic (2 \<le> clu \<and> data_start i + (clu - 2) * sec_per_clus i < 2 ^ 32)) (\<lambda>_.
     ret (data_start i + (clu - 2) * sec_per_clus i)))"

text \<open>\<open>first_sector(clu) + s as u32\<close>\<close>

definition clus_sector :: "nat \<Rightarrow> nat \<Rightarrow> nat fsop" where
  "clus_sector clu k = bnd (first_sector clu) (\<lambda>f. bnd (guard_panic (f + k < 2 ^ 32)) (\<lambda>_. ret (f + k)))"

section \<open>The allocation table\<close>

definition is_eoc :: "nat \<Rightarrow> bool" where
  "is_eoc v = (FAT_EOC_MASK \<le> v AND FAT_EOC_MASK)"

definition read_fat :: "nat \<Rightarrow> nat fsop" where
  "read_fat clu = bnd fat_info_or_panic (\<lambda>i. let off = clu * 4 in
     bnd (raw_read (rsvc i + off div 512)) (\<lambda>r. case r of
       None \<Rightarrow> ret FAT_EOC_MASK
     | Some b \<Rightarrow> ret (r32 b (off mod 512))))"

fun write_fats :: "nat \<Rightarrow> nat \<Rightarrow> nat \<Rightarrow> nat \<Rightarrow> byte list \<Rightarrow> bool fsop" where
  "write_fats base sz f 0 b = ret True"
| "write_fats base sz f (Suc n) b =
    bnd (guard_panic (base + f * sz < 2 ^ 32)) (\<lambda>_.
    bnd (raw_write (base + f * sz) b) (\<lambda>ok. if ok then write_fats base sz (f + 1) n b else ret False))"

definition write_fat :: "nat \<Rightarrow> nat \<Rightarrow> bool fsop" where
  "write_fat clu val = bnd fat_info_or_panic (\<lambda>i. let off = clu * 4; base = rsvc i + off div 512 in
     bnd (raw_read base) (\<lambda>r. case r of
       None \<Rightarrow> ret False
     | Some b \<Rightarrow> write_fats base (fat_size i) 0 (num_fats i) (w32 b (off mod 512) val)))"

fun alloc_from :: "nat \<Rightarrow> nat \<Rightarrow> nat option fsop" where
  "alloc_from c 0 = ret None"
| "alloc_from c (Suc n) = bnd (read_fat c) (\<lambda>v.
     if v = 0 then bnd (write_fat c FAT_EOC_MASK) (\<lambda>ok. if ok then ret (Some c) else alloc_from (c + 1) n)
     else alloc_from (c + 1) n)"

definition alloc_cluster :: "nat option fsop" where
  "alloc_cluster = bnd fat_info_or_panic (\<lambda>i. alloc_from 2 (cluster_count i))"

fun free_loop :: "nat \<Rightarrow> nat \<Rightarrow> unit fsop" where
  "free_loop 0 clu = ret ()"
| "free_loop (Suc n) clu = bnd (read_fat clu) (\<lambda>nxt. bnd (write_fat clu 0) (\<lambda>_.
     if is_eoc nxt \<or> nxt < 2 then ret () else free_loop n nxt))"

definition FREE_STEPS :: nat where "FREE_STEPS = 2000000"

definition free_chain :: "nat \<Rightarrow> unit fsop" where
  "free_chain clu = (if clu < 2 then ret () else free_loop FREE_STEPS clu)"

section \<open>Names and entries\<close>

text \<open>The loop of \<open>make_83\<close>: output, dot seen, length of the base and of the extension.\<close>

fun make_83_loop :: "uchar list \<Rightarrow> byte list \<Rightarrow> bool \<Rightarrow> nat \<Rightarrow> nat \<Rightarrow> fs_err + (byte list \<times> nat)" where
  "make_83_loop [] out dot base ext = Inr (out, base)"
| "make_83_loop (c # cs) out dot base ext =
    (if c = DOT then (if dot then Inl BadName else make_83_loop cs out True base ext)
     else (let b = (of_nat c :: byte) in
       if \<not> c < 128 \<or> b = 0 \<or> b = 47 \<or> b = 92 \<or> b = 32 then Inl BadName
       else if \<not> dot then
         (if 8 \<le> base then Inl BadName else make_83_loop cs (out[base := upper b]) dot (base + 1) ext)
       else (if 3 \<le> ext then Inl BadName else make_83_loop cs (out[8 + ext := upper b]) dot base (ext + 1))))"

definition make_83 :: "uchar list \<Rightarrow> fs_err + byte list" where
  "make_83 name = (case make_83_loop name (replicate 11 32) False 0 0 of
     Inl e \<Rightarrow> Inl e
   | Inr (out, base) \<Rightarrow>
      (if base = 0 then Inl BadName
       else if base = 1 \<and> out ! 0 = 46 then Inl BadName
       else if base = 2 \<and> out ! 0 = 46 \<and> out ! 1 = 46 then Inl BadName
       else Inr out))"

text \<open>The two halves of the cluster number do not overlap, so the \<open>|\<close> of the code is a sum.\<close>

definition entry_at :: "byte list \<Rightarrow> nat \<Rightarrow> dir_entry" where
  "entry_at b off = \<lparr>de_name = sub off 11 b, de_attr = b ! (off + 11),
     de_cluster = r16 b (off + 20) * 65536 + r16 b (off + 26), de_size = r32 b (off + 28)\<rparr>"

definition put_entry :: "byte list \<Rightarrow> nat \<Rightarrow> dir_entry \<Rightarrow> byte list" where
  "put_entry b off e = w32 (w16 (w16 ((put off (de_name e) b)[off + 11 := de_attr e])
     (off + 20) (de_cluster e div 65536)) (off + 26) (de_cluster e)) (off + 28) (de_size e)"

section \<open>Directory walks\<close>

type_synonym 'a visitor = "dir_entry \<Rightarrow> 'a \<Rightarrow> ('a \<times> bool) fsop"

definition slot_free :: "byte \<Rightarrow> bool" where
  "slot_free b = (b = 0 \<or> b = 0xE5)"

definition is_dots :: "byte list \<Rightarrow> bool" where
  "is_dots n = (n ! 0 = 46 \<and> (n ! 1 = 32 \<or> n ! 1 = 46))"

fun walk_slots :: "byte list \<Rightarrow> nat \<Rightarrow> nat \<Rightarrow> 'a visitor \<Rightarrow> 'a \<Rightarrow> 'a walk fsop" where
  "walk_slots b k 0 f a = ret (Go a)"
| "walk_slots b k (Suc n) f a = (let off = k * 32; first = b ! off in
     if first = 0 then ret (Stop a)
     else if first = 0xE5 \<or> b ! (off + 11) = ATTR_LFN then walk_slots b (k + 1) n f a
     else (let e = entry_at b off in
       if is_dots (de_name e) then walk_slots b (k + 1) n f a
       else bnd (f e a) (\<lambda>(a', halt). if halt then ret (Stop a') else walk_slots b (k + 1) n f a')))"

fun walk_sectors :: "nat \<Rightarrow> nat \<Rightarrow> nat \<Rightarrow> 'a visitor \<Rightarrow> 'a \<Rightarrow> 'a walk fsop" where
  "walk_sectors clu k 0 f a = ret (Go a)"
| "walk_sectors clu k (Suc n) f a = bnd (clus_sector clu k) (\<lambda>lba. bnd (raw_read lba) (\<lambda>r. case r of
     None \<Rightarrow> ret (Stop a)
   | Some b \<Rightarrow> bnd (walk_slots b 0 16 f a) (\<lambda>w. case w of
       Stop a' \<Rightarrow> ret (Stop a')
     | Go a' \<Rightarrow> walk_sectors clu (k + 1) n f a')))"

fun walk_clusters :: "nat \<Rightarrow> nat \<Rightarrow> nat \<Rightarrow> 'a visitor \<Rightarrow> 'a \<Rightarrow> 'a fsop" where
  "walk_clusters 0 spc clu f a = ret a"
| "walk_clusters (Suc g) spc clu f a = bnd (walk_sectors clu 0 spc f a) (\<lambda>w. case w of
     Stop a' \<Rightarrow> ret a'
   | Go a' \<Rightarrow> bnd (read_fat clu) (\<lambda>nxt.
       if is_eoc nxt \<or> nxt < 2 then ret a' else walk_clusters g spc nxt f a'))"

definition walk_dir :: "nat \<Rightarrow> 'a visitor \<Rightarrow> 'a \<Rightarrow> 'a fsop" where
  "walk_dir dir f a = bnd (gets fat_st) (\<lambda>io. case io of
     None \<Rightarrow> ret a
   | Some i \<Rightarrow> walk_clusters (cluster_count i) (sec_per_clus i) dir f a)"

definition look_up_visit :: "byte list \<Rightarrow> dir_entry option visitor" where
  "look_up_visit name e a = ret (if de_name e = name then (Some e, True) else (a, False))"

definition look_up :: "nat \<Rightarrow> byte list \<Rightarrow> dir_entry fsop" where
  "look_up dir name = bnd (walk_dir dir (look_up_visit name) None) (some_or NotFound)"

definition lookup_cluster :: "nat \<Rightarrow> byte list \<Rightarrow> bool \<Rightarrow> nat fsop" where
  "lookup_cluster dir name dir_only = bnd (look_up dir name) (\<lambda>e.
     if dir_only \<and> \<not> is_dir e then fail NotDir
     else if \<not> dir_only \<and> is_dir e then fail IsDir
     else ret (de_cluster e))"

text \<open>\<open>parent_of\<close>: the cluster named by the \<open>..\<close> entry.\<close>

fun parent_slots :: "byte list \<Rightarrow> nat \<Rightarrow> nat \<Rightarrow> nat option" where
  "parent_slots b k 0 = None"
| "parent_slots b k (Suc n) = (let off = k * 32 in
     if slot_free (b ! off) \<or> b ! (off + 11) = ATTR_LFN then parent_slots b (k + 1) n
     else if b ! off = 46 \<and> b ! (off + 1) = 46 \<and> b ! (off + 2) = 32 then Some (de_cluster (entry_at b off))
     else parent_slots b (k + 1) n)"

fun parent_sectors :: "nat \<Rightarrow> nat \<Rightarrow> nat \<Rightarrow> nat option fsop" where
  "parent_sectors clu k 0 = ret None"
| "parent_sectors clu k (Suc n) = bnd (clus_sector clu k) (\<lambda>lba. bnd (raw_read lba) (\<lambda>r. case r of
     None \<Rightarrow> ret None
   | Some b \<Rightarrow> (case parent_slots b 0 16 of Some p \<Rightarrow> ret (Some p) | None \<Rightarrow> parent_sectors clu (k + 1) n)))"

fun parent_clusters :: "nat \<Rightarrow> nat \<Rightarrow> nat \<Rightarrow> nat option fsop" where
  "parent_clusters 0 spc clu = ret None"
| "parent_clusters (Suc g) spc clu = bnd (parent_sectors clu 0 spc) (\<lambda>r. case r of
     Some p \<Rightarrow> ret (Some p)
   | None \<Rightarrow> bnd (read_fat clu) (\<lambda>nxt. if is_eoc nxt \<or> nxt < 2 then ret None else parent_clusters g spc nxt))"

definition parent_of :: "nat \<Rightarrow> nat fsop" where
  "parent_of clu = bnd fat_info_or_panic (\<lambda>i.
     if clu = root_clus i then ret (root_clus i)
     else bnd (parent_clusters (cluster_count i) (sec_per_clus i) clu) (\<lambda>p. case p of
       Some q \<Rightarrow> ret (if q = 0 then root_clus i else q)
     | None \<Rightarrow> ret (root_clus i)))"

function resolve_from :: "nat \<Rightarrow> uchar list \<Rightarrow> nat fsop" where
  "resolve_from clu rest = (case pop_comp rest of
     None \<Rightarrow> ret clu
   | Some (cp, tail) \<Rightarrow>
      (if cp = [DOT] then resolve_from clu tail
       else if cp = [DOT, DOT] then bnd (parent_of clu) (\<lambda>p. resolve_from p tail)
       else if cp = [] then resolve_from clu tail
       else bnd (of_result (make_83 cp)) (\<lambda>n.
         bnd (lookup_cluster clu n True) (\<lambda>c. resolve_from c tail))))"
  by pat_completeness auto
termination by (relation "measure (\<lambda>(c, p). length p)") (auto simp: pop_comp_less)

declare resolve_from.simps [simp del]

definition resolve :: "nat \<Rightarrow> uchar list \<Rightarrow> nat fsop" where
  "resolve from path = bnd fat_info_or_panic (\<lambda>i.
     resolve_from (if path \<noteq> [] \<and> path ! 0 = SLASH then root_clus i else from) path)"

section \<open>Slots\<close>

fun find_slots :: "byte list \<Rightarrow> nat \<Rightarrow> nat \<Rightarrow> byte list \<Rightarrow> fs_err + nat option" where
  "find_slots b k 0 name = Inr None"
| "find_slots b k (Suc n) name = (let off = k * 32; first = b ! off in
     if first = 0 then Inl NotFound
     else if first = 0xE5 \<or> b ! (off + 11) = ATTR_LFN then find_slots b (k + 1) n name
     else if sub off 11 b = name then Inr (Some k)
     else find_slots b (k + 1) n name)"

fun find_sectors :: "nat \<Rightarrow> nat \<Rightarrow> nat \<Rightarrow> byte list \<Rightarrow> (nat \<times> nat) option fsop" where
  "find_sectors clu k 0 name = ret None"
| "find_sectors clu k (Suc n) name = bnd (clus_sector clu k) (\<lambda>lba. bnd (raw_read lba) (\<lambda>r. case r of
     None \<Rightarrow> fail Io
   | Some b \<Rightarrow> bnd (of_result (find_slots b 0 16 name)) (\<lambda>o1. case o1 of
       Some slot \<Rightarrow> ret (Some (lba, slot))
     | None \<Rightarrow> find_sectors clu (k + 1) n name)))"

fun find_clusters :: "nat \<Rightarrow> nat \<Rightarrow> nat \<Rightarrow> byte list \<Rightarrow> (nat \<times> nat) fsop" where
  "find_clusters 0 spc clu name = fail Io"
| "find_clusters (Suc g) spc clu name = bnd (find_sectors clu 0 spc name) (\<lambda>r. case r of
     Some p \<Rightarrow> ret p
   | None \<Rightarrow> bnd (read_fat clu) (\<lambda>nxt.
       if is_eoc nxt \<or> nxt < 2 then fail NotFound else find_clusters g spc nxt name))"

definition find_pos :: "nat \<Rightarrow> byte list \<Rightarrow> (nat \<times> nat) fsop" where
  "find_pos dir name = bnd (gets fat_st) (\<lambda>io. case io of
     None \<Rightarrow> fail NotFormatted
   | Some i \<Rightarrow> find_clusters (cluster_count i + 2) (sec_per_clus i) dir name)"

definition write_entry_at :: "nat \<Rightarrow> nat \<Rightarrow> dir_entry \<Rightarrow> unit fsop" where
  "write_entry_at lba slot e = bnd (raw_read lba) (\<lambda>r. case r of
     None \<Rightarrow> fail Io
   | Some b \<Rightarrow> bnd (raw_write lba (put_entry b (slot * 32) e)) (assert_or Io))"

definition wipe_entry_at :: "nat \<Rightarrow> nat \<Rightarrow> unit fsop" where
  "wipe_entry_at lba slot = bnd (raw_read lba) (\<lambda>r. case r of
     None \<Rightarrow> fail Io
   | Some b \<Rightarrow> bnd (raw_write lba (b[slot * 32 := 0xE5])) (assert_or Io))"

fun free_slots :: "byte list \<Rightarrow> nat \<Rightarrow> nat \<Rightarrow> nat option" where
  "free_slots b k 0 = None"
| "free_slots b k (Suc n) = (if slot_free (b ! (k * 32)) then Some k else free_slots b (k + 1) n)"

fun free_sectors :: "nat \<Rightarrow> nat \<Rightarrow> nat \<Rightarrow> (nat \<times> nat) option fsop" where
  "free_sectors clu k 0 = ret None"
| "free_sectors clu k (Suc n) = bnd (clus_sector clu k) (\<lambda>lba. bnd (raw_read lba) (\<lambda>r. case r of
     None \<Rightarrow> fail Io
   | Some b \<Rightarrow> (case free_slots b 0 16 of Some slot \<Rightarrow> ret (Some (lba, slot)) | None \<Rightarrow> free_sectors clu (k + 1) n)))"

text \<open>Clearing a cluster: the result of a write is ignored here, an error in \<open>mkdir\<close>.\<close>

fun clear_cluster :: "nat \<Rightarrow> nat \<Rightarrow> nat \<Rightarrow> unit fsop" where
  "clear_cluster clu k 0 = ret ()"
| "clear_cluster clu k (Suc n) = bnd (clus_sector clu k) (\<lambda>lba. bnd (raw_write lba zero_sector) (\<lambda>_.
     clear_cluster clu (k + 1) n))"

fun zero_cluster :: "nat \<Rightarrow> nat \<Rightarrow> nat \<Rightarrow> unit fsop" where
  "zero_cluster clu k 0 = ret ()"
| "zero_cluster clu k (Suc n) = bnd (clus_sector clu k) (\<lambda>lba. bnd (raw_write lba zero_sector) (\<lambda>ok.
     bnd (assert_or Io ok) (\<lambda>_. zero_cluster clu (k + 1) n)))"

fun free_clusters :: "nat \<Rightarrow> nat \<Rightarrow> nat \<Rightarrow> (nat \<times> nat) fsop" where
  "free_clusters 0 spc clu = fail Io"
| "free_clusters (Suc g) spc clu = bnd (free_sectors clu 0 spc) (\<lambda>r. case r of
     Some p \<Rightarrow> ret p
   | None \<Rightarrow> bnd (read_fat clu) (\<lambda>nxt.
       if is_eoc nxt then
         bnd alloc_cluster (\<lambda>nco. bnd (some_or NoSpace nco) (\<lambda>nc.
         bnd (write_fat clu nc) (\<lambda>ok. bnd (assert_or Io ok) (\<lambda>_.
         bnd (clear_cluster nc 0 spc) (\<lambda>_.
         bnd (first_sector nc) (\<lambda>lba. ret (lba, 0)))))))
       else free_clusters g spc nxt))"

definition find_free_slot :: "nat \<Rightarrow> (nat \<times> nat) fsop" where
  "find_free_slot dir = bnd fat_info_or_panic (\<lambda>i. free_clusters (cluster_count i + 2) (sec_per_clus i) dir)"

section \<open>The working directory\<close>

definition cwd_name :: "byte list \<Rightarrow> byte list" where
  "cwd_name part = (let n = min (length part) 11 in map upper (take n part) @ replicate (11 - n) 32)"

fun cluster_of_parts :: "nat \<Rightarrow> byte list list \<Rightarrow> nat fsop" where
  "cluster_of_parts clu [] = ret clu"
| "cluster_of_parts clu (p # ps) = bnd (lookup_cluster clu (cwd_name p) True) (\<lambda>c. cluster_of_parts c ps)"

definition cluster_from_cwd :: "cwd \<Rightarrow> nat fsop" where
  "cluster_from_cwd c = bnd (gets fat_st) (\<lambda>io. bnd (some_or NotFormatted io) (\<lambda>i.
     cluster_of_parts (root_clus i) (take (n_parts c) (parts c))))"

definition cwd_cluster :: "nat fsop" where
  "cwd_cluster = bnd (gets cwd_st) cluster_from_cwd"

definition fat_check_dir :: "cwd \<Rightarrow> unit fsop" where
  "fat_check_dir c = bnd (cluster_from_cwd c) (\<lambda>_. ret ())"

definition resolve_from_cwd :: "uchar list \<Rightarrow> nat fsop" where
  "resolve_from_cwd path =
    (if path \<noteq> [] \<and> path ! 0 = SLASH
     then bnd fat_info_or_panic (\<lambda>i. resolve (root_clus i) path)
     else bnd cwd_cluster (\<lambda>from. resolve from path))"

section \<open>Commands\<close>

text \<open>
  The name a listing shows.  \<open>Utf8Chars\<close> writes its characters itself, so the width of the
  format string has no effect on it.
\<close>

definition shown_name :: "byte list \<Rightarrow> uchar list" where
  "shown_name n = map (\<lambda>b. unat (lower b)) (takeWhile (\<lambda>b. b \<noteq> 32) (take 8 n) @
     (if n ! 8 \<noteq> 32 then 46 # filter (\<lambda>b. b \<noteq> 32) (drop 8 n) else []))"

definition ls_visit :: "unit visitor" where
  "ls_visit e a = bnd (print (shown_name (de_name e) @ [32] @
     (if is_dir e then pad_right 6 (chars ''<DIR>'') @ [32]
      else pad_right 6 (chars ''file'') @ [32] @ pad_left 8 (dec (de_size e))) @ [10]))
     (\<lambda>_. ret ((), False))"

definition fat_ls :: "uchar list \<Rightarrow> unit fsop" where
  "fat_ls path = bnd (resolve_from_cwd path) (\<lambda>dir. walk_dir dir ls_visit ())"

text \<open>\<open>split_parent\<close>, \<open>resolve_from_cwd\<close> and \<open>make_83\<close>, as every command on a leaf begins.\<close>

definition with_leaf :: "uchar list \<Rightarrow> (nat \<Rightarrow> byte list \<Rightarrow> 'a fsop) \<Rightarrow> 'a fsop" where
  "with_leaf path f = (let (parent, leaf) = split_parent path in
     bnd (resolve_from_cwd parent) (\<lambda>clu. bnd (of_result (make_83 leaf)) (f clu)))"

text \<open>\<open>look_up(..).is_ok()\<close>\<close>

definition exists_in :: "nat \<Rightarrow> byte list \<Rightarrow> bool fsop" where
  "exists_in clu n = bnd (attempt (look_up clu n)) (\<lambda>r. ret (case r of Inl e \<Rightarrow> False | Inr e \<Rightarrow> True))"

definition dot_name :: "byte list" where "dot_name = 46 # replicate 10 32"
definition dotdot_name :: "byte list" where "dotdot_name = 46 # 46 # replicate 9 32"

definition fat_mkdir :: "uchar list \<Rightarrow> unit fsop" where
  "fat_mkdir path = with_leaf path (\<lambda>pclu n83.
     bnd (exists_in pclu n83) (\<lambda>ex. if ex then fail Exists else
     bnd (find_free_slot pclu) (\<lambda>(lba, slot).
     bnd alloc_cluster (\<lambda>ao. bnd (some_or NoSpace ao) (\<lambda>clus.
     bnd fat_info_or_panic (\<lambda>i.
     bnd (zero_cluster clus 0 (sec_per_clus i)) (\<lambda>_.
     bnd (first_sector clus) (\<lambda>f.
     bnd (write_entry_at f 0 \<lparr>de_name = dot_name, de_attr = ATTR_DIRECTORY, de_cluster = clus, de_size = 0\<rparr>) (\<lambda>_.
     bnd (write_entry_at f 1 \<lparr>de_name = dotdot_name, de_attr = ATTR_DIRECTORY,
        de_cluster = (if pclu = root_clus i then 0 else pclu), de_size = 0\<rparr>) (\<lambda>_.
     write_entry_at lba slot \<lparr>de_name = n83, de_attr = ATTR_DIRECTORY, de_cluster = clus, de_size = 0\<rparr>))))))))))"

definition fat_touch :: "uchar list \<Rightarrow> unit fsop" where
  "fat_touch path = with_leaf path (\<lambda>pclu n83.
     bnd (exists_in pclu n83) (\<lambda>ex. if ex then ret () else
     bnd (find_free_slot pclu) (\<lambda>(lba, slot).
     write_entry_at lba slot \<lparr>de_name = n83, de_attr = ATTR_ARCHIVE, de_cluster = 0, de_size = 0\<rparr>)))"

definition shown_byte :: "byte \<Rightarrow> uchar" where
  "shown_byte c = (if 0x20 \<le> c \<and> c < 0x7F then unat c else 63)"

text \<open>\<open>chunk\<close> bytes of a cluster, sector by sector.\<close>

fun cat_sectors :: "nat \<Rightarrow> nat \<Rightarrow> nat \<Rightarrow> nat \<Rightarrow> unit fsop" where
  "cat_sectors clu chunk k 0 = ret ()"
| "cat_sectors clu chunk k (Suc n) = bnd (clus_sector clu k) (\<lambda>lba. bnd (raw_read lba) (\<lambda>r. case r of
     None \<Rightarrow> fail Io
   | Some b \<Rightarrow> bnd (print (map shown_byte (take (min (min chunk ((k + 1) * 512) - k * 512) 512) b))) (\<lambda>_.
       cat_sectors clu chunk (k + 1) n)))"

fun cat_clusters :: "nat \<Rightarrow> nat \<Rightarrow> nat \<Rightarrow> nat \<Rightarrow> unit fsop" where
  "cat_clusters 0 spc clu rest = ret ()"
| "cat_clusters (Suc g) spc clu rest =
    (if rest = 0 then ret ()
     else (let chunk = min rest (spc * 512) in
       bnd (cat_sectors clu chunk 0 ((chunk + 511) div 512)) (\<lambda>_. bnd (read_fat clu) (\<lambda>nxt.
         if is_eoc nxt \<or> nxt < 2 then ret () else cat_clusters g spc nxt (rest - chunk)))))"

definition fat_cat :: "uchar list \<Rightarrow> unit fsop" where
  "fat_cat path = with_leaf path (\<lambda>pclu n83. bnd (look_up pclu n83) (\<lambda>e.
     if is_dir e then fail IsDir
     else bnd fat_info_or_panic (\<lambda>i. cat_clusters (cluster_count i) (sec_per_clus i) (de_cluster e) (de_size e))))"

definition fat_rm :: "uchar list \<Rightarrow> unit fsop" where
  "fat_rm path = with_leaf path (\<lambda>pclu n83. bnd (look_up pclu n83) (\<lambda>e.
     if is_dir e then fail IsDir
     else bnd (find_pos pclu n83) (\<lambda>(lba, slot).
       bnd (if de_cluster e \<noteq> 0 then free_chain (de_cluster e) else ret ()) (\<lambda>_. wipe_entry_at lba slot))))"

definition any_visit :: "bool visitor" where
  "any_visit e a = ret (True, True)"

definition fat_rmdir :: "uchar list \<Rightarrow> unit fsop" where
  "fat_rmdir path = with_leaf path (\<lambda>pclu n83. bnd (look_up pclu n83) (\<lambda>e.
     if \<not> is_dir e then fail NotDir
     else bnd (find_pos pclu n83) (\<lambda>(lba, slot).
       bnd (walk_dir (de_cluster e) any_visit False) (\<lambda>nonempty.
       if nonempty then fail NotEmpty
       else bnd (if de_cluster e \<noteq> 0 then free_chain (de_cluster e) else ret ()) (\<lambda>_. wipe_entry_at lba slot)))))"

definition fat_mv :: "uchar list \<Rightarrow> uchar list \<Rightarrow> unit fsop" where
  "fat_mv old new = with_leaf old (\<lambda>oclu o83. bnd (look_up oclu o83) (\<lambda>e.
     bnd (find_pos oclu o83) (\<lambda>(lba, slot).
     with_leaf new (\<lambda>nclu n83.
       bnd (exists_in nclu n83) (\<lambda>ex. if ex then fail Exists else
       bnd (find_free_slot nclu) (\<lambda>(lba2, slot2).
       bnd (write_entry_at lba2 slot2 (e\<lparr>de_name := n83\<rparr>)) (\<lambda>_. wipe_entry_at lba slot)))))))"

section \<open>Files\<close>

text \<open>
  The caller's buffer is represented by its length; the result is the bytes written to its
  front.
\<close>

fun read_chunk :: "nat \<Rightarrow> nat \<Rightarrow> nat \<Rightarrow> nat \<Rightarrow> byte list fsop" where
  "read_chunk clu chunk k 0 = ret []"
| "read_chunk clu chunk k (Suc n) = bnd (clus_sector clu k) (\<lambda>lba. bnd (raw_read lba) (\<lambda>r. case r of
     None \<Rightarrow> fail Io
   | Some b \<Rightarrow> bnd (read_chunk clu chunk (k + 1) n) (\<lambda>bs. ret (take (min (chunk - k * 512) 512) b @ bs))))"

fun read_clusters :: "nat \<Rightarrow> nat \<Rightarrow> nat \<Rightarrow> nat \<Rightarrow> byte list fsop" where
  "read_clusters 0 spc clu rest = ret []"
| "read_clusters (Suc g) spc clu rest =
    (if rest = 0 then ret []
     else (let chunk = min rest (spc * 512) in
       bnd (read_chunk clu chunk 0 ((chunk + 511) div 512)) (\<lambda>bs. bnd (read_fat clu) (\<lambda>nxt.
         if is_eoc nxt \<or> nxt < 2 then ret bs
         else bnd (read_clusters g spc nxt (rest - chunk)) (\<lambda>r. ret (bs @ r))))))"

definition fat_read_file :: "uchar list \<Rightarrow> nat \<Rightarrow> byte list fsop" where
  "fat_read_file path out_len = with_leaf path (\<lambda>pclu n83. bnd (look_up pclu n83) (\<lambda>e.
     if is_dir e then fail IsDir
     else (let size = min (de_size e) out_len in
       if size = 0 \<or> de_cluster e = 0 then ret []
       else bnd fat_info_or_panic (\<lambda>i. read_clusters (cluster_count i) (sec_per_clus i) (de_cluster e) size))))"

fun grow_chain :: "nat \<Rightarrow> nat \<Rightarrow> nat list fsop" where
  "grow_chain prev 0 = ret []"
| "grow_chain prev (Suc n) = bnd alloc_cluster (\<lambda>ao. bnd (some_or NoSpace ao) (\<lambda>nc.
     bnd (write_fat prev nc) (\<lambda>_. bnd (grow_chain nc n) (\<lambda>cs. ret (nc # cs)))))"

definition new_chain :: "nat \<Rightarrow> nat list fsop" where
  "new_chain need = (if need = 0 then ret []
     else bnd alloc_cluster (\<lambda>ao. bnd (some_or NoSpace ao) (\<lambda>c0.
       bnd (grow_chain c0 (need - 1)) (\<lambda>cs.
       bnd (write_fat (last (c0 # cs)) FAT_EOC_MASK) (\<lambda>_. ret (c0 # cs))))))"

fun write_chunk :: "nat \<Rightarrow> byte list \<Rightarrow> nat \<Rightarrow> nat \<Rightarrow> unit fsop" where
  "write_chunk clu bs k 0 = ret ()"
| "write_chunk clu bs k (Suc n) = (let piece = take 512 (drop (k * 512) bs) in
     bnd (clus_sector clu k) (\<lambda>lba. bnd (raw_write lba (piece @ replicate (512 - length piece) 0)) (\<lambda>ok.
     bnd (assert_or Io ok) (\<lambda>_. write_chunk clu bs (k + 1) n))))"

text \<open>A chain that is too short would index the array of the code at a zero or past its end.\<close>

fun write_chain :: "nat \<Rightarrow> nat list \<Rightarrow> byte list \<Rightarrow> unit fsop" where
  "write_chain clu_size [] data = (if data = [] then ret () else panic)"
| "write_chain clu_size (c # cs) data = (if data = [] then ret ()
     else (let chunk = take clu_size data in
       bnd (write_chunk c chunk 0 ((length chunk + 511) div 512)) (\<lambda>_.
       write_chain clu_size cs (drop clu_size data))))"

definition fat_write_file :: "uchar list \<Rightarrow> byte list \<Rightarrow> unit fsop" where
  "fat_write_file path data = (if MAX_FILE < length data then fail TooBig
   else with_leaf path (\<lambda>pclu n83.
     bnd (attempt (look_up pclu n83)) (\<lambda>old.
     bnd fat_info_or_panic (\<lambda>i. let clu_size = sec_per_clus i * 512;
         need = (length data + clu_size - 1) div clu_size in
     bnd (new_chain need) (\<lambda>chain. let first = (if chain = [] then 0 else hd chain) in
     bnd (case old of
        Inr e \<Rightarrow>
          bnd (if de_cluster e \<noteq> 0 then free_chain (de_cluster e) else ret ()) (\<lambda>_.
          bnd (find_pos pclu n83) (\<lambda>(lba, slot).
          write_entry_at lba slot
            \<lparr>de_name = n83, de_attr = de_attr e, de_cluster = first, de_size = length data\<rparr>))
      | Inl _ \<Rightarrow>
          bnd (find_free_slot pclu) (\<lambda>(lba, slot).
          write_entry_at lba slot
            \<lparr>de_name = n83, de_attr = ATTR_ARCHIVE, de_cluster = first, de_size = length data\<rparr>)) (\<lambda>_.
     write_chain clu_size chain data))))))"

section \<open>The formatter\<close>

text \<open>The loop that sizes the table; nothing is an overflow.\<close>

fun fat_sz_loop :: "nat \<Rightarrow> nat \<Rightarrow> nat \<Rightarrow> nat option" where
  "fat_sz_loop tot 0 f = Some f"
| "fat_sz_loop tot (Suc n) f =
    (if tot < 32 + 2 * f then None
     else (let clus = (tot - 32 - 2 * f) div 1 in
       if 2 ^ 32 \<le> (clus + 2) * 4 then None
       else (let need = (clus + 2) * 4 div 512 + 1 in
         if need \<le> f then Some need else fat_sz_loop tot n need)))"

definition fat_sz_of :: "nat \<Rightarrow> nat option" where
  "fat_sz_of tot = fat_sz_loop tot 32 2"

definition mkfs_info :: "nat \<Rightarrow> nat \<Rightarrow> fat_info" where
  "mkfs_info tot fat_sz = \<lparr>sec_per_clus = 1, rsvc = 32, num_fats = 2, fat_size = fat_sz, root_clus = 2,
     data_start = 32 + 2 * fat_sz, cluster_count = (tot - (32 + 2 * fat_sz)) div 1\<rparr>"

definition boot_sector :: "nat \<Rightarrow> nat \<Rightarrow> byte list" where
  "boot_sector tot fat_sz = (let b = (zero_sector)[0 := 0xEB, 1 := 0x58, 2 := 0x90];
     b = put 3 (bytes ''SOLAROS '') b;
     b = (w16 b 11 512)[13 := 1];
     b = (w16 b 14 32)[16 := 2, 21 := 0xF8];
     b = w16 (w16 b 24 63) 26 255;
     b = w32 (w32 (w32 b 32 tot) 36 fat_sz) 44 2;
     b = (w16 (w16 b 48 0) 50 6)[66 := 0x29];
     b = put 82 (bytes ''FAT32   '') (put 71 (bytes ''SOLAROS    '') (w32 b 67 0x12345678)) in
     b[510 := 0x55, 511 := 0xAA])"

definition info_sector :: "byte list" where
  "info_sector = put 508 (bytes ''RRaA'') (w32 (w32 (put 484 (bytes ''rrAa'') (put 0 (bytes ''RRaA'') zero_sector))
     488 0xFFFFFFFF) 492 0xFFFFFFFF)"

definition fat_sector0 :: "byte list" where
  "fat_sector0 = w32 (w32 (w32 zero_sector 0 0x0FFFFFF8) 4 0x0FFFFFFF) 8 0x0FFFFFFF"

definition write_or_io :: "nat \<Rightarrow> byte list \<Rightarrow> unit fsop" where
  "write_or_io lba b = bnd (raw_write lba b) (assert_or Io)"

fun zero_sectors :: "nat \<Rightarrow> nat \<Rightarrow> unit fsop" where
  "zero_sectors lba 0 = ret ()"
| "zero_sectors lba (Suc n) = bnd (write_or_io lba zero_sector) (\<lambda>_. zero_sectors (lba + 1) n)"

fun seed_dirs :: "nat \<Rightarrow> nat \<Rightarrow> byte list list \<Rightarrow> unit fsop" where
  "seed_dirs root slot [] = ret ()"
| "seed_dirs root slot (nm # nms) =
    bnd alloc_cluster (\<lambda>ao. bnd (some_or NoSpace ao) (\<lambda>nc.
    bnd (first_sector nc) (\<lambda>f.
    bnd (write_or_io f zero_sector) (\<lambda>_.
    bnd (write_entry_at f 0 \<lparr>de_name = dot_name, de_attr = ATTR_DIRECTORY, de_cluster = nc, de_size = 0\<rparr>) (\<lambda>_.
    bnd (write_entry_at f 1 \<lparr>de_name = dotdot_name, de_attr = ATTR_DIRECTORY, de_cluster = 0, de_size = 0\<rparr>) (\<lambda>_.
    bnd (write_entry_at root slot \<lparr>de_name = put 0 nm (replicate 11 32), de_attr = ATTR_DIRECTORY,
        de_cluster = nc, de_size = 0\<rparr>) (\<lambda>_.
    seed_dirs root (slot + 1) nms)))))))"

definition seeds :: "byte list list" where
  "seeds = map bytes [''ETC'', ''ROOT'', ''HOME'', ''USR'', ''BOOT'', ''TMP'']"

definition fat_mkfs_at :: "nat \<Rightarrow> unit fsop" where
  "fat_mkfs_at base =
    bnd (set_base base) (\<lambda>_.
    bnd (gets data_device) (\<lambda>dev. bnd (some_or NoDevice dev) (\<lambda>d. let tot = min (dev_sectors d) 0xFFFFFFF0 in
    if tot < 70000 then fail NoSpace
    else bnd (unwrap (fat_sz_of tot)) (\<lambda>fat_sz. let data = 32 + 2 * fat_sz; count = (tot - data) div 1 in
    bnd (guard_panic (data \<le> tot)) (\<lambda>_.
    if count < 65525 then fail NoSpace
    else
      bnd (zero_sectors 0 (32 + 2 * fat_sz + 1)) (\<lambda>_.
      bnd (write_or_io 0 (boot_sector tot fat_sz)) (\<lambda>_.
      bnd (write_or_io 1 info_sector) (\<lambda>_.
      bnd (write_or_io 32 fat_sector0) (\<lambda>_.
      bnd (write_or_io (32 + fat_sz) fat_sector0) (\<lambda>_.
      bnd (modify (\<lambda>s. s\<lparr>fat_st := Some (mkfs_info tot fat_sz)\<rparr>)) (\<lambda>_.
      bnd (seed_dirs data 0 seeds) (\<lambda>_. fat_mount_at base))))))))))))"

end
