(* ===== verification/FatTable.thy ===== *)
theory FatTable
  imports Fat
begin

text \<open>
  The allocation table as a map from clusters to successors: what \<open>write_fat\<close>,
  \<open>alloc_cluster\<close>, \<open>free_chain\<close> and the chain builder of \<open>write_file\<close> do to it, and the
  round trip of a file's data through its chain.
\<close>

section \<open>The table as a map\<close>

definition fat_get :: "fsys \<Rightarrow> fat_info \<Rightarrow> nat \<Rightarrow> nat" where
  "fat_get s i c = r32 (disk s (fs_base s + (rsvc i + c * 4 div 512))) (c * 4 mod 512)"

definition clu_lba :: "fat_info \<Rightarrow> nat \<Rightarrow> nat \<Rightarrow> nat" where
  "clu_lba i c k = data_start i + (c - 2) * sec_per_clus i + k"

definition valid_clu :: "fat_info \<Rightarrow> nat \<Rightarrow> bool" where
  "valid_clu i c = (2 \<le> c \<and> c < cluster_count i + 2)"

text \<open>A mounted volume whose table covers its clusters and whose sectors the device serves.\<close>

definition vol_ok :: "fsys \<Rightarrow> fat_info \<Rightarrow> bool" where
  "vol_ok s i = (fat_st s = Some i \<and> 1 \<le> num_fats i \<and> 1 \<le> sec_per_clus i \<and> sectors_ok (disk s) \<and>
     (cluster_count i + 2) * 4 \<le> fat_size i * 512 \<and> data_start i = rsvc i + num_fats i * fat_size i \<and>
     data_start i + cluster_count i * sec_per_clus i < 2 ^ 32 \<and> cluster_count i < 0x0FFFFFF0 \<and>
     (\<forall>k < data_start i + cluster_count i * sec_per_clus i. served s k))"

lemma vol_ok_facts:
  assumes "vol_ok s i"
  shows "fat_st s = Some i" "1 \<le> num_fats i" "1 \<le> sec_per_clus i" "sectors_ok (disk s)"
    "data_start i = rsvc i + num_fats i * fat_size i"
    "data_start i + cluster_count i * sec_per_clus i < 2 ^ 32" "cluster_count i < 0x0FFFFFF0"
    "\<And>k. k < data_start i + cluster_count i * sec_per_clus i \<Longrightarrow> served s k"
  using assms by (simp_all add: vol_ok_def)

lemma vol_ok_table:
  assumes "vol_ok s i" and "c < cluster_count i + 2"
  shows "c * 4 div 512 < fat_size i"
proof -
  have "c * 4 < fat_size i * 512" using assms by (simp add: vol_ok_def)
  then show ?thesis by (simp add: less_mult_imp_div_less)
qed

lemma vol_ok_cong: "same_hw s s' \<Longrightarrow> fat_st s' = fat_st s \<Longrightarrow> sectors_ok (disk s') \<Longrightarrow> vol_ok s i \<Longrightarrow> vol_ok s' i"
  using served_cong [of s s'] by (simp add: vol_ok_def)

lemma fat_copy_served:
  assumes "vol_ok s i" and "c < cluster_count i + 2" and "f < num_fats i"
  shows "served s (rsvc i + c * 4 div 512 + f * fat_size i)" and "rsvc i + c * 4 div 512 + f * fat_size i < data_start i"
proof -
  have "c * 4 div 512 + f * fat_size i < (f + 1) * fat_size i" using vol_ok_table [OF assms(1,2)] by simp
  also have "\<dots> \<le> num_fats i * fat_size i" using assms(3) by (intro mult_right_mono) simp_all
  finally show lt: "rsvc i + c * 4 div 512 + f * fat_size i < data_start i"
    using vol_ok_facts(5) [OF assms(1)] by simp
  then show "served s (rsvc i + c * 4 div 512 + f * fat_size i)"
    using vol_ok_facts(8) [OF assms(1)] by simp
qed

lemma read_fat_ok:
  assumes "vol_ok s i" and "c < cluster_count i + 2"
  shows "read_fat c s = (Ret (fat_get s i c), s)"
proof -
  have "served s (rsvc i + c * 4 div 512)"
    using fat_copy_served(1) [OF assms, of 0] vol_ok_facts(2) [OF assms(1)] by simp
  then show ?thesis
    using vol_ok_facts(1) [OF assms(1)]
    by (simp add: read_fat_def fat_info_or_panic_def bnd_def raw_read_served Let_def fat_get_def)
qed

lemma clus_sector_ok:
  assumes "vol_ok s i" and "valid_clu i c" and "k < sec_per_clus i"
  shows "clus_sector c k s = (Ret (clu_lba i c k), s)" and "served s (clu_lba i c k)"
    and "data_start i \<le> clu_lba i c k"
proof -
  have "(c - 2) * sec_per_clus i + k < (c - 2 + 1) * sec_per_clus i" using assms(3) by simp
  also have "\<dots> \<le> cluster_count i * sec_per_clus i"
    using assms(2) by (intro mult_right_mono) (auto simp: valid_clu_def)
  finally have lt: "clu_lba i c k < data_start i + cluster_count i * sec_per_clus i" by (simp add: clu_lba_def)
  then show "served s (clu_lba i c k)" using vol_ok_facts(8) [OF assms(1)] by blast
  show "data_start i \<le> clu_lba i c k" by (simp add: clu_lba_def)
  have "clu_lba i c k < 2 ^ 32" using lt vol_ok_facts(6) [OF assms(1)] by linarith
  then show "clus_sector c k s = (Ret (clu_lba i c k), s)"
    using assms(2) vol_ok_facts(1) [OF assms(1)]
    by (simp add: clus_sector_def first_sector_def fat_info_or_panic_def bnd_def clu_lba_def valid_clu_def)
qed

section \<open>Writing an entry\<close>

text \<open>The disk after the copies \<open>f .. f + n - 1\<close> of a table sector have been written.\<close>

definition copies :: "nat \<Rightarrow> nat \<Rightarrow> nat \<Rightarrow> nat \<Rightarrow> byte list \<Rightarrow> (nat \<Rightarrow> byte list) \<Rightarrow> nat \<Rightarrow> byte list" where
  "copies lba sz f n b d = (\<lambda>a. if \<exists>g \<ge> f. g < f + n \<and> a = lba + g * sz then b else d a)"

lemma if_chain: "(if p then b else if q then b else x) = (if q \<or> p then b else x)"
  by simp

lemma copies_Suc: "copies lba sz (f + 1) n b (d(lba + f * sz := b)) = copies lba sz f (Suc n) b d"
proof (rule ext)
  fix a
  have iff: "(\<exists>g \<ge> f. g < f + Suc n \<and> a = lba + g * sz) \<longleftrightarrow>
      a = lba + f * sz \<or> (\<exists>g \<ge> f + 1. g < f + 1 + n \<and> a = lba + g * sz)"
  proof (intro iffI)
    assume "\<exists>g \<ge> f. g < f + Suc n \<and> a = lba + g * sz"
    then obtain g where g: "f \<le> g" "g < f + Suc n" "a = lba + g * sz" by blast
    then show "a = lba + f * sz \<or> (\<exists>g \<ge> f + 1. g < f + 1 + n \<and> a = lba + g * sz)"
      by (cases "g = f") (auto intro!: exI [of _ g])
  next
    assume "a = lba + f * sz \<or> (\<exists>g \<ge> f + 1. g < f + 1 + n \<and> a = lba + g * sz)"
    then show "\<exists>g \<ge> f. g < f + Suc n \<and> a = lba + g * sz"
    proof
      assume "\<exists>g \<ge> f + 1. g < f + 1 + n \<and> a = lba + g * sz"
      then obtain g where "f + 1 \<le> g" "g < f + 1 + n" "a = lba + g * sz" by blast
      then show ?thesis by (intro exI [of _ g]) simp
    qed (intro exI [of _ f], simp)
  qed
  show "copies lba sz (f + 1) n b (d(lba + f * sz := b)) a = copies lba sz f (Suc n) b d a"
    unfolding copies_def fun_upd_apply iff by (rule if_chain)
qed

lemma write_fats_ok:
  assumes "\<And>g. f \<le> g \<Longrightarrow> g < f + n \<Longrightarrow> served s (base + g * sz) \<and> base + g * sz < 2 ^ 32" and "n \<le> power s"
  shows "write_fats base sz f n b s =
    (Ret True, s\<lparr>disk := copies (fs_base s + base) sz f n b (disk s), power := power s - n\<rparr>)"
  using assms
proof (induction n arbitrary: f s)
  case 0
  have "copies x sz f 0 b d = d" for x d by (rule ext) (auto simp: copies_def)
  then show ?case by simp
next
  case (Suc n)
  let ?s = "s\<lparr>disk := (disk s)(fs_base s + (base + f * sz) := b), power := power s - 1\<rparr>"
  have sv: "served s (base + f * sz)" "base + f * sz < 2 ^ 32" using Suc.prems(1) [of f] by auto
  have w: "raw_write (base + f * sz) b s = (Ret True, ?s)"
    using raw_write_served [OF sv(1)] Suc.prems(2) by simp
  have "write_fats base sz (f + 1) n b ?s =
      (Ret True, ?s\<lparr>disk := copies (fs_base ?s + base) sz (f + 1) n b (disk ?s), power := power ?s - n\<rparr>)"
  proof (rule Suc.IH)
    fix g assume "f + 1 \<le> g" "g < f + 1 + n"
    then show "served ?s (base + g * sz) \<and> base + g * sz < 2 ^ 32"
      using Suc.prems(1) [of g] served_cong [of s ?s] by simp
  qed (use Suc.prems in simp)
  then show ?case using w sv copies_Suc [of "fs_base s + base" sz f n b "disk s"] by (simp add: bnd_def add.assoc)
qed

definition fat_put :: "fat_info \<Rightarrow> nat \<Rightarrow> nat \<Rightarrow> fsys \<Rightarrow> fsys" where
  "fat_put i c v s = s\<lparr>disk := copies (fs_base s + (rsvc i + c * 4 div 512)) (fat_size i) 0 (num_fats i)
     (w32 (disk s (fs_base s + (rsvc i + c * 4 div 512))) (c * 4 mod 512) v) (disk s), power := power s - num_fats i\<rparr>"

lemma fat_put_simps [simp]:
  "fat_st (fat_put i c v s) = fat_st s" "fs_base (fat_put i c v s) = fs_base s" "same_hw s (fat_put i c v s)"
  "power (fat_put i c v s) = power s - num_fats i" "cwd_st (fat_put i c v s) = cwd_st s"
  by (simp_all add: fat_put_def)

lemma write_fat_ok:
  assumes "vol_ok s i" and "c < cluster_count i + 2" and "num_fats i \<le> power s"
  shows "write_fat c v s = (Ret True, fat_put i c v s)"
proof -
  have sv: "served s (rsvc i + c * 4 div 512)"
    using fat_copy_served(1) [OF assms(1,2), of 0] vol_ok_facts(2) [OF assms(1)] by simp
  have "write_fats (rsvc i + c * 4 div 512) (fat_size i) 0 (num_fats i) b s =
    (Ret True, s\<lparr>disk := copies (fs_base s + (rsvc i + c * 4 div 512)) (fat_size i) 0 (num_fats i) b (disk s),
       power := power s - num_fats i\<rparr>)" for b
  proof (rule write_fats_ok)
    fix g assume "g < 0 + num_fats i"
    then have "served s (rsvc i + c * 4 div 512 + g * fat_size i)"
      "rsvc i + c * 4 div 512 + g * fat_size i < data_start i" using fat_copy_served [OF assms(1,2)] by auto
    then show "served s (rsvc i + c * 4 div 512 + g * fat_size i) \<and> rsvc i + c * 4 div 512 + g * fat_size i < 2 ^ 32"
      using vol_ok_facts(6) [OF assms(1)] by linarith
  qed (use assms(3) in simp)
  then show ?thesis
    using vol_ok_facts(1) [OF assms(1)] raw_read_served [OF sv]
    by (simp add: write_fat_def fat_info_or_panic_def bnd_def Let_def fat_put_def)
qed

text \<open>An entry does not straddle sectors.\<close>

lemma fat_offset: "c * 4 mod 512 = 4 * (c mod (128 :: nat))"
  using mult_mod_right [of 4 c 128] by (simp add: mult.commute)

lemma fat_sector: "c * 4 div 512 = c div (128 :: nat)"
  using div_mult_mult1 [of 4 c 128] by (simp add: mult.commute)

lemma entry_in_sector: "c * 4 mod 512 + 4 \<le> (512 :: nat)"
  using mod_less_divisor [of 128 c] unfolding fat_offset by linarith

lemma entries_apart:
  assumes "c \<noteq> c'" and "c * 4 div 512 = c' * 4 div (512 :: nat)"
  shows "c * 4 mod 512 + 4 \<le> c' * 4 mod 512 \<or> c' * 4 mod 512 + 4 \<le> c * 4 mod (512 :: nat)"
proof -
  have "c mod 128 \<noteq> c' mod 128"
    using assms div_mult_mod_eq [of c 128] div_mult_mod_eq [of c' 128] unfolding fat_sector by metis
  then show ?thesis unfolding fat_offset by linarith
qed

lemma fat_put_data:
  assumes "vol_ok s i" and "c < cluster_count i + 2" and "data_start i \<le> a"
  shows "disk (fat_put i c v s) (fs_base s + a) = disk s (fs_base s + a)"
proof -
  have "fs_base s + a \<noteq> fs_base s + (rsvc i + c * 4 div 512) + g * fat_size i" if "g < num_fats i" for g
    using fat_copy_served(2) [OF assms(1,2) that] assms(3) by simp
  then show ?thesis by (auto simp: fat_put_def copies_def)
qed

lemma fat_put_vol: "vol_ok s i \<Longrightarrow> vol_ok (fat_put i c v s) i"
proof (rule vol_ok_cong)
  assume ok: "vol_ok s i"
  have so: "sectors_ok (disk s)" using vol_ok_facts(4) [OF ok] .
  then show "sectors_ok (disk (fat_put i c v s))"
    using entry_in_sector [of c] by (auto simp: fat_put_def copies_def sectors_ok_def)
qed simp_all

lemma fat_put_get:
  assumes "vol_ok s i" and "c < cluster_count i + 2" and "c' < cluster_count i + 2" and "v < 2 ^ 32"
  shows "fat_get (fat_put i c v s) i c' = (if c' = c then v else fat_get s i c')"
proof -
  let ?q = "c * 4 div 512" and ?q' = "c' * 4 div 512"
  have so: "length (disk s a) = 512" for a using vol_ok_facts(4) [OF assms(1)] by (simp add: sectors_ok_def)
  have nf: "0 < num_fats i" using vol_ok_facts(2) [OF assms(1)] by simp
  have hit: "(\<exists>g < num_fats i. fs_base s + (rsvc i + ?q') = fs_base s + (rsvc i + ?q) + g * fat_size i) \<longleftrightarrow> ?q' = ?q"
  proof
    assume "\<exists>g < num_fats i. fs_base s + (rsvc i + ?q') = fs_base s + (rsvc i + ?q) + g * fat_size i"
    then obtain g where g: "?q' = ?q + g * fat_size i" by auto
    then show "?q' = ?q" using vol_ok_table [OF assms(1,3)] by (cases g) auto
  qed (use nf in auto)
  have d: "disk (fat_put i c v s) (fs_base s + (rsvc i + ?q')) =
      (if ?q' = ?q then w32 (disk s (fs_base s + (rsvc i + ?q))) (c * 4 mod 512) v
       else disk s (fs_base s + (rsvc i + ?q')))"
    using hit by (simp add: fat_put_def copies_def)
  show ?thesis
  proof (cases "c' = c")
    case True
    then show ?thesis using d so entry_in_sector [of c] assms(4) by (simp add: fat_get_def rd_wr_same)
  next
    case False
    then show ?thesis
      using d so entry_in_sector [of c] entry_in_sector [of c'] entries_apart [of c c']
      by (auto simp: fat_get_def rd_wr_other)
  qed
qed





section \<open>Allocation\<close>

lemma nat_and_le: "(x :: nat) AND y \<le> x"
  by (simp add: and_nat_def AND_upper1 nat_le_iff)

lemma eoc_mask [simp]: "is_eoc FAT_EOC_MASK"
  by (simp add: is_eoc_def FAT_EOC_MASK_def)

lemma small_not_eoc: "v < 0x0FFFFFF8 \<Longrightarrow> \<not> is_eoc v"
  using nat_and_le [of v FAT_EOC_MASK] by (simp add: is_eoc_def FAT_EOC_MASK_def)

lemma valid_not_eoc: "vol_ok s i \<Longrightarrow> valid_clu i c \<Longrightarrow> \<not> is_eoc c"
  using vol_ok_facts(7) by (intro small_not_eoc) (fastforce simp: valid_clu_def)

lemma alloc_from_ok:
  assumes "vol_ok s i" and "c + n = cluster_count i + 2" and "num_fats i \<le> power s"
  shows "alloc_from c n s = (case List.find (\<lambda>x. fat_get s i x = 0) [c..<c + n] of
     None \<Rightarrow> (Ret None, s)
   | Some x \<Rightarrow> (Ret (Some x), fat_put i x FAT_EOC_MASK s))"
  using assms(2)
proof (induction n arbitrary: c)
  case 0
  then show ?case by simp
next
  case (Suc n)
  have c: "c < cluster_count i + 2" using Suc.prems by simp
  have up: "[c..<c + Suc n] = c # [c + 1..<c + 1 + n]" by (simp add: upt_rec)
  show ?case
    using Suc.IH [of "c + 1"] Suc.prems read_fat_ok [OF assms(1) c] write_fat_ok [OF assms(1) c assms(3)]
    unfolding up by (auto simp: bnd_def)
qed

definition free_set :: "fsys \<Rightarrow> fat_info \<Rightarrow> nat set" where
  "free_set s i = {c. valid_clu i c \<and> fat_get s i c = 0}"

lemma finite_free [simp]: "finite (free_set s i)"
  by (rule finite_subset [of _ "{..<cluster_count i + 2}"]) (auto simp: free_set_def valid_clu_def)

lemma find_least:
  "List.find P [a..<b] = (if \<exists>x. a \<le> x \<and> x < b \<and> P x then Some (LEAST x. a \<le> x \<and> P x) else None)"
proof (cases "\<exists>x. a \<le> x \<and> x < b \<and> P x")
  case True
  let ?m = "LEAST x. a \<le> x \<and> P x"
  obtain x where x: "a \<le> x \<and> P x" "x < b" using True by blast
  have m: "a \<le> ?m \<and> P ?m" by (rule LeastI [of _ x]) (use x in simp)
  have le: "?m \<le> x" by (rule Least_le) (use x in simp)
  have "List.find P [a..<b] = Some ?m"
    unfolding find_Some_iff
  proof (intro exI [of _ "?m - a"] conjI allI impI)
    fix k assume "k < ?m - a"
    then show "\<not> P ([a..<b] ! k)" using not_less_Least [of "a + k" "\<lambda>x. a \<le> x \<and> P x"] m le x by auto
  qed (use m le x in auto)
  then show ?thesis using True by simp
next
  case False
  then show ?thesis by (auto simp: find_None_iff)
qed

lemma alloc_cluster_ok:
  assumes ok: "vol_ok s i" and pw: "num_fats i \<le> power s"
  shows "free_set s i = {} \<Longrightarrow> alloc_cluster s = (Ret None, s)"
    and "free_set s i \<noteq> {} \<Longrightarrow>
      alloc_cluster s = (Ret (Some (Min (free_set s i))), fat_put i (Min (free_set s i)) FAT_EOC_MASK s)"
proof -
  have fs: "free_set s i = {x. 2 \<le> x \<and> x < cluster_count i + 2 \<and> fat_get s i x = 0}"
    by (auto simp: free_set_def valid_clu_def)
  have a: "alloc_cluster s = alloc_from 2 (cluster_count i) s"
    using vol_ok_facts(1) [OF ok] by (simp add: alloc_cluster_def fat_info_or_panic_def bnd_def)
  have eq: "2 + cluster_count i = cluster_count i + 2" by simp
  note r = alloc_from_ok [OF ok eq pw, unfolded find_least eq]
  show "free_set s i = {} \<Longrightarrow> alloc_cluster s = (Ret None, s)" using a r fs by auto
  assume ne: "free_set s i \<noteq> {}"
  let ?m = "LEAST x. 2 \<le> x \<and> fat_get s i x = 0"
  obtain y where y: "2 \<le> y \<and> fat_get s i y = 0" "y < cluster_count i + 2" using ne fs by auto
  have "?m \<in> free_set s i"
    using LeastI [of "\<lambda>x. 2 \<le> x \<and> fat_get s i x = 0", OF y(1)] Least_le [of "\<lambda>x. 2 \<le> x \<and> fat_get s i x = 0", OF y(1)] y(2) fs
    by auto
  moreover have "?m \<le> x" if "x \<in> free_set s i" for x using that fs by (auto intro: Least_le)
  ultimately have "Min (free_set s i) = ?m" by (intro Min_eqI) auto
  moreover have "\<exists>x. 2 \<le> x \<and> x < cluster_count i + 2 \<and> fat_get s i x = 0" using y by blast
  ultimately show "alloc_cluster s = (Ret (Some (Min (free_set s i))), fat_put i (Min (free_set s i)) FAT_EOC_MASK s)"
    using a r by simp
qed

text \<open>States that agree on the data sectors, and on every cluster's entry outside \<open>X\<close>.\<close>

definition same_data :: "fat_info \<Rightarrow> fsys \<Rightarrow> fsys \<Rightarrow> bool" where
  "same_data i s s' = (\<forall>a \<ge> data_start i. disk s' (fs_base s + a) = disk s (fs_base s + a))"


section \<open>Chains\<close>

fun linked :: "(nat \<Rightarrow> nat) \<Rightarrow> nat list \<Rightarrow> bool" where
  "linked g [] = False"
| "linked g [c] = is_eoc (g c)"
| "linked g (c # d # cs) = (g c = d \<and> linked g (d # cs))"

lemma linked_cong: "(\<And>c. c \<in> set cs \<Longrightarrow> g' c = g c) \<Longrightarrow> linked g' cs = linked g cs"
  by (induction g cs rule: linked.induct) auto

definition chain_ok :: "fsys \<Rightarrow> fat_info \<Rightarrow> nat list \<Rightarrow> bool" where
  "chain_ok s i cs = (linked (fat_get s i) cs \<and> distinct cs \<and> (\<forall>c \<in> set cs. valid_clu i c))"



section \<open>Building a chain\<close>

lemma grow_chain_step:
  assumes "alloc_cluster s = (Ret (Some c), s1)" and "write_fat prev c s1 = (Ret ok, s2)"
    and "grow_chain c n s2 = (Ret cs, s3)"
  shows "grow_chain prev (Suc n) s = (Ret (c # cs), s3)"
  using assms by (simp add: bnd_def)

lemma new_chain_step:
  assumes "alloc_cluster s = (Ret (Some c), s1)" and "grow_chain c m s1 = (Ret cs, s2)"
    and "write_fat (last (c # cs)) FAT_EOC_MASK s2 = (Ret ok, s3)"
  shows "new_chain (Suc m) s = (Ret (c # cs), s3)"
  using assms by (simp add: new_chain_def bnd_def)

lemma grow_chain_ok:
  assumes "vol_ok s i" and "n \<le> card (free_set s i)" and "2 * num_fats i * n \<le> power s"
    and "valid_clu i prev" and "fat_get s i prev = FAT_EOC_MASK"
  shows "\<exists>s' cs. grow_chain prev n s = (Ret cs, s') \<and> vol_ok s' i \<and> same_data i s s' \<and> same_hw s s' \<and>
    length cs = n \<and> chain_ok s' i (prev # cs) \<and> set cs \<subseteq> free_set s i \<and>
    (\<forall>x < cluster_count i + 2. x \<notin> set (prev # cs) \<longrightarrow> fat_get s' i x = fat_get s i x) \<and>
    power s' = power s - 2 * num_fats i * n"
  using assms
proof (induction n arbitrary: prev s)
  case 0
  then show ?case by (simp add: same_data_def chain_ok_def)
next
  case (Suc n)
  note ok = Suc.prems(1)
  have pw: "num_fats i \<le> power s" "num_fats i \<le> power s - num_fats i"
    using Suc.prems(3) by (simp_all add: algebra_simps)
  have ne: "free_set s i \<noteq> {}" using Suc.prems(2) by auto
  define c where "c = Min (free_set s i)"
  have cf: "c \<in> free_set s i" using Min_in [OF finite_free ne] by (simp add: c_def)
  then have c: "valid_clu i c" "c < cluster_count i + 2" "c < 2 ^ 32" "c \<noteq> 0"
    using vol_ok_facts(7) [OF ok] by (auto simp: free_set_def valid_clu_def)
  have p: "prev < cluster_count i + 2" using Suc.prems(4) by (simp add: valid_clu_def)
  have pc: "prev \<noteq> c" using cf Suc.prems(5) by (auto simp: free_set_def FAT_EOC_MASK_def)
  let ?s1 = "fat_put i c FAT_EOC_MASK s"
  let ?s2 = "fat_put i prev c ?s1"
  have ok1: "vol_ok ?s1 i" by (rule fat_put_vol [OF ok])
  have ok2: "vol_ok ?s2 i" by (rule fat_put_vol [OF ok1])
  have g: "fat_get ?s2 i x = (if x = prev then c else if x = c then FAT_EOC_MASK else fat_get s i x)"
    if "x < cluster_count i + 2" for x
    using fat_put_get [OF ok1 p that c(3)] fat_put_get [OF ok c(2) that, of FAT_EOC_MASK]
    by (simp add: FAT_EOC_MASK_def)
  have fs2: "free_set ?s2 i = free_set s i - {c}"
    using g c(4) Suc.prems(5) by (auto simp: free_set_def valid_clu_def FAT_EOC_MASK_def split: if_splits)
  have d2: "same_data i s ?s2"
    using fat_put_data [OF ok1 p] fat_put_data [OF ok c(2)] by (simp add: same_data_def)
  have hw2: "same_hw s ?s2" by (simp add: fat_put_def same_hw_def)
  have "\<exists>s' cs. grow_chain c n ?s2 = (Ret cs, s') \<and> vol_ok s' i \<and> same_data i ?s2 s' \<and> same_hw ?s2 s' \<and>
    length cs = n \<and> chain_ok s' i (c # cs) \<and> set cs \<subseteq> free_set ?s2 i \<and>
    (\<forall>x < cluster_count i + 2. x \<notin> set (c # cs) \<longrightarrow> fat_get s' i x = fat_get ?s2 i x) \<and>
    power s' = power ?s2 - 2 * num_fats i * n"
  proof (rule Suc.IH [OF ok2 _ _ c(1)])
    show "n \<le> card (free_set ?s2 i)" using Suc.prems(2) cf fs2 by simp
    show "2 * num_fats i * n \<le> power ?s2" using Suc.prems(3) by (simp add: algebra_simps)
    show "fat_get ?s2 i c = FAT_EOC_MASK" using g [OF c(2)] pc by simp
  qed
  then obtain s' cs where s': "grow_chain c n ?s2 = (Ret cs, s')" "vol_ok s' i" "same_data i ?s2 s'"
    "same_hw ?s2 s'" "length cs = n" "chain_ok s' i (c # cs)" "set cs \<subseteq> free_set ?s2 i"
    "\<forall>x < cluster_count i + 2. x \<notin> set (c # cs) \<longrightarrow> fat_get s' i x = fat_get ?s2 i x"
    "power s' = power ?s2 - 2 * num_fats i * n" by blast
  have run: "grow_chain prev (Suc n) s = (Ret (c # cs), s')"
  proof -
    have "write_fat prev c ?s1 = (Ret True, ?s2)" by (rule write_fat_ok [OF ok1 p]) (use pw in simp)
    with alloc_cluster_ok(2) [OF ok pw(1) ne, folded c_def] show ?thesis using s'(1) by (rule grow_chain_step)
  qed
  have np: "prev \<notin> set (c # cs)"
  proof -
    have "prev \<notin> free_set s i" using Suc.prems(5) by (simp add: free_set_def FAT_EOC_MASK_def)
    then show ?thesis using s'(7) fs2 pc by auto
  qed
  then have gp: "fat_get s' i prev = c" using s'(8) g [OF p] p by simp
  have ch: "chain_ok s' i (prev # c # cs)"
    using s'(6) np gp Suc.prems(4) by (auto simp: chain_ok_def)
  have sub: "set (c # cs) \<subseteq> free_set s i" using s'(7) fs2 cf by auto
  have keep: "\<forall>x < cluster_count i + 2. x \<notin> set (prev # c # cs) \<longrightarrow> fat_get s' i x = fat_get s i x"
    using s'(8) g by auto
  have "same_data i s s'" using d2 s'(3) by (simp add: same_data_def fat_put_simps)
  moreover have "same_hw s s'" using hw2 s'(4) by (simp add: same_hw_def)
  moreover have "power s' = power s - 2 * num_fats i * Suc n" using s'(9) by (simp add: algebra_simps)
  ultimately show ?case using run s'(2,5) ch sub keep by (intro exI [of _ s'] exI [of _ "c # cs"]) simp
qed

lemma linked_seal: "linked g cs \<Longrightarrow> distinct cs \<Longrightarrow> is_eoc v \<Longrightarrow> g' = g(last cs := v) \<Longrightarrow> linked g' cs"
proof (induction g cs rule: linked.induct)
  case (3 g c d cs)
  then have "linked g' (d # cs)" by simp
  moreover have "c \<noteq> last (d # cs)" using 3 last_in_set [of "d # cs"] by auto
  ultimately show ?case using 3 by simp
qed auto

lemma new_chain_ok:
  assumes ok: "vol_ok s i" and n: "0 < n" "n \<le> card (free_set s i)" and pw: "2 * num_fats i * n \<le> power s"
  shows "\<exists>s' cs. new_chain n s = (Ret cs, s') \<and> vol_ok s' i \<and> same_data i s s' \<and> same_hw s s' \<and>
    length cs = n \<and> chain_ok s' i cs \<and> set cs \<subseteq> free_set s i \<and>
    (\<forall>x < cluster_count i + 2. x \<notin> set cs \<longrightarrow> fat_get s' i x = fat_get s i x) \<and>
    power s' = power s - 2 * num_fats i * n"
proof -
  obtain m where m: "n = Suc m" using n by (cases n) auto
  have ne: "free_set s i \<noteq> {}" using n by auto
  define c where "c = Min (free_set s i)"
  have cf: "c \<in> free_set s i" using Min_in [OF finite_free ne] by (simp add: c_def)
  then have c: "valid_clu i c" "c < cluster_count i + 2" by (auto simp: free_set_def valid_clu_def)
  let ?s1 = "fat_put i c FAT_EOC_MASK s"
  have ok1: "vol_ok ?s1 i" by (rule fat_put_vol [OF ok])
  have pw1: "num_fats i \<le> power s" "2 * num_fats i * m \<le> power ?s1" using pw m by (simp_all add: algebra_simps)
  have g: "fat_get ?s1 i x = (if x = c then FAT_EOC_MASK else fat_get s i x)" if "x < cluster_count i + 2" for x
    using fat_put_get [OF ok c(2) that, of FAT_EOC_MASK] by (simp add: FAT_EOC_MASK_def)
  have fs1: "free_set ?s1 i = free_set s i - {c}"
    using g by (auto simp: free_set_def valid_clu_def FAT_EOC_MASK_def split: if_splits)
  have "m \<le> card (free_set ?s1 i)" using n m cf fs1 by simp
  from grow_chain_ok [OF ok1 this pw1(2) c(1)] g [OF c(2)]
  obtain s2 cs where s2: "grow_chain c m ?s1 = (Ret cs, s2)" "vol_ok s2 i" "same_data i ?s1 s2" "same_hw ?s1 s2"
    "length cs = m" "chain_ok s2 i (c # cs)" "set cs \<subseteq> free_set ?s1 i"
    "\<forall>x < cluster_count i + 2. x \<notin> set (c # cs) \<longrightarrow> fat_get s2 i x = fat_get ?s1 i x"
    "power s2 = power ?s1 - 2 * num_fats i * m" by auto
  let ?l = "last (c # cs)"
  have "?l \<in> set (c # cs)" by (rule last_in_set) simp
  then have l: "?l < cluster_count i + 2" using s2(6) by (auto simp: chain_ok_def valid_clu_def)
  let ?s' = "fat_put i ?l FAT_EOC_MASK s2"
  have g': "fat_get ?s' i x = ((fat_get s2 i)(?l := FAT_EOC_MASK)) x" if "x < cluster_count i + 2" for x
    using fat_put_get [OF s2(2) l that, of FAT_EOC_MASK] by (simp add: FAT_EOC_MASK_def)
  have pw2: "num_fats i \<le> power s2" using s2(9) pw m by (simp add: algebra_simps)
  have run: "new_chain n s = (Ret (c # cs), ?s')"
    unfolding m by (rule new_chain_step [OF alloc_cluster_ok(2) [OF ok pw1(1) ne, folded c_def] s2(1) write_fat_ok [OF s2(2) l pw2]])
  have "linked ((fat_get s2 i)(?l := FAT_EOC_MASK)) (c # cs)"
    by (rule linked_seal [OF _ _ eoc_mask refl]) (use s2(6) in \<open>simp_all add: chain_ok_def\<close>)
  then have "linked (fat_get ?s' i) (c # cs)"
    using g' s2(6) by (subst linked_cong [where g = "(fat_get s2 i)(?l := FAT_EOC_MASK)"]) (auto simp: chain_ok_def valid_clu_def)
  then have ch: "chain_ok ?s' i (c # cs)" using s2(6) by (simp add: chain_ok_def)
  have sd: "same_data i s ?s'"
    using fat_put_data [OF ok c(2)] s2(3,4) fat_put_data [OF s2(2) l] by (simp add: same_data_def same_hw_def)
  have hw: "same_hw s ?s'" using s2(4) by (simp add: same_hw_def fat_put_def)
  have keep: "\<forall>x < cluster_count i + 2. x \<notin> set (c # cs) \<longrightarrow> fat_get ?s' i x = fat_get s i x"
    using g' s2(8) g \<open>?l \<in> set (c # cs)\<close> by (auto simp: fun_upd_apply)
  have "power ?s' = power s - 2 * num_fats i * n" using s2(9) m by (simp add: algebra_simps)
  then show ?thesis
    using run fat_put_vol [OF s2(2)] sd hw ch s2(5,7) fs1 cf keep m
    by (intro exI [of _ ?s'] exI [of _ "c # cs"]) auto
qed

section \<open>Data through a chain\<close>

text \<open>Sector \<open>j\<close> of a file: 512 bytes of it, the last one filled up with zeros.\<close>

definition piece :: "byte list \<Rightarrow> nat \<Rightarrow> byte list" where
  "piece bs j = (let p = take 512 (drop (j * 512) bs) in p @ replicate (512 - length p) 0)"

lemma piece_length [simp]: "length (piece bs j) = 512"
  by (simp add: piece_def Let_def)

lemma piece_drop: "piece (drop (n * 512) bs) j = piece bs (n + j)"
  by (simp add: piece_def Let_def algebra_simps)

lemma piece_take: "(j + 1) * 512 \<le> n \<Longrightarrow> piece (take n bs) j = piece bs j"
  by (simp add: piece_def Let_def drop_take min_def)

lemma take_piece: "n \<le> length bs - j * 512 \<Longrightarrow> n \<le> 512 \<Longrightarrow> take n (piece bs j) = take n (drop (j * 512) bs)"
  by (simp add: piece_def Let_def min_def)

lemma clu_lba_inj:
  assumes "valid_clu i c" and "valid_clu i c'" and "j < sec_per_clus i" and "j' < sec_per_clus i"
    and "clu_lba i c j = clu_lba i c' j'"
  shows "c = c' \<and> j = j'"
proof -
  have e: "(c - 2) * sec_per_clus i + j = (c' - 2) * sec_per_clus i + j'" using assms(5) by (simp add: clu_lba_def)
  have "((c - 2) * sec_per_clus i + j) div sec_per_clus i = c - 2"
    "((c' - 2) * sec_per_clus i + j') div sec_per_clus i = c' - 2" using assms(3,4) by simp_all
  then have "c - 2 = c' - 2" using e by simp
  then have "c = c'" using assms(1,2) by (auto simp: valid_clu_def)
  then show ?thesis using e by simp
qed

definition slot_addr :: "fsys \<Rightarrow> fat_info \<Rightarrow> nat \<Rightarrow> nat \<Rightarrow> nat" where
  "slot_addr s i c j = fs_base s + clu_lba i c j"

lemma write_chunk_ok:
  assumes "vol_ok s i" and "valid_clu i c" and "k + n \<le> sec_per_clus i" and "n \<le> power s"
  shows "\<exists>d. write_chunk c bs k n s = (Ret (), s\<lparr>disk := d, power := power s - n\<rparr>) \<and> sectors_ok d \<and>
    (\<forall>j. k \<le> j \<and> j < k + n \<longrightarrow> d (slot_addr s i c j) = piece bs j) \<and>
    (\<forall>a. (\<forall>j < sec_per_clus i. a \<noteq> slot_addr s i c j) \<longrightarrow> d a = disk s a) \<and>
    (\<forall>j < k. d (slot_addr s i c j) = disk s (slot_addr s i c j))"
  using assms
proof (induction n arbitrary: k s)
  case 0
  then show ?case using vol_ok_facts(4) [OF 0(1)] by (intro exI [of _ "disk s"]) auto
next
  case (Suc n)
  have k: "k < sec_per_clus i" using Suc.prems(3) by simp
  note cs = clus_sector_ok [OF Suc.prems(1,2) k]
  let ?s = "s\<lparr>disk := (disk s)(slot_addr s i c k := piece bs k), power := power s - 1\<rparr>"
  have w: "raw_write (clu_lba i c k) (piece bs k) s = (Ret True, ?s)"
    using raw_write_served [OF cs(2)] Suc.prems(4) by (simp add: slot_addr_def)
  have step: "write_chunk c bs k (Suc n) s = write_chunk c bs (k + 1) n ?s"
    using cs(1) w by (simp add: bnd_def piece_def Let_def)
  have sa: "slot_addr ?s i c j = slot_addr s i c j" for j by (simp add: slot_addr_def)
  have ok: "vol_ok ?s i"
    by (rule vol_ok_cong [OF _ _ _ Suc.prems(1)])
      (use vol_ok_facts(4) [OF Suc.prems(1)] in \<open>auto simp: sectors_ok_def\<close>)
  have pw: "n \<le> power ?s" using Suc.prems(4) by simp
  from Suc.IH [OF ok Suc.prems(2) _ pw, of "k + 1"] Suc.prems(3) obtain d where d:
    "write_chunk c bs (k + 1) n ?s = (Ret (), ?s\<lparr>disk := d, power := power ?s - n\<rparr>)" "sectors_ok d"
    "\<forall>j. k + 1 \<le> j \<and> j < k + 1 + n \<longrightarrow> d (slot_addr s i c j) = piece bs j"
    "\<forall>a. (\<forall>j < sec_per_clus i. a \<noteq> slot_addr s i c j) \<longrightarrow> d a = disk ?s a"
    "\<forall>j < k + 1. d (slot_addr s i c j) = disk ?s (slot_addr s i c j)"
    unfolding sa by auto
  have hit: "d (slot_addr s i c k) = piece bs k" using d(5) by simp
  have low: "d (slot_addr s i c j) = disk s (slot_addr s i c j)" if "j < k" for j
    using d(5) that clu_lba_inj [OF Suc.prems(2,2), of j k] k by (auto simp: slot_addr_def)
  have "d (slot_addr s i c j) = piece bs j" if "k \<le> j" "j < k + Suc n" for j
    using hit d(3) that by (cases "j = k") auto
  moreover have "d a = disk s a" if "\<forall>j < sec_per_clus i. a \<noteq> slot_addr s i c j" for a
    using d(4) that k by auto
  ultimately show ?case using step d(1,2) low by (intro exI [of _ d]) simp
qed

lemma write_chain_ok:
  assumes "vol_ok s i" and "distinct cs" and "\<forall>c \<in> set cs. valid_clu i c"
    and "length data \<le> length cs * (sec_per_clus i * 512)" and "length cs * sec_per_clus i \<le> power s"
  shows "\<exists>d p. write_chain (sec_per_clus i * 512) cs data s = (Ret (), s\<lparr>disk := d, power := p\<rparr>) \<and> sectors_ok d \<and>
    (\<forall>m < length cs. \<forall>j < sec_per_clus i. (m * sec_per_clus i + j) * 512 < length data \<longrightarrow>
       d (slot_addr s i (cs ! m) j) = piece data (m * sec_per_clus i + j)) \<and>
    (\<forall>a. (\<forall>c \<in> set cs. \<forall>j < sec_per_clus i. a \<noteq> slot_addr s i c j) \<longrightarrow> d a = disk s a)"
  using assms
proof (induction cs arbitrary: data s)
  case Nil
  then show ?case using vol_ok_facts(4) [OF Nil(1)]
    by (intro exI [of _ "disk s"] exI [of _ "power s"]) auto
next
  case (Cons c cs)
  let ?z = "sec_per_clus i"
  show ?case
  proof (cases "data = []")
    case True
    then show ?thesis using vol_ok_facts(4) [OF Cons.prems(1)]
      by (intro exI [of _ "disk s"] exI [of _ "power s"]) auto
  next
    case False
    let ?ch = "take (?z * 512) data"
    let ?n = "(length ?ch + 511) div 512"
    have n: "?n \<le> ?z" by simp
    have v: "valid_clu i c" using Cons.prems(3) by simp
    have pn: "?n \<le> power s" using n Cons.prems(5) by (simp add: le_trans)
    from write_chunk_ok [OF Cons.prems(1) v, of 0 ?n ?ch] n pn obtain d1 where d1:
      "write_chunk c ?ch 0 ?n s = (Ret (), s\<lparr>disk := d1, power := power s - ?n\<rparr>)" "sectors_ok d1"
      "\<forall>j < ?n. d1 (slot_addr s i c j) = piece ?ch j"
      "\<forall>a. (\<forall>j < ?z. a \<noteq> slot_addr s i c j) \<longrightarrow> d1 a = disk s a" by auto
    let ?s = "s\<lparr>disk := d1, power := power s - ?n\<rparr>"
    have ok: "vol_ok ?s i" by (rule vol_ok_cong [OF _ _ _ Cons.prems(1)]) (use d1(2) in simp_all)
    have sa: "slot_addr ?s i x j = slot_addr s i x j" for x j by (simp add: slot_addr_def)
    have len: "length (drop (?z * 512) data) \<le> length cs * (?z * 512)" using Cons.prems(4) by simp
    have pw: "length cs * ?z \<le> power ?s" using Cons.prems(5) n by simp
    from Cons.IH [OF ok _ _ len pw] Cons.prems(2,3) obtain d p where d:
      "write_chain (?z * 512) cs (drop (?z * 512) data) ?s = (Ret (), ?s\<lparr>disk := d, power := p\<rparr>)" "sectors_ok d"
      "\<forall>m < length cs. \<forall>j < ?z. (m * ?z + j) * 512 < length data - ?z * 512 \<longrightarrow>
         d (slot_addr s i (cs ! m) j) = piece (drop (?z * 512) data) (m * ?z + j)"
      "\<forall>a. (\<forall>c \<in> set cs. \<forall>j < ?z. a \<noteq> slot_addr s i c j) \<longrightarrow> d a = d1 a"
      unfolding sa by auto
    have run: "write_chain (?z * 512) (c # cs) data s = (Ret (), s\<lparr>disk := d, power := p\<rparr>)"
      using False d1(1) d(1) by (simp add: bnd_def Let_def)
    have first: "d (slot_addr s i c j) = piece data j" if j: "j < ?z" "j * 512 < length data" for j
    proof -
      have "slot_addr s i c j \<noteq> slot_addr s i x k" if "x \<in> set cs" "k < ?z" for x k
        using clu_lba_inj [OF v _ j(1) that(2), of x] that Cons.prems(2,3) by (auto simp: slot_addr_def)
      then have "d (slot_addr s i c j) = d1 (slot_addr s i c j)" using d(4) by blast
      also have "\<dots> = piece ?ch j"
      proof -
        have "j * 512 + 1 \<le> length ?ch" using j by (simp add: min_def)
        then have "j < ?n" by linarith
        then show ?thesis using d1(3) by simp
      qed
      also have "\<dots> = piece data j" using j by (intro piece_take) simp
      finally show ?thesis .
    qed
    have "d (slot_addr s i ((c # cs) ! m) j) = piece data (m * ?z + j)"
      if m: "m < length (c # cs)" "j < ?z" "(m * ?z + j) * 512 < length data" for m j
    proof (cases m)
      case 0
      then show ?thesis using first m by simp
    next
      case (Suc q)
      have "(q * ?z + j) * 512 < length data - ?z * 512" using m(3) Suc by (simp add: algebra_simps)
      then show ?thesis using d(3) m(1,2) Suc by (simp add: piece_drop add.assoc)
    qed
    moreover have "d a = disk s a" if "\<forall>x \<in> set (c # cs). \<forall>j < ?z. a \<noteq> slot_addr s i x j" for a
      using d(4) d1(4) that by auto
    ultimately show ?thesis using run d(2) by blast
  qed
qed

lemma read_chunk_ok:
  assumes "vol_ok s i" and "valid_clu i c" and "k + n \<le> sec_per_clus i"
  shows "read_chunk c chunk k n s =
    (Ret (concat (map (\<lambda>j. take (min (chunk - j * 512) 512) (disk s (slot_addr s i c j))) [k..<k + n])), s)"
  using assms
proof (induction n arbitrary: k)
  case 0
  then show ?case by simp
next
  case (Suc n)
  have k: "k < sec_per_clus i" using Suc.prems(3) by simp
  note cs = clus_sector_ok [OF Suc.prems(1,2) k]
  have "[k..<k + Suc n] = k # [k + 1..<k + 1 + n]" by (simp add: upt_rec)
  then show ?case
    using Suc.IH [OF Suc.prems(1,2), of "k + 1"] Suc.prems(3) cs(1) raw_read_served [OF cs(2)]
    by (simp add: bnd_def slot_addr_def del: upt_Suc)
qed

lemma read_clusters_ok:
  assumes "vol_ok s i" and "linked (fat_get s i) cs" and "\<forall>c \<in> set cs. valid_clu i c"
    and "length data \<le> length cs * (sec_per_clus i * 512)" and "length cs \<le> g"
    and "\<forall>m < length cs. \<forall>j < sec_per_clus i. (m * sec_per_clus i + j) * 512 < length data \<longrightarrow>
       disk s (slot_addr s i (cs ! m) j) = piece data (m * sec_per_clus i + j)"
  shows "read_clusters g (sec_per_clus i) (hd cs) (length data) s = (Ret data, s)"
  using assms(2-)
proof (induction cs arbitrary: data g)
  case Nil
  then show ?case by simp
next
  case (Cons c cs)
  let ?z = "sec_per_clus i"
  obtain h where g: "g = Suc h" using Cons.prems(4) by (cases g) auto
  show ?case
  proof (cases "data = []")
    case True
    then show ?thesis by (simp add: g)
  next
    case False
    let ?ch = "min (length data) (?z * 512)"
    let ?n = "(?ch + 511) div 512"
    have n: "0 + ?n \<le> ?z" by simp
    have v: "valid_clu i c" "c < cluster_count i + 2" using Cons.prems(2) by (auto simp: valid_clu_def)
    have "concat (map (\<lambda>j. take (min (?ch - j * 512) 512) (disk s (slot_addr s i c j))) [0..<0 + ?n]) =
        concat (map (\<lambda>j. take 512 (drop (j * 512) (take ?ch data))) [0..<?n])"
    proof (intro arg_cong [where f = concat] map_cong)
      fix j assume "j \<in> set [0..<?n]"
      then have "j < ?n" by simp
      then have j: "j * 512 < ?ch" by linarith
      then have "j < ?z" "(0 * ?z + j) * 512 < length data" by simp_all
      then have "disk s (slot_addr s i c j) = piece data j" using Cons.prems(5) by fastforce
      then have "take (min (?ch - j * 512) 512) (disk s (slot_addr s i c j)) =
          take (min (?ch - j * 512) 512) (drop (j * 512) data)"
        using j by (simp add: take_piece)
      also have "\<dots> = take 512 (drop (j * 512) (take ?ch data))" by (simp add: drop_take take_take min.commute)
      finally show "take (min (?ch - j * 512) 512) (disk s (slot_addr s i c j)) =
          take 512 (drop (j * 512) (take ?ch data))" .
    qed simp
    also have "\<dots> = take (?n * 512) (take ?ch data)" by (rule concat_pieces)
    also have "\<dots> = take ?ch data"
    proof -
      have "?ch \<le> ?n * 512" by linarith
      then show ?thesis by (simp add: take_take min_def)
    qed
    finally have rc: "read_chunk c ?ch 0 ?n s = (Ret (take ?ch data), s)"
      using read_chunk_ok [OF assms(1) v(1) n, of ?ch] by simp
    have rf: "read_fat c s = (Ret (fat_get s i c), s)" by (rule read_fat_ok [OF assms(1) v(2)])
    show ?thesis
    proof (cases cs)
      case Nil
      then have "is_eoc (fat_get s i c)" "take ?ch data = data" using Cons.prems(1,3) by auto
      then show ?thesis using False rc rf by (simp add: g bnd_def Let_def)
    next
      case (Cons d ds)
      have lk: "fat_get s i c = d" "linked (fat_get s i) cs" using Cons.prems(1) Cons by simp_all
      have vd: "valid_clu i d" using Cons.prems(2) Cons by simp
      have ne: "\<not> is_eoc d" "\<not> d < 2" using valid_not_eoc [OF assms(1) vd] vd by (auto simp: valid_clu_def)
      have "read_clusters h ?z (hd cs) (length (drop (?z * 512) data)) s = (Ret (drop (?z * 512) data), s)"
      proof (rule Cons.IH [OF lk(2)])
        show "\<forall>m < length cs. \<forall>j < ?z. (m * ?z + j) * 512 < length (drop (?z * 512) data) \<longrightarrow>
            disk s (slot_addr s i (cs ! m) j) = piece (drop (?z * 512) data) (m * ?z + j)"
        proof (intro allI impI)
          fix m j assume m: "m < length cs" "j < ?z" "(m * ?z + j) * 512 < length (drop (?z * 512) data)"
          then have "(Suc m * ?z + j) * 512 < length data" by (simp add: algebra_simps)
          then have "disk s (slot_addr s i ((c # cs) ! Suc m) j) = piece data (Suc m * ?z + j)"
            using Cons.prems(5) m by (metis Suc_less_eq length_Cons)
          then show "disk s (slot_addr s i (cs ! m) j) = piece (drop (?z * 512) data) (m * ?z + j)"
            by (simp add: piece_drop add.assoc)
        qed
      qed (use Cons.prems g in auto)
      moreover have "length data - ?ch = length (drop (?z * 512) data)" by simp
      moreover have "take ?ch data @ drop (?z * 512) data = data"
        by (cases "length data \<le> ?z * 512") (simp_all add: min_def)
      ultimately show ?thesis using False rc rf lk(1) ne Cons by (simp add: g bnd_def Let_def)
    qed
  qed
qed

lemma card_free: "card (free_set s i) \<le> cluster_count i"
proof -
  have "free_set s i \<subseteq> {2..<cluster_count i + 2}" by (auto simp: free_set_def valid_clu_def)
  then have "card (free_set s i) \<le> card {2..<cluster_count i + 2}" by (rule card_mono [rotated]) simp
  then show ?thesis by simp
qed

text \<open>C5: data written by \<open>write_file\<close> reads back.  With enough free clusters the chain builder
  takes free clusters only and links them in order, the data loop fills them, and the loop
  of \<open>read_file\<close> started at the first of them returns exactly the data; the chains and the
  contents of all other clusters are untouched.
\<close>

theorem file_data_roundtrip:
  assumes "vol_ok s i" and "data \<noteq> []"
    and "need = (length data + sec_per_clus i * 512 - 1) div (sec_per_clus i * 512)"
    and "need \<le> card (free_set s i)" and "2 * num_fats i * need + need * sec_per_clus i \<le> power s"
  shows "\<exists>s' cs. bnd (new_chain need) (\<lambda>cs. bnd (write_chain (sec_per_clus i * 512) cs data) (\<lambda>_. ret cs)) s = (Ret cs, s') \<and>
    length cs = need \<and> set cs \<subseteq> free_set s i \<and> chain_ok s' i cs \<and>
    read_clusters (cluster_count i) (sec_per_clus i) (hd cs) (length data) s' = (Ret data, s') \<and>
    (\<forall>x. valid_clu i x \<longrightarrow> x \<notin> set cs \<longrightarrow> fat_get s' i x = fat_get s i x \<and>
       (\<forall>j < sec_per_clus i. disk s' (slot_addr s i x j) = disk s (slot_addr s i x j)))"
proof -
  let ?z = "sec_per_clus i"
  have z: "1 \<le> ?z" using vol_ok_facts(3) [OF assms(1)] .
  have ld: "0 < length data" using assms(2) by simp
  have fit: "length data \<le> need * (?z * 512)" and need: "0 < need"
  proof -
    have p: "0 < ?z * 512" using z by simp
    have "need * (?z * 512) = length data + ?z * 512 - 1 - (length data + ?z * 512 - 1) mod (?z * 512)"
      using assms(3) minus_mod_eq_div_mult [of "length data + ?z * 512 - 1" "?z * 512"] by simp
    moreover have "(length data + ?z * 512 - 1) mod (?z * 512) < ?z * 512" using p by (rule mod_less_divisor)
    ultimately show "length data \<le> need * (?z * 512)" using ld by linarith
    then show "0 < need" using ld by (cases need) auto
  qed
  have pw1: "2 * num_fats i * need \<le> power s" using assms(5) by simp
  from new_chain_ok [OF assms(1) need assms(4) pw1] obtain s1 cs where s1:
    "new_chain need s = (Ret cs, s1)" "vol_ok s1 i" "same_data i s s1" "same_hw s s1" "length cs = need"
    "chain_ok s1 i cs" "set cs \<subseteq> free_set s i"
    "\<forall>x < cluster_count i + 2. x \<notin> set cs \<longrightarrow> fat_get s1 i x = fat_get s i x"
    "power s1 = power s - 2 * num_fats i * need" by blast
  have sa: "slot_addr s1 i x j = slot_addr s i x j" for x j using s1(4) by (simp add: slot_addr_def same_hw_def)
  have pw2: "length cs * ?z \<le> power s1" using assms(5) s1(5,9) by simp
  from write_chain_ok [OF s1(2) _ _ _ pw2, of data] s1(5,6) fit obtain d p where d:
    "write_chain (?z * 512) cs data s1 = (Ret (), s1\<lparr>disk := d, power := p\<rparr>)" "sectors_ok d"
    "\<forall>m < length cs. \<forall>j < ?z. (m * ?z + j) * 512 < length data \<longrightarrow>
       d (slot_addr s i (cs ! m) j) = piece data (m * ?z + j)"
    "\<forall>a. (\<forall>c \<in> set cs. \<forall>j < ?z. a \<noteq> slot_addr s i c j) \<longrightarrow> d a = disk s1 a"
    unfolding sa by (auto simp: chain_ok_def)
  let ?s' = "s1\<lparr>disk := d, power := p\<rparr>"
  have base: "fs_base s1 = fs_base s" using s1(4) by (simp add: same_hw_def)
  have ok': "vol_ok ?s' i" by (rule vol_ok_cong [OF _ _ _ s1(2)]) (use d(2) in simp_all)
  have tab: "fat_get ?s' i x = fat_get s1 i x" if x: "x < cluster_count i + 2" for x
  proof -
    have "rsvc i + x * 4 div 512 < data_start i" using fat_copy_served(2) [OF assms(1) x, of 0] vol_ok_facts(2) [OF assms(1)] by simp
    then have "\<forall>c \<in> set cs. \<forall>j < ?z. fs_base s + (rsvc i + x * 4 div 512) \<noteq> slot_addr s i c j"
      by (auto simp: slot_addr_def clu_lba_def)
    then show ?thesis using d(4) base by (simp add: fat_get_def)
  qed
  have ch': "chain_ok ?s' i cs"
    using s1(6) tab linked_cong [of cs "fat_get ?s' i" "fat_get s1 i"] by (auto simp: chain_ok_def valid_clu_def)
  have run: "bnd (new_chain need) (\<lambda>cs. bnd (write_chain (?z * 512) cs data) (\<lambda>_. ret cs)) s = (Ret cs, ?s')"
    using s1(1) d(1) by (simp add: bnd_def)
  have rd: "read_clusters (cluster_count i) ?z (hd cs) (length data) ?s' = (Ret data, ?s')"
  proof (rule read_clusters_ok [OF ok'])
    show "length cs \<le> cluster_count i" using s1(5) assms(4) card_free [of s i] by simp
    show "\<forall>m < length cs. \<forall>j < ?z. (m * ?z + j) * 512 < length data \<longrightarrow>
       disk ?s' (slot_addr ?s' i (cs ! m) j) = piece data (m * ?z + j)"
      using d(3) base by (simp add: slot_addr_def)
  qed (use ch' fit s1(5) in \<open>auto simp: chain_ok_def\<close>)
  have "fat_get ?s' i x = fat_get s i x \<and> (\<forall>j < ?z. disk ?s' (slot_addr s i x j) = disk s (slot_addr s i x j))"
    if x: "valid_clu i x" "x \<notin> set cs" for x
  proof -
    have "\<forall>c \<in> set cs. \<forall>j' < ?z. slot_addr s i x j \<noteq> slot_addr s i c j'" if "j < ?z" for j
      using clu_lba_inj [OF x(1) _ that] x(2) s1(6) by (fastforce simp: slot_addr_def chain_ok_def)
    then have "disk ?s' (slot_addr s i x j) = disk s (slot_addr s i x j)" if "j < ?z" for j
      using d(4) that s1(3) by (auto simp: same_data_def slot_addr_def clu_lba_def)
    then show ?thesis using tab s1(8) x by (simp add: valid_clu_def)
  qed
  then show ?thesis using run s1(5,7) ch' rd by (intro exI [of _ ?s'] exI [of _ cs]) simp
qed

section \<open>A concrete volume\<close>

definition vw_info :: fat_info where
  "vw_info = \<lparr>sec_per_clus = 1, rsvc = 32, num_fats = 2, fat_size = 520, root_clus = 2, data_start = 1072,
     cluster_count = 66000\<rparr>"

definition vw :: "(nat \<Rightarrow> byte list) \<Rightarrow> fsys" where
  "vw d = \<lparr>devs = [\<lparr>present = True, dev_sectors = 100000\<rparr>], disk = d, rd_ok = \<lambda>_. True,
     wr_ok = \<lambda>_. True, power = 1000, fs_base = 0, mount_st = Some Fat, cwd_st = \<lparr>parts = [], n_parts = 0\<rparr>,
     fat_st = Some vw_info, ext_st = None, jbd_st = None, tty = []\<rparr>"

lemma vw_simps [simp]: "disk (vw d) = d" "fs_base (vw d) = 0" "power (vw d) = 1000" "fat_st (vw d) = Some vw_info"
  by (simp_all add: vw_def)

lemma vw_served: "served (vw d) lba \<longleftrightarrow> lba < 100000"
  by (simp add: served_def vw_def data_device_def) auto

lemma vw_ok: "sectors_ok d \<Longrightarrow> vol_ok (vw d) vw_info"
  by (simp add: vol_ok_def vw_served) (simp add: vw_info_def)

lemma zero_sector_r32: "off + 4 \<le> 512 \<Longrightarrow> r32 zero_sector off = 0"
proof -
  assume "off + 4 \<le> 512"
  then have "sub off 4 zero_sector = replicate 4 0" by (simp add: sub_def zero_sector_def)
  also have "replicate 4 (0 :: byte) = [0, 0, 0, 0]" by (simp add: numeral_eq_Suc)
  finally show ?thesis by (simp add: rd_def)
qed

lemma vw_free: "free_set (vw (\<lambda>_. zero_sector)) vw_info = {2..<66002}"
proof -
  have "fat_get (vw (\<lambda>_. zero_sector)) vw_info c = 0" for c
    using entry_in_sector [of c] by (simp add: fat_get_def zero_sector_r32)
  then show ?thesis by (auto simp: free_set_def valid_clu_def vw_info_def)
qed

lemma zero_sectors_ok: "sectors_ok (\<lambda>_. zero_sector)"
  by (simp add: sectors_ok_def zero_sector_def)



theorem file_data_roundtrip_witness:
  "\<exists>s' cs. bnd (new_chain 1) (\<lambda>cs. bnd (write_chain 512 cs [7, 8, 9]) (\<lambda>_. ret cs)) (vw (\<lambda>_. zero_sector)) = (Ret cs, s') \<and>
     read_clusters 66000 1 (hd cs) (length [7, 8, 9 :: byte]) s' = (Ret [7, 8, 9], s')"
proof -
  have ok: "vol_ok (vw (\<lambda>_. zero_sector)) vw_info" by (rule vw_ok [OF zero_sectors_ok])
  have n: "1 = (length [7, 8, 9 :: byte] + sec_per_clus vw_info * 512 - 1) div (sec_per_clus vw_info * 512)"
    "1 \<le> card (free_set (vw (\<lambda>_. zero_sector)) vw_info)"
    "2 * num_fats vw_info * 1 + 1 * sec_per_clus vw_info \<le> power (vw (\<lambda>_. zero_sector))"
    by (simp_all add: vw_free) (simp_all add: vw_info_def)
  from file_data_roundtrip [OF ok _ n] show ?thesis by (auto simp: vw_info_def)
qed

end
