(* ===== verification/FatDir.thy ===== *)
theory FatDir
  imports FatTable
begin

text \<open>
  Names, directories and the layout of the FAT driver: \<open>make_83\<close> against the 8.3 rule it
  implements, \<open>look_up\<close> against the listing of a directory, creation of an entry, the way
  the commands split a path, and the size the formatter gives the table.
\<close>

section \<open>8.3 names\<close>

definition name_char :: "uchar \<Rightarrow> bool" where
  "name_char c = (0 < c \<and> c < 128 \<and> c \<notin> {DOT, SLASH, 92, 32})"

definition padded :: "nat \<Rightarrow> uchar list \<Rightarrow> byte list" where
  "padded n cs = map (\<lambda>c. upper (of_nat c)) cs @ replicate (n - length cs) 32"

text \<open>The rule: at most one dot, one to eight characters before it, at most three after it.\<close>

definition rule_83 :: "uchar list \<Rightarrow> fs_err + byte list" where
  "rule_83 name = (let b = takeWhile (\<lambda>c. c \<noteq> DOT) name; e = drop (length b + 1) name in
     if b \<noteq> [] \<and> length b \<le> 8 \<and> length e \<le> 3 \<and> list_all name_char (b @ e)
     then Inr (padded 8 b @ padded 3 e) else Inl BadName)"

lemma bad_byte:
  "c < 128 \<Longrightarrow> (of_nat c :: byte) = of_nat d \<longleftrightarrow> c = d" if "d < 128" for c d :: nat
  using that by (simp add: unat_arith_simps unat_of_nat)

lemma name_char_code:
  "name_char c \<longleftrightarrow> c \<noteq> DOT \<and> \<not> (\<not> c < 128 \<or> (of_nat c :: byte) = 0 \<or> (of_nat c :: byte) = 47 \<or>
     (of_nat c :: byte) = 92 \<or> (of_nat c :: byte) = 32)"
  using bad_byte [of 0 c] bad_byte [of 47 c] bad_byte [of 92 c] bad_byte [of 32 c]
  by (auto simp: name_char_def)

lemma loop_ext:
  "ext \<le> 3 \<Longrightarrow> make_83_loop cs out True base ext =
     (if length cs + ext \<le> 3 \<and> list_all name_char cs
      then Inr (put (8 + ext) (map (\<lambda>c. upper (of_nat c)) cs) out, base) else Inl BadName)"
  if "length out = 11"
  using that
proof (induction cs arbitrary: out ext)
  case Nil
  then show ?case by (simp add: put_def)
next
  case (Cons c cs)
  show ?case
  proof (cases "name_char c \<and> ext < 3")
    case True
    then have "put (8 + (ext + 1)) (map (\<lambda>c. upper (of_nat c)) cs) (out[8 + ext := upper (of_nat c)]) =
        put (8 + ext) (map (\<lambda>c. upper (of_nat c)) (c # cs)) out" if "length cs + (ext + 1) \<le> 3"
      using that Cons.prems by (intro nth_equalityI) (auto simp: nth_put nth_list_update nth_Cons')
    then show ?thesis using True Cons.IH [of "ext + 1" "out[8 + ext := upper (of_nat c)]"] Cons.prems
      by (auto simp: name_char_code Let_def)
  next
    case False
    then show ?thesis using Cons.prems by (auto simp: name_char_code Let_def)
  qed
qed

lemma loop_base:
  "base \<le> 8 \<Longrightarrow> make_83_loop cs out False base 0 =
     (let b = takeWhile (\<lambda>c. c \<noteq> DOT) cs; e = drop (length b + 1) cs in
      if length b + base \<le> 8 \<and> length e \<le> 3 \<and> list_all name_char (b @ e)
      then Inr (put 8 (map (\<lambda>c. upper (of_nat c)) e) (put base (map (\<lambda>c. upper (of_nat c)) b) out), length b + base)
      else Inl BadName)"
  if "length out = 11"
  using that
proof (induction cs arbitrary: out base)
  case Nil
  then show ?case by (simp add: put_def)
next
  case (Cons c cs)
  show ?case
  proof (cases "c = DOT")
    case True
    then show ?thesis using Cons.prems by (simp add: loop_ext put_def Let_def)
  next
    case nd: False
    show ?thesis
    proof (cases "name_char c \<and> base < 8")
      case True
      let ?b = "takeWhile (\<lambda>c. c \<noteq> DOT) cs"
      have "put (base + 1) (map (\<lambda>c. upper (of_nat c)) ?b) (out[base := upper (of_nat c)]) =
          put base (map (\<lambda>c. upper (of_nat c)) (c # ?b)) out" if "length ?b + (base + 1) \<le> 8"
        using that Cons.prems by (intro nth_equalityI) (auto simp: nth_put nth_list_update nth_Cons')
      then show ?thesis using True nd Cons.IH [of "base + 1" "out[base := upper (of_nat c)]"] Cons.prems
        by (auto simp: name_char_code Let_def)
    next
      case False
      then show ?thesis using nd Cons.prems by (auto simp: name_char_code Let_def)
    qed
  qed
qed

lemma make_83_rule: "make_83 name = rule_83 name"
proof -
  let ?b = "takeWhile (\<lambda>c. c \<noteq> DOT) name"
  let ?e = "drop (length ?b + 1) name"
  have pad: "put 8 (map (\<lambda>c. upper (of_nat c)) ?e) (put 0 (map (\<lambda>c. upper (of_nat c)) ?b) (replicate 11 32)) =
      padded 8 ?b @ padded 3 ?e" if "length ?b \<le> 8" "length ?e \<le> 3"
    using that by (intro nth_equalityI) (auto simp: padded_def nth_put nth_append)
  have up: "upper (of_nat c) \<noteq> (46 :: byte)" if "name_char c" for c
  proof -
    have "(of_nat c :: byte) \<noteq> 46" using that bad_byte [of 46 c] by (auto simp: name_char_def)
    moreover have "(b :: byte) - 32 \<noteq> 46" if "97 \<le> b" for b
      using that by (simp add: unat_arith_simps)
    ultimately show ?thesis by (auto simp: upper_def)
  qed
  have nodot: "(padded 8 ?b @ padded 3 ?e) ! 0 \<noteq> 46" if "?b \<noteq> []" "list_all name_char (?b @ ?e)"
    using that up by (cases ?b) (auto simp: padded_def)
  have loop: "make_83_loop name (replicate 11 32) False 0 0 = (if length ?b \<le> 8 \<and> length ?e \<le> 3 \<and> list_all name_char (?b @ ?e)
      then Inr (padded 8 ?b @ padded 3 ?e, length ?b) else Inl BadName)"
    using loop_base [of "replicate 11 32" 0 name] pad by (simp add: Let_def)
  show ?thesis
    using nodot unfolding make_83_def loop rule_83_def Let_def by auto
qed

text \<open>\<open>make_83\<close> accepts exactly the names of the 8.3 rule and returns the two parts in upper
  case, each filled up with blanks.
\<close>

theorem make_83_is_rule_83: "make_83 name = rule_83 name"
  by (rule make_83_rule)

lemma make_83_length: "make_83 name = Inr n \<Longrightarrow> length n = 11"
  by (auto simp: make_83_rule rule_83_def Let_def padded_def split: if_splits)

lemma upper_no_dot:
  assumes "name_char c"
  shows "upper (of_nat c) \<noteq> (46 :: byte)"
proof -
  have "(of_nat c :: byte) \<noteq> 46" using assms bad_byte [of 46 c] by (auto simp: name_char_def)
  moreover have "(b :: byte) - 32 \<noteq> 46" if "97 \<le> b" for b
    using that by (simp add: unat_arith_simps)
  ultimately show ?thesis by (auto simp: upper_def)
qed

lemma make_83_no_dot: "make_83 name = Inr n \<Longrightarrow> 46 \<notin> set n"
proof -
  assume "make_83 name = Inr n"
  then have "set n \<subseteq> (\<lambda>c. upper (of_nat c)) ` {c. name_char c} \<union> {32}"
    by (auto simp: make_83_rule rule_83_def Let_def padded_def list_all_iff split: if_splits)
  then show ?thesis using upper_no_dot by fastforce
qed

text \<open>
  The working directory is kept as the text the user typed and turned into a directory name
  by \<open>cwd_name\<close>, which does not split at the dot.
\<close>

text \<open>a working-directory component with a dot among its first eleven bytes never equals a name
  that \<open>make_83\<close> produces: a directory created with an extension (\<open>mkdir a.b\<close>) cannot be
  entered, since \<open>cd\<close> looks it up under another name.
\<close>

theorem cd_never_enters_extension:
  assumes "46 \<in> set (take 11 part)"
  shows "\<not> (\<exists>name. make_83 name = Inr (cwd_name part))"
proof
  assume "\<exists>name. make_83 name = Inr (cwd_name part)"
  then have "46 \<notin> set (cwd_name part)" using make_83_no_dot by blast
  moreover have "upper 46 = (46 :: byte)" by (simp add: upper_def)
  then have "46 \<in> set (cwd_name part)"
    using assms by (cases "length part \<le> 11") (auto simp: cwd_name_def Let_def min_def image_iff intro!: bexI [of _ "46 :: byte"])
  ultimately show False by contradiction
qed

theorem cd_never_enters_extension_witness:
  "make_83 [97, 46, 98] = Inr [65, 32, 32, 32, 32, 32, 32, 32, 66, 32, 32] \<and>
   \<not> (\<exists>name. make_83 name = Inr (cwd_name [97, 46, 98]))"
proof
  show "make_83 [97, 46, 98] = Inr [65, 32, 32, 32, 32, 32, 32, 32, 66, 32, 32]"
    by code_simp
  show "\<not> (\<exists>name. make_83 name = Inr (cwd_name [97, 46, 98]))"
    by (rule cd_never_enters_extension) simp
qed

section \<open>Splitting a path\<close>

lemma with_leaf_slash: "SLASH \<notin> set leaf \<Longrightarrow> with_leaf (SLASH # leaf) f = with_leaf leaf f"
  using split_parent_slash [of leaf "[]"] split_parent_plain [of leaf] by (simp add: with_leaf_def)

text \<open>a path that names an entry of the root directory by its absolute path is taken relative to
  the working directory by every command that creates, reads, writes or removes a leaf: the
  parent part of \<open>/x\<close> is empty, and the empty path resolves to the working directory.
\<close>

theorem absolute_leaf_is_relative:
  assumes "SLASH \<notin> set leaf"
  shows "fat_touch (SLASH # leaf) = fat_touch leaf \<and> fat_mkdir (SLASH # leaf) = fat_mkdir leaf \<and>
    fat_write_file (SLASH # leaf) = fat_write_file leaf \<and> fat_read_file (SLASH # leaf) = fat_read_file leaf \<and>
    fat_rm (SLASH # leaf) = fat_rm leaf \<and> fat_rmdir (SLASH # leaf) = fat_rmdir leaf"
proof -
  note w = with_leaf_slash [OF assms]
  show ?thesis
    by (simp add: fat_touch_def fat_mkdir_def fat_write_file_def fat_read_file_def fat_rm_def fat_rmdir_def w fun_eq_iff)
qed

theorem absolute_leaf_is_relative_witness: "fat_touch (SLASH # [97, 98]) = fat_touch [97, 98]"
  using absolute_leaf_is_relative [of "[97, 98]"] by simp

section \<open>The listing of a directory\<close>

text \<open>
  The slots of a directory in the order the driver visits them: the sector and the number of
  the slot in it.  The listing is what lies before the first never-used slot, without
  deleted entries, long-name entries and the dot entries.
\<close>

definition dir_slots :: "fsys \<Rightarrow> fat_info \<Rightarrow> nat list \<Rightarrow> (byte list \<times> nat) list" where
  "dir_slots s i cs = concat (map (\<lambda>c. concat (map (\<lambda>j. map (Pair (disk s (slot_addr s i c j))) [0..<16])
     [0..<sec_per_clus i])) cs)"

definition hidden :: "byte list \<Rightarrow> nat \<Rightarrow> bool" where
  "hidden b k = (b ! (k * 32) = 0xE5 \<or> b ! (k * 32 + 11) = ATTR_LFN \<or> is_dots (de_name (entry_at b (k * 32))))"

fun listing :: "(byte list \<times> nat) list \<Rightarrow> dir_entry list" where
  "listing [] = []"
| "listing ((b, k) # r) = (if b ! (k * 32) = 0 then []
     else if hidden b k then listing r else entry_at b (k * 32) # listing r)"

text \<open>The search as a function of the slots; it tells whether the walk was ended.\<close>

fun scan :: "(byte list \<times> nat) list \<Rightarrow> byte list \<Rightarrow> dir_entry option walk" where
  "scan [] name = Go None"
| "scan ((b, k) # r) name = (if b ! (k * 32) = 0 then Stop None
     else if hidden b k then scan r name
     else if de_name (entry_at b (k * 32)) = name then Stop (Some (entry_at b (k * 32))) else scan r name)"

fun walk_result :: "'a walk \<Rightarrow> 'a" where
  "walk_result (Stop a) = a" | "walk_result (Go a) = a"

lemma scan_append: "scan (xs @ ys) name = (case scan xs name of Stop a \<Rightarrow> Stop a | Go a \<Rightarrow> scan ys name)"
  by (induction xs name rule: scan.induct) auto

lemma scan_go: "scan xs name = Go a \<Longrightarrow> a = None"
  by (induction xs name rule: scan.induct) (auto split: if_splits)

lemma scan_find: "walk_result (scan xs name) = List.find (\<lambda>e. de_name e = name) (listing xs)"
  by (induction xs name rule: scan.induct) auto

lemma walk_slots_scan:
  "walk_slots b k n (look_up_visit name) None s = (Ret (scan (map (Pair b) [k..<k + n]) name), s)"
proof (induction n arbitrary: k)
  case 0
  then show ?case by simp
next
  case (Suc n)
  have "[k..<k + Suc n] = k # [k + 1..<k + 1 + n]" by (simp add: upt_rec)
  then show ?case using Suc.IH [of "k + 1"]
    by (simp add: Let_def hidden_def look_up_visit_def bnd_def del: upt_Suc)
qed

lemma walk_sectors_scan:
  assumes ok: "vol_ok s i" and c: "valid_clu i c"
  shows "k + n \<le> sec_per_clus i \<Longrightarrow> walk_sectors c k n (look_up_visit name) None s =
    (Ret (scan (concat (map (\<lambda>j. map (Pair (disk s (slot_addr s i c j))) [0..<16]) [k..<k + n])) name), s)"
proof (induction n arbitrary: k)
  case 0
  then show ?case by simp
next
  case (Suc n)
  have k: "k < sec_per_clus i" using Suc.prems by simp
  note cs = clus_sector_ok [OF ok c k]
  have up: "[k..<k + Suc n] = k # [k + 1..<k + 1 + n]" by (simp add: upt_rec)
  let ?b = "disk s (slot_addr s i c k)"
  have rd: "raw_read (clu_lba i c k) s = (Ret (Some ?b), s)" using raw_read_served [OF cs(2)] by (simp add: slot_addr_def)
  have ws: "walk_slots ?b 0 16 (look_up_visit name) None s = (Ret (scan (map (Pair ?b) [0..<16]) name), s)"
    using walk_slots_scan [of ?b 0 16 name s] by simp
  show ?case
  proof (cases "scan (map (Pair ?b) [0..<16]) name")
    case (Stop a)
    then show ?thesis unfolding up using cs(1) rd ws by (simp add: bnd_def scan_append del: upt_Suc upt_conv_Cons)
  next
    case (Go a)
    then have "a = None" by (rule scan_go)
    then show ?thesis unfolding up using Suc.IH [of "k + 1"] Suc.prems cs(1) rd ws Go
      by (simp add: bnd_def scan_append del: upt_Suc)
  qed
qed

lemma walk_clusters_scan:
  assumes ok: "vol_ok s i"
  shows "linked (fat_get s i) cs \<Longrightarrow> \<forall>c \<in> set cs. valid_clu i c \<Longrightarrow> length cs \<le> g \<Longrightarrow>
    walk_clusters g (sec_per_clus i) (hd cs) (look_up_visit name) None s =
      (Ret (walk_result (scan (dir_slots s i cs) name)), s)"
proof (induction cs arbitrary: g)
  case Nil
  then show ?case by simp
next
  case (Cons c cs)
  obtain h where g: "g = Suc h" using Cons.prems(3) by (cases g) auto
  have v: "valid_clu i c" "c < cluster_count i + 2" using Cons.prems(2) by (auto simp: valid_clu_def)
  let ?S = "concat (map (\<lambda>j. map (Pair (disk s (slot_addr s i c j))) [0..<16]) [0..<sec_per_clus i])"
  have ds: "dir_slots s i (c # cs) = ?S @ dir_slots s i cs" by (simp add: dir_slots_def)
  have ws: "walk_sectors c 0 (sec_per_clus i) (look_up_visit name) None s = (Ret (scan ?S name), s)"
    using walk_sectors_scan [OF ok v(1), of 0 "sec_per_clus i"] by simp
  have rf: "read_fat c s = (Ret (fat_get s i c), s)" by (rule read_fat_ok [OF ok v(2)])
  show ?case
  proof (cases "scan ?S name")
    case (Stop a)
    then show ?thesis using ws by (simp add: g ds bnd_def scan_append)
  next
    case (Go a)
    then have a: "a = None" by (rule scan_go)
    show ?thesis
    proof (cases cs)
      case Nil
      then show ?thesis using ws rf Go a Cons.prems(1) by (simp add: g ds bnd_def scan_append) (simp add: dir_slots_def)
    next
      case (Cons d ds')
      have lk: "fat_get s i c = d" "linked (fat_get s i) cs" using Cons.prems(1) Cons by simp_all
      have vd: "valid_clu i d" using Cons.prems(2) Cons by simp
      have ne: "\<not> is_eoc d" "\<not> d < 2" using valid_not_eoc [OF ok vd] vd by (auto simp: valid_clu_def)
      have "walk_clusters h (sec_per_clus i) (hd cs) (look_up_visit name) None s =
          (Ret (walk_result (scan (dir_slots s i cs) name)), s)"
        using Cons.IH [of h] lk(2) Cons.prems g by simp
      then show ?thesis unfolding ds using ws rf Go a lk(1) ne Cons by (simp add: g bnd_def scan_append)
    qed
  qed
qed

lemma chain_length: "chain_ok s i cs \<Longrightarrow> length cs \<le> cluster_count i"
proof -
  assume "chain_ok s i cs"
  then have "set cs \<subseteq> {2..<cluster_count i + 2}" "distinct cs" by (auto simp: chain_ok_def valid_clu_def)
  then have "length cs \<le> card {2..<cluster_count i + 2}" by (metis distinct_card card_mono finite_atLeastLessThan)
  then show ?thesis by simp
qed

lemma look_up_listing:
  assumes "vol_ok s i" and "chain_ok s i (d # cs)"
  shows "look_up d name s = (case List.find (\<lambda>e. de_name e = name) (listing (dir_slots s i (d # cs))) of
     None \<Rightarrow> (Fail NotFound, s) | Some e \<Rightarrow> (Ret e, s))"
proof -
  have "walk_clusters (cluster_count i) (sec_per_clus i) (hd (d # cs)) (look_up_visit name) None s =
      (Ret (walk_result (scan (dir_slots s i (d # cs)) name)), s)"
    by (rule walk_clusters_scan [OF assms(1)]) (use assms(2) chain_length [OF assms(2)] in \<open>auto simp: chain_ok_def\<close>)
  then show ?thesis
    using vol_ok_facts(1) [OF assms(1)]
    by (simp add: look_up_def walk_dir_def bnd_def scan_find split: option.split)
qed

text \<open>C14: \<open>look_up\<close> on a directory whose clusters form a chain is the search for the name in the
  directory's listing; it changes nothing.
\<close>

theorem look_up_refines_listing:
  assumes "vol_ok s i" and "chain_ok s i (d # cs)"
  shows "look_up d name s = (case List.find (\<lambda>e. de_name e = name) (listing (dir_slots s i (d # cs))) of
     None \<Rightarrow> (Fail NotFound, s) | Some e \<Rightarrow> (Ret e, s))"
  by (rule look_up_listing [OF assms])

section \<open>Creating an entry\<close>

lemma wr_nth: "off + n \<le> length b \<Longrightarrow> k < off \<or> off + n \<le> k \<Longrightarrow> k < length b \<Longrightarrow> wr n b off v ! k = b ! k"
  by (auto simp: wr_def nth_put)

definition entry_wf :: "dir_entry \<Rightarrow> bool" where
  "entry_wf e = (length (de_name e) = 11 \<and> \<not> slot_free (de_name e ! 0) \<and> de_attr e \<noteq> ATTR_LFN \<and>
     \<not> is_dots (de_name e) \<and> de_cluster e < 2 ^ 32 \<and> de_size e < 2 ^ 32)"

lemma put_entry_length [simp]:
  "length (de_name e) = 11 \<Longrightarrow> off + 32 \<le> length b \<Longrightarrow> length (put_entry b off e) = length b"
  by (simp add: put_entry_def)

text \<open>The slot that is written reads back; a slot 32 bytes away keeps its bytes.\<close>

lemma entry_roundtrip:
  assumes "length (de_name e) = 11" and "off + 32 \<le> length b" and "de_cluster e < 2 ^ 32" and "de_size e < 2 ^ 32"
  shows "entry_at (put_entry b off e) off = e" and "put_entry b off e ! off = de_name e ! 0"
    and "put_entry b off e ! (off + 11) = de_attr e"
proof -
  let ?b = "(put off (de_name e) b)[off + 11 := de_attr e]"
  have l: "length ?b = length b" using assms by simp
  have nm: "sub off 11 ?b = de_name e"
    using assms by (intro nth_equalityI) (auto simp: nth_sub nth_put nth_list_update)
  have keep: "put_entry b off e ! k = ?b ! k" if "off \<le> k" "k < off + 20" for k
    using assms that l by (simp add: put_entry_def wr_nth)
  have at: "put_entry b off e ! (off + 11) = de_attr e" using keep [of "off + 11"] assms by simp
  then show "put_entry b off e ! (off + 11) = de_attr e" .
  have sub11: "sub off 11 (put_entry b off e) = de_name e"
  proof (rule nth_equalityI)
    fix k assume "k < length (sub off 11 (put_entry b off e))"
    then have k: "k < 11" using assms by simp
    then have "sub off 11 (put_entry b off e) ! k = sub off 11 ?b ! k"
      using keep [of "off + k"] assms l by (simp add: nth_sub)
    then show "sub off 11 (put_entry b off e) ! k = de_name e ! k" using nm by simp
  qed (use assms in simp)
  then have "sub off 11 (put_entry b off e) ! 0 = de_name e ! 0" by simp
  then show "put_entry b off e ! off = de_name e ! 0" using assms by (simp add: nth_sub)
  have hi: "r16 (put_entry b off e) (off + 20) = de_cluster e div 65536"
    using assms l by (simp add: put_entry_def rd_wr_other rd_wr_same)
  have lo: "r16 (put_entry b off e) (off + 26) = de_cluster e mod 65536"
    using assms l by (simp add: put_entry_def rd_wr_other rd_wr_same)
  have sz: "r32 (put_entry b off e) (off + 28) = de_size e"
    using assms l by (simp add: put_entry_def rd_wr_same)
  show "entry_at (put_entry b off e) off = e"
    using sub11 at hi lo sz by (simp add: entry_at_def div_mult_mod_eq)
qed

lemma put_entry_other:
  assumes "length (de_name e) = 11" and "off + 32 \<le> length b" and "p + 32 \<le> length b"
    and "p + 32 \<le> off \<or> off + 32 \<le> p" and "k < 32"
  shows "put_entry b off e ! (p + k) = b ! (p + k)"
  using assms by (auto simp: put_entry_def wr_nth nth_put)

text \<open>Two slots that look the same to the driver.\<close>

definition same_slot :: "byte list \<times> nat \<Rightarrow> byte list \<times> nat \<Rightarrow> bool" where
  "same_slot x y = (fst x ! (snd x * 32) = fst y ! (snd y * 32) \<and> hidden (fst x) (snd x) = hidden (fst y) (snd y) \<and>
     entry_at (fst x) (snd x * 32) = entry_at (fst y) (snd y * 32))"

lemma listing_same: "list_all2 same_slot xs ys \<Longrightarrow> listing xs = listing ys"
  by (induction rule: list_all2_induct) (auto simp: same_slot_def)

lemma same_slot_refl [simp]: "same_slot x x"
  by (simp add: same_slot_def)

lemma same_slot_bytes:
  assumes "k < 16" and "length b = 512" and "length b' = 512"
    and "\<And>m. m < 32 \<Longrightarrow> b' ! (k * 32 + m) = b ! (k * 32 + m)"
  shows "same_slot (b, k) (b', k)"
proof -
  have "sub (k * 32) 32 b' = sub (k * 32) 32 b"
    by (rule nth_equalityI) (use assms in \<open>auto simp: nth_sub\<close>)
  moreover have "sub (k * 32 + o') n x = sub o' n (sub (k * 32) 32 x)" if "o' + n \<le> 32" for o' n and x :: "byte list"
    using that by (simp add: sub_def drop_take add.commute min_def)
  ultimately have s: "sub (k * 32 + o') n b' = sub (k * 32 + o') n b" if "o' + n \<le> 32" for o' n
    using that by metis
  have e: "entry_at b' (k * 32) = entry_at b (k * 32)"
    using s [of 0 11] s [of 20 2] s [of 26 2] s [of 28 4] assms(4) [of 11] by (simp add: entry_at_def rd_def)
  then show ?thesis using assms(4) [of 0] assms(4) [of 11] by (simp add: same_slot_def hidden_def)
qed

text \<open>Addresses of the slots.\<close>

definition slot_list :: "fat_info \<Rightarrow> nat list \<Rightarrow> (nat \<times> nat) list" where
  "slot_list i cs = concat (map (\<lambda>c. concat (map (\<lambda>j. map (Pair (clu_lba i c j)) [0..<16]) [0..<sec_per_clus i])) cs)"

definition slot_at :: "fsys \<Rightarrow> nat \<times> nat \<Rightarrow> byte list \<times> nat" where
  "slot_at s p = (disk s (fs_base s + fst p), snd p)"

definition free_at :: "fsys \<Rightarrow> nat \<times> nat \<Rightarrow> bool" where
  "free_at s p = slot_free (disk s (fs_base s + fst p) ! (snd p * 32))"

lemma dir_slots_map: "dir_slots s i cs = map (slot_at s) (slot_list i cs)"
  by (simp add: dir_slots_def slot_list_def slot_at_def map_concat comp_def slot_addr_def)

lemma slot_list_range: "p \<in> set (slot_list i cs) \<Longrightarrow> \<exists>c \<in> set cs. \<exists>j < sec_per_clus i. fst p = clu_lba i c j \<and> snd p < 16"
  unfolding slot_list_def by fastforce

lemma slot_list_distinct:
  assumes "distinct cs" and "\<forall>c \<in> set cs. valid_clu i c"
  shows "distinct (slot_list i cs)"
  using assms
proof (induction cs)
  case Nil
  then show ?case by (simp add: slot_list_def)
next
  case (Cons c cs)
  let ?S = "\<lambda>c. concat (map (\<lambda>j. map (Pair (clu_lba i c j)) [0..<16]) [0..<sec_per_clus i])"
  have v: "valid_clu i c" using Cons.prems by simp
  have "distinct (concat (map (\<lambda>j. map (Pair (clu_lba i c j)) [0..<16]) [0..<n]))" if "n \<le> sec_per_clus i" for n
    using that
  proof (induction n)
    case (Suc n)
    have "set (map (Pair (clu_lba i c n)) [0..<16]) \<inter>
        set (concat (map (\<lambda>j. map (Pair (clu_lba i c j)) [0..<16]) [0..<n])) = {}"
      by (auto simp: clu_lba_def)
    then show ?case using Suc by (auto simp: distinct_map inj_on_def simp del: upt_conv_Cons)
  qed simp
  then have d: "distinct (?S c)" by simp
  have "set (?S c) \<inter> set (slot_list i cs) = {}"
  proof -
    have False if p: "p \<in> set (?S c)" "p \<in> set (slot_list i cs)" for p
    proof -
      obtain j where j: "j < sec_per_clus i" "fst p = clu_lba i c j" using p(1) by auto
      obtain c' j' where c': "c' \<in> set cs" "j' < sec_per_clus i" "fst p = clu_lba i c' j'"
        using slot_list_range [OF p(2)] by auto
      then show False using clu_lba_inj [OF v _ j(1), of c' j'] j(2) Cons.prems by auto
    qed
    then show ?thesis by blast
  qed
  then show ?case using d Cons by (simp add: slot_list_def)
qed

lemma free_slots_find: "free_slots b k n = List.find (\<lambda>x. slot_free (b ! (x * 32))) [k..<k + n]"
proof (induction n arbitrary: k)
  case (Suc n)
  have "[k..<k + Suc n] = k # [k + 1..<k + 1 + n]" by (simp add: upt_rec)
  then show ?case using Suc.IH [of "k + 1"] by (simp del: upt_Suc)
qed simp

lemma find_map_pair: "List.find (\<lambda>p. P (snd p)) (map (Pair x) ks) = map_option (Pair x) (List.find P ks)"
  by (induction ks) simp_all

lemma find_append: "List.find P (xs @ ys) = (case List.find P xs of None \<Rightarrow> List.find P ys | Some x \<Rightarrow> Some x)"
  by (induction xs) simp_all

lemma free_sectors_find:
  assumes ok: "vol_ok s i" and c: "valid_clu i c"
  shows "k + n \<le> sec_per_clus i \<Longrightarrow> free_sectors c k n s =
    (Ret (List.find (free_at s) (concat (map (\<lambda>j. map (Pair (clu_lba i c j)) [0..<16]) [k..<k + n]))), s)"
proof (induction n arbitrary: k)
  case 0
  then show ?case by simp
next
  case (Suc n)
  have k: "k < sec_per_clus i" using Suc.prems by simp
  note cs = clus_sector_ok [OF ok c k]
  have up: "[k..<k + Suc n] = k # [k + 1..<k + 1 + n]" by (simp add: upt_rec)
  let ?b = "disk s (slot_addr s i c k)"
  have rd: "raw_read (clu_lba i c k) s = (Ret (Some ?b), s)" using raw_read_served [OF cs(2)] by (simp add: slot_addr_def)
  have "List.find (free_at s) (map (Pair (clu_lba i c k)) [0..<16]) = map_option (Pair (clu_lba i c k)) (free_slots ?b 0 16)"
  proof -
    have "List.find (free_at s) (map (Pair (clu_lba i c k)) [0..<16]) =
        List.find (\<lambda>p. slot_free (?b ! (snd p * 32))) (map (Pair (clu_lba i c k)) [0..<16])"
      by (rule find_cong) (auto simp: free_at_def slot_addr_def)
    then show ?thesis
      using free_slots_find [of ?b 0 16] find_map_pair [of "\<lambda>x. slot_free (?b ! (x * 32))" "clu_lba i c k" "[0..<16]"]
      by simp
  qed
  then show ?case unfolding up using cs(1) rd Suc.IH [of "k + 1"] Suc.prems
    by (simp add: bnd_def find_append del: upt_Suc upt_conv_Cons split: option.split)
qed

lemma free_clusters_find:
  assumes ok: "vol_ok s i"
  shows "linked (fat_get s i) cs \<Longrightarrow> \<forall>c \<in> set cs. valid_clu i c \<Longrightarrow> length cs \<le> g \<Longrightarrow>
    List.find (free_at s) (slot_list i cs) = Some p \<Longrightarrow> free_clusters g (sec_per_clus i) (hd cs) s = (Ret p, s)"
proof (induction cs arbitrary: g)
  case Nil
  then show ?case by simp
next
  case (Cons c cs)
  obtain h where g: "g = Suc h" using Cons.prems(3) by (cases g) auto
  have v: "valid_clu i c" "c < cluster_count i + 2" using Cons.prems(2) by (auto simp: valid_clu_def)
  let ?S = "concat (map (\<lambda>j. map (Pair (clu_lba i c j)) [0..<16]) [0..<sec_per_clus i])"
  have sl: "slot_list i (c # cs) = ?S @ slot_list i cs" by (simp add: slot_list_def)
  have fs: "free_sectors c 0 (sec_per_clus i) s = (Ret (List.find (free_at s) ?S), s)"
    using free_sectors_find [OF ok v(1), of 0 "sec_per_clus i"] by simp
  have rf: "read_fat c s = (Ret (fat_get s i c), s)" by (rule read_fat_ok [OF ok v(2)])
  show ?case
  proof (cases "List.find (free_at s) ?S")
    case (Some q)
    then have "q = p" using Cons.prems(4) unfolding sl find_append by simp
    then show ?thesis using fs Some by (simp add: g bnd_def)
  next
    case None
    then have nx: "List.find (free_at s) (slot_list i cs) = Some p" using Cons.prems(4) unfolding sl find_append by simp
    then obtain d ds where cs: "cs = d # ds" by (cases cs) (auto simp: slot_list_def)
    have lk: "fat_get s i c = d" "linked (fat_get s i) cs" using Cons.prems(1) cs by simp_all
    have vd: "valid_clu i d" using Cons.prems(2) cs by simp
    have ne: "\<not> is_eoc d" using valid_not_eoc [OF ok vd] .
    have "free_clusters h (sec_per_clus i) (hd cs) s = (Ret p, s)"
      using Cons.IH [of h] lk(2) Cons.prems g nx by simp
    then show ?thesis using fs None rf lk(1) ne cs by (simp add: g bnd_def)
  qed
qed

lemma find_split:
  "List.find P xs = Some x \<Longrightarrow> \<exists>ys zs. xs = ys @ x # zs \<and> (\<forall>y \<in> set ys. \<not> P y) \<and> P x"
proof (induction xs)
  case (Cons a xs)
  show ?case
  proof (cases "P a")
    case True
    then show ?thesis using Cons.prems by (intro exI [of _ "[]"] exI [of _ xs]) simp
  next
    case False
    then obtain ys zs where "xs = ys @ x # zs" "\<forall>y \<in> set ys. \<not> P y" "P x" using Cons by auto
    then show ?thesis using False by (intro exI [of _ "a # ys"] exI [of _ zs]) simp
  qed
qed simp

fun clean_tail :: "(byte list \<times> nat) list \<Rightarrow> bool" where
  "clean_tail [] = True"
| "clean_tail ((b, k) # r) = (if b ! (k * 32) = 0 then list_all (\<lambda>(b', k'). b' ! (k' * 32) = 0) r else clean_tail r)"

lemma listing_append:
  "\<forall>y \<in> set xs. fst y ! (snd y * 32) \<noteq> 0 \<Longrightarrow> listing (xs @ ys) = listing xs @ listing ys"
  by (induction xs rule: listing.induct) auto

lemma clean_tail_append:
  "\<forall>y \<in> set xs. fst y ! (snd y * 32) \<noteq> 0 \<Longrightarrow> clean_tail (xs @ ys) = clean_tail ys"
  by (induction xs rule: listing.induct) auto

lemma listing_zeros: "list_all (\<lambda>(b, k). b ! (k * 32) = 0) r \<Longrightarrow> listing r = []"
  by (cases r) auto

definition dir_ok :: "fsys \<Rightarrow> fat_info \<Rightarrow> nat list \<Rightarrow> bool" where
  "dir_ok s i cs = (vol_ok s i \<and> chain_ok s i cs \<and> clean_tail (dir_slots s i cs))"

definition entry_put :: "nat \<Rightarrow> nat \<Rightarrow> dir_entry \<Rightarrow> fsys \<Rightarrow> fsys" where
  "entry_put lba k e s = s\<lparr>disk := (disk s)(fs_base s + lba := put_entry (disk s (fs_base s + lba)) (k * 32) e),
     power := power s - 1\<rparr>"

lemma write_entry_ok:
  assumes "served s lba" and "1 \<le> power s"
  shows "write_entry_at lba k e s = (Ret (), entry_put lba k e s)"
  using assms by (simp add: write_entry_at_def bnd_def raw_read_served raw_write_served entry_put_def)

lemma entry_put_listing:
  assumes ok: "dir_ok s i cs" and wf: "entry_wf e"
    and fnd: "List.find (free_at s) (slot_list i cs) = Some (lba, k)"
  shows "vol_ok (entry_put lba k e s) i" and "chain_ok (entry_put lba k e s) i cs" and "served s lba"
    and "\<exists>xs ys. listing (dir_slots s i cs) = xs @ ys \<and> listing (dir_slots (entry_put lba k e s) i cs) = xs @ e # ys"
proof -
  let ?s = "entry_put lba k e s" and ?b = "disk s (fs_base s + lba)"
  have vol: "vol_ok s i" and ch: "chain_ok s i cs" and tail: "clean_tail (dir_slots s i cs)"
    using ok by (simp_all add: dir_ok_def)
  have so: "length (disk s a) = 512" for a using vol_ok_facts(4) [OF vol] by (simp add: sectors_ok_def)
  have e: "length (de_name e) = 11" "de_cluster e < 2 ^ 32" "de_size e < 2 ^ 32" using wf by (simp_all add: entry_wf_def)
  obtain P Q where sl: "slot_list i cs = P @ (lba, k) # Q" and P: "\<forall>p \<in> set P. \<not> free_at s p" and x: "free_at s (lba, k)"
    using find_split [OF fnd] by blast
  have "(lba, k) \<in> set (slot_list i cs)" using sl by simp
  then obtain c j where c: "c \<in> set cs" "j < sec_per_clus i" "lba = clu_lba i c j" "k < 16"
    using slot_list_range [of "(lba, k)" i cs] by auto
  have v: "valid_clu i c" using c(1) ch by (simp add: chain_ok_def)
  show sv: "served s lba" using clus_sector_ok(2) [OF vol v c(2)] c(3) by simp
  have k32: "k * 32 + 32 \<le> length ?b" using c(4) so by simp
  have d: "disk ?s a = (if a = fs_base s + lba then put_entry ?b (k * 32) e else disk s a)" for a
    by (simp add: entry_put_def)
  have fb: "fs_base ?s = fs_base s" by (simp add: entry_put_def)
  show vol': "vol_ok ?s i"
    by (rule vol_ok_cong [OF _ _ _ vol]) (use so e(1) k32 in \<open>auto simp: entry_put_def same_hw_def sectors_ok_def\<close>)
  have "fat_get ?s i y = fat_get s i y" if "y \<in> set cs" for y
  proof -
    have y: "y < cluster_count i + 2" using that ch by (auto simp: chain_ok_def valid_clu_def)
    have "rsvc i + y * 4 div 512 < data_start i"
      using fat_copy_served(2) [OF vol y, of 0] vol_ok_facts(2) [OF vol] by simp
    then have "fs_base s + (rsvc i + y * 4 div 512) \<noteq> fs_base s + lba" using c(3) by (simp add: clu_lba_def)
    then show ?thesis by (simp add: fat_get_def d fb)
  qed
  then show "chain_ok ?s i cs" using ch linked_cong [of cs "fat_get ?s i" "fat_get s i"] by (simp add: chain_ok_def)
  have dist: "distinct (P @ (lba, k) # Q)" using slot_list_distinct [of cs i] ch sl by (simp add: chain_ok_def)
  have same: "same_slot (slot_at s p) (slot_at ?s p)" if p: "p \<in> set P \<union> set Q" for p
  proof (cases "fst p = lba")
    case False
    then show ?thesis by (simp add: slot_at_def fb d)
  next
    case True
    obtain m where m: "p = (lba, m)" using True by (cases p) simp
    have "m < 16" using slot_list_range [of p i cs] p m sl by auto
    moreover have "m \<noteq> k" using p m dist by auto
    then have "m * 32 + 32 \<le> k * 32 \<or> k * 32 + 32 \<le> m * 32" by presburger
    ultimately show ?thesis
      using same_slot_bytes [of m ?b "put_entry ?b (k * 32) e"] put_entry_other [OF e(1) k32, of "m * 32"] so e(1) k32
      by (simp add: m slot_at_def fb d)
  qed
  have lP: "listing (map (slot_at ?s) P) = listing (map (slot_at s) P)"
    by (rule listing_same [symmetric]) (use same in \<open>auto simp: list.rel_map intro!: list.rel_refl_strong\<close>)
  have lQ: "listing (map (slot_at ?s) Q) = listing (map (slot_at s) Q)"
    by (rule listing_same [symmetric]) (use same in \<open>auto simp: list.rel_map intro!: list.rel_refl_strong\<close>)
  have nz: "\<forall>y \<in> set (map (slot_at s) P). fst y ! (snd y * 32) \<noteq> 0"
    using P by (auto simp: free_at_def slot_free_def slot_at_def)
  have nz': "\<forall>y \<in> set (map (slot_at ?s) P). fst y ! (snd y * 32) \<noteq> 0"
  proof
    fix y assume "y \<in> set (map (slot_at ?s) P)"
    then obtain p where p: "p \<in> set P" "y = slot_at ?s p" by auto
    then have "fst y ! (snd y * 32) = fst (slot_at s p) ! (snd (slot_at s p) * 32)"
      using same [of p] by (simp add: same_slot_def)
    then show "fst y ! (snd y * 32) \<noteq> 0" using nz p(1) by simp
  qed
  have new: "listing (map (slot_at ?s) ((lba, k) # Q)) = e # listing (map (slot_at s) Q)"
    using entry_roundtrip [OF e(1) k32 e(2,3)] wf lQ
    by (simp add: slot_at_def fb d hidden_def entry_wf_def slot_free_def)
  have old: "listing (map (slot_at s) ((lba, k) # Q)) = listing (map (slot_at s) Q)"
  proof (cases "?b ! (k * 32) = 0")
    case True
    have "clean_tail (map (slot_at s) ((lba, k) # Q))"
      using tail clean_tail_append [OF nz] by (simp add: dir_slots_map sl)
    then have "list_all (\<lambda>(b', k'). b' ! (k' * 32) = 0) (map (slot_at s) Q)" using True by (simp add: slot_at_def)
    then show ?thesis using True listing_zeros by (simp add: slot_at_def)
  next
    case False
    then have "hidden ?b k" using x by (simp add: free_at_def slot_free_def hidden_def)
    then show ?thesis using False by (simp add: slot_at_def)
  qed
  show "\<exists>xs ys. listing (dir_slots s i cs) = xs @ ys \<and> listing (dir_slots ?s i cs) = xs @ e # ys"
    using listing_append [OF nz, of "map (slot_at s) ((lba, k) # Q)"]
      listing_append [OF nz', of "map (slot_at ?s) ((lba, k) # Q)"] old new lP
    by (simp add: dir_slots_map sl del: listing.simps) blast
qed

text \<open>The name of a leaf is a legal entry name.\<close>

lemma make_83_entry:
  assumes "make_83 name = Inr n"
  shows "length n = 11" and "\<not> slot_free (n ! 0)" and "\<not> is_dots n"
proof -
  show l: "length n = 11" by (rule make_83_length [OF assms])
  have nd: "n ! 0 \<noteq> 46" using make_83_no_dot [OF assms] l by (metis nth_mem zero_less_numeral)
  then show "\<not> is_dots n" by (simp add: is_dots_def)
  obtain c b e where c: "takeWhile (\<lambda>c. c \<noteq> DOT) name = c # b" "name_char c" "n ! 0 = upper (of_nat c)"
    using assms by (cases "takeWhile (\<lambda>c. c \<noteq> DOT) name")
      (auto simp: make_83_rule rule_83_def Let_def padded_def split: if_splits)
  have "(of_nat c :: byte) < 128" "(of_nat c :: byte) \<noteq> 0" using c(2) bad_byte [of 0 c]
    by (auto simp: name_char_def word_less_nat_alt)
  then have "upper (of_nat c) < (128 :: byte)" "upper (of_nat c) \<noteq> (0 :: byte)"
    by (auto simp: upper_def unat_arith_simps split: if_splits)
  then show "\<not> slot_free (n ! 0)" using c(3) by (auto simp: slot_free_def)
qed

lemma find_insert: "List.find P (xs @ e # ys) = (if P e \<and> List.find P xs = None then Some e else List.find P (xs @ ys))"
  by (simp add: find_append split: option.split)

text \<open>\<open>touch\<close> of a new name in the root directory succeeds when a slot is free; afterwards the
  name is found as an empty file, reading it gives no bytes, touching it again changes
  nothing, and every other name is found, or not found, as before.
\<close>

theorem touch_creates_file:
  assumes "dir_ok s i (root_clus i # cs)" and "n_parts (cwd_st s) = 0" and "SLASH \<notin> set leaf"
    and "make_83 leaf = Inr n" and "look_up (root_clus i) n s = (Fail NotFound, s)"
    and "List.find (free_at s) (slot_list i (root_clus i # cs)) \<noteq> None" and "1 \<le> power s"
  shows "\<exists>s'. fat_touch leaf s = (Ret (), s') \<and>
     look_up (root_clus i) n s' = (Ret \<lparr>de_name = n, de_attr = ATTR_ARCHIVE, de_cluster = 0, de_size = 0\<rparr>, s') \<and>
     fat_read_file leaf 4096 s' = (Ret [], s') \<and> fat_touch leaf s' = (Ret (), s') \<and>
     (\<forall>m. m \<noteq> n \<longrightarrow> fst (look_up (root_clus i) m s') = fst (look_up (root_clus i) m s))"
proof -
  let ?r = "root_clus i" and ?e = "\<lparr>de_name = n, de_attr = ATTR_ARCHIVE, de_cluster = 0, de_size = 0\<rparr>"
  have vol: "vol_ok s i" and ch: "chain_ok s i (?r # cs)" using assms(1) by (simp_all add: dir_ok_def)
  obtain lba k where fnd: "List.find (free_at s) (slot_list i (?r # cs)) = Some (lba, k)" using assms(6) by auto
  have wf: "entry_wf ?e" using make_83_entry [OF assms(4)] by (simp add: entry_wf_def ATTR_ARCHIVE_def ATTR_LFN_def)
  let ?s = "entry_put lba k ?e s"
  note p = entry_put_listing [OF assms(1) wf fnd]
  obtain xs ys where l: "listing (dir_slots s i (?r # cs)) = xs @ ys" "listing (dir_slots ?s i (?r # cs)) = xs @ ?e # ys"
    using p(4) by blast
  note lk = look_up_listing [OF vol ch] and lk' = look_up_listing [OF p(1,2)]
  have none: "List.find (\<lambda>e. de_name e = n) (xs @ ys) = None"
    using assms(5) lk [of n] l(1) by (cases "List.find (\<lambda>e. de_name e = n) (xs @ ys)") auto
  then have found: "look_up ?r n ?s = (Ret ?e, ?s)"
    using lk' [of n] l(2) by (simp add: find_insert find_append split: option.splits)
  have others: "fst (look_up ?r m ?s) = fst (look_up ?r m s)" if "m \<noteq> n" for m
    using lk [of m] lk' [of m] l that by (simp add: find_insert split: option.split)
  have res: "resolve_from_cwd [] t = (Ret ?r, t)" if "fat_st t = Some i" "n_parts (cwd_st t) = 0" for t
    using that by (simp add: resolve_from_cwd_def cwd_cluster_def cluster_from_cwd_def bnd_def resolve_def
        fat_info_or_panic_def resolve_from.simps pop_comp_def strip_slashes_def)
  have wl: "with_leaf leaf f t = f ?r n t" if "fat_st t = Some i" "n_parts (cwd_st t) = 0" for f :: "nat \<Rightarrow> byte list \<Rightarrow> 'b fsop" and t
    using that res assms(4) by (simp add: with_leaf_def split_parent_plain [OF assms(3)] bnd_def)
  have st: "fat_st s = Some i" "fat_st ?s = Some i" "n_parts (cwd_st ?s) = 0"
    using vol_ok_facts(1) [OF vol] assms(2) by (simp_all add: entry_put_def)
  have free: "find_free_slot ?r s = (Ret (lba, k), s)"
    using free_clusters_find [OF vol, of "?r # cs" "cluster_count i + 2"] ch fnd chain_length [OF ch] st(1)
    by (simp add: find_free_slot_def fat_info_or_panic_def bnd_def chain_ok_def)
  have t1: "fat_touch leaf s = (Ret (), ?s)"
    unfolding fat_touch_def wl [OF st(1) assms(2)]
    using assms(5) free write_entry_ok [OF p(3) assms(7)] by (simp add: exists_in_def attempt_def bnd_def)
  have t2: "fat_touch leaf ?s = (Ret (), ?s)"
    unfolding fat_touch_def wl [OF st(2,3)] using found by (simp add: exists_in_def attempt_def bnd_def)
  have t3: "fat_read_file leaf 4096 ?s = (Ret [], ?s)"
    unfolding fat_read_file_def wl [OF st(2,3)]
    using found by (simp add: bnd_def is_dir_def ATTR_ARCHIVE_def ATTR_DIRECTORY_def)
  show ?thesis using t1 t2 t3 found others by blast
qed

section \<open>A fresh root directory\<close>

definition vr :: fsys where
  "vr = vw (\<lambda>a. if a = 32 then w32 zero_sector 8 FAT_EOC_MASK else zero_sector)"

lemma vr_ok: "vol_ok vr vw_info"
  unfolding vr_def by (rule vw_ok) (simp add: sectors_ok_def zero_sector_def)

lemma vr_chain: "chain_ok vr vw_info [2]"
proof -
  have "fat_get vr vw_info 2 = FAT_EOC_MASK"
    by (simp add: vr_def fat_get_def vw_info_def zero_sector_def rd_wr_same FAT_EOC_MASK_def)
  then show ?thesis by (simp add: chain_ok_def valid_clu_def vw_info_def)
qed

lemma vr_slots: "x \<in> set (dir_slots vr vw_info [2]) \<Longrightarrow> fst x ! (snd x * 32) = 0"
  by (auto simp: dir_slots_def vr_def slot_addr_def clu_lba_def vw_info_def zero_sector_def)

lemma vr_empty: "listing (dir_slots vr vw_info [2]) = []" and vr_tail: "clean_tail (dir_slots vr vw_info [2])"
proof -
  have "(\<forall>x \<in> set L. fst x ! (snd x * 32) = 0) \<Longrightarrow> listing L = [] \<and> clean_tail L" for L
    by (induction L rule: listing.induct) (auto simp: list_all_iff)
  then show "listing (dir_slots vr vw_info [2]) = []" "clean_tail (dir_slots vr vw_info [2])"
    using vr_slots by blast+
qed

lemma vr_look_up: "look_up 2 n vr = (Fail NotFound, vr)"
  using look_up_listing [OF vr_ok vr_chain] by (simp add: vr_empty)

text \<open>The same volume with one file in its root directory.\<close>

definition one_entry :: dir_entry where
  "one_entry = \<lparr>de_name = 65 # replicate 10 32, de_attr = ATTR_ARCHIVE, de_cluster = 9, de_size = 3\<rparr>"

definition vf :: fsys where
  "vf = vw (\<lambda>a. if a = 32 then w32 zero_sector 8 FAT_EOC_MASK
     else if a = 1072 then put_entry zero_sector 0 one_entry else zero_sector)"

lemma vf_ok: "vol_ok vf vw_info"
  unfolding vf_def by (rule vw_ok) (simp add: sectors_ok_def zero_sector_def one_entry_def)

lemma vf_chain: "chain_ok vf vw_info [2]"
proof -
  have "fat_get vf vw_info 2 = FAT_EOC_MASK"
    by (simp add: vf_def fat_get_def vw_info_def zero_sector_def rd_wr_same FAT_EOC_MASK_def)
  then show ?thesis by (simp add: chain_ok_def valid_clu_def vw_info_def)
qed

lemma vf_listing: "listing (dir_slots vf vw_info [2]) = [one_entry]"
proof -
  let ?b = "put_entry zero_sector 0 one_entry"
  have n: "length (de_name one_entry) = 11" by (simp add: one_entry_def)
  have l: "length zero_sector = 512" by (simp add: zero_sector_def)
  have e: "entry_at ?b 0 = one_entry" "?b ! 0 = 65" "?b ! 11 = ATTR_ARCHIVE"
    using entry_roundtrip [of one_entry 0 zero_sector] n l by (simp_all add: one_entry_def)
  have o': "?b ! 32 = 0"
    using put_entry_other [of one_entry 0 zero_sector 32 0] n l by (simp add: zero_sector_def)
  have h: "\<not> hidden ?b 0" using e by (simp add: hidden_def is_dots_def one_entry_def ATTR_ARCHIVE_def ATTR_LFN_def)
  have "disk vf (slot_addr vf vw_info 2 0) = ?b"
    by (simp add: vf_def slot_addr_def clu_lba_def vw_info_def)
  moreover have "[0..<16] = 0 # 1 # [2..<16]" by (simp add: upt_rec)
  ultimately have "dir_slots vf vw_info [2] = (?b, 0) # (?b, 1) # map (Pair ?b) [2..<16]"
    by (simp add: dir_slots_def vw_info_def)
  then show ?thesis using e o' h by simp
qed

theorem look_up_refines_listing_witness:
  "look_up 2 (65 # replicate 10 32) vf = (Ret one_entry, vf) \<and> look_up 2 (66 # replicate 10 32) vf = (Fail NotFound, vf)"
  using look_up_refines_listing [OF vf_ok vf_chain] by (simp add: vf_listing) (simp add: one_entry_def)

theorem touch_creates_file_witness:
  "\<exists>s'. fat_touch [97] vr = (Ret (), s') \<and> fat_read_file [97] 4096 s' = (Ret [], s')"
proof -
  have r: "root_clus vw_info = 2" by (simp add: vw_info_def)
  have m: "make_83 [97] = Inr (65 # replicate 10 32)" by code_simp
  have "(1072, 0) \<in> set (slot_list vw_info [2]) \<and> free_at vr (1072, 0)"
    by (auto simp: slot_list_def vw_info_def clu_lba_def free_at_def vr_def zero_sector_def slot_free_def)
  then have f: "List.find (free_at vr) (slot_list vw_info [2]) \<noteq> None" by (auto simp: find_None_iff)
  have d: "dir_ok vr vw_info [2]" using vr_ok vr_chain vr_tail by (simp add: dir_ok_def)
  have p: "n_parts (cwd_st vr) = 0" "1 \<le> power vr" by (simp_all add: vr_def vw_def)
  from touch_creates_file [of vr vw_info "[]" "[97]" "65 # replicate 10 32"] r m f d p vr_look_up
  show ?thesis by auto
qed

section \<open>The size of the table\<close>

text \<open>
  The formatter shrinks the table after the data area was computed with the larger one, so
  the clusters it then counts can outnumber the entries.
\<close>

lemma table_256M: "fat_sz_of 524288 = Some 4032"
proof -
  have "(32 :: nat) = Suc (Suc 30)" by simp
  then show ?thesis unfolding fat_sz_of_def by (simp only: fat_sz_loop.simps Let_def) simp
qed

text \<open>on a disk of 524288 sectors (256 MiB) the table the formatter lays out is one sector short
  of the clusters it counts: recording a chain link for cluster 516096, which the allocator
  may hand out, replaces the first sector of the root directory by a sector of the table.
\<close>

theorem short_table_overwrites_root:
  assumes "fat_sz_of 524288 = Some f" and "i = mkfs_info 524288 f" and "fat_st s = Some i"
    and "\<forall>k < 524288. served s k" and "2 \<le> power s"
  shows "valid_clu i 516096 \<and> (\<exists>s'. write_fat 516096 v s = (Ret True, s') \<and>
     disk s' (fs_base s + clu_lba i (root_clus i) 0) = w32 (disk s (fs_base s + rsvc i + fat_size i)) 0 v)"
proof -
  have f: "f = 4032" using assms(1) table_256M by simp
  have i: "rsvc i = 32" "num_fats i = 2" "fat_size i = 4032" "root_clus i = 2" "data_start i = 8096"
    "cluster_count i = 516192" "sec_per_clus i = 1"
    using assms(2) by (simp_all add: mkfs_info_def f)
  have w: "write_fats 4064 4032 0 2 b s =
      (Ret True, s\<lparr>disk := copies (fs_base s + 4064) 4032 0 2 b (disk s), power := power s - 2\<rparr>)" for b
    by (rule write_fats_ok) (use assms(4,5) in auto)
  have "raw_read 4064 s = (Ret (Some (disk s (fs_base s + 4064))), s)" using assms(4) by (simp add: raw_read_served)
  then have run: "write_fat 516096 v s = (Ret True, s\<lparr>disk := copies (fs_base s + 4064) 4032 0 2
      (w32 (disk s (fs_base s + 4064)) 0 v) (disk s), power := power s - 2\<rparr>)"
    using assms(3) i w by (simp add: write_fat_def fat_info_or_panic_def bnd_def Let_def)
  have "\<exists>g \<ge> 0. g < 0 + 2 \<and> fs_base s + 8096 = fs_base s + 4064 + g * (4032 :: nat)"
    by (intro exI [of _ 1]) simp
  then have "copies (fs_base s + 4064) 4032 0 2 b d (fs_base s + 8096) = b" for b d
    by (simp add: copies_def)
  then show ?thesis using run i by (simp add: valid_clu_def clu_lba_def add.commute)
qed

definition v256 :: fsys where
  "v256 = (vw (\<lambda>_. zero_sector))\<lparr>devs := [\<lparr>present = True, dev_sectors = 524288\<rparr>], fat_st := Some (mkfs_info 524288 4032)\<rparr>"

theorem short_table_overwrites_root_witness:
  "\<exists>s'. write_fat 516096 7 v256 = (Ret True, s') \<and> disk s' 8096 = w32 zero_sector 0 7"
proof -
  have sv: "\<forall>k < 524288. served v256 k" by (simp add: served_def v256_def vw_def data_device_def)
  have s: "fat_st v256 = Some (mkfs_info 524288 4032)" "2 \<le> power v256" "fs_base v256 = 0" "disk v256 = (\<lambda>_. zero_sector)"
    by (simp_all add: v256_def)
  from short_table_overwrites_root [OF table_256M refl s(1) sv s(2), of 7] show ?thesis
    using s by (simp add: mkfs_info_def clu_lba_def)
qed

end
