(* ===== verification/Journal.thy ===== *)
theory Journal
  imports Disk
begin

text \<open>
  The write-ahead journal of the ext4 driver (\<open>kernel/src/ext4.rs\<close>): journal-aware block
  reads and writes, commit, replay and the part of the mount that opens the journal.  The
  commit is analysed as the list of block writes it performs; cutting the power after any
  number of sectors and replaying gives either the state before the transaction or the state
  after it.  The states in which the code leaves that safe regime are shown as well.
\<close>

section \<open>The code\<close>

definition JOURNAL_BLOCKS :: nat where "JOURNAL_BLOCKS = 1024"
definition JBD_MAGIC :: nat where "JBD_MAGIC = 0xC03B3998"
definition JBD_BLOCK_DESC :: nat where "JBD_BLOCK_DESC = 2"
definition JBD_BLOCK_COMMIT :: nat where "JBD_BLOCK_COMMIT = 3"
definition MAX_PEND :: nat where "MAX_PEND = 1020"

definition zero_block :: "byte list" where "zero_block = replicate BLOCK 0"

definition is_jbd_block :: "nat \<Rightarrow> nat \<Rightarrow> bool" where
  "is_jbd_block base blk = (base \<le> blk \<and> blk < base + JOURNAL_BLOCKS)"

text \<open>An addition that overflows shows up as the overflow of the sector number.\<close>

definition read_block :: "nat \<Rightarrow> byte list option fsop" where
  "read_block blk = bnd (gets jbd_st) (\<lambda>jo. case jo of
     None \<Rightarrow> read_block_raw blk
   | Some j \<Rightarrow>
      (if j_active j then
         (case List.find (\<lambda>e. fst e = blk) (j_pend j) of
            Some e \<Rightarrow> read_block_raw (j_base j + snd e)
          | None \<Rightarrow> read_block_raw blk)
       else read_block_raw blk))"

definition jbd_write_super :: "jbd \<Rightarrow> unit fsop" where
  "jbd_write_super j =
    bnd (read_block_raw (j_base j)) (\<lambda>r. case r of
       None \<Rightarrow> fail Io
     | Some sb \<Rightarrow>
        bnd (write_block_raw (j_base j) (w32 (w32 sb 8 (j_seq j)) 12 (j_start j))) (\<lambda>ok.
        assert_or Io ok))"

fun put_numbers :: "nat \<Rightarrow> nat list \<Rightarrow> byte list \<Rightarrow> byte list" where
  "put_numbers off [] d = d"
| "put_numbers off (b # bs) d = put_numbers (off + 4) bs (w32 d off b)"

definition desc_block :: "nat \<Rightarrow> nat list \<Rightarrow> byte list" where
  "desc_block seq blks = put_numbers 16 blks
     (w32 (w32 (w32 (w32 zero_block 0 JBD_MAGIC) 4 JBD_BLOCK_DESC) 8 seq) 12 (length blks))"

definition commit_block :: "nat \<Rightarrow> u32 \<Rightarrow> nat \<Rightarrow> byte list" where
  "commit_block seq chk n =
     w32 (w32 (w32 (w32 (w32 zero_block 0 JBD_MAGIC) 4 JBD_BLOCK_COMMIT) 8 seq) 12 (unat chk)) 16 n"

text \<open>The two loops over the logged blocks: checksum and redo.\<close>

fun log_sum :: "nat \<Rightarrow> nat \<Rightarrow> u32 \<Rightarrow> u32 fsop" where
  "log_sum slot 0 c = ret c"
| "log_sum slot (Suc n) c = bnd (read_block_raw slot) (\<lambda>r. case r of
     None \<Rightarrow> fail Io
   | Some db \<Rightarrow> log_sum (slot + 1) n (crc32c c db))"

fun apply_log :: "nat \<Rightarrow> nat list \<Rightarrow> unit fsop" where
  "apply_log slot [] = ret ()"
| "apply_log slot (b # bs) = bnd (read_block_raw slot) (\<lambda>r. case r of
     None \<Rightarrow> fail Io
   | Some db \<Rightarrow> bnd (write_block_raw b db) (\<lambda>ok. bnd (assert_or Io ok) (\<lambda>_. apply_log (slot + 1) bs)))"

definition first_slot :: "jbd \<Rightarrow> nat" where
  "first_slot j = (if j_start j = 0 then 1 else j_start j)"

definition next_start :: "nat \<Rightarrow> nat \<Rightarrow> nat" where
  "next_start start n = (let x = start + 2 + n in if JOURNAL_BLOCKS - 1 < x then 1 else x)"

definition jbd_commit_locked :: "unit fsop" where
  "jbd_commit_locked = bnd (gets jbd_st) (\<lambda>jo. case jo of
     None \<Rightarrow> ret ()
   | Some j \<Rightarrow>
      (if \<not> j_active j \<or> j_pend j = [] then ret ()
       else (let n = length (j_pend j); start = first_slot j; blks = map fst (j_pend j);
                 d = desc_block (j_seq j) blks;
                 j' = j\<lparr>j_start := next_start start n, j_seq := j_seq j + 1, j_pend := []\<rparr> in
         bnd (log_sum (j_base j + start + 1) n (crc32c (NOT 0) d)) (\<lambda>chk.
         bnd (write_block_raw (j_base j + start) d) (\<lambda>ok. bnd (assert_or Io ok) (\<lambda>_.
         bnd (write_block_raw (j_base j + start + 1 + n) (commit_block (j_seq j) chk n)) (\<lambda>ok.
         bnd (assert_or Io ok) (\<lambda>_.
         bnd (apply_log (j_base j + start + 1) blks) (\<lambda>_.
         bnd (guard_panic (j_seq j + 1 < 2 ^ 32)) (\<lambda>_.
         bnd (modify (\<lambda>s. s\<lparr>jbd_st := Some j'\<rparr>)) (\<lambda>_.
         jbd_write_super j')))))))))))"

definition jbd_commit :: "unit fsop" where
  "jbd_commit = jbd_commit_locked"

text \<open>
  Before a new block joins the transaction: wrap an empty one to the start of the ring, or
  commit a full one.  The wrap stays in memory.
\<close>

definition make_room :: "jbd \<Rightarrow> bool fsop" where
  "make_room j = (if j_pend j = [] then
      bnd (modify (\<lambda>s. s\<lparr>jbd_st := Some
        (if JOURNAL_BLOCKS - 1 < j_start j + 2 then j\<lparr>j_start := 1\<rparr> else j)\<rparr>)) (\<lambda>_. ret True)
    else if length (j_pend j) = MAX_PEND \<or> JOURNAL_BLOCKS - 1 < j_start j + length (j_pend j) + 2 then
      bnd (attempt jbd_commit_locked) (\<lambda>r. ret (case r of Inl e \<Rightarrow> False | Inr u \<Rightarrow> True))
    else ret True)"

definition write_block :: "nat \<Rightarrow> byte list \<Rightarrow> bool fsop" where
  "write_block blk b = bnd (gets jbd_st) (\<lambda>jo. case jo of
     None \<Rightarrow> write_block_raw blk b
   | Some j \<Rightarrow>
      (if j_active j \<and> \<not> is_jbd_block (j_base j) blk then
         (case List.find (\<lambda>e. fst e = blk) (j_pend j) of
            Some e \<Rightarrow> write_block_raw (j_base j + snd e) b
          | None \<Rightarrow>
             bnd (make_room j) (\<lambda>go.
             if \<not> go then ret False
             else bnd (gets jbd_st) (\<lambda>jo1. case jo1 of
                None \<Rightarrow> panic
              | Some j1 \<Rightarrow>
                 (let pos = j_start j1 + 1 + length (j_pend j1) in
                  bnd (write_block_raw (j_base j1 + pos) b) (\<lambda>ok.
                  if \<not> ok then ret False
                  else bnd (modify (\<lambda>s. s\<lparr>jbd_st := Some (j1\<lparr>j_pend := j_pend j1 @ [(blk, pos)]\<rparr>)\<rparr>))
                    (\<lambda>_. ret True))))))
       else write_block_raw blk b))"

text \<open>
  One round of the replay loop: the next start, or nothing when the loop ends.
\<close>

definition is_record :: "nat \<Rightarrow> nat \<Rightarrow> byte list \<Rightarrow> bool" where
  "is_record kind seq d = (r32 d 0 = JBD_MAGIC \<and> r32 d 4 = kind \<and> r32 d 8 = seq)"

definition desc_numbers :: "byte list \<Rightarrow> nat \<Rightarrow> nat list" where
  "desc_numbers d n = map (\<lambda>k. r32 d (16 + 4 * k)) [0..<n]"

definition replay_round :: "jbd \<Rightarrow> nat option fsop" where
  "replay_round j = (let start = first_slot j in
    if JOURNAL_BLOCKS < start + 2 then ret None
    else bnd (read_block_raw (j_base j + start)) (\<lambda>r. case r of
       None \<Rightarrow> fail Io
     | Some d \<Rightarrow>
        (if \<not> is_record JBD_BLOCK_DESC (j_seq j) d then ret None
         else (let n = r32 d 12 in
          if MAX_PEND < n \<or> JOURNAL_BLOCKS < start + 2 + n then ret None
          else bnd (read_block_raw (j_base j + start + 1 + n)) (\<lambda>rc. case rc of
             None \<Rightarrow> fail Io
           | Some c \<Rightarrow>
              (if \<not> is_record JBD_BLOCK_COMMIT (j_seq j) c then ret None
               else bnd (log_sum (j_base j + start + 1) n (crc32c (NOT 0) d)) (\<lambda>chk.
                 if r32 c 12 \<noteq> unat chk then ret None
                 else bnd (apply_log (j_base j + start + 1) (desc_numbers d n)) (\<lambda>_.
                   ret (Some (next_start start n))))))))))"

function jbd_replay :: "jbd \<Rightarrow> fsys \<Rightarrow> (fs_err, jbd) outcome \<times> fsys" where
  "jbd_replay j s = (case replay_round j s of
     (Ret None, s') \<Rightarrow> (Ret j, s')
   | (Ret (Some start), s') \<Rightarrow>
       (if j_seq j + 1 < 2 ^ 32 then jbd_replay (j\<lparr>j_start := start, j_seq := j_seq j + 1\<rparr>) s'
        else (Panic, s'))
   | (Fail e, s') \<Rightarrow> (Fail e, s')
   | (Panic, s') \<Rightarrow> (Panic, s')
   | (PowerOff, s') \<Rightarrow> (PowerOff, s')
   | (Hang, s') \<Rightarrow> (Hang, s'))"
  by pat_completeness auto
termination
  by (relation "measure (\<lambda>(j, s). 2 ^ 32 - j_seq j)") auto

declare jbd_replay.simps [simp del]

text \<open>The second half of \<open>jbd_init\<close>, once the journal's first block is known.\<close>

definition jbd_open :: "nat \<Rightarrow> unit fsop" where
  "jbd_open base = bnd (read_block_raw base) (\<lambda>r. case r of
     None \<Rightarrow> fail Io
   | Some sb \<Rightarrow>
      (if r32 sb 0 \<noteq> JBD_MAGIC then ret ()
       else (let start = r32 sb 12;
                 j = \<lparr>j_base = base, j_start = (if start = 0 \<or> JOURNAL_BLOCKS \<le> start then 1 else start),
                      j_seq = r32 sb 8, j_active = True, j_pend = []\<rparr> in
         bnd (jbd_replay j) (\<lambda>j'. modify (\<lambda>s. s\<lparr>jbd_st := Some j'\<rparr>)))))"

section \<open>What an operation writes\<close>

text \<open>
  \<open>does m W r J s\<close>: from \<open>s\<close>, with power enough for the block writes \<open>W\<close>, the operation
  returns \<open>r\<close> having done just those writes and left \<open>J\<close> as the journal state; otherwise
  it is cut off in the middle of \<open>W\<close>.
\<close>

definition wrs :: "nat \<Rightarrow> (nat \<times> byte list) list \<Rightarrow> (nat \<Rightarrow> byte list) \<Rightarrow> nat \<Rightarrow> byte list" where
  "wrs s0 W d = fold (put_blk s0 8) W d"

definition cut :: "nat \<Rightarrow> (nat \<times> byte list) list \<Rightarrow> nat \<Rightarrow> (nat \<Rightarrow> byte list) \<Rightarrow> nat \<Rightarrow> byte list" where
  "cut s0 W p d = put_blk s0 (p mod 8) (W ! (p div 8)) (wrs s0 (take (p div 8) W) d)"

definition does :: "'a fsop \<Rightarrow> (nat \<times> byte list) list \<Rightarrow> 'a \<Rightarrow> jbd option \<Rightarrow> fsys \<Rightarrow> bool" where
  "does m W r J s =
    (if 8 * length W \<le> power s
     then m s = (Ret r, s\<lparr>disk := wrs (fs_base s) W (disk s), power := power s - 8 * length W, jbd_st := J\<rparr>)
     else \<exists>J'. m s = (PowerOff, s\<lparr>disk := cut (fs_base s) W (power s) (disk s), power := 0, jbd_st := J'\<rparr>))"

definition after :: "(nat \<times> byte list) list \<Rightarrow> jbd option \<Rightarrow> fsys \<Rightarrow> fsys" where
  "after W J s = s\<lparr>disk := wrs (fs_base s) W (disk s), power := power s - 8 * length W, jbd_st := J\<rparr>"

lemma after_simps [simp]:
  "disk (after W J s) = wrs (fs_base s) W (disk s)" "power (after W J s) = power s - 8 * length W"
  "jbd_st (after W J s) = J" "fs_base (after W J s) = fs_base s" "same_hw s (after W J s)"
  by (simp_all add: after_def)

lemma wrs_append: "wrs s0 (V @ W) d = wrs s0 W (wrs s0 V d)"
  by (simp add: wrs_def)

lemma wrs_simps [simp]: "wrs s0 [] d = d" "wrs s0 (w # W) d = wrs s0 W (put_blk s0 8 w d)"
  by (simp_all add: wrs_def)

lemma cut_append1: "p < 8 * length V \<Longrightarrow> cut s0 (V @ W) p d = cut s0 V p d"
proof -
  assume "p < 8 * length V"
  then have "p div 8 < length V" by (simp add: less_mult_imp_div_less mult.commute)
  then show ?thesis by (simp add: cut_def nth_append)
qed

lemma cut_append2: "8 * length V \<le> p \<Longrightarrow> cut s0 (V @ W) p d = cut s0 W (p - 8 * length V) (wrs s0 V d)"
proof -
  assume le: "8 * length V \<le> p"
  then obtain q where q: "p = 8 * length V + q" using le_Suc_ex by blast
  then have "p div 8 = length V + q div 8" "p mod 8 = q mod 8" by simp_all
  then show ?thesis using q by (simp add: cut_def wrs_append)
qed

lemma does_bnd:
  assumes m: "does m V a J s" and f: "does (f a) W b K (after V J s)"
  shows "does (bnd m f) (V @ W) b K s"
proof (cases "8 * length V \<le> power s")
  case True
  have ms: "m s = (Ret a, after V J s)" using m True by (simp add: does_def after_def)
  then have r: "bnd m f s = f a (after V J s)" by (simp add: bnd_def)
  show ?thesis
  proof (cases "8 * length W \<le> power (after V J s)")
    case 2: True
    then have "8 * length (V @ W) \<le> power s" using True by simp
    then show ?thesis using f 2 r unfolding does_def by (simp add: wrs_append after_def)
  next
    case 2: False
    then have "\<not> 8 * length (V @ W) \<le> power s" using True by simp
    then show ?thesis using f 2 r True unfolding does_def by (auto simp: cut_append2 after_def)
  qed
next
  case False
  then obtain J' where "m s = (PowerOff, s\<lparr>disk := cut (fs_base s) V (power s) (disk s), power := 0, jbd_st := J'\<rparr>)"
    using m by (auto simp: does_def)
  then show ?thesis using False by (auto simp: does_def bnd_def cut_append1)
qed

lemma does_cong: "m' s = m s \<Longrightarrow> does m W r J s \<Longrightarrow> does m' W r J s"
  by (simp add: does_def)

lemma does_set: "does m W r J (s\<lparr>jbd_st := K\<rparr>) \<Longrightarrow> does (\<lambda>s. m (s\<lparr>jbd_st := K\<rparr>)) W r J s"
  unfolding does_def by (cases "8 * length W \<le> power s") auto

lemma does_pure: "m s = (Ret a, s) \<Longrightarrow> jbd_st s = J \<Longrightarrow> does m [] a J s"
  by (simp add: does_def)

lemma does_write:
  "blk_ok s b \<Longrightarrow> jbd_st s = J \<Longrightarrow> does (write_block_raw b x) [(b, x)] True J s"
  by (auto simp: does_def write_block_raw_ok cut_def intro!: exI [of _ "jbd_st s"])

lemma after_nil: "jbd_st s = J \<Longrightarrow> after [] J s = s"
  by (simp add: after_def)

lemma blk_ok_after [simp]: "blk_ok (after W J s) b = blk_ok s b"
  by (rule blk_ok_cong) simp

subsection \<open>Blocks after a list of writes\<close>

lemma blk_at_wrs_other:
  "b \<notin> fst ` set W \<Longrightarrow> blk_at s0 (wrs s0 W d) b = blk_at s0 d b"
  by (induction W arbitrary: d) (auto simp: blk_at_put_other)

definition wfw :: "(nat \<times> byte list) list \<Rightarrow> bool" where
  "wfw W = (\<forall>w \<in> set W. length (snd w) = 4096)"

lemma sectors_ok_wrs: "wfw W \<Longrightarrow> sectors_ok d \<Longrightarrow> sectors_ok (wrs s0 W d)"
  by (induction W arbitrary: d) (auto simp: sectors_ok_put wfw_def)

lemma blk_at_wrs_hit:
  assumes "wfw W" and "b \<in> fst ` set W"
  shows "blk_at s0 (wrs s0 W d) b = blk_at s0 (wrs s0 W d') b"
  using assms
proof (induction W arbitrary: d d')
  case Nil
  then show ?case by simp
next
  case (Cons w W)
  show ?case
  proof (cases "b \<in> fst ` set W")
    case True
    then show ?thesis using Cons by (simp add: wfw_def)
  next
    case False
    then have "b = fst w" using Cons.prems by auto
    then show ?thesis
      using False Cons.prems(1) blk_at_put_same [of "snd w" s0 b] by (simp add: blk_at_wrs_other wfw_def)
  qed
qed

text \<open>The header words of a block of which at least one sector was written.\<close>

lemma rd_sub_hd: "i + n \<le> 512 \<Longrightarrow> rd n (sub 0 512 x) i = rd n x i"
  by (simp add: rd_def sub_def drop_take)

lemma hdr_torn:
  assumes "sectors_ok d" and "length x = 4096" and "0 < k" and "k \<le> 8" and "i + n \<le> 512"
  shows "rd n (blk_at s0 (put_blk s0 k (b, x) d) b) i = rd n x i"
proof -
  have "rd n (blk_at s0 (put_blk s0 k (b, x) d) b) i = rd n (put_blk s0 k (b, x) d (s0 + 8 * b)) i"
    by (rule rd_blk_hd) (use assms sectors_ok_put in auto)
  then show ?thesis using assms by (simp add: put_blk_def rd_sub_hd)
qed

section \<open>Records of the log\<close>

lemma zero_block_length [simp]: "length zero_block = 4096"
  by (simp add: zero_block_def BLOCK_def)

lemma put_numbers_length: "off + 4 * length bs \<le> length d \<Longrightarrow> length (put_numbers off bs d) = length d"
  by (induction bs arbitrary: off d) auto

lemma put_numbers_below:
  "off + 4 * length bs \<le> length d \<Longrightarrow> p + n \<le> off \<Longrightarrow> rd n (put_numbers off bs d) p = rd n d p"
  by (induction bs arbitrary: off d) (auto simp: rd_wr_other)

lemma put_numbers_at:
  "off + 4 * length bs \<le> length d \<Longrightarrow> k < length bs \<Longrightarrow>
     r32 (put_numbers off bs d) (off + 4 * k) = bs ! k mod 2 ^ 32"
proof (induction bs arbitrary: off d k)
  case Nil
  then show ?case by simp
next
  case (Cons b bs)
  show ?case
  proof (cases k)
    case 0
    then show ?thesis using Cons.prems by (simp add: put_numbers_below rd_wr_same)
  next
    case (Suc m)
    then show ?thesis using Cons.IH [of "off + 4" "w32 d off b" m] Cons.prems by (simp add: algebra_simps)
  qed
qed

lemma desc_block_facts:
  assumes "length blks \<le> MAX_PEND" and "seq < 2 ^ 32" and "\<forall>b \<in> set blks. b < 2 ^ 32"
  shows "length (desc_block seq blks) = 4096" and "is_record JBD_BLOCK_DESC seq (desc_block seq blks)"
    and "r32 (desc_block seq blks) 12 = length blks"
    and "desc_numbers (desc_block seq blks) (length blks) = blks"
proof -
  have l: "16 + 4 * length blks \<le> 4096" using assms(1) by (simp add: MAX_PEND_def)
  note defs = desc_block_def JBD_MAGIC_def JBD_BLOCK_DESC_def
  show "length (desc_block seq blks) = 4096" using l by (simp add: desc_block_def put_numbers_length)
  show "is_record JBD_BLOCK_DESC seq (desc_block seq blks)"
    using l assms(2) by (simp add: is_record_def defs put_numbers_below rd_wr_same rd_wr_other)
  show "r32 (desc_block seq blks) 12 = length blks"
    using l by (simp add: defs put_numbers_below rd_wr_same rd_wr_other)
  show "desc_numbers (desc_block seq blks) (length blks) = blks"
  proof (rule nth_equalityI)
    fix k assume "k < length (desc_numbers (desc_block seq blks) (length blks))"
    then have k: "k < length blks" by (simp add: desc_numbers_def)
    then have "blks ! k mod 2 ^ 32 = blks ! k" using assms(3) by simp
    then show "desc_numbers (desc_block seq blks) (length blks) ! k = blks ! k"
      using k l by (simp add: desc_numbers_def desc_block_def put_numbers_at)
  qed (simp add: desc_numbers_def)
qed

lemma commit_block_facts:
  assumes "seq < 2 ^ 32"
  shows "length (commit_block seq chk n) = 4096" and "is_record JBD_BLOCK_COMMIT seq (commit_block seq chk n)"
    and "r32 (commit_block seq chk n) 12 = unat chk"
proof -
  have "unat chk < 2 ^ 32" using unsigned_less [of chk] by simp
  then show "r32 (commit_block seq chk n) 12 = unat chk"
    by (simp add: commit_block_def rd_wr_same rd_wr_other)
  show "length (commit_block seq chk n) = 4096" by (simp add: commit_block_def)
  show "is_record JBD_BLOCK_COMMIT seq (commit_block seq chk n)"
    using assms by (simp add: commit_block_def is_record_def JBD_MAGIC_def JBD_BLOCK_COMMIT_def
        rd_wr_same rd_wr_other)
qed

lemma record_kinds: "is_record JBD_BLOCK_DESC q d \<Longrightarrow> \<not> is_record JBD_BLOCK_COMMIT q' d"
  by (simp add: is_record_def JBD_BLOCK_DESC_def JBD_BLOCK_COMMIT_def)

section \<open>Commit\<close>

definition log_blocks :: "nat \<Rightarrow> (nat \<Rightarrow> byte list) \<Rightarrow> nat \<Rightarrow> nat \<Rightarrow> byte list list" where
  "log_blocks s0 d slot n = map (blk_at s0 d) [slot..<slot + n]"

lemma log_blocks_Suc: "log_blocks s0 d slot (Suc n) = blk_at s0 d slot # log_blocks s0 d (Suc slot) n"
  by (simp add: log_blocks_def upt_rec)

lemma log_blocks_0 [simp]: "log_blocks s0 d slot 0 = []"
  by (simp add: log_blocks_def)

lemma log_blocks_length [simp]: "length (log_blocks s0 d slot n) = n"
  by (simp add: log_blocks_def)

lemma log_blocks_cong:
  "(\<And>x. slot \<le> x \<Longrightarrow> x < slot + n \<Longrightarrow> blk_at s0 d' x = blk_at s0 d x) \<Longrightarrow>
     log_blocks s0 d' slot n = log_blocks s0 d slot n"
  by (simp add: log_blocks_def)

lemma log_sum_ok:
  "(\<And>x. slot \<le> x \<Longrightarrow> x < slot + n \<Longrightarrow> blk_ok s x) \<Longrightarrow>
     log_sum slot n c s = (Ret (foldl crc32c c (log_blocks (fs_base s) (disk s) slot n)), s)"
  by (induction n arbitrary: slot c) (simp_all add: log_blocks_Suc bnd_def read_block_raw_ok)

lemma apply_log_does:
  assumes "\<And>x. slot \<le> x \<Longrightarrow> x < slot + length bs \<Longrightarrow> blk_ok s x"
    and "\<And>b. b \<in> set bs \<Longrightarrow> blk_ok s b \<and> (b < slot \<or> slot + length bs \<le> b)" and "jbd_st s = J"
  shows "does (apply_log slot bs) (zip bs (log_blocks (fs_base s) (disk s) slot (length bs))) () J s"
  using assms
proof (induction bs arbitrary: slot s)
  case Nil
  then show ?case by (simp add: does_pure)
next
  case (Cons b bs)
  let ?db = "blk_at (fs_base s) (disk s) slot" and ?s = "after [(b, blk_at (fs_base s) (disk s) slot)] J s"
  have rd: "read_block_raw slot s = (Ret (Some ?db), s)" using Cons.prems(1) by (simp add: read_block_raw_ok)
  have b: "blk_ok s b" "b < slot \<or> slot + length (b # bs) \<le> b" using Cons.prems(2) by auto
  have wr: "does (write_block_raw b ?db) [(b, ?db)] True J s"
    using b(1) Cons.prems(3) by (rule does_write)
  have lb: "log_blocks (fs_base ?s) (disk ?s) (slot + 1) (length bs) =
      log_blocks (fs_base s) (disk s) (slot + 1) (length bs)"
    by (simp only: after_simps, rule log_blocks_cong) (use b(2) in \<open>auto simp: blk_at_put_other\<close>)
  have rest: "does (apply_log (slot + 1) bs)
      (zip bs (log_blocks (fs_base s) (disk s) (slot + 1) (length bs))) () J ?s"
    unfolding lb [symmetric]
    by (rule Cons.IH) (use Cons.prems in fastforce)+
  have "does (bnd (write_block_raw b ?db) (\<lambda>ok. bnd (assert_or Io ok) (\<lambda>_. apply_log (slot + 1) bs)))
      ([(b, ?db)] @ zip bs (log_blocks (fs_base s) (disk s) (slot + 1) (length bs))) () J s"
    by (rule does_bnd [OF wr]) (use rest in \<open>simp add: assert_or_def\<close>)
  then have "does (apply_log slot (b # bs))
      ([(b, ?db)] @ zip bs (log_blocks (fs_base s) (disk s) (slot + 1) (length bs))) () J s"
    by (rule does_cong [rotated]) (simp add: bnd_Ret rd)
  then show ?case by (simp add: log_blocks_Suc)
qed

text \<open>The journal of a mounted file system that can be relied on: its area is served, the pending
  blocks lie outside it and the transaction fits between the current start and the end of
  the ring.\<close>

definition journal_ok :: "fsys \<Rightarrow> jbd \<Rightarrow> bool" where
  "journal_ok s j = (j_active j \<and> 1 \<le> j_start j \<and> j_start j + 1 + length (j_pend j) \<le> JOURNAL_BLOCKS - 1 \<and>
     length (j_pend j) \<le> MAX_PEND \<and> j_seq j + 1 < 2 ^ 32 \<and>
     (\<forall>x < JOURNAL_BLOCKS. blk_ok s (j_base j + x)) \<and>
     (\<forall>b \<in> fst ` set (j_pend j). blk_ok s b \<and> \<not> is_jbd_block (j_base j) b))"

definition pend_blocks :: "jbd \<Rightarrow> nat list" where
  "pend_blocks j = map fst (j_pend j)"

definition logged :: "fsys \<Rightarrow> jbd \<Rightarrow> byte list list" where
  "logged s j = log_blocks (fs_base s) (disk s) (j_base j + j_start j + 1) (length (j_pend j))"

definition home_writes :: "fsys \<Rightarrow> jbd \<Rightarrow> (nat \<times> byte list) list" where
  "home_writes s j = zip (pend_blocks j) (logged s j)"

definition the_desc :: "jbd \<Rightarrow> byte list" where
  "the_desc j = desc_block (j_seq j) (pend_blocks j)"

definition the_commit :: "fsys \<Rightarrow> jbd \<Rightarrow> byte list" where
  "the_commit s j = commit_block (j_seq j) (foldl crc32c (crc32c (NOT 0) (the_desc j)) (logged s j)) (length (j_pend j))"

definition committed :: "jbd \<Rightarrow> jbd" where
  "committed j = j\<lparr>j_start := next_start (j_start j) (length (j_pend j)), j_seq := j_seq j + 1, j_pend := []\<rparr>"

definition super_write :: "fsys \<Rightarrow> jbd \<Rightarrow> nat \<times> byte list" where
  "super_write s j = (j_base j, w32 (w32 (blk_at (fs_base s) (disk s) (j_base j)) 8 (j_seq (committed j)))
     12 (j_start (committed j)))"

text \<open>The writes of a commit, in order: descriptor, seal, redo, superblock.\<close>

definition commit_writes :: "fsys \<Rightarrow> jbd \<Rightarrow> (nat \<times> byte list) list" where
  "commit_writes s j =
    [(j_base j + j_start j, the_desc j), (j_base j + j_start j + 1 + length (j_pend j), the_commit s j)] @
    home_writes s j @ [super_write s j]"

lemma not_jbd: "\<not> is_jbd_block base b \<longleftrightarrow> b < base \<or> base + 1024 \<le> b"
  by (auto simp: is_jbd_block_def JOURNAL_BLOCKS_def)

lemma home_targets: "fst ` set (home_writes s j) = set (pend_blocks j)"
proof -
  have "map fst (home_writes s j) = pend_blocks j"
    by (simp add: home_writes_def logged_def pend_blocks_def)
  then show ?thesis by (metis list.set_map)
qed

lemma assert_True [simp]: "assert_or e True = ret ()"
  by (simp add: assert_or_def)

lemma super_does:
  assumes "blk_ok s (j_base j)"
  shows "does (jbd_write_super j)
    [(j_base j, w32 (w32 (blk_at (fs_base s) (disk s) (j_base j)) 8 (j_seq j)) 12 (j_start j))] () (jbd_st s) s"
proof -
  let ?x = "w32 (w32 (blk_at (fs_base s) (disk s) (j_base j)) 8 (j_seq j)) 12 (j_start j)"
  have "does (bnd (write_block_raw (j_base j) ?x) (assert_or Io)) ([(j_base j, ?x)] @ []) () (jbd_st s) s"
    by (rule does_bnd [OF does_write [OF assms refl]]) (simp add: does_pure)
  then have "does (bnd (write_block_raw (j_base j) ?x) (assert_or Io)) [(j_base j, ?x)] () (jbd_st s) s" by simp
  then show ?thesis
    by (rule does_cong [rotated]) (simp add: jbd_write_super_def bnd_Ret read_block_raw_ok [OF assms])
qed

lemma commit_does:
  assumes ok: "journal_ok s j" and st: "jbd_st s = Some j" and ne: "j_pend j \<noteq> []"
  shows "does jbd_commit_locked (commit_writes s j) () (Some (committed j)) s"
proof -
  let ?B = "j_base j" and ?S = "j_start j" and ?n = "length (j_pend j)" and ?J = "Some j"
  have fit: "1 \<le> ?S" "?S + 1 + ?n \<le> 1023" and area: "\<And>x. x < 1024 \<Longrightarrow> blk_ok s (?B + x)"
    and pend: "\<And>b. b \<in> set (pend_blocks j) \<Longrightarrow> blk_ok s b \<and> (b < ?B \<or> ?B + 1024 \<le> b)"
    and seq: "j_seq j + 1 < 2 ^ 32" and act: "j_active j"
    using ok by (auto simp: journal_ok_def JOURNAL_BLOCKS_def pend_blocks_def not_jbd)
  have fs: "first_slot j = ?S" using fit by (simp add: first_slot_def)
  have slots: "blk_ok s x" if "?B + ?S + 1 \<le> x" "x < ?B + ?S + 1 + ?n" for x
    using area [of "x - ?B"] that fit by simp
  let ?chk = "foldl crc32c (crc32c (NOT 0) (the_desc j)) (logged s j)"
  have sum: "log_sum (?B + ?S + 1) ?n (crc32c (NOT 0) (the_desc j)) s = (Ret ?chk, s)"
    unfolding logged_def by (rule log_sum_ok) (rule slots)
  define s1 where "s1 = after [(?B + ?S, the_desc j)] ?J s"
  define s2 where "s2 = after [(?B + ?S + 1 + ?n, the_commit s j)] ?J s1"
  define s3 where "s3 = after (home_writes s j) ?J s2"
  define s4 where "s4 = s3\<lparr>jbd_st := Some (committed j)\<rparr>"
  have hw: "same_hw s s1" "same_hw s s2" "same_hw s s3" "same_hw s s4"
    by (simp_all add: s1_def s2_def s3_def s4_def same_hw_def after_def)
  have base: "fs_base s1 = fs_base s" "fs_base s2 = fs_base s" "fs_base s3 = fs_base s" "fs_base s4 = fs_base s"
    by (simp_all add: s1_def s2_def s3_def s4_def)
  have w1: "does (write_block_raw (?B + ?S) (the_desc j)) [(?B + ?S, the_desc j)] True ?J s"
    by (rule does_write) (use area [of ?S] fit st in simp_all)
  have w2: "does (write_block_raw (?B + ?S + 1 + ?n) (the_commit s j))
      [(?B + ?S + 1 + ?n, the_commit s j)] True ?J s1"
    by (rule does_write) (use area [of "?S + 1 + ?n"] fit blk_ok_cong [OF hw(1)] in \<open>simp_all add: s1_def add.assoc\<close>)
  have pb: "length (pend_blocks j) = ?n" by (simp add: pend_blocks_def)
  have lb: "log_blocks (fs_base s2) (disk s2) (?B + ?S + 1) (length (pend_blocks j)) = logged s j"
    unfolding logged_def base pb
    by (rule log_blocks_cong) (simp add: s2_def s1_def blk_at_put_other)
  have w3: "does (apply_log (?B + ?S + 1) (pend_blocks j)) (home_writes s j) () ?J s2"
    unfolding home_writes_def lb [symmetric]
  proof (rule apply_log_does)
    show "blk_ok s2 x" if "?B + ?S + 1 \<le> x" "x < ?B + ?S + 1 + length (pend_blocks j)" for x
      using slots that blk_ok_cong [OF hw(2)] by (simp add: pend_blocks_def)
    show "blk_ok s2 b \<and> (b < ?B + ?S + 1 \<or> ?B + ?S + 1 + length (pend_blocks j) \<le> b)"
      if "b \<in> set (pend_blocks j)" for b
      using pend [OF that] fit blk_ok_cong [OF hw(2)] by (auto simp: pend_blocks_def)
    show "jbd_st s2 = ?J" by (simp add: s2_def)
  qed
  have sup: "blk_at (fs_base s4) (disk s4) ?B = blk_at (fs_base s) (disk s) ?B"
  proof -
    have "?B \<notin> set (pend_blocks j)" using pend [of ?B] by auto
    then show ?thesis
      using fit unfolding s4_def s3_def s2_def s1_def
      by (simp add: blk_at_wrs_other home_targets blk_at_put_other)
  qed
  have w4: "does (jbd_write_super (committed j)) [super_write s j] () (Some (committed j)) s4"
    using super_does [of s4 "committed j"] area [of 0] blk_ok_cong [OF hw(4)] sup
    by (simp add: super_write_def committed_def s4_def)
  have tail: "does (\<lambda>s. jbd_write_super (committed j) (s\<lparr>jbd_st := Some (committed j)\<rparr>))
      [super_write s j] () (Some (committed j)) s3"
    by (rule does_set) (use w4 in \<open>simp add: s4_def\<close>)
  let ?f = "bnd (guard_panic (j_seq j + 1 < 2 ^ 32)) (\<lambda>_.
         bnd (modify (\<lambda>s. s\<lparr>jbd_st := Some (committed j)\<rparr>)) (\<lambda>_. jbd_write_super (committed j)))"
  have f: "?f = (\<lambda>s. jbd_write_super (committed j) (s\<lparr>jbd_st := Some (committed j)\<rparr>))"
    using seq by (auto simp: bnd_def guard_panic_def)
  have "does (bnd (write_block_raw (?B + ?S) (the_desc j)) (\<lambda>ok. bnd (assert_or Io ok) (\<lambda>_.
         bnd (write_block_raw (?B + ?S + 1 + ?n) (the_commit s j)) (\<lambda>ok. bnd (assert_or Io ok) (\<lambda>_.
         bnd (apply_log (?B + ?S + 1) (pend_blocks j)) (\<lambda>_. ?f))))))
      ([(?B + ?S, the_desc j)] @ [(?B + ?S + 1 + ?n, the_commit s j)] @ home_writes s j @ [super_write s j])
      () (Some (committed j)) s"
    unfolding f
    by (rule does_bnd [OF w1], fold s1_def, simp only: assert_True bnd_ret,
        rule does_bnd [OF w2], fold s2_def, simp only: assert_True bnd_ret,
        rule does_bnd [OF w3], fold s3_def, rule tail)
  then have "does jbd_commit_locked
      ([(?B + ?S, the_desc j)] @ [(?B + ?S + 1 + ?n, the_commit s j)] @ home_writes s j @ [super_write s j])
      () (Some (committed j)) s"
    by (rule does_cong [rotated])
      (use act ne st fs sum in \<open>simp add: jbd_commit_locked_def bnd_Ret Let_def committed_def
        pend_blocks_def the_desc_def the_commit_def\<close>)
  then show ?thesis by (simp add: commit_writes_def)
qed

section \<open>Replay\<close>

definition no_seal :: "nat \<Rightarrow> (nat \<Rightarrow> byte list) \<Rightarrow> nat \<Rightarrow> nat \<Rightarrow> bool" where
  "no_seal s0 d base seq = (\<forall>x. 1 \<le> x \<and> x < JOURNAL_BLOCKS \<longrightarrow>
     \<not> is_record JBD_BLOCK_COMMIT seq (blk_at s0 d (base + x)))"

definition area_ok :: "fsys \<Rightarrow> nat \<Rightarrow> bool" where
  "area_ok s base = (\<forall>x < JOURNAL_BLOCKS. blk_ok s (base + x))"

lemma replay_round_none:
  assumes area: "area_ok s (j_base j)" and ns: "no_seal (fs_base s) (disk s) (j_base j) (j_seq j)"
  shows "replay_round j s = (Ret None, s)"
proof -
  let ?S = "first_slot j"
  have S: "1 \<le> ?S" by (simp add: first_slot_def)
  show ?thesis
  proof (cases "JOURNAL_BLOCKS < ?S + 2")
    case True
    then show ?thesis by (simp add: replay_round_def Let_def)
  next
    case False
    let ?d = "blk_at (fs_base s) (disk s) (j_base j + ?S)"
    have rd: "read_block_raw (j_base j + ?S) s = (Ret (Some ?d), s)"
      using area False by (intro read_block_raw_ok) (auto simp: area_ok_def JOURNAL_BLOCKS_def)
    show ?thesis
    proof (cases "is_record JBD_BLOCK_DESC (j_seq j) ?d \<and>
        \<not> (MAX_PEND < r32 ?d 12 \<or> JOURNAL_BLOCKS < ?S + 2 + r32 ?d 12)")
      case True
      let ?n = "r32 ?d 12"
      have x: "?S + 1 + ?n < JOURNAL_BLOCKS" using True by (simp add: JOURNAL_BLOCKS_def)
      have rc: "read_block_raw (j_base j + ?S + 1 + ?n) s =
          (Ret (Some (blk_at (fs_base s) (disk s) (j_base j + ?S + 1 + ?n))), s)"
        using area x by (intro read_block_raw_ok) (auto simp: area_ok_def add.assoc)
      have "\<not> is_record JBD_BLOCK_COMMIT (j_seq j) (blk_at (fs_base s) (disk s) (j_base j + ?S + 1 + ?n))"
        using ns x S unfolding no_seal_def by (auto simp: add.assoc)
      then show ?thesis using False True rd rc by (simp add: replay_round_def Let_def bnd_Ret)
    next
      case 2: False
      then show ?thesis using False rd by (auto simp: replay_round_def Let_def bnd_Ret)
    qed
  qed
qed

lemma replay_none:
  "area_ok s (j_base j) \<Longrightarrow> no_seal (fs_base s) (disk s) (j_base j) (j_seq j) \<Longrightarrow> jbd_replay j s = (Ret j, s)"
  by (subst jbd_replay.simps) (simp add: replay_round_none)

lemma replay_round_some:
  assumes area: "area_ok s (j_base j)" and start: "1 \<le> j_start j" "j_start j + 2 + n \<le> JOURNAL_BLOCKS" "n \<le> MAX_PEND"
    and d: "dd = blk_at (fs_base s) (disk s) (j_base j + j_start j)"
    and dr: "is_record JBD_BLOCK_DESC (j_seq j) dd" "r32 dd 12 = n"
    and c: "cc = blk_at (fs_base s) (disk s) (j_base j + j_start j + 1 + n)"
    and cr: "is_record JBD_BLOCK_COMMIT (j_seq j) cc"
    and lb: "lb = log_blocks (fs_base s) (disk s) (j_base j + j_start j + 1) n"
    and chk: "r32 cc 12 = unat (foldl crc32c (crc32c (NOT 0) dd) lb)"
    and dst: "\<And>b. b \<in> set (desc_numbers dd n) \<Longrightarrow> blk_ok s b \<and> \<not> is_jbd_block (j_base j) b"
    and pw: "8 * n \<le> power s"
  shows "replay_round j s = (Ret (Some (next_start (j_start j) n)), after (zip (desc_numbers dd n) lb) (jbd_st s) s)"
proof -
  let ?B = "j_base j" and ?S = "j_start j"
  have fs: "first_slot j = ?S" using start(1) by (simp add: first_slot_def)
  have rd: "read_block_raw (?B + ?S) s = (Ret (Some dd), s)"
    unfolding d using area start by (intro read_block_raw_ok) (auto simp: area_ok_def JOURNAL_BLOCKS_def)
  have rc: "read_block_raw (?B + ?S + 1 + n) s = (Ret (Some cc), s)"
    unfolding c
  proof (rule read_block_raw_ok)
    have "blk_ok s (?B + x)" if "x < 1024" for x using area that by (simp add: area_ok_def JOURNAL_BLOCKS_def)
    from this [of "?S + 1 + n"] show "blk_ok s (?B + ?S + 1 + n)" using start by (simp add: JOURNAL_BLOCKS_def add.assoc)
  qed
  have slots: "blk_ok s x" if "?B + ?S + 1 \<le> x" "x < ?B + ?S + 1 + n" for x
  proof -
    have "x - ?B < JOURNAL_BLOCKS" "?B + (x - ?B) = x" using that start by (simp_all add: JOURNAL_BLOCKS_def)
    then show ?thesis using area unfolding area_ok_def by metis
  qed
  have sum: "log_sum (?B + ?S + 1) n (crc32c (NOT 0) dd) s = (Ret (foldl crc32c (crc32c (NOT 0) dd) lb), s)"
    unfolding lb by (rule log_sum_ok) (rule slots)
  have len: "length (desc_numbers dd n) = n" by (simp add: desc_numbers_def)
  have "does (apply_log (?B + ?S + 1) (desc_numbers dd n))
      (zip (desc_numbers dd n) (log_blocks (fs_base s) (disk s) (?B + ?S + 1) (length (desc_numbers dd n))))
      () (jbd_st s) s"
  proof (rule apply_log_does)
    show "blk_ok s b \<and> (b < ?B + ?S + 1 \<or> ?B + ?S + 1 + length (desc_numbers dd n) \<le> b)"
      if "b \<in> set (desc_numbers dd n)" for b
      using dst [OF that] start len by (auto simp: not_jbd JOURNAL_BLOCKS_def)
  qed (use slots len in auto)
  then have "apply_log (?B + ?S + 1) (desc_numbers dd n) s = (Ret (), after (zip (desc_numbers dd n) lb) (jbd_st s) s)"
    using pw len lb by (simp add: does_def after_def)
  then show ?thesis
    using fs start rd dr rc cr sum chk by (simp add: replay_round_def Let_def bnd_Ret)
qed

lemma replay_one:
  assumes round: "replay_round j s = (Ret (Some st), s1)" and seq: "j_seq j + 1 < 2 ^ 32"
    and area: "area_ok s1 (j_base j)" and ns: "no_seal (fs_base s1) (disk s1) (j_base j) (j_seq j + 1)"
  shows "jbd_replay j s = (Ret (j\<lparr>j_start := st, j_seq := j_seq j + 1\<rparr>), s1)"
proof -
  have "jbd_replay (j\<lparr>j_start := st, j_seq := j_seq j + 1\<rparr>) s1 = (Ret (j\<lparr>j_start := st, j_seq := j_seq j + 1\<rparr>), s1)"
    by (rule replay_none) (use area ns in simp_all)
  then show ?thesis using round seq by (subst jbd_replay.simps) simp
qed

text \<open>The superblock on the disk that goes with the journal state.\<close>

definition super_at :: "nat \<Rightarrow> (nat \<Rightarrow> byte list) \<Rightarrow> nat \<Rightarrow> nat \<Rightarrow> nat \<Rightarrow> bool" where
  "super_at s0 d base start seq = (r32 (blk_at s0 d base) 0 = JBD_MAGIC \<and>
     r32 (blk_at s0 d base) 8 = seq \<and> r32 (blk_at s0 d base) 12 = start)"

definition fresh_jbd :: "nat \<Rightarrow> nat \<Rightarrow> nat \<Rightarrow> jbd" where
  "fresh_jbd base start seq = \<lparr>j_base = base, j_start = start, j_seq = seq, j_active = True, j_pend = []\<rparr>"

lemma jbd_open_run:
  assumes area: "area_ok s base" and sup: "super_at (fs_base s) (disk s) base start seq"
    and st: "1 \<le> start" "start < JOURNAL_BLOCKS" and run: "jbd_replay (fresh_jbd base start seq) s = (Ret j', s')"
  shows "jbd_open base s = (Ret (), s'\<lparr>jbd_st := Some j'\<rparr>)"
proof -
  have "blk_ok s base" using area [unfolded area_ok_def] by (metis JOURNAL_BLOCKS_def add_0_right zero_less_numeral)
  then show ?thesis
    using sup st run
    by (simp add: jbd_open_def bnd_Ret read_block_raw_ok super_at_def fresh_jbd_def Let_def)
qed

section \<open>Crash points of a commit\<close>

text \<open>What the next mount must find apart from the transaction itself.\<close>

definition log_clean :: "fsys \<Rightarrow> jbd \<Rightarrow> bool" where
  "log_clean s j = (super_at (fs_base s) (disk s) (j_base j) (j_start j) (j_seq j) \<and>
     no_seal (fs_base s) (disk s) (j_base j) (j_seq j) \<and> no_seal (fs_base s) (disk s) (j_base j) (j_seq j + 1) \<and>
     sectors_ok (disk s) \<and> (\<forall>b \<in> set (pend_blocks j). b < 2 ^ 32))"

text \<open>The home blocks once the transaction is done.\<close>

definition new_home :: "fsys \<Rightarrow> jbd \<Rightarrow> nat \<Rightarrow> byte list" where
  "new_home s j b = blk_at (fs_base s) (wrs (fs_base s) (home_writes s j) (disk s)) b"

lemma blk_at_put_eq:
  "k \<le> 8 \<Longrightarrow> b \<noteq> b' \<Longrightarrow> blk_at s0 (put_blk s0 k (b', x) d) b = blk_at s0 d b"
  by (simp add: blk_at_put_other)

lemma no_seal_put:
  assumes ns: "no_seal s0 d base seq" and k: "k \<le> 8"
    and x: "\<And>x. b = base + x \<Longrightarrow> 1 \<le> x \<Longrightarrow> x < JOURNAL_BLOCKS \<Longrightarrow> 0 < k \<Longrightarrow> \<not> is_record JBD_BLOCK_COMMIT seq y"
    and so: "sectors_ok d" and y: "length y = 4096"
  shows "no_seal s0 (put_blk s0 k (b, y) d) base seq"
  unfolding no_seal_def
proof (intro allI impI)
  fix z assume z: "1 \<le> z \<and> z < JOURNAL_BLOCKS"
  show "\<not> is_record JBD_BLOCK_COMMIT seq (blk_at s0 (put_blk s0 k (b, y) d) (base + z))"
  proof (cases "b = base + z \<and> 0 < k")
    case True
    then have "is_record JBD_BLOCK_COMMIT seq (blk_at s0 (put_blk s0 k (b, y) d) b) = is_record JBD_BLOCK_COMMIT seq y"
      using hdr_torn [OF so y _ k] by (simp add: is_record_def)
    then show ?thesis using True x z by auto
  next
    case False
    then have "blk_at s0 (put_blk s0 k (b, y) d) (base + z) = blk_at s0 d (base + z)"
      using k by (cases "k = 0") (auto simp: put_blk_0 blk_at_put_other)
    then show ?thesis using ns z by (simp add: no_seal_def)
  qed
qed

lemma no_seal_wrs:
  assumes ns: "no_seal s0 d base seq" and W: "\<And>b. b \<in> fst ` set W \<Longrightarrow> \<not> is_jbd_block base b"
  shows "no_seal s0 (wrs s0 W d) base seq"
  unfolding no_seal_def
proof (intro allI impI)
  fix x assume x: "1 \<le> x \<and> x < JOURNAL_BLOCKS"
  then have out: "base + x \<notin> fst ` set W" using W [of "base + x"] by (auto simp: is_jbd_block_def)
  show "\<not> is_record JBD_BLOCK_COMMIT seq (blk_at s0 (wrs s0 W d) (base + x))"
    using ns x by (simp add: blk_at_wrs_other [OF out] no_seal_def)
qed

text \<open>
  A disk on which the transaction of \<open>s\<close> is logged and sealed; a disk that was left before
  the seal; a disk on which it is checkpointed.
\<close>

definition sealed :: "fsys \<Rightarrow> jbd \<Rightarrow> (nat \<Rightarrow> byte list) \<Rightarrow> bool" where
  "sealed s j d = (let c = blk_at (fs_base s) d (j_base j + j_start j + 1 + length (j_pend j)) in
     blk_at (fs_base s) d (j_base j + j_start j) = the_desc j \<and>
     is_record JBD_BLOCK_COMMIT (j_seq j) c \<and>
     r32 c 12 = unat (foldl crc32c (crc32c (NOT 0) (the_desc j)) (logged s j)) \<and>
     log_blocks (fs_base s) d (j_base j + j_start j + 1) (length (j_pend j)) = logged s j \<and>
     no_seal (fs_base s) d (j_base j) (j_seq j + 1) \<and> sectors_ok d \<and>
     super_at (fs_base s) d (j_base j) (j_start j) (j_seq j) \<and>
     (\<forall>b. \<not> is_jbd_block (j_base j) b \<longrightarrow> b \<notin> set (pend_blocks j) \<longrightarrow>
        blk_at (fs_base s) d b = blk_at (fs_base s) (disk s) b))"

definition unsealed :: "fsys \<Rightarrow> jbd \<Rightarrow> (nat \<Rightarrow> byte list) \<Rightarrow> bool" where
  "unsealed s j d = (super_at (fs_base s) d (j_base j) (j_start j) (j_seq j) \<and>
     no_seal (fs_base s) d (j_base j) (j_seq j) \<and>
     (\<forall>b. \<not> is_jbd_block (j_base j) b \<longrightarrow> blk_at (fs_base s) d b = blk_at (fs_base s) (disk s) b))"

definition checkpointed :: "fsys \<Rightarrow> jbd \<Rightarrow> (nat \<Rightarrow> byte list) \<Rightarrow> bool" where
  "checkpointed s j d = (super_at (fs_base s) d (j_base j) (j_start (committed j)) (j_seq j + 1) \<and>
     no_seal (fs_base s) d (j_base j) (j_seq j + 1) \<and>
     (\<forall>b. \<not> is_jbd_block (j_base j) b \<longrightarrow> blk_at (fs_base s) d b = new_home s j b))"

lemma journal_ok_facts:
  assumes "journal_ok s j"
  shows "1 \<le> j_start j" and "j_start j + 1 + length (j_pend j) \<le> 1023" and "area_ok s (j_base j)"
    and "\<And>b. b \<in> set (pend_blocks j) \<Longrightarrow> blk_ok s b \<and> \<not> is_jbd_block (j_base j) b"
    and "j_seq j + 1 < 2 ^ 32" and "length (pend_blocks j) = length (j_pend j)"
    and "length (j_pend j) \<le> MAX_PEND" and "j_active j"
  using assms by (auto simp: journal_ok_def JOURNAL_BLOCKS_def area_ok_def pend_blocks_def)

lemma desc_facts:
  assumes "journal_ok s j" and "log_clean s j"
  shows "length (the_desc j) = 4096" and "is_record JBD_BLOCK_DESC (j_seq j) (the_desc j)"
    and "r32 (the_desc j) 12 = length (j_pend j)"
    and "desc_numbers (the_desc j) (length (j_pend j)) = pend_blocks j"
  using desc_block_facts [of "pend_blocks j" "j_seq j"] journal_ok_facts [OF assms(1)] assms(2)
  by (simp_all add: the_desc_def log_clean_def)

lemma next_start_range: "1 \<le> next_start a b \<and> next_start a b < JOURNAL_BLOCKS"
  by (auto simp: next_start_def Let_def JOURNAL_BLOCKS_def)

lemma recover_unsealed:
  assumes ok: "journal_ok s j" and u: "unsealed s j (disk s2)" and hw: "same_hw s s2"
  shows "jbd_open (j_base j) s2 = (Ret (), s2\<lparr>jbd_st := Some (fresh_jbd (j_base j) (j_start j) (j_seq j))\<rparr>)"
proof -
  note f = journal_ok_facts [OF ok]
  have area: "area_ok s2 (j_base j)" using f(3) blk_ok_cong [OF hw] by (simp add: area_ok_def)
  have b: "fs_base s2 = fs_base s" using hw by (simp add: same_hw_def)
  have "jbd_replay (fresh_jbd (j_base j) (j_start j) (j_seq j)) s2 =
      (Ret (fresh_jbd (j_base j) (j_start j) (j_seq j)), s2)"
    by (rule replay_none) (use area u b in \<open>simp_all add: fresh_jbd_def unsealed_def\<close>)
  then show ?thesis
    by (intro jbd_open_run [OF area, where start = "j_start j" and seq = "j_seq j"])
      (use u b f(1,2) in \<open>simp_all add: unsealed_def JOURNAL_BLOCKS_def\<close>)
qed

lemma recover_checkpointed:
  assumes ok: "journal_ok s j" and u: "checkpointed s j (disk s2)" and hw: "same_hw s s2"
  shows "jbd_open (j_base j) s2 = (Ret (), s2\<lparr>jbd_st := Some (committed j)\<rparr>)"
proof -
  note f = journal_ok_facts [OF ok]
  have area: "area_ok s2 (j_base j)" using f(3) blk_ok_cong [OF hw] by (simp add: area_ok_def)
  have b: "fs_base s2 = fs_base s" using hw by (simp add: same_hw_def)
  let ?j = "fresh_jbd (j_base j) (j_start (committed j)) (j_seq j + 1)"
  have "jbd_replay ?j s2 = (Ret ?j, s2)"
    by (rule replay_none) (use area u b in \<open>simp_all add: fresh_jbd_def checkpointed_def\<close>)
  then have "jbd_open (j_base j) s2 = (Ret (), s2\<lparr>jbd_st := Some ?j\<rparr>)"
    by (intro jbd_open_run [OF area, where start = "j_start (committed j)" and seq = "j_seq j + 1"])
      (use u b next_start_range in \<open>simp_all add: checkpointed_def committed_def\<close>)
  moreover have "?j = committed j" using f(8) by (simp add: fresh_jbd_def committed_def)
  ultimately show ?thesis by simp
qed

lemma logged_length [simp]: "length (logged s j) = length (j_pend j)"
  by (simp add: logged_def)

lemma wfw_home: "sectors_ok (disk s) \<Longrightarrow> wfw (home_writes s j)"
  by (auto simp: wfw_def home_writes_def logged_def log_blocks_def blk_at_length dest!: set_zip_rightD)

lemma new_home_any:
  assumes so: "sectors_ok (disk s)"
    and d: "b \<notin> set (pend_blocks j) \<Longrightarrow> blk_at (fs_base s) d b = blk_at (fs_base s) (disk s) b"
  shows "blk_at (fs_base s) (wrs (fs_base s) (home_writes s j) d) b = new_home s j b"
proof (cases "b \<in> fst ` set (home_writes s j)")
  case True
  then show ?thesis unfolding new_home_def by (rule blk_at_wrs_hit [OF wfw_home [OF so]])
next
  case False
  then show ?thesis using d by (simp add: new_home_def blk_at_wrs_other home_targets)
qed

lemma recover_sealed:
  assumes ok: "journal_ok s j" and cl: "log_clean s j" and se: "sealed s j (disk s2)" and hw: "same_hw s s2"
    and pw: "8 * length (j_pend j) \<le> power s2"
  shows "\<exists>s3. jbd_open (j_base j) s2 = (Ret (), s3) \<and> jbd_st s3 = Some (committed j) \<and> same_hw s s3 \<and>
    (\<forall>b. \<not> is_jbd_block (j_base j) b \<longrightarrow> blk_at (fs_base s) (disk s3) b = new_home s j b)"
proof -
  note f = journal_ok_facts [OF ok] and df = desc_facts [OF ok cl]
  let ?n = "length (j_pend j)" and ?j = "fresh_jbd (j_base j) (j_start j) (j_seq j)"
  let ?W = "home_writes s j"
  have area: "area_ok s2 (j_base j)" using f(3) blk_ok_cong [OF hw] by (simp add: area_ok_def)
  have b: "fs_base s2 = fs_base s" using hw by (simp add: same_hw_def)
  have so: "sectors_ok (disk s)" using cl by (simp add: log_clean_def)
  have dst: "blk_ok s2 x \<and> \<not> is_jbd_block (j_base j) x" if "x \<in> set (pend_blocks j)" for x
    using f(4) [OF that] blk_ok_cong [OF hw] by simp
  have round: "replay_round ?j s2 = (Ret (Some (next_start (j_start j) ?n)), after ?W (jbd_st s2) s2)"
    using replay_round_some [of s2 ?j ?n "the_desc j" _ "logged s j"] area se b df f dst pw
    by (simp add: fresh_jbd_def sealed_def Let_def home_writes_def JOURNAL_BLOCKS_def)
  let ?s1 = "after ?W (jbd_st s2) s2"
  have "no_seal (fs_base s) (disk ?s1) (j_base j) (j_seq j + 1)"
    using se b by (simp add: sealed_def Let_def, intro no_seal_wrs) (auto simp: home_targets f(4))
  moreover have "area_ok ?s1 (j_base j)" using area by (simp add: area_ok_def)
  ultimately have "jbd_replay ?j s2 = (Ret (?j\<lparr>j_start := next_start (j_start j) ?n, j_seq := j_seq j + 1\<rparr>), ?s1)"
    using replay_one [OF round] f(5) b by (simp add: fresh_jbd_def)
  moreover have "?j\<lparr>j_start := next_start (j_start j) ?n, j_seq := j_seq j + 1\<rparr> = committed j"
    using f(8) by (simp add: fresh_jbd_def committed_def)
  ultimately have "jbd_open (j_base j) s2 = (Ret (), ?s1\<lparr>jbd_st := Some (committed j)\<rparr>)"
    by (intro jbd_open_run [OF area, where start = "j_start j" and seq = "j_seq j"])
      (use se b f(1,2) in \<open>simp_all add: sealed_def Let_def JOURNAL_BLOCKS_def\<close>)
  moreover have "blk_at (fs_base s) (disk ?s1) x = new_home s j x" if "\<not> is_jbd_block (j_base j) x" for x
    using new_home_any [OF so, of x j "disk s2"] se that b by (simp add: sealed_def Let_def)
  moreover have "same_hw s (?s1\<lparr>jbd_st := Some (committed j)\<rparr>)" using hw by (simp add: same_hw_def after_def)
  ultimately show ?thesis by auto
qed

lemma super_at_put:
  assumes "super_at s0 d base st q" and "b \<noteq> base" and "k \<le> 8"
  shows "super_at s0 (put_blk s0 k (b, y) d) base st q"
  using assms by (simp add: super_at_def blk_at_put_other)

lemma sealed_put:
  assumes ok: "journal_ok s j" and se: "sealed s j d" and b: "b \<in> set (pend_blocks j)"
    and k: "k \<le> 8" and y: "length y = 4096"
  shows "sealed s j (put_blk (fs_base s) k (b, y) d)"
proof -
  note f = journal_ok_facts [OF ok]
  let ?d = "put_blk (fs_base s) k (b, y) d"
  have out: "\<not> is_jbd_block (j_base j) b" using f(4) b by blast
  have keep: "blk_at (fs_base s) ?d (j_base j + x) = blk_at (fs_base s) d (j_base j + x)" if "x < 1024" for x
    using out that k by (intro blk_at_put_eq) (auto simp: is_jbd_block_def JOURNAL_BLOCKS_def)
  have so: "sectors_ok d" using se by (simp add: sealed_def Let_def)
  have k1: "blk_at (fs_base s) ?d (j_base j + j_start j) = blk_at (fs_base s) d (j_base j + j_start j)"
    using keep [of "j_start j"] f(2) by simp
  have k2: "blk_at (fs_base s) ?d (j_base j + j_start j + 1 + length (j_pend j)) =
      blk_at (fs_base s) d (j_base j + j_start j + 1 + length (j_pend j))"
    using keep [of "j_start j + 1 + length (j_pend j)"] f(2) by (simp add: add.assoc)
  have k3: "log_blocks (fs_base s) ?d (j_base j + j_start j + 1) (length (j_pend j)) =
      log_blocks (fs_base s) d (j_base j + j_start j + 1) (length (j_pend j))"
  proof (rule log_blocks_cong)
    fix x assume x: "j_base j + j_start j + 1 \<le> x" "x < j_base j + j_start j + 1 + length (j_pend j)"
    then have "x = j_base j + (x - j_base j)" "x - j_base j < 1024" using f(2) by simp_all
    then show "blk_at (fs_base s) ?d x = blk_at (fs_base s) d x" using keep by metis
  qed
  have k4: "no_seal (fs_base s) ?d (j_base j) (j_seq j + 1)"
    using se out k so y by (intro no_seal_put) (auto simp: sealed_def Let_def is_jbd_block_def)
  have k5: "super_at (fs_base s) ?d (j_base j) (j_start j) (j_seq j)"
    using se out k by (intro super_at_put) (auto simp: sealed_def Let_def is_jbd_block_def JOURNAL_BLOCKS_def)
  have "blk_at (fs_base s) ?d x = blk_at (fs_base s) (disk s) x"
    if "\<not> is_jbd_block (j_base j) x" "x \<notin> set (pend_blocks j)" for x
  proof -
    have "x \<noteq> b" using that b by auto
    then show ?thesis using that se k by (simp add: blk_at_put_eq sealed_def Let_def)
  qed
  then show ?thesis
    using se k1 k2 k3 k4 k5 sectors_ok_put [OF so, of "(b, y)" k] k y by (simp add: sealed_def Let_def)
qed

lemma sealed_wrs:
  assumes ok: "journal_ok s j" and se: "sealed s j d" and W: "\<forall>w \<in> set W. fst w \<in> set (pend_blocks j)" "wfw W"
  shows "sealed s j (wrs (fs_base s) W d)"
  using se W
proof (induction W arbitrary: d)
  case Nil
  then show ?case by simp
next
  case (Cons w W)
  have "sealed s j (put_blk (fs_base s) 8 (fst w, snd w) d)"
    by (rule sealed_put [OF ok Cons.prems(1)]) (use Cons.prems in \<open>simp_all add: wfw_def\<close>)
  then show ?case using Cons by (simp add: wfw_def)
qed

lemma sealed_cut:
  assumes ok: "journal_ok s j" and se: "sealed s j d" and so: "sectors_ok (disk s)"
    and p: "p < 8 * length (home_writes s j)"
  shows "sealed s j (cut (fs_base s) (home_writes s j) p d)"
proof -
  let ?W = "home_writes s j" and ?k = "p div 8"
  have k: "?k < length ?W" using p by (simp add: less_mult_imp_div_less mult.commute)
  have W: "\<forall>w \<in> set ?W. fst w \<in> set (pend_blocks j)" "wfw ?W"
    using home_targets [of s j] wfw_home [OF so] by auto
  have w: "fst (?W ! ?k) \<in> set (pend_blocks j)" "length (snd (?W ! ?k)) = 4096"
    using W k by (auto simp: wfw_def)
  have "sealed s j (wrs (fs_base s) (take ?k ?W) d)"
    by (rule sealed_wrs [OF ok se]) (use W in \<open>auto simp: wfw_def dest: in_set_takeD\<close>)
  from sealed_put [OF ok this w(1) _ w(2), of "p mod 8"] show ?thesis by (simp add: cut_def)
qed

text \<open>After the descriptor and the first sector of the seal.\<close>

lemma sealed_start:
  assumes ok: "journal_ok s j" and cl: "log_clean s j" and k: "0 < k" "k \<le> 8"
  shows "sealed s j (put_blk (fs_base s) k (j_base j + j_start j + 1 + length (j_pend j), the_commit s j)
    (put_blk (fs_base s) 8 (j_base j + j_start j, the_desc j) (disk s)))"
proof -
  note f = journal_ok_facts [OF ok] and df = desc_facts [OF ok cl]
  let ?d1 = "put_blk (fs_base s) 8 (j_base j + j_start j, the_desc j) (disk s)"
  let ?b = "j_base j + j_start j + 1 + length (j_pend j)"
  let ?d2 = "put_blk (fs_base s) k (?b, the_commit s j) ?d1"
  have so: "sectors_ok (disk s)" using cl by (simp add: log_clean_def)
  have so1: "sectors_ok ?d1" using sectors_ok_put [OF so, of "(j_base j + j_start j, the_desc j)" 8] df(1) by simp
  note cf = commit_block_facts [of "j_seq j"
      "foldl crc32c (crc32c (NOT 0) (the_desc j)) (logged s j)" "length (j_pend j)", folded the_commit_def]
  have seq: "j_seq j < 2 ^ 32" using f(5) by simp
  have hdr: "rd n (blk_at (fs_base s) ?d2 ?b) i = rd n (the_commit s j) i" if "i + n \<le> 512" for i n
    by (rule hdr_torn [OF so1 cf(1) [OF seq] k that])
  have rec: "is_record JBD_BLOCK_COMMIT (j_seq j) (blk_at (fs_base s) ?d2 ?b)"
    and sum: "r32 (blk_at (fs_base s) ?d2 ?b) 12 = unat (foldl crc32c (crc32c (NOT 0) (the_desc j)) (logged s j))"
    using cf(2,3) [OF seq] hdr by (simp_all add: is_record_def)
  have desc: "blk_at (fs_base s) ?d2 (j_base j + j_start j) = the_desc j"
    using k df(1) by (simp add: blk_at_put_eq blk_at_put_same)
  have log: "log_blocks (fs_base s) ?d2 (j_base j + j_start j + 1) (length (j_pend j)) = logged s j"
    unfolding logged_def by (rule log_blocks_cong) (use k in \<open>simp add: blk_at_put_eq\<close>)
  have ns1: "no_seal (fs_base s) ?d1 (j_base j) (j_seq j + 1)"
    using cl so df record_kinds [OF df(2)] by (intro no_seal_put) (auto simp: log_clean_def)
  have "\<not> is_record JBD_BLOCK_COMMIT (j_seq j + 1) (the_commit s j)"
    using cf(2) [OF seq] by (simp add: is_record_def)
  then have ns: "no_seal (fs_base s) ?d2 (j_base j) (j_seq j + 1)"
    using no_seal_put [OF ns1 k(2) _ so1 cf(1) [OF seq]] by simp
  have sup: "super_at (fs_base s) ?d2 (j_base j) (j_start j) (j_seq j)"
    using cl f(1) k by (intro super_at_put) (auto simp: log_clean_def)
  have "blk_at (fs_base s) ?d2 x = blk_at (fs_base s) (disk s) x" if "\<not> is_jbd_block (j_base j) x" for x
  proof -
    have "x \<noteq> ?b" "x \<noteq> j_base j + j_start j"
      using that f(2) by (auto simp: is_jbd_block_def JOURNAL_BLOCKS_def)
    then show ?thesis using k by (simp add: blk_at_put_eq)
  qed
  moreover have "sectors_ok ?d2" using sectors_ok_put [OF so1, of "(?b, the_commit s j)" k] cf(1) [OF seq] k by simp
  ultimately show ?thesis using desc rec sum log ns sup by (simp add: sealed_def Let_def)
qed

lemma unsealed_start:
  assumes ok: "journal_ok s j" and cl: "log_clean s j" and k: "k \<le> 8"
  shows "unsealed s j (put_blk (fs_base s) k (j_base j + j_start j, the_desc j) (disk s))"
proof -
  note f = journal_ok_facts [OF ok] and df = desc_facts [OF ok cl]
  let ?d = "put_blk (fs_base s) k (j_base j + j_start j, the_desc j) (disk s)"
  have "super_at (fs_base s) ?d (j_base j) (j_start j) (j_seq j)"
    using cl f(1) k by (intro super_at_put) (auto simp: log_clean_def)
  moreover have "no_seal (fs_base s) ?d (j_base j) (j_seq j)"
    using cl df record_kinds [OF df(2)] k by (intro no_seal_put) (auto simp: log_clean_def)
  moreover have "blk_at (fs_base s) ?d x = blk_at (fs_base s) (disk s) x" if "\<not> is_jbd_block (j_base j) x" for x
    using that f(2) k by (intro blk_at_put_eq) (auto simp: is_jbd_block_def JOURNAL_BLOCKS_def)
  ultimately show ?thesis by (simp add: unsealed_def)
qed

lemma checkpointed_super:
  assumes ok: "journal_ok s j" and cl: "log_clean s j" and se: "sealed s j d"
    and new: "\<And>b. \<not> is_jbd_block (j_base j) b \<Longrightarrow> blk_at (fs_base s) d b = new_home s j b"
    and k: "0 < k" "k \<le> 8"
  shows "checkpointed s j (put_blk (fs_base s) k (super_write s j) d)"
proof -
  note f = journal_ok_facts [OF ok]
  let ?x = "w32 (w32 (blk_at (fs_base s) (disk s) (j_base j)) 8 (j_seq (committed j))) 12 (j_start (committed j))"
  let ?d = "put_blk (fs_base s) k (j_base j, ?x) d"
  have so: "sectors_ok (disk s)" "sectors_ok d" using cl se by (simp_all add: log_clean_def sealed_def Let_def)
  have l0: "length (blk_at (fs_base s) (disk s) (j_base j)) = 4096" by (rule blk_at_length [OF so(1)])
  have lx: "length ?x = 4096" using l0 by simp
  have hdr: "rd n (blk_at (fs_base s) ?d (j_base j)) i = rd n ?x i" if "i + n \<le> 512" for i n
    by (rule hdr_torn [OF so(2) lx k that])
  have "j_start (committed j) < 2 ^ 32"
    using next_start_range [of "j_start j" "length (j_pend j)"] by (simp add: committed_def JOURNAL_BLOCKS_def)
  then have "super_at (fs_base s) ?d (j_base j) (j_start (committed j)) (j_seq j + 1)"
    using cl l0 f(5) hdr
    by (simp add: super_at_def log_clean_def rd_wr_same rd_wr_other committed_def)
  moreover have "no_seal (fs_base s) ?d (j_base j) (j_seq j + 1)"
    using se k lx so(2) by (intro no_seal_put) (auto simp: sealed_def Let_def)
  moreover have "blk_at (fs_base s) ?d b = new_home s j b" if "\<not> is_jbd_block (j_base j) b" for b
  proof -
    have "b \<noteq> j_base j" using that by (auto simp: is_jbd_block_def JOURNAL_BLOCKS_def)
    then show ?thesis using new [OF that] k by (simp add: blk_at_put_eq)
  qed
  ultimately show ?thesis by (simp add: checkpointed_def super_write_def)
qed

text \<open>Where a commit can be cut, counted in sectors that reached the disk.\<close>

definition commit_disk :: "fsys \<Rightarrow> jbd \<Rightarrow> nat \<Rightarrow> nat \<Rightarrow> byte list" where
  "commit_disk s j p = (if 8 * length (commit_writes s j) \<le> p then wrs (fs_base s) (commit_writes s j) (disk s)
     else cut (fs_base s) (commit_writes s j) p (disk s))"

lemma commit_disk_cases:
  assumes ok: "journal_ok s j" and cl: "log_clean s j"
  shows "p \<le> 8 \<Longrightarrow> unsealed s j (commit_disk s j p)"
    and "8 < p \<Longrightarrow> sealed s j (commit_disk s j p) \<or> checkpointed s j (commit_disk s j p)"
proof -
  let ?s0 = "fs_base s" and ?w1 = "(j_base j + j_start j, the_desc j)"
  let ?w2 = "(j_base j + j_start j + 1 + length (j_pend j), the_commit s j)"
  let ?H = "home_writes s j" and ?S = "super_write s j" and ?n = "length (j_pend j)"
  have so: "sectors_ok (disk s)" using cl by (simp add: log_clean_def)
  have W: "commit_writes s j = [?w1, ?w2] @ ?H @ [?S]" by (simp add: commit_writes_def)
  have lenH: "length ?H = ?n" by (simp add: home_writes_def pend_blocks_def)
  have len: "8 * length (commit_writes s j) = 24 + 8 * ?n" by (simp add: W lenH)
  show "unsealed s j (commit_disk s j p)" if p: "p \<le> 8"
  proof (cases "p = 8")
    case True
    then have "commit_disk s j p = put_blk ?s0 8 ?w1 (disk s)"
      using len by (simp add: commit_disk_def cut_def W put_blk_0)
    then show ?thesis using unsealed_start [OF ok cl, of 8] by simp
  next
    case False
    then have "p div 8 = 0" "p mod 8 = p" using p by simp_all
    then have "commit_disk s j p = put_blk ?s0 p ?w1 (disk s)"
      using len p by (simp add: commit_disk_def cut_def W)
    then show ?thesis using unsealed_start [OF ok cl p] by simp
  qed
  let ?d2 = "wrs ?s0 [?w1, ?w2] (disk s)"
  have se2: "sealed s j ?d2" using sealed_start [OF ok cl, of 8] by simp
  let ?d3 = "wrs ?s0 ?H ?d2"
  have se3: "sealed s j ?d3"
    using home_targets [of s j] wfw_home [OF so, of j] by (intro sealed_wrs [OF ok se2]) auto
  have new3: "blk_at ?s0 ?d3 b = new_home s j b" if "\<not> is_jbd_block (j_base j) b" for b
    using new_home_any [OF so, of b j ?d2] se2 that by (simp add: sealed_def Let_def)
  show "sealed s j (commit_disk s j p) \<or> checkpointed s j (commit_disk s j p)" if p: "8 < p"
  proof -
    consider "p < 16" | "16 \<le> p" "p < 16 + 8 * ?n" | "16 + 8 * ?n \<le> p" by linarith
    then show ?thesis
    proof cases
      case 1
      then have "p div 8 = 1" "p mod 8 = p - 8" using p by presburger+
      then have "commit_disk s j p = put_blk ?s0 (p - 8) ?w2 (put_blk ?s0 8 ?w1 (disk s))"
        using len 1 by (simp add: commit_disk_def cut_def W)
      then show ?thesis using sealed_start [OF ok cl, of "p - 8"] p 1 by simp
    next
      case 2
      have "commit_disk s j p = cut ?s0 ([?w1, ?w2] @ ?H @ [?S]) p (disk s)"
        using len 2 by (simp add: commit_disk_def W)
      also have "\<dots> = cut ?s0 (?H @ [?S]) (p - 16) ?d2"
        using 2 cut_append2 [of "[?w1, ?w2]" p ?s0 "?H @ [?S]" "disk s"] by simp
      also have "\<dots> = cut ?s0 ?H (p - 16) ?d2" using 2 lenH by (intro cut_append1) simp
      finally show ?thesis using sealed_cut [OF ok se2 so, of "p - 16"] 2 lenH by simp
    next
      case 3
      define k where "k = (if 24 + 8 * ?n \<le> p then 8 else p - (16 + 8 * ?n))"
      have k: "k \<le> 8" using 3 by (auto simp: k_def)
      have "commit_disk s j p = put_blk ?s0 k ?S ?d3"
      proof (cases "24 + 8 * ?n \<le> p")
        case True
        then show ?thesis using len by (simp add: commit_disk_def k_def W wrs_append)
      next
        case False
        then have "commit_disk s j p = cut ?s0 (([?w1, ?w2] @ ?H) @ [?S]) p (disk s)"
          using len by (simp add: commit_disk_def W)
        also have "\<dots> = cut ?s0 [?S] k (wrs ?s0 ([?w1, ?w2] @ ?H) (disk s))"
          using cut_append2 [of "[?w1, ?w2] @ ?H" p ?s0 "[?S]" "disk s"] 3 False lenH by (simp add: k_def)
        also have "\<dots> = put_blk ?s0 k ?S ?d3"
          using False 3 by (simp add: cut_def k_def wrs_append)
        finally show ?thesis .
      qed
      then show ?thesis
        using se3 checkpointed_super [OF ok cl se3 new3 _ k] by (cases "k = 0") (auto simp: put_blk_0)
    qed
  qed
qed

section \<open>What a reader sees\<close>

text \<open>
  The pending list pairs distinct home blocks with consecutive slots after the descriptor's.
\<close>

definition pend_wf :: "jbd \<Rightarrow> bool" where
  "pend_wf j = (distinct (map fst (j_pend j)) \<and>
     map snd (j_pend j) = [j_start j + 1..<j_start j + 1 + length (j_pend j)])"

lemma wrs_zip_at:
  assumes "distinct bs" and "length xs = length bs" and "\<forall>x \<in> set xs. length x = 4096" and "i < length bs"
  shows "blk_at s0 (wrs s0 (zip bs xs) d) (bs ! i) = xs ! i"
  using assms
proof (induction bs arbitrary: xs i d)
  case Nil
  then show ?case by simp
next
  case (Cons b bs)
  then obtain x ys where xs: "xs = x # ys" by (cases xs) auto
  show ?case
  proof (cases i)
    case 0
    have "b \<notin> fst ` set (zip bs ys)" using Cons.prems(1) by (auto dest: set_zip_leftD)
    then show ?thesis using 0 xs Cons.prems by (simp add: blk_at_wrs_other blk_at_put_same)
  next
    case (Suc m)
    then show ?thesis using Cons xs by simp
  qed
qed

lemma pend_find:
  assumes "distinct (map fst p)" and "i < length p"
  shows "List.find (\<lambda>e. fst e = fst (p ! i)) p = Some (p ! i)"
  unfolding find_Some_iff
proof (intro exI conjI allI impI)
  fix k assume "k < i"
  then show "fst (p ! k) \<noteq> fst (p ! i)"
    using assms nth_eq_iff_index_eq [of "map fst p" k i] by simp
qed (use assms in simp_all)

lemma pend_find_none: "b \<notin> set (map fst p) \<Longrightarrow> List.find (\<lambda>e. fst e = b) p = None"
  by (force simp: find_None_iff)

lemma read_block_home:
  assumes ok: "journal_ok s j" and wf: "pend_wf j" and st: "jbd_st s = Some j" and so: "sectors_ok (disk s)"
    and b: "blk_ok s b"
  shows "read_block b s = (Ret (Some (new_home s j b)), s)"
proof (cases "b \<in> set (pend_blocks j)")
  case True
  note f = journal_ok_facts [OF ok]
  then obtain i where i: "i < length (j_pend j)" "b = fst (j_pend j ! i)"
    using True by (auto simp: pend_blocks_def in_set_conv_nth)
  have fnd: "List.find (\<lambda>e. fst e = b) (j_pend j) = Some (j_pend j ! i)"
    using pend_find [of "j_pend j" i] wf i by (simp add: pend_wf_def)
  have "snd (j_pend j ! i) = map snd (j_pend j) ! i" using i by simp
  also have "\<dots> = j_start j + 1 + i" using wf i(1) by (simp add: pend_wf_def del: upt_Suc)
  finally have pos: "snd (j_pend j ! i) = j_start j + 1 + i" .
  have ar: "\<And>x. x < 1024 \<Longrightarrow> blk_ok s (j_base j + x)" using f(3) by (simp add: area_ok_def JOURNAL_BLOCKS_def)
  have "blk_ok s (j_base j + snd (j_pend j ! i))" using ar [of "j_start j + 1 + i"] f(2) i pos by simp
  then have "read_block b s = (Ret (Some (blk_at (fs_base s) (disk s) (j_base j + (j_start j + 1 + i)))), s)"
    using st f(8) fnd pos by (simp add: read_block_def read_block_raw_ok)
  moreover have "new_home s j b = logged s j ! i"
  proof -
    have "\<forall>x \<in> set (logged s j). length x = 4096"
      using so by (auto simp: logged_def log_blocks_def blk_at_length)
    moreover have "b = pend_blocks j ! i" using i by (simp add: pend_blocks_def)
    ultimately show ?thesis
      unfolding new_home_def home_writes_def
      using wrs_zip_at [of "pend_blocks j" "logged s j" i "fs_base s" "disk s"] wf i f(6)
      by (simp add: pend_wf_def pend_blocks_def)
  qed
  moreover have "logged s j ! i = blk_at (fs_base s) (disk s) (j_base j + (j_start j + 1 + i))"
    using i by (simp add: logged_def log_blocks_def add.assoc del: upt_Suc)
  ultimately show ?thesis by simp
next
  case False
  then have "List.find (\<lambda>e. fst e = b) (j_pend j) = None"
    using pend_find_none [of b "j_pend j"] by (simp add: pend_blocks_def)
  moreover have "new_home s j b = blk_at (fs_base s) (disk s) b"
    using False by (simp add: new_home_def blk_at_wrs_other home_targets)
  ultimately show ?thesis using st b by (simp add: read_block_def read_block_raw_ok)
qed

lemma read_block_empty:
  assumes "jbd_st s = Some j" and "j_pend j = []"
  shows "read_block b s = read_block_raw b s"
  using assms by (simp add: read_block_def)

lemma commit_run:
  assumes ok: "journal_ok s j" and st: "jbd_st s = Some j" and ne: "j_pend j \<noteq> []"
    and run: "jbd_commit s = (out, s1)"
  shows "disk s1 = commit_disk s j (power s)" and "same_hw s s1"
    and "out = (if 24 + 8 * length (j_pend j) \<le> power s then Ret () else PowerOff)"
    and "24 + 8 * length (j_pend j) \<le> power s \<Longrightarrow> jbd_st s1 = Some (committed j)"
proof -
  have len: "8 * length (commit_writes s j) = 24 + 8 * length (j_pend j)"
    by (simp add: commit_writes_def home_writes_def pend_blocks_def)
  have d: "does jbd_commit (commit_writes s j) () (Some (committed j)) s"
    using commit_does [OF ok st ne] by (simp add: jbd_commit_def)
  have "disk s1 = commit_disk s j (power s) \<and> same_hw s s1 \<and>
    out = (if 24 + 8 * length (j_pend j) \<le> power s then Ret () else PowerOff) \<and>
    (24 + 8 * length (j_pend j) \<le> power s \<longrightarrow> jbd_st s1 = Some (committed j))"
    using d run unfolding does_def len commit_disk_def
    by (cases "24 + 8 * length (j_pend j) \<le> power s") (auto simp: same_hw_def)
  then show "disk s1 = commit_disk s j (power s)" "same_hw s s1"
    "out = (if 24 + 8 * length (j_pend j) \<le> power s then Ret () else PowerOff)"
    "24 + 8 * length (j_pend j) \<le> power s \<Longrightarrow> jbd_st s1 = Some (committed j)"
    by auto
qed

text \<open>A disk left by a commit that lost power, with power again and no journal open yet.\<close>

definition rebooted :: "fsys \<Rightarrow> fsys \<Rightarrow> bool" where
  "rebooted s s' = (disk s' = disk s \<and> same_hw s s')"

lemma commit_recovers:
  assumes ok: "journal_ok s j" and cl: "log_clean s j" and st: "jbd_st s = Some j" and ne: "j_pend j \<noteq> []"
    and run: "jbd_commit s = (out, s1)" and re: "rebooted s1 s2" and pw: "8 * length (j_pend j) \<le> power s2"
  shows "\<exists>s3 j3. jbd_open (j_base j) s2 = (Ret (), s3) \<and> jbd_st s3 = Some j3 \<and> j_pend j3 = [] \<and> same_hw s s3 \<and>
    (\<forall>b. \<not> is_jbd_block (j_base j) b \<longrightarrow> blk_at (fs_base s) (disk s3) b =
       (if power s \<le> 8 then blk_at (fs_base s) (disk s) b else new_home s j b))"
proof -
  note r = commit_run [OF ok st ne run]
  have d2: "disk s2 = commit_disk s j (power s)" and hw: "same_hw s s2"
    using re r(1,2) by (auto simp: rebooted_def same_hw_def)
  show ?thesis
  proof (cases "power s \<le> 8")
    case True
    then have u: "unsealed s j (disk s2)" using commit_disk_cases(1) [OF ok cl] d2 by simp
    then have "blk_at (fs_base s) (disk s2) b = blk_at (fs_base s) (disk s) b" if "\<not> is_jbd_block (j_base j) b" for b
      using that by (simp add: unsealed_def)
    then show ?thesis using recover_unsealed [OF ok u hw] hw True by (simp add: fresh_jbd_def same_hw_def)
  next
    case False
    then consider "sealed s j (disk s2)" | "checkpointed s j (disk s2)"
      using commit_disk_cases(2) [OF ok cl, of "power s"] d2 by auto
    then show ?thesis
    proof cases
      case 1
      from recover_sealed [OF ok cl 1 hw pw] obtain s3 where "jbd_open (j_base j) s2 = (Ret (), s3)"
        "jbd_st s3 = Some (committed j)" "same_hw s s3"
        "\<forall>b. \<not> is_jbd_block (j_base j) b \<longrightarrow> blk_at (fs_base s) (disk s3) b = new_home s j b"
        by auto
      then show ?thesis using False by (intro exI [of _ s3] exI [of _ "committed j"]) (simp add: committed_def)
    next
      case 2
      then have "blk_at (fs_base s) (disk s2) b = new_home s j b" if "\<not> is_jbd_block (j_base j) b" for b
        using that by (simp add: checkpointed_def)
      then show ?thesis using recover_checkpointed [OF ok 2 hw] hw False by (simp add: committed_def same_hw_def)
    qed
  qed
qed

text \<open>A commit is atomic under a loss of power at any sector write.  Whatever the number of
  sectors that reach the disk, after the reboot the mount's journal step succeeds and every
  block outside the journal area reads as it read on the disk before the commit (power lost before
  the first sector of the seal) or as the transaction's readers saw it; if the commit
  returned, it is the latter.  This holds on conditions: the transaction fits in the ring; the
  superblock on the disk names its start and number; no stale seal of this or the next
  sequence number lies in the ring; and the recovery itself is not cut off.  Block writes that fit
  keep these conditions.  A write that wraps to the start of the ring changes
  the start in memory only, the second condition fails, and the commit can be torn
  (\<open>wrapped_commit_torn\<close>).
\<close>

lemma commit_atomic:
  assumes "journal_ok s j" and "pend_wf j" and "log_clean s j" and "jbd_st s = Some j" and "j_pend j \<noteq> []"
    and "jbd_commit s = (out, s1)" and "rebooted s1 s2" and "8 * length (j_pend j) \<le> power s2"
  shows "\<exists>s3. jbd_open (j_base j) s2 = (Ret (), s3) \<and>
    (\<forall>b. \<not> is_jbd_block (j_base j) b \<longrightarrow> blk_ok s b \<longrightarrow>
       fst (read_block b s3) = (if power s \<le> 8 then fst (read_block_raw b s) else fst (read_block b s))) \<and>
    (out = Ret () \<longrightarrow> 8 < power s) \<and> (out = Ret () \<or> out = PowerOff)"
proof -
  obtain s3 j3 where o3: "jbd_open (j_base j) s2 = (Ret (), s3)" "jbd_st s3 = Some j3" "j_pend j3 = []"
    "same_hw s s3" and home: "\<And>b. \<not> is_jbd_block (j_base j) b \<Longrightarrow> blk_at (fs_base s) (disk s3) b =
       (if power s \<le> 8 then blk_at (fs_base s) (disk s) b else new_home s j b)"
    using commit_recovers [OF assms(1,3,4,5,6,7,8)] by blast
  have so: "sectors_ok (disk s)" using assms(3) by (simp add: log_clean_def)
  have "fst (read_block b s3) = (if power s \<le> 8 then fst (read_block_raw b s) else fst (read_block b s))"
    if b: "\<not> is_jbd_block (j_base j) b" "blk_ok s b" for b
    using read_block_empty [OF o3(2,3), of b] read_block_home [OF assms(1,2,4) so b(2)] home [OF b(1)]
      read_block_raw_ok [OF b(2)] read_block_raw_ok [of s3 b] blk_ok_cong [OF o3(4), of b] b(2) o3(4)
    by (simp add: same_hw_def)
  then show ?thesis using o3(1) commit_run(3) [OF assms(1,4,5,6)] by auto
qed

subsection \<open>A concrete journal\<close>

text \<open>A disk of zeros but for the journal superblock in block 1, the journal at its first slot.\<close>

definition jw_disk :: "nat \<Rightarrow> nat \<Rightarrow> byte list" where
  "jw_disk st = (\<lambda>a. if a = 8 then w32 (w32 (w32 (replicate 512 0) 0 JBD_MAGIC) 8 1) 12 st else replicate 512 0)"

definition jw_jbd :: "nat \<Rightarrow> (nat \<times> nat) list \<Rightarrow> jbd" where
  "jw_jbd st p = \<lparr>j_base = 1, j_start = st, j_seq = 1, j_active = True, j_pend = p\<rparr>"

definition jw :: "nat \<Rightarrow> nat \<Rightarrow> jbd \<Rightarrow> fsys" where
  "jw st pw j = \<lparr>devs = [\<lparr>present = True, dev_sectors = 100000\<rparr>], disk = jw_disk st, rd_ok = \<lambda>_. True,
     wr_ok = \<lambda>_. True, power = pw, fs_base = 0, mount_st = Some Ext4, cwd_st = \<lparr>parts = [], n_parts = 0\<rparr>,
     fat_st = None, ext_st = None, jbd_st = Some j, tty = []\<rparr>"

lemma jw_simps [simp]:
  "disk (jw st pw j) = jw_disk st" "power (jw st pw j) = pw" "fs_base (jw st pw j) = 0" "jbd_st (jw st pw j) = Some j"
  by (simp_all add: jw_def)

lemma jw_served: "served (jw st pw j) lba \<longleftrightarrow> lba < 100000"
  by (simp add: served_def jw_def data_device_def) auto

lemma jw_blk_ok: "blk_ok (jw st pw j) b \<longleftrightarrow> 8 * b + 7 < 100000"
  unfolding blk_ok_def jw_served by (auto dest: spec [of _ 7])

lemma jw_sectors: "sectors_ok (jw_disk st)"
  by (simp add: sectors_ok_def jw_disk_def)

lemma jw_zero: "b \<noteq> 1 \<Longrightarrow> blk_at 0 (jw_disk st) b = zero_block"
proof -
  assume b: "b \<noteq> 1"
  have "(\<lambda>i. jw_disk st (0 + 8 * b + i)) i = replicate 512 0" if "i < 8" for i
    using b that by (auto simp: jw_disk_def)
  then have "map (\<lambda>i. jw_disk st (0 + 8 * b + i)) [0..<8] = map (\<lambda>i. replicate 512 0) [0..<8]"
    by (intro map_cong) simp_all
  also have "concat \<dots> = zero_block"
    by (simp add: upt_rec zero_block_def BLOCK_def replicate_add [symmetric])
  finally show ?thesis by (simp add: blk_at_def)
qed

lemma zero_no_record: "\<not> is_record k q zero_block"
proof -
  have "r32 zero_block 0 = 0"
    by (simp add: rd_def sub_def zero_block_def BLOCK_def numeral_eq_Suc)
  then show ?thesis by (simp add: is_record_def JBD_MAGIC_def)
qed

lemma jw_super: "st < 2 ^ 32 \<Longrightarrow> super_at 0 (jw_disk st) 1 st 1"
  using rd_blk_hd [OF jw_sectors, of 0 4 0 st 1] rd_blk_hd [OF jw_sectors, of 8 4 0 st 1]
    rd_blk_hd [OF jw_sectors, of 12 4 0 st 1]
  by (simp add: super_at_def jw_disk_def rd_wr_same rd_wr_other JBD_MAGIC_def)

lemma jw_no_seal: "no_seal 0 (jw_disk st) 1 q"
  by (simp add: no_seal_def jw_zero zero_no_record)

lemma jw_ok:
  assumes "1 \<le> st" and "st + 1 + length p \<le> 1023" and "length p \<le> MAX_PEND"
    and "\<forall>b \<in> fst ` set p. 2000 \<le> b \<and> b < 10000"
  shows "journal_ok (jw r pw (jw_jbd st p)) (jw_jbd st p)"
  using assms by (fastforce simp: journal_ok_def jw_jbd_def jw_blk_ok is_jbd_block_def JOURNAL_BLOCKS_def)

lemma jw_clean:
  "st < 2 ^ 32 \<Longrightarrow> \<forall>b \<in> fst ` set p. b < 2 ^ 32 \<Longrightarrow> log_clean (jw st pw (jw_jbd st p)) (jw_jbd st p)"
  using jw_super jw_no_seal jw_sectors by (simp add: log_clean_def jw_jbd_def pend_blocks_def)

section \<open>Writing through the journal\<close>

text \<open>Where the current copy of a block lies.\<close>

definition loc :: "jbd \<Rightarrow> nat \<Rightarrow> nat" where
  "loc j b = (case List.find (\<lambda>e. fst e = b) (j_pend j) of Some e \<Rightarrow> j_base j + snd e | None \<Rightarrow> b)"

lemma read_block_loc:
  "jbd_st s = Some j \<Longrightarrow> j_active j \<Longrightarrow> read_block b s = read_block_raw (loc j b) s"
  by (simp add: read_block_def loc_def split: option.split)

lemma pend_pos:
  assumes "pend_wf j" and "i < length (j_pend j)"
  shows "snd (j_pend j ! i) = j_start j + 1 + i"
proof -
  have "snd (j_pend j ! i) = map snd (j_pend j) ! i" using assms by simp
  also have "\<dots> = j_start j + 1 + i" using assms by (simp add: pend_wf_def del: upt_Suc)
  finally show ?thesis .
qed

lemma loc_in:
  assumes "pend_wf j" and "i < length (j_pend j)"
  shows "loc j (fst (j_pend j ! i)) = j_base j + j_start j + 1 + i"
  using pend_find [of "j_pend j" i] assms pend_pos [OF assms] by (simp add: loc_def pend_wf_def)

lemma loc_out: "b \<notin> set (pend_blocks j) \<Longrightarrow> loc j b = b"
  using pend_find_none [of b "j_pend j"] by (simp add: loc_def pend_blocks_def)

lemma loc_cases:
  assumes "pend_wf j"
  obtains (hit) i where "i < length (j_pend j)" "b = fst (j_pend j ! i)" "loc j b = j_base j + j_start j + 1 + i"
  | (miss) "b \<notin> set (pend_blocks j)" "loc j b = b"
proof (cases "b \<in> set (pend_blocks j)")
  case True
  then obtain i where "i < length (j_pend j)" "b = fst (j_pend j ! i)"
    by (auto simp: pend_blocks_def in_set_conv_nth)
  then show ?thesis using that(1) loc_in [OF assms] by blast
next
  case False
  then show ?thesis using that(2) loc_out by blast
qed

definition jbd_add :: "jbd \<Rightarrow> nat \<Rightarrow> jbd" where
  "jbd_add j b = (if b \<in> set (pend_blocks j) then j
     else j\<lparr>j_pend := j_pend j @ [(b, j_start j + 1 + length (j_pend j))]\<rparr>)"

lemma jbd_add_simps [simp]:
  "j_base (jbd_add j b) = j_base j" "j_start (jbd_add j b) = j_start j" "j_seq (jbd_add j b) = j_seq j"
  "j_active (jbd_add j b) = j_active j"
  by (simp_all add: jbd_add_def)

lemma jbd_add_blocks: "set (pend_blocks (jbd_add j b)) = insert b (set (pend_blocks j))"
  by (auto simp: jbd_add_def pend_blocks_def)

lemma jbd_add_wf: "pend_wf j \<Longrightarrow> pend_wf (jbd_add j b)"
  by (auto simp: jbd_add_def pend_wf_def pend_blocks_def)

lemma jbd_add_loc: "b' \<noteq> b \<Longrightarrow> loc (jbd_add j b) b' = loc j b'"
proof -
  assume "b' \<noteq> b"
  then have "List.find (\<lambda>e. fst e = b') (p @ [(b, x)]) = List.find (\<lambda>e. fst e = b') p" for p :: "(nat \<times> nat) list" and x
    by (induction p) simp_all
  then show ?thesis by (simp add: loc_def jbd_add_def split: option.split)
qed

text \<open>Room for one more block: the commit stays inside the ring.\<close>

definition has_room :: "jbd \<Rightarrow> nat \<Rightarrow> bool" where
  "has_room j b = (b \<in> set (pend_blocks j) \<or>
     (j_start j + 2 + length (j_pend j) \<le> JOURNAL_BLOCKS - 1 \<and> length (j_pend j) < MAX_PEND))"

lemma write_block_run:
  assumes ok: "journal_ok s j" and wf: "pend_wf j" and st: "jbd_st s = Some j" and b: "\<not> is_jbd_block (j_base j) b"
    and room: "has_room j b"
  shows "write_block b x s =
    (if 8 \<le> power s then (Ret True, s\<lparr>disk := put_blk (fs_base s) 8 (loc (jbd_add j b) b, x) (disk s),
        power := power s - 8, jbd_st := Some (jbd_add j b)\<rparr>)
     else (PowerOff, s\<lparr>disk := put_blk (fs_base s) (power s) (loc (jbd_add j b) b, x) (disk s), power := 0\<rparr>))"
proof -
  note f = journal_ok_facts [OF ok]
  have ar: "\<And>x. x < 1024 \<Longrightarrow> blk_ok s (j_base j + x)" using f(3) by (simp add: area_ok_def JOURNAL_BLOCKS_def)
  from wf show ?thesis
  proof (cases rule: loc_cases [where b = b])
    case (hit i)
    then have m: "b \<in> set (pend_blocks j)" by (auto simp: pend_blocks_def)
    have fnd: "List.find (\<lambda>e. fst e = b) (j_pend j) = Some (j_pend j ! i)"
      using pend_find [of "j_pend j" i] wf hit by (simp add: pend_wf_def)
    have ps: "snd (j_pend j ! i) = j_start j + 1 + i" by (rule pend_pos [OF wf hit(1)])
    have "blk_ok s (j_base j + snd (j_pend j ! i))" using ar [of "j_start j + 1 + i"] f(2) hit(1) ps by simp
    then show ?thesis
      using m fnd st f(8) b hit ps by (simp add: write_block_def jbd_add_def write_block_raw_ok add.assoc)
  next
    case miss
    then have fnd: "List.find (\<lambda>e. fst e = b) (j_pend j) = None"
      using pend_find_none by (simp add: pend_blocks_def)
    have r: "j_start j + 2 + length (j_pend j) \<le> 1023" "length (j_pend j) < MAX_PEND"
      using room miss by (auto simp: has_room_def JOURNAL_BLOCKS_def)
    have go: "make_room j s = (Ret True, s)"
      using r st by (auto simp: make_room_def JOURNAL_BLOCKS_def MAX_PEND_def)
    let ?p = "j_start j + 1 + length (j_pend j)"
    have bk: "blk_ok s (j_base j + ?p)" using ar [of ?p] r by simp
    have m: "b \<notin> set (pend_blocks j)" by (rule miss(1))
    have "loc (jbd_add j b) b = j_base j + ?p"
      using loc_in [OF jbd_add_wf [OF wf], of "length (j_pend j)" b] m by (simp add: jbd_add_def)
    then show ?thesis
      using st f(8) b fnd m bk
      by (simp add: write_block_def go Let_def write_block_raw_ok bnd_def jbd_add_def)
  qed
qed

lemma write_keeps:
  assumes ok: "journal_ok s j" and wf: "pend_wf j" and cl: "log_clean s j"
    and b: "\<not> is_jbd_block (j_base j) b" "blk_ok s b" "b < 2 ^ 32" and room: "has_room j b"
    and x: "length x = 4096" "\<And>q. q = j_seq j \<or> q = j_seq j + 1 \<Longrightarrow> \<not> is_record JBD_BLOCK_COMMIT q x"
    and s': "s' = s\<lparr>disk := put_blk (fs_base s) 8 (loc (jbd_add j b) b, x) (disk s),
      power := p, jbd_st := Some (jbd_add j b)\<rparr>"
  shows "journal_ok s' (jbd_add j b)" and "log_clean s' (jbd_add j b)"
    and "b' \<noteq> b \<Longrightarrow> \<not> is_jbd_block (j_base j) b' \<Longrightarrow>
      blk_at (fs_base s) (disk s') (loc (jbd_add j b) b') = blk_at (fs_base s) (disk s) (loc j b')"
    and "\<not> is_jbd_block (j_base j) b' \<Longrightarrow> blk_at (fs_base s) (disk s') b' = blk_at (fs_base s) (disk s) b'"
proof -
  note f = journal_ok_facts [OF ok]
  have wf': "pend_wf (jbd_add j b)" by (rule jbd_add_wf [OF wf])
  have hw: "same_hw s s'" by (simp add: s' same_hw_def)
  have "b \<in> set (pend_blocks (jbd_add j b))" by (simp add: jbd_add_blocks)
  then obtain i where i: "i < length (j_pend (jbd_add j b))" "b = fst (j_pend (jbd_add j b) ! i)"
    "loc (jbd_add j b) b = j_base j + j_start j + 1 + i"
    by (cases rule: loc_cases [OF wf', of b]) auto
  have len: "j_start j + 1 + length (j_pend (jbd_add j b)) \<le> 1023" "length (j_pend (jbd_add j b)) \<le> MAX_PEND"
    using room f(2,7) by (auto simp: has_room_def jbd_add_def JOURNAL_BLOCKS_def)
  have "blk_ok s' y = blk_ok s y" for y by (rule blk_ok_cong [OF hw])
  then show "journal_ok s' (jbd_add j b)"
    using ok b(1,2) len jbd_add_blocks [of j b]
    by (auto simp: journal_ok_def JOURNAL_BLOCKS_def pend_blocks_def)
  have so: "sectors_ok (disk s)" using cl by (simp add: log_clean_def)
  have l: "j_base j < loc (jbd_add j b) b" "is_jbd_block (j_base j) (loc (jbd_add j b) b)"
    using i len by (simp_all add: is_jbd_block_def JOURNAL_BLOCKS_def)
  have "no_seal (fs_base s) (disk s') (j_base j) q" if "q = j_seq j \<or> q = j_seq j + 1" for q
    using no_seal_put [of "fs_base s" "disk s" "j_base j" q 8 "loc (jbd_add j b) b" x] cl x(2) [OF that] x(1) so that
    by (auto simp: s' log_clean_def)
  moreover have "super_at (fs_base s) (disk s') (j_base j) (j_start j) (j_seq j)"
    using super_at_put [of "fs_base s" "disk s" "j_base j" "j_start j" "j_seq j"] cl l(1) by (simp add: s' log_clean_def)
  moreover have "sectors_ok (disk s')" using sectors_ok_put [OF so, of "(loc (jbd_add j b) b, x)" 8] x(1) by (simp add: s')
  ultimately show "log_clean s' (jbd_add j b)"
    using cl b(3) by (auto simp: log_clean_def jbd_add_blocks s')
  show home: "blk_at (fs_base s) (disk s') b' = blk_at (fs_base s) (disk s) b'" if "\<not> is_jbd_block (j_base j) b'"
  proof -
    have "b' \<noteq> loc (jbd_add j b) b" using that l(2) by auto
    then show ?thesis by (simp add: s' blk_at_put_eq)
  qed
  show "blk_at (fs_base s) (disk s') (loc (jbd_add j b) b') = blk_at (fs_base s) (disk s) (loc j b')"
    if "b' \<noteq> b" "\<not> is_jbd_block (j_base j) b'"
    using wf'
  proof (cases rule: loc_cases [where b = b'])
    case (hit k)
    then have "k \<noteq> i" using i that by auto
    then have "loc (jbd_add j b) b' \<noteq> loc (jbd_add j b) b" using hit i by simp
    then show ?thesis using jbd_add_loc [OF that(1)] by (simp add: s' blk_at_put_eq)
  next
    case miss
    then show ?thesis using jbd_add_loc [OF that(1)] home [OF that(2)] by metis
  qed
qed

text \<open>What may be written in a transaction: a block outside the journal, whose content does not look
  like a seal.\<close>

definition loggable :: "fsys \<Rightarrow> jbd \<Rightarrow> nat \<times> byte list \<Rightarrow> bool" where
  "loggable s j w = (\<not> is_jbd_block (j_base j) (fst w) \<and> blk_ok s (fst w) \<and> fst w < 2 ^ 32 \<and> length (snd w) = 4096 \<and>
     (\<forall>q \<in> {j_seq j, j_seq j + 1}. \<not> is_record JBD_BLOCK_COMMIT q (snd w)))"

lemma write_block_step:
  assumes "journal_ok s j" and "pend_wf j" and "log_clean s j" and "jbd_st s = Some j"
    and l: "loggable s j (b, x)" and "has_room j b" and "8 \<le> power s"
  shows "\<exists>s'. write_block b x s = (Ret True, s') \<and> jbd_st s' = Some (jbd_add j b) \<and>
    journal_ok s' (jbd_add j b) \<and> log_clean s' (jbd_add j b) \<and> same_hw s s' \<and> power s' = power s - 8 \<and>
    (\<forall>b'. \<not> is_jbd_block (j_base j) b' \<longrightarrow> blk_at (fs_base s) (disk s') b' = blk_at (fs_base s) (disk s) b' \<and>
      (blk_ok s b' \<longrightarrow> fst (read_block b' s') = (if b' = b then Ret (Some x) else fst (read_block b' s)) \<and>
       fst (read_block_raw b' s') = fst (read_block_raw b' s)))"
proof -
  let ?j = "jbd_add j b"
  let ?s = "s\<lparr>disk := put_blk (fs_base s) 8 (loc ?j b, x) (disk s), power := power s - 8, jbd_st := Some ?j\<rparr>"
  have b: "\<not> is_jbd_block (j_base j) b" "blk_ok s b" "b < 2 ^ 32" "length x = 4096"
    and seals: "\<forall>q \<in> {j_seq j, j_seq j + 1}. \<not> is_record JBD_BLOCK_COMMIT q x" using l by (simp_all add: loggable_def)
  note k = write_keeps [OF assms(1,2,3) b(1-3) assms(6) b(4) _ refl, where p = "power s - 8"]
  have seal: "\<not> is_record JBD_BLOCK_COMMIT q x" if "q = j_seq j \<or> q = j_seq j + 1" for q using seals that by auto
  have ok': "journal_ok ?s ?j" and cl': "log_clean ?s ?j" using k(1,2) seal by auto
  have wf': "pend_wf ?j" by (rule jbd_add_wf [OF assms(2)])
  have hw: "same_hw s ?s" by (simp add: same_hw_def)
  have ok8: "blk_ok s' (loc i b')" if "journal_ok s' i" "pend_wf i" "blk_ok s' b'" for s' i b'
    using that(2)
  proof (cases rule: loc_cases [where b = b'])
    case (hit n)
    have "blk_ok s' (j_base i + y)" if "y < 1024" for y
      using journal_ok_facts(3) [OF \<open>journal_ok s' i\<close>] that by (simp add: area_ok_def JOURNAL_BLOCKS_def)
    from this [of "j_start i + 1 + n"] have "blk_ok s' (j_base i + (j_start i + 1 + n))"
      using journal_ok_facts(2) [OF that(1)] hit(1) by simp
    then show ?thesis using hit(3) by (simp add: add.assoc)
  qed (use that in simp)
  have act: "j_active j" using assms(1) by (simp add: journal_ok_def)
  have rd: "fst (read_block b' ?s) = (if b' = b then Ret (Some x) else fst (read_block b' s)) \<and>
       fst (read_block_raw b' ?s) = fst (read_block_raw b' s)" if h: "\<not> is_jbd_block (j_base j) b'" "blk_ok s b'" for b'
  proof -
    have b1: "blk_ok ?s (loc ?j b')" "blk_ok s (loc j b')" "blk_ok ?s b'"
      using ok8 [OF ok' wf'] ok8 [OF assms(1,2)] h blk_ok_cong [OF hw] by auto
    then have r: "fst (read_block b' ?s) = Ret (Some (blk_at (fs_base s) (disk ?s) (loc ?j b')))"
      "fst (read_block b' s) = Ret (Some (blk_at (fs_base s) (disk s) (loc j b')))"
      using read_block_loc [of ?s ?j b'] read_block_loc [of s j b'] assms(4) act by (simp_all add: read_block_raw_ok)
    have "blk_at (fs_base s) (disk ?s) (loc ?j b') = (if b' = b then x else blk_at (fs_base s) (disk s) (loc j b'))"
      using k(3) [OF _ _ h(1)] seal b(4) by (auto simp: blk_at_put_same)
    moreover have "blk_at (fs_base s) (disk ?s) b' = blk_at (fs_base s) (disk s) b'" using k(4) [OF _ h(1)] seal by auto
    ultimately show ?thesis using r read_block_raw_ok [OF b1(3)] read_block_raw_ok [OF h(2)] by auto
  qed
  have w: "write_block b x s = (Ret True, ?s)"
    using write_block_run [OF assms(1,2,4) b(1) assms(6)] assms(7) by simp
  have home: "blk_at (fs_base s) (disk ?s) b' = blk_at (fs_base s) (disk s) b'" if "\<not> is_jbd_block (j_base j) b'" for b'
    using k(4) [OF _ that] seal by auto
  show ?thesis using w ok' cl' hw rd home by (intro exI [of _ ?s]) simp
qed

text \<open>C13: while a transaction is open, a write of a block for which there is still room, in the ring and
  in the descriptor, goes to the ring only: the block reads back
  as written, every other block outside the journal reads as before, no home block changes on the
  disk, and the journal stays in the regime the commit relies on (so the next commit is atomic).  The
  block lies outside the journal and must not itself look like a seal of this transaction or the
  next.  A write without room, which first commits or wraps to the start of the ring, is
  not meant here (\<open>split_commit_overruns_ring\<close>, \<open>wrapped_commit_torn\<close>).
\<close>

theorem journal_reads_latest:
  assumes "journal_ok s j" and "pend_wf j" and "log_clean s j" and "jbd_st s = Some j"
    and "\<not> is_jbd_block (j_base j) b" and "blk_ok s b" and "b < 2 ^ 32" and "has_room j b" and "8 \<le> power s"
    and "length x = 4096" and "\<forall>q \<in> {j_seq j, j_seq j + 1}. \<not> is_record JBD_BLOCK_COMMIT q x"
  shows "\<exists>s' j'. write_block b x s = (Ret True, s') \<and> jbd_st s' = Some j' \<and>
    journal_ok s' j' \<and> pend_wf j' \<and> log_clean s' j' \<and> b \<in> set (pend_blocks j') \<and>
    (\<forall>b'. \<not> is_jbd_block (j_base j) b' \<longrightarrow> blk_ok s b' \<longrightarrow>
       fst (read_block b' s') = (if b' = b then Ret (Some x) else fst (read_block b' s)) \<and>
       fst (read_block_raw b' s') = fst (read_block_raw b' s))"
proof -
  have "loggable s j (b, x)" using assms(5-7,10,11) by (simp add: loggable_def)
  from write_block_step [OF assms(1-4) this assms(8,9)] obtain s' where
    "write_block b x s = (Ret True, s')" "jbd_st s' = Some (jbd_add j b)" "journal_ok s' (jbd_add j b)" "log_clean s' (jbd_add j b)"
    "\<forall>b'. \<not> is_jbd_block (j_base j) b' \<longrightarrow> blk_ok s b' \<longrightarrow>
       fst (read_block b' s') = (if b' = b then Ret (Some x) else fst (read_block b' s)) \<and>
       fst (read_block_raw b' s') = fst (read_block_raw b' s)" by blast
  moreover have "b \<in> set (pend_blocks (jbd_add j b))" by (simp add: jbd_add_blocks)
  ultimately show ?thesis using jbd_add_wf [OF assms(2)] by blast
qed

theorem journal_reads_latest_witness:
  "\<exists>s' j'. write_block 2000 (replicate 4096 7) (jw 1 100 (jw_jbd 1 [])) = (Ret True, s') \<and> jbd_st s' = Some j' \<and>
     fst (read_block 2000 s') = Ret (Some (replicate 4096 7))"
proof -
  let ?j = "jw_jbd 1 []" and ?s = "jw 1 100 (jw_jbd 1 [])"
  have ok: "journal_ok ?s ?j" by (rule jw_ok) simp_all
  have wf: "pend_wf ?j" by (simp add: pend_wf_def jw_jbd_def)
  have cl: "log_clean ?s ?j" by (rule jw_clean) simp_all
  have b: "\<not> is_jbd_block (j_base ?j) 2000" "blk_ok ?s 2000" "has_room ?j 2000"
    by (simp_all add: is_jbd_block_def JOURNAL_BLOCKS_def jw_blk_ok jw_jbd_def has_room_def MAX_PEND_def)
  have "replicate 4 (7 :: byte) = [7, 7, 7, 7]" by (simp add: numeral_eq_Suc)
  then have "r32 (replicate 4096 7) 0 = 0x07070707" by (simp add: rd_def sub_def)
  then have "\<forall>q \<in> {j_seq ?j, j_seq ?j + 1}. \<not> is_record JBD_BLOCK_COMMIT q (replicate 4096 7)"
    by (simp add: is_record_def JBD_MAGIC_def)
  from journal_reads_latest [OF ok wf cl _ b(1,2) _ b(3) _ _ this] b show ?thesis by auto
qed

section \<open>Whole transactions\<close>

text \<open>A command's block writes one after the other; the drivers give up when one fails.\<close>

fun log_all :: "(nat \<times> byte list) list \<Rightarrow> unit fsop" where
  "log_all [] = ret ()"
| "log_all (w # ws) = bnd (write_block (fst w) (snd w)) (\<lambda>ok. bnd (assert_or Io ok) (\<lambda>_. log_all ws))"

fun fits :: "jbd \<Rightarrow> (nat \<times> byte list) list \<Rightarrow> bool" where
  "fits j [] = True"
| "fits j (w # ws) = (has_room j (fst w) \<and> fits (jbd_add j (fst w)) ws)"

text \<open>A write that the power loss cuts off leaves the disk as the recovery wants it.\<close>

lemma write_block_cut:
  assumes "journal_ok s j" and "pend_wf j" and cl: "log_clean s j" and "jbd_st s = Some j"
    and l: "loggable s j (b, x)" and room: "has_room j b" and "power s < 8"
  shows "\<exists>s'. write_block b x s = (PowerOff, s') \<and> same_hw s s' \<and> unsealed s j (disk s')"
proof -
  have b: "\<not> is_jbd_block (j_base j) b" "length x = 4096"
    and seals: "\<not> is_record JBD_BLOCK_COMMIT (j_seq j) x" using l by (simp_all add: loggable_def)
  let ?l = "loc (jbd_add j b) b"
  let ?s = "s\<lparr>disk := put_blk (fs_base s) (power s) (?l, x) (disk s), power := 0\<rparr>"
  have w: "write_block b x s = (PowerOff, ?s)"
    using write_block_run [OF assms(1,2,4) b(1) room] assms(7) by simp
  have wf': "pend_wf (jbd_add j b)" by (rule jbd_add_wf [OF assms(2)])
  have "b \<in> set (pend_blocks (jbd_add j b))" by (simp add: jbd_add_blocks)
  then obtain i where i: "i < length (j_pend (jbd_add j b))" "?l = j_base j + j_start j + 1 + i"
    by (cases rule: loc_cases [OF wf', of b]) auto
  have "j_start j + 1 + length (j_pend (jbd_add j b)) \<le> 1023"
    using room journal_ok_facts(2,7) [OF assms(1)] by (auto simp: has_room_def jbd_add_def JOURNAL_BLOCKS_def)
  then have at: "j_base j < ?l" "is_jbd_block (j_base j) ?l" using i by (simp_all add: is_jbd_block_def JOURNAL_BLOCKS_def)
  have so: "sectors_ok (disk s)" using cl by (simp add: log_clean_def)
  have "super_at (fs_base s) (disk ?s) (j_base j) (j_start j) (j_seq j)"
    using super_at_put [of "fs_base s" "disk s" "j_base j" "j_start j" "j_seq j" ?l "power s" x] cl at(1) assms(7)
    by (simp add: log_clean_def)
  moreover have "no_seal (fs_base s) (disk ?s) (j_base j) (j_seq j)"
    using no_seal_put [of "fs_base s" "disk s" "j_base j" "j_seq j" "power s" ?l x] cl seals so b(2) assms(7)
    by (simp add: log_clean_def)
  moreover have "blk_at (fs_base s) (disk ?s) b' = blk_at (fs_base s) (disk s) b'" if "\<not> is_jbd_block (j_base j) b'" for b'
  proof -
    have "b' \<noteq> ?l" using that at(2) by auto
    then show ?thesis using assms(7) by (simp add: blk_at_put_eq)
  qed
  ultimately have "unsealed s j (disk ?s)" by (simp add: unsealed_def)
  then show ?thesis using w by (intro exI [of _ ?s]) (simp add: same_hw_def)
qed

lemma unsealed_same:
  assumes "unsealed s1 j1 d" and "same_hw s s1" and "j_base j1 = j_base j" "j_start j1 = j_start j" "j_seq j1 = j_seq j"
    and "\<And>b. \<not> is_jbd_block (j_base j) b \<Longrightarrow> blk_at (fs_base s) (disk s1) b = blk_at (fs_base s) (disk s) b"
  shows "unsealed s j d"
  using assms by (simp add: unsealed_def same_hw_def)

lemma loggable_same: "same_hw s s1 \<Longrightarrow> loggable s1 (jbd_add j b) w = loggable s j w"
  using blk_ok_cong [of s s1] by (simp add: loggable_def)

text \<open>What the readers see after the writes.\<close>

definition over :: "(nat \<times> byte list) list \<Rightarrow> (nat \<Rightarrow> (fs_err, byte list option) outcome) \<Rightarrow> nat \<Rightarrow> (fs_err, byte list option) outcome" where
  "over ws f b = (case map_of (rev ws) b of Some x \<Rightarrow> Ret (Some x) | None \<Rightarrow> f b)"

lemma over_Cons: "over (w # ws) f b = over ws (\<lambda>b. if b = fst w then Ret (Some (snd w)) else f b) b"
  by (cases w) (simp add: over_def map_add_def split: option.split)

lemma log_all_run:
  assumes "journal_ok s j" and "pend_wf j" and "log_clean s j" and "jbd_st s = Some j"
    and "\<forall>w \<in> set ws. loggable s j w" and "fits j ws"
  shows "if 8 * length ws \<le> power s
    then \<exists>s1 j1. log_all ws s = (Ret (), s1) \<and> jbd_st s1 = Some j1 \<and> journal_ok s1 j1 \<and> pend_wf j1 \<and> log_clean s1 j1 \<and>
      same_hw s s1 \<and> power s1 = power s - 8 * length ws \<and> j_base j1 = j_base j \<and>
      set (pend_blocks j1) = set (pend_blocks j) \<union> fst ` set ws \<and> length (j_pend j1) \<le> length (j_pend j) + length ws \<and>
      (\<forall>b. \<not> is_jbd_block (j_base j) b \<longrightarrow> blk_ok s b \<longrightarrow>
        fst (read_block b s1) = over ws (\<lambda>b. fst (read_block b s)) b \<and> fst (read_block_raw b s1) = fst (read_block_raw b s))
    else \<exists>s1. log_all ws s = (PowerOff, s1) \<and> same_hw s s1 \<and> unsealed s j (disk s1)"
  using assms
proof (induction ws arbitrary: s j)
  case Nil
  then show ?case by (intro if_P [THEN iffD2]) (auto simp: over_def)
next
  case (Cons w ws)
  obtain b x where w: "w = (b, x)" by fastforce
  have l: "loggable s j (b, x)" and room: "has_room j b" and rest: "fits (jbd_add j b) ws" using Cons.prems(5,6) w by auto
  show ?case
  proof (cases "8 \<le> power s")
    case False
    then show ?thesis using write_block_cut [OF Cons.prems(1-4) l room] w by (auto simp: bnd_def)
  next
    case True
    let ?j = "jbd_add j b"
    obtain s1 where s1: "write_block b x s = (Ret True, s1)" "jbd_st s1 = Some ?j" "journal_ok s1 ?j" "log_clean s1 ?j"
      "same_hw s s1" "power s1 = power s - 8"
      and home: "\<And>b'. \<not> is_jbd_block (j_base j) b' \<Longrightarrow> blk_at (fs_base s) (disk s1) b' = blk_at (fs_base s) (disk s) b'"
      and rd: "\<And>b'. \<not> is_jbd_block (j_base j) b' \<Longrightarrow> blk_ok s b' \<Longrightarrow>
        fst (read_block b' s1) = (if b' = b then Ret (Some x) else fst (read_block b' s)) \<and>
        fst (read_block_raw b' s1) = fst (read_block_raw b' s)"
      using write_block_step [OF Cons.prems(1-4) l room True] by blast
    have run: "log_all (w # ws) s = log_all ws s1" using s1(1) w by (simp add: bnd_def)
    have lg: "\<forall>w \<in> set ws. loggable s1 ?j w" using Cons.prems(5) loggable_same [OF s1(5)] by simp
    note IH = Cons.IH [OF s1(3) jbd_add_wf [OF Cons.prems(2)] s1(4,2) lg rest]
    show ?thesis
    proof (cases "8 * length ws \<le> power s1")
      case True
      then obtain s2 j2 where s2: "log_all ws s1 = (Ret (), s2)" "jbd_st s2 = Some j2" "journal_ok s2 j2" "pend_wf j2" "log_clean s2 j2"
        "same_hw s1 s2" "power s2 = power s1 - 8 * length ws" "j_base j2 = j_base j"
        "set (pend_blocks j2) = set (pend_blocks ?j) \<union> fst ` set ws" "length (j_pend j2) \<le> length (j_pend ?j) + length ws"
        and rd2: "\<And>b'. \<not> is_jbd_block (j_base j) b' \<Longrightarrow> blk_ok s1 b' \<Longrightarrow>
          fst (read_block b' s2) = over ws (\<lambda>b. fst (read_block b s1)) b' \<and> fst (read_block_raw b' s2) = fst (read_block_raw b' s1)"
        using IH by auto
      have "over ws (\<lambda>b. fst (read_block b s1)) b' = over (w # ws) (\<lambda>b. fst (read_block b s)) b'"
        if "\<not> is_jbd_block (j_base j) b'" "blk_ok s b'" for b'
        using rd [OF that] w unfolding over_Cons by (cases "map_of (rev ws) b'") (auto simp: over_def)
      moreover have "same_hw s s2" using s1(5) s2(6) by (simp add: same_hw_def)
      moreover have "length (j_pend j2) \<le> length (j_pend j) + length (w # ws)" using s2(10) by (auto simp: jbd_add_def split: if_splits)
      moreover have "set (pend_blocks j2) = set (pend_blocks j) \<union> fst ` set (w # ws)" using s2(9) w by (simp add: jbd_add_blocks)
      moreover have "8 * length (w # ws) \<le> power s" "power s2 = power s - 8 * length (w # ws)"
        using True s1(6) s2(7) \<open>8 \<le> power s\<close> by simp_all
      ultimately show ?thesis
        using run s2 rd rd2 blk_ok_cong [OF s1(5)] by (simp only: if_True) (intro exI [of _ s2] exI [of _ j2], simp)
    next
      case False
      then obtain s2 where "log_all ws s1 = (PowerOff, s2)" "same_hw s1 s2" and u: "unsealed s1 ?j (disk s2)" using IH by auto
      moreover have "unsealed s j (disk s2)" by (rule unsealed_same [OF u s1(5)]) (use home in simp_all)
      ultimately show ?thesis using run False s1(5,6) by (auto simp: same_hw_def)
    qed
  qed
qed

text \<open>C1: a transaction is atomic under a loss of power at any sector write, while its blocks are logged or
  while it is committed.  It starts from an idle journal: nothing pending, the superblock on the
  disk naming start and number, no stale seal of this or the next number in the ring; and its
  blocks lie outside the journal, do not look like a seal and fit in ring and descriptor.
  Whatever the number of sectors that reach the disk, after the reboot the mount's journal step succeeds, if
  it is not itself cut off, and every block outside the journal reads as before the transaction, when power
  is lost before the first sector of the seal, or else as last written in the transaction; if the
  commit returned, it is the latter.
\<close>

theorem transaction_crash_atomic:
  assumes idle: "journal_ok s j" "log_clean s j" "jbd_st s = Some j" "j_pend j = []"
    and ws: "\<forall>w \<in> set ws. loggable s j w" "fits j ws" "ws \<noteq> []"
    and run: "bnd (log_all ws) (\<lambda>_. jbd_commit) s = (out, s1)" and re: "rebooted s1 s2" and pw: "8 * length ws \<le> power s2"
  shows "\<exists>s3. jbd_open (j_base j) s2 = (Ret (), s3) \<and>
    (\<forall>b. \<not> is_jbd_block (j_base j) b \<longrightarrow> blk_ok s b \<longrightarrow> fst (read_block b s3) =
       (if power s \<le> 8 * length ws + 8 then fst (read_block b s)
        else (case map_of (rev ws) b of Some x \<Rightarrow> Ret (Some x) | None \<Rightarrow> fst (read_block b s)))) \<and>
    (out = Ret () \<longrightarrow> 8 * length ws + 8 < power s) \<and> (out = Ret () \<or> out = PowerOff)"
proof -
  have wf: "pend_wf j" using idle(4) by (simp add: pend_wf_def)
  note la = log_all_run [OF idle(1) wf idle(2,3) ws(1,2)]
  have raw0: "read_block b s = read_block_raw b s" for b by (rule read_block_empty [OF idle(3,4)])
  show ?thesis
  proof (cases "8 * length ws \<le> power s")
    case False
    then obtain s' where s': "log_all ws s = (PowerOff, s')" "same_hw s s'" "unsealed s j (disk s')" using la by auto
    then have o: "out = PowerOff" "s1 = s'" using run by (simp_all add: bnd_def)
    have hw: "same_hw s s2" and u: "unsealed s j (disk s2)" using re s'(2,3) o(2) by (simp_all add: rebooted_def same_hw_def)
    let ?s3 = "s2\<lparr>jbd_st := Some (fresh_jbd (j_base j) (j_start j) (j_seq j))\<rparr>"
    have "fst (read_block b ?s3) = fst (read_block b s)" if "\<not> is_jbd_block (j_base j) b" "blk_ok s b" for b
    proof -
      have "same_hw s ?s3" using hw by (simp add: same_hw_def)
      then have "blk_ok ?s3 b" using that(2) blk_ok_cong by blast
      then show ?thesis
        using that u read_block_empty [of ?s3 "fresh_jbd (j_base j) (j_start j) (j_seq j)"] read_block_raw_ok [of ?s3 b]
          read_block_raw_ok [OF that(2)] raw0 hw
        by (simp add: unsealed_def fresh_jbd_def same_hw_def)
    qed
    then show ?thesis using recover_unsealed [OF idle(1) u hw] False o(1) by auto
  next
    case True
    then obtain sl jl where sl: "log_all ws s = (Ret (), sl)" "jbd_st sl = Some jl" "journal_ok sl jl" "pend_wf jl" "log_clean sl jl"
      "same_hw s sl" "power sl = power s - 8 * length ws" "j_base jl = j_base j"
      "set (pend_blocks jl) = fst ` set ws" "length (j_pend jl) \<le> length ws"
      and rd: "\<And>b. \<not> is_jbd_block (j_base j) b \<Longrightarrow> blk_ok s b \<Longrightarrow>
        fst (read_block b sl) = over ws (\<lambda>b. fst (read_block b s)) b \<and> fst (read_block_raw b sl) = fst (read_block_raw b s)"
      using la idle(4) by (auto simp: pend_blocks_def)
    have ne: "j_pend jl \<noteq> []" using sl(9) ws(3) by (auto simp: pend_blocks_def)
    have r: "jbd_commit sl = (out, s1)" using run sl(1) by (simp add: bnd_def)
    have "8 * length (j_pend jl) \<le> power s2" using sl(10) pw by linarith
    from commit_atomic [OF sl(3,4,5,2) ne r re this] obtain s3 where
      s3: "jbd_open (j_base j) s2 = (Ret (), s3)" and
      rs: "\<And>b. \<not> is_jbd_block (j_base j) b \<Longrightarrow> blk_ok sl b \<Longrightarrow>
         fst (read_block b s3) = (if power sl \<le> 8 then fst (read_block_raw b sl) else fst (read_block b sl))"
      and out: "out = Ret () \<longrightarrow> 8 < power sl" "out = Ret () \<or> out = PowerOff"
      unfolding sl(8) by blast
    have "fst (read_block b s3) = (if power s \<le> 8 * length ws + 8 then fst (read_block b s) else over ws (\<lambda>b. fst (read_block b s)) b)"
      if "\<not> is_jbd_block (j_base j) b" "blk_ok s b" for b
      using rs [OF that(1)] rd [OF that] blk_ok_cong [OF sl(6), of b] that(2) raw0 sl(7) True by (auto simp: raw0)
    then show ?thesis using s3 out sl(7) by (auto simp: over_def)
  qed
qed

lemma sevens_loggable: "loggable (jw 1 pw (jw_jbd 1 [])) (jw_jbd 1 []) (2000, replicate 4096 7)"
proof -
  have "replicate 4 (7 :: byte) = [7, 7, 7, 7]" by (simp add: numeral_eq_Suc)
  then have "r32 (replicate 4096 7) 0 = 0x07070707" by (simp add: rd_def sub_def)
  then show ?thesis
    by (simp add: loggable_def is_record_def JBD_MAGIC_def is_jbd_block_def JOURNAL_BLOCKS_def jw_blk_ok jw_jbd_def)
qed

text \<open>One block; the power fails after 20 sectors, in the middle of the seal: the block has its new content.\<close>

theorem transaction_crash_atomic_witness:
  "\<exists>out s1. bnd (log_all [(2000, replicate 4096 7)]) (\<lambda>_. jbd_commit) (jw 1 20 (jw_jbd 1 [])) = (out, s1) \<and>
     (\<exists>s3. jbd_open 1 (s1\<lparr>power := 8, jbd_st := None\<rparr>) = (Ret (), s3) \<and> fst (read_block 2000 s3) = Ret (Some (replicate 4096 7)))"
proof -
  let ?j = "jw_jbd 1 []" and ?ws = "[(2000, replicate 4096 7)] :: (nat \<times> byte list) list"
  let ?s = "jw 1 20 ?j"
  have ok: "journal_ok ?s ?j" by (rule jw_ok) simp_all
  have cl: "log_clean ?s ?j" by (rule jw_clean) simp_all
  have j: "j_base ?j = 1" "j_pend ?j = []" "jbd_st ?s = Some ?j" by (simp_all add: jw_jbd_def)
  have ws: "\<forall>w \<in> set ?ws. loggable ?s ?j w" "fits ?j ?ws" "?ws \<noteq> []"
    using sevens_loggable [of 20] by (simp_all add: has_room_def jw_jbd_def JOURNAL_BLOCKS_def MAX_PEND_def)
  obtain out s1 where run: "bnd (log_all ?ws) (\<lambda>_. jbd_commit) ?s = (out, s1)" by fastforce
  have re: "rebooted s1 (s1\<lparr>power := 8, jbd_st := None\<rparr>)" by (simp add: rebooted_def same_hw_def)
  have b: "\<not> is_jbd_block (j_base ?j) 2000" "blk_ok ?s 2000"
    by (simp_all add: is_jbd_block_def JOURNAL_BLOCKS_def jw_blk_ok jw_jbd_def)
  from transaction_crash_atomic [OF ok cl j(3,2) ws run re] obtain s3 where
    s3: "jbd_open (j_base ?j) (s1\<lparr>power := 8, jbd_st := None\<rparr>) = (Ret (), s3)"
    and rd: "\<forall>b. \<not> is_jbd_block (j_base ?j) b \<longrightarrow> blk_ok ?s b \<longrightarrow> fst (read_block b s3) =
       (if power ?s \<le> 8 * length ?ws + 8 then fst (read_block b ?s)
        else (case map_of (rev ?ws) b of Some x \<Rightarrow> Ret (Some x) | None \<Rightarrow> fst (read_block b ?s)))" by auto
  have "fst (read_block 2000 s3) = Ret (Some (replicate 4096 7))" using rd b by simp
  then show ?thesis using run s3 j(1) by auto
qed

section \<open>Where the ring is left\<close>

text \<open>
  A transaction of the largest size that started in the first slot leaves the start at the
  last slot of the ring: the block that forced the split is logged behind the ring.
\<close>

text \<open>when the pending list is full and the transaction began in slot 1, the next block
  write commits it and then logs the block at offset 1024 of the journal, which is not a
  journal block: the write reports success and replaces whatever that block held.
\<close>

theorem split_commit_overruns_ring:
  assumes "journal_ok s j" and "jbd_st s = Some j" and "j_start j = 1" and "length (j_pend j) = MAX_PEND"
    and "b \<notin> set (pend_blocks j)" and "\<not> is_jbd_block (j_base j) b" and "blk_ok s (j_base j + JOURNAL_BLOCKS)"
    and "24 + 8 * MAX_PEND + 8 \<le> power s" and "length x = 4096"
  shows "\<exists>s'. write_block b x s = (Ret True, s') \<and>
    \<not> is_jbd_block (j_base j) (j_base j + JOURNAL_BLOCKS) \<and>
    blk_at (fs_base s) (disk s') (j_base j + JOURNAL_BLOCKS) = x"
proof -
  have ne: "j_pend j \<noteq> []" using assms(4) by (auto simp: MAX_PEND_def)
  have c: "committed j = j\<lparr>j_start := 1023, j_seq := j_seq j + 1, j_pend := []\<rparr>"
    using assms(3,4) by (simp add: committed_def next_start_def MAX_PEND_def JOURNAL_BLOCKS_def Let_def)
  have len: "8 * length (commit_writes s j) \<le> power s"
    using assms(4,8) by (simp add: commit_writes_def home_writes_def pend_blocks_def)
  let ?s1 = "after (commit_writes s j) (Some (committed j)) s"
  have "jbd_commit_locked s = (Ret (), ?s1)"
    using commit_does [OF assms(1,2) ne] len by (simp add: does_def after_def)
  then have room: "make_room j s = (Ret True, ?s1)"
    using ne assms(4) by (simp add: make_room_def attempt_def bnd_def)
  have fnd: "List.find (\<lambda>e. fst e = b) (j_pend j) = None"
    using pend_find_none [of b "j_pend j"] assms(5) by (simp add: pend_blocks_def)
  have bk: "blk_ok ?s1 (j_base j + 1024)" using assms(7) by (simp add: JOURNAL_BLOCKS_def)
  have pw: "8 \<le> power ?s1" using assms(4,8) by (simp add: commit_writes_def home_writes_def pend_blocks_def)
  have act: "j_active j" using assms(1) by (simp add: journal_ok_def)
  let ?j' = "j\<lparr>j_start := 1023, j_seq := j_seq j + 1, j_pend := [(b, 1024)]\<rparr>"
  let ?s' = "?s1\<lparr>disk := put_blk (fs_base s) 8 (j_base j + 1024, x) (disk ?s1), power := power ?s1 - 8, jbd_st := Some ?j'\<rparr>"
  have wr: "write_block_raw (j_base j + 1024) x ?s1 = (Ret True,
      ?s1\<lparr>disk := put_blk (fs_base s) 8 (j_base j + 1024, x) (disk ?s1), power := power ?s1 - 8\<rparr>)"
    using write_block_raw_ok [OF bk] pw by simp
  have "write_block b x s = (Ret True, ?s')"
    using assms(2,6) act fnd room wr by (simp add: write_block_def bnd_def c Let_def add.commute)
  then show ?thesis using assms(9) by (auto simp: is_jbd_block_def JOURNAL_BLOCKS_def blk_at_put_same)
qed

theorem split_commit_overruns_ring_witness:
  "\<exists>s'. write_block 9000 (replicate 4096 7) (jw 1 10000 (jw_jbd 1 (map (\<lambda>i. (2000 + i, 2 + i)) [0..<1020]))) = (Ret True, s') \<and>
     \<not> is_jbd_block 1 1025 \<and> blk_at 0 (disk s') 1025 = replicate 4096 7"
proof -
  let ?p = "map (\<lambda>i. (2000 + i, 2 + i)) [0..<1020]"
  let ?j = "jw_jbd 1 ?p" and ?s = "jw 1 10000 (jw_jbd 1 ?p)"
  have ok: "journal_ok ?s ?j" by (rule jw_ok) (auto simp: MAX_PEND_def simp del: upt_conv_Cons)
  have b: "\<not> is_jbd_block (j_base ?j) 9000" "blk_ok ?s (j_base ?j + JOURNAL_BLOCKS)" "9000 \<notin> set (pend_blocks ?j)"
    "j_start ?j = 1" "length (j_pend ?j) = MAX_PEND"
    by (auto simp: is_jbd_block_def JOURNAL_BLOCKS_def jw_blk_ok jw_jbd_def pend_blocks_def MAX_PEND_def)
  from split_commit_overruns_ring [OF ok _ b(4,5,3,1,2), of "replicate 4096 7"] show ?thesis
    by (simp add: MAX_PEND_def jw_jbd_def JOURNAL_BLOCKS_def del: upt_conv_Cons)
qed

text \<open>
  An empty transaction at the end of the ring is moved to slot 1 in memory only: until the
  next commit is complete the superblock names the old start.
\<close>

lemma wrap_keeps_disk:
  "j_pend j = [] \<Longrightarrow> JOURNAL_BLOCKS - 1 < j_start j + 2 \<Longrightarrow>
     make_room j s = (Ret True, s\<lparr>jbd_st := Some (j\<lparr>j_start := 1\<rparr>)\<rparr>)"
  by (simp add: make_room_def)

lemma replay_stale:
  assumes area: "area_ok s (j_base j)" and st: "1 \<le> j_start j" "j_start j < JOURNAL_BLOCKS"
    and nd: "\<not> is_record JBD_BLOCK_DESC (j_seq j) (blk_at (fs_base s) (disk s) (j_base j + j_start j))"
  shows "jbd_replay j s = (Ret j, s)"
proof -
  have fs: "first_slot j = j_start j" using st by (simp add: first_slot_def)
  have rd: "read_block_raw (j_base j + j_start j) s = (Ret (Some (blk_at (fs_base s) (disk s) (j_base j + j_start j))), s)"
    using area st by (intro read_block_raw_ok) (simp add: area_ok_def)
  have "replay_round j s = (Ret None, s)"
    using nd rd by (simp add: replay_round_def fs Let_def bnd_Ret)
  then show ?thesis by (subst jbd_replay.simps) simp
qed

lemma commit_disk_redo:
  assumes k: "k < length (j_pend j)"
  shows "commit_disk s j (16 + 8 * k) = wrs (fs_base s) (take k (home_writes s j))
    (wrs (fs_base s) [(j_base j + j_start j, the_desc j),
      (j_base j + j_start j + 1 + length (j_pend j), the_commit s j)] (disk s))"
proof -
  let ?w = "[(j_base j + j_start j, the_desc j), (j_base j + j_start j + 1 + length (j_pend j), the_commit s j)]"
  let ?H = "home_writes s j"
  have len: "length ?H = length (j_pend j)" by (simp add: home_writes_def pend_blocks_def)
  then have "commit_disk s j (16 + 8 * k) = cut (fs_base s) (?w @ ?H @ [super_write s j]) (16 + 8 * k) (disk s)"
    using k by (simp add: commit_disk_def commit_writes_def)
  also have "\<dots> = cut (fs_base s) (?H @ [super_write s j]) (8 * k) (wrs (fs_base s) ?w (disk s))"
    using cut_append2 [of ?w "16 + 8 * k"] by simp
  also have "\<dots> = cut (fs_base s) ?H (8 * k) (wrs (fs_base s) ?w (disk s))" using k len by (intro cut_append1) simp
  also have "\<dots> = wrs (fs_base s) (take k ?H) (wrs (fs_base s) ?w (disk s))" by (simp add: cut_def put_blk_0)
  finally show ?thesis .
qed

lemma redo_homes:
  assumes ok: "journal_ok s j" and wf: "pend_wf j" and so: "sectors_ok (disk s)" and k: "k \<le> length (j_pend j)"
    and i: "i < length (j_pend j)"
    and d: "\<And>b. \<not> is_jbd_block (j_base j) b \<Longrightarrow> blk_at (fs_base s) d b = blk_at (fs_base s) (disk s) b"
  shows "blk_at (fs_base s) (wrs (fs_base s) (take k (home_writes s j)) d) (fst (j_pend j ! i)) =
    blk_at (fs_base s) (disk s) (if i < k then loc j (fst (j_pend j ! i)) else fst (j_pend j ! i))"
proof -
  have dist: "distinct (pend_blocks j)" using wf by (simp add: pend_wf_def pend_blocks_def)
  have b: "fst (j_pend j ! i) = pend_blocks j ! i" using i by (simp add: pend_blocks_def)
  have len: "length (pend_blocks j) = length (j_pend j)" by (simp add: pend_blocks_def)
  have T: "take k (home_writes s j) = zip (take k (pend_blocks j)) (take k (logged s j))"
    by (simp add: home_writes_def take_zip)
  show ?thesis
  proof (cases "i < k")
    case True
    have "\<forall>x \<in> set (logged s j). length x = 4096"
      using so by (auto simp: logged_def log_blocks_def blk_at_length)
    then have "\<forall>x \<in> set (take k (logged s j)). length x = 4096" by (blast dest: in_set_takeD)
    then have "blk_at (fs_base s) (wrs (fs_base s) (take k (home_writes s j)) d) (take k (pend_blocks j) ! i) =
        take k (logged s j) ! i"
      unfolding T by (rule wrs_zip_at [rotated 2]) (use dist True k len in simp_all)
    moreover have "logged s j ! i = blk_at (fs_base s) (disk s) (j_base j + j_start j + 1 + i)"
      using i by (simp add: logged_def log_blocks_def add.assoc del: upt_Suc)
    ultimately show ?thesis using True b loc_in [OF wf i] by simp
  next
    case False
    have "pend_blocks j ! i \<notin> set (take k (pend_blocks j))"
      using False i len dist k by (auto simp: in_set_conv_nth nth_eq_iff_index_eq)
    then have "pend_blocks j ! i \<notin> fst ` set (take k (home_writes s j))"
      unfolding T by (auto dest: set_zip_leftD)
    moreover have "\<not> is_jbd_block (j_base j) (pend_blocks j ! i)"
      using journal_ok_facts(4) [OF ok] i len by (metis nth_mem)
    ultimately show ?thesis using False b d by (simp add: blk_at_wrs_other)
  qed
qed

text \<open>a transaction that was wrapped to the start of the ring is not atomic.  When the power
  fails while its blocks are being redone, the mount still looks for the log at the old
  start, finds nothing there and leaves the disk as it is: the blocks redone so far are
  new, the others old.
\<close>

theorem wrapped_commit_torn:
  assumes "journal_ok s j" and "pend_wf j" and "jbd_st s = Some j" and "sectors_ok (disk s)"
    and "super_at (fs_base s) (disk s) (j_base j) r (j_seq j)" and "r = 1022 \<or> r = 1023"
    and "\<not> is_record JBD_BLOCK_DESC (j_seq j) (blk_at (fs_base s) (disk s) (j_base j + r))"
    and "j_start j + 1 + length (j_pend j) < 1022" and "k < length (j_pend j)" and "power s = 16 + 8 * k"
    and "jbd_commit s = (out, s1)" and "rebooted s1 s2"
  shows "out = PowerOff \<and> (\<exists>s3. jbd_open (j_base j) s2 = (Ret (), s3) \<and> disk s3 = disk s1 \<and>
    (\<forall>i < length (j_pend j). fst (read_block (fst (j_pend j ! i)) s3) =
       fst (if i < k then read_block (fst (j_pend j ! i)) s else read_block_raw (fst (j_pend j ! i)) s)))"
proof -
  note f = journal_ok_facts [OF assms(1)]
  have ne: "j_pend j \<noteq> []" using assms(9) by auto
  note run = commit_run [OF assms(1,3) ne assms(11)]
  let ?d2 = "wrs (fs_base s) [(j_base j + j_start j, the_desc j),
      (j_base j + j_start j + 1 + length (j_pend j), the_commit s j)] (disk s)"
  have d: "disk s2 = wrs (fs_base s) (take k (home_writes s j)) ?d2"
    using run(1) assms(10,12) commit_disk_redo [OF assms(9)] by (simp add: rebooted_def)
  have hw: "same_hw s s2" "disk s2 = disk s1" using run(2) assms(12) by (auto simp: rebooted_def same_hw_def)
  have base: "fs_base s2 = fs_base s" using hw by (simp add: same_hw_def)
  have keep: "blk_at (fs_base s) (disk s2) (j_base j + x) = blk_at (fs_base s) (disk s) (j_base j + x)"
    if "x = 0 \<or> x = r" for x
  proof -
    have "j_base j + x \<notin> set (pend_blocks j)"
      using f(4) [of "j_base j + x"] that assms(6) by (auto simp: is_jbd_block_def JOURNAL_BLOCKS_def)
    moreover have "fst ` set (take k (home_writes s j)) \<subseteq> set (pend_blocks j)"
      using home_targets [of s j] by (auto dest!: in_set_takeD)
    ultimately have "j_base j + x \<notin> fst ` set (take k (home_writes s j))" by blast
    then show ?thesis
      using that assms(6,8) f(1) by (auto simp: d blk_at_wrs_other blk_at_put_other)
  qed
  let ?J = "fresh_jbd (j_base j) r (j_seq j)"
  have area: "area_ok s2 (j_base j)" using f(3) blk_ok_cong [OF hw(1)] by (simp add: area_ok_def)
  have "jbd_replay ?J s2 = (Ret ?J, s2)"
    by (rule replay_stale) (use area assms(6,7) keep [of r] base in \<open>auto simp: fresh_jbd_def JOURNAL_BLOCKS_def\<close>)
  then have op: "jbd_open (j_base j) s2 = (Ret (), s2\<lparr>jbd_st := Some ?J\<rparr>)"
    by (intro jbd_open_run [OF area, where start = r and seq = "j_seq j"])
      (use assms(5,6) keep [of 0] base in \<open>auto simp: super_at_def JOURNAL_BLOCKS_def\<close>)
  let ?s3 = "s2\<lparr>jbd_st := Some ?J\<rparr>"
  have rd: "fst (read_block (fst (j_pend j ! i)) ?s3) =
       fst (if i < k then read_block (fst (j_pend j ! i)) s else read_block_raw (fst (j_pend j ! i)) s)"
    if i: "i < length (j_pend j)" for i
  proof -
    let ?b = "fst (j_pend j ! i)"
    have b: "blk_ok s ?b" using f(4) [of ?b] i by (simp add: pend_blocks_def)
    have b3: "blk_ok ?s3 ?b" using b blk_ok_cong [of s ?s3] hw by (simp add: same_hw_def)
    have "read_block ?b ?s3 = read_block_raw ?b ?s3" using read_block_empty [of ?s3 ?J] by (simp add: fresh_jbd_def)
    then have r3: "fst (read_block ?b ?s3) = Ret (Some (blk_at (fs_base s) (disk s2) ?b))"
      using read_block_raw_ok [OF b3] base by simp
    have ar: "\<And>x. x < 1024 \<Longrightarrow> blk_ok s (j_base j + x)" using f(3) by (simp add: area_ok_def JOURNAL_BLOCKS_def)
    have "blk_ok s (loc j ?b)" using loc_in [OF assms(2) i] ar [of "j_start j + 1 + i"] f(2) i by (simp add: add.assoc)
    then have rs: "fst (read_block ?b s) = Ret (Some (blk_at (fs_base s) (disk s) (loc j ?b)))"
      using read_block_loc [OF assms(3) f(8)] by (simp add: read_block_raw_ok)
    have "blk_at (fs_base s) (disk s2) ?b = blk_at (fs_base s) (disk s) (if i < k then loc j ?b else ?b)"
      unfolding d
    proof (rule redo_homes [OF assms(1,2,4) _ i])
      show "blk_at (fs_base s) ?d2 b = blk_at (fs_base s) (disk s) b" if "\<not> is_jbd_block (j_base j) b" for b
      proof -
        have "b \<noteq> j_base j + j_start j" "b \<noteq> j_base j + j_start j + 1 + length (j_pend j)"
          using that assms(8) by (auto simp: is_jbd_block_def JOURNAL_BLOCKS_def)
        then show ?thesis by (simp add: blk_at_put_other)
      qed
    qed (use assms(9) in simp)
    then show ?thesis using r3 rs read_block_raw_ok [OF b] by simp
  qed
  have "out = PowerOff" using run(3) assms(9,10) by simp
  then show ?thesis using op rd hw(2) by auto
qed

theorem wrapped_commit_torn_witness:
  "\<exists>s1. jbd_commit (jw 1022 24 (jw_jbd 1 [(2000, 2), (2001, 3)])) = (PowerOff, s1) \<and>
     (\<exists>s3. jbd_open 1 (s1\<lparr>power := 100, jbd_st := None\<rparr>) = (Ret (), s3) \<and> disk s3 = disk s1)"
proof -
  let ?j = "jw_jbd 1 [(2000, 2), (2001, 3)]"
  let ?s = "jw 1022 24 ?j"
  have ok: "journal_ok ?s ?j" by (rule jw_ok) (auto simp: MAX_PEND_def)
  have wf: "pend_wf ?j" by (simp add: pend_wf_def jw_jbd_def)
  have j: "j_base ?j = 1" "length (j_pend ?j) = 2" "j_start ?j = 1" "j_seq ?j = 1" by (simp_all add: jw_jbd_def)
  obtain out s1 where run: "jbd_commit ?s = (out, s1)" by fastforce
  let ?s2 = "s1\<lparr>power := 100, jbd_st := None\<rparr>"
  have re: "rebooted s1 ?s2" by (simp add: rebooted_def same_hw_def)
  have sup: "super_at (fs_base ?s) (disk ?s) (j_base ?j) 1022 (j_seq ?j)" using jw_super [of 1022] j by simp
  have nd: "\<not> is_record JBD_BLOCK_DESC (j_seq ?j) (blk_at (fs_base ?s) (disk ?s) (j_base ?j + 1022))"
    using j by (simp add: jw_zero zero_no_record)
  from wrapped_commit_torn [OF ok wf _ _ sup _ nd _ _ _ run re, of 1] j jw_sectors
  have "out = PowerOff \<and> (\<exists>s3. jbd_open 1 ?s2 = (Ret (), s3) \<and> disk s3 = disk s1)" by simp blast
  then show ?thesis using run by auto
qed

end
