(* ===== verification/Ext4.thy ===== *)
theory Ext4
  imports Journal Paths
begin

text \<open>
  The ext4 driver (\<open>kernel/src/ext4.rs\<close>) above its journal: superblock and group
  descriptors, inodes, extents, the block and inode allocators, and the mount.  Records on
  the disk are byte lists with the offsets of the code; a sum the code forms in a machine
  word is checked where it can leave it, and an index that can leave its array is a panic.
\<close>

section \<open>Constants\<close>

definition EXT_MAGIC :: nat where "EXT_MAGIC = 0xEF53"
definition EXTENT_MAGIC :: nat where "EXTENT_MAGIC = 0xF30A"
definition INCOMPAT_META_CSUM :: u32 where "INCOMPAT_META_CSUM = 0x400"
definition INCOMPAT_SUPPORTED :: u32 where "INCOMPAT_SUPPORTED = 0x4C2"
definition RO_SUPPORTED :: u32 where "RO_SUPPORTED = 0x210"
definition EXT4_EXTENTS_FL :: nat where "EXT4_EXTENTS_FL = 0x80000"
definition S_IFDIR :: nat where "S_IFDIR = 0x4000"
definition S_IFREG :: nat where "S_IFREG = 0x8000"
definition MODE_DIR :: nat where "MODE_DIR = 0x41ED"
definition MODE_FILE :: nat where "MODE_FILE = 0x81A4"
definition MODE_JOURNAL :: nat where "MODE_JOURNAL = 0x8180"
definition DIR_FT_FILE :: byte where "DIR_FT_FILE = 1"
definition DIR_FT_DIR :: byte where "DIR_FT_DIR = 2"
definition INODE_ROOT :: nat where "INODE_ROOT = 2"
definition INODE_JOURNAL :: nat where "INODE_JOURNAL = 8"
definition FIRST_INO :: nat where "FIRST_INO = 11"
definition INODE_SIZE :: nat where "INODE_SIZE = 256"
definition EXTRA_ISIZE :: nat where "EXTRA_ISIZE = 32"
definition DESC_SIZE :: nat where "DESC_SIZE = 64"
definition BPG :: nat where "BPG = 32768"
definition IPG :: nat where "IPG = 8192"
definition META_BLOCKS :: nat where "META_BLOCKS = 517"
definition MAX_GROUPS :: nat where "MAX_GROUPS = 1024"

definition UUID :: "byte list" where "UUID = bytes ''SOLAROS-EXT4-261''"

text \<open>\<open>if !read_block(..) { return Err(Io) }\<close> and the same for writes.\<close>

definition read_blk :: "nat \<Rightarrow> byte list fsop" where
  "read_blk blk = bnd (read_block blk) (some_or Io)"

definition write_blk :: "nat \<Rightarrow> byte list \<Rightarrow> unit fsop" where
  "write_blk blk b = bnd (write_block blk b) (assert_or Io)"

definition ext_info_of :: "ext_info fsop" where
  "ext_info_of = bnd (gets ext_st) (some_or NotFormatted)"

section \<open>Superblock\<close>

definition sb_off :: nat where "sb_off = 1024"

definition sb_read :: "byte list fsop" where
  "sb_read = bnd (read_blk 0) (\<lambda>b. ret (sub sb_off 1024 b))"

definition sb_write :: "byte list \<Rightarrow> unit fsop" where
  "sb_write sb = bnd ext_info_of (\<lambda>i.
     let sb' = (if e_has_csum i then (let z = w32 sb 628 0 in w32 z 628 (unat (crc32c (NOT 0) z))) else sb) in
     bnd (read_blk 0) (\<lambda>b. write_blk 0 (put sb_off sb' b)))"

definition sb_update :: "(byte list \<Rightarrow> byte list fsop) \<Rightarrow> unit fsop" where
  "sb_update f = bnd sb_read (\<lambda>sb. bnd (f sb) sb_write)"

definition sb_free_blocks :: "byte list \<Rightarrow> nat" where
  "sb_free_blocks sb = r32 sb 12 + r32 sb 340 * 2 ^ 32"

section \<open>Group descriptors\<close>

definition desc_block_of :: "nat \<Rightarrow> nat" where
  "desc_block_of g = 1 + g * DESC_SIZE div BLOCK"

definition desc_off_of :: "nat \<Rightarrow> nat" where
  "desc_off_of g = g * DESC_SIZE mod BLOCK"

definition desc_read :: "nat \<Rightarrow> byte list fsop" where
  "desc_read g = bnd (read_blk (desc_block_of g)) (\<lambda>b. ret (sub (desc_off_of g) 64 b))"

definition desc_csum :: "nat \<Rightarrow> byte list \<Rightarrow> nat" where
  "desc_csum g d = unat (crc32c (crc32c (crc32c (NOT 0) UUID) (le_enc 4 g)) (w16 d 30 0)) mod 65536"

definition desc_write :: "nat \<Rightarrow> byte list \<Rightarrow> unit fsop" where
  "desc_write g d = bnd (read_blk (desc_block_of g)) (\<lambda>b.
     write_blk (desc_block_of g) (put (desc_off_of g) (w16 d 30 (desc_csum g d)) b))"

definition desc_bmap_block :: "byte list \<Rightarrow> nat" where
  "desc_bmap_block d = r32 d 0 + r32 d 32 * 2 ^ 32"

definition desc_imap_block :: "byte list \<Rightarrow> nat" where
  "desc_imap_block d = r32 d 4 + r32 d 36 * 2 ^ 32"

definition desc_itable_block :: "byte list \<Rightarrow> nat" where
  "desc_itable_block d = r32 d 8 + r32 d 40 * 2 ^ 32"

text \<open>A counter of the descriptor: low half at \<open>lo\<close>, high half 32 bytes on.\<close>

definition desc_count :: "nat \<Rightarrow> byte list \<Rightarrow> nat" where
  "desc_count lo d = r16 d lo + r16 d (lo + 32) * 65536"

definition desc_set_count :: "nat \<Rightarrow> byte list \<Rightarrow> nat \<Rightarrow> byte list" where
  "desc_set_count lo d v = w16 (w16 d lo (v mod 65536)) (lo + 32) (v div 65536 mod 65536)"

definition desc_free_blocks :: "byte list \<Rightarrow> nat" where "desc_free_blocks = desc_count 12"
definition desc_set_free_blocks :: "byte list \<Rightarrow> nat \<Rightarrow> byte list" where "desc_set_free_blocks = desc_set_count 12"
definition desc_free_inodes :: "byte list \<Rightarrow> nat" where "desc_free_inodes = desc_count 14"
definition desc_set_free_inodes :: "byte list \<Rightarrow> nat \<Rightarrow> byte list" where "desc_set_free_inodes = desc_set_count 14"
definition desc_used_dirs :: "byte list \<Rightarrow> nat" where "desc_used_dirs = desc_count 16"
definition desc_set_used_dirs :: "byte list \<Rightarrow> nat \<Rightarrow> byte list" where "desc_set_used_dirs = desc_set_count 16"

definition bitmap_csum :: "byte list \<Rightarrow> nat" where
  "bitmap_csum data = unat (crc32c (crc32c (NOT 0) UUID) data) mod 65536"

definition set_bitmap_csums :: "byte list \<Rightarrow> byte list \<Rightarrow> byte list \<Rightarrow> byte list" where
  "set_bitmap_csums d bmap imap = w32 (w16 (w16 d 24 (bitmap_csum bmap)) 26 (bitmap_csum imap)) 56 0"

section \<open>Inodes\<close>

definition inode_csum :: "nat \<Rightarrow> byte list \<Rightarrow> nat \<Rightarrow> u32 fsop" where
  "inode_csum ino raw extra = bnd (guard_panic (128 + extra \<le> 256)) (\<lambda>_.
     ret (crc32c (crc32c (crc32c (NOT 0) UUID) (le_enc 4 ino)) (take (128 + extra) (w16 (w16 raw 124 0) 130 0))))"

text \<open>The block of the inode table and the offset in it.\<close>

definition inode_place :: "nat \<Rightarrow> (nat \<times> nat) fsop" where
  "inode_place ino = bnd (guard_panic (1 \<le> ino)) (\<lambda>_.
     let g = (ino - 1) div IPG; idx = (ino - 1) mod IPG in
     bnd (desc_read g) (\<lambda>d. let blk = desc_itable_block d + idx * INODE_SIZE div BLOCK in
     bnd (guard_panic (blk < 2 ^ 64)) (\<lambda>_. ret (blk mod 2 ^ 32, idx * INODE_SIZE mod BLOCK))))"

definition inode_load :: "nat \<Rightarrow> byte list fsop" where
  "inode_load ino = bnd ext_info_of (\<lambda>i. bnd (inode_place ino) (\<lambda>(blk, off).
     bnd (read_blk blk) (\<lambda>b. let raw = sub off 256 b; extra = r16 raw 128 in
     if e_has_csum i \<and> 0 < extra then
       bnd (inode_csum ino raw extra) (\<lambda>got.
         if r16 raw 124 + r16 raw 130 * 65536 \<noteq> unat got then fail Io else ret raw)
     else ret raw)))"

definition inode_save :: "nat \<Rightarrow> byte list \<Rightarrow> unit fsop" where
  "inode_save ino raw = bnd ext_info_of (\<lambda>i. bnd (inode_place ino) (\<lambda>(blk, off).
     bnd (read_blk blk) (\<lambda>b. let extra = r16 raw 128 in
     bnd (if e_has_csum i \<and> 0 < extra then
            bnd (inode_csum ino raw extra) (\<lambda>c.
              ret (w16 (w16 raw 124 (unat c mod 65536)) 130 (unat c div 65536)))
          else ret raw) (\<lambda>raw'. write_blk blk (put off raw' b)))))"

definition ino_mode :: "byte list \<Rightarrow> nat" where "ino_mode raw = r16 raw 0"
definition ino_links :: "byte list \<Rightarrow> nat" where "ino_links raw = r16 raw 26"
definition ino_size :: "byte list \<Rightarrow> nat" where "ino_size raw = r32 raw 4 + r32 raw 108 * 2 ^ 32"
definition ino_blocks :: "byte list \<Rightarrow> nat" where "ino_blocks raw = r32 raw 28"
definition ino_extents :: "byte list \<Rightarrow> byte list" where "ino_extents raw = sub 40 60 raw"

definition new_inode :: "nat \<Rightarrow> nat \<Rightarrow> byte list" where
  "new_inode mode links = (let r = replicate 256 0;
     r = w16 (w16 (w16 (w16 r 0 mode) 2 0) 24 0) 26 links;
     r = w32 (w32 r 32 EXT4_EXTENTS_FL) 36 1;
     r = w16 (w16 (w16 r 128 EXTRA_ISIZE) 132 1) 146 0 in
     w32 (w32 r 100 0) 152 0)"

section \<open>Extents\<close>

definition ext_len :: "byte list \<Rightarrow> nat \<Rightarrow> nat" where
  "ext_len data off = (r16 data (off + 4) AND 0x7FFF)"

text \<open>\<open>r32(data, o + 8) | (r32(data, o + 6) << 16)\<close>, the shift in 32 bits.\<close>

definition ext_start :: "byte list \<Rightarrow> nat \<Rightarrow> nat" where
  "ext_start data off = (r32 data (off + 8) OR (push_bit 16 (r32 data (off + 6)) mod 2 ^ 32))"

fun ext_leaf :: "byte list \<Rightarrow> nat \<Rightarrow> nat \<Rightarrow> nat \<Rightarrow> nat option fsop" where
  "ext_leaf data logical e 0 = ret None"
| "ext_leaf data logical e (Suc n) = (let off = 12 + e * 12 in
     bnd (guard_panic (off + 12 \<le> length data)) (\<lambda>_.
     let eblk = r32 data off; elen = ext_len data off; start = ext_start data off in
     bnd (guard_panic (logical < eblk \<or> eblk + elen < 2 ^ 32)) (\<lambda>_.
     if eblk \<le> logical \<and> logical < eblk + elen
     then bnd (guard_panic (start + (logical - eblk) < 2 ^ 32)) (\<lambda>_. ret (Some (start + (logical - eblk))))
     else ext_leaf data logical (e + 1) n)))"

fun ext_index :: "byte list \<Rightarrow> nat \<Rightarrow> nat \<Rightarrow> nat \<Rightarrow> nat option \<Rightarrow> nat option fsop" where
  "ext_index data logical e 0 leaf = ret leaf"
| "ext_index data logical e (Suc n) leaf = (let off = 12 + e * 12 in
     bnd (guard_panic (off + 4 \<le> length data)) (\<lambda>_.
     if r32 data off \<le> logical
     then bnd (guard_panic (off + 8 \<le> length data)) (\<lambda>_.
       ext_index data logical (e + 1) n (Some (r32 data (off + 4) + r16 data (off + 6) * 2 ^ 32)))
     else ext_index data logical (e + 1) n leaf))"

text \<open>
  The descent of \<open>extent_map\<close>.  Reading changes nothing, so after more index blocks than
  there are block numbers one of them has been seen before and the loop never ends.
\<close>

fun ext_descend :: "nat \<Rightarrow> byte list \<Rightarrow> nat \<Rightarrow> nat option fsop" where
  "ext_descend 0 data logical = hang"
| "ext_descend (Suc n) data logical =
    (if r16 data 0 \<noteq> EXTENT_MAGIC then ret None
     else if r16 data 6 = 0 then ext_leaf data logical 0 (r16 data 2)
     else bnd (ext_index data logical 0 (r16 data 2) None) (\<lambda>leaf. case leaf of
        None \<Rightarrow> ret None
      | Some l \<Rightarrow> bnd (read_block (l mod 2 ^ 32)) (\<lambda>r. case r of
          None \<Rightarrow> ret None
        | Some b \<Rightarrow> ext_descend n b logical)))"

definition DESCENTS :: nat where "DESCENTS = 4294967297"

definition extent_map :: "byte list \<Rightarrow> nat \<Rightarrow> nat option fsop" where
  "extent_map hdr logical = ext_descend DESCENTS hdr logical"

definition empty_extents :: "byte list" where
  "empty_extents = w16 (w16 (w16 (w16 (replicate 60 0) 0 EXTENT_MAGIC) 2 0) 4 4) 6 0"

definition extent_append :: "byte list \<Rightarrow> nat \<Rightarrow> byte list fsop" where
  "extent_append raw phys = (let ib0 = ino_extents raw;
      ib = (if r16 ib0 0 \<noteq> EXTENT_MAGIC then empty_extents else ib0); n = r16 ib 2 in
    if r16 ib 6 \<noteq> 0 then fail Unsupported
    else let off = 12 + (n - 1) * 12; eblk = r32 ib off; elen = ext_len ib off; start = ext_start ib off;
             last = (if 0 < n then eblk + elen else 0) in
      bnd (guard_panic (n = 0 \<or> off + 12 \<le> 60 \<and> eblk + elen < 2 ^ 32 \<and> start + elen < 2 ^ 32)) (\<lambda>_.
      if 0 < n \<and> start + elen = phys \<and> elen < 0x7FFF
      then ret (put 40 (w16 ib (off + 4) (elen + 1)) raw)
      else if 4 \<le> n then fail Unsupported
      else (let o' = 12 + n * 12 in
        ret (put 40 (w16 (w32 (w16 (w16 (w32 ib o' last) (o' + 4) 1) (o' + 6) (phys div 65536)) (o' + 8) phys)
          2 (n + 1)) raw))))"

section \<open>Allocation\<close>

text \<open>The free count of the superblock is read as a signed number.\<close>

definition to_i64 :: "nat \<Rightarrow> int" where
  "to_i64 v = (if v < 2 ^ 63 then int v else int v - 2 ^ 64)"

definition update_sb_free_blocks :: "int \<Rightarrow> unit fsop" where
  "update_sb_free_blocks delta = sb_update (\<lambda>sb. let cur = to_i64 (sb_free_blocks sb) + delta in
     bnd (guard_panic (- (2 ^ 63) \<le> cur \<and> cur < 2 ^ 63)) (\<lambda>_. let v = nat (max cur 0) in
     ret (w32 (w32 sb 12 (v mod 2 ^ 32)) 340 (v div 2 ^ 32 mod 2 ^ 32))))"

definition bit_used :: "byte list \<Rightarrow> nat \<Rightarrow> bool" where
  "bit_used m b = (m ! (b div 8) AND push_bit (b mod 8) 1 \<noteq> 0)"

definition bit_mark :: "byte list \<Rightarrow> nat \<Rightarrow> byte list" where
  "bit_mark m b = m[b div 8 := m ! (b div 8) OR push_bit (b mod 8) 1]"

definition bit_clear :: "byte list \<Rightarrow> nat \<Rightarrow> byte list" where
  "bit_clear m b = m[b div 8 := m ! (b div 8) AND NOT (push_bit (b mod 8) 1)]"

fun alloc_block_from :: "ext_info \<Rightarrow> nat \<Rightarrow> nat \<Rightarrow> nat fsop" where
  "alloc_block_from i g 0 = fail NoSpace"
| "alloc_block_from i g (Suc n) =
    bnd (desc_read g) (\<lambda>d. let bblk = desc_bmap_block d mod 2 ^ 32 in
    bnd (read_blk bblk) (\<lambda>bmap.
    bnd (guard_panic (g * BPG \<le> e_total_blocks i)) (\<lambda>_.
    case List.find (\<lambda>b. \<not> bit_used bmap b) [0..<min (e_total_blocks i - g * BPG) BPG] of
      None \<Rightarrow> alloc_block_from i (g + 1) n
    | Some b \<Rightarrow> (let bmap' = bit_mark bmap b in
        bnd (write_blk bblk bmap') (\<lambda>_.
        bnd (read_blk (desc_imap_block d mod 2 ^ 32)) (\<lambda>imap.
        let d' = set_bitmap_csums d bmap' imap; cur = desc_free_blocks d' in
        if cur = 0 then fail NoSpace
        else bnd (desc_write g (desc_set_free_blocks d' (cur - 1))) (\<lambda>_.
          bnd (update_sb_free_blocks (- 1)) (\<lambda>_. ret (g * BPG + b)))))))))"

definition alloc_block :: "nat fsop" where
  "alloc_block = bnd ext_info_of (\<lambda>i. alloc_block_from i 0 (e_groups i))"

definition free_block :: "nat \<Rightarrow> unit fsop" where
  "free_block blk = (let g = blk div BPG; b = blk mod BPG in
    bnd (desc_read g) (\<lambda>d. let bblk = desc_bmap_block d mod 2 ^ 32 in
    bnd (read_blk bblk) (\<lambda>bmap. let bmap' = bit_clear bmap b in
    bnd (write_blk bblk bmap') (\<lambda>_.
    bnd (read_blk (desc_imap_block d mod 2 ^ 32)) (\<lambda>imap.
    let d' = set_bitmap_csums d bmap' imap in
    bnd (desc_write g (desc_set_free_blocks d' (desc_free_blocks d' + 1))) (\<lambda>_.
    update_sb_free_blocks 1))))))"

fun free_run :: "nat \<Rightarrow> nat \<Rightarrow> nat \<Rightarrow> unit fsop" where
  "free_run start k 0 = ret ()"
| "free_run start k (Suc n) = bnd (guard_panic (start + k < 2 ^ 32)) (\<lambda>_.
     bnd (free_block (start + k)) (\<lambda>_. free_run start (k + 1) n))"

fun free_entries :: "byte list \<Rightarrow> nat \<Rightarrow> nat \<Rightarrow> unit fsop" where
  "free_entries ib e 0 = ret ()"
| "free_entries ib e (Suc n) = (let off = 12 + e * 12 in
     bnd (guard_panic (off + 12 \<le> length ib)) (\<lambda>_.
     bnd (free_run (ext_start ib off) 0 (ext_len ib off)) (\<lambda>_. free_entries ib (e + 1) n)))"

definition free_extents :: "byte list \<Rightarrow> unit fsop" where
  "free_extents raw = (let ib = ino_extents raw in
     if r16 ib 0 \<noteq> EXTENT_MAGIC then ret ()
     else if r16 ib 6 \<noteq> 0 then fail Unsupported
     else free_entries ib 0 (r16 ib 2))"

fun alloc_inode_from :: "nat \<Rightarrow> nat \<Rightarrow> nat fsop" where
  "alloc_inode_from g 0 = fail NoSpace"
| "alloc_inode_from g (Suc n) =
    bnd (desc_read g) (\<lambda>d. let iblk = desc_imap_block d mod 2 ^ 32 in
    bnd (read_blk iblk) (\<lambda>imap.
    case List.find (\<lambda>b. \<not> bit_used imap b) [0..<IPG] of
      None \<Rightarrow> alloc_inode_from (g + 1) n
    | Some b \<Rightarrow> (let imap' = bit_mark imap b in
        bnd (write_blk iblk imap') (\<lambda>_.
        bnd (read_blk (desc_bmap_block d mod 2 ^ 32)) (\<lambda>bmap.
        let d' = set_bitmap_csums d bmap imap' in
        bnd (guard_panic (1 \<le> desc_free_inodes d')) (\<lambda>_.
        bnd (desc_write g (desc_set_free_inodes d' (desc_free_inodes d' - 1))) (\<lambda>_.
        bnd (sb_update (\<lambda>sb. bnd (guard_panic (1 \<le> r32 sb 16)) (\<lambda>_. ret (w32 sb 16 (r32 sb 16 - 1))))) (\<lambda>_.
        ret (g * IPG + b + 1)))))))))"

definition alloc_inode :: "nat fsop" where
  "alloc_inode = bnd ext_info_of (\<lambda>i. alloc_inode_from 0 (e_groups i))"

definition free_inode :: "nat \<Rightarrow> unit fsop" where
  "free_inode ino = bnd (guard_panic (1 \<le> ino)) (\<lambda>_. let g = (ino - 1) div IPG; b = (ino - 1) mod IPG in
    bnd (desc_read g) (\<lambda>d. let iblk = desc_imap_block d mod 2 ^ 32 in
    bnd (read_blk iblk) (\<lambda>imap. let imap' = bit_clear imap b in
    bnd (write_blk iblk imap') (\<lambda>_.
    bnd (read_blk (desc_bmap_block d mod 2 ^ 32)) (\<lambda>bmap.
    let d' = set_bitmap_csums d bmap imap' in
    bnd (desc_write g (desc_set_free_inodes d' (desc_free_inodes d' + 1))) (\<lambda>_.
    sb_update (\<lambda>sb. bnd (guard_panic (r32 sb 16 + 1 < 2 ^ 32)) (\<lambda>_. ret (w32 sb 16 (r32 sb 16 + 1))))))))))"

definition bump_used_dirs :: "nat \<Rightarrow> int \<Rightarrow> unit fsop" where
  "bump_used_dirs g delta = bnd (desc_read g) (\<lambda>d.
     desc_write g (desc_set_used_dirs d (nat (max (int (desc_used_dirs d) + delta) 0))))"

section \<open>Mount\<close>

text \<open>\<open>jbd_init\<close>: the journal starts at the first block of inode 8.\<close>

definition jbd_init :: "unit fsop" where
  "jbd_init = bnd (inode_load INODE_JOURNAL) (\<lambda>raw.
     bnd (extent_map (ino_extents raw) 0) (\<lambda>b. case b of None \<Rightarrow> ret () | Some base \<Rightarrow> jbd_open base))"

definition ext_mount_at :: "nat \<Rightarrow> unit fsop" where
  "ext_mount_at base = bnd (set_base base) (\<lambda>_. bnd (read_blk 0) (\<lambda>b.
     let o' = sb_off; incompat = (of_nat (r32 b (o' + 96)) :: u32); ro = (of_nat (r32 b (o' + 100)) :: u32);
         csum = (incompat AND INCOMPAT_META_CSUM \<noteq> 0);
         b' = (if csum then w32 b (o' + 628) 0 else b);
         total = r32 b' (o' + 4) + r32 b' (o' + 332) * 2 ^ 32; bpg = r32 b' (o' + 32);
         groups = (total + bpg - 1) div bpg mod 2 ^ 32 in
     if r16 b (o' + 56) \<noteq> EXT_MAGIC then fail NotFormatted
     else if incompat AND NOT INCOMPAT_SUPPORTED \<noteq> 0 then fail Unsupported
     else if ro AND NOT RO_SUPPORTED \<noteq> 0 then fail Unsupported
     else if csum \<and> unat (crc32c (NOT 0) (sub o' 1024 b')) \<noteq> r32 b (o' + 628) then fail Io
     else if r32 b' (o' + 24) \<noteq> 2 then fail Unsupported
     else if bpg = 0 \<or> BPG < bpg then fail Unsupported
     else bnd (guard_panic (total + bpg < 2 ^ 64)) (\<lambda>_.
       if groups = 0 \<or> MAX_GROUPS < groups then fail Unsupported
       else bnd (modify (\<lambda>s. s\<lparr>ext_st := Some \<lparr>e_groups = groups, e_total_blocks = total mod 2 ^ 32,
              e_has_csum = csum\<rparr>\<rparr>)) (\<lambda>_.
         bnd jbd_init (\<lambda>_. modify (\<lambda>s. s\<lparr>mount_st := Some Ext4\<rparr>))))))"

end
