(* ===== verification/Ext4Dir.thy ===== *)
theory Ext4Dir
  imports Ext4
begin

text \<open>
  Directories, path resolution, the file commands and the formatter of the ext4 driver
  (\<open>kernel/src/ext4.rs\<close>).
\<close>

section \<open>Directory records\<close>

record ext_dirent =
  d_ino :: nat
  d_ftype :: byte
  d_name :: "byte list"

type_synonym 'a ext_visitor = "ext_dirent \<Rightarrow> 'a \<Rightarrow> ('a \<times> bool) fsop"

function ext_recs :: "byte list \<Rightarrow> nat \<Rightarrow> 'a ext_visitor \<Rightarrow> 'a \<Rightarrow> 'a walk fsop" where
  "ext_recs b off f a =
    (if off + 8 \<le> 4096 then
       (let ino = r32 b off; rec = r16 b (off + 4) in
        if rec = 0 \<or> 4096 < off + rec then ret (Go a)
        else if ino \<noteq> 0 then
          (let nl = unat (b ! (off + 6)) in
           if 255 < nl \<or> 4096 < off + 8 + nl then fail Io
           else bnd (f \<lparr>d_ino = ino, d_ftype = b ! (off + 7), d_name = sub (off + 8) nl b\<rparr> a) (\<lambda>(a', halt).
             if halt then ret (Stop a') else ext_recs b (off + rec) f a'))
        else ext_recs b (off + rec) f a)
     else ret (Go a))"
  by pat_completeness auto
termination by (relation "measure (\<lambda>(b, off, f, a). 4096 - off)") auto

declare ext_recs.simps [simp del]

text \<open>
  The loop over the blocks of a directory that the walk, the search for a slot and the
  deletion share.
\<close>

fun dir_blocks :: "byte list \<Rightarrow> nat \<Rightarrow> nat \<Rightarrow> (nat \<Rightarrow> byte list \<Rightarrow> 'a \<Rightarrow> 'a walk fsop) \<Rightarrow> 'a \<Rightarrow> 'a walk fsop" where
  "dir_blocks ib k 0 f a = ret (Go a)"
| "dir_blocks ib k (Suc n) f a = bnd (extent_map ib (k mod 2 ^ 32)) (\<lambda>p. bnd (some_or Io p) (\<lambda>phys.
     bnd (read_blk phys) (\<lambda>b. bnd (f phys b a) (\<lambda>w. case w of
       Stop a' \<Rightarrow> ret (Stop a')
     | Go a' \<Rightarrow> dir_blocks ib (k + 1) n f a'))))"

definition blocks_of :: "nat \<Rightarrow> nat" where
  "blocks_of sz = (sz + 4095) div 4096"

definition ext_walk_dir :: "nat \<Rightarrow> 'a ext_visitor \<Rightarrow> 'a \<Rightarrow> 'a fsop" where
  "ext_walk_dir dir f a = bnd (inode_load dir) (\<lambda>raw.
     if ino_mode raw AND S_IFDIR = 0 then fail NotDir
     else bnd (dir_blocks (ino_extents raw) 0 (blocks_of (ino_size raw)) (\<lambda>phys b. ext_recs b 0 f) a) (\<lambda>w.
       ret (case w of Stop a' \<Rightarrow> a' | Go a' \<Rightarrow> a')))"

definition name_visit :: "byte list \<Rightarrow> (nat \<times> byte) option ext_visitor" where
  "name_visit name e a = ret (if d_name e = name then (Some (d_ino e, d_ftype e), True) else (a, False))"

definition lookup_dir :: "nat \<Rightarrow> byte list \<Rightarrow> (nat \<times> byte) fsop" where
  "lookup_dir dir name = bnd (ext_walk_dir dir (name_visit name) None) (some_or NotFound)"

definition name_bytes :: "uchar list \<Rightarrow> fs_err + byte list" where
  "name_bytes cp = (if cp = [] then Inl BadName else if 255 < length cp then Inl BadName
     else if \<exists>c \<in> set cp. \<not> c < 128 \<or> c < 0x20 \<or> c = SLASH \<or> c = 0 then Inl BadName
     else Inr (map of_nat cp))"

section \<open>Paths\<close>

definition enter_dir :: "nat \<Rightarrow> byte list \<Rightarrow> nat fsop" where
  "enter_dir ino name = bnd (lookup_dir ino name) (\<lambda>(i, ft). if ft \<noteq> DIR_FT_DIR then fail NotDir else ret i)"

function ext_resolve :: "nat \<Rightarrow> uchar list \<Rightarrow> nat fsop" where
  "ext_resolve ino rest = (case pop_comp rest of
     None \<Rightarrow> ret ino
   | Some (cp, tail) \<Rightarrow>
      (if cp = [] then ext_resolve ino tail
       else bnd (of_result (name_bytes cp)) (\<lambda>name. bnd (enter_dir ino name) (\<lambda>i. ext_resolve i tail))))"
  by pat_completeness auto
termination by (relation "measure (\<lambda>(c, p). length p)") (auto simp: pop_comp_less)

declare ext_resolve.simps [simp del]

fun enter_parts :: "nat \<Rightarrow> byte list list \<Rightarrow> nat fsop" where
  "enter_parts ino [] = ret ino"
| "enter_parts ino (p # ps) = bnd (enter_dir ino p) (\<lambda>i. enter_parts i ps)"

definition cwd_ino :: "nat fsop" where
  "cwd_ino = bnd (gets cwd_st) (\<lambda>c. enter_parts INODE_ROOT (take (n_parts c) (parts c)))"

definition ext_resolve_from_cwd :: "uchar list \<Rightarrow> nat fsop" where
  "ext_resolve_from_cwd path =
    (if path \<noteq> [] \<and> path ! 0 = SLASH then ext_resolve INODE_ROOT path
     else bnd cwd_ino (\<lambda>i. ext_resolve i path))"

definition ext_check_dir :: "cwd \<Rightarrow> unit fsop" where
  "ext_check_dir c = bnd (enter_parts INODE_ROOT (take (n_parts c) (parts c))) (\<lambda>_. ret ())"

section \<open>Changing a directory\<close>

function slot_recs :: "byte list \<Rightarrow> nat \<Rightarrow> nat \<Rightarrow> (nat \<times> nat) option" where
  "slot_recs b off need =
    (if off + 8 \<le> 4096 then
       (let ino = r32 b off; rec = r16 b (off + 4) in
        if ino = 0 \<and> rec = 0 then (if need \<le> 4096 - off then Some (off, 4096 - off) else None)
        else if rec = 0 \<or> 4096 < off + rec then None
        else if ino = 0 \<and> need \<le> rec then Some (off, rec)
        else slot_recs b (off + rec) need)
     else None)"
  by pat_completeness auto
termination by (relation "measure (\<lambda>(b, off, need). 4096 - off)") auto

declare slot_recs.simps [simp del]

definition dir_find_slot :: "nat \<Rightarrow> nat \<Rightarrow> (nat \<times> nat \<times> nat) fsop" where
  "dir_find_slot dir need = bnd (inode_load dir) (\<lambda>raw.
     bnd (dir_blocks (ino_extents raw) 0 (blocks_of (ino_size raw)) (\<lambda>phys b a.
       ret (case slot_recs b 0 need of None \<Rightarrow> Go None | Some (off, avail) \<Rightarrow> Stop (Some (phys, off, avail)))) None) (\<lambda>w.
     case w of Stop r \<Rightarrow> some_or NoSpace r | Go r \<Rightarrow> fail NoSpace))"

definition dir_grow :: "nat \<Rightarrow> unit fsop" where
  "dir_grow dir = bnd (inode_load dir) (\<lambda>raw. bnd alloc_block (\<lambda>blk.
     bnd (write_blk blk zero_block) (\<lambda>_.
     bnd (extent_append raw blk) (\<lambda>raw1.
     bnd (guard_panic (ino_size raw1 + BLOCK < 2 ^ 64 \<and> ino_blocks raw1 + 8 < 2 ^ 32)) (\<lambda>_.
     let sz = ino_size raw1 + BLOCK in
     inode_save dir (w32 (w32 (w32 raw1 4 (sz mod 2 ^ 32)) 108 (sz div 2 ^ 32)) 28 (ino_blocks raw1 + 8)))))))"

text \<open>\<open>write_dir_entry\<close> on the area that starts at \<open>off\<close>.\<close>

definition write_dir_entry :: "byte list \<Rightarrow> nat \<Rightarrow> nat \<Rightarrow> byte list \<Rightarrow> byte \<Rightarrow> nat \<Rightarrow> byte list" where
  "write_dir_entry b off ino name ftype rec =
     put (off + 8) name ((w16 (w32 b off ino) (off + 4) rec)[off + 6 := of_nat (length name), off + 7 := ftype])"

definition align4 :: "nat \<Rightarrow> nat" where
  "align4 v = (v + 3) div 4 * 4"

definition dir_add :: "nat \<Rightarrow> byte list \<Rightarrow> nat \<Rightarrow> byte \<Rightarrow> unit fsop" where
  "dir_add dir name child ftype = (let need = align4 (8 + length name) in
     bnd (attempt (dir_find_slot dir need)) (\<lambda>r.
     bnd (case r of
        Inr slot \<Rightarrow> ret slot
      | Inl e \<Rightarrow> (if e = NoSpace then bnd (dir_grow dir) (\<lambda>_. dir_find_slot dir need) else fail e))
       (\<lambda>(phys, off, avail).
     bnd (read_blk phys) (\<lambda>b.
     let rec = (if 8 \<le> avail - need then need else avail);
         b1 = write_dir_entry b off child name ftype rec;
         b2 = (if 8 \<le> avail - need then write_dir_entry b1 (off + need) 0 [] 0 (avail - need) else b1) in
     write_blk phys b2))))"

function del_recs :: "byte list \<Rightarrow> nat \<Rightarrow> byte list \<Rightarrow> nat option fsop" where
  "del_recs b off name =
    (if off + 8 \<le> 4096 then
       (let ino = r32 b off; rec = r16 b (off + 4); nl = unat (b ! (off + 6)) in
        if rec = 0 \<or> 4096 < off + rec then ret None
        else if ino \<noteq> 0 \<and> nl = length name
        then bnd (guard_panic (off + 8 + nl \<le> 4096)) (\<lambda>_.
          if sub (off + 8) nl b = name then ret (Some off) else del_recs b (off + rec) name)
        else del_recs b (off + rec) name)
     else ret None)"
  by pat_completeness auto
termination by (relation "measure (\<lambda>(b, off, name). 4096 - off)") auto

declare del_recs.simps [simp del]

definition dir_del :: "nat \<Rightarrow> byte list \<Rightarrow> unit fsop" where
  "dir_del dir name = bnd (inode_load dir) (\<lambda>raw.
     bnd (dir_blocks (ino_extents raw) 0 (blocks_of (ino_size raw)) (\<lambda>phys b a.
       bnd (del_recs b 0 name) (\<lambda>r. case r of
         None \<Rightarrow> ret (Go ())
       | Some off \<Rightarrow> bnd (write_blk phys (w32 b off 0)) (\<lambda>_. ret (Stop ())))) ()) (\<lambda>w.
     case w of Stop _ \<Rightarrow> ret () | Go _ \<Rightarrow> fail NotFound))"

section \<open>Files\<close>

text \<open>The first \<open>n\<close> bytes of a file, block \<open>k\<close> on.\<close>

fun read_data :: "byte list \<Rightarrow> nat \<Rightarrow> nat \<Rightarrow> nat \<Rightarrow> byte list fsop" where
  "read_data ib k 0 n = ret []"
| "read_data ib k (Suc m) n = bnd (extent_map ib (k mod 2 ^ 32)) (\<lambda>p. bnd (some_or Io p) (\<lambda>phys.
     bnd (read_blk phys) (\<lambda>b. bnd (read_data ib (k + 1) m (n - 4096)) (\<lambda>r. ret (take (min n 4096) b @ r)))))"

definition read_file_data :: "nat \<Rightarrow> nat \<Rightarrow> byte list fsop" where
  "read_file_data ino out_len = bnd (inode_load ino) (\<lambda>raw.
     if ino_mode raw AND S_IFREG = 0 then fail IsDir
     else let want = min (ino_size raw) out_len in
       if want = 0 then ret [] else read_data (ino_extents raw) 0 (blocks_of want) want)"

definition ext_with_leaf :: "uchar list \<Rightarrow> (nat \<Rightarrow> byte list \<Rightarrow> 'a fsop) \<Rightarrow> 'a fsop" where
  "ext_with_leaf path f = (let (parent, leaf) = split_parent path in
     bnd (ext_resolve_from_cwd parent) (\<lambda>p. bnd (of_result (name_bytes leaf)) (f p)))"

definition ext_exists :: "nat \<Rightarrow> byte list \<Rightarrow> bool fsop" where
  "ext_exists p name = bnd (attempt (lookup_dir p name)) (\<lambda>r. ret (case r of Inl e \<Rightarrow> False | Inr e \<Rightarrow> True))"

definition ls_name :: "byte list \<Rightarrow> uchar list" where
  "ls_name name = take 64 (map (\<lambda>c. if 0x20 \<le> c \<and> c < 0x7F then unat c else 63) name)"

definition ext_ls_visit :: "unit ext_visitor" where
  "ext_ls_visit e a = bnd (attempt (inode_load (d_ino e))) (\<lambda>r.
     bnd (print (ls_name (d_name e) @ [32] @ pad_right 6 (chars (if d_ftype e = DIR_FT_DIR then ''<DIR>'' else ''file'')) @ [32] @
       pad_left 8 (dec (case r of Inl _ \<Rightarrow> 0 | Inr raw \<Rightarrow> ino_size raw)) @ [10])) (\<lambda>_. ret ((), False)))"

definition ext_ls :: "uchar list \<Rightarrow> unit fsop" where
  "ext_ls path = bnd (ext_resolve_from_cwd path) (\<lambda>dir. bnd (inode_load dir) (\<lambda>raw.
     if ino_mode raw AND S_IFDIR = 0 then fail NotDir else ext_walk_dir dir ext_ls_visit ()))"

definition ext_cat :: "uchar list \<Rightarrow> unit fsop" where
  "ext_cat path = ext_with_leaf path (\<lambda>p name. bnd (lookup_dir p name) (\<lambda>(ino, ft).
     if ft \<noteq> DIR_FT_FILE then fail IsDir
     else bnd (read_file_data ino 8192) (\<lambda>bs. print (map (\<lambda>c. if 0x20 \<le> c \<and> c < 0x7F then unat c else 63) bs))))"

definition ext_read_file :: "uchar list \<Rightarrow> nat \<Rightarrow> byte list fsop" where
  "ext_read_file path out_len = ext_with_leaf path (\<lambda>p name. bnd (lookup_dir p name) (\<lambda>(ino, ft).
     if ft \<noteq> DIR_FT_FILE then fail IsDir else read_file_data ino out_len))"

definition ext_touch :: "uchar list \<Rightarrow> unit fsop" where
  "ext_touch path = ext_with_leaf path (\<lambda>p name. bnd (ext_exists p name) (\<lambda>ex. if ex then ret () else
     bnd alloc_inode (\<lambda>ino. bnd (inode_save ino (new_inode MODE_FILE 1)) (\<lambda>_. dir_add p name ino DIR_FT_FILE))))"

text \<open>An extent root with one extent of \<open>n\<close> blocks at \<open>blk\<close>, and the inode of a one-block directory.\<close>

definition one_extent :: "nat \<Rightarrow> nat \<Rightarrow> byte list" where
  "one_extent blk n = w32 (w16 (w16 (w32 (w16 (w16 (w16 (replicate 60 0) 0 EXTENT_MAGIC) 2 1) 4 4) 12 0) 16 n)
     18 (blk div 65536)) 20 blk"

definition dir_inode :: "nat \<Rightarrow> nat \<Rightarrow> byte list" where
  "dir_inode links dblk = put 40 (one_extent dblk 1) (w32 (w32 (new_inode MODE_DIR links) 4 BLOCK) 28 8)"

definition dots_block :: "nat \<Rightarrow> nat \<Rightarrow> byte list" where
  "dots_block self parent = write_dir_entry (write_dir_entry zero_block 0 self [46] DIR_FT_DIR 12)
     12 parent [46, 46] DIR_FT_DIR (BLOCK - 12)"

definition add_links :: "nat \<Rightarrow> (nat \<Rightarrow> nat fsop) \<Rightarrow> unit fsop" where
  "add_links p f = bnd (inode_load p) (\<lambda>raw. bnd (f (ino_links raw)) (\<lambda>l. inode_save p (w16 raw 26 l)))"

definition ext_mkdir :: "uchar list \<Rightarrow> unit fsop" where
  "ext_mkdir path = ext_with_leaf path (\<lambda>p name. bnd (ext_exists p name) (\<lambda>ex. if ex then fail Exists else
     bnd alloc_inode (\<lambda>nino. bnd alloc_block (\<lambda>dblk.
     bnd (write_blk dblk (dots_block nino p)) (\<lambda>_.
     bnd (inode_save nino (dir_inode 2 dblk)) (\<lambda>_.
     bnd (dir_add p name nino DIR_FT_DIR) (\<lambda>_.
     bnd (add_links p (\<lambda>l. bnd (guard_panic (l + 1 < 65536)) (\<lambda>_. ret (l + 1)))) (\<lambda>_.
     bump_used_dirs ((nino - 1) div IPG) 1))))))))"

text \<open>
  The data blocks of \<open>write_file\<close>.  The closure of the code keeps the inode it has built so
  far when it fails, so the loop returns it with the error.
\<close>

fun write_blocks :: "byte list \<Rightarrow> byte list \<Rightarrow> nat \<Rightarrow> (byte list \<times> fs_err option) fsop" where
  "write_blocks raw data 0 = ret (raw, None)"
| "write_blocks raw data (Suc n) = bnd (attempt (bnd alloc_block (\<lambda>blk.
     bnd (write_blk blk (take 4096 data @ replicate (4096 - length data) 0)) (\<lambda>_. extent_append raw blk)))) (\<lambda>r. case r of
       Inl e \<Rightarrow> ret (raw, Some e)
     | Inr raw' \<Rightarrow> write_blocks raw' (drop 4096 data) n)"

definition reset_inode :: "byte list \<Rightarrow> byte list" where
  "reset_inode raw = put 40 (replicate 60 0) (w32 (w32 (w32 (w16 raw 0 MODE_FILE) 4 0) 108 0) 28 0)"

definition ext_write_file :: "uchar list \<Rightarrow> byte list \<Rightarrow> unit fsop" where
  "ext_write_file path data = ext_with_leaf path (\<lambda>p name.
     bnd (attempt (lookup_dir p name)) (\<lambda>old.
     bnd (case old of
        Inr (i, ft) \<Rightarrow> (if ft = DIR_FT_FILE then ret i else fail IsDir)
      | Inl _ \<Rightarrow> alloc_inode) (\<lambda>ino.
     bnd (case old of
        Inl _ \<Rightarrow> bnd (dir_add p name ino DIR_FT_FILE) (\<lambda>_. ret (new_inode MODE_FILE 1))
      | Inr _ \<Rightarrow> bnd (inode_load ino) (\<lambda>raw. bnd (free_extents raw) (\<lambda>_. ret raw))) (\<lambda>raw0.
     let raw = w16 (reset_inode raw0) 26 1 in
     bnd (inode_save ino raw) (\<lambda>_.
     if data = [] then ret ()
     else bnd (write_blocks raw data (blocks_of (length data))) (\<lambda>(raw1, res). case res of
        Some e \<Rightarrow> bnd (free_extents raw1) (\<lambda>_.
          bnd (inode_save ino (w32 (w32 (put 40 (replicate 60 0) raw1) 108 0) 28 0)) (\<lambda>_. fail e))
      | None \<Rightarrow> inode_save ino (w16 (w32 (w32 raw1 4 (length data)) 28 (blocks_of (length data) * 8)) 26 1)))))))"

definition ext_rm :: "uchar list \<Rightarrow> unit fsop" where
  "ext_rm path = ext_with_leaf path (\<lambda>p name. bnd (lookup_dir p name) (\<lambda>(ino, ft).
     if ft \<noteq> DIR_FT_FILE then fail IsDir
     else bnd (inode_load ino) (\<lambda>raw. bnd (free_extents raw) (\<lambda>_. bnd (free_inode ino) (\<lambda>_. dir_del p name)))))"

definition other_visit :: "bool ext_visitor" where
  "other_visit e a = ret (if d_name e = [46] \<or> d_name e = [46, 46] then (a, False) else (True, True))"

definition ext_rmdir :: "uchar list \<Rightarrow> unit fsop" where
  "ext_rmdir path = ext_with_leaf path (\<lambda>p name. bnd (lookup_dir p name) (\<lambda>(ino, ft).
     if ft \<noteq> DIR_FT_DIR then fail NotDir
     else bnd (ext_walk_dir ino other_visit False) (\<lambda>nonempty.
       if nonempty then fail NotEmpty
       else bnd (inode_load ino) (\<lambda>raw. bnd (free_extents raw) (\<lambda>_. bnd (free_inode ino) (\<lambda>_.
         bnd (dir_del p name) (\<lambda>_. bnd (add_links p (\<lambda>l. ret (l - 1))) (\<lambda>_.
         bump_used_dirs ((ino - 1) div IPG) (- 1)))))))))"

definition ext_mv :: "uchar list \<Rightarrow> uchar list \<Rightarrow> unit fsop" where
  "ext_mv old new = ext_with_leaf old (\<lambda>opc oname. bnd (lookup_dir opc oname) (\<lambda>(ino, ft).
     ext_with_leaf new (\<lambda>npc nname. bnd (ext_exists npc nname) (\<lambda>ex. if ex then fail Exists else
       bnd (dir_add npc nname ino ft) (\<lambda>_. dir_del opc oname)))))"

end
