(* ===== verification/Ext4Mkfs.thy ===== *)
theory Ext4Mkfs
  imports Ext4Dir
begin

text \<open>
  The formatter of the ext4 driver (\<open>mkfs_at\<close> of \<open>kernel/src/ext4.rs\<close>): one definition per
  numbered step of the code.  The journal is switched off while it runs, so every block is
  written in place.
\<close>

section \<open>Bitmaps and descriptors\<close>

fun zero_blocks :: "nat \<Rightarrow> nat \<Rightarrow> unit fsop" where
  "zero_blocks blk 0 = ret ()"
| "zero_blocks blk (Suc n) = bnd (write_blk blk zero_block) (\<lambda>_. zero_blocks (blk + 1) n)"

fun zero_groups :: "nat \<Rightarrow> nat \<Rightarrow> unit fsop" where
  "zero_groups g 0 = ret ()"
| "zero_groups g (Suc n) = bnd (zero_blocks (g * BPG) META_BLOCKS) (\<lambda>_. zero_groups (g + 1) n)"

definition group_blocks :: "nat \<Rightarrow> nat \<Rightarrow> nat" where
  "group_blocks tot g = min (tot - g * BPG) BPG"

definition fresh_bmap :: "nat \<Rightarrow> nat \<Rightarrow> byte list" where
  "fresh_bmap tot g =
     fold (\<lambda>b m. bit_mark m b) [group_blocks tot g..<BPG]
       (fold (\<lambda>b m. bit_mark m b) [0..<min (g * BPG + META_BLOCKS) tot - g * BPG] zero_block)"

definition fresh_imap :: "nat \<Rightarrow> byte list" where
  "fresh_imap g = (if g = 0 then fold (\<lambda>b m. bit_mark m b) [0..<10] zero_block else zero_block)"

fun write_bitmaps :: "nat \<Rightarrow> nat \<Rightarrow> nat \<Rightarrow> unit fsop" where
  "write_bitmaps tot g 0 = ret ()"
| "write_bitmaps tot g (Suc n) = bnd (write_blk (g * BPG + 2) (fresh_bmap tot g)) (\<lambda>_.
     bnd (write_blk (g * BPG + 3) (fresh_imap g)) (\<lambda>_. write_bitmaps tot (g + 1) n))"

definition fresh_desc :: "nat \<Rightarrow> nat \<Rightarrow> byte list \<Rightarrow> byte list" where
  "fresh_desc tot g d = (let gb = group_blocks tot g;
     d = w32 (w32 (w32 d 0 (g * BPG + 2)) 4 (g * BPG + 3)) 8 (g * BPG + 4);
     d = desc_set_free_blocks d (gb - min META_BLOCKS gb);
     d = desc_set_free_inodes d (if g = 0 then IPG - 10 else IPG);
     d = desc_set_used_dirs d 0;
     d = w16 (w16 (w16 d 24 (bitmap_csum (fresh_bmap tot g))) 26 (bitmap_csum (fresh_imap g))) 28 0;
     d = w32 (w32 (w32 d 32 0) 36 0) 40 0;
     d = w32 (w16 (w16 (w16 (w16 d 44 0) 46 0) 48 0) 50 0) 56 0 in
     w16 d 30 (desc_csum g d))"

text \<open>All descriptors go into one block, which holds 64 of them.\<close>

definition desc_table :: "nat \<Rightarrow> nat \<Rightarrow> byte list" where
  "desc_table tot groups = fold (\<lambda>g table.
     put (desc_off_of g) (fresh_desc tot g (sub (desc_off_of g) 64 table)) table) [0..<groups] zero_block"

section \<open>Superblock\<close>

definition fresh_super :: "nat \<Rightarrow> nat \<Rightarrow> byte list" where
  "fresh_super tot groups = (let sb = replicate 1024 0;
     sb = w32 (w32 sb 0 (groups * IPG)) 4 tot;
     sb = w32 sb 16 (groups * IPG - 10);
     sb = w32 (w32 (w32 sb 20 0) 24 2) 28 2;
     sb = w32 (w32 (w32 sb 32 BPG) 36 BPG) 40 IPG;
     sb = w16 (w16 (w32 (w32 sb 44 0) 48 0) 52 0) 54 0xFFFF;
     sb = w16 (w16 (w16 (w16 sb 56 EXT_MAGIC) 58 1) 60 0) 62 0;
     sb = w32 (w32 (w32 (w32 sb 64 0) 68 0) 72 0) 76 1;
     sb = w32 (w16 (w16 sb 80 0) 82 0) 84 FIRST_INO;
     sb = w16 (w16 sb 88 INODE_SIZE) 90 0;
     sb = w32 (w32 (w32 sb 92 0) 96 (unat INCOMPAT_SUPPORTED)) 100 (unat RO_SUPPORTED);
     sb = put 120 (bytes ''SOLAROS         '') (put 104 UUID sb);
     sb = w32 (w32 (w32 (w32 (w32 sb 256 0) 260 0) 280 INODE_JOURNAL) 284 0) 288 0;
     sb = w16 (sb[308 := 1]) 310 DESC_SIZE;
     sb = w32 (w32 sb 320 0) 324 JOURNAL_BLOCKS;
     sb = w32 (w32 (w32 (w32 sb 328 0) 332 0) 336 0) 340 0;
     sb = (w16 (w16 sb 344 28) 346 EXTRA_ISIZE)[370 := 1] in
     w32 sb 12 (tot - META_BLOCKS * groups))"

fun write_backups :: "byte list \<Rightarrow> nat \<Rightarrow> nat \<Rightarrow> unit fsop" where
  "write_backups table g 0 = ret ()"
| "write_backups table g (Suc n) = bnd (read_blk 0) (\<lambda>b. bnd (write_blk (g * BPG) b) (\<lambda>_.
     bnd (write_blk (g * BPG + 1) table) (\<lambda>_. write_backups table (g + 1) n)))"

section \<open>Journal and directories\<close>

definition fresh_journal_super :: "byte list" where
  "fresh_journal_super = (let j = zero_block;
     j = w32 (w32 (w32 (w32 (w32 j 0 JBD_MAGIC) 4 1) 8 1) 12 0) 16 0 in
     w32 (w32 (w32 (w32 j 64 BLOCK) 68 JOURNAL_BLOCKS) 72 1) 76 (JOURNAL_BLOCKS - 1))"

fun alloc_blocks :: "nat \<Rightarrow> unit fsop" where
  "alloc_blocks 0 = ret ()"
| "alloc_blocks (Suc n) = bnd alloc_block (\<lambda>_. alloc_blocks n)"

definition seed_journal :: "unit fsop" where
  "seed_journal = bnd alloc_block (\<lambda>jblk. bnd (write_blk jblk fresh_journal_super) (\<lambda>_.
     bnd (alloc_blocks (JOURNAL_BLOCKS - 1)) (\<lambda>_.
     inode_save INODE_JOURNAL (put 40 (one_extent jblk JOURNAL_BLOCKS)
       (w32 (w32 (new_inode MODE_JOURNAL 1) 4 (JOURNAL_BLOCKS * BLOCK)) 28 (JOURNAL_BLOCKS * 8))))))"

fun seed_children :: "nat \<Rightarrow> nat list fsop" where
  "seed_children 0 = ret []"
| "seed_children (Suc n) = bnd alloc_inode (\<lambda>nino. bnd alloc_block (\<lambda>dblk.
     bnd (write_blk dblk (dots_block nino INODE_ROOT)) (\<lambda>_.
     bnd (inode_save nino (dir_inode 2 dblk)) (\<lambda>_.
     bnd (bump_used_dirs 0 1) (\<lambda>_.
     bnd (seed_children n) (\<lambda>r. ret (nino # r)))))))"

definition ext_seeds :: "byte list list" where
  "ext_seeds = map bytes [''etc'', ''root'', ''home'', ''usr'', ''boot'', ''tmp'']"

text \<open>The entries of the root directory from offset \<open>off\<close> on; the last one takes the rest.\<close>

fun root_entries :: "(nat \<times> byte list) list \<Rightarrow> nat \<Rightarrow> byte list \<Rightarrow> byte list" where
  "root_entries [] off b = b"
| "root_entries ((ino, name) # es) off b = (let need = align4 (8 + length name);
     rec = (if es = [] then BLOCK - off else need) in
     root_entries es (off + rec) (write_dir_entry b off ino name DIR_FT_DIR rec))"

definition seed_root :: "nat list \<Rightarrow> unit fsop" where
  "seed_root child_inos = bnd alloc_block (\<lambda>rblk.
     bnd (write_blk rblk (root_entries (zip child_inos ext_seeds) 0 zero_block)) (\<lambda>_.
     bnd (inode_save INODE_ROOT (dir_inode (2 + length ext_seeds) rblk)) (\<lambda>_. bump_used_dirs 0 1)))"

definition ext_mkfs_at :: "nat \<Rightarrow> unit fsop" where
  "ext_mkfs_at base =
    bnd (modify (\<lambda>s. s\<lparr>jbd_st := None\<rparr>)) (\<lambda>_.
    bnd (set_base base) (\<lambda>_.
    bnd (gets data_device) (\<lambda>dev. bnd (some_or NoDevice dev) (\<lambda>d.
    let tot = dev_sectors d div SECTORS_PER_BLOCK mod 2 ^ 32; groups = (tot + BPG - 1) div BPG in
    if tot < 8192 then fail NoSpace
    else bnd (guard_panic (tot + BPG \<le> 2 ^ 32)) (\<lambda>_.
    if MAX_GROUPS < groups then fail Unsupported
    else
      bnd (zero_blocks 0 META_BLOCKS) (\<lambda>_. bnd (zero_groups 1 (groups - 1)) (\<lambda>_.
      bnd (write_bitmaps tot 0 groups) (\<lambda>_.
      bnd (write_blk 1 (desc_table tot groups)) (\<lambda>_.
      bnd (guard_panic (META_BLOCKS * groups \<le> tot)) (\<lambda>_.
      bnd (modify (\<lambda>s. s\<lparr>ext_st := Some \<lparr>e_groups = groups, e_total_blocks = tot, e_has_csum = True\<rparr>\<rparr>)) (\<lambda>_.
      bnd (sb_write (fresh_super tot groups)) (\<lambda>_.
      bnd (write_backups (desc_table tot groups) 1 (groups - 1)) (\<lambda>_.
      bnd seed_journal (\<lambda>_.
      bnd (seed_children (length ext_seeds)) (\<lambda>child_inos.
      bnd (seed_root child_inos) (\<lambda>_. ext_mount_at base))))))))))))))))"

end
