(* ===== verification/Fs.thy ===== *)
theory Fs
  imports FatDir Ext4Mkfs
begin

text \<open>
  The file system layer (\<open>kernel/src/fs.rs\<close>): mounting, the working directory, and the
  commands, which go to the driver of the mounted file system and commit the journal after
  a change.
\<close>

section \<open>Mounting\<close>

definition kind :: "fs_kind fsop" where
  "kind = bnd (gets mount_st) (some_or NotFormatted)"

definition mounted :: "fsys \<Rightarrow> bool" where
  "mounted s = (mount_st s \<noteq> None)"

definition fs_name :: "fsys \<Rightarrow> string" where
  "fs_name s = (case mount_st s of Some Fat \<Rightarrow> ''FAT32'' | Some Ext4 \<Rightarrow> ''ext4'' | None \<Rightarrow> ''none'')"

definition mount_at :: "nat \<Rightarrow> unit fsop" where
  "mount_at base = bnd (set_base base) (\<lambda>_.
     bnd (gets data_device) (\<lambda>d. bnd (some_or NoDevice d) (\<lambda>_.
     bnd (raw_read 2) (\<lambda>r. bnd (some_or Io r) (\<lambda>sb.
     if r16 sb 56 = EXT_MAGIC then ext_mount_at base else fat_mount_at base)))))"

definition mount :: "unit fsop" where "mount = mount_at 0"

definition mkfs :: "unit fsop" where "mkfs = fat_mkfs_at 0"

definition mkfs_ext4 :: "unit fsop" where "mkfs_ext4 = ext_mkfs_at 0"

section \<open>The working directory\<close>

text \<open>A component becomes at most twelve bytes, the low byte of each character.\<close>

definition cd_part :: "uchar list \<Rightarrow> byte list" where
  "cd_part cp = map of_nat (take 12 cp)"

function cd_parts :: "byte list list \<Rightarrow> uchar list \<Rightarrow> fs_err + byte list list" where
  "cd_parts ps rest = (case pop_comp rest of
     None \<Rightarrow> Inr ps
   | Some (cp, tail) \<Rightarrow>
      (if cp = [] then cd_parts ps tail
       else if cp = [DOT] then cd_parts ps tail
       else if cp = [DOT, DOT] then cd_parts (butlast ps) tail
       else if MAX_DEPTH \<le> length ps then Inl TooBig
       else cd_parts (ps @ [cd_part cp]) tail))"
  by pat_completeness auto
termination by (relation "measure (\<lambda>(ps, p). length p)") (auto simp: pop_comp_less)

declare cd_parts.simps [simp del]

definition fs_check_dir :: "cwd \<Rightarrow> unit fsop" where
  "fs_check_dir c = bnd kind (\<lambda>k. case k of Fat \<Rightarrow> fat_check_dir c | Ext4 \<Rightarrow> ext_check_dir c)"

definition cd :: "uchar list \<Rightarrow> unit fsop" where
  "cd path = bnd (gets cwd_st) (\<lambda>c.
     bnd (of_result (cd_parts (if path \<noteq> [] \<and> path ! 0 = SLASH then [] else take (n_parts c) (parts c)) path)) (\<lambda>ps.
     let cand = \<lparr>parts = ps, n_parts = length ps\<rparr> in
     bnd (fs_check_dir cand) (\<lambda>_. modify (\<lambda>s. s\<lparr>cwd_st := cand\<rparr>))))"

section \<open>Commands\<close>

definition commit_after :: "fs_err + unit \<Rightarrow> unit fsop" where
  "commit_after r = bnd (gets mount_st) (\<lambda>k.
     bnd (if k = Some Ext4 then jbd_commit else ret ()) (\<lambda>_. of_result r))"

text \<open>A command that changes nothing, and one that does.\<close>

definition query :: "'a fsop \<Rightarrow> 'a fsop \<Rightarrow> 'a fsop" where
  "query on_fat on_ext = bnd kind (\<lambda>k. case k of Fat \<Rightarrow> on_fat | Ext4 \<Rightarrow> on_ext)"

definition mutate :: "unit fsop \<Rightarrow> unit fsop \<Rightarrow> unit fsop" where
  "mutate on_fat on_ext = bnd kind (\<lambda>k.
     bnd (attempt (case k of Fat \<Rightarrow> on_fat | Ext4 \<Rightarrow> on_ext)) commit_after)"

definition ls :: "uchar list \<Rightarrow> unit fsop" where "ls path = query (fat_ls path) (ext_ls path)"
definition mkdir :: "uchar list \<Rightarrow> unit fsop" where "mkdir path = mutate (fat_mkdir path) (ext_mkdir path)"
definition touch :: "uchar list \<Rightarrow> unit fsop" where "touch path = mutate (fat_touch path) (ext_touch path)"
definition cat :: "uchar list \<Rightarrow> unit fsop" where "cat path = query (fat_cat path) (ext_cat path)"
definition rm :: "uchar list \<Rightarrow> unit fsop" where "rm path = mutate (fat_rm path) (ext_rm path)"
definition rmdir :: "uchar list \<Rightarrow> unit fsop" where "rmdir path = mutate (fat_rmdir path) (ext_rmdir path)"

definition mv :: "uchar list \<Rightarrow> uchar list \<Rightarrow> unit fsop" where
  "mv old new = mutate (fat_mv old new) (ext_mv old new)"

definition read_file :: "uchar list \<Rightarrow> nat \<Rightarrow> byte list fsop" where
  "read_file path out_len = query (fat_read_file path out_len) (ext_read_file path out_len)"

definition write_file :: "uchar list \<Rightarrow> byte list \<Rightarrow> unit fsop" where
  "write_file path data = mutate (fat_write_file path data) (ext_write_file path data)"

end
