(* ===== verification/Users.thy ===== *)
theory Users
  imports Prelude
begin

text \<open>
  The user table and its file \<open>/etc/passwd\<close> (\<open>kernel/src/users.rs\<close>).  Characters are
  Unicode scalar values, the file is bytes; the file system is reached through two functions
  that the operations take as arguments.  \<open>None\<close> is a panic.
\<close>

section \<open>State\<close>

definition MAX_USERS :: nat where "MAX_USERS = 16"
definition NAME_CAP :: nat where "NAME_CAP = 16"
definition PASS_CAP :: nat where "PASS_CAP = 32"

record user =
  u_name :: "uchar list"
  u_name_len :: nat
  u_uid :: nat
  u_gid :: nat
  u_pass :: "uchar list"
  u_pass_len :: nat

definition user_new :: user where
  "user_new = \<lparr>u_name = replicate NAME_CAP 0, u_name_len = 0, u_uid = 0, u_gid = 0,
     u_pass = replicate PASS_CAP 0, u_pass_len = 0\<rparr>"

record users =
  table :: "user list"
  user_count :: nat
  current_idx :: nat

text \<open>\<open>PASSWD_FILE\<close> and the name of the first user\<close>

definition PASSWD_FILE :: "uchar list" where
  "PASSWD_FILE = [47, 101, 116, 99, 47, 112, 97, 115, 115, 119, 100]"

definition root_name :: "uchar list" where
  "root_name = [114, 111, 111, 116]"

definition slice_eq :: "'a list \<Rightarrow> 'a list \<Rightarrow> bool" where
  "slice_eq a b = (length a = length b \<and> list_all (\<lambda>(x, y). x = y) (zip a b))"

lemma slice_eq_eq [simp]: "slice_eq a b = (a = b)"
  by (auto simp: slice_eq_def list_eq_iff_nth_eq list_all_length)

section \<open>Table operations\<close>

text \<open>The loops over \<open>0..count\<close> that look for a name.\<close>

fun scan_name :: "user list \<Rightarrow> uchar list \<Rightarrow> nat \<Rightarrow> nat \<Rightarrow> nat option option" where
  "scan_name us name i 0 = Some None"
| "scan_name us name i (Suc n) = do {
     u \<leftarrow> idx us i;
     s \<leftarrow> upto_idx (u_name u) (u_name_len u);
     if slice_eq s name then Some (Some i) else scan_name us name (i + 1) n
   }"

definition add_user_core :: "uchar list \<Rightarrow> nat \<Rightarrow> nat \<Rightarrow> users \<Rightarrow> ((string + nat) \<times> users) option" where
  "add_user_core name uid gid st =
    (if MAX_USERS \<le> user_count st then Some (Inl ''user table is full'', st)
     else do {
       hit \<leftarrow> scan_name (table st) name 0 (user_count st);
       if hit \<noteq> None then Some (Inl ''user already exists'', st)
       else do {
         let n = min (length name) NAME_CAP;
         let nu = user_new\<lparr>u_name := put 0 (take n name) (u_name user_new), u_name_len := n,
                          u_uid := uid, u_gid := gid\<rparr>;
         u \<leftarrow> idx (table st) (user_count st);
         Some (Inr (user_count st), st\<lparr>table := (table st)[user_count st := nu],
                                      user_count := user_count st + 1\<rparr>)
       }
     })"

definition users_init :: "users \<Rightarrow> users option" where
  "users_init st = do {
     (r, st') \<leftarrow> add_user_core root_name 0 0
       (st\<lparr>table := map (\<lambda>_. user_new) (table st), user_count := 0, current_idx := 0\<rparr>);
     Some st'
   }"

definition ascii_alnum :: "uchar \<Rightarrow> bool" where
  "ascii_alnum c = (48 \<le> c \<and> c \<le> 57 \<or> 65 \<le> c \<and> c \<le> 90 \<or> 97 \<le> c \<and> c \<le> 122)"

definition valid_name :: "uchar list \<Rightarrow> bool" where
  "valid_name name = (if name = [] \<or> NAME_CAP < length name then False
     else list_all (\<lambda>c. ascii_alnum c \<or> c = 95 \<or> c = 45 \<or> c = 46) name)"

text \<open>The search of \<open>next_uid\<close>; the overflow of the 32-bit counter is the panic.\<close>

function next_uid_from :: "user list \<Rightarrow> nat \<Rightarrow> nat option" where
  "next_uid_from us uid =
    (if list_ex (\<lambda>u. u_uid u = uid) us then
       (if uid + 1 < 2 ^ 32 then next_uid_from us (uid + 1) else None)
     else Some uid)"
  by pat_completeness auto
termination
  by (relation "measure (\<lambda>(us, uid). 2 ^ 32 - uid)") auto

declare next_uid_from.simps [simp del]

definition next_uid :: "users \<Rightarrow> nat option" where
  "next_uid st = do {
     us \<leftarrow> upto_idx (table st) (user_count st);
     next_uid_from us 1000
   }"

definition find_user :: "uchar list \<Rightarrow> users \<Rightarrow> nat option option" where
  "find_user name st = scan_name (table st) name 0 (user_count st)"

definition set_current :: "nat \<Rightarrow> users \<Rightarrow> users" where
  "set_current i st = (if i < user_count st then st\<lparr>current_idx := i\<rparr> else st)"

definition has_password :: "nat \<Rightarrow> users \<Rightarrow> bool option" where
  "has_password i st = do { u \<leftarrow> idx (table st) i; Some (0 < u_pass_len u) }"

definition check_password :: "nat \<Rightarrow> uchar list \<Rightarrow> users \<Rightarrow> bool option" where
  "check_password i pass st = do {
     u \<leftarrow> idx (table st) i;
     if u_pass_len u = 0 then Some True
     else do { p \<leftarrow> upto_idx (u_pass u) (u_pass_len u); Some (slice_eq p pass) }
   }"

section \<open>Writing the file\<close>

definition push_byte :: "byte \<Rightarrow> byte list \<times> nat \<Rightarrow> byte list \<times> nat" where
  "push_byte b = (\<lambda>(buf, pos). if pos < length buf then (buf[pos := b], pos + 1) else (buf, pos))"

text \<open>The digits in the order the division loop finds them; a 32-bit value has at most ten.\<close>

fun dec_rev :: "nat \<Rightarrow> byte list" where
  "dec_rev v = (if v = 0 then [] else of_nat (48 + v mod 10) # dec_rev (v div 10))"

declare dec_rev.simps [simp del]

definition push_u32 :: "nat \<Rightarrow> byte list \<times> nat \<Rightarrow> byte list \<times> nat" where
  "push_u32 v bp = (if v = 0 then push_byte 48 bp else fold push_byte (rev (dec_rev v)) bp)"

definition push_user :: "user \<Rightarrow> byte list \<times> nat \<Rightarrow> (byte list \<times> nat) option" where
  "push_user u bp = do {
     nm \<leftarrow> upto_idx (u_name u) (u_name_len u);
     let b1 = push_byte 58 (fold push_byte (map of_nat nm) bp);
     let b2 = push_byte 58 (push_u32 (u_uid u) b1);
     let b3 = push_byte 58 (push_u32 (u_gid u) b2);
     pw \<leftarrow> upto_idx (u_pass u) (u_pass_len u);
     Some (push_byte 10 (fold push_byte (map of_nat pw) b3))
   }"

fun push_users :: "user list \<Rightarrow> nat \<Rightarrow> nat \<Rightarrow> byte list \<times> nat \<Rightarrow> (byte list \<times> nat) option" where
  "push_users us i 0 bp = Some bp"
| "push_users us i (Suc n) bp = do {
     u \<leftarrow> idx us i;
     bp' \<leftarrow> push_user u bp;
     push_users us (i + 1) n bp'
   }"

text \<open>
  \<open>save_to_fs\<close>: \<open>wrf\<close> is \<open>fs::write_file\<close> on a state of the file system, its result ignored;
  \<open>mounted\<close> is \<open>fs::mounted\<close>.
\<close>

definition passwd_image :: "users \<Rightarrow> byte list option" where
  "passwd_image st = do {
     (buf, pos) \<leftarrow> push_users (table st) 0 (user_count st) (replicate 2048 0, 0);
     Some (take pos buf)
   }"

definition save_to_fs ::
  "('f \<Rightarrow> bool) \<Rightarrow> (uchar list \<Rightarrow> byte list \<Rightarrow> 'f \<Rightarrow> 'f) \<Rightarrow> users \<Rightarrow> 'f \<Rightarrow> 'f option" where
  "save_to_fs mounted wrf st f =
    (if \<not> mounted f then Some f
     else do {
       img \<leftarrow> passwd_image st;
       Some (if img \<noteq> [] then wrf PASSWD_FILE img f else f)
     })"

definition add_user ::
  "('f \<Rightarrow> bool) \<Rightarrow> (uchar list \<Rightarrow> byte list \<Rightarrow> 'f \<Rightarrow> 'f) \<Rightarrow> uchar list \<Rightarrow> users \<Rightarrow> 'f
     \<Rightarrow> ((string + nat) \<times> users \<times> 'f) option" where
  "add_user mounted wrf name st f =
    (if \<not> valid_name name then Some (Inl ''invalid username (letters, digits, _ - . only)'', st, f)
     else do {
       uid \<leftarrow> next_uid st;
       (r, st') \<leftarrow> add_user_core name uid uid st;
       case r of
         Inl e \<Rightarrow> Some (Inl e, st', f)
       | Inr i \<Rightarrow> do { f' \<leftarrow> save_to_fs mounted wrf st' f; Some (Inr i, st', f') }
     })"

definition set_password ::
  "('f \<Rightarrow> bool) \<Rightarrow> (uchar list \<Rightarrow> byte list \<Rightarrow> 'f \<Rightarrow> 'f) \<Rightarrow> nat \<Rightarrow> uchar list \<Rightarrow> users \<Rightarrow> 'f
     \<Rightarrow> ((string + unit) \<times> users \<times> 'f) option" where
  "set_password mounted wrf i pass st f =
    (if PASS_CAP < length pass then Some (Inl ''password too long'', st, f)
     else do {
       u \<leftarrow> idx (table st) i;
       let st' = st\<lparr>table := (table st)[i := u\<lparr>u_pass := put 0 pass (u_pass u), u_pass_len := length pass\<rparr>]\<rparr>;
       f' \<leftarrow> save_to_fs mounted wrf st' f;
       Some (Inr (), st', f')
     })"

section \<open>Reading the file\<close>

definition ascii_digit :: "byte \<Rightarrow> bool" where
  "ascii_digit b = (48 \<le> unat b \<and> unat b \<le> 57)"

fun parse_digits :: "nat \<Rightarrow> byte list \<Rightarrow> nat option" where
  "parse_digits v [] = Some v"
| "parse_digits v (b # bs) =
    (if \<not> ascii_digit b then None
     else if 2 ^ 32 \<le> v * 10 then None
     else if 2 ^ 32 \<le> v * 10 + (unat b - 48) then None
     else parse_digits (v * 10 + (unat b - 48)) bs)"

definition parse_u32 :: "byte list \<Rightarrow> nat option" where
  "parse_u32 s = (if s = [] then None else parse_digits 0 s)"

definition bytes_to_chars :: "nat \<Rightarrow> byte list \<Rightarrow> uchar list option" where
  "bytes_to_chars cap s =
    (if cap < length s then None
     else if list_ex (\<lambda>b. b = 0 \<or> b = 58) s then None
     else Some (map unat s))"

text \<open>The pieces between the colons of a line; the code keeps the first four.\<close>

fun split_fields :: "byte list \<Rightarrow> byte list \<Rightarrow> byte list list" where
  "split_fields cur [] = [cur]"
| "split_fields cur (b # bs) =
    (if b = 58 then cur # split_fields [] bs else split_fields (cur @ [b]) bs)"

function split_lines :: "byte list \<Rightarrow> byte list list" where
  "split_lines bs =
    (if bs = [] then []
     else takeWhile (\<lambda>b. b \<noteq> 10) bs # split_lines (drop 1 (dropWhile (\<lambda>b. b \<noteq> 10) bs)))"
  by pat_completeness auto
termination
proof (relation "measure length")
  fix bs :: "byte list"
  assume "bs \<noteq> []"
  moreover have "length (dropWhile (\<lambda>b. b \<noteq> 10) bs) \<le> length bs" by (rule length_dropWhile_le)
  ultimately show "(drop 1 (dropWhile (\<lambda>b. b \<noteq> 10) bs), bs) \<in> measure length"
    by (auto intro: le_less_trans [OF diff_le_mono])
qed simp

declare split_lines.simps [simp del]

type_synonym passwd_entry = "uchar list \<times> nat \<times> nat \<times> uchar list"

definition parse_line :: "byte list \<Rightarrow> passwd_entry option" where
  "parse_line line =
    (let fields = take 4 (split_fields [] line) in
     if length fields < 4 then None
     else (let uid = (case parse_u32 (fields ! 1) of None \<Rightarrow> 0 | Some v \<Rightarrow> v);
               gid = (case parse_u32 (fields ! 2) of None \<Rightarrow> uid | Some v \<Rightarrow> v)
           in case bytes_to_chars NAME_CAP (fields ! 0) of
                None \<Rightarrow> None
              | Some nm \<Rightarrow> (case bytes_to_chars PASS_CAP (fields ! 3) of
                    None \<Rightarrow> None
                  | Some p \<Rightarrow> Some (nm, uid, gid, p))))"

definition parse_passwd :: "byte list \<Rightarrow> passwd_entry list" where
  "parse_passwd bs = take MAX_USERS (List.map_filter parse_line (split_lines bs))"

definition entry_user :: "passwd_entry \<Rightarrow> user" where
  "entry_user = (\<lambda>(nm, uid, gid, p). user_new\<lparr>u_name := put 0 nm (u_name user_new),
     u_name_len := length nm, u_uid := uid, u_gid := gid, u_pass := put 0 p (u_pass user_new),
     u_pass_len := length p\<rparr>)"

definition rebuild :: "passwd_entry list \<Rightarrow> users \<Rightarrow> users" where
  "rebuild parsed st =
    (let us1 = map entry_user parsed @ drop (length parsed) (table st);
         n1 = length parsed;
         has_root = list_ex (\<lambda>(nm, _). slice_eq nm root_name) parsed
     in if \<not> has_root \<and> n1 < MAX_USERS
        then st\<lparr>table := us1[n1 := entry_user (root_name, 0, 0, [])], user_count := n1 + 1\<rparr>
        else st\<lparr>table := us1, user_count := n1\<rparr>)"

text \<open>\<open>rdf\<close> is \<open>fs::read_file\<close> into a buffer of the given size.\<close>

definition load_from_fs ::
  "('f \<Rightarrow> bool) \<Rightarrow> (uchar list \<Rightarrow> byte list \<Rightarrow> 'f \<Rightarrow> 'f) \<Rightarrow> (uchar list \<Rightarrow> nat \<Rightarrow> 'f \<Rightarrow> byte list option \<times> 'f)
     \<Rightarrow> users \<Rightarrow> 'f \<Rightarrow> (users \<times> 'f) option" where
  "load_from_fs mounted wrf rdf st f =
    (if \<not> mounted f then Some (st, f)
     else case rdf PASSWD_FILE 2048 f of
       (None, f') \<Rightarrow> Some (st, f')
     | (Some bs, f') \<Rightarrow>
        if bs = [] then Some (st, f')
        else (let st' = rebuild (parse_passwd bs) st in do {
          f'' \<leftarrow> save_to_fs mounted wrf st' f';
          Some (st', f'')
        }))"

section \<open>Well-formed tables\<close>

definition user_ok :: "user \<Rightarrow> bool" where
  "user_ok u = (length (u_name u) = NAME_CAP \<and> u_name_len u \<le> NAME_CAP \<and>
     length (u_pass u) = PASS_CAP \<and> u_pass_len u \<le> PASS_CAP \<and> u_uid u < 2 ^ 32 \<and> u_gid u < 2 ^ 32)"

definition users_ok :: "users \<Rightarrow> bool" where
  "users_ok st = (length (table st) = MAX_USERS \<and> user_count st \<le> MAX_USERS \<and>
     (\<forall>u \<in> set (table st). user_ok u))"

text \<open>A user as the rest of the system sees it, and the table as a list of those.\<close>

definition view :: "user \<Rightarrow> passwd_entry" where
  "view u = (take (u_name_len u) (u_name u), u_uid u, u_gid u, take (u_pass_len u) (u_pass u))"

definition users_list :: "users \<Rightarrow> passwd_entry list" where
  "users_list st = map view (take (user_count st) (table st))"

definition find_name :: "uchar list \<Rightarrow> passwd_entry list \<Rightarrow> nat option" where
  "find_name name es = (if \<exists>i < length es. fst (es ! i) = name
     then Some (LEAST i. i < length es \<and> fst (es ! i) = name) else None)"

lemma view_simps [simp]: "fst (view u) = take (u_name_len u) (u_name u)"
  by (simp add: view_def)

lemma scan_name_spec:
  assumes "\<forall>u \<in> set us. user_ok u" and "i + n \<le> length us"
  shows "scan_name us name i n =
    Some (if \<exists>j \<in> {i..<i + n}. fst (view (us ! j)) = name
          then Some (LEAST j. i \<le> j \<and> j < i + n \<and> fst (view (us ! j)) = name) else None)"
  using assms
proof (induction n arbitrary: i)
  case 0
  then show ?case by simp
next
  case (Suc n)
  have u: "user_ok (us ! i)" and i: "i < length us" using Suc.prems by auto
  show ?case
  proof (cases "fst (view (us ! i)) = name")
    case True
    have "(LEAST j. i \<le> j \<and> j < i + Suc n \<and> fst (view (us ! j)) = name) = i"
      by (rule Least_equality) (use True in auto)
    moreover have "\<exists>j \<in> {i..<i + Suc n}. fst (view (us ! j)) = name" using True by auto
    ultimately show ?thesis using True i u by (simp add: idx_def upto_idx_def user_ok_def)
  next
    case False
    have r: "i \<le> j \<and> j < i + Suc n \<and> fst (view (us ! j)) = name \<longleftrightarrow>
        i + 1 \<le> j \<and> j < i + 1 + n \<and> fst (view (us ! j)) = name" for j
      using False by (cases "j = i") auto
    have e: "(\<exists>j \<in> {i..<i + Suc n}. fst (view (us ! j)) = name) \<longleftrightarrow>
        (\<exists>j \<in> {i + 1..<i + 1 + n}. fst (view (us ! j)) = name)"
      using r by (meson atLeastLessThan_iff)
    have "scan_name us name i (Suc n) = scan_name us name (i + 1) n"
      using False i u by (simp add: idx_def upto_idx_def user_ok_def)
    then show ?thesis using Suc.IH [of "i + 1"] Suc.prems by (simp only: e r) 
  qed
qed

lemma find_user_spec:
  assumes "users_ok st"
  shows "find_user name st = Some (find_name name (users_list st))"
proof -
  have l: "length (users_list st) = user_count st"
    using assms by (simp add: users_list_def users_ok_def)
  have "(0 \<le> j \<and> j < 0 + user_count st \<and> fst (view (table st ! j)) = name) =
      (j < user_count st \<and> fst (users_list st ! j) = name)" for j
    using assms by (auto simp: users_list_def users_ok_def)
  then show ?thesis
    unfolding find_user_def find_name_def l
    using assms scan_name_spec [of "table st" 0 "user_count st" name]
    by (simp add: users_ok_def users_list_def)
qed

lemma find_name_None: "find_name name es = None \<longleftrightarrow> name \<notin> fst ` set es"
proof -
  have "(\<exists>i < length es. fst (es ! i) = name) = (name \<in> fst ` set es)"
    by (metis (no_types, lifting) image_iff in_set_conv_nth)
  then show ?thesis by (simp add: find_name_def)
qed

lemma user_new_ok [simp]: "user_ok user_new"
  by (simp add: user_ok_def user_new_def)

lemma add_user_core_ok:
  assumes ok: "users_ok st" and "uid < 2 ^ 32" and "gid < 2 ^ 32" and "length name \<le> NAME_CAP"
  shows "\<exists>r st'. add_user_core name uid gid st = Some (r, st') \<and> users_ok st' \<and>
    (if MAX_USERS \<le> user_count st then r = Inl ''user table is full'' \<and> st' = st
     else if name \<in> fst ` set (users_list st) then r = Inl ''user already exists'' \<and> st' = st
     else r = Inr (user_count st) \<and> users_list st' = users_list st @ [(name, uid, gid, [])] \<and>
       user_count st' = user_count st + 1)"
proof (cases "MAX_USERS \<le> user_count st")
  case True
  then show ?thesis using ok by (simp add: add_user_core_def)
next
  case full: False
  have scan: "scan_name (table st) name 0 (user_count st) = Some (find_name name (users_list st))"
    using find_user_spec [OF ok, of name] by (simp add: find_user_def)
  have l: "length (table st) = MAX_USERS" using ok by (simp add: users_ok_def)
  show ?thesis
  proof (cases "find_name name (users_list st)")
    case (Some i)
    then have "name \<in> fst ` set (users_list st)" using find_name_None [of name "users_list st"] by auto
    then show ?thesis using Some full scan ok by (simp add: add_user_core_def)
  next
    case None
    let ?nu = "user_new\<lparr>u_name := put 0 name (u_name user_new), u_name_len := length name,
                      u_uid := uid, u_gid := gid\<rparr>"
    let ?st = "st\<lparr>table := (table st)[user_count st := ?nu], user_count := user_count st + 1\<rparr>"
    have run: "add_user_core name uid gid st = Some (Inr (user_count st), ?st)"
      using None full scan l assms(4) by (simp add: add_user_core_def idx_def Let_def min_absorb1)
    have ok1: "user_ok ?nu" using assms by (simp add: user_ok_def user_new_def)
    have "users_ok ?st"
      using ok full ok1 by (auto simp: users_ok_def dest!: set_update_subset_insert [THEN subsetD])
    moreover have "users_list ?st = users_list st @ [(name, uid, gid, [])]"
    proof -
      have "view ?nu = (name, uid, gid, [])" by (simp add: view_def user_new_def put_def)
      then show ?thesis using full l by (simp add: users_list_def take_Suc_conv_app_nth)
    qed
    ultimately show ?thesis using run None full find_name_None [of name "users_list st"] by simp
  qed
qed

subsection \<open>The next user number\<close>

lemma next_uid_from_least:
  assumes "next_uid_from us uid = Some v"
  shows "uid \<le> v \<and> v \<notin> u_uid ` set us \<and> {uid..<v} \<subseteq> u_uid ` set us"
  using assms
proof (induction us uid rule: next_uid_from.induct)
  case (1 us uid)
  show ?case
  proof (cases "list_ex (\<lambda>u. u_uid u = uid) us")
    case True
    then have lt: "uid + 1 < 2 ^ 32" and r: "next_uid_from us (uid + 1) = Some v"
      using "1.prems" by (auto simp: next_uid_from.simps [of us uid] split: if_splits)
    have in_us: "uid \<in> u_uid ` set us" using True by (auto simp: list_ex_iff)
    from "1.IH" [OF True lt r] have *: "uid + 1 \<le> v" "v \<notin> u_uid ` set us" "{uid + 1..<v} \<subseteq> u_uid ` set us"
      by auto
    have "{uid..<v} = insert uid {uid + 1..<v}" using *(1) by auto
    then show ?thesis using * in_us by auto
  next
    case False
    then have "v = uid" using "1.prems" by (simp add: next_uid_from.simps [of us uid])
    then show ?thesis using False by (auto simp: list_ex_iff)
  qed
qed

lemma next_uid_from_total:
  assumes "{base..<uid} \<subseteq> u_uid ` set us" and "base \<le> uid" and "base + length us + 1 < 2 ^ 32"
  shows "\<exists>v. next_uid_from us uid = Some v"
  using assms
proof (induction us uid rule: next_uid_from.induct)
  case (1 us uid)
  show ?case
  proof (cases "list_ex (\<lambda>u. u_uid u = uid) us")
    case True
    then have "uid \<in> u_uid ` set us" by (auto simp: list_ex_iff)
    moreover have "{base..<uid + 1} = insert uid {base..<uid}" using "1.prems"(2) by auto
    ultimately have sub: "{base..<uid + 1} \<subseteq> u_uid ` set us" using "1.prems"(1) by auto
    then have "card {base..<uid + 1} \<le> card (u_uid ` set us)" by (intro card_mono) auto
    also have "\<dots> \<le> length us" by (meson List.card_length card_image_le finite_set order_trans)
    finally have lt: "uid + 1 < 2 ^ 32" using "1.prems" by simp
    have "next_uid_from us uid = next_uid_from us (uid + 1)"
      using True lt by (simp add: next_uid_from.simps [of us uid])
    then show ?thesis using "1.IH" [OF True lt sub] "1.prems" by simp
  next
    case False
    then show ?thesis by (simp add: next_uid_from.simps [of us uid])
  qed
qed

section \<open>The file image\<close>

text \<open>The bytes written so far to a buffer.\<close>

definition written :: "byte list \<times> nat \<Rightarrow> byte list \<Rightarrow> bool" where
  "written bp out = (length (fst bp) = 2048 \<and> snd bp = length out \<and> length out \<le> 2048 \<and>
     take (length out) (fst bp) = out)"

lemma push_byte_written:
  "written bp out \<Longrightarrow> length out < 2048 \<Longrightarrow> written (push_byte b bp) (out @ [b])"
  by (cases bp) (auto simp: written_def push_byte_def take_Suc_conv_app_nth)

lemma push_bytes_written:
  "written bp out \<Longrightarrow> length out + length xs \<le> 2048 \<Longrightarrow> written (fold push_byte xs bp) (out @ xs)"
proof (induction xs arbitrary: bp out)
  case Nil
  then show ?case by simp
next
  case (Cons x xs)
  then show ?case using Cons.IH [OF push_byte_written [OF Cons.prems(1), of x]] by simp
qed

definition dec :: "nat \<Rightarrow> byte list" where
  "dec v = (if v = 0 then [48] else rev (dec_rev v))"

lemma push_u32_fold: "push_u32 v bp = fold push_byte (dec v) bp"
  by (simp add: push_u32_def dec_def)

lemma dec_rev_length: "v < 10 ^ n \<Longrightarrow> length (dec_rev v) \<le> n"
proof (induction n arbitrary: v)
  case 0
  then show ?case by (simp add: dec_rev.simps)
next
  case (Suc n)
  then have "v div 10 < 10 ^ n" by (simp add: less_mult_imp_div_less mult.commute)
  then show ?case using Suc.IH by (subst dec_rev.simps) simp
qed

lemma dec_length: "v < 2 ^ 32 \<Longrightarrow> length (dec v) \<le> 10"
  using dec_rev_length [of v 10] by (simp add: dec_def)

definition line_of :: "passwd_entry \<Rightarrow> byte list" where
  "line_of = (\<lambda>(nm, uid, gid, p).
     map of_nat nm @ [58] @ dec uid @ [58] @ dec gid @ [58] @ map of_nat p)"

lemma line_of_length:
  assumes "user_ok u"
  shows "length (line_of (view u)) \<le> 71"
  using assms dec_length [of "u_uid u"] dec_length [of "u_gid u"]
  by (simp add: user_ok_def line_of_def view_def NAME_CAP_def PASS_CAP_def)

lemma push_user_written:
  assumes ok: "user_ok u" and w: "written bp out" and room: "length out + 72 \<le> 2048"
  shows "\<exists>bp'. push_user u bp = Some bp' \<and> written bp' (out @ line_of (view u) @ [10])"
proof -
  let ?bs = "line_of (view u) @ [10]"
  have "push_user u bp = Some (fold push_byte ?bs bp)"
    using ok by (simp add: push_user_def upto_idx_def user_ok_def view_def line_of_def push_u32_fold Let_def)
  moreover have "written (fold push_byte ?bs bp) (out @ ?bs)"
    by (rule push_bytes_written [OF w]) (use line_of_length [OF ok] room in simp)
  ultimately show ?thesis by simp
qed

lemma push_users_written:
  assumes "\<forall>u \<in> set us. user_ok u" and "i + n \<le> length us" and "written bp out"
    and "length out + 72 * n \<le> 2048"
  shows "\<exists>bp'. push_users us i n bp = Some bp' \<and>
    written bp' (out @ concat (map (\<lambda>u. line_of (view u) @ [10]) (take n (drop i us))))"
  using assms
proof (induction n arbitrary: i bp out)
  case 0
  then show ?case by simp
next
  case (Suc n)
  have i: "i < length us" "user_ok (us ! i)" using Suc.prems by auto
  obtain b1 where b1: "push_user (us ! i) bp = Some b1" "written b1 (out @ line_of (view (us ! i)) @ [10])"
    using push_user_written [OF i(2) Suc.prems(3)] Suc.prems(4) by auto
  have "length (out @ line_of (view (us ! i)) @ [10]) + 72 * n \<le> 2048"
    using line_of_length [OF i(2)] Suc.prems(4) by simp
  from Suc.IH [OF Suc.prems(1) _ b1(2) this, of "i + 1"] Suc.prems(2)
  obtain b2 where "push_users us (i + 1) n b1 = Some b2"
    "written b2 ((out @ line_of (view (us ! i)) @ [10]) @
       concat (map (\<lambda>u. line_of (view u) @ [10]) (take n (drop (i + 1) us))))" by auto
  moreover have "take (Suc n) (drop i us) = us ! i # take n (drop (i + 1) us)"
    using i(1) by (simp add: Cons_nth_drop_Suc [symmetric])
  ultimately show ?case using b1 i by (auto simp: idx_def)
qed

definition file_of :: "passwd_entry list \<Rightarrow> byte list" where
  "file_of es = concat (map (\<lambda>e. line_of e @ [10]) es)"

lemma passwd_image_ok:
  assumes "users_ok st"
  shows "passwd_image st = Some (file_of (users_list st))"
proof -
  have w: "written (replicate 2048 0, 0) []" by (simp add: written_def)
  have "0 + user_count st \<le> length (table st)" "length ([]::byte list) + 72 * user_count st \<le> 2048"
    using assms by (auto simp: users_ok_def MAX_USERS_def)
  from push_users_written [OF _ this(1) w this(2)] assms
  obtain bp where bp: "push_users (table st) 0 (user_count st) (replicate 2048 0, 0) = Some bp"
    "written bp (file_of (users_list st))"
    by (auto simp: users_ok_def file_of_def users_list_def comp_def)
  then show ?thesis
    by (cases bp) (auto simp: passwd_image_def written_def)
qed

lemma save_to_fs_ok:
  "users_ok st \<Longrightarrow> save_to_fs mounted wrf st f =
     Some (if mounted f \<and> file_of (users_list st) \<noteq> [] then wrf PASSWD_FILE (file_of (users_list st)) f else f)"
  by (simp add: save_to_fs_def passwd_image_ok)

section \<open>Reading it back\<close>

lemma dec_rev_digits: "b \<in> set (dec_rev v) \<Longrightarrow> 48 \<le> unat b \<and> unat b \<le> 57"
proof (induction v rule: dec_rev.induct)
  case (1 v)
  show ?case
  proof (cases "v = 0")
    case True
    then show ?thesis using "1.prems" by (simp add: dec_rev.simps)
  next
    case False
    then have "b = of_nat (48 + v mod 10) \<or> b \<in> set (dec_rev (v div 10))"
      using "1.prems" by (subst (asm) dec_rev.simps) auto
    then show ?thesis
    proof
      assume "b = of_nat (48 + v mod 10)"
      moreover have "(48 + v mod 10) mod 256 = 48 + v mod 10" by simp
      ultimately have "unat b = 48 + v mod 10" by (simp only: unat_of_nat_byte)
      then show ?thesis by simp
    qed (use "1.IH" False in auto)
  qed
qed

lemma dec_digits: "b \<in> set (dec v) \<Longrightarrow> 48 \<le> unat b \<and> unat b \<le> 57"
  using dec_rev_digits [of b v] by (auto simp: dec_def split: if_splits)

lemma parse_digits_append:
  "parse_digits v (xs @ ys) = (case parse_digits v xs of None \<Rightarrow> None | Some w \<Rightarrow> parse_digits w ys)"
  by (induction v xs rule: parse_digits.induct) auto

lemma parse_rev_dec: "v < 2 ^ 32 \<Longrightarrow> parse_digits 0 (rev (dec_rev v)) = Some v"
proof (induction v rule: dec_rev.induct)
  case (1 v)
  show ?case
  proof (cases "v = 0")
    case True
    then show ?thesis by (simp add: dec_rev.simps)
  next
    case False
    have IH: "parse_digits 0 (rev (dec_rev (v div 10))) = Some (v div 10)"
      using "1.IH" [OF False] "1.prems" by simp
    let ?d = "of_nat (48 + v mod 10) :: byte"
    have "(48 + v mod 10) mod 256 = 48 + v mod 10" by simp
    then have d: "unat ?d = 48 + v mod 10" by (simp only: unat_of_nat_byte)
    have e: "v div 10 * 10 + (unat ?d - 48) = v" by (simp only: d) simp
    have "v div 10 * 10 \<le> v" by simp
    then have "v div 10 * 10 < 2 ^ 32" using "1.prems" by linarith
    then have "parse_digits (v div 10) [?d] = Some v"
      using "1.prems" e d by (simp add: ascii_digit_def del: of_nat_add)
    then show ?thesis using IH False by (subst dec_rev.simps) (simp add: parse_digits_append)
  qed
qed

lemma parse_dec: "v < 2 ^ 32 \<Longrightarrow> parse_u32 (dec v) = Some v"
proof -
  assume v: "v < 2 ^ 32"
  have "dec v \<noteq> []" by (simp add: dec_def dec_rev.simps [of v])
  moreover have "parse_digits 0 (dec v) = Some v"
    using parse_rev_dec [OF v] by (auto simp: dec_def ascii_digit_def)
  ultimately show ?thesis by (simp add: parse_u32_def)
qed

lemma split_fields_skip:
  "58 \<notin> set xs \<Longrightarrow> split_fields cur (xs @ ys) = split_fields (cur @ xs) ys"
  by (induction xs arbitrary: cur) auto

lemma split_fields_hd: "hd (split_fields cur ys) = cur @ takeWhile (\<lambda>b. b \<noteq> 58) ys \<and> split_fields cur ys \<noteq> []"
  by (induction cur ys rule: split_fields.induct) auto

lemma split_lines_file:
  assumes "\<forall>l \<in> set ls. 10 \<notin> set l"
  shows "split_lines (concat (map (\<lambda>l. l @ [10]) ls)) = ls"
  using assms
proof (induction ls)
  case Nil
  then show ?case by (simp add: split_lines.simps)
next
  case (Cons l ls)
  have l: "10 \<notin> set l" using Cons.prems by simp
  then have "takeWhile (\<lambda>b. b \<noteq> 10) (l @ 10 # r) = l" "dropWhile (\<lambda>b. b \<noteq> 10) (l @ 10 # r) = 10 # r" for r
    by (induction l) auto
  then show ?case using Cons by (subst split_lines.simps) simp
qed

text \<open>
  What one entry becomes when it is written and read: the password is cut to bytes and ends
  at the first colon.
\<close>

definition reload_pass :: "uchar list \<Rightarrow> uchar list" where
  "reload_pass p = takeWhile (\<lambda>c. c \<noteq> 58) (map (\<lambda>c. c mod 256) p)"

lemma good_name_chars:
  assumes "valid_name nm" and "c \<in> set nm"
  shows "c \<noteq> 58 \<and> c \<noteq> 0 \<and> c \<noteq> 10 \<and> c < 256"
  using assms by (auto simp: valid_name_def list_all_iff ascii_alnum_def split: if_splits)

lemma valid_name_bytes:
  assumes "valid_name nm"
  shows "map unat (map of_nat nm :: byte list) = nm" and "58 \<notin> set (map of_nat nm :: byte list)"
    and "0 \<notin> set (map of_nat nm :: byte list)" and "10 \<notin> set (map of_nat nm :: byte list)"
    and "length nm \<le> NAME_CAP"
proof -
  have r: "unat (of_nat c :: byte) = c" if "c \<in> set nm" for c
    using good_name_chars [OF assms that] by simp
  show "map unat (map of_nat nm :: byte list) = nm" using r by (simp add: map_idI)
  show "58 \<notin> set (map of_nat nm :: byte list)" "0 \<notin> set (map of_nat nm :: byte list)"
    "10 \<notin> set (map of_nat nm :: byte list)"
    using r good_name_chars [OF assms] by (force dest: arg_cong [of _ _ unat])+
  show "length nm \<le> NAME_CAP" using assms by (simp add: valid_name_def split: if_splits)
qed

lemma of_nat_byte_eq: "(of_nat c :: byte) = b \<longleftrightarrow> c mod 256 = unat b"
  by (metis unat_of_nat_byte unsigned_word_eqI)

lemma takeWhile_bytes:
  "map unat (takeWhile (\<lambda>b. b \<noteq> 58) (map of_nat p :: byte list)) = reload_pass p"
  by (simp add: reload_pass_def takeWhile_map comp_def of_nat_byte_eq)

definition reload_entry :: "passwd_entry \<Rightarrow> passwd_entry" where
  "reload_entry = (\<lambda>(nm, uid, gid, p). (nm, uid, gid, reload_pass p))"

text \<open>An entry that survives as one line: a valid name, numbers of 32 bits, no NUL or newline byte.\<close>

definition entry_ok :: "passwd_entry \<Rightarrow> bool" where
  "entry_ok = (\<lambda>(nm, uid, gid, p). valid_name nm \<and> uid < 2 ^ 32 \<and> gid < 2 ^ 32 \<and>
     length p \<le> PASS_CAP \<and> (\<forall>c \<in> set p. c mod 256 \<noteq> 0 \<and> c mod 256 \<noteq> 10))"

lemma dec_no: "58 \<notin> set (dec v)" "10 \<notin> set (dec v)"
  using dec_digits [of 58 v] dec_digits [of 10 v] by auto

lemma line_no_newline:
  assumes "entry_ok e"
  shows "10 \<notin> set (line_of e)"
proof -
  obtain nm uid gid p where e: "e = (nm, uid, gid, p)" by (cases e)
  have "10 \<notin> set (map of_nat p :: byte list)"
    using assms e by (auto simp: entry_ok_def of_nat_byte_eq eq_commute [of _ "of_nat _"])
  then show ?thesis
    using assms e dec_no(2) valid_name_bytes(4) [of nm] by (auto simp: line_of_def entry_ok_def)
qed

lemma parse_line_of:
  assumes "entry_ok e"
  shows "parse_line (line_of e) = Some (reload_entry e)"
proof -
  obtain nm uid gid p where e: "e = (nm, uid, gid, p)" by (cases e)
  have v: "valid_name nm" and u: "uid < 2 ^ 32" "gid < 2 ^ 32" and pl: "length p \<le> PASS_CAP"
    and pc: "\<forall>c \<in> set p. c mod 256 \<noteq> 0 \<and> c mod 256 \<noteq> 10"
    using assms e by (auto simp: entry_ok_def)
  note nb = valid_name_bytes [OF v]
  let ?p = "map of_nat p :: byte list" and ?n = "map of_nat nm :: byte list"
  obtain x xs where tail: "split_fields [] ?p = x # xs" and x: "x = takeWhile (\<lambda>b. b \<noteq> 58) ?p"
    using split_fields_hd [of "[]" ?p] by (cases "split_fields [] ?p") auto
  have "split_fields [] (line_of e) = ?n # dec uid # dec gid # x # xs"
    using nb(2) dec_no(1) tail by (simp add: e line_of_def split_fields_skip)
  then have f: "take 4 (split_fields [] (line_of e)) = [?n, dec uid, dec gid, x]" by simp
  have "bytes_to_chars NAME_CAP ?n = Some nm"
    using nb by (auto simp: bytes_to_chars_def list_ex_iff)
  moreover have "bytes_to_chars PASS_CAP x = Some (reload_pass p)"
  proof -
    have "length x \<le> PASS_CAP"
      using pl length_takeWhile_le [of "\<lambda>b. b \<noteq> 58" ?p] by (simp add: x)
    moreover have "\<forall>b \<in> set x. b \<noteq> 0 \<and> b \<noteq> 58"
    proof
      fix b assume "b \<in> set x"
      then have "b \<in> set ?p" and "b \<noteq> 58" unfolding x by (auto dest: set_takeWhileD)
      then show "b \<noteq> 0 \<and> b \<noteq> 58" using pc by (auto simp: of_nat_byte_eq)
    qed
    ultimately show ?thesis
      using takeWhile_bytes [of p] by (auto simp: bytes_to_chars_def list_ex_iff x)
  qed
  ultimately show ?thesis
    using f parse_dec [OF u(1)] parse_dec [OF u(2)] e
    by (simp add: parse_line_def reload_entry_def)
qed

lemma parse_file_of:
  assumes "\<forall>e \<in> set es. entry_ok e" and "length es \<le> MAX_USERS"
  shows "parse_passwd (file_of es) = map reload_entry es"
proof -
  have "split_lines (concat (map (\<lambda>l. l @ [10]) (map line_of es))) = map line_of es"
    by (rule split_lines_file) (use assms(1) line_no_newline in auto)
  then have "split_lines (file_of es) = map line_of es" by (simp add: file_of_def comp_def)
  moreover have "List.map_filter parse_line (map line_of es) = map reload_entry es"
    using assms(1) by (induction es) (auto simp: map_filter_simps parse_line_of)
  ultimately show ?thesis using assms(2) by (simp add: parse_passwd_def)
qed

lemma rebuild_ok:
  assumes "users_ok st" and "length es \<le> MAX_USERS"
    and "\<forall>(nm, uid, gid, p) \<in> set es. length nm \<le> NAME_CAP \<and> length p \<le> PASS_CAP \<and> uid < 2 ^ 32 \<and> gid < 2 ^ 32"
  shows "users_ok (rebuild es st)"
    and "users_list (rebuild es st) =
      (if root_name \<in> fst ` set es \<or> length es = MAX_USERS then es else es @ [(root_name, 0, 0, [])])"
proof -
  have view: "view (entry_user e) = e" and ok: "user_ok (entry_user e)" if "e \<in> set es" for e
    using assms(3) that
    by (auto simp: view_def entry_user_def user_ok_def user_new_def put_def)
  have view_root: "view (entry_user (root_name, 0, 0, [])) = (root_name, 0, 0, [])"
    and ok_root: "user_ok (entry_user (root_name, 0, 0, []))"
    by (simp_all add: view_def entry_user_def user_ok_def user_new_def put_def root_name_def NAME_CAP_def)
  let ?us = "map entry_user es @ drop (length es) (table st)"
  have len: "length ?us = MAX_USERS" using assms(1,2) by (simp add: users_ok_def)
  have us: "\<forall>u \<in> set ?us. user_ok u"
    using assms(1) ok by (auto simp: users_ok_def dest: in_set_dropD)
  have tk: "map view (take (length es) ?us) = es" using view by (simp add: map_idI)
  have root: "list_ex (\<lambda>(nm, _). slice_eq nm root_name) es \<longleftrightarrow> root_name \<in> fst ` set es"
    by (force simp: list_ex_iff)
  have "users_ok (rebuild es st) \<and> users_list (rebuild es st) =
      (if root_name \<in> fst ` set es \<or> length es = MAX_USERS then es else es @ [(root_name, 0, 0, [])])"
  proof (cases "root_name \<in> fst ` set es \<or> length es = MAX_USERS")
    case True
    then have "rebuild es st = st\<lparr>table := ?us, user_count := length es\<rparr>"
      using root by (auto simp: rebuild_def Let_def)
    then show ?thesis using True len us tk assms(2) by (simp add: users_ok_def users_list_def)
  next
    case False
    then have r: "rebuild es st =
        st\<lparr>table := ?us[length es := entry_user (root_name, 0, 0, [])], user_count := length es + 1\<rparr>"
      and lt: "length es < MAX_USERS"
      using root assms(2) by (auto simp: rebuild_def Let_def)
    have "\<forall>u \<in> set (?us[length es := entry_user (root_name, 0, 0, [])]). user_ok u"
      using us ok_root by (auto dest!: set_update_subset_insert [THEN subsetD])
    moreover have "map view (take (length es + 1) (?us[length es := entry_user (root_name, 0, 0, [])])) =
        es @ [(root_name, 0, 0, [])]"
      using tk view_root lt len by (simp add: take_Suc_conv_app_nth)
    ultimately show ?thesis using False r lt len by (simp add: users_ok_def users_list_def)
  qed
  then show "users_ok (rebuild es st)"
    and "users_list (rebuild es st) =
      (if root_name \<in> fst ` set es \<or> length es = MAX_USERS then es else es @ [(root_name, 0, 0, [])])"
    by simp_all
qed

lemma reload_lengths:
  assumes "\<forall>e \<in> set es. entry_ok e"
  shows "\<forall>(nm, uid, gid, p) \<in> set (map reload_entry es).
    length nm \<le> NAME_CAP \<and> length p \<le> PASS_CAP \<and> uid < 2 ^ 32 \<and> gid < 2 ^ 32"
proof -
  have "length (reload_pass p) \<le> length p" for p
    using length_takeWhile_le [of "\<lambda>c. c \<noteq> 58" "map (\<lambda>c. c mod 256) p"] by (simp add: reload_pass_def)
  then show ?thesis
    using assms valid_name_bytes(5) by (fastforce simp: entry_ok_def reload_entry_def intro: order_trans)
qed

lemma reload_whole:
  assumes ok: "users_ok st" and ok2: "users_ok st2" and es: "\<forall>e \<in> set (users_list st). entry_ok e"
    and root: "root_name \<in> fst ` set (users_list st)" and img: "passwd_image st = Some img"
  shows "users_list (rebuild (parse_passwd img) st2) = map reload_entry (users_list st)"
    and "users_ok (rebuild (parse_passwd img) st2)"
proof -
  have len: "length (users_list st) \<le> MAX_USERS" using ok by (simp add: users_list_def users_ok_def)
  have p: "parse_passwd img = map reload_entry (users_list st)"
    using passwd_image_ok [OF ok] img parse_file_of [OF es len] by simp
  have r: "root_name \<in> fst ` set (map reload_entry (users_list st))"
    using root by (force simp: reload_entry_def image_iff)
  show "users_list (rebuild (parse_passwd img) st2) = map reload_entry (users_list st)"
    and "users_ok (rebuild (parse_passwd img) st2)"
    unfolding p using rebuild_ok [OF ok2 _ reload_lengths [OF es]] len r by auto
qed

lemma reload_pass_plain: "\<forall>c \<in> set p. c < 256 \<and> c \<noteq> 58 \<Longrightarrow> reload_pass p = p"
  by (induction p) (auto simp: reload_pass_def)

section \<open>Properties\<close>

text \<open>C24: the user table survives a save and a load: when root is among the users, every name is
  valid and every password is Latin-1 text without NUL, newline or colon, reading the written
  file into any table gives back the same users in the same order, with their numbers and
  passwords.  Other passwords do not survive (\<open>reload_truncates_password\<close>).\<close>

theorem passwd_roundtrip:
  assumes "users_ok st" and "users_ok st2" and "root_name \<in> fst ` set (users_list st)"
    and "\<forall>(nm, uid, gid, p) \<in> set (users_list st). valid_name nm \<and> uid < 2 ^ 32 \<and> gid < 2 ^ 32 \<and>
           length p \<le> PASS_CAP \<and> (\<forall>c \<in> set p. 0 < c \<and> c < 256 \<and> c \<noteq> 10 \<and> c \<noteq> 58)"
  shows "\<exists>img. passwd_image st = Some img \<and> users_list (rebuild (parse_passwd img) st2) = users_list st \<and>
    users_ok (rebuild (parse_passwd img) st2)"
proof -
  have es: "\<forall>e \<in> set (users_list st). entry_ok e" using assms(4) by (fastforce simp: entry_ok_def)
  have "map reload_entry (users_list st) = users_list st"
    using assms(4) by (intro map_idI) (force simp: reload_entry_def reload_pass_plain)
  then show ?thesis
    using reload_whole [OF assms(1,2) es assms(3)] passwd_image_ok [OF assms(1)] by simp
qed

text \<open>The table after boot, and with a user whose password is ``ab''.\<close>

definition blank_users :: users where
  "blank_users = \<lparr>table = replicate 16 user_new, user_count = 0, current_idx = 0\<rparr>"

lemma blank_ok: "users_ok blank_users"
  by (simp add: blank_users_def users_ok_def MAX_USERS_def)

definition demo_users :: "uchar list \<Rightarrow> users" where
  "demo_users pw = \<lparr>table = [entry_user (root_name, 0, 0, []), entry_user ([97], 1000, 1000, pw)] @
     replicate 14 user_new, user_count = 2, current_idx = 1\<rparr>"

lemma demo_ok: "length pw \<le> 32 \<Longrightarrow> users_ok (demo_users pw) \<and>
    users_list (demo_users pw) = [(root_name, 0, 0, []), ([97], 1000, 1000, pw)]"
  by (auto simp: demo_users_def users_ok_def user_ok_def entry_user_def user_new_def MAX_USERS_def
      NAME_CAP_def PASS_CAP_def root_name_def users_list_def view_def put_def)

lemma demo_names: "valid_name root_name" "valid_name [97]"
  by (simp_all add: valid_name_def root_name_def NAME_CAP_def ascii_alnum_def)

theorem passwd_roundtrip_witness:
  "\<exists>img. passwd_image (demo_users [97, 98]) = Some img \<and>
     users_list (rebuild (parse_passwd img) blank_users) = [(root_name, 0, 0, []), ([97], 1000, 1000, [97, 98])]"
  using passwd_roundtrip [of "demo_users [97, 98]" blank_users] demo_ok [of "[97, 98]"] demo_names blank_ok
  by (auto simp: PASS_CAP_def)

text \<open>what a reload does to a password in general: it keeps the low byte of each character up
  to the first colon.  A password that starts with a colon is gone: after the reload any
  guess is accepted.\<close>

theorem reload_truncates_password:
  assumes "users_ok st" and "users_ok st2" and "root_name \<in> fst ` set (users_list st)"
    and "\<forall>e \<in> set (users_list st). entry_ok e" and "passwd_image st = Some img"
    and "i < user_count st" and "users_list st ! i = (nm, uid, gid, p)"
  shows "users_list (rebuild (parse_passwd img) st2) ! i =
      (nm, uid, gid, takeWhile (\<lambda>c. c \<noteq> 58) (map (\<lambda>c. c mod 256) p)) \<and>
    (hd (p @ [0]) = 58 \<longrightarrow> check_password i guess (rebuild (parse_passwd img) st2) = Some True)"
proof -
  let ?st = "rebuild (parse_passwd img) st2"
  note r = reload_whole [OF assms(1,2,4,3,5)]
  have l: "length (users_list st) = user_count st" "length (users_list ?st) = user_count ?st"
    "user_count ?st \<le> length (table ?st)"
    using assms(1) r(2) by (auto simp: users_list_def users_ok_def)
  then have cnt: "user_count ?st = user_count st" using r(1) by simp
  have e: "users_list ?st ! i = (nm, uid, gid, reload_pass p)"
    using r(1) assms(6,7) l by (simp add: reload_entry_def)
  moreover have "check_password i guess ?st = Some True" if "hd (p @ [0]) = 58"
  proof -
    have "reload_pass p = []" using that by (cases p) (auto simp: reload_pass_def)
    moreover have "view (table ?st ! i) = users_list ?st ! i"
      using assms(6) cnt l by (simp add: users_list_def)
    moreover have "i < length (table ?st)" "user_ok (table ?st ! i)"
      using assms(6) cnt l r(2) by (auto simp: users_ok_def)
    ultimately show ?thesis
      using e by (auto simp: check_password_def idx_def view_def user_ok_def PASS_CAP_def)
  qed
  ultimately show ?thesis by (simp add: reload_pass_def)
qed

theorem reload_truncates_password_witness:
  "\<exists>img. passwd_image (demo_users [58, 98]) = Some img \<and>
     check_password 1 [58, 98] (rebuild (parse_passwd img) blank_users) = Some True \<and>
     check_password 1 [1, 2, 3] (rebuild (parse_passwd img) blank_users) = Some True"
proof -
  have ok: "users_ok (demo_users [58, 98])"
    and l: "users_list (demo_users [58, 98]) = [(root_name, 0, 0, []), ([97], 1000, 1000, [58, 98])]"
    using demo_ok [of "[58, 98]"] by simp_all
  have es: "\<forall>e \<in> set (users_list (demo_users [58, 98])). entry_ok e"
    using demo_names by (simp add: l entry_ok_def PASS_CAP_def)
  have r: "root_name \<in> fst ` set (users_list (demo_users [58, 98]))" by (simp add: l)
  show ?thesis
    using reload_truncates_password [OF ok blank_ok r es passwd_image_ok [OF ok], of 1 "[97]" 1000 1000 "[58, 98]"]
      passwd_image_ok [OF ok] l by (auto simp: demo_users_def)
qed

text \<open>C31: on a mounted file system creating a user never panics: it is refused for an invalid name, a full table or a name
  in use, with nothing changed; otherwise the user is appended with the least unused number
  from 1000 on, no password, and the file is written.\<close>

theorem add_user_spec:
  assumes ok: "users_ok st" and mounted: "mounted f"
  shows "\<exists>r st' f'. add_user mounted wrf name st f = Some (r, st', f') \<and> users_ok st' \<and>
    (case r of
       Inl e \<Rightarrow> st' = st \<and> f' = f \<and> (\<not> valid_name name \<or> user_count st = MAX_USERS \<or>
         name \<in> fst ` set (users_list st))
     | Inr i \<Rightarrow> i = user_count st \<and> valid_name name \<and> name \<notin> fst ` set (users_list st) \<and>
         (\<exists>uid \<ge> 1000. users_list st' = users_list st @ [(name, uid, uid, [])] \<and>
           uid \<notin> (fst \<circ> snd) ` set (users_list st) \<and> {1000..<uid} \<subseteq> (fst \<circ> snd) ` set (users_list st)) \<and>
         f' = wrf PASSWD_FILE (file_of (users_list st')) f)"
proof (cases "valid_name name")
  case False
  then show ?thesis using ok by (simp add: add_user_def)
next
  case True
  let ?us = "take (user_count st) (table st)"
  have us: "upto_idx (table st) (user_count st) = Some ?us"
    using ok by (simp add: upto_idx_def users_ok_def)
  have len: "length ?us \<le> 16" using ok by (simp add: users_ok_def MAX_USERS_def)
  obtain uid where uid: "next_uid_from ?us 1000 = Some uid"
    using next_uid_from_total [of 1000 1000 ?us] len by auto
  note least = next_uid_from_least [OF uid]
  have uids: "u_uid ` set ?us = (fst \<circ> snd) ` set (users_list st)"
    by (auto simp: users_list_def view_def image_comp comp_def)
  have small: "uid < 2 ^ 32"
  proof -
    have "card {1000..<uid} \<le> card (u_uid ` set ?us)" using least by (intro card_mono) auto
    also have "\<dots> \<le> 16" using len by (meson List.card_length card_image_le finite_set order_trans)
    finally show ?thesis by simp
  qed
  obtain r st' where core: "add_user_core name uid uid st = Some (r, st')" and ok': "users_ok st'"
    and spec: "if MAX_USERS \<le> user_count st then r = Inl ''user table is full'' \<and> st' = st
     else if name \<in> fst ` set (users_list st) then r = Inl ''user already exists'' \<and> st' = st
     else r = Inr (user_count st) \<and> users_list st' = users_list st @ [(name, uid, uid, [])] \<and>
       user_count st' = user_count st + 1"
    using add_user_core_ok [OF ok small small valid_name_bytes(5) [OF True]] by blast
  have nx: "next_uid st = Some uid" using us uid by (simp add: next_uid_def)
  show ?thesis
  proof (cases r)
    case (Inl e)
    then have "add_user mounted wrf name st f = Some (Inl e, st', f)"
      using True nx core by (simp add: add_user_def)
    then show ?thesis
      using Inl spec ok ok' by (auto simp: users_ok_def split: if_splits)
  next
    case (Inr i)
    have ne: "file_of (users_list st') \<noteq> []" using spec Inr by (auto simp: file_of_def split: if_splits)
    have "add_user mounted wrf name st f = Some (Inr i, st', wrf PASSWD_FILE (file_of (users_list st')) f)"
      using True nx core Inr mounted ne by (simp add: add_user_def save_to_fs_ok [OF ok'])
    moreover have "i = user_count st" "name \<notin> fst ` set (users_list st)"
      "users_list st' = users_list st @ [(name, uid, uid, [])]"
      using spec Inr by (auto split: if_splits)
    ultimately show ?thesis using Inr ok' True least uids by (auto intro!: exI [of _ uid])
  qed
qed

theorem add_user_spec_witness:
  "\<exists>r st' f'. add_user (\<lambda>f. True) (\<lambda>p b f. b) [98] (demo_users []) [] = Some (r, st', f') \<and> users_ok st'"
  using add_user_spec [of "demo_users []" "\<lambda>f. True" "[]" "\<lambda>p b f. b" "[98]"] demo_ok [of "[]"] by auto

text \<open>passwords: after \<open>set_password\<close> of at most 32 characters the user is let in with
  exactly that password, or with anything when it is empty, and nobody else's answer
  changes; a longer one is refused with nothing changed.\<close>

theorem set_password_spec:
  assumes ok: "users_ok st" and i: "i < user_count st" and j: "j < user_count st"
  shows "\<exists>r st' f'. set_password mounted wrf i pass st f = Some (r, st', f') \<and>
    (if 32 < length pass then r = Inl ''password too long'' \<and> st' = st \<and> f' = f
     else r = Inr () \<and> users_ok st' \<and> check_password j guess st' =
       (if j = i then Some (pass = [] \<or> guess = pass) else check_password j guess st))"
proof (cases "32 < length pass")
  case True
  then show ?thesis by (simp add: set_password_def PASS_CAP_def)
next
  case False
  let ?u = "(table st ! i)\<lparr>u_pass := put 0 pass (u_pass (table st ! i)), u_pass_len := length pass\<rparr>"
  let ?st = "st\<lparr>table := (table st)[i := ?u]\<rparr>"
  have l: "i < length (table st)" "j < length (table st)" "user_ok (table st ! i)"
    using ok i j by (auto simp: users_ok_def)
  have ok1: "user_ok ?u" using l(3) False by (simp add: user_ok_def PASS_CAP_def)
  have ok2: "users_ok ?st"
    using ok ok1 by (auto simp: users_ok_def dest!: set_update_subset_insert [THEN subsetD])
  have "take (length pass) (put 0 pass (u_pass (table st ! i))) = pass" by (simp add: put_def)
  then have "check_password j guess ?st =
      (if j = i then Some (pass = [] \<or> guess = pass) else check_password j guess st)"
    using l False by (auto simp: check_password_def idx_def upto_idx_def user_ok_def PASS_CAP_def)
  then show ?thesis
    using False l ok2 by (simp add: set_password_def PASS_CAP_def idx_def save_to_fs_ok [OF ok2] Let_def)
qed

theorem set_password_spec_witness:
  "\<exists>r st' f'. set_password (\<lambda>f. True) (\<lambda>p b f. b) 1 [120] (demo_users []) [] = Some (r, st', f') \<and>
     check_password 1 [121] st' = Some False"
  using set_password_spec [of "demo_users []" 1 1 "\<lambda>f. True" "\<lambda>p b f. b" "[120]" "[]" "[121]"]
    demo_ok [of "[]"] by (fastforce simp: demo_users_def)

end
