(* ===== verification/Input.thy ===== *)
theory Input
  imports Prelude
begin

text \<open>
  Console input (\<open>kernel/src/input.rs\<close>, the scancode ring and the decoder of
  \<open>kernel/src/keyboard.rs\<close>, \<open>kernel/src/settings.rs\<close>, \<open>read_line\<close> of
  \<open>kernel/src/terminal.rs\<close>).  Both rings follow the same pattern: one free slot keeps
  full and empty apart, a producer in an interrupt handler and one consumer.  The rings are
  shown to be bounded FIFO queues through one interface, the consumer is shown to be safe at
  every point where the handler can interrupt it, and the second producer of the serial
  ring is shown to lose bytes.
\<close>

section \<open>Rings\<close>

record ring =
  buf :: "byte list"
  wpos :: nat
  rpos :: nat

definition RAW_CAP :: nat where "RAW_CAP = 512"
definition SERIAL_CAP :: nat where "SERIAL_CAP = 256"

definition empty_ring :: "nat \<Rightarrow> ring" where
  "empty_ring cap = \<lparr>buf = replicate cap 0, wpos = 0, rpos = 0\<rparr>"

definition ring_full :: "nat \<Rightarrow> ring \<Rightarrow> bool" where
  "ring_full cap q = ((wpos q + 1) mod cap = rpos q)"

definition ring_push :: "nat \<Rightarrow> byte \<Rightarrow> ring \<Rightarrow> ring" where
  "ring_push cap b q =
    (let w = wpos q; r = rpos q; nw = (w + 1) mod cap in
     if nw = r then q else q\<lparr>buf := (buf q)[w := b], wpos := nw\<rparr>)"

definition ring_pop :: "nat \<Rightarrow> ring \<Rightarrow> byte option \<times> ring" where
  "ring_pop cap q =
    (let r = rpos q in
     if r = wpos q then (None, q) else (Some (buf q ! r), q\<lparr>rpos := (r + 1) mod cap\<rparr>))"

definition ring_ok :: "nat \<Rightarrow> ring \<Rightarrow> bool" where
  "ring_ok cap q = (1 < cap \<and> length (buf q) = cap \<and> wpos q < cap \<and> rpos q < cap)"

definition ring_count :: "nat \<Rightarrow> ring \<Rightarrow> nat" where
  "ring_count cap q = (wpos q + cap - rpos q) mod cap"

text \<open>The bytes waiting in the ring, oldest first.\<close>

definition ring_list :: "nat \<Rightarrow> ring \<Rightarrow> byte list" where
  "ring_list cap q = map (\<lambda>k. buf q ! ((rpos q + k) mod cap)) [0..<ring_count cap q]"

lemma ring_count_alt:
  "ring_ok cap q \<Longrightarrow> ring_count cap q = (if rpos q \<le> wpos q then wpos q - rpos q else wpos q + cap - rpos q)"
  by (auto simp: ring_ok_def ring_count_def Suc_diff_le mod_if)

lemma ring_count_less: "ring_ok cap q \<Longrightarrow> ring_count cap q < cap"
  by (auto simp: ring_count_alt) (auto simp: ring_ok_def)

lemma next_pos: "x < cap \<Longrightarrow> Suc x mod cap = (if Suc x = cap then 0 else Suc x)"
  by auto

lemma ring_full_count: "ring_ok cap q \<Longrightarrow> ring_full cap q \<longleftrightarrow> ring_count cap q + 1 = cap"
  unfolding ring_full_def by (simp add: ring_count_alt) (auto simp: ring_ok_def next_pos)

lemma ring_empty_count: "ring_ok cap q \<Longrightarrow> rpos q = wpos q \<longleftrightarrow> ring_count cap q = 0"
  by (auto simp: ring_count_alt) (auto simp: ring_ok_def)

lemma ring_push_ok: "ring_ok cap q \<Longrightarrow> ring_ok cap (ring_push cap b q)"
  by (auto simp: ring_ok_def ring_push_def Let_def)

lemma ring_pop_ok: "ring_ok cap q \<Longrightarrow> ring_ok cap (snd (ring_pop cap q))"
  by (auto simp: ring_ok_def ring_pop_def Let_def)

lemma slot_distinct:
  assumes "r < cap" and "k < n" and "n < (cap::nat)"
  shows "(r + k) mod cap \<noteq> (r + n) mod cap"
proof -
  have "(r + k) mod cap = (if r + k < cap then r + k else r + k - cap)"
    and "(r + n) mod cap = (if r + n < cap then r + n else r + n - cap)"
    using assms by (simp_all add: mod_if)
  then show ?thesis using assms by auto
qed

lemma wpos_slot: "ring_ok cap q \<Longrightarrow> wpos q = (rpos q + ring_count cap q) mod cap"
  by (simp add: ring_count_alt) (auto simp: ring_ok_def mod_if)

lemma ring_push_list:
  assumes ok: "ring_ok cap q"
  shows "ring_list cap (ring_push cap b q) =
    (if ring_full cap q then ring_list cap q else ring_list cap q @ [b])"
proof (cases "ring_full cap q")
  case True
  then show ?thesis by (simp add: ring_push_def ring_full_def Let_def)
next
  case False
  let ?n = "ring_count cap q" and ?q = "q\<lparr>buf := (buf q)[wpos q := b], wpos := (wpos q + 1) mod cap\<rparr>"
  have p: "ring_push cap b q = ?q" using False by (simp add: ring_push_def ring_full_def Let_def)
  have ok': "ring_ok cap ?q" using ring_push_ok [OF ok, of b] p by simp
  have n: "?n < cap" "?n + 1 \<noteq> cap" using ring_count_less [OF ok] False ring_full_count [OF ok] by auto
  have cnt: "ring_count cap ?q = ?n + 1"
    using n unfolding ring_count_alt [OF ok'] ring_count_alt [OF ok]
    using ok by (auto simp: ring_ok_def next_pos split: if_splits)
  have b: "rpos q < cap" "wpos q < length (buf q)" using ok by (auto simp: ring_ok_def)
  have w: "wpos q = (rpos q + ?n) mod cap" by (rule wpos_slot [OF ok])
  have "(buf q)[wpos q := b] ! ((rpos q + k) mod cap) = buf q ! ((rpos q + k) mod cap)" if "k < ?n" for k
    using slot_distinct [OF b(1) that n(1)] w by simp
  moreover have "(buf q)[wpos q := b] ! ((rpos q + ?n) mod cap) = b" using b(2) w by simp
  ultimately show ?thesis using False p cnt by (simp add: ring_list_def)
qed

lemma ring_pop_list:
  assumes ok: "ring_ok cap q"
  shows "case ring_list cap q of
      [] \<Rightarrow> ring_pop cap q = (None, q)
    | x # xs \<Rightarrow> fst (ring_pop cap q) = Some x \<and> ring_list cap (snd (ring_pop cap q)) = xs"
proof (cases "ring_count cap q")
  case 0
  then have "rpos q = wpos q" using ring_empty_count [OF ok] by simp
  then show ?thesis using 0 by (simp add: ring_list_def ring_pop_def)
next
  case (Suc n)
  let ?q = "q\<lparr>rpos := Suc (rpos q) mod cap\<rparr>"
  have ne: "rpos q \<noteq> wpos q" using ring_empty_count [OF ok] Suc by simp
  then have p: "ring_pop cap q = (Some (buf q ! rpos q), ?q)" by (simp add: ring_pop_def Let_def)
  have ok': "ring_ok cap ?q" using ring_pop_ok [OF ok] p by simp
  have cnt: "ring_count cap ?q = n"
    using Suc ne ok unfolding ring_count_alt [OF ok'] ring_count_alt [OF ok]
    by (auto simp: ring_ok_def next_pos split: if_splits)
  have "ring_list cap q = map (\<lambda>k. buf q ! ((rpos q + k) mod cap)) (0 # map Suc [0..<n])"
    by (simp add: ring_list_def Suc map_Suc_upt upt_conv_Cons del: upt_Suc)
  moreover have "rpos q mod cap = rpos q" using ok by (simp add: ring_ok_def)
  ultimately have "ring_list cap q = buf q ! rpos q # ring_list cap ?q"
    by (simp add: ring_list_def cnt mod_simps comp_def)
  then show ?thesis using p by simp
qed

lemma ring_list_length: "length (ring_list cap q) = ring_count cap q"
  by (simp add: ring_list_def)

lemma empty_ring_ok: "1 < cap \<Longrightarrow> ring_ok cap (empty_ring cap) \<and> ring_list cap (empty_ring cap) = []"
  by (simp add: ring_ok_def empty_ring_def ring_list_def ring_count_def)

section \<open>Bounded queues\<close>

text \<open>
  What the readers of both rings rely on: a bounded FIFO queue that drops what arrives when
  it is full.
\<close>

locale bounded_queue =
  fixes enq :: "'a \<Rightarrow> 'q \<Rightarrow> 'q"
    and deq :: "'q \<Rightarrow> 'a option \<times> 'q"
    and items :: "'q \<Rightarrow> 'a list"
    and valid :: "'q \<Rightarrow> bool"
    and room :: nat
  assumes enq_valid: "valid q \<Longrightarrow> valid (enq x q)"
    and deq_valid: "valid q \<Longrightarrow> valid (snd (deq q))"
    and enq_items: "valid q \<Longrightarrow> items (enq x q) = (if length (items q) < room then items q @ [x] else items q)"
    and deq_none: "valid q \<Longrightarrow> items q = [] \<Longrightarrow> deq q = (None, q)"
    and deq_some: "valid q \<Longrightarrow> items q = x # xs \<Longrightarrow> fst (deq q) = Some x \<and> items (snd (deq q)) = xs"
    and in_room: "valid q \<Longrightarrow> length (items q) \<le> room"

datatype 'a queue_op = Enq 'a | Deq

fun queue_run :: "('a \<Rightarrow> 'q \<Rightarrow> 'q) \<Rightarrow> ('q \<Rightarrow> 'a option \<times> 'q) \<Rightarrow> 'q \<Rightarrow> 'a queue_op list \<Rightarrow> 'a list \<times> 'q" where
  "queue_run enq deq q [] = ([], q)"
| "queue_run enq deq q (Enq x # ops) = queue_run enq deq (enq x q) ops"
| "queue_run enq deq q (Deq # ops) = (case deq q of
     (None, q') \<Rightarrow> queue_run enq deq q' ops
   | (Some x, q') \<Rightarrow> (let (out, q'') = queue_run enq deq q' ops in (x # out, q'')))"

text \<open>The same run on a list of at most \<open>n\<close> elements.\<close>

fun list_run :: "nat \<Rightarrow> 'a list \<Rightarrow> 'a queue_op list \<Rightarrow> 'a list \<times> 'a list" where
  "list_run n xs [] = ([], xs)"
| "list_run n xs (Enq x # ops) = list_run n (if length xs < n then xs @ [x] else xs) ops"
| "list_run n [] (Deq # ops) = list_run n [] ops"
| "list_run n (x # xs) (Deq # ops) = (let (out, ys) = list_run n xs ops in (x # out, ys))"

context bounded_queue
begin

lemma run_refines:
  "valid q \<Longrightarrow> fst (queue_run enq deq q ops) = fst (list_run room (items q) ops) \<and>
     items (snd (queue_run enq deq q ops)) = snd (list_run room (items q) ops) \<and>
     valid (snd (queue_run enq deq q ops))"
proof (induction ops arbitrary: q)
  case Nil
  then show ?case by simp
next
  case (Cons op ops)
  show ?case
  proof (cases op)
    case (Enq x)
    then show ?thesis using Cons.IH [OF enq_valid [OF Cons.prems]] enq_items [OF Cons.prems] by simp
  next
    case Deq
    obtain r q' where d: "deq q = (r, q')" by fastforce
    have v: "valid q'" using deq_valid [OF Cons.prems] d by simp
    note IH = Cons.IH [OF v]
    show ?thesis
    proof (cases "items q")
      case Nil
      then show ?thesis using deq_none [OF Cons.prems Nil] Deq d IH by simp
    next
      case (Cons x xs)
      then show ?thesis
        using deq_some [OF Cons.prems(1) Cons] Deq d IH by (simp add: split_beta)
    qed
  qed
qed

end

definition ring_valid :: "nat \<Rightarrow> ring \<Rightarrow> bool" where
  "ring_valid cap q = ring_ok cap q"

lemma ring_queue: "bounded_queue (ring_push cap) (ring_pop cap) (ring_list cap) (ring_valid cap) (cap - 1)"
proof
  fix q :: ring and b x xs
  assume "ring_valid cap q"
  then have ok: "ring_ok cap q" by (simp add: ring_valid_def)
  have c: "ring_count cap q < cap" by (rule ring_count_less [OF ok])
  show "ring_valid cap (ring_push cap b q)" "ring_valid cap (snd (ring_pop cap q))"
    using ring_push_ok [OF ok] ring_pop_ok [OF ok] by (simp_all add: ring_valid_def)
  show "ring_list cap (ring_push cap b q) =
      (if length (ring_list cap q) < cap - 1 then ring_list cap q @ [b] else ring_list cap q)"
    using ring_push_list [OF ok] ring_full_count [OF ok] c by (auto simp: ring_list_length)
  show "length (ring_list cap q) \<le> cap - 1" using c by (simp add: ring_list_length)
  show "ring_list cap q = [] \<Longrightarrow> ring_pop cap q = (None, q)" using ring_pop_list [OF ok] by simp
  show "ring_list cap q = x # xs \<Longrightarrow> fst (ring_pop cap q) = Some x \<and> ring_list cap (snd (ring_pop cap q)) = xs"
    using ring_pop_list [OF ok] by simp
qed

interpretation serial_queue: bounded_queue "ring_push SERIAL_CAP" "ring_pop SERIAL_CAP"
    "ring_list SERIAL_CAP" "ring_valid SERIAL_CAP" "SERIAL_CAP - 1"
  by (rule ring_queue)

interpretation scancode_queue: bounded_queue "ring_push RAW_CAP" "ring_pop RAW_CAP"
    "ring_list RAW_CAP" "ring_valid RAW_CAP" "RAW_CAP - 1"
  by (rule ring_queue)

section \<open>The receiver and its interrupt\<close>

text \<open>
  The UART's receive buffer is a list of bytes; reading its data register takes the first
  one.  \<open>serial_irq\<close> and \<open>drain_receiver\<close> run the same loop.
\<close>

definition try_read_byte :: "byte list \<Rightarrow> byte option \<times> byte list" where
  "try_read_byte rx = (case rx of [] \<Rightarrow> (None, []) | b # rx' \<Rightarrow> (Some b, rx'))"

fun serial_irq :: "byte list \<Rightarrow> ring \<Rightarrow> byte list \<times> ring" where
  "serial_irq rx q = (case rx of
     [] \<Rightarrow> ([], q)
   | b # rx' \<Rightarrow>
      (let w = wpos q; r = rpos q; nw = (w + 1) mod SERIAL_CAP in
       if nw = r then (rx', q)
       else serial_irq rx' (q\<lparr>buf := (buf q)[w := b], wpos := nw\<rparr>)))"

definition drain_receiver :: "byte list \<Rightarrow> ring \<Rightarrow> byte list \<times> ring" where
  "drain_receiver = serial_irq"

declare serial_irq.simps [simp del]

lemma serial_irq_Cons:
  "serial_irq (b # rx) q =
     (if ring_full SERIAL_CAP q then (rx, q) else serial_irq rx (ring_push SERIAL_CAP b q))"
  by (subst serial_irq.simps) (simp add: ring_full_def ring_push_def Let_def)

lemma serial_irq_list:
  assumes "ring_ok SERIAL_CAP q"
  shows "ring_ok SERIAL_CAP (snd (serial_irq rx q))" (is ?ok)
    and "ring_list SERIAL_CAP (snd (serial_irq rx q)) =
           ring_list SERIAL_CAP q @ take (SERIAL_CAP - 1 - length (ring_list SERIAL_CAP q)) rx" (is ?items)
    and "fst (serial_irq rx q) = drop (SERIAL_CAP - length (ring_list SERIAL_CAP q)) rx" (is ?rest)
proof -
  have "?ok \<and> ?items \<and> ?rest"
    using assms
  proof (induction rx arbitrary: q)
    case Nil
    then show ?case by (simp add: serial_irq.simps)
  next
    case (Cons b rx)
    let ?n = "length (ring_list SERIAL_CAP q)"
    note full = ring_full_count [OF Cons.prems] and lt = ring_count_less [OF Cons.prems]
    show ?case
    proof (cases "ring_full SERIAL_CAP q")
      case True
      then have "SERIAL_CAP - ?n = 1" using full by (simp add: ring_list_length)
      then show ?thesis using True Cons.prems by (simp add: serial_irq_Cons)
    next
      case False
      have n: "?n + 1 < SERIAL_CAP" using False full lt by (simp add: ring_list_length)
      have l: "ring_list SERIAL_CAP (ring_push SERIAL_CAP b q) = ring_list SERIAL_CAP q @ [b]"
        using ring_push_list [OF Cons.prems] False by simp
      have "SERIAL_CAP - 1 - ?n = Suc (SERIAL_CAP - 1 - (?n + 1))" "SERIAL_CAP - ?n = Suc (SERIAL_CAP - (?n + 1))"
        using n by simp_all
      then show ?thesis
        using Cons.IH [OF ring_push_ok [OF Cons.prems, of b]] False l by (simp add: serial_irq_Cons)
    qed
  qed
  then show ?ok ?items ?rest by simp_all
qed

section \<open>Interrupts inside an operation\<close>

text \<open>
  The machine-level steps of \<open>serial_pop\<close>: each atomic load and store is one step, and the
  interrupt handler may run to completion between any two.
\<close>

datatype pop_pc = Idle | GotR nat | Checked nat | GotB nat byte

fun pop_step :: "nat \<Rightarrow> pop_pc \<times> ring \<Rightarrow> byte list \<times> pop_pc \<times> ring" where
  "pop_step cap (Idle, q) = ([], GotR (rpos q), q)"
| "pop_step cap (GotR r, q) = ([], if r = wpos q then Idle else Checked r, q)"
| "pop_step cap (Checked r, q) = ([], GotB r (buf q ! r), q)"
| "pop_step cap (GotB r b, q) = ([b], Idle, q\<lparr>rpos := (r + 1) mod cap\<rparr>)"

datatype micro = Isr byte | Go

text \<open>The bytes the reader returned, the bytes the handler accepted, the state reached.\<close>

fun micro_run :: "nat \<Rightarrow> pop_pc \<times> ring \<Rightarrow> micro list \<Rightarrow> byte list \<times> byte list \<times> pop_pc \<times> ring" where
  "micro_run cap st [] = ([], [], st)"
| "micro_run cap (pc, q) (Isr b # es) =
    (let (out, acc, st) = micro_run cap (pc, ring_push cap b q) es in
     (out, (if ring_full cap q then acc else b # acc), st))"
| "micro_run cap st (Go # es) =
    (let (o1, st1) = pop_step cap st; (out, acc, st2) = micro_run cap st1 es in (o1 @ out, acc, st2))"

definition pc_ok :: "pop_pc \<Rightarrow> ring \<Rightarrow> bool" where
  "pc_ok pc q = (case pc of Idle \<Rightarrow> True | GotR r \<Rightarrow> r = rpos q
     | Checked r \<Rightarrow> r = rpos q \<and> r \<noteq> wpos q
     | GotB r b \<Rightarrow> r = rpos q \<and> r \<noteq> wpos q \<and> b = buf q ! r)"

lemma push_pc_ok: "ring_ok cap q \<Longrightarrow> pc_ok pc q \<Longrightarrow> pc_ok pc (ring_push cap b q)"
  by (auto simp: pc_ok_def ring_push_def ring_ok_def Let_def split: pop_pc.splits)

lemma pop_step_ok:
  assumes "ring_ok cap q" and "pc_ok pc q" and "pop_step cap (pc, q) = (o1, pc', q')"
  shows "ring_ok cap q'" and "pc_ok pc' q'" and "o1 @ ring_list cap q' = ring_list cap q"
proof -
  have "ring_ok cap q' \<and> pc_ok pc' q' \<and> o1 @ ring_list cap q' = ring_list cap q"
  proof (cases pc)
    case (GotB r b)
    then have r: "r = rpos q" "r \<noteq> wpos q" "b = buf q ! r" using assms(2) by (simp_all add: pc_ok_def)
    have p: "ring_pop cap q = (Some b, q\<lparr>rpos := (r + 1) mod cap\<rparr>)"
      using r by (simp add: ring_pop_def Let_def)
    then have "ring_list cap q = b # ring_list cap (q\<lparr>rpos := (r + 1) mod cap\<rparr>)"
      using ring_pop_list [OF assms(1)] by (cases "ring_list cap q") auto
    then show ?thesis
      using assms GotB p ring_pop_ok [OF assms(1)] by (auto simp: pc_ok_def)
  qed (use assms in \<open>auto simp: pc_ok_def split: if_splits\<close>)
  then show "ring_ok cap q'" and "pc_ok pc' q'" and "o1 @ ring_list cap q' = ring_list cap q" by simp_all
qed

lemma micro_run_fifo:
  assumes "ring_ok cap q" and "pc_ok pc q" and "micro_run cap (pc, q) es = (out, acc, pc', q')"
  shows "ring_ok cap q' \<and> out @ ring_list cap q' = ring_list cap q @ acc"
  using assms
proof (induction es arbitrary: pc q out acc)
  case Nil
  then show ?case by simp
next
  case (Cons e es)
  show ?case
  proof (cases e)
    case (Isr b)
    obtain out1 acc1 where run: "micro_run cap (pc, ring_push cap b q) es = (out1, acc1, pc', q')"
      and o: "out = out1" "acc = (if ring_full cap q then acc1 else b # acc1)"
      using Cons.prems(3) Isr by (auto split: prod.splits)
    show ?thesis
      using Cons.IH [OF ring_push_ok [OF Cons.prems(1)] push_pc_ok [OF Cons.prems(1,2)] run] o
        ring_push_list [OF Cons.prems(1), of b] by auto
  next
    case Go
    obtain o1 pc1 q1 where st: "pop_step cap (pc, q) = (o1, pc1, q1)" by (cases "pop_step cap (pc, q)")
    obtain out1 where run: "micro_run cap (pc1, q1) es = (out1, acc, pc', q')" and o: "out = o1 @ out1"
      using Cons.prems(3) Go st by (auto split: prod.splits)
    show ?thesis
      using Cons.IH [OF pop_step_ok(1,2) [OF Cons.prems(1,2) st] run] o
        pop_step_ok(3) [OF Cons.prems(1,2) st] by (metis append.assoc)
  qed
qed

text \<open>The bytes that the handler was called with.\<close>

fun arrivals :: "micro list \<Rightarrow> byte list" where
  "arrivals [] = []"
| "arrivals (Isr b # es) = b # arrivals es"
| "arrivals (Go # es) = arrivals es"

text \<open>While they fit into the ring, even if the reader takes none, none is refused.\<close>

lemma micro_run_accepts:
  assumes "ring_ok cap q" and "pc_ok pc q" and "micro_run cap (pc, q) es = (out, acc, pc', q')"
    and "length (ring_list cap q) + length (arrivals es) < cap"
  shows "acc = arrivals es"
  using assms
proof (induction es arbitrary: pc q out acc)
  case (Cons e es)
  show ?case
  proof (cases e)
    case (Isr b)
    obtain out1 acc1 where run: "micro_run cap (pc, ring_push cap b q) es = (out1, acc1, pc', q')"
      and o: "acc = (if ring_full cap q then acc1 else b # acc1)"
      using Cons.prems(3) Isr by (auto split: prod.splits)
    have f: "\<not> ring_full cap q"
      using Cons.prems(4) Isr ring_full_count [OF Cons.prems(1)] by (simp add: ring_list_length)
    have "length (ring_list cap (ring_push cap b q)) + length (arrivals es) < cap"
      using Cons.prems(4) Isr f ring_push_list [OF Cons.prems(1), of b] by simp
    then show ?thesis
      using Cons.IH [OF ring_push_ok [OF Cons.prems(1)] push_pc_ok [OF Cons.prems(1,2)] run] o f Isr by simp
  next
    case Go
    obtain o1 pc1 q1 where st: "pop_step cap (pc, q) = (o1, pc1, q1)" by (cases "pop_step cap (pc, q)")
    obtain out1 where run: "micro_run cap (pc1, q1) es = (out1, acc, pc', q')"
      using Cons.prems(3) Go st by (auto split: prod.splits)
    have "length (ring_list cap q1) \<le> length (ring_list cap q)"
      using pop_step_ok(3) [OF Cons.prems(1,2) st] by (metis le_add2 length_append)
    then show ?thesis
      using Cons.IH [OF pop_step_ok(1,2) [OF Cons.prems(1,2) st] run] Cons.prems(4) Go by simp
  qed
qed simp

text \<open>
  The push of \<open>drain_receiver\<close> when the interrupt handler accepts the bytes \<open>bs\<close>
  after the write position was loaded.
\<close>

definition drain_push_interrupted :: "byte \<Rightarrow> byte list \<Rightarrow> ring \<Rightarrow> ring" where
  "drain_push_interrupted b bs q =
    (let w = wpos q;
         q1 = snd (serial_irq bs q);
         r = rpos q1; nw = (w + 1) mod SERIAL_CAP in
     if nw = r then q1 else q1\<lparr>buf := (buf q1)[w := b], wpos := nw\<rparr>)"

section \<open>Key codes\<close>

text \<open>
  The key codes the layout names; every other code of the keyboard library is
  \<open>OtherKey\<close>.  The modifier queries are the library's.
\<close>

datatype (plugins only:) key_code =
    KcEscape | KcKey1 | KcKey2 | KcKey3 | KcKey4 | KcKey5 | KcKey6 | KcKey7 | KcKey8 | KcKey9
    | KcKey0 | KcOemMinus | KcOemPlus | KcOem8 | KcBackspace | KcTab | KcQ | KcW | KcE | KcR
    | KcT | KcY | KcU | KcI | KcO | KcP | KcOem4 | KcOem6 | KcA | KcS | KcD | KcF | KcG | KcH
    | KcJ | KcK | KcL | KcOem1 | KcOem3 | KcReturn | KcZ | KcX | KcC | KcV | KcB | KcN | KcM
    | KcOemComma | KcOemPeriod | KcOem2 | KcOem7 | KcOem5 | KcSpacebar | KcDelete
    | KcNumpadDivide | KcNumpadMultiply | KcNumpadSubtract | KcNumpadAdd | KcNumpadEnter
    | OtherKey nat

record modifiers =
  is_shifted :: bool
  is_caps :: bool
  is_ctrl :: bool

datatype decoded_key = Unicode uchar | RawKey key_code

definition map2 :: "uchar \<Rightarrow> uchar \<Rightarrow> modifiers \<Rightarrow> decoded_key" where
  "map2 plain shifted m = (if is_shifted m then Unicode shifted else Unicode plain)"

definition letter :: "uchar \<Rightarrow> uchar \<Rightarrow> modifiers \<Rightarrow> decoded_key" where
  "letter lower upper m = (if is_caps m then Unicode upper else Unicode lower)"

definition tr_i :: "uchar \<Rightarrow> modifiers \<Rightarrow> decoded_key" where
  "tr_i plain m = (if is_caps m then Unicode 304 else Unicode plain)"

definition map_keycode :: "key_code \<Rightarrow> modifiers \<Rightarrow> decoded_key" where
  "map_keycode k m = (case k of
     KcEscape \<Rightarrow> Unicode 27
   | KcKey1 \<Rightarrow> map2 (of_char CHR ''1'') (of_char CHR ''!'') m
   | KcKey2 \<Rightarrow> map2 (of_char CHR ''2'') (of_char (CHR 0x27)) m
   | KcKey3 \<Rightarrow> map2 (of_char CHR ''3'') (of_char CHR ''^'') m
   | KcKey4 \<Rightarrow> map2 (of_char CHR ''4'') (of_char CHR ''+'') m
   | KcKey5 \<Rightarrow> map2 (of_char CHR ''5'') (of_char CHR ''%'') m
   | KcKey6 \<Rightarrow> map2 (of_char CHR ''6'') (of_char CHR ''&'') m
   | KcKey7 \<Rightarrow> map2 (of_char CHR ''7'') (of_char CHR ''/'') m
   | KcKey8 \<Rightarrow> map2 (of_char CHR ''8'') (of_char CHR ''('') m
   | KcKey9 \<Rightarrow> map2 (of_char CHR ''9'') (of_char CHR '')'') m
   | KcKey0 \<Rightarrow> map2 (of_char CHR ''0'') (of_char CHR ''='') m
   | KcOemMinus \<Rightarrow> map2 (of_char CHR ''*'') (of_char CHR ''?'') m
   | KcOemPlus \<Rightarrow> map2 (of_char CHR ''-'') (of_char CHR ''_'') m
   | KcOem8 \<Rightarrow> map2 (of_char (CHR 0x22)) 233 m
   | KcBackspace \<Rightarrow> Unicode 8
   | KcTab \<Rightarrow> Unicode 9
   | KcQ \<Rightarrow> letter (of_char CHR ''q'') (of_char CHR ''Q'') m
   | KcW \<Rightarrow> letter (of_char CHR ''w'') (of_char CHR ''W'') m
   | KcE \<Rightarrow> letter (of_char CHR ''e'') (of_char CHR ''E'') m
   | KcR \<Rightarrow> letter (of_char CHR ''r'') (of_char CHR ''R'') m
   | KcT \<Rightarrow> letter (of_char CHR ''t'') (of_char CHR ''T'') m
   | KcY \<Rightarrow> letter (of_char CHR ''y'') (of_char CHR ''Y'') m
   | KcU \<Rightarrow> letter (of_char CHR ''u'') (of_char CHR ''U'') m
   | KcI \<Rightarrow> tr_i 305 m
   | KcO \<Rightarrow> letter (of_char CHR ''o'') (of_char CHR ''O'') m
   | KcP \<Rightarrow> letter (of_char CHR ''p'') (of_char CHR ''P'') m
   | KcOem4 \<Rightarrow> map2 287 286 m
   | KcOem6 \<Rightarrow> map2 252 220 m
   | KcA \<Rightarrow> letter (of_char CHR ''a'') (of_char CHR ''A'') m
   | KcS \<Rightarrow> letter (of_char CHR ''s'') (of_char CHR ''S'') m
   | KcD \<Rightarrow> letter (of_char CHR ''d'') (of_char CHR ''D'') m
   | KcF \<Rightarrow> letter (of_char CHR ''f'') (of_char CHR ''F'') m
   | KcG \<Rightarrow> letter (of_char CHR ''g'') (of_char CHR ''G'') m
   | KcH \<Rightarrow> letter (of_char CHR ''h'') (of_char CHR ''H'') m
   | KcJ \<Rightarrow> letter (of_char CHR ''j'') (of_char CHR ''J'') m
   | KcK \<Rightarrow> letter (of_char CHR ''k'') (of_char CHR ''K'') m
   | KcL \<Rightarrow> letter (of_char CHR ''l'') (of_char CHR ''L'') m
   | KcOem1 \<Rightarrow> map2 351 350 m
   | KcOem3 \<Rightarrow> tr_i (of_char CHR ''i'') m
   | KcReturn \<Rightarrow> Unicode 10
   | KcZ \<Rightarrow> letter (of_char CHR ''z'') (of_char CHR ''Z'') m
   | KcX \<Rightarrow> letter (of_char CHR ''x'') (of_char CHR ''X'') m
   | KcC \<Rightarrow> (if is_ctrl m then Unicode 3 else letter (of_char CHR ''c'') (of_char CHR ''C'') m)
   | KcV \<Rightarrow> letter (of_char CHR ''v'') (of_char CHR ''V'') m
   | KcB \<Rightarrow> letter (of_char CHR ''b'') (of_char CHR ''B'') m
   | KcN \<Rightarrow> letter (of_char CHR ''n'') (of_char CHR ''N'') m
   | KcM \<Rightarrow> letter (of_char CHR ''m'') (of_char CHR ''M'') m
   | KcOemComma \<Rightarrow> map2 246 214 m
   | KcOemPeriod \<Rightarrow> map2 231 199 m
   | KcOem2 \<Rightarrow> map2 (of_char CHR ''.'') (of_char CHR '':'') m
   | KcOem7 \<Rightarrow> map2 (of_char CHR '','') (of_char CHR '';'') m
   | KcOem5 \<Rightarrow> map2 (of_char CHR ''<'') (of_char CHR ''>'') m
   | KcSpacebar \<Rightarrow> Unicode (of_char CHR '' '')
   | KcDelete \<Rightarrow> Unicode 127
   | KcNumpadDivide \<Rightarrow> Unicode (of_char CHR ''/'')
   | KcNumpadMultiply \<Rightarrow> Unicode (of_char CHR ''*'')
   | KcNumpadSubtract \<Rightarrow> Unicode (of_char CHR ''-'')
   | KcNumpadAdd \<Rightarrow> Unicode (of_char CHR ''+'')
   | KcNumpadEnter \<Rightarrow> Unicode 10
   | OtherKey n \<Rightarrow> RawKey (OtherKey n))"

text \<open>The keys of the main block, in the order of the layout.\<close>

definition main_keys :: "key_code list" where
  "main_keys = [KcEscape, KcKey1, KcKey2, KcKey3, KcKey4, KcKey5, KcKey6, KcKey7, KcKey8,
    KcKey9, KcKey0, KcOemMinus, KcOemPlus, KcOem8, KcBackspace, KcTab, KcQ, KcW, KcE, KcR,
    KcT, KcY, KcU, KcI, KcO, KcP, KcOem4, KcOem6, KcA, KcS, KcD, KcF, KcG, KcH, KcJ, KcK, KcL,
    KcOem1, KcOem3, KcReturn, KcZ, KcX, KcC, KcV, KcB, KcN, KcM, KcOemComma, KcOemPeriod, KcOem2,
    KcOem7, KcOem5, KcSpacebar, KcDelete]"

section \<open>Decoding\<close>

text \<open>
  The scancode decoder belongs to the \<open>pc_keyboard\<close> crate: what the kernel calls of it is a
  parameter.  \<open>kb_add\<close> is \<open>add_byte(sc).ok().flatten()\<close>, \<open>kb_event\<close> is
  \<open>process_keyevent\<close>.
\<close>

record ('k, 'ev) keyboard_lib =
  kb_new_tr :: 'k
  kb_new_us :: 'k
  kb_add :: "byte \<Rightarrow> 'k \<Rightarrow> 'ev option \<times> 'k"
  kb_event :: "'ev \<Rightarrow> 'k \<Rightarrow> decoded_key option \<times> 'k"

datatype kbd_layout = TurkishQ | Us
datatype 'k active_keyboard = TrKb 'k | UsKb 'k

definition layout_code :: "kbd_layout \<Rightarrow> string" where
  "layout_code l = (case l of TurkishQ \<Rightarrow> ''trq'' | Us \<Rightarrow> ''en-us'')"

definition switch_layout_if_needed ::
  "('k, 'ev) keyboard_lib \<Rightarrow> kbd_layout \<Rightarrow> 'k active_keyboard \<Rightarrow> 'k active_keyboard" where
  "switch_layout_if_needed lib want kb = (case (want, kb) of
     (TurkishQ, UsKb k) \<Rightarrow> TrKb (kb_new_tr lib)
   | (Us, TrKb k) \<Rightarrow> UsKb (kb_new_us lib)
   | _ \<Rightarrow> kb)"

text \<open>The console: the receiver, both rings, the decoder and the layout setting.\<close>

record 'k console =
  rx :: "byte list"
  sring :: ring
  kring :: ring
  isr_pushed :: nat
  kb :: "'k active_keyboard"
  layout :: kbd_layout

definition process_scancode :: "byte \<Rightarrow> 'k console \<Rightarrow> 'k console" where
  "process_scancode sc c =
    (if ring_full RAW_CAP (kring c) then c
     else c\<lparr>kring := ring_push RAW_CAP sc (kring c), isr_pushed := (isr_pushed c + 1) mod 2 ^ 64\<rparr>)"

definition add_and_process :: "('k, 'ev) keyboard_lib \<Rightarrow> byte \<Rightarrow> 'k \<Rightarrow> decoded_key option \<times> 'k" where
  "add_and_process lib sc k = (case kb_add lib sc k of
     (None, k') \<Rightarrow> (None, k')
   | (Some e, k') \<Rightarrow> kb_event lib e k')"

definition decode_one :: "('k, 'ev) keyboard_lib \<Rightarrow> 'k console \<Rightarrow> decoded_key option \<times> 'k console" where
  "decode_one lib c0 =
    (let c = c0\<lparr>kb := switch_layout_if_needed lib (layout c0) (kb c0)\<rparr> in
     case ring_pop RAW_CAP (kring c) of
       (None, q) \<Rightarrow> (None, c)
     | (Some sc, q) \<Rightarrow> (case kb c of
          TrKb k \<Rightarrow> (let (d, k') = add_and_process lib sc k in (d, c\<lparr>kring := q, kb := TrKb k'\<rparr>))
        | UsKb k \<Rightarrow> (let (d, k') = add_and_process lib sc k in (d, c\<lparr>kring := q, kb := UsKb k'\<rparr>))))"

section \<open>Readers\<close>

definition poll_serial_char :: "'k console \<Rightarrow> uchar option \<times> 'k console" where
  "poll_serial_char c = (case ring_pop SERIAL_CAP (sring c) of
     (None, q) \<Rightarrow> (None, c)
   | (Some b, q) \<Rightarrow>
      ((let v = unat b in
        if v = 0x0D \<or> v = 0x0A then Some 10
        else if v = 0x08 then Some 8
        else if v = 0x03 then Some 3
        else if 0x20 \<le> v \<and> v \<le> 0x7E then Some v
        else None), c\<lparr>sring := q\<rparr>))"

definition poll_keyboard_char :: "('k, 'ev) keyboard_lib \<Rightarrow> 'k console \<Rightarrow> uchar option \<times> 'k console" where
  "poll_keyboard_char lib c = (case decode_one lib c of
     (Some (Unicode u), c') \<Rightarrow> (Some u, c')
   | (_, c') \<Rightarrow> (None, c'))"

text \<open>
  One turn of the loop of \<open>read_char\<close>.  The loop itself waits for interrupts between turns;
  \<open>envs\<close> lists what they do to the console while the reader sleeps.
\<close>

definition read_char_turn :: "('k, 'ev) keyboard_lib \<Rightarrow> 'k console \<Rightarrow> uchar option \<times> 'k console" where
  "read_char_turn lib c = (case poll_serial_char c of
     (Some u, c1) \<Rightarrow> (Some u, c1)
   | (None, c1) \<Rightarrow>
      (let (rx', q) = drain_receiver (rx c1) (sring c1);
           c2 = c1\<lparr>rx := rx', sring := q\<rparr> in
       case poll_serial_char c2 of
         (Some u, c3) \<Rightarrow> (Some u, c3)
       | (None, c3) \<Rightarrow> poll_keyboard_char lib c3))"

fun read_char :: "('k, 'ev) keyboard_lib \<Rightarrow> ('k console \<Rightarrow> 'k console) list \<Rightarrow> 'k console \<Rightarrow>
    (uchar \<times> 'k console \<times> ('k console \<Rightarrow> 'k console) list) option" where
  "read_char lib envs c = (case read_char_turn lib c of
     (Some u, c') \<Rightarrow> Some (u, c', envs)
   | (None, c') \<Rightarrow> (case envs of [] \<Rightarrow> None | e # es \<Rightarrow> read_char lib es (e c')))"

text \<open>
  \<open>read_line\<close> over the characters that \<open>read_char\<close> delivers: the line buffer, its length,
  what goes to the screen, and the rest of the input.
\<close>

definition READ_CAP :: nat where "READ_CAP = 64"

datatype screen_op = Put uchar | EraseLast | NewLine
datatype line_end = Entered "uchar list" nat | Cancelled | Waiting "uchar list" nat

fun read_line_loop :: "bool \<Rightarrow> uchar list \<Rightarrow> nat \<Rightarrow> uchar list \<Rightarrow> line_end \<times> screen_op list \<times> uchar list" where
  "read_line_loop echo line len [] = (Waiting line len, [], [])"
| "read_line_loop echo line len (c # cs) =
    (if c = 10 \<or> c = 13 then (Entered line len, [NewLine], cs)
     else if c = 3 then (Cancelled, [NewLine], cs)
     else if c = 8 then
       (if 0 < len then (let (r, s, cs') = read_line_loop echo line (len - 1) cs in (r, EraseLast # s, cs'))
        else read_line_loop echo line len cs)
     else if 0x20 \<le> c then
       (if len < READ_CAP then
          (let (r, s, cs') = read_line_loop echo (line[len := c]) (len + 1) cs
           in (r, Put (if echo then c else 42) # s, cs'))
        else read_line_loop echo line len cs)
     else read_line_loop echo line len cs)"

definition read_line :: "bool \<Rightarrow> uchar list \<Rightarrow> line_end \<times> screen_op list \<times> uchar list" where
  "read_line echo cs = read_line_loop echo (replicate READ_CAP 0) 0 cs"

text \<open>The line as an editor on lists would have it.\<close>

fun edit_line :: "uchar list \<Rightarrow> uchar list \<Rightarrow> uchar list" where
  "edit_line l [] = l"
| "edit_line l (c # cs) = edit_line
    (if c = 8 then butlast l else if 0x20 \<le> c \<and> length l < READ_CAP then l @ [c] else l) cs"

lemma read_line_loop_edit:
  assumes "length line = READ_CAP" and "len \<le> READ_CAP" and "\<forall>c \<in> set cs. c \<noteq> 10 \<and> c \<noteq> 13 \<and> c \<noteq> 3"
    and "e = 10 \<or> e = 13"
  shows "\<exists>line'. fst (read_line_loop echo line len (cs @ e # rest)) =
      Entered line' (length (edit_line (take len line) cs)) \<and>
    length line' = READ_CAP \<and>
    take (length (edit_line (take len line) cs)) line' = edit_line (take len line) cs \<and>
    snd (snd (read_line_loop echo line len (cs @ e # rest))) = rest"
  using assms
proof (induction cs arbitrary: line len)
  case Nil
  then show ?case by auto
next
  case (Cons c cs)
  have c: "c \<noteq> 10" "c \<noteq> 13" "c \<noteq> 3" and cs: "\<forall>c \<in> set cs. c \<noteq> 10 \<and> c \<noteq> 13 \<and> c \<noteq> 3"
    using Cons.prems by auto
  note IH = Cons.IH [OF _ _ cs Cons.prems(4)]
  consider (erase) "c = 8" "0 < len" | (erase0) "c = 8" "len = 0" | (put) "0x20 \<le> c" "len < READ_CAP"
    | (cut) "0x20 \<le> c" "len = READ_CAP" | (other) "c < 0x20" "c \<noteq> 8"
    using Cons.prems(2) by fastforce
  then show ?case
  proof cases
    case erase
    have "butlast (take len line) = take (len - 1) line"
      using Cons.prems(1,2) erase by (simp add: butlast_take)
    then show ?thesis using IH [of line "len - 1"] Cons.prems erase by (simp add: split_beta)
  next
    case erase0
    then show ?thesis using IH [of line 0] Cons.prems by simp
  next
    case put
    have "take (len + 1) (line[len := c]) = take len line @ [c]"
      using Cons.prems(1) put by (simp add: take_Suc_conv_app_nth)
    then show ?thesis using IH [of "line[len := c]" "len + 1"] Cons.prems c put by (simp add: split_beta)
  next
    case cut
    then show ?thesis using IH [of line len] Cons.prems c by simp
  next
    case other
    then show ?thesis using IH [of line len] Cons.prems c by simp
  qed
qed

lemma read_line_loop_masked:
  "set (fst (snd (read_line_loop False line len cs))) \<subseteq> {Put 42, EraseLast, NewLine}"
  by (induction False line len cs rule: read_line_loop.induct) (auto simp: split_beta)

lemma edit_line_bound: "length l \<le> READ_CAP \<Longrightarrow> length (edit_line l cs) \<le> READ_CAP"
  by (induction l cs rule: edit_line.induct) auto

section \<open>Properties\<close>

text \<open>C26: both input rings are bounded FIFO queues: any sequence of pushes and pops answers
  what the same sequence answers on a list of at most 255 (serial) or 511 (scancode)
  bytes, the byte that arrives when the ring is full being dropped.\<close>

theorem input_rings_are_fifo:
  "fst (queue_run (ring_push SERIAL_CAP) (ring_pop SERIAL_CAP) (empty_ring SERIAL_CAP) ops) =
     fst (list_run 255 [] ops) \<and>
   fst (queue_run (ring_push RAW_CAP) (ring_pop RAW_CAP) (empty_ring RAW_CAP) ops) =
     fst (list_run 511 [] ops)"
proof -
  have "ring_valid SERIAL_CAP (empty_ring SERIAL_CAP)" "ring_valid RAW_CAP (empty_ring RAW_CAP)"
    "ring_list SERIAL_CAP (empty_ring SERIAL_CAP) = []" "ring_list RAW_CAP (empty_ring RAW_CAP) = []"
    using empty_ring_ok by (simp_all add: ring_valid_def SERIAL_CAP_def RAW_CAP_def)
  then show ?thesis
    using serial_queue.run_refines [of "empty_ring SERIAL_CAP" ops]
      scancode_queue.run_refines [of "empty_ring RAW_CAP" ops]
    by (simp add: SERIAL_CAP_def RAW_CAP_def)
qed

text \<open>C25: taking bytes out of a ring and the interrupt handler's putting them in do not disturb each
  other: however the handler's runs fall between the atomic loads and stores of the
  pop, the bytes returned, followed by those still waiting, are the bytes that waited at the start
  followed by those the handler accepted, in order.  The handler refuses a byte only when the ring is
  full: while the bytes waiting at the start and all that arrive are fewer than the capacity, every one
  is accepted.  These are all the steps on the scancode ring; on the serial ring \<open>read_char\<close> also
  runs \<open>drain_receiver\<close>, a second producer, which is not among the steps here and does
  lose bytes to the handler (\<open>drain_race_loses_bytes\<close>).\<close>

theorem reader_safe_under_interrupts:
  assumes "ring_ok cap q" and "micro_run cap (Idle, q) es = (out, acc, pc, q')"
  shows "out @ ring_list cap q' = ring_list cap q @ acc \<and>
    (length (ring_list cap q) + length (arrivals es) < cap \<longrightarrow> acc = arrivals es)"
  using micro_run_fifo [OF assms(1) _ assms(2)] micro_run_accepts [OF assms(1) _ assms(2)] by (simp add: pc_ok_def)

definition small_ring :: ring where "small_ring = \<lparr>buf = [0, 0, 0], wpos = 0, rpos = 0\<rparr>"

theorem reader_safe_under_interrupts_witness:
  "\<exists>out pc q'. micro_run 3 (Idle, small_ring) [Isr 7, Go, Isr 8, Go, Go, Go] = (out, [7, 8], pc, q') \<and>
     out @ ring_list 3 q' = [7, 8]"
proof -
  obtain out pc q' where r: "micro_run 3 (Idle, small_ring) [Isr 7, Go, Isr 8, Go, Go, Go] = (out, [7, 8], pc, q')"
    by (simp add: small_ring_def ring_push_def ring_full_def Let_def)
  have "ring_ok 3 small_ring" and "ring_list 3 small_ring = []"
    by (simp_all add: ring_ok_def small_ring_def ring_list_def ring_count_def)
  then show ?thesis using reader_safe_under_interrupts [OF _ r] r by auto
qed

text \<open>an interrupt moves the received bytes into the serial ring in order; when they do not
  fit, exactly one of them is taken from the receiver and lost, the others stay there.\<close>

theorem serial_irq_delivers:
  assumes "ring_ok SERIAL_CAP q"
  shows "\<exists>free. free = 255 - length (ring_list SERIAL_CAP q) \<and>
    ring_list SERIAL_CAP (snd (serial_irq bytes q)) = ring_list SERIAL_CAP q @ take free bytes \<and>
    fst (serial_irq bytes q) = drop (free + 1) bytes"
proof -
  have "length (ring_list SERIAL_CAP q) < SERIAL_CAP"
    using ring_count_less [OF assms] by (simp add: ring_list_length)
  then have "SERIAL_CAP - length (ring_list SERIAL_CAP q) = 255 - length (ring_list SERIAL_CAP q) + 1"
    by (simp add: SERIAL_CAP_def)
  moreover have "SERIAL_CAP - 1 - length (ring_list SERIAL_CAP q) = 255 - length (ring_list SERIAL_CAP q)"
    by (simp add: SERIAL_CAP_def)
  ultimately show ?thesis using serial_irq_list(2,3) [OF assms, of bytes] by simp
qed

theorem serial_irq_delivers_witness:
  "ring_list SERIAL_CAP (snd (serial_irq [65, 66] (empty_ring SERIAL_CAP))) = [65, 66]"
  using serial_irq_delivers [of "empty_ring SERIAL_CAP" "[65, 66]"] empty_ring_ok [of SERIAL_CAP]
  by (simp add: SERIAL_CAP_def)

text \<open>the serial ring has two producers, and they race: when the interrupt handler accepts
  bytes while \<open>drain_receiver\<close> is between loading the write position and storing its own
  byte, all the bytes the handler accepted are overwritten or forgotten; only the drained
  byte is added.\<close>

theorem drain_race_loses_bytes:
  assumes "ring_ok SERIAL_CAP q" and "length (ring_list SERIAL_CAP q) + length bs < 255" and "bs \<noteq> []"
  shows "ring_list SERIAL_CAP (snd (serial_irq bs q)) = ring_list SERIAL_CAP q @ bs \<and>
    ring_list SERIAL_CAP (drain_push_interrupted b bs q) = ring_list SERIAL_CAP q @ [b]"
proof -
  let ?q1 = "snd (serial_irq bs q)" and ?n = "ring_count SERIAL_CAP q"
  have ok: "1 < SERIAL_CAP" "length (buf q) = SERIAL_CAP" "wpos q < SERIAL_CAP" "rpos q < SERIAL_CAP"
    using assms(1) by (simp_all add: ring_ok_def)
  have l1: "ring_list SERIAL_CAP ?q1 = ring_list SERIAL_CAP q @ bs" and ok1: "ring_ok SERIAL_CAP ?q1"
    using serial_irq_list [OF assms(1), of bs] assms(2) by (simp_all add: SERIAL_CAP_def)
  have r1: "rpos ?q1 = rpos q"
  proof -
    have "rpos (snd (serial_irq xs p)) = rpos p" for xs p
      by (induction xs arbitrary: p) (auto simp: serial_irq.simps serial_irq_Cons ring_push_def Let_def)
    then show ?thesis .
  qed
  have n: "?n + 1 < SERIAL_CAP" using assms(2) by (simp add: ring_list_length SERIAL_CAP_def)
  have w: "wpos q = (rpos q + ?n) mod SERIAL_CAP" by (rule wpos_slot [OF assms(1)])
  let ?q2 = "?q1\<lparr>buf := (buf ?q1)[wpos q := b], wpos := Suc (wpos q) mod SERIAL_CAP\<rparr>"
  have ne: "Suc (wpos q) mod SERIAL_CAP \<noteq> rpos q"
    using n ring_full_count [OF assms(1)] by (simp add: ring_full_def)
  have d: "drain_push_interrupted b bs q = ?q2"
    using ne r1 by (simp add: drain_push_interrupted_def Let_def)
  have ok2: "ring_ok SERIAL_CAP ?q2" using ok1 ok by (simp add: ring_ok_def)
  have cnt: "ring_count SERIAL_CAP ?q2 = Suc ?n"
    using n ok r1 unfolding ring_count_alt [OF ok2] ring_count_alt [OF assms(1)]
    by (auto simp: next_pos split: if_splits)
  have keep: "buf ?q1 ! ((rpos q + k) mod SERIAL_CAP) = buf q ! ((rpos q + k) mod SERIAL_CAP)" if "k < ?n" for k
  proof -
    have c1: "ring_count SERIAL_CAP ?q1 = ?n + length bs"
      using l1 by (metis length_append ring_list_length)
    have "ring_list SERIAL_CAP ?q1 ! k = ring_list SERIAL_CAP q ! k"
      using that l1 by (simp add: nth_append ring_list_length)
    then show ?thesis using that c1 r1 by (simp add: ring_list_def)
  qed
  have "(buf ?q1)[wpos q := b] ! ((rpos q + k) mod SERIAL_CAP) = buf q ! ((rpos q + k) mod SERIAL_CAP)"
    if "k < ?n" for k
    using slot_distinct [of "rpos q" SERIAL_CAP k ?n] that n ok w keep by simp
  moreover have "(buf ?q1)[wpos q := b] ! ((rpos q + ?n) mod SERIAL_CAP) = b"
    using ok1 ok w by (simp add: ring_ok_def)
  ultimately have "ring_list SERIAL_CAP ?q2 = ring_list SERIAL_CAP q @ [b]"
    using cnt r1 by (simp add: ring_list_def)
  then show ?thesis using d l1 by simp
qed

theorem drain_race_loses_bytes_witness:
  "ring_list SERIAL_CAP (drain_push_interrupted 65 [66, 67] (empty_ring SERIAL_CAP)) = [65]"
  using drain_race_loses_bytes [of "empty_ring SERIAL_CAP" "[66, 67]" 65] empty_ring_ok [of SERIAL_CAP]
  by (simp add: SERIAL_CAP_def)

text \<open>C28: the line editor: on Enter \<open>read_line\<close> returns what the characters typed leave after
  backspaces, control characters ignored and at most 64 characters kept, and stops reading
  there; with echo off nothing but asterisks, erasures and the final newline is printed.\<close>

theorem read_line_edits:
  assumes "\<forall>c \<in> set cs. c \<noteq> 10 \<and> c \<noteq> 13 \<and> c \<noteq> 3" and "e = 10 \<or> e = 13"
  shows "\<exists>line. fst (read_line echo (cs @ e # rest)) = Entered line (length (edit_line [] cs)) \<and>
    take (length (edit_line [] cs)) line = edit_line [] cs \<and> length (edit_line [] cs) \<le> 64 \<and>
    snd (snd (read_line echo (cs @ e # rest))) = rest \<and>
    set (fst (snd (read_line False (cs @ e # rest)))) \<subseteq> {Put 42, EraseLast, NewLine}"
  using read_line_loop_edit [OF _ _ assms, of "replicate READ_CAP 0" 0 echo rest]
    edit_line_bound [of "[]" cs] read_line_loop_masked
  by (auto simp: read_line_def READ_CAP_def)

theorem read_line_edits_witness:
  "\<exists>line. fst (read_line True [115, 117, 120, 8, 10, 97]) = Entered line 2 \<and> take 2 line = [115, 117]"
proof -
  have cs: "\<forall>c \<in> set [115, 117, 120, 8]. c \<noteq> 10 \<and> c \<noteq> 13 \<and> c \<noteq> (3::nat)" by simp
  have "[115, 117, 120, 8] @ 10 # [97] = [115, 117, 120, 8, 10, 97::nat]" by simp
  moreover have "edit_line [] [115, 117, 120, 8] = [115, 117]" by (simp add: READ_CAP_def)
  ultimately show ?thesis using read_line_edits [OF cs, of 10 True "[97]"] by (auto simp: READ_CAP_def numeral_2_eq_2)
qed

lemmas layout_eval = map_keycode_def map2_def letter_def tr_i_def main_keys_def

text \<open>the Turkish-Q layout gives every key of the main block a character of its own under
  every combination of modifiers, except that with capitals on the dotless key collides
  with the dotted one.\<close>

theorem layout_injective:
  "distinct (map (\<lambda>k. map_keycode k m) (filter (\<lambda>k. \<not> (is_caps m \<and> k = KcI)) main_keys))"
  by (cases "is_caps m"; cases "is_shifted m"; cases "is_ctrl m") (simp_all add: layout_eval)

text \<open>the capital of the dotless letter is missing from the Turkish-Q layout: with capitals
  on, the dotless key gives the dotted capital, as the dotted key does, and no key gives an
  ASCII capital I.\<close>

theorem no_dotless_capital:
  "map_keycode k m \<noteq> Unicode 73 \<and>
   map_keycode KcI (m\<lparr>is_caps := True\<rparr>) = Unicode 304 \<and> map_keycode KcOem3 (m\<lparr>is_caps := True\<rparr>) = Unicode 304"
  by (cases k) (simp_all add: layout_eval)

text \<open>only what the serial console may deliver reaches the reader from the serial ring:
  newline, backspace, Ctrl-C or printable ASCII.\<close>

theorem serial_chars_clean:
  "case fst (poll_serial_char c) of None \<Rightarrow> True
   | Some u \<Rightarrow> u \<in> {10, 8, 3} \<union> {0x20..0x7E}"
  by (auto simp: poll_serial_char_def Let_def split: option.splits prod.splits)

end
