(* ===== verification/Font.thy ===== *)
theory Font
  imports Prelude
begin

text \<open>
  The console font (\<open>kernel/src/vga_font.rs\<close>): 256 glyphs of the VGA character set, six Turkish
  letters, the Braille block computed from its dots, and the choice of a glyph for a
  character.  A glyph is sixteen rows of eight pixels, the leftmost in the highest bit.
\<close>

type_synonym glyph = "byte list"

definition GLYPHS :: "glyph list" where
  "GLYPHS = [
     [0, 0, 0, 0, 0, 0, 0, 0, 0, 0, 0, 0, 0, 0, 0, 0],
     [0, 0, 0x7E, 0x81, 0xA5, 0x81, 0x81, 0xBD, 0x99, 0x81, 0x81, 0x7E, 0, 0, 0, 0],
     [0, 0, 0x7E, 0xFF, 0xDB, 0xFF, 0xFF, 0xC3, 0xE7, 0xFF, 0xFF, 0x7E, 0, 0, 0, 0],
     [0, 0, 0, 0, 0x6C, 0xFE, 0xFE, 0xFE, 0xFE, 0x7C, 0x38, 0x10, 0, 0, 0, 0],
     [0, 0, 0, 0, 0x10, 0x38, 0x7C, 0xFE, 0x7C, 0x38, 0x10, 0, 0, 0, 0, 0],
     [0, 0, 0, 0x18, 0x3C, 0x3C, 0xE7, 0xE7, 0xE7, 0x18, 0x18, 0x3C, 0, 0, 0, 0],
     [0, 0, 0, 0x18, 0x3C, 0x7E, 0xFF, 0xFF, 0x7E, 0x18, 0x18, 0x3C, 0, 0, 0, 0],
     [0, 0, 0, 0, 0, 0, 0x18, 0x3C, 0x3C, 0x18, 0, 0, 0, 0, 0, 0],
     [0xFF, 0xFF, 0xFF, 0xFF, 0xFF, 0xFF, 0xE7, 0xC3, 0xC3, 0xE7, 0xFF, 0xFF, 0xFF, 0xFF, 0xFF, 0xFF],
     [0, 0, 0, 0, 0, 0x3C, 0x66, 0x42, 0x42, 0x66, 0x3C, 0, 0, 0, 0, 0],
     [0xFF, 0xFF, 0xFF, 0xFF, 0xFF, 0xC3, 0x99, 0xBD, 0xBD, 0x99, 0xC3, 0xFF, 0xFF, 0xFF, 0xFF, 0xFF],
     [0, 0, 0x1E, 0x0E, 0x1A, 0x32, 0x78, 0xCC, 0xCC, 0xCC, 0xCC, 0x78, 0, 0, 0, 0],
     [0, 0, 0x3C, 0x66, 0x66, 0x66, 0x66, 0x3C, 0x18, 0x7E, 0x18, 0x18, 0, 0, 0, 0],
     [0, 0, 0x3F, 0x33, 0x3F, 0x30, 0x30, 0x30, 0x30, 0x70, 0xF0, 0xE0, 0, 0, 0, 0],
     [0, 0, 0x7F, 0x63, 0x7F, 0x63, 0x63, 0x63, 0x63, 0x67, 0xE7, 0xE6, 0xC0, 0, 0, 0],
     [0, 0, 0, 0x18, 0x18, 0xDB, 0x3C, 0xE7, 0x3C, 0xDB, 0x18, 0x18, 0, 0, 0, 0],
     [0, 0x80, 0xC0, 0xE0, 0xF0, 0xF8, 0xFE, 0xF8, 0xF0, 0xE0, 0xC0, 0x80, 0, 0, 0, 0],
     [0, 2, 6, 0x0E, 0x1E, 0x3E, 0xFE, 0x3E, 0x1E, 0x0E, 6, 2, 0, 0, 0, 0],
     [0, 0, 0x18, 0x3C, 0x7E, 0x18, 0x18, 0x18, 0x7E, 0x3C, 0x18, 0, 0, 0, 0, 0],
     [0, 0, 0x66, 0x66, 0x66, 0x66, 0x66, 0x66, 0x66, 0, 0x66, 0x66, 0, 0, 0, 0],
     [0, 0, 0x7F, 0xDB, 0xDB, 0xDB, 0x7B, 0x1B, 0x1B, 0x1B, 0x1B, 0x1B, 0, 0, 0, 0],
     [0, 0x7C, 0xC6, 0x60, 0x38, 0x6C, 0xC6, 0xC6, 0x6C, 0x38, 0x0C, 0xC6, 0x7C, 0, 0, 0],
     [0, 0, 0, 0, 0, 0, 0, 0, 0xFE, 0xFE, 0xFE, 0xFE, 0, 0, 0, 0],
     [0, 0, 0x18, 0x3C, 0x7E, 0x18, 0x18, 0x18, 0x7E, 0x3C, 0x18, 0x7E, 0, 0, 0, 0],
     [0, 0, 0x18, 0x3C, 0x7E, 0x18, 0x18, 0x18, 0x18, 0x18, 0x18, 0x18, 0, 0, 0, 0],
     [0, 0, 0x18, 0x18, 0x18, 0x18, 0x18, 0x18, 0x18, 0x7E, 0x3C, 0x18, 0, 0, 0, 0],
     [0, 0, 0, 0, 0, 0x18, 0x0C, 0xFE, 0x0C, 0x18, 0, 0, 0, 0, 0, 0],
     [0, 0, 0, 0, 0, 0x30, 0x60, 0xFE, 0x60, 0x30, 0, 0, 0, 0, 0, 0],
     [0, 0, 0, 0, 0, 0, 0xC0, 0xC0, 0xC0, 0xFE, 0, 0, 0, 0, 0, 0],
     [0, 0, 0, 0, 0, 0x28, 0x6C, 0xFE, 0x6C, 0x28, 0, 0, 0, 0, 0, 0],
     [0, 0, 0, 0, 0x10, 0x38, 0x38, 0x7C, 0x7C, 0xFE, 0xFE, 0, 0, 0, 0, 0],
     [0, 0, 0, 0, 0xFE, 0xFE, 0x7C, 0x7C, 0x38, 0x38, 0x10, 0, 0, 0, 0, 0],
     [0, 0, 0, 0, 0, 0, 0, 0, 0, 0, 0, 0, 0, 0, 0, 0],
     [0, 0, 0x18, 0x3C, 0x3C, 0x3C, 0x18, 0x18, 0x18, 0, 0x18, 0x18, 0, 0, 0, 0],
     [0, 0x66, 0x66, 0x66, 0x24, 0, 0, 0, 0, 0, 0, 0, 0, 0, 0, 0],
     [0, 0, 0, 0x6C, 0x6C, 0xFE, 0x6C, 0x6C, 0x6C, 0xFE, 0x6C, 0x6C, 0, 0, 0, 0],
     [0x18, 0x18, 0x7C, 0xC6, 0xC2, 0xC0, 0x7C, 6, 6, 0x86, 0xC6, 0x7C, 0x18, 0x18, 0, 0],
     [0, 0, 0, 0, 0xC2, 0xC6, 0x0C, 0x18, 0x30, 0x60, 0xC6, 0x86, 0, 0, 0, 0],
     [0, 0, 0x38, 0x6C, 0x6C, 0x38, 0x76, 0xDC, 0xCC, 0xCC, 0xCC, 0x76, 0, 0, 0, 0],
     [0, 0x30, 0x30, 0x30, 0x60, 0, 0, 0, 0, 0, 0, 0, 0, 0, 0, 0],
     [0, 0, 0x0C, 0x18, 0x30, 0x30, 0x30, 0x30, 0x30, 0x30, 0x18, 0x0C, 0, 0, 0, 0],
     [0, 0, 0x30, 0x18, 0x0C, 0x0C, 0x0C, 0x0C, 0x0C, 0x0C, 0x18, 0x30, 0, 0, 0, 0],
     [0, 0, 0, 0, 0, 0x66, 0x3C, 0xFF, 0x3C, 0x66, 0, 0, 0, 0, 0, 0],
     [0, 0, 0, 0, 0, 0x18, 0x18, 0x7E, 0x18, 0x18, 0, 0, 0, 0, 0, 0],
     [0, 0, 0, 0, 0, 0, 0, 0, 0, 0x18, 0x18, 0x18, 0x30, 0, 0, 0],
     [0, 0, 0, 0, 0, 0, 0, 0xFE, 0, 0, 0, 0, 0, 0, 0, 0],
     [0, 0, 0, 0, 0, 0, 0, 0, 0, 0, 0x18, 0x18, 0, 0, 0, 0],
     [0, 0, 0, 0, 2, 6, 0x0C, 0x18, 0x30, 0x60, 0xC0, 0x80, 0, 0, 0, 0],
     [0, 0, 0x38, 0x6C, 0xC6, 0xC6, 0xD6, 0xD6, 0xC6, 0xC6, 0x6C, 0x38, 0, 0, 0, 0],
     [0, 0, 0x18, 0x38, 0x78, 0x18, 0x18, 0x18, 0x18, 0x18, 0x18, 0x7E, 0, 0, 0, 0],
     [0, 0, 0x7C, 0xC6, 6, 0x0C, 0x18, 0x30, 0x60, 0xC0, 0xC6, 0xFE, 0, 0, 0, 0],
     [0, 0, 0x7C, 0xC6, 6, 6, 0x3C, 6, 6, 6, 0xC6, 0x7C, 0, 0, 0, 0],
     [0, 0, 0x0C, 0x1C, 0x3C, 0x6C, 0xCC, 0xFE, 0x0C, 0x0C, 0x0C, 0x1E, 0, 0, 0, 0],
     [0, 0, 0xFE, 0xC0, 0xC0, 0xC0, 0xFC, 6, 6, 6, 0xC6, 0x7C, 0, 0, 0, 0],
     [0, 0, 0x38, 0x60, 0xC0, 0xC0, 0xFC, 0xC6, 0xC6, 0xC6, 0xC6, 0x7C, 0, 0, 0, 0],
     [0, 0, 0xFE, 0xC6, 6, 6, 0x0C, 0x18, 0x30, 0x30, 0x30, 0x30, 0, 0, 0, 0],
     [0, 0, 0x7C, 0xC6, 0xC6, 0xC6, 0x7C, 0xC6, 0xC6, 0xC6, 0xC6, 0x7C, 0, 0, 0, 0],
     [0, 0, 0x7C, 0xC6, 0xC6, 0xC6, 0x7E, 6, 6, 6, 0x0C, 0x78, 0, 0, 0, 0],
     [0, 0, 0, 0, 0x18, 0x18, 0, 0, 0, 0x18, 0x18, 0, 0, 0, 0, 0],
     [0, 0, 0, 0, 0x18, 0x18, 0, 0, 0, 0x18, 0x18, 0x30, 0, 0, 0, 0],
     [0, 0, 0, 6, 0x0C, 0x18, 0x30, 0x60, 0x30, 0x18, 0x0C, 6, 0, 0, 0, 0],
     [0, 0, 0, 0, 0, 0x7E, 0, 0, 0x7E, 0, 0, 0, 0, 0, 0, 0],
     [0, 0, 0, 0x60, 0x30, 0x18, 0x0C, 6, 0x0C, 0x18, 0x30, 0x60, 0, 0, 0, 0],
     [0, 0, 0x7C, 0xC6, 0xC6, 0x0C, 0x18, 0x18, 0x18, 0, 0x18, 0x18, 0, 0, 0, 0],
     [0, 0, 0, 0x7C, 0xC6, 0xC6, 0xDE, 0xDE, 0xDE, 0xDC, 0xC0, 0x7C, 0, 0, 0, 0],
     [0, 0, 0x10, 0x38, 0x6C, 0xC6, 0xC6, 0xFE, 0xC6, 0xC6, 0xC6, 0xC6, 0, 0, 0, 0],
     [0, 0, 0xFC, 0x66, 0x66, 0x66, 0x7C, 0x66, 0x66, 0x66, 0x66, 0xFC, 0, 0, 0, 0],
     [0, 0, 0x3C, 0x66, 0xC2, 0xC0, 0xC0, 0xC0, 0xC0, 0xC2, 0x66, 0x3C, 0, 0, 0, 0],
     [0, 0, 0xF8, 0x6C, 0x66, 0x66, 0x66, 0x66, 0x66, 0x66, 0x6C, 0xF8, 0, 0, 0, 0],
     [0, 0, 0xFE, 0x66, 0x62, 0x68, 0x78, 0x68, 0x60, 0x62, 0x66, 0xFE, 0, 0, 0, 0],
     [0, 0, 0xFE, 0x66, 0x62, 0x68, 0x78, 0x68, 0x60, 0x60, 0x60, 0xF0, 0, 0, 0, 0],
     [0, 0, 0x3C, 0x66, 0xC2, 0xC0, 0xC0, 0xDE, 0xC6, 0xC6, 0x66, 0x3A, 0, 0, 0, 0],
     [0, 0, 0xC6, 0xC6, 0xC6, 0xC6, 0xFE, 0xC6, 0xC6, 0xC6, 0xC6, 0xC6, 0, 0, 0, 0],
     [0, 0, 0x3C, 0x18, 0x18, 0x18, 0x18, 0x18, 0x18, 0x18, 0x18, 0x3C, 0, 0, 0, 0],
     [0, 0, 0x1E, 0x0C, 0x0C, 0x0C, 0x0C, 0x0C, 0xCC, 0xCC, 0xCC, 0x78, 0, 0, 0, 0],
     [0, 0, 0xE6, 0x66, 0x66, 0x6C, 0x78, 0x78, 0x6C, 0x66, 0x66, 0xE6, 0, 0, 0, 0],
     [0, 0, 0xF0, 0x60, 0x60, 0x60, 0x60, 0x60, 0x60, 0x62, 0x66, 0xFE, 0, 0, 0, 0],
     [0, 0, 0xC6, 0xEE, 0xFE, 0xFE, 0xD6, 0xC6, 0xC6, 0xC6, 0xC6, 0xC6, 0, 0, 0, 0],
     [0, 0, 0xC6, 0xE6, 0xF6, 0xFE, 0xDE, 0xCE, 0xC6, 0xC6, 0xC6, 0xC6, 0, 0, 0, 0],
     [0, 0, 0x7C, 0xC6, 0xC6, 0xC6, 0xC6, 0xC6, 0xC6, 0xC6, 0xC6, 0x7C, 0, 0, 0, 0],
     [0, 0, 0xFC, 0x66, 0x66, 0x66, 0x7C, 0x60, 0x60, 0x60, 0x60, 0xF0, 0, 0, 0, 0],
     [0, 0, 0x7C, 0xC6, 0xC6, 0xC6, 0xC6, 0xC6, 0xC6, 0xD6, 0xDE, 0x7C, 0x0C, 0x0E, 0, 0],
     [0, 0, 0xFC, 0x66, 0x66, 0x66, 0x7C, 0x6C, 0x66, 0x66, 0x66, 0xE6, 0, 0, 0, 0],
     [0, 0, 0x7C, 0xC6, 0xC6, 0x60, 0x38, 0x0C, 6, 0xC6, 0xC6, 0x7C, 0, 0, 0, 0],
     [0, 0, 0x7E, 0x7E, 0x5A, 0x18, 0x18, 0x18, 0x18, 0x18, 0x18, 0x3C, 0, 0, 0, 0],
     [0, 0, 0xC6, 0xC6, 0xC6, 0xC6, 0xC6, 0xC6, 0xC6, 0xC6, 0xC6, 0x7C, 0, 0, 0, 0],
     [0, 0, 0xC6, 0xC6, 0xC6, 0xC6, 0xC6, 0xC6, 0xC6, 0x6C, 0x38, 0x10, 0, 0, 0, 0],
     [0, 0, 0xC6, 0xC6, 0xC6, 0xC6, 0xD6, 0xD6, 0xD6, 0xFE, 0xEE, 0x6C, 0, 0, 0, 0],
     [0, 0, 0xC6, 0xC6, 0x6C, 0x7C, 0x38, 0x38, 0x7C, 0x6C, 0xC6, 0xC6, 0, 0, 0, 0],
     [0, 0, 0x66, 0x66, 0x66, 0x66, 0x3C, 0x18, 0x18, 0x18, 0x18, 0x3C, 0, 0, 0, 0],
     [0, 0, 0xFE, 0xC6, 0x86, 0x0C, 0x18, 0x30, 0x60, 0xC2, 0xC6, 0xFE, 0, 0, 0, 0],
     [0, 0, 0x3C, 0x30, 0x30, 0x30, 0x30, 0x30, 0x30, 0x30, 0x30, 0x3C, 0, 0, 0, 0],
     [0, 0, 0, 0x80, 0xC0, 0xE0, 0x70, 0x38, 0x1C, 0x0E, 6, 2, 0, 0, 0, 0],
     [0, 0, 0x3C, 0x0C, 0x0C, 0x0C, 0x0C, 0x0C, 0x0C, 0x0C, 0x0C, 0x3C, 0, 0, 0, 0],
     [0x10, 0x38, 0x6C, 0xC6, 0, 0, 0, 0, 0, 0, 0, 0, 0, 0, 0, 0],
     [0, 0, 0, 0, 0, 0, 0, 0, 0, 0, 0, 0, 0, 0xFF, 0, 0],
     [0, 0x30, 0x18, 0x0C, 0, 0, 0, 0, 0, 0, 0, 0, 0, 0, 0, 0],
     [0, 0, 0, 0, 0, 0x78, 0x0C, 0x7C, 0xCC, 0xCC, 0xCC, 0x76, 0, 0, 0, 0],
     [0, 0, 0xE0, 0x60, 0x60, 0x78, 0x6C, 0x66, 0x66, 0x66, 0x66, 0x7C, 0, 0, 0, 0],
     [0, 0, 0, 0, 0, 0x7C, 0xC6, 0xC0, 0xC0, 0xC0, 0xC6, 0x7C, 0, 0, 0, 0],
     [0, 0, 0x1C, 0x0C, 0x0C, 0x3C, 0x6C, 0xCC, 0xCC, 0xCC, 0xCC, 0x76, 0, 0, 0, 0],
     [0, 0, 0, 0, 0, 0x7C, 0xC6, 0xFE, 0xC0, 0xC0, 0xC6, 0x7C, 0, 0, 0, 0],
     [0, 0, 0x1C, 0x36, 0x32, 0x30, 0x78, 0x30, 0x30, 0x30, 0x30, 0x78, 0, 0, 0, 0],
     [0, 0, 0, 0, 0, 0x76, 0xCC, 0xCC, 0xCC, 0xCC, 0xCC, 0x7C, 0x0C, 0xCC, 0x78, 0],
     [0, 0, 0xE0, 0x60, 0x60, 0x6C, 0x76, 0x66, 0x66, 0x66, 0x66, 0xE6, 0, 0, 0, 0],
     [0, 0, 0x18, 0x18, 0, 0x38, 0x18, 0x18, 0x18, 0x18, 0x18, 0x3C, 0, 0, 0, 0],
     [0, 0, 6, 6, 0, 0x0E, 6, 6, 6, 6, 6, 6, 0x66, 0x66, 0x3C, 0],
     [0, 0, 0xE0, 0x60, 0x60, 0x66, 0x6C, 0x78, 0x78, 0x6C, 0x66, 0xE6, 0, 0, 0, 0],
     [0, 0, 0x38, 0x18, 0x18, 0x18, 0x18, 0x18, 0x18, 0x18, 0x18, 0x3C, 0, 0, 0, 0],
     [0, 0, 0, 0, 0, 0xEC, 0xFE, 0xD6, 0xD6, 0xD6, 0xD6, 0xC6, 0, 0, 0, 0],
     [0, 0, 0, 0, 0, 0xDC, 0x66, 0x66, 0x66, 0x66, 0x66, 0x66, 0, 0, 0, 0],
     [0, 0, 0, 0, 0, 0x7C, 0xC6, 0xC6, 0xC6, 0xC6, 0xC6, 0x7C, 0, 0, 0, 0],
     [0, 0, 0, 0, 0, 0xDC, 0x66, 0x66, 0x66, 0x66, 0x66, 0x7C, 0x60, 0x60, 0xF0, 0],
     [0, 0, 0, 0, 0, 0x76, 0xCC, 0xCC, 0xCC, 0xCC, 0xCC, 0x7C, 0x0C, 0x0C, 0x1E, 0],
     [0, 0, 0, 0, 0, 0xDC, 0x76, 0x66, 0x60, 0x60, 0x60, 0xF0, 0, 0, 0, 0],
     [0, 0, 0, 0, 0, 0x7C, 0xC6, 0x60, 0x38, 0x0C, 0xC6, 0x7C, 0, 0, 0, 0],
     [0, 0, 0x10, 0x30, 0x30, 0xFC, 0x30, 0x30, 0x30, 0x30, 0x36, 0x1C, 0, 0, 0, 0],
     [0, 0, 0, 0, 0, 0xCC, 0xCC, 0xCC, 0xCC, 0xCC, 0xCC, 0x76, 0, 0, 0, 0],
     [0, 0, 0, 0, 0, 0xC6, 0xC6, 0xC6, 0xC6, 0xC6, 0x6C, 0x38, 0, 0, 0, 0],
     [0, 0, 0, 0, 0, 0xC6, 0xC6, 0xD6, 0xD6, 0xD6, 0xFE, 0x6C, 0, 0, 0, 0],
     [0, 0, 0, 0, 0, 0xC6, 0x6C, 0x38, 0x38, 0x38, 0x6C, 0xC6, 0, 0, 0, 0],
     [0, 0, 0, 0, 0, 0xC6, 0xC6, 0xC6, 0xC6, 0xC6, 0xC6, 0x7E, 6, 0x0C, 0xF8, 0],
     [0, 0, 0, 0, 0, 0xFE, 0xCC, 0x18, 0x30, 0x60, 0xC6, 0xFE, 0, 0, 0, 0],
     [0, 0, 0x0E, 0x18, 0x18, 0x18, 0x70, 0x18, 0x18, 0x18, 0x18, 0x0E, 0, 0, 0, 0],
     [0, 0, 0x18, 0x18, 0x18, 0x18, 0x18, 0x18, 0x18, 0x18, 0x18, 0x18, 0, 0, 0, 0],
     [0, 0, 0x70, 0x18, 0x18, 0x18, 0x0E, 0x18, 0x18, 0x18, 0x18, 0x70, 0, 0, 0, 0],
     [0, 0x76, 0xDC, 0, 0, 0, 0, 0, 0, 0, 0, 0, 0, 0, 0, 0],
     [0, 0, 0, 0, 0x10, 0x38, 0x6C, 0xC6, 0xC6, 0xC6, 0xFE, 0, 0, 0, 0, 0],
     [0, 0, 0x3C, 0x66, 0xC2, 0xC0, 0xC0, 0xC0, 0xC0, 0xC2, 0x66, 0x3C, 0x18, 0x70, 0, 0],
     [0, 0, 0xCC, 0, 0, 0xCC, 0xCC, 0xCC, 0xCC, 0xCC, 0xCC, 0x76, 0, 0, 0, 0],
     [0, 0x0C, 0x18, 0x30, 0, 0x7C, 0xC6, 0xFE, 0xC0, 0xC0, 0xC6, 0x7C, 0, 0, 0, 0],
     [0, 0x10, 0x38, 0x6C, 0, 0x78, 0x0C, 0x7C, 0xCC, 0xCC, 0xCC, 0x76, 0, 0, 0, 0],
     [0, 0, 0xCC, 0, 0, 0x78, 0x0C, 0x7C, 0xCC, 0xCC, 0xCC, 0x76, 0, 0, 0, 0],
     [0, 0x60, 0x30, 0x18, 0, 0x78, 0x0C, 0x7C, 0xCC, 0xCC, 0xCC, 0x76, 0, 0, 0, 0],
     [0, 0x38, 0x6C, 0x38, 0, 0x78, 0x0C, 0x7C, 0xCC, 0xCC, 0xCC, 0x76, 0, 0, 0, 0],
     [0, 0, 0, 0, 0, 0x7C, 0xC6, 0xC0, 0xC0, 0xC0, 0xC6, 0x7C, 0x18, 0x70, 0, 0],
     [0, 0x10, 0x38, 0x6C, 0, 0x7C, 0xC6, 0xFE, 0xC0, 0xC0, 0xC6, 0x7C, 0, 0, 0, 0],
     [0, 0, 0xC6, 0, 0, 0x7C, 0xC6, 0xFE, 0xC0, 0xC0, 0xC6, 0x7C, 0, 0, 0, 0],
     [0, 0x60, 0x30, 0x18, 0, 0x7C, 0xC6, 0xFE, 0xC0, 0xC0, 0xC6, 0x7C, 0, 0, 0, 0],
     [0, 0, 0x66, 0, 0, 0x38, 0x18, 0x18, 0x18, 0x18, 0x18, 0x3C, 0, 0, 0, 0],
     [0, 0x18, 0x3C, 0x66, 0, 0x38, 0x18, 0x18, 0x18, 0x18, 0x18, 0x3C, 0, 0, 0, 0],
     [0, 0x60, 0x30, 0x18, 0, 0x38, 0x18, 0x18, 0x18, 0x18, 0x18, 0x3C, 0, 0, 0, 0],
     [0, 0xC6, 0, 0x10, 0x38, 0x6C, 0xC6, 0xC6, 0xFE, 0xC6, 0xC6, 0xC6, 0, 0, 0, 0],
     [0x38, 0x6C, 0x38, 0x10, 0x38, 0x6C, 0xC6, 0xFE, 0xC6, 0xC6, 0xC6, 0xC6, 0, 0, 0, 0],
     [0x0C, 0x18, 0, 0xFE, 0x66, 0x62, 0x68, 0x78, 0x68, 0x62, 0x66, 0xFE, 0, 0, 0, 0],
     [0, 0, 0, 0, 0, 0xEC, 0x36, 0x36, 0x7E, 0xD8, 0xD8, 0x6E, 0, 0, 0, 0],
     [0, 0, 0x3E, 0x6C, 0xCC, 0xCC, 0xFE, 0xCC, 0xCC, 0xCC, 0xCC, 0xCE, 0, 0, 0, 0],
     [0, 0x10, 0x38, 0x6C, 0, 0x7C, 0xC6, 0xC6, 0xC6, 0xC6, 0xC6, 0x7C, 0, 0, 0, 0],
     [0, 0, 0xC6, 0, 0, 0x7C, 0xC6, 0xC6, 0xC6, 0xC6, 0xC6, 0x7C, 0, 0, 0, 0],
     [0, 0x60, 0x30, 0x18, 0, 0x7C, 0xC6, 0xC6, 0xC6, 0xC6, 0xC6, 0x7C, 0, 0, 0, 0],
     [0, 0x30, 0x78, 0xCC, 0, 0xCC, 0xCC, 0xCC, 0xCC, 0xCC, 0xCC, 0x76, 0, 0, 0, 0],
     [0, 0x60, 0x30, 0x18, 0, 0xCC, 0xCC, 0xCC, 0xCC, 0xCC, 0xCC, 0x76, 0, 0, 0, 0],
     [0, 0, 0xC6, 0, 0, 0xC6, 0xC6, 0xC6, 0xC6, 0xC6, 0xC6, 0x7E, 6, 0x0C, 0x78, 0],
     [0, 0xC6, 0, 0x7C, 0xC6, 0xC6, 0xC6, 0xC6, 0xC6, 0xC6, 0xC6, 0x7C, 0, 0, 0, 0],
     [0, 0xC6, 0, 0xC6, 0xC6, 0xC6, 0xC6, 0xC6, 0xC6, 0xC6, 0xC6, 0x7C, 0, 0, 0, 0],
     [0, 0x18, 0x18, 0x7C, 0xC6, 0xC0, 0xC0, 0xC0, 0xC6, 0x7C, 0x18, 0x18, 0, 0, 0, 0],
     [0, 0x38, 0x6C, 0x64, 0x60, 0xF0, 0x60, 0x60, 0x60, 0x60, 0xE6, 0xFC, 0, 0, 0, 0],
     [0, 0, 0x66, 0x66, 0x3C, 0x18, 0x7E, 0x18, 0x7E, 0x18, 0x18, 0x18, 0, 0, 0, 0],
     [0, 0xF8, 0xCC, 0xCC, 0xF8, 0xC4, 0xCC, 0xDE, 0xCC, 0xCC, 0xCC, 0xC6, 0, 0, 0, 0],
     [0, 0x0E, 0x1B, 0x18, 0x18, 0x18, 0x7E, 0x18, 0x18, 0x18, 0xD8, 0x70, 0, 0, 0, 0],
     [0, 0x18, 0x30, 0x60, 0, 0x78, 0x0C, 0x7C, 0xCC, 0xCC, 0xCC, 0x76, 0, 0, 0, 0],
     [0, 0x0C, 0x18, 0x30, 0, 0x38, 0x18, 0x18, 0x18, 0x18, 0x18, 0x3C, 0, 0, 0, 0],
     [0, 0x18, 0x30, 0x60, 0, 0x7C, 0xC6, 0xC6, 0xC6, 0xC6, 0xC6, 0x7C, 0, 0, 0, 0],
     [0, 0x18, 0x30, 0x60, 0, 0xCC, 0xCC, 0xCC, 0xCC, 0xCC, 0xCC, 0x76, 0, 0, 0, 0],
     [0, 0, 0x76, 0xDC, 0, 0xDC, 0x66, 0x66, 0x66, 0x66, 0x66, 0x66, 0, 0, 0, 0],
     [0x76, 0xDC, 0, 0xC6, 0xE6, 0xF6, 0xFE, 0xDE, 0xCE, 0xC6, 0xC6, 0xC6, 0, 0, 0, 0],
     [0, 0, 0x3C, 0x6C, 0x6C, 0x3E, 0, 0x7E, 0, 0, 0, 0, 0, 0, 0, 0],
     [0, 0, 0x38, 0x6C, 0x6C, 0x38, 0, 0x7C, 0, 0, 0, 0, 0, 0, 0, 0],
     [0, 0, 0x30, 0x30, 0, 0x30, 0x30, 0x60, 0xC0, 0xC6, 0xC6, 0x7C, 0, 0, 0, 0],
     [0, 0, 0, 0, 0, 0, 0xFE, 0xC0, 0xC0, 0xC0, 0xC0, 0, 0, 0, 0, 0],
     [0, 0, 0, 0, 0, 0, 0xFE, 6, 6, 6, 6, 0, 0, 0, 0, 0],
     [0, 0x60, 0xE0, 0x62, 0x66, 0x6C, 0x18, 0x30, 0x60, 0xDC, 0x86, 0x0C, 0x18, 0x3E, 0, 0],
     [0, 0x60, 0xE0, 0x62, 0x66, 0x6C, 0x18, 0x30, 0x66, 0xCE, 0x9A, 0x3F, 6, 6, 0, 0],
     [0, 0, 0x18, 0x18, 0, 0x18, 0x18, 0x18, 0x3C, 0x3C, 0x3C, 0x18, 0, 0, 0, 0],
     [0, 0, 0, 0, 0, 0x36, 0x6C, 0xD8, 0x6C, 0x36, 0, 0, 0, 0, 0, 0],
     [0, 0, 0, 0, 0, 0xD8, 0x6C, 0x36, 0x6C, 0xD8, 0, 0, 0, 0, 0, 0],
     [0x11, 0x44, 0x11, 0x44, 0x11, 0x44, 0x11, 0x44, 0x11, 0x44, 0x11, 0x44, 0x11, 0x44, 0x11, 0x44],
     [0x55, 0xAA, 0x55, 0xAA, 0x55, 0xAA, 0x55, 0xAA, 0x55, 0xAA, 0x55, 0xAA, 0x55, 0xAA, 0x55, 0xAA],
     [0xDD, 0x77, 0xDD, 0x77, 0xDD, 0x77, 0xDD, 0x77, 0xDD, 0x77, 0xDD, 0x77, 0xDD, 0x77, 0xDD, 0x77],
     [0x18, 0x18, 0x18, 0x18, 0x18, 0x18, 0x18, 0x18, 0x18, 0x18, 0x18, 0x18, 0x18, 0x18, 0x18, 0x18],
     [0x18, 0x18, 0x18, 0x18, 0x18, 0x18, 0x18, 0xF8, 0x18, 0x18, 0x18, 0x18, 0x18, 0x18, 0x18, 0x18],
     [0x18, 0x18, 0x18, 0x18, 0x18, 0xF8, 0x18, 0xF8, 0x18, 0x18, 0x18, 0x18, 0x18, 0x18, 0x18, 0x18],
     [0x36, 0x36, 0x36, 0x36, 0x36, 0x36, 0x36, 0xF6, 0x36, 0x36, 0x36, 0x36, 0x36, 0x36, 0x36, 0x36],
     [0, 0, 0, 0, 0, 0, 0, 0xFE, 0x36, 0x36, 0x36, 0x36, 0x36, 0x36, 0x36, 0x36],
     [0, 0, 0, 0, 0, 0xF8, 0x18, 0xF8, 0x18, 0x18, 0x18, 0x18, 0x18, 0x18, 0x18, 0x18],
     [0x36, 0x36, 0x36, 0x36, 0x36, 0xF6, 6, 0xF6, 0x36, 0x36, 0x36, 0x36, 0x36, 0x36, 0x36, 0x36],
     [0x36, 0x36, 0x36, 0x36, 0x36, 0x36, 0x36, 0x36, 0x36, 0x36, 0x36, 0x36, 0x36, 0x36, 0x36, 0x36],
     [0, 0, 0, 0, 0, 0xFE, 6, 0xF6, 0x36, 0x36, 0x36, 0x36, 0x36, 0x36, 0x36, 0x36],
     [0x36, 0x36, 0x36, 0x36, 0x36, 0xF6, 6, 0xFE, 0, 0, 0, 0, 0, 0, 0, 0],
     [0x36, 0x36, 0x36, 0x36, 0x36, 0x36, 0x36, 0xFE, 0, 0, 0, 0, 0, 0, 0, 0],
     [0x18, 0x18, 0x18, 0x18, 0x18, 0xF8, 0x18, 0xF8, 0, 0, 0, 0, 0, 0, 0, 0],
     [0, 0, 0, 0, 0, 0, 0, 0xF8, 0x18, 0x18, 0x18, 0x18, 0x18, 0x18, 0x18, 0x18],
     [0x18, 0x18, 0x18, 0x18, 0x18, 0x18, 0x18, 0x1F, 0, 0, 0, 0, 0, 0, 0, 0],
     [0x18, 0x18, 0x18, 0x18, 0x18, 0x18, 0x18, 0xFF, 0, 0, 0, 0, 0, 0, 0, 0],
     [0, 0, 0, 0, 0, 0, 0, 0xFF, 0x18, 0x18, 0x18, 0x18, 0x18, 0x18, 0x18, 0x18],
     [0x18, 0x18, 0x18, 0x18, 0x18, 0x18, 0x18, 0x1F, 0x18, 0x18, 0x18, 0x18, 0x18, 0x18, 0x18, 0x18],
     [0, 0, 0, 0, 0, 0, 0, 0xFF, 0, 0, 0, 0, 0, 0, 0, 0],
     [0x18, 0x18, 0x18, 0x18, 0x18, 0x18, 0x18, 0xFF, 0x18, 0x18, 0x18, 0x18, 0x18, 0x18, 0x18, 0x18],
     [0x18, 0x18, 0x18, 0x18, 0x18, 0x1F, 0x18, 0x1F, 0x18, 0x18, 0x18, 0x18, 0x18, 0x18, 0x18, 0x18],
     [0x36, 0x36, 0x36, 0x36, 0x36, 0x36, 0x36, 0x37, 0x36, 0x36, 0x36, 0x36, 0x36, 0x36, 0x36, 0x36],
     [0x36, 0x36, 0x36, 0x36, 0x36, 0x37, 0x30, 0x3F, 0, 0, 0, 0, 0, 0, 0, 0],
     [0, 0, 0, 0, 0, 0x3F, 0x30, 0x37, 0x36, 0x36, 0x36, 0x36, 0x36, 0x36, 0x36, 0x36],
     [0x36, 0x36, 0x36, 0x36, 0x36, 0xF7, 0, 0xFF, 0, 0, 0, 0, 0, 0, 0, 0],
     [0, 0, 0, 0, 0, 0xFF, 0, 0xF7, 0x36, 0x36, 0x36, 0x36, 0x36, 0x36, 0x36, 0x36],
     [0x36, 0x36, 0x36, 0x36, 0x36, 0x37, 0x30, 0x37, 0x36, 0x36, 0x36, 0x36, 0x36, 0x36, 0x36, 0x36],
     [0, 0, 0, 0, 0, 0xFF, 0, 0xFF, 0, 0, 0, 0, 0, 0, 0, 0],
     [0x36, 0x36, 0x36, 0x36, 0x36, 0xF7, 0, 0xF7, 0x36, 0x36, 0x36, 0x36, 0x36, 0x36, 0x36, 0x36],
     [0x18, 0x18, 0x18, 0x18, 0x18, 0xFF, 0, 0xFF, 0, 0, 0, 0, 0, 0, 0, 0],
     [0x36, 0x36, 0x36, 0x36, 0x36, 0x36, 0x36, 0xFF, 0, 0, 0, 0, 0, 0, 0, 0],
     [0, 0, 0, 0, 0, 0xFF, 0, 0xFF, 0x18, 0x18, 0x18, 0x18, 0x18, 0x18, 0x18, 0x18],
     [0, 0, 0, 0, 0, 0, 0, 0xFF, 0x36, 0x36, 0x36, 0x36, 0x36, 0x36, 0x36, 0x36],
     [0x36, 0x36, 0x36, 0x36, 0x36, 0x36, 0x36, 0x3F, 0, 0, 0, 0, 0, 0, 0, 0],
     [0x18, 0x18, 0x18, 0x18, 0x18, 0x1F, 0x18, 0x1F, 0, 0, 0, 0, 0, 0, 0, 0],
     [0, 0, 0, 0, 0, 0x1F, 0x18, 0x1F, 0x18, 0x18, 0x18, 0x18, 0x18, 0x18, 0x18, 0x18],
     [0, 0, 0, 0, 0, 0, 0, 0x3F, 0x36, 0x36, 0x36, 0x36, 0x36, 0x36, 0x36, 0x36],
     [0x36, 0x36, 0x36, 0x36, 0x36, 0x36, 0x36, 0xFF, 0x36, 0x36, 0x36, 0x36, 0x36, 0x36, 0x36, 0x36],
     [0x18, 0x18, 0x18, 0x18, 0x18, 0xFF, 0x18, 0xFF, 0x18, 0x18, 0x18, 0x18, 0x18, 0x18, 0x18, 0x18],
     [0x18, 0x18, 0x18, 0x18, 0x18, 0x18, 0x18, 0xF8, 0, 0, 0, 0, 0, 0, 0, 0],
     [0, 0, 0, 0, 0, 0, 0, 0x1F, 0x18, 0x18, 0x18, 0x18, 0x18, 0x18, 0x18, 0x18],
     [0xFF, 0xFF, 0xFF, 0xFF, 0xFF, 0xFF, 0xFF, 0xFF, 0xFF, 0xFF, 0xFF, 0xFF, 0xFF, 0xFF, 0xFF, 0xFF],
     [0, 0, 0, 0, 0, 0, 0, 0xFF, 0xFF, 0xFF, 0xFF, 0xFF, 0xFF, 0xFF, 0xFF, 0xFF],
     [0xF0, 0xF0, 0xF0, 0xF0, 0xF0, 0xF0, 0xF0, 0xF0, 0xF0, 0xF0, 0xF0, 0xF0, 0xF0, 0xF0, 0xF0, 0xF0],
     [0x0F, 0x0F, 0x0F, 0x0F, 0x0F, 0x0F, 0x0F, 0x0F, 0x0F, 0x0F, 0x0F, 0x0F, 0x0F, 0x0F, 0x0F, 0x0F],
     [0xFF, 0xFF, 0xFF, 0xFF, 0xFF, 0xFF, 0xFF, 0, 0, 0, 0, 0, 0, 0, 0, 0],
     [0, 0, 0, 0, 0, 0x76, 0xDC, 0xD8, 0xD8, 0xD8, 0xDC, 0x76, 0, 0, 0, 0],
     [0, 0, 0x78, 0xCC, 0xCC, 0xCC, 0xD8, 0xCC, 0xC6, 0xC6, 0xC6, 0xCC, 0, 0, 0, 0],
     [0, 0, 0xFE, 0xC6, 0xC6, 0xC0, 0xC0, 0xC0, 0xC0, 0xC0, 0xC0, 0xC0, 0, 0, 0, 0],
     [0, 0, 0, 0, 0, 0xFE, 0x6C, 0x6C, 0x6C, 0x6C, 0x6C, 0x6C, 0, 0, 0, 0],
     [0, 0, 0xFE, 0xC6, 0x60, 0x30, 0x18, 0x18, 0x30, 0x60, 0xC6, 0xFE, 0, 0, 0, 0],
     [0, 0, 0, 0, 0, 0x7E, 0xD8, 0xD8, 0xD8, 0xD8, 0xD8, 0x70, 0, 0, 0, 0],
     [0, 0, 0, 0, 0, 0x66, 0x66, 0x66, 0x66, 0x66, 0x66, 0x7C, 0x60, 0x60, 0xC0, 0],
     [0, 0, 0, 0, 0x76, 0xDC, 0x18, 0x18, 0x18, 0x18, 0x18, 0x18, 0, 0, 0, 0],
     [0, 0, 0x7E, 0x18, 0x3C, 0x66, 0x66, 0x66, 0x66, 0x3C, 0x18, 0x7E, 0, 0, 0, 0],
     [0, 0, 0x38, 0x6C, 0xC6, 0xC6, 0xFE, 0xC6, 0xC6, 0xC6, 0x6C, 0x38, 0, 0, 0, 0],
     [0, 0, 0x38, 0x6C, 0xC6, 0xC6, 0xC6, 0x6C, 0x6C, 0x6C, 0x6C, 0xEE, 0, 0, 0, 0],
     [0, 0, 0x1E, 0x30, 0x18, 0x0C, 0x3E, 0x66, 0x66, 0x66, 0x66, 0x3C, 0, 0, 0, 0],
     [0, 0, 0, 0, 0, 0x7E, 0xDB, 0xDB, 0xDB, 0x7E, 0, 0, 0, 0, 0, 0],
     [0, 0, 0, 3, 6, 0x7E, 0xDB, 0xDB, 0xF3, 0x7E, 0x60, 0xC0, 0, 0, 0, 0],
     [0, 0, 0x1C, 0x30, 0x60, 0x60, 0x7C, 0x60, 0x60, 0x60, 0x30, 0x1C, 0, 0, 0, 0],
     [0, 0, 0, 0x7C, 0xC6, 0xC6, 0xC6, 0xC6, 0xC6, 0xC6, 0xC6, 0xC6, 0, 0, 0, 0],
     [0, 0, 0, 0, 0xFE, 0, 0, 0xFE, 0, 0, 0xFE, 0, 0, 0, 0, 0],
     [0, 0, 0, 0, 0x18, 0x18, 0x7E, 0x18, 0x18, 0, 0, 0x7E, 0, 0, 0, 0],
     [0, 0, 0, 0x30, 0x18, 0x0C, 6, 0x0C, 0x18, 0x30, 0, 0x7E, 0, 0, 0, 0],
     [0, 0, 0, 0x0C, 0x18, 0x30, 0x60, 0x30, 0x18, 0x0C, 0, 0x7E, 0, 0, 0, 0],
     [0, 0, 0x0E, 0x1B, 0x1B, 0x18, 0x18, 0x18, 0x18, 0x18, 0x18, 0x18, 0x18, 0x18, 0x18, 0x18],
     [0x18, 0x18, 0x18, 0x18, 0x18, 0x18, 0x18, 0x18, 0x18, 0xD8, 0xD8, 0xD8, 0x70, 0, 0, 0],
     [0, 0, 0, 0, 0, 0x18, 0, 0x7E, 0, 0x18, 0, 0, 0, 0, 0, 0],
     [0, 0, 0, 0, 0, 0x76, 0xDC, 0, 0x76, 0xDC, 0, 0, 0, 0, 0, 0],
     [0, 0x38, 0x6C, 0x6C, 0x38, 0, 0, 0, 0, 0, 0, 0, 0, 0, 0, 0],
     [0, 0, 0, 0, 0, 0, 0, 0x18, 0x18, 0, 0, 0, 0, 0, 0, 0],
     [0, 0, 0, 0, 0, 0, 0, 0x18, 0, 0, 0, 0, 0, 0, 0, 0],
     [0, 0x0F, 0x0C, 0x0C, 0x0C, 0x0C, 0x0C, 0xEC, 0x6C, 0x6C, 0x3C, 0x1C, 0, 0, 0, 0],
     [0, 0x6C, 0x36, 0x36, 0x36, 0x36, 0x36, 0, 0, 0, 0, 0, 0, 0, 0, 0],
     [0, 0x3C, 0x66, 0x0C, 0x18, 0x32, 0x7E, 0, 0, 0, 0, 0, 0, 0, 0, 0],
     [0, 0, 0, 0, 0x7E, 0x7E, 0x7E, 0x7E, 0x7E, 0x7E, 0x7E, 0, 0, 0, 0, 0],
     [0, 0, 0, 0, 0, 0, 0, 0, 0, 0, 0, 0, 0, 0, 0, 0]]"

definition TR :: "glyph list" where
  "TR = [
     [0, 0, 0, 0, 0, 0x7C, 0xC6, 0x60, 0x38, 0x0C, 0xC6, 0x7C, 0x18, 0x70, 0, 0],
     [0, 0, 0x7C, 0xC6, 0xC6, 0x60, 0x38, 0x0C, 6, 0xC6, 0xC6, 0x7C, 0x18, 0x70, 0, 0],
     [0, 0x24, 0x18, 0, 0, 0x76, 0xCC, 0xCC, 0xCC, 0xCC, 0xCC, 0x7C, 0x0C, 0xCC, 0x78, 0],
     [0x24, 0x18, 0x3C, 0x66, 0xC2, 0xC0, 0xC0, 0xDE, 0xC6, 0xC6, 0x66, 0x3A, 0, 0, 0, 0],
     [0, 0, 0, 0, 0, 0x38, 0x18, 0x18, 0x18, 0x18, 0x18, 0x3C, 0, 0, 0, 0],
     [0, 0x18, 0, 0x3C, 0x18, 0x18, 0x18, 0x18, 0x18, 0x18, 0x18, 0x3C, 0, 0, 0, 0]]"

text \<open>The characters outside ASCII and the glyph each one has, as code point and index.\<close>

definition cp437 :: "(uchar \<times> nat) list" where
  "cp437 = [
     (0xC7, 0x80), (0xFC, 0x81), (0xE9, 0x82), (0xE2, 0x83), (0xE4, 0x84), (0xE0, 0x85),
     (0xE5, 0x86), (0xE7, 0x87), (0xEA, 0x88), (0xEB, 0x89), (0xE8, 0x8A), (0xEF, 0x8B),
     (0xEE, 0x8C), (0xEC, 0x8D), (0xC4, 0x8E), (0xC5, 0x8F), (0xC9, 0x90), (0xE6, 0x91),
     (0xC6, 0x92), (0xF4, 0x93), (0xF6, 0x94), (0xF2, 0x95), (0xFB, 0x96), (0xF9, 0x97),
     (0xFF, 0x98), (0xD6, 0x99), (0xDC, 0x9A), (0xA2, 0x9B), (0xA3, 0x9C), (0xA5, 0x9D),
     (0x20A7, 0x9E), (0x192, 0x9F), (0xE1, 0xA0), (0xED, 0xA1), (0xF3, 0xA2), (0xFA, 0xA3),
     (0xF1, 0xA4), (0xD1, 0xA5), (0xAA, 0xA6), (0xBA, 0xA7), (0xBF, 0xA8), (0x2310, 0xA9),
     (0xAC, 0xAA), (0xBD, 0xAB), (0xBC, 0xAC), (0xA1, 0xAD), (0xAB, 0xAE), (0xBB, 0xAF),
     (0x2591, 0xB0), (0x2592, 0xB1), (0x2593, 0xB2), (0x2551, 0xBA), (0x2557, 0xBB), (0x255D, 0xBC),
     (0x2554, 0xC9), (0x255A, 0xC8), (0x2550, 0xCD), (0x256C, 0xCE), (0x2560, 0xCC), (0x2563, 0xB9),
     (0x2588, 0xDB), (0x2584, 0xDC), (0x258C, 0xDE), (0x2590, 0xDD), (0x2580, 0xDF)]"

fun braille_rows :: "byte \<Rightarrow> nat \<Rightarrow> nat \<Rightarrow> glyph \<Rightarrow> glyph" where
  "braille_rows b r 0 g = g"
| "braille_rows b r (Suc n) g =
    (let row = (if b AND push_bit r 1 \<noteq> 0 then 0xC0 else 0);
         row = (if b AND push_bit (r + 4) 1 \<noteq> 0 then row OR 0x06 else row) in
     braille_rows b (r + 1) n (g[r * 4 := row, r * 4 + 1 := row, r * 4 + 2 := row]))"

definition braille_glyph :: "byte \<Rightarrow> glyph" where
  "braille_glyph b = braille_rows b 0 4 (replicate 16 0)"

definition BLOCK_GLYPH :: glyph where
  "BLOCK_GLYPH = GLYPHS ! 0xDB"

definition glyph_of :: "uchar \<Rightarrow> glyph option" where
  "glyph_of c =
    (case map_of [(0x15F, 0), (0x15E, 1), (0x11F, 2), (0x11E, 3), (0x131, 4), (0x130, 5)] c of
       Some k \<Rightarrow> Some (TR ! k)
     | None \<Rightarrow>
        (if 0x20 \<le> c \<and> c \<le> 0x7E then Some (GLYPHS ! c)
         else (case map_of cp437 c of
            Some k \<Rightarrow> Some (GLYPHS ! k)
          | None \<Rightarrow>
             (if 0x2800 \<le> c \<and> c \<le> 0x28FF then Some (braille_glyph (of_nat (c - 0x2800))) else None))))"

section \<open>Every glyph has sixteen rows\<close>

lemma glyph_rows: "list_all (\<lambda>g. length g = 16) GLYPHS" "list_all (\<lambda>g. length g = 16) TR"
  unfolding GLYPHS_def TR_def by (simp_all only: list.pred_inject list.size) simp_all

lemma glyph_counts: "length GLYPHS = 256" "length TR = 6"
  unfolding GLYPHS_def TR_def by simp_all

lemma glyph_tables: "\<forall>g \<in> set (GLYPHS @ TR). length g = 16" "length GLYPHS = 256" "length TR = 6"
  using glyph_rows glyph_counts by (auto simp: list_all_iff)

lemma braille_rows_length [simp]: "length (braille_rows b r n g) = length g"
  by (induction b r n g rule: braille_rows.induct) (simp_all add: Let_def)

lemma cp437_bounded: "map_of cp437 c = Some k \<Longrightarrow> k < 256"
  by (drule map_of_SomeD) (auto simp: cp437_def)

lemma glyph_length: "glyph_of c = Some g \<Longrightarrow> length g = 16"
proof -
  have G: "k < 256 \<Longrightarrow> length (GLYPHS ! k) = 16" for k
    using glyph_tables(1,2) nth_mem [of k GLYPHS] by auto
  have T: "k < 6 \<Longrightarrow> length (TR ! k) = 16" for k
    using glyph_tables(1,3) nth_mem [of k TR] by auto
  show "glyph_of c = Some g \<Longrightarrow> length g = 16"
    by (auto simp: glyph_of_def braille_glyph_def G T cp437_bounded split: option.splits if_splits)
qed

lemma block_glyph_length: "length BLOCK_GLYPH = 16"
  using glyph_tables nth_mem [of "0xDB" GLYPHS] by (auto simp: BLOCK_GLYPH_def)
section \<open>Glyphs that are not what their character shows\<close>

text \<open>
  U+258C is the left half block and U+2590 the right one; bit 7 of a row is its left pixel, so
  each is shown as the other.  U+2808 is the braille pattern of dot 4, the upper right dot; it
  is shown as the lowest left one.
\<close>

lemma half_blocks_mirrored:
  "glyph_of 0x258C = Some (replicate 16 0x0F)" "glyph_of 0x2590 = Some (replicate 16 0xF0)"
  by (simp_all add: glyph_of_def cp437_def GLYPHS_def replicate_num)

lemma braille_dot_4: "glyph_of 0x2808 = Some (replicate 12 0 @ [0xC0, 0xC0, 0xC0, 0])"
proof -
  have "braille_glyph 8 = replicate 12 0 @ [0xC0, 0xC0, 0xC0, 0]" by code_simp
  then show ?thesis by (simp add: glyph_of_def cp437_def)
qed

end
