(* ===== verification/Console.thy ===== *)
theory Console
  imports Font
begin

text \<open>
  The text console (\<open>kernel/src/framebuffer.rs\<close>): a scrollback of character cells and the
  frame buffer it is drawn into.  The code draws incrementally, one cell or one scroll at a
  time; the theory relates the pixels to the cells they should show.  None is a panic.
\<close>

section \<open>State\<close>

type_synonym rgb = "byte \<times> byte \<times> byte"

text \<open>The formats of \<open>bootloader_api\<close> that the code distinguishes.\<close>

datatype pixel_format = Rgb_format | Bgr_format | Other_format

record fb_info =
  fb_width :: nat
  fb_height :: nat
  fb_stride :: nat
  fb_bpp :: nat
  fb_format :: pixel_format

record cell =
  cell_char :: uchar
  cell_fg :: rgb

definition CELL_W :: nat where "CELL_W = 8"
definition CELL_H :: nat where "CELL_H = 16"
definition COLS_MAX :: nat where "COLS_MAX = 256"
definition SCR_ROWS :: nat where "SCR_ROWS = 2000"
definition BG :: rgb where "BG = (10, 12, 28)"
definition FG :: rgb where "FG = (226, 232, 255)"
definition EMPTY_CELL :: cell where "EMPTY_CELL = \<lparr>cell_char = 32, cell_fg = FG\<rparr>"

text \<open>
  The frame buffer is its length and its bytes; the cells are an array of
  \<open>COLS_MAX * SCR_ROWS\<close>, indexed row by row.
\<close>

record console =
  buffer :: "(nat \<times> (nat \<Rightarrow> byte)) option"
  fbi :: "fb_info option"
  fg :: rgb
  bg :: rgb
  cols :: nat
  vis :: nat
  cells :: "nat \<Rightarrow> cell"
  rows :: nat
  view :: nat
  curs_col :: nat

definition empty_console :: console where
  "empty_console = \<lparr>buffer = None, fbi = None, fg = FG, bg = BG, cols = 80, vis = 25,
     cells = \<lambda>_. EMPTY_CELL, rows = 0, view = 0, curs_col = 0\<rparr>"

definition con_width :: "console \<Rightarrow> nat" where
  "con_width c = (case fbi c of Some i \<Rightarrow> fb_width i | None \<Rightarrow> 640)"

definition con_height :: "console \<Rightarrow> nat" where
  "con_height c = (case fbi c of Some i \<Rightarrow> fb_height i | None \<Rightarrow> 400)"

definition con_ready :: "console \<Rightarrow> bool" where
  "con_ready c = (buffer c \<noteq> None \<and> fbi c \<noteq> None)"

section \<open>Loops\<close>

text \<open>\<open>for i in a..b\<close> with a body that may panic.\<close>

fun for_up :: "nat \<Rightarrow> nat \<Rightarrow> (nat \<Rightarrow> 'a \<Rightarrow> 'a option) \<Rightarrow> 'a \<Rightarrow> 'a option" where
  "for_up i 0 f s = Some s"
| "for_up i (Suc n) f s = (case f i s of None \<Rightarrow> None | Some s' \<Rightarrow> for_up (i + 1) n f s')"

definition for_range :: "nat \<Rightarrow> nat \<Rightarrow> (nat \<Rightarrow> 'a \<Rightarrow> 'a option) \<Rightarrow> 'a \<Rightarrow> 'a option" where
  "for_range a b f s = for_up a (b - a) f s"

lemma for_up_inv:
  assumes "I i s" and "\<And>k s. i \<le> k \<Longrightarrow> k < i + n \<Longrightarrow> I k s \<Longrightarrow> \<exists>s'. f k s = Some s' \<and> I (k + 1) s'"
  shows "\<exists>s'. for_up i n f s = Some s' \<and> I (i + n) s'"
  using assms
proof (induction n arbitrary: i s)
  case 0
  then show ?case by simp
next
  case (Suc n)
  obtain s1 where s1: "f i s = Some s1" "I (i + 1) s1" using Suc.prems by force
  have "\<exists>s'. for_up (i + 1) n f s1 = Some s' \<and> I (i + 1 + n) s'"
    by (rule Suc.IH [OF s1(2)]) (use Suc.prems(2) in auto)
  then show ?case using s1 by simp
qed

text \<open>The rule for a loop: an invariant that holds at the start and is kept by each round.\<close>

lemma for_range_inv:
  assumes "a \<le> b" and "I a s" and "\<And>k s. a \<le> k \<Longrightarrow> k < b \<Longrightarrow> I k s \<Longrightarrow> \<exists>s'. f k s = Some s' \<and> I (k + 1) s'"
  shows "\<exists>s'. for_range a b f s = Some s' \<and> I b s'"
  using for_up_inv [of I a s "b - a" f] assms by (simp add: for_range_def)

section \<open>Pixels\<close>

definition pixel_offset :: "fb_info \<Rightarrow> nat \<Rightarrow> nat \<Rightarrow> nat" where
  "pixel_offset i x y = y * fb_stride i * fb_bpp i + x * fb_bpp i"

definition put3 :: "nat \<times> (nat \<Rightarrow> byte) \<Rightarrow> nat \<Rightarrow> byte \<Rightarrow> byte \<Rightarrow> byte \<Rightarrow> (nat \<times> (nat \<Rightarrow> byte)) option" where
  "put3 b off p q r = (if off + 2 < fst b then Some (fst b, (snd b)(off := p, off + 1 := q, off + 2 := r)) else None)"

definition put_pixel :: "nat \<Rightarrow> nat \<Rightarrow> rgb \<Rightarrow> console \<Rightarrow> console option" where
  "put_pixel x y color c = (case (fbi c, buffer c) of
     (Some i, Some b) \<Rightarrow>
       (if fb_width i \<le> x \<or> fb_height i \<le> y then Some c
        else (let off = pixel_offset i x y; (r, g, bl) = color in
          case fb_format i of
            Rgb_format \<Rightarrow> map_option (\<lambda>b'. c\<lparr>buffer := Some b'\<rparr>) (put3 b off r g bl)
          | Bgr_format \<Rightarrow> map_option (\<lambda>b'. c\<lparr>buffer := Some b'\<rparr>) (put3 b off bl g r)
          | Other_format \<Rightarrow> Some c))
   | _ \<Rightarrow> Some c)"

definition get_pixel :: "console \<Rightarrow> nat \<Rightarrow> nat \<Rightarrow> rgb option" where
  "get_pixel c x y = (case (fbi c, buffer c) of
     (Some i, Some b) \<Rightarrow>
       (if fb_width i \<le> x \<or> fb_height i \<le> y then Some (bg c)
        else (let off = pixel_offset i x y in
          case fb_format i of
            Other_format \<Rightarrow> Some (bg c)
          | fm \<Rightarrow> (if off + 2 < fst b
              then Some (if fm = Rgb_format then (snd b off, snd b (off + 1), snd b (off + 2))
                else (snd b (off + 2), snd b (off + 1), snd b off))
              else None)))
   | _ \<Rightarrow> Some (bg c))"

definition fill_rect :: "nat \<Rightarrow> nat \<Rightarrow> nat \<Rightarrow> nat \<Rightarrow> rgb \<Rightarrow> console \<Rightarrow> console option" where
  "fill_rect x0 y0 x1 y1 color = for_range y0 y1 (\<lambda>y. for_range x0 x1 (\<lambda>x. put_pixel x y color))"

definition copy_pixel :: "nat \<Rightarrow> nat \<Rightarrow> nat \<Rightarrow> nat \<Rightarrow> console \<Rightarrow> console option" where
  "copy_pixel x y x' y' c = (case get_pixel c x y of None \<Rightarrow> None | Some p \<Rightarrow> put_pixel x' y' p c)"

definition scroll_px :: "console \<Rightarrow> console option" where
  "scroll_px c = (let w = con_width c; h = con_height c in
     case for_range CELL_H h (\<lambda>y. for_range 0 w (\<lambda>x. copy_pixel x y x (y - CELL_H))) c of
       None \<Rightarrow> None
     | Some c1 \<Rightarrow> (if h < CELL_H then None else fill_rect 0 (h - CELL_H) w h (bg c1) c1))"

section \<open>Cells\<close>

definition scr_cols :: "console \<Rightarrow> nat" where
  "scr_cols c = min (cols c) COLS_MAX"

definition set_cell :: "nat \<Rightarrow> cell \<Rightarrow> console \<Rightarrow> console option" where
  "set_cell k x c = (if k < COLS_MAX * SCR_ROWS then Some (c\<lparr>cells := (cells c)(k := x)\<rparr>) else None)"

text \<open>\<open>copy_within\<close> panics when the range it moves leaves the array.\<close>

definition drop_oldest :: "console \<Rightarrow> console option" where
  "drop_oldest c =
     (if COLS_MAX * SCR_ROWS < rows c * COLS_MAX \<or> rows c * COLS_MAX < COLS_MAX then None
      else Some (c\<lparr>cells := (\<lambda>k. if k < rows c * COLS_MAX - COLS_MAX then cells c (k + COLS_MAX) else cells c k),
        rows := rows c - 1, view := (if 0 < view c then view c - 1 else view c)\<rparr>))"

definition clear_row :: "console \<Rightarrow> console option" where
  "clear_row c = (let st = (rows c - 1) * COLS_MAX in
     if COLS_MAX * SCR_ROWS < st + scr_cols c then None
     else Some (c\<lparr>cells := (\<lambda>k. if st \<le> k \<and> k < st + scr_cols c then EMPTY_CELL else cells c k), curs_col := 0\<rparr>))"

definition new_line :: "console \<Rightarrow> console option" where
  "new_line c =
     (if rows c = 0 then Some (c\<lparr>rows := 1, curs_col := 0\<rparr>)
      else (let need_px = (view c = 0 \<and> vis c \<le> rows c); c1 = c\<lparr>rows := rows c + 1\<rparr> in
        case (if SCR_ROWS < rows c1 then drop_oldest c1 else Some c1) of
          None \<Rightarrow> None
        | Some c2 \<Rightarrow> (case clear_row c2 of
            None \<Rightarrow> None
          | Some c3 \<Rightarrow> (if need_px then scroll_px c3 else Some c3))))"

definition window_start :: "console \<Rightarrow> nat" where
  "window_start c = (if rows c = 0 then 0
     else if vis c \<le> rows c then rows c - vis c - min (view c) (rows c - vis c) else 0)"

definition glyph_pixel :: "glyph \<Rightarrow> nat \<Rightarrow> nat \<Rightarrow> bool" where
  "glyph_pixel g row col = bit (g ! row) (7 - col)"

definition draw_glyph :: "glyph \<Rightarrow> nat \<Rightarrow> nat \<Rightarrow> rgb \<Rightarrow> console \<Rightarrow> console option" where
  "draw_glyph g x y color = for_range 0 (length g) (\<lambda>row. for_range 0 CELL_W (\<lambda>col c.
     if glyph_pixel g row col then put_pixel (x + col) (y + row) color c else Some c))"

definition shown_glyph :: "uchar \<Rightarrow> glyph" where
  "shown_glyph ch = (case glyph_of ch of Some g \<Rightarrow> g | None \<Rightarrow> BLOCK_GLYPH)"

definition draw_cell_at :: "nat \<Rightarrow> nat \<Rightarrow> cell \<Rightarrow> console \<Rightarrow> console option" where
  "draw_cell_at sx sy x c =
     (if \<not> con_ready c then Some c
      else (let px = sx * CELL_W; py = sy * CELL_H in
        case fill_rect px py (px + CELL_W) (py + CELL_H) (bg c) c of
          None \<Rightarrow> None
        | Some c1 \<Rightarrow> (if cell_char x \<noteq> 32
            then draw_glyph (shown_glyph (cell_char x)) px py (cell_fg x) c1 else Some c1)))"

definition cursor_location :: "console \<Rightarrow> nat \<times> nat" where
  "cursor_location c = (min (curs_col c) (scr_cols c - 1),
     if rows c = 0 then 0 else if vis c \<le> rows c - 1 then vis c - 1 else rows c - 1)"

definition wrap_if_needed :: "console \<Rightarrow> console option" where
  "wrap_if_needed c = (if scr_cols c \<le> curs_col c then new_line c else Some c)"

definition curs_line_bg :: "nat \<Rightarrow> nat \<Rightarrow> console \<Rightarrow> console option" where
  "curs_line_bg sx sy c =
     (case (if 0 < rows c then set_cell ((rows c - 1) * COLS_MAX + sx) EMPTY_CELL c else Some c) of
       None \<Rightarrow> None
     | Some c1 \<Rightarrow> draw_cell_at sx sy EMPTY_CELL c1)"

section \<open>Operations\<close>

definition paint :: "console \<Rightarrow> console option" where
  "paint c =
     (if \<not> con_ready c then Some c
      else (case fill_rect 0 0 (con_width c) (con_height c) (bg c) c of
         None \<Rightarrow> None
       | Some c1 \<Rightarrow> (let a = window_start c1 in
           for_range 0 (min (vis c1) (rows c1 - a)) (\<lambda>sy. for_range 0 (scr_cols c1) (\<lambda>sx c2.
             let k = (a + sy) * COLS_MAX + sx in
             if COLS_MAX * SCR_ROWS \<le> k then None
             else if cell_char (cells c2 k) \<noteq> 32 then draw_cell_at sx sy (cells c2 k) c2 else Some c2)) c1)))"

definition write_char :: "uchar \<Rightarrow> console \<Rightarrow> console option" where
  "write_char ch c0 =
     (case (if view c0 \<noteq> 0 then paint (c0\<lparr>view := 0\<rparr>) else Some c0) of
        None \<Rightarrow> None
      | Some c \<Rightarrow>
         (if ch = 10 then (case new_line c of
              None \<Rightarrow> None
            | Some c1 \<Rightarrow> (if 0 < rows c1
                then curs_line_bg (fst (cursor_location c1)) (snd (cursor_location c1)) c1 else Some c1))
          else if ch = 13 then Some (c\<lparr>curs_col := 0\<rparr>)
          else (case wrap_if_needed c of
              None \<Rightarrow> None
            | Some c1 \<Rightarrow>
               (let c2 = (if rows c1 = 0 then c1\<lparr>rows := 1\<rparr> else c1); k = (rows c2 - 1) * COLS_MAX + curs_col c2 in
                case set_cell k \<lparr>cell_char = ch, cell_fg = fg c2\<rparr> c2 of
                  None \<Rightarrow> None
                | Some c3 \<Rightarrow>
                   (case draw_cell_at (fst (cursor_location c3)) (snd (cursor_location c3)) (cells c3 k) c3 of
                      None \<Rightarrow> None
                    | Some c4 \<Rightarrow> Some (c4\<lparr>curs_col := min (curs_col c4 + 1) (scr_cols c4)\<rparr>))))))"

fun write_str :: "uchar list \<Rightarrow> console \<Rightarrow> console option" where
  "write_str [] c = Some c"
| "write_str (ch # s) c = (case write_char ch c of None \<Rightarrow> None | Some c' \<Rightarrow> write_str s c')"

definition clear_screen :: "console \<Rightarrow> console option" where
  "clear_screen c =
     (if \<not> con_ready c then Some c
      else map_option (\<lambda>c1. c1\<lparr>cells := (\<lambda>k. if k < COLS_MAX * SCR_ROWS then EMPTY_CELL else cells c1 k),
          rows := 0, view := 0, curs_col := 0\<rparr>)
        (fill_rect 0 0 (con_width c) (con_height c) (bg c) c))"

definition backspace_at :: "console \<Rightarrow> console option" where
  "backspace_at c =
     (if rows c = 0 then Some c
      else if 0 < curs_col c then
        (let c1 = c\<lparr>curs_col := curs_col c - 1\<rparr> in
         case set_cell ((rows c1 - 1) * COLS_MAX + curs_col c1) EMPTY_CELL c1 of
           None \<Rightarrow> None
         | Some c2 \<Rightarrow> draw_cell_at (fst (cursor_location c2)) (snd (cursor_location c2)) EMPTY_CELL c2)
      else Some c)"

definition console_init :: "nat \<times> (nat \<Rightarrow> byte) \<Rightarrow> fb_info \<Rightarrow> console \<Rightarrow> console option" where
  "console_init b i c = clear_screen (c\<lparr>buffer := Some b, fbi := Some i,
     cols := max 1 (min (fb_width i div CELL_W) COLS_MAX), vis := max 1 (min (fb_height i div CELL_H) SCR_ROWS)\<rparr>)"

definition set_colors :: "rgb \<Rightarrow> rgb \<Rightarrow> console \<Rightarrow> console" where
  "set_colors f b c = c\<lparr>fg := f, bg := b\<rparr>"

definition set_fg :: "rgb \<Rightarrow> console \<Rightarrow> console" where
  "set_fg f c = c\<lparr>fg := f\<rparr>"

definition reset_colors :: "console \<Rightarrow> console" where
  "reset_colors c = c\<lparr>fg := FG, bg := BG\<rparr>"

definition tty_page_up :: "console \<Rightarrow> console option" where
  "tty_page_up c = paint (c\<lparr>view := min (view c + vis c) (rows c - vis c)\<rparr>)"

definition tty_page_down :: "console \<Rightarrow> console option" where
  "tty_page_down c = paint (c\<lparr>view := view c - vis c\<rparr>)"

definition tty_home :: "console \<Rightarrow> console option" where
  "tty_home c = paint (c\<lparr>view := rows c - vis c\<rparr>)"

definition tty_end :: "console \<Rightarrow> console option" where
  "tty_end c = paint (c\<lparr>view := 0\<rparr>)"
section \<open>What a drawing operation does to the pixels\<close>

definition layout_ok :: "console \<Rightarrow> bool" where
  "layout_ok c = (\<exists>i b. fbi c = Some i \<and> buffer c = Some b \<and> fb_format i \<noteq> Other_format \<and> 3 \<le> fb_bpp i \<and>
     fb_width i \<le> fb_stride i \<and> fb_height i * fb_stride i * fb_bpp i \<le> fst b)"

text \<open>
  \<open>draws c F c'\<close>: from \<open>c\<close> to \<open>c'\<close> only the frame buffer has changed, and it now shows \<open>F\<close>.
\<close>

definition draws :: "console \<Rightarrow> (nat \<Rightarrow> nat \<Rightarrow> rgb) \<Rightarrow> console \<Rightarrow> bool" where
  "draws c F c' = (layout_ok c' \<and> c' = c\<lparr>buffer := buffer c'\<rparr> \<and>
     (\<forall>x < con_width c. \<forall>y < con_height c. get_pixel c' x y = Some (F x y)))"

lemma draws_cong:
  "draws c F c' \<Longrightarrow> (\<And>x y. x < con_width c \<Longrightarrow> y < con_height c \<Longrightarrow> F x y = G x y) \<Longrightarrow> draws c G c'"
  by (simp add: draws_def)

lemma draws_fields:
  assumes "draws c F c'"
  shows "fbi c' = fbi c" "fg c' = fg c" "bg c' = bg c" "cols c' = cols c" "vis c' = vis c" "cells c' = cells c"
    "rows c' = rows c" "view c' = view c" "curs_col c' = curs_col c" "layout_ok c'"
    "con_width c' = con_width c" "con_height c' = con_height c" "scr_cols c' = scr_cols c"
    "window_start c' = window_start c" "con_ready c'"
proof -
  have e: "c' = c\<lparr>buffer := buffer c'\<rparr>" and l: "layout_ok c'" using assms by (simp_all add: draws_def)
  show "fbi c' = fbi c" "fg c' = fg c" "bg c' = bg c" "cols c' = cols c" "vis c' = vis c" "cells c' = cells c"
    "rows c' = rows c" "view c' = view c" "curs_col c' = curs_col c"
    by (subst e, simp)+
  then show "con_width c' = con_width c" "con_height c' = con_height c" "scr_cols c' = scr_cols c"
    "window_start c' = window_start c"
    by (simp_all add: con_width_def con_height_def scr_cols_def window_start_def)
  show "layout_ok c'" by (rule l)
  then show "con_ready c'" by (auto simp: con_ready_def layout_ok_def)
qed

text \<open>Two pixels of the screen never share a byte.\<close>

lemma pixel_offset_eq: "pixel_offset i x y = (y * fb_stride i + x) * fb_bpp i"
  by (simp add: pixel_offset_def algebra_simps)

lemma pixel_apart:
  assumes "x < fb_stride i" and "x' < fb_stride i" and "3 \<le> fb_bpp i" and "x' \<noteq> x \<or> y' \<noteq> y"
  shows "pixel_offset i x' y' + 2 < pixel_offset i x y \<or> pixel_offset i x y + 2 < pixel_offset i x' y'"
proof -
  let ?n = "y * fb_stride i + x" and ?n' = "y' * fb_stride i + x'"
  have "?n \<noteq> ?n'"
  proof
    assume e: "?n = ?n'"
    have "?n div fb_stride i = y" "?n mod fb_stride i = x" "?n' div fb_stride i = y'" "?n' mod fb_stride i = x'"
      using assms(1,2) by simp_all
    then show False using e assms(4) by metis
  qed
  then consider "?n + 1 \<le> ?n'" | "?n' + 1 \<le> ?n" by linarith
  then show ?thesis
  proof cases
    case 1
    then have "(?n + 1) * fb_bpp i \<le> ?n' * fb_bpp i" by (rule mult_le_mono1)
    then show ?thesis using assms(3) by (simp add: pixel_offset_eq algebra_simps)
  next
    case 2
    then have "(?n' + 1) * fb_bpp i \<le> ?n * fb_bpp i" by (rule mult_le_mono1)
    then show ?thesis using assms(3) by (simp add: pixel_offset_eq algebra_simps)
  qed
qed

lemma pixel_inside:
  assumes "x < fb_width i" and "y < fb_height i" and "fb_width i \<le> fb_stride i" and "3 \<le> fb_bpp i"
  shows "pixel_offset i x y + 2 < fb_height i * fb_stride i * fb_bpp i"
proof -
  have "y * fb_stride i + x + 1 \<le> (y + 1) * fb_stride i" using assms by simp
  also have "\<dots> \<le> fb_height i * fb_stride i" using assms by (intro mult_le_mono1) simp
  finally have "(y * fb_stride i + x + 1) * fb_bpp i \<le> fb_height i * fb_stride i * fb_bpp i"
    by (rule mult_le_mono1)
  then show ?thesis using assms(4) by (simp add: pixel_offset_eq algebra_simps)
qed

lemma put_pixel_draws:
  assumes "draws c F c1"
  shows "\<exists>c2. put_pixel x y col c1 = Some c2 \<and> draws c (\<lambda>x' y'. if x' = x \<and> y' = y then col else F x' y') c2"
proof -
  have l: "layout_ok c1" and e: "c1 = c\<lparr>buffer := buffer c1\<rparr>"
    and px: "\<And>x y. x < con_width c \<Longrightarrow> y < con_height c \<Longrightarrow> get_pixel c1 x y = Some (F x y)"
    using assms by (auto simp: draws_def)
  obtain i b where i: "fbi c1 = Some i" "buffer c1 = Some b" "fb_format i \<noteq> Other_format" "3 \<le> fb_bpp i"
    "fb_width i \<le> fb_stride i" "fb_height i * fb_stride i * fb_bpp i \<le> fst b"
    using l by (auto simp: layout_ok_def)
  have wh: "con_width c = fb_width i" "con_height c = fb_height i"
    using draws_fields(11,12) [OF assms] i(1) by (simp_all add: con_width_def con_height_def)
  show ?thesis
  proof (cases "x < fb_width i \<and> y < fb_height i")
    case False
    then have "put_pixel x y col c1 = Some c1" using i by (auto simp: put_pixel_def)
    moreover have "draws c (\<lambda>x' y'. if x' = x \<and> y' = y then col else F x' y') c1"
      by (rule draws_cong [OF assms]) (use False wh in auto)
    ultimately show ?thesis by blast
  next
    case True
    obtain r g bl where col: "col = (r, g, bl)" by (cases col)
    have ins: "pixel_offset i x' y' + 2 < fst b" if "x' < fb_width i" "y' < fb_height i" for x' y'
      using pixel_inside [OF that i(5,4)] i(6) by linarith
    define p q s where "p = (if fb_format i = Rgb_format then r else bl)" and "q = g"
      and "s = (if fb_format i = Rgb_format then bl else r)"
    let ?off = "pixel_offset i x y"
    define b2 where "b2 = (fst b, (snd b)(?off := p, ?off + 1 := q, ?off + 2 := s))"
    define c2 where "c2 = c1\<lparr>buffer := Some b2\<rparr>"
    have w: "put_pixel x y col c1 = Some c2"
      using True i ins [of x y] col
      by (cases "fb_format i") (simp_all add: put_pixel_def put3_def Let_def c2_def b2_def p_def q_def s_def)
    have f2: "fbi c2 = Some i" "buffer c2 = Some b2" using i by (simp_all add: c2_def)
    have "get_pixel c2 x' y' = Some (if x' = x \<and> y' = y then col else F x' y')"
      if b': "x' < fb_width i" "y' < fb_height i" for x' y'
    proof (cases "x' = x \<and> y' = y")
      case True
      then show ?thesis using f2 i b' ins [OF b'] col
        by (cases "fb_format i") (simp_all add: get_pixel_def Let_def b2_def p_def q_def s_def)
    next
      case False
      then have ap: "pixel_offset i x' y' + 2 < ?off \<or> ?off + 2 < pixel_offset i x' y'"
        using pixel_apart [of x i x' y' y] True b' i(4,5) by auto
      then have "snd b2 (pixel_offset i x' y' + k) = snd b (pixel_offset i x' y' + k)" if "k \<le> 2" for k
        using that by (auto simp: b2_def)
      from this [of 0] this [of 1] this [of 2]
      have "get_pixel c2 x' y' = get_pixel c1 x' y'"
        using f2 i b' ins [OF b'] by (cases "fb_format i") (simp_all add: get_pixel_def Let_def b2_def c2_def)
      then show ?thesis using False px b' wh by auto
    qed
    moreover have "layout_ok c2" using f2 i by (auto simp: layout_ok_def b2_def)
    moreover have "c2 = c\<lparr>buffer := buffer c2\<rparr>" by (simp add: c2_def) (subst e, simp)
    ultimately show ?thesis using w wh by (auto simp: draws_def)
  qed
qed

lemma fill_rect_draws:
  assumes "draws c F c1" and "x0 \<le> x1" and "y0 \<le> y1"
  shows "\<exists>c2. fill_rect x0 y0 x1 y1 col c1 = Some c2 \<and>
     draws c (\<lambda>x y. if x0 \<le> x \<and> x < x1 \<and> y0 \<le> y \<and> y < y1 then col else F x y) c2"
proof -
  have row: "\<exists>c'. for_range x0 x1 (\<lambda>x. put_pixel x y col) cc = Some c' \<and>
      draws c (\<lambda>x' y'. if x0 \<le> x' \<and> x' < x1 \<and> y' = y then col else G x' y') c'"
    if "draws c G cc" for y G cc
  proof (rule for_range_inv [where I = "\<lambda>k c'. draws c (\<lambda>x' y'. if x0 \<le> x' \<and> x' < k \<and> y' = y then col else G x' y') c'"])
    show "x0 \<le> x1" by (rule assms(2))
    show "draws c (\<lambda>x' y'. if x0 \<le> x' \<and> x' < x0 \<and> y' = y then col else G x' y') cc"
      by (rule draws_cong [OF that]) auto
    fix k c' assume "x0 \<le> k" "k < x1" and d: "draws c (\<lambda>x' y'. if x0 \<le> x' \<and> x' < k \<and> y' = y then col else G x' y') c'"
    from put_pixel_draws [OF d, of k y col] obtain c2 where "put_pixel k y col c' = Some c2"
      and d2: "draws c (\<lambda>x' y'. if x' = k \<and> y' = y then col
        else if x0 \<le> x' \<and> x' < k \<and> y' = y then col else G x' y') c2" by blast
    moreover have "draws c (\<lambda>x' y'. if x0 \<le> x' \<and> x' < k + 1 \<and> y' = y then col else G x' y') c2"
      by (rule draws_cong [OF d2]) (use \<open>x0 \<le> k\<close> in auto)
    ultimately show "\<exists>s'. put_pixel k y col c' = Some s' \<and>
        draws c (\<lambda>x' y'. if x0 \<le> x' \<and> x' < k + 1 \<and> y' = y then col else G x' y') s'" by blast
  qed
  show ?thesis unfolding fill_rect_def
  proof (rule for_range_inv [where I = "\<lambda>k c'. draws c (\<lambda>x y. if x0 \<le> x \<and> x < x1 \<and> y0 \<le> y \<and> y < k then col else F x y) c'"])
    show "y0 \<le> y1" by (rule assms(3))
    show "draws c (\<lambda>x y. if x0 \<le> x \<and> x < x1 \<and> y0 \<le> y \<and> y < y0 then col else F x y) c1"
      by (rule draws_cong [OF assms(1)]) auto
    fix k c' assume "y0 \<le> k" "k < y1"
      and d: "draws c (\<lambda>x y. if x0 \<le> x \<and> x < x1 \<and> y0 \<le> y \<and> y < k then col else F x y) c'"
    from row [OF d, of k] obtain c2 where "for_range x0 x1 (\<lambda>x. put_pixel x k col) c' = Some c2"
      and d2: "draws c (\<lambda>x' y'. if x0 \<le> x' \<and> x' < x1 \<and> y' = k then col
        else if x0 \<le> x' \<and> x' < x1 \<and> y0 \<le> y' \<and> y' < k then col else F x' y') c2" by blast
    moreover have "draws c (\<lambda>x y. if x0 \<le> x \<and> x < x1 \<and> y0 \<le> y \<and> y < k + 1 then col else F x y) c2"
      by (rule draws_cong [OF d2]) (use \<open>y0 \<le> k\<close> in auto)
    ultimately show "\<exists>s'. for_range x0 x1 (\<lambda>x. put_pixel x k col) c' = Some s' \<and>
        draws c (\<lambda>x y. if x0 \<le> x \<and> x < x1 \<and> y0 \<le> y \<and> y < k + 1 then col else F x y) s'" by blast
  qed
qed

lemma draw_glyph_draws:
  assumes "draws c F c1"
  shows "\<exists>c2. draw_glyph g px py col c1 = Some c2 \<and>
     draws c (\<lambda>x y. if px \<le> x \<and> x < px + CELL_W \<and> py \<le> y \<and> y < py + length g \<and> glyph_pixel g (y - py) (x - px)
       then col else F x y) c2"
proof -
  let ?D = "\<lambda>n m x y. px \<le> x \<and> x < px + CELL_W \<and> py \<le> y \<and>
      (y < py + n \<or> y = py + n \<and> x < px + m) \<and> glyph_pixel g (y - py) (x - px)"
  have row: "\<exists>c'. for_range 0 CELL_W (\<lambda>col' c. if glyph_pixel g k col' then put_pixel (px + col') (py + k) col c else Some c) cc = Some c' \<and>
      draws c (\<lambda>x y. if ?D k CELL_W x y then col else F x y) c'"
    if "draws c (\<lambda>x y. if ?D k 0 x y then col else F x y) cc" for k cc
  proof (rule for_range_inv [where I = "\<lambda>m c'. draws c (\<lambda>x y. if ?D k m x y then col else F x y) c'"])
    show "0 \<le> CELL_W" by simp
    show "draws c (\<lambda>x y. if ?D k 0 x y then col else F x y) cc" by (rule that)
    fix m c' assume m: "m < CELL_W" and d: "draws c (\<lambda>x y. if ?D k m x y then col else F x y) c'"
    let ?body = "if glyph_pixel g k m then put_pixel (px + m) (py + k) col c' else Some c'"
    show "\<exists>s'. ?body = Some s' \<and> draws c (\<lambda>x y. if ?D k (m + 1) x y then col else F x y) s'"
    proof (cases "glyph_pixel g k m")
      case True
      from put_pixel_draws [OF d, of "px + m" "py + k" col] obtain c2 where
        p: "put_pixel (px + m) (py + k) col c' = Some c2"
        and d2: "draws c (\<lambda>x y. if x = px + m \<and> y = py + k then col else if ?D k m x y then col else F x y) c2" by blast
      have "draws c (\<lambda>x y. if ?D k (m + 1) x y then col else F x y) c2"
        by (rule draws_cong [OF d2]) (use True m in \<open>auto simp: less_Suc_eq\<close>)
      then show ?thesis using True p by auto
    next
      case False
      have "draws c (\<lambda>x y. if ?D k (m + 1) x y then col else F x y) c'"
        by (rule draws_cong [OF d]) (use False in \<open>auto simp: less_Suc_eq\<close>)
      then show ?thesis using False by simp
    qed
  qed
  have "\<exists>c2. draw_glyph g px py col c1 = Some c2 \<and> draws c (\<lambda>x y. if ?D (length g) 0 x y then col else F x y) c2"
    unfolding draw_glyph_def
  proof (rule for_range_inv [where I = "\<lambda>k c'. draws c (\<lambda>x y. if ?D k 0 x y then col else F x y) c'"])
    show "0 \<le> length g" by simp
    show "draws c (\<lambda>x y. if ?D 0 0 x y then col else F x y) c1" by (rule draws_cong [OF assms]) auto
    fix k c' assume d: "draws c (\<lambda>x y. if ?D k 0 x y then col else F x y) c'"
    from row [OF d] obtain c2 where
      r: "for_range 0 CELL_W (\<lambda>col' c. if glyph_pixel g k col' then put_pixel (px + col') (py + k) col c else Some c) c' = Some c2"
      and d2: "draws c (\<lambda>x y. if ?D k CELL_W x y then col else F x y) c2" by blast
    have "draws c (\<lambda>x y. if ?D (k + 1) 0 x y then col else F x y) c2"
      by (rule draws_cong [OF d2]) (auto simp: less_Suc_eq)
    with r show "\<exists>s'. for_range 0 CELL_W (\<lambda>col' c. if glyph_pixel g k col' then put_pixel (px + col') (py + k) col c else Some c) c' = Some s' \<and>
        draws c (\<lambda>x y. if ?D (k + 1) 0 x y then col else F x y) s'" by blast
  qed
  then obtain c2 where g: "draw_glyph g px py col c1 = Some c2"
    and d: "draws c (\<lambda>x y. if ?D (length g) 0 x y then col else F x y) c2" by blast
  have "draws c (\<lambda>x y. if px \<le> x \<and> x < px + CELL_W \<and> py \<le> y \<and> y < py + length g \<and> glyph_pixel g (y - py) (x - px)
       then col else F x y) c2"
    by (rule draws_cong [OF d]) auto
  with g show ?thesis by blast
qed

text \<open>The picture of a cell, and what drawing it does.\<close>

definition cell_image :: "rgb \<Rightarrow> cell \<Rightarrow> nat \<Rightarrow> nat \<Rightarrow> rgb" where
  "cell_image b x row col = (if cell_char x \<noteq> 32 \<and> glyph_pixel (shown_glyph (cell_char x)) row col then cell_fg x else b)"

lemma shown_glyph_length: "length (shown_glyph ch) = 16"
  by (auto simp: shown_glyph_def glyph_length block_glyph_length split: option.split)

lemma draw_cell_draws:
  assumes "draws c F c1"
  shows "\<exists>c2. draw_cell_at sx sy x c1 = Some c2 \<and>
     draws c (\<lambda>x' y'. if x' div 8 = sx \<and> y' div 16 = sy then cell_image (bg c) x (y' mod 16) (x' mod 8) else F x' y') c2"
proof -
  have cell: "(sx * CELL_W \<le> x' \<and> x' < sx * CELL_W + CELL_W \<and> sy * CELL_H \<le> y' \<and> y' < sy * CELL_H + CELL_H) \<longleftrightarrow>
      x' div 8 = sx \<and> y' div 16 = sy" for x' y'
    by (auto simp: CELL_W_def CELL_H_def)
  have md: "x' div 8 = sx \<Longrightarrow> x' - sx * CELL_W = x' mod 8" "y' div 16 = sy \<Longrightarrow> y' - sy * CELL_H = y' mod 16" for x' y'
    by (auto simp: CELL_W_def CELL_H_def minus_div_mult_eq_mod [symmetric])
  note f = draws_fields [OF assms]
  from fill_rect_draws [OF assms, of "sx * CELL_W" "sx * CELL_W + CELL_W" "sy * CELL_H" "sy * CELL_H + CELL_H" "bg c"]
  obtain c2 where r: "fill_rect (sx * CELL_W) (sy * CELL_H) (sx * CELL_W + CELL_W) (sy * CELL_H + CELL_H) (bg c) c1 = Some c2"
    and d: "draws c (\<lambda>x' y'. if sx * CELL_W \<le> x' \<and> x' < sx * CELL_W + CELL_W \<and> sy * CELL_H \<le> y' \<and> y' < sy * CELL_H + CELL_H
      then bg c else F x' y') c2" by auto
  show ?thesis
  proof (cases "cell_char x = 32")
    case True
    have "draws c (\<lambda>x' y'. if x' div 8 = sx \<and> y' div 16 = sy then cell_image (bg c) x (y' mod 16) (x' mod 8) else F x' y') c2"
      by (rule draws_cong [OF d]) (use cell True in \<open>auto simp: cell_image_def\<close>)
    then show ?thesis using r True f by (simp add: draw_cell_at_def Let_def)
  next
    case False
    let ?g = "shown_glyph (cell_char x)"
    from draw_glyph_draws [OF d, of ?g "sx * CELL_W" "sy * CELL_H" "cell_fg x"] obtain c3 where
      g: "draw_glyph ?g (sx * CELL_W) (sy * CELL_H) (cell_fg x) c2 = Some c3"
      and d3: "draws c (\<lambda>x' y'. if sx * CELL_W \<le> x' \<and> x' < sx * CELL_W + CELL_W \<and> sy * CELL_H \<le> y' \<and> y' < sy * CELL_H + length ?g \<and>
          glyph_pixel ?g (y' - sy * CELL_H) (x' - sx * CELL_W) then cell_fg x
        else if sx * CELL_W \<le> x' \<and> x' < sx * CELL_W + CELL_W \<and> sy * CELL_H \<le> y' \<and> y' < sy * CELL_H + CELL_H
          then bg c else F x' y') c3" by blast
    have len: "length ?g = CELL_H" by (simp add: shown_glyph_length CELL_H_def)
    have "draws c (\<lambda>x' y'. if x' div 8 = sx \<and> y' div 16 = sy then cell_image (bg c) x (y' mod 16) (x' mod 8) else F x' y') c3"
    proof (rule draws_cong [OF d3])
      fix x' y'
      show "(if sx * CELL_W \<le> x' \<and> x' < sx * CELL_W + CELL_W \<and> sy * CELL_H \<le> y' \<and> y' < sy * CELL_H + length ?g \<and>
          glyph_pixel ?g (y' - sy * CELL_H) (x' - sx * CELL_W) then cell_fg x
        else if sx * CELL_W \<le> x' \<and> x' < sx * CELL_W + CELL_W \<and> sy * CELL_H \<le> y' \<and> y' < sy * CELL_H + CELL_H
          then bg c else F x' y') =
        (if x' div 8 = sx \<and> y' div 16 = sy then cell_image (bg c) x (y' mod 16) (x' mod 8) else F x' y')"
        unfolding len using cell [of x' y'] md(1) [of x'] md(2) [of y'] False
        by (cases "x' div 8 = sx \<and> y' div 16 = sy") (auto simp: cell_image_def)
    qed
    then show ?thesis using r g False f by (simp add: draw_cell_at_def Let_def)
  qed
qed

lemma scroll_draws:
  assumes "draws c F c1" and "16 \<le> con_height c"
  shows "\<exists>c2. scroll_px c1 = Some c2 \<and>
     draws c (\<lambda>x y. if y + 16 < con_height c then F x (y + 16) else bg c) c2"
proof -
  let ?w = "con_width c" and ?h = "con_height c"
  let ?G = "\<lambda>k m x y. if y + 16 < k \<or> y + 16 = k \<and> x < m then F x (y + 16) else F x y"
  note f = draws_fields [OF assms(1)]
  have row: "\<exists>c'. for_range 0 ?w (\<lambda>x. copy_pixel x k x (k - CELL_H)) cc = Some c' \<and> draws c (?G k ?w) c'"
    if d0: "draws c (?G k 0) cc" and k: "16 \<le> k" "k < ?h" for k cc
  proof (rule for_range_inv [where I = "\<lambda>m c'. draws c (?G k m) c'"])
    show "0 \<le> ?w" by simp
    show "draws c (?G k 0) cc" by (rule d0)
    fix m c' assume m: "m < ?w" and d: "draws c (?G k m) c'"
    have "get_pixel c' m k = Some (F m k)" using d m k by (simp add: draws_def)
    moreover from put_pixel_draws [OF d, of m "k - 16" "F m k"] obtain c2 where
      p: "put_pixel m (k - 16) (F m k) c' = Some c2"
      and d2: "draws c (\<lambda>x y. if x = m \<and> y = k - 16 then F m k else ?G k m x y) c2" by blast
    moreover have "draws c (?G k (m + 1)) c2"
      by (rule draws_cong [OF d2]) (use k in \<open>auto simp: less_Suc_eq\<close>)
    ultimately show "\<exists>s'. copy_pixel m k m (k - CELL_H) c' = Some s' \<and> draws c (?G k (m + 1)) s'"
      by (simp add: copy_pixel_def CELL_H_def)
  qed
  have "\<exists>c'. for_range CELL_H ?h (\<lambda>y. for_range 0 ?w (\<lambda>x. copy_pixel x y x (y - CELL_H))) c1 = Some c' \<and> draws c (?G ?h 0) c'"
  proof (rule for_range_inv [where I = "\<lambda>k c'. draws c (?G k 0) c'"])
    show "CELL_H \<le> ?h" using assms(2) by (simp add: CELL_H_def)
    show "draws c (?G CELL_H 0) c1" by (rule draws_cong [OF assms(1)]) (simp add: CELL_H_def)
    fix k c' assume k: "CELL_H \<le> k" "k < ?h" and d: "draws c (?G k 0) c'"
    from row [OF d] k obtain c2 where "for_range 0 ?w (\<lambda>x. copy_pixel x k x (k - CELL_H)) c' = Some c2"
      and d2: "draws c (?G k ?w) c2" by (auto simp: CELL_H_def)
    moreover have "draws c (?G (k + 1) 0) c2" by (rule draws_cong [OF d2]) (auto simp: less_Suc_eq)
    ultimately show "\<exists>s'. for_range 0 ?w (\<lambda>x. copy_pixel x k x (k - CELL_H)) c' = Some s' \<and> draws c (?G (k + 1) 0) s'"
      by blast
  qed
  then obtain c2 where l: "for_range CELL_H ?h (\<lambda>y. for_range 0 ?w (\<lambda>x. copy_pixel x y x (y - CELL_H))) c1 = Some c2"
    and d: "draws c (?G ?h 0) c2" by blast
  note f2 = draws_fields [OF d]
  from fill_rect_draws [OF d, of 0 ?w "?h - CELL_H" ?h "bg c"] obtain c3 where
    r: "fill_rect 0 (?h - CELL_H) ?w ?h (bg c) c2 = Some c3"
    and d3: "draws c (\<lambda>x y. if 0 \<le> x \<and> x < ?w \<and> ?h - CELL_H \<le> y \<and> y < ?h then bg c else ?G ?h 0 x y) c3" by auto
  have "draws c (\<lambda>x y. if y + 16 < ?h then F x (y + 16) else bg c) c3"
    by (rule draws_cong [OF d3]) (use assms(2) in \<open>auto simp: CELL_H_def\<close>)
  moreover have "scroll_px c1 = Some c3"
    using l r f f2 assms(2) by (simp add: scroll_px_def Let_def CELL_H_def)
  ultimately show ?thesis by blast
qed

section \<open>What the screen should show\<close>

text \<open>
  The visible window of the scrollback, cell by cell, on the background; nothing outside the
  cells.
\<close>

definition screen_image :: "console \<Rightarrow> nat \<Rightarrow> nat \<Rightarrow> rgb" where
  "screen_image c x y = (let sx = x div 8; sy = y div 16; row = window_start c + sy in
     if sx < scr_cols c \<and> sy < vis c \<and> row < rows c
     then cell_image (bg c) (cells c (row * COLS_MAX + sx)) (y mod 16) (x mod 8) else bg c)"

definition synced :: "console \<Rightarrow> bool" where
  "synced c = draws c (screen_image c) c"

definition con_wf :: "console \<Rightarrow> bool" where
  "con_wf c = (layout_ok c \<and> 16 \<le> con_height c \<and> 1 \<le> scr_cols c \<and> 1 \<le> vis c \<and> vis c \<le> SCR_ROWS \<and>
     vis c * 16 \<le> con_height c \<and> rows c \<le> SCR_ROWS \<and> curs_col c \<le> scr_cols c \<and> view c \<le> rows c - vis c \<and>
     (rows c = 0 \<longrightarrow> (\<forall>k < COLS_MAX. cells c k = EMPTY_CELL)))"

definition con_ok :: "console \<Rightarrow> bool" where
  "con_ok c = (con_wf c \<and> synced c)"

lemma draws_self: "layout_ok c \<Longrightarrow> \<exists>F. draws c F c"
proof -
  assume l: "layout_ok c"
  have "get_pixel c x y \<noteq> None" if "x < con_width c" "y < con_height c" for x y
  proof -
    obtain i b where i: "fbi c = Some i" "buffer c = Some b" "fb_format i \<noteq> Other_format" "3 \<le> fb_bpp i"
      "fb_width i \<le> fb_stride i" "fb_height i * fb_stride i * fb_bpp i \<le> fst b"
      using l by (auto simp: layout_ok_def)
    then have xy: "x < fb_width i" "y < fb_height i" using that by (simp_all add: con_width_def con_height_def)
    then show ?thesis using pixel_inside [OF xy i(5,4)] i
      by (cases "fb_format i") (simp_all add: get_pixel_def Let_def)
  qed
  then have "draws c (\<lambda>x y. the (get_pixel c x y)) c" using l by (auto simp: draws_def)
  then show ?thesis by blast
qed

lemma cell_image_space: "cell_char x = 32 \<Longrightarrow> cell_image b x r k = b"
  by (simp add: cell_image_def)

lemma cell_index: "r < SCR_ROWS \<Longrightarrow> k < COLS_MAX \<Longrightarrow> r * COLS_MAX + k < COLS_MAX * SCR_ROWS"
proof -
  assume r: "r < SCR_ROWS" and k: "k < COLS_MAX"
  have "(r + 1) * COLS_MAX \<le> SCR_ROWS * COLS_MAX" using r by (intro mult_le_mono1) simp
  then show ?thesis using k by (simp add: algebra_simps)
qed

lemma paint_draws:
  assumes "draws c F c1" and "rows c \<le> SCR_ROWS"
  shows "\<exists>c2. paint c1 = Some c2 \<and> draws c (screen_image c) c2"
proof -
  let ?a = "window_start c"
  let ?S = "\<lambda>k m x y. if y div 16 < k \<or> y div 16 = k \<and> x div 8 < m then screen_image c x y else bg c"
  note f = draws_fields [OF assms(1)]
  from fill_rect_draws [OF assms(1), of 0 "con_width c" 0 "con_height c" "bg c"] obtain c2 where
    r: "fill_rect 0 0 (con_width c) (con_height c) (bg c) c1 = Some c2"
    and d: "draws c (\<lambda>x y. if 0 \<le> x \<and> x < con_width c \<and> 0 \<le> y \<and> y < con_height c then bg c else F x y) c2" by auto
  have d2: "draws c (\<lambda>x y. bg c) c2" by (rule draws_cong [OF d]) simp
  note f2 = draws_fields [OF d2]
  let ?body = "\<lambda>sy sx c2. let k = (?a + sy) * COLS_MAX + sx in
             if COLS_MAX * SCR_ROWS \<le> k then None
             else if cell_char (cells c2 k) \<noteq> 32 then draw_cell_at sx sy (cells c2 k) c2 else Some c2"
  have row: "\<exists>c'. for_range 0 (scr_cols c) (?body k) cc = Some c' \<and> draws c (?S k (scr_cols c)) c'"
    if d0: "draws c (?S k 0) cc" and k: "k < min (vis c) (rows c - ?a)" for k cc
  proof (rule for_range_inv [where I = "\<lambda>m c'. draws c (?S k m) c'"])
    show "0 \<le> scr_cols c" by simp
    show "draws c (?S k 0) cc" by (rule d0)
    fix m c' assume m: "m < scr_cols c" and dm: "draws c (?S k m) c'"
    let ?n = "(?a + k) * COLS_MAX + m"
    have cl: "cells c' = cells c" using draws_fields(6) [OF dm] .
    have n: "?n < COLS_MAX * SCR_ROWS"
      by (rule cell_index) (use k m assms(2) in \<open>auto simp: scr_cols_def\<close>)
    have img: "screen_image c x y = cell_image (bg c) (cells c ?n) (y mod 16) (x mod 8)"
      if "y div 16 = k" "x div 8 = m" for x y
    proof -
      have "?a + k < rows c" using k by linarith
      then show ?thesis using that k m by (simp add: screen_image_def Let_def)
    qed
    show "\<exists>s'. ?body k m c' = Some s' \<and> draws c (?S k (m + 1)) s'"
    proof (cases "cell_char (cells c ?n) = 32")
      case True
      have "draws c (?S k (m + 1)) c'"
      proof (rule draws_cong [OF dm])
        fix x y show "?S k m x y = ?S k (m + 1) x y"
          by (cases "y div 16 = k"; cases "x div 8 = m") (simp_all add: img cell_image_space True less_Suc_eq)
      qed
      then show ?thesis using True n cl by (simp add: Let_def)
    next
      case False
      from draw_cell_draws [OF dm, of m k "cells c ?n"] obtain c3 where
        g: "draw_cell_at m k (cells c ?n) c' = Some c3"
        and d3: "draws c (\<lambda>x' y'. if x' div 8 = m \<and> y' div 16 = k then cell_image (bg c) (cells c ?n) (y' mod 16) (x' mod 8)
          else ?S k m x' y') c3" by blast
      have "draws c (?S k (m + 1)) c3"
      proof (rule draws_cong [OF d3])
        fix x y show "(if x div 8 = m \<and> y div 16 = k then cell_image (bg c) (cells c ?n) (y mod 16) (x mod 8)
            else ?S k m x y) = ?S k (m + 1) x y"
          by (cases "y div 16 = k"; cases "x div 8 = m") (simp_all add: img less_Suc_eq)
      qed
      then show ?thesis using False g n cl by (simp add: Let_def)
    qed
  qed
  have "\<exists>c3. for_range 0 (min (vis c) (rows c - ?a)) (\<lambda>sy. for_range 0 (scr_cols c) (?body sy)) c2 = Some c3 \<and>
      draws c (?S (min (vis c) (rows c - ?a)) 0) c3"
  proof (rule for_range_inv [where I = "\<lambda>k c'. draws c (?S k 0) c'"])
    show "0 \<le> min (vis c) (rows c - ?a)" by simp
    show "draws c (?S 0 0) c2" by (rule draws_cong [OF d2]) simp
    fix k c' assume k: "k < min (vis c) (rows c - ?a)" and dk: "draws c (?S k 0) c'"
    from row [OF dk k] obtain c3 where l: "for_range 0 (scr_cols c) (?body k) c' = Some c3"
      and d3: "draws c (?S k (scr_cols c)) c3" by blast
    have "draws c (?S (k + 1) 0) c3"
      by (rule draws_cong [OF d3]) (auto simp: less_Suc_eq screen_image_def Let_def)
    with l show "\<exists>s'. for_range 0 (scr_cols c) (?body k) c' = Some s' \<and> draws c (?S (k + 1) 0) s'" by blast
  qed
  then obtain c3 where l: "for_range 0 (min (vis c) (rows c - ?a)) (\<lambda>sy. for_range 0 (scr_cols c) (?body sy)) c2 = Some c3"
    and d3: "draws c (?S (min (vis c) (rows c - ?a)) 0) c3" by blast
  have "draws c (screen_image c) c3"
    by (rule draws_cong [OF d3]) (auto simp: screen_image_def Let_def)
  moreover have "paint c1 = Some c3" using r l f f2 by (simp add: paint_def Let_def)
  ultimately show ?thesis by blast
qed

section \<open>Operations keep the screen current\<close>

lemma get_pixel_cong:
  "fbi c' = fbi c \<Longrightarrow> buffer c' = buffer c \<Longrightarrow> bg c' = bg c \<Longrightarrow> get_pixel c' x y = get_pixel c x y"
  by (simp add: get_pixel_def Let_def split: option.split pixel_format.split)

lemma draws_rebase:
  assumes "draws c F c" and "fbi c1 = fbi c" "buffer c1 = buffer c" "bg c1 = bg c"
  shows "draws c1 F c1"
  using assms by (auto simp: draws_def layout_ok_def con_width_def con_height_def get_pixel_cong [of c1 c])

lemma screen_image_cong:
  "bg c' = bg c \<Longrightarrow> cols c' = cols c \<Longrightarrow> vis c' = vis c \<Longrightarrow> cells c' = cells c \<Longrightarrow> rows c' = rows c \<Longrightarrow>
   view c' = view c \<Longrightarrow> screen_image c' = screen_image c"
  by (intro ext) (simp add: screen_image_def scr_cols_def window_start_def Let_def)

lemma con_wf_draws: "con_wf c \<Longrightarrow> draws c F c' \<Longrightarrow> con_wf c'"
  using draws_fields [of c F c'] by (simp add: con_wf_def)

lemma draws_ok: "con_wf c \<Longrightarrow> draws c (screen_image c) c' \<Longrightarrow> con_ok c'"
proof -
  assume w: "con_wf c" and d: "draws c (screen_image c) c'"
  note f = draws_fields [OF d]
  have "screen_image c' = screen_image c" by (rule screen_image_cong) (use f in simp_all)
  then have "draws c' (screen_image c') c'" using d f(10-12) by (simp add: draws_def)
  then show "con_ok c'" using con_wf_draws [OF w d] by (simp add: con_ok_def synced_def)
qed

lemma con_ok_wf: "con_ok c \<Longrightarrow> con_wf c"
  by (simp add: con_ok_def)

lemma con_ok_draws: "con_ok c \<Longrightarrow> draws c (screen_image c) c"
  by (simp add: con_ok_def synced_def)

text \<open>What always holds: the screen is current at least while the view follows the bottom.\<close>

definition con_inv :: "console \<Rightarrow> bool" where
  "con_inv c = (con_wf c \<and> (view c = 0 \<longrightarrow> synced c))"

lemma con_ok_inv: "con_ok c \<Longrightarrow> con_inv c"
  by (simp add: con_ok_def con_inv_def)

lemma con_inv_ok: "con_inv c \<Longrightarrow> view c = 0 \<or> synced c \<Longrightarrow> con_ok c"
  by (auto simp: con_ok_def con_inv_def)

lemma con_inv_wf: "con_inv c \<Longrightarrow> con_wf c"
  by (simp add: con_inv_def)

text \<open>Painting makes the screen current whatever it showed.\<close>

lemma paint_ok:
  assumes "con_wf c"
  shows "\<exists>c'. paint c = Some c' \<and> con_ok c' \<and> draws c (screen_image c) c'"
proof -
  obtain F where "draws c F c" using draws_self assms by (auto simp: con_wf_def)
  from paint_draws [OF this] assms obtain c' where "paint c = Some c'" "draws c (screen_image c) c'"
    by (auto simp: con_wf_def)
  with draws_ok [OF assms] show ?thesis by blast
qed

lemma con_ok_cursor:
  assumes "con_ok c" and "k \<le> scr_cols c"
  shows "con_ok (c\<lparr>curs_col := k\<rparr>)"
proof -
  let ?c = "c\<lparr>curs_col := k\<rparr>"
  have "scr_cols ?c = scr_cols c" by (simp add: scr_cols_def)
  then have w: "con_wf ?c"
    using con_ok_wf [OF assms(1)] assms(2) by (simp add: con_wf_def layout_ok_def con_height_def)
  have "draws ?c (screen_image c) ?c" by (rule draws_rebase [OF con_ok_draws [OF assms(1)]]) simp_all
  moreover have "screen_image ?c = screen_image c" by (rule screen_image_cong) simp_all
  ultimately show ?thesis using draws_ok [OF w] by simp
qed

lemma first_row_ok:
  assumes "con_ok c" and "rows c = 0" and "k \<le> scr_cols c"
  shows "con_ok (c\<lparr>rows := 1, curs_col := k\<rparr>)"
proof -
  let ?c = "c\<lparr>rows := 1, curs_col := k\<rparr>"
  have w: "con_wf c" by (rule con_ok_wf [OF assms(1)])
  have d: "draws ?c (screen_image c) ?c" by (rule draws_rebase [OF con_ok_draws [OF assms(1)]]) simp_all
  have w1: "con_wf ?c"
    using w assms by (simp add: con_wf_def layout_ok_def con_height_def scr_cols_def SCR_ROWS_def)
  have "draws ?c (screen_image ?c) ?c"
  proof (rule draws_cong [OF d])
    fix x y
    have "cells c k = EMPTY_CELL" if "k < scr_cols c" for k
      using that w assms(2) by (simp add: con_wf_def scr_cols_def)
    then show "screen_image c x y = screen_image ?c x y"
      using assms(2) w by (auto simp: screen_image_def Let_def window_start_def scr_cols_def con_wf_def
        cell_image_def EMPTY_CELL_def)
  qed
  then show ?thesis by (rule draws_ok [OF w1])
qed

text \<open>A new row below the last one, with or without a scroll.\<close>

definition with_row :: "console \<Rightarrow> console" where
  "with_row c = c\<lparr>rows := rows c + 1,
     cells := (\<lambda>k. if rows c * COLS_MAX \<le> k \<and> k < rows c * COLS_MAX + scr_cols c then EMPTY_CELL else cells c k),
     curs_col := 0\<rparr>"

lemma scr_cols_le: "scr_cols c \<le> COLS_MAX"
  by (simp add: scr_cols_def)

lemma row_cell:
  assumes "sx < scr_cols c"
  shows "cells (with_row c) (r * COLS_MAX + sx) = (if r = rows c then EMPTY_CELL else cells c (r * COLS_MAX + sx))"
proof -
  have sx: "sx < COLS_MAX" using assms by (simp add: scr_cols_def)
  have "rows c * COLS_MAX \<le> r * COLS_MAX + sx \<and> r * COLS_MAX + sx < rows c * COLS_MAX + scr_cols c \<longleftrightarrow> r = rows c"
  proof
    assume *: "rows c * COLS_MAX \<le> r * COLS_MAX + sx \<and> r * COLS_MAX + sx < rows c * COLS_MAX + scr_cols c"
    then have "rows c * COLS_MAX < (r + 1) * COLS_MAX" using sx by (simp add: algebra_simps)
    then have "rows c < r + 1" by (rule mult_less_cancel2 [THEN iffD1, THEN conjunct2])
    moreover have "r * COLS_MAX < (rows c + 1) * COLS_MAX"
      using * scr_cols_le [of c] by (simp add: algebra_simps)
    then have "r < rows c + 1" by (rule mult_less_cancel2 [THEN iffD1, THEN conjunct2])
    ultimately show "r = rows c" by simp
  qed (use assms in simp)
  then show ?thesis by (simp add: with_row_def)
qed

lemma with_row_wf: "con_wf c \<Longrightarrow> rows c < SCR_ROWS \<Longrightarrow> view c = 0 \<Longrightarrow> con_wf (with_row c)"
  by (simp add: con_wf_def with_row_def layout_ok_def con_height_def scr_cols_def)

lemma new_line_step:
  assumes "con_wf c" and "0 < rows c" and "rows c < SCR_ROWS"
  shows "new_line c = (if view c = 0 \<and> vis c \<le> rows c then scroll_px (with_row c) else Some (with_row c))"
proof -
  have "rows c * COLS_MAX + scr_cols c \<le> (rows c + 1) * COLS_MAX" by (simp add: scr_cols_def)
  also have "\<dots> \<le> SCR_ROWS * COLS_MAX" using assms(3) by (intro mult_le_mono1) simp
  finally have "\<not> COLS_MAX * SCR_ROWS < rows c * COLS_MAX + scr_cols c" by (simp add: mult.commute)
  moreover have "scr_cols (c\<lparr>rows := rows c + 1\<rparr>) = scr_cols c" by (simp add: scr_cols_def)
  ultimately show ?thesis using assms
    by (simp add: new_line_def clear_row_def Let_def with_row_def cong: if_cong)
qed

lemma new_line_ok:
  assumes ok: "con_ok c" and "view c = 0" and "rows c < SCR_ROWS"
  shows "\<exists>c'. new_line c = Some c' \<and> con_ok c' \<and> view c' = 0 \<and> rows c' = rows c + 1 \<and> curs_col c' = 0 \<and>
     scr_cols c' = scr_cols c \<and> bg c' = bg c"
proof (cases "rows c = 0")
  case True
  then have "new_line c = Some (c\<lparr>rows := 1, curs_col := 0\<rparr>)" by (simp add: new_line_def)
  then show ?thesis using first_row_ok [OF ok True, of 0] True assms(2) by (simp add: scr_cols_def)
next
  case False
  let ?c = "with_row c"
  have w: "con_wf c" by (rule con_ok_wf [OF ok])
  have w1: "con_wf ?c" by (rule with_row_wf [OF w assms(3,2)])
  have f: "view ?c = 0" "rows ?c = rows c + 1" "curs_col ?c = 0" "scr_cols ?c = scr_cols c" "bg ?c = bg c"
    "vis ?c = vis c" "con_height ?c = con_height c"
    using assms(2) by (simp_all add: with_row_def scr_cols_def con_height_def)
  have st: "window_start ?c = (if vis c \<le> rows c then rows c + 1 - vis c else 0)"
    "window_start c = (if vis c \<le> rows c then rows c - vis c else 0)"
    using f assms(2) False by (auto simp: window_start_def)
  have wv: "1 \<le> vis c" "vis c * 16 \<le> con_height c" "16 \<le> con_height c" using w by (simp_all add: con_wf_def)
  have d: "draws ?c (screen_image c) ?c"
    by (rule draws_rebase [OF con_ok_draws [OF ok]]) (simp_all add: with_row_def)
  have emp: "cell_image b EMPTY_CELL r k = b" for b r k by (simp add: cell_image_def EMPTY_CELL_def)
  show ?thesis
  proof (cases "vis c \<le> rows c")
    case False
    have "draws ?c (screen_image ?c) ?c"
    proof (rule draws_cong [OF d])
      fix x y
      show "screen_image c x y = screen_image ?c x y"
        using False f st by (auto simp: screen_image_def Let_def row_cell emp)
    qed
    then have "con_ok ?c" by (rule draws_ok [OF w1])
    then show ?thesis using new_line_step [OF w _ assms(3)] False \<open>rows c \<noteq> 0\<close> f by auto
  next
    case True
    from scroll_draws [OF d, unfolded f(5,7), OF wv(3)] obtain c2 where s: "scroll_px ?c = Some c2"
      and d2: "draws ?c (\<lambda>x y. if y + 16 < con_height c then screen_image c x (y + 16) else bg c) c2" by blast
    have "draws ?c (screen_image ?c) c2"
    proof (rule draws_cong [OF d2])
      fix x y :: nat
      let ?sx = "x div 8" and ?sy = "y div 16"
      have n: "(y + 16) div 16 = ?sy + 1" "(y + 16) mod 16 = y mod 16" by simp_all
      have row: "rows c - vis c + (?sy + 1) = rows c + 1 - vis c + ?sy" using True by simp
      have A: "screen_image ?c x y = (if ?sx < scr_cols c \<and> ?sy + 1 < vis c
          then cell_image (bg c) (cells c ((rows c + 1 - vis c + ?sy) * COLS_MAX + ?sx)) (y mod 16) (x mod 8) else bg c)"
      proof -
        have last: "rows c + 1 - vis c + ?sy = rows c \<longleftrightarrow> ?sy + 1 = vis c" using True wv by linarith
        have lt: "rows c + 1 - vis c + ?sy < rows c + 1 \<longleftrightarrow> ?sy < vis c" using True wv by linarith
        show ?thesis using True f st last lt
          by (cases "?sx < scr_cols c") (auto simp: screen_image_def Let_def row_cell emp)
      qed
      have B: "screen_image c x (y + 16) = (if ?sx < scr_cols c \<and> ?sy + 1 < vis c
          then cell_image (bg c) (cells c ((rows c + 1 - vis c + ?sy) * COLS_MAX + ?sx)) (y mod 16) (x mod 8) else bg c)"
      proof -
        have "rows c - vis c + (?sy + 1) < rows c \<longleftrightarrow> ?sy + 1 < vis c" using True wv by linarith
        then show ?thesis unfolding screen_image_def Let_def n st(2) if_P [OF True] row [symmetric]
          by (simp only: simp_thms)
      qed
      have C: "\<not> ?sy + 1 < vis c" if "\<not> y + 16 < con_height c"
        using that wv by linarith
      show "(if y + 16 < con_height c then screen_image c x (y + 16) else bg c) = screen_image ?c x y"
        using A B C by simp
    qed
    then have "con_ok c2" by (rule draws_ok [OF w1])
    then show ?thesis using new_line_step [OF w _ assms(3)] True \<open>rows c \<noteq> 0\<close> s f draws_fields [OF d2] assms(2) by auto
  qed
qed

text \<open>Storing a character in the last row and drawing it where the cursor is.\<close>

definition cursor_row :: "console \<Rightarrow> nat" where
  "cursor_row c = snd (cursor_location c)"

lemma put_cell_ok:
  fixes x :: cell
  assumes ok: "con_ok c" and v: "view c = 0" and r: "0 < rows c" and col: "col < scr_cols c"
  defines "c1 \<equiv> c\<lparr>cells := (cells c)((rows c - 1) * COLS_MAX + col := x)\<rparr>"
  shows "\<exists>c2. set_cell ((rows c - 1) * COLS_MAX + col) x c = Some c1 \<and>
     draw_cell_at col (cursor_row c) x c1 = Some c2 \<and> con_ok c2 \<and> draws c1 (screen_image c1) c2"
proof -
  let ?k = "(rows c - 1) * COLS_MAX + col"
  have w: "con_wf c" by (rule con_ok_wf [OF ok])
  have wb: "rows c \<le> SCR_ROWS" "1 \<le> vis c" "col < COLS_MAX" using w col by (simp_all add: con_wf_def scr_cols_def)
  have "?k < COLS_MAX * SCR_ROWS" by (rule cell_index) (use wb r in auto)
  then have s: "set_cell ?k x c = Some c1" by (simp add: set_cell_def c1_def)
  have f: "view c1 = 0" "rows c1 = rows c" "scr_cols c1 = scr_cols c" "bg c1 = bg c" "vis c1 = vis c"
    using v by (simp_all add: c1_def scr_cols_def)
  have w1: "con_wf c1"
    using w r by (simp add: con_wf_def c1_def layout_ok_def con_height_def scr_cols_def)
  have d: "draws c1 (screen_image c) c1"
    by (rule draws_rebase [OF con_ok_draws [OF ok]]) (simp_all add: c1_def)
  from draw_cell_draws [OF d, of col "cursor_row c" x] obtain c2 where
    g: "draw_cell_at col (cursor_row c) x c1 = Some c2"
    and d2: "draws c1 (\<lambda>x' y'. if x' div 8 = col \<and> y' div 16 = cursor_row c
      then cell_image (bg c1) x (y' mod 16) (x' mod 8) else screen_image c x' y') c2" by blast
  have st: "window_start c1 = window_start c" by (simp add: window_start_def c1_def)
  have cr: "window_start c + cursor_row c = rows c - 1" "cursor_row c < vis c"
    using v r wb(2) by (auto simp: window_start_def cursor_row_def cursor_location_def)
  have "draws c1 (screen_image c1) c2"
  proof (rule draws_cong [OF d2])
    fix x' y' :: nat
    let ?sx = "x' div 8" and ?sy = "y' div 16"
    have "(window_start c + ?sy) * COLS_MAX + ?sx = ?k \<longleftrightarrow> ?sx = col \<and> ?sy = cursor_row c" if "?sx < scr_cols c"
    proof
      assume e: "(window_start c + ?sy) * COLS_MAX + ?sx = ?k"
      have sx: "?sx < COLS_MAX" using that by (simp add: scr_cols_def)
      have "((window_start c + ?sy) * COLS_MAX + ?sx) mod COLS_MAX = ?sx" "?k mod COLS_MAX = col"
        using sx wb(3) by simp_all
      then have "?sx = col" using e by simp
      moreover have "((window_start c + ?sy) * COLS_MAX + ?sx) div COLS_MAX = window_start c + ?sy"
        "?k div COLS_MAX = rows c - 1"
        using sx wb(3) by simp_all
      then have "window_start c + ?sy = rows c - 1" using e by simp
      ultimately show "?sx = col \<and> ?sy = cursor_row c" using cr by simp
    qed (use cr in simp)
    then show "(if ?sx = col \<and> ?sy = cursor_row c then cell_image (bg c1) x (y' mod 16) (x' mod 8)
        else screen_image c x' y') = screen_image c1 x' y'"
      using cr col r unfolding screen_image_def Let_def st f
      by (cases "?sx = col \<and> ?sy = cursor_row c"; cases "?sx < scr_cols c") (auto simp: c1_def)
  qed
  then show ?thesis using s g draws_ok [OF w1] by blast
qed

lemma curs_line_bg_ok:
  assumes "con_ok c" and "view c = 0" and "0 < rows c" and "curs_col c = 0"
  shows "\<exists>c2. curs_line_bg (fst (cursor_location c)) (snd (cursor_location c)) c = Some c2 \<and> con_ok c2 \<and>
     view c2 = 0 \<and> rows c2 = rows c \<and> curs_col c2 = 0 \<and> scr_cols c2 = scr_cols c \<and> bg c2 = bg c"
proof -
  have "0 < scr_cols c" using con_ok_wf [OF assms(1)] by (simp add: con_wf_def)
  from put_cell_ok [OF assms(1,2,3) this, of EMPTY_CELL] obtain c2 where
    s: "set_cell ((rows c - 1) * COLS_MAX + 0) EMPTY_CELL c = Some (c\<lparr>cells := (cells c)((rows c - 1) * COLS_MAX + 0 := EMPTY_CELL)\<rparr>)"
    and g: "draw_cell_at 0 (cursor_row c) EMPTY_CELL (c\<lparr>cells := (cells c)((rows c - 1) * COLS_MAX + 0 := EMPTY_CELL)\<rparr>) = Some c2"
    and ok: "con_ok c2"
    and d: "draws (c\<lparr>cells := (cells c)((rows c - 1) * COLS_MAX + 0 := EMPTY_CELL)\<rparr>)
      (screen_image (c\<lparr>cells := (cells c)((rows c - 1) * COLS_MAX + 0 := EMPTY_CELL)\<rparr>)) c2" by blast
  show ?thesis using s g ok draws_fields [OF d] assms
    by (simp add: curs_line_bg_def cursor_location_def cursor_row_def scr_cols_def)
qed

text \<open>A character that needs a new row; the last row is where the code panics.\<close>

definition needs_row :: "uchar \<Rightarrow> console \<Rightarrow> bool" where
  "needs_row ch c = (ch = 10 \<or> ch \<noteq> 13 \<and> scr_cols c \<le> curs_col c)"

definition follow :: "console \<Rightarrow> console option" where
  "follow c = (if view c \<noteq> 0 then paint (c\<lparr>view := 0\<rparr>) else Some c)"

lemma follow_ok:
  assumes "con_inv c"
  shows "\<exists>c1. follow c = Some c1 \<and> con_ok c1 \<and> view c1 = 0 \<and> rows c1 = rows c \<and> curs_col c1 = curs_col c \<and>
     scr_cols c1 = scr_cols c \<and> bg c1 = bg c \<and> cells c1 = cells c"
proof (cases "view c = 0")
  case True
  then show ?thesis using con_inv_ok [OF assms] by (simp add: follow_def)
next
  case False
  have "con_wf (c\<lparr>view := 0\<rparr>)"
    using con_inv_wf [OF assms] by (simp add: con_wf_def layout_ok_def con_height_def scr_cols_def)
  from paint_ok [OF this] obtain c1 where p: "paint (c\<lparr>view := 0\<rparr>) = Some c1" "con_ok c1"
    and d: "draws (c\<lparr>view := 0\<rparr>) (screen_image (c\<lparr>view := 0\<rparr>)) c1" by blast
  then show ?thesis using False draws_fields [OF d] by (simp add: follow_def scr_cols_def)
qed

lemma write_char_ok:
  assumes ok: "con_inv c" and nr: "needs_row ch c \<Longrightarrow> rows c < SCR_ROWS"
  shows "\<exists>c'. write_char ch c = Some c' \<and> con_ok c' \<and> view c' = 0 \<and> bg c' = bg c \<and> rows c' \<le> rows c + 1"
proof -
  from follow_ok [OF ok] obtain c1 where fo: "follow c = Some c1" and ok1: "con_ok c1" and v1: "view c1 = 0"
    and f1: "rows c1 = rows c" "curs_col c1 = curs_col c" "scr_cols c1 = scr_cols c" "bg c1 = bg c" by blast
  have wc: "write_char ch c = write_char ch c1"
    using fo v1 by (auto simp: write_char_def follow_def split: if_splits)
  consider "ch = 10" | "ch = 13" | "ch \<noteq> 10" "ch \<noteq> 13" by blast
  then show ?thesis
  proof cases
    case 1
    then have "rows c1 < SCR_ROWS" using nr f1 by (simp add: needs_row_def)
    from new_line_ok [OF ok1 v1 this] obtain c2 where n: "new_line c1 = Some c2" "con_ok c2" "view c2 = 0"
      "rows c2 = rows c1 + 1" "curs_col c2 = 0" "bg c2 = bg c1" by blast
    have "0 < rows c2" using n(4) by simp
    from curs_line_bg_ok [OF n(2,3) this n(5)] n v1 f1 1 show ?thesis unfolding wc by (auto simp: write_char_def)
  next
    case 2
    have "con_ok (c1\<lparr>curs_col := 0\<rparr>)" by (rule con_ok_cursor [OF ok1]) simp
    then show ?thesis unfolding wc using 2 v1 f1 by (simp add: write_char_def)
  next
    case 3
    have "\<exists>c2. wrap_if_needed c1 = Some c2 \<and> con_ok c2 \<and> view c2 = 0 \<and> bg c2 = bg c \<and> rows c2 \<le> rows c + 1 \<and>
        curs_col c2 < scr_cols c2 \<and> (scr_cols c1 \<le> curs_col c1 \<longrightarrow> 0 < rows c2) \<and> (curs_col c1 < scr_cols c1 \<longrightarrow> c2 = c1)"
    proof (cases "scr_cols c1 \<le> curs_col c1")
      case True
      then have "rows c1 < SCR_ROWS" using nr 3 f1 by (simp add: needs_row_def)
      from new_line_ok [OF ok1 v1 this] obtain c2 where "new_line c1 = Some c2" "con_ok c2" "view c2 = 0"
        "rows c2 = rows c1 + 1" "curs_col c2 = 0" "bg c2 = bg c1" "scr_cols c2 = scr_cols c1" by blast
      moreover have "1 \<le> scr_cols c1" using con_ok_wf [OF ok1] by (simp add: con_wf_def)
      ultimately show ?thesis using True f1 by (simp add: wrap_if_needed_def)
    next
      case False
      then show ?thesis using ok1 v1 f1 by (simp add: wrap_if_needed_def)
    qed
    then obtain c2 where c2: "wrap_if_needed c1 = Some c2" "con_ok c2" "view c2 = 0" "bg c2 = bg c" "rows c2 \<le> rows c + 1"
      "curs_col c2 < scr_cols c2" "scr_cols c1 \<le> curs_col c1 \<Longrightarrow> 0 < rows c2" "curs_col c1 < scr_cols c1 \<Longrightarrow> c2 = c1" by blast
    define c3 where "c3 = (if rows c2 = 0 then c2\<lparr>rows := 1\<rparr> else c2)"
    have "con_ok (c2\<lparr>rows := 1, curs_col := curs_col c2\<rparr>)" if "rows c2 = 0"
      by (rule first_row_ok [OF c2(2) that]) (use c2(6) in simp)
    then have ok3: "con_ok c3" using c2(2) by (simp add: c3_def)
    have f3: "view c3 = 0" "0 < rows c3" "bg c3 = bg c" "curs_col c3 < scr_cols c3" "rows c3 \<le> rows c + 1"
      using c2 by (auto simp: c3_def scr_cols_def)
    let ?k = "(rows c3 - 1) * COLS_MAX + curs_col c3"
    let ?x = "\<lparr>cell_char = ch, cell_fg = fg c3\<rparr>"
    let ?c4 = "c3\<lparr>cells := (cells c3)(?k := ?x)\<rparr>"
    from put_cell_ok [OF ok3 f3(1,2,4), of ?x] obtain c5 where s: "set_cell ?k ?x c3 = Some ?c4"
      and g: "draw_cell_at (curs_col c3) (cursor_row c3) ?x ?c4 = Some c5" and ok5: "con_ok c5"
      and d: "draws ?c4 (screen_image ?c4) c5" by blast
    note f5 = draws_fields [OF d]
    have cl: "cursor_location ?c4 = (curs_col c3, cursor_row c3)"
    proof -
      have "min (curs_col c3) (scr_cols c3 - 1) = curs_col c3" using f3(4) by linarith
      moreover have "scr_cols ?c4 = scr_cols c3" by (simp add: scr_cols_def)
      ultimately show ?thesis by (simp add: cursor_location_def cursor_row_def)
    qed
    let ?c6 = "c5\<lparr>curs_col := min (curs_col c5 + 1) (scr_cols c5)\<rparr>"
    have ok6: "con_ok ?c6" by (rule con_ok_cursor [OF ok5]) simp
    have "write_char ch c1 = Some ?c6"
      using 3 v1 c2(1) s g cl unfolding write_char_def Let_def c3_def [symmetric] by (simp add: c3_def [symmetric])
    then show ?thesis unfolding wc using ok6 f5 f3 by simp
  qed
qed

text \<open>With all rows in use the next one leaves the array of cells.\<close>

lemma write_char_panics:
  assumes "con_inv c" and "needs_row ch c" and "rows c = SCR_ROWS"
  shows "write_char ch c = None"
proof -
  from follow_ok [OF assms(1)] obtain c1 where fo: "follow c = Some c1" and v1: "view c1 = 0"
    and f1: "rows c1 = rows c" "curs_col c1 = curs_col c" "scr_cols c1 = scr_cols c" by blast
  have wc: "write_char ch c = write_char ch c1"
    using fo v1 by (auto simp: write_char_def follow_def split: if_splits)
  have "new_line c1 = None"
    using f1 assms(3) by (simp add: new_line_def drop_oldest_def SCR_ROWS_def COLS_MAX_def)
  then show ?thesis unfolding wc using assms(2) f1 v1
    by (auto simp: write_char_def needs_row_def wrap_if_needed_def)
qed

lemma backspace_ok:
  assumes ok: "con_ok c" and v: "view c = 0"
  shows "\<exists>c'. backspace_at c = Some c' \<and> con_ok c' \<and> bg c' = bg c"
proof (cases "rows c = 0 \<or> curs_col c = 0")
  case True
  then show ?thesis using ok by (auto simp: backspace_at_def)
next
  case False
  let ?c = "c\<lparr>curs_col := curs_col c - 1\<rparr>"
  have le: "curs_col c \<le> scr_cols c" using con_ok_wf [OF ok] by (simp add: con_wf_def)
  have ok1: "con_ok ?c" by (rule con_ok_cursor [OF ok]) (use le in simp)
  have f: "view ?c = 0" "0 < rows ?c" "curs_col c - 1 < scr_cols ?c"
    using v False le by (auto simp: scr_cols_def)
  let ?c2 = "?c\<lparr>cells := (cells ?c)((rows ?c - 1) * COLS_MAX + (curs_col c - 1) := EMPTY_CELL)\<rparr>"
  from put_cell_ok [OF ok1 f, of EMPTY_CELL] obtain c3 where
    s: "set_cell ((rows ?c - 1) * COLS_MAX + (curs_col c - 1)) EMPTY_CELL ?c = Some ?c2"
    and g: "draw_cell_at (curs_col c - 1) (cursor_row ?c) EMPTY_CELL ?c2 = Some c3" and ok3: "con_ok c3"
    and d: "draws ?c2 (screen_image ?c2) c3" by blast
  have "cursor_location ?c2 = (curs_col c - 1, cursor_row ?c)"
  proof -
    have "min (curs_col c - 1) (scr_cols ?c - 1) = curs_col c - 1" using f(3) by linarith
    moreover have "scr_cols ?c2 = scr_cols ?c" by (simp add: scr_cols_def)
    ultimately show ?thesis by (simp add: cursor_location_def cursor_row_def)
  qed
  then have "backspace_at c = Some c3" using False s g by (simp add: backspace_at_def Let_def)
  then show ?thesis using ok3 draws_fields(3) [OF d] by simp
qed

lemma scroll_ok:
  assumes "con_wf c" and "v \<le> rows c - vis c"
  shows "\<exists>c'. paint (c\<lparr>view := v\<rparr>) = Some c' \<and> con_ok c' \<and> bg c' = bg c"
proof -
  have "con_wf (c\<lparr>view := v\<rparr>)"
    using assms(1) assms(2) by (simp add: con_wf_def layout_ok_def con_height_def scr_cols_def)
  from paint_ok [OF this] obtain c' where "paint (c\<lparr>view := v\<rparr>) = Some c'" "con_ok c'"
    and d: "draws (c\<lparr>view := v\<rparr>) (screen_image (c\<lparr>view := v\<rparr>)) c'" by blast
  then show ?thesis using draws_fields(3) [OF d] by simp
qed

text \<open>A backspace while scrolled back blanks a place of the screen, whatever the screen showed.\<close>

lemma backspace_view:
  assumes w: "con_wf c" and vw: "0 < view c" and cc: "0 < curs_col c" and F: "draws c F c"
  shows "\<exists>c2. backspace_at c = Some c2 \<and> con_wf c2 \<and>
    draws (c\<lparr>curs_col := curs_col c - 1, cells := (cells c)((rows c - 1) * COLS_MAX + (curs_col c - 1) := EMPTY_CELL)\<rparr>)
      (\<lambda>x y. if x div 8 = curs_col c - 1 \<and> y div 16 = vis c - 1 then cell_image (bg c) EMPTY_CELL (y mod 16) (x mod 8) else F x y) c2"
proof -
  let ?k = "(rows c - 1) * COLS_MAX + (curs_col c - 1)"
  let ?c = "c\<lparr>curs_col := curs_col c - 1, cells := (cells c)(?k := EMPTY_CELL)\<rparr>"
  have v: "view c \<le> rows c - vis c" "1 \<le> vis c" "rows c \<le> SCR_ROWS" "curs_col c \<le> scr_cols c"
    using w by (simp_all add: con_wf_def)
  then have r: "vis c < rows c" using vw by linarith
  have cm: "curs_col c - 1 < COLS_MAX" using v(4) cc scr_cols_le [of c] by linarith
  have k: "?k < COLS_MAX * SCR_ROWS" by (rule cell_index) (use r v cm in auto)
  have d: "draws ?c F ?c" by (rule draws_rebase [OF F]) simp_all
  have sc: "scr_cols ?c = scr_cols c" by (simp add: scr_cols_def)
  have cl: "cursor_location ?c = (curs_col c - 1, vis c - 1)"
  proof -
    have "min (curs_col c - 1) (scr_cols c - 1) = curs_col c - 1" using v(4) cc by linarith
    then show ?thesis using r sc by (auto simp: cursor_location_def)
  qed
  have bgc: "bg ?c = bg c" by simp
  from draw_cell_draws [OF d, of "curs_col c - 1" "vis c - 1" EMPTY_CELL, unfolded bgc] obtain c2 where
    g: "draw_cell_at (curs_col c - 1) (vis c - 1) EMPTY_CELL ?c = Some c2"
    and d2: "draws ?c (\<lambda>x' y'. if x' div 8 = curs_col c - 1 \<and> y' div 16 = vis c - 1
      then cell_image (bg c) EMPTY_CELL (y' mod 16) (x' mod 8) else F x' y') c2" by blast
  have "backspace_at c = Some c2"
    using r cc k g cl by (simp add: backspace_at_def set_cell_def)
  moreover have "con_wf c2"
  proof -
    note f = draws_fields [OF d2]
    have h: "con_height c2 = con_height c" "scr_cols c2 = scr_cols c" using f(1,4) by (simp_all add: con_height_def scr_cols_def)
    have "layout_ok c2" "vis c2 = vis c" "rows c2 = rows c" "view c2 = view c" "curs_col c2 = curs_col c - 1"
      using f(5,7-10) by simp_all
    then show ?thesis using w r v(4) h by (simp add: con_wf_def)
  qed
  ultimately show ?thesis using d2 by blast
qed

lemma clear_ok:
  assumes l: "layout_ok c" and g: "16 \<le> con_height c" "1 \<le> scr_cols c" "1 \<le> vis c" "vis c \<le> SCR_ROWS" "vis c * 16 \<le> con_height c"
  shows "\<exists>c'. clear_screen c = Some c' \<and> con_ok c' \<and> bg c' = bg c \<and> rows c' = 0"
proof -
  obtain F where d: "draws c F c" using draws_self [OF l] by blast
  from fill_rect_draws [OF d, of 0 "con_width c" 0 "con_height c" "bg c"] obtain c1 where
    r: "fill_rect 0 0 (con_width c) (con_height c) (bg c) c = Some c1"
    and d0: "draws c (\<lambda>x y. if 0 \<le> x \<and> x < con_width c \<and> 0 \<le> y \<and> y < con_height c then bg c else F x y) c1" by auto
  have d1: "draws c (\<lambda>x y. bg c) c1" by (rule draws_cong [OF d0]) simp
  note f = draws_fields [OF d1]
  let ?c = "c1\<lparr>cells := (\<lambda>k. if k < COLS_MAX * SCR_ROWS then EMPTY_CELL else cells c1 k), rows := 0, view := 0, curs_col := 0\<rparr>"
  have "draws c1 (\<lambda>x y. bg c) c1" using d1 f by (simp add: draws_def)
  then have d2: "draws ?c (\<lambda>x y. bg c) ?c" by (rule draws_rebase) simp_all
  have "\<forall>k < COLS_MAX. k < COLS_MAX * SCR_ROWS" by (simp add: SCR_ROWS_def COLS_MAX_def)
  then have w: "con_wf ?c"
    using f g by (simp add: con_wf_def layout_ok_def con_height_def scr_cols_def)
  have "draws ?c (screen_image ?c) ?c"
    by (rule draws_cong [OF d2]) (simp add: screen_image_def Let_def f)
  then have "con_ok ?c" by (rule draws_ok [OF w])
  moreover have "clear_screen c = Some ?c" using r f(15) d by (simp add: clear_screen_def draws_fields(15))
  ultimately show ?thesis using f by auto
qed

section \<open>Every reachable screen\<close>

datatype con_op = Write uchar | Backspace | Page_up | Page_down | Home | End | Clear | Colour rgb | Reset

definition con_step :: "con_op \<Rightarrow> console \<Rightarrow> console option" where
  "con_step op c = (case op of
     Write ch \<Rightarrow> write_char ch c
   | Backspace \<Rightarrow> backspace_at c
   | Page_up \<Rightarrow> tty_page_up c
   | Page_down \<Rightarrow> tty_page_down c
   | Home \<Rightarrow> tty_home c
   | End \<Rightarrow> tty_end c
   | Clear \<Rightarrow> clear_screen c
   | Colour f \<Rightarrow> Some (set_colors f BG c)
   | Reset \<Rightarrow> Some (reset_colors c))"

text \<open>A frame buffer of the formats the code draws, at least one character high and wide.\<close>

definition usable :: "nat \<times> (nat \<Rightarrow> byte) \<Rightarrow> fb_info \<Rightarrow> bool" where
  "usable b i = (fb_format i \<noteq> Other_format \<and> 3 \<le> fb_bpp i \<and> fb_width i \<le> fb_stride i \<and>
     fb_height i * fb_stride i * fb_bpp i \<le> fst b \<and> 16 \<le> fb_height i)"

text \<open>
  A backspace while the view is scrolled back blots the screen: it blanks the cursor's place,
  where the window shows another row.  Scrolling, clearing and the next character, which
  returns to the bottom, paint the whole screen anew.
\<close>

definition blots :: "con_op \<Rightarrow> console \<Rightarrow> bool" where
  "blots op c = (op = Backspace \<and> view c \<noteq> 0 \<and> curs_col c \<noteq> 0)"

definition repaints :: "con_op \<Rightarrow> console \<Rightarrow> bool" where
  "repaints op c = (case op of Write ch \<Rightarrow> view c \<noteq> 0 | Backspace \<Rightarrow> False | Colour f \<Rightarrow> False | Reset \<Rightarrow> False | _ \<Rightarrow> True)"

text \<open>
  The consoles that operations lead to, each with a flag: since it was last painted anew the
  screen has not been blotted.
\<close>

inductive con_reach :: "bool \<Rightarrow> console \<Rightarrow> bool" where
  boot: "usable b i \<Longrightarrow> console_init b i empty_console = Some c \<Longrightarrow> con_reach True c"
| step: "con_reach clean c \<Longrightarrow> con_step op c = Some c' \<Longrightarrow> con_reach (repaints op c \<or> clean \<and> \<not> blots op c) c'"

lemma init_ok:
  assumes "usable b i"
  shows "\<exists>c. console_init b i empty_console = Some c \<and> con_ok c \<and> bg c = BG"
proof -
  let ?c = "empty_console\<lparr>buffer := Some b, fbi := Some i,
     cols := max 1 (min (fb_width i div CELL_W) COLS_MAX), vis := max 1 (min (fb_height i div CELL_H) SCR_ROWS)\<rparr>"
  have l: "layout_ok ?c" using assms by (auto simp: layout_ok_def usable_def)
  have h: "con_height ?c = fb_height i" by (simp add: con_height_def)
  have "16 div 16 \<le> fb_height i div 16" by (rule div_le_mono) (use assms in \<open>simp add: usable_def\<close>)
  then have "vis ?c \<le> fb_height i div 16" by (simp add: CELL_H_def)
  then have "vis ?c * 16 \<le> fb_height i div 16 * 16" by (rule mult_le_mono1)
  also have "\<dots> \<le> fb_height i" by simp
  finally have v: "vis ?c * 16 \<le> fb_height i" .
  have n: "1 \<le> scr_cols ?c" "1 \<le> vis ?c" "vis ?c \<le> SCR_ROWS"
    by (simp_all add: scr_cols_def COLS_MAX_def SCR_ROWS_def)
  have hh: "16 \<le> con_height ?c" "vis ?c * 16 \<le> con_height ?c"
    using assms v unfolding h by (simp_all add: usable_def)
  from clear_ok [OF l hh(1) n hh(2)] obtain c' where "clear_screen ?c = Some c'" "con_ok c'" "bg c' = bg ?c"
    by blast
  moreover have "bg ?c = BG" by (simp add: empty_console_def)
  ultimately show ?thesis unfolding console_init_def by simp
qed

lemma recolour_ok:
  assumes "con_ok c" and "bg c = BG"
  shows "con_ok (c\<lparr>fg := f, bg := BG\<rparr>)"
proof -
  let ?c = "c\<lparr>fg := f, bg := BG\<rparr>"
  have w: "con_wf ?c"
    using con_ok_wf [OF assms(1)] by (simp add: con_wf_def layout_ok_def con_height_def scr_cols_def)
  have "draws ?c (screen_image c) ?c"
    by (rule draws_rebase [OF con_ok_draws [OF assms(1)]]) (use assms(2) in simp_all)
  moreover have "screen_image ?c = screen_image c" by (rule screen_image_cong) (use assms(2) in simp_all)
  ultimately show ?thesis using draws_ok [OF w] by simp
qed

lemma recolour_inv:
  assumes "con_inv c" and "bg c = BG"
  shows "con_inv (c\<lparr>fg := f, bg := BG\<rparr>)" and "synced c \<Longrightarrow> synced (c\<lparr>fg := f, bg := BG\<rparr>)"
proof -
  have w: "con_wf (c\<lparr>fg := f, bg := BG\<rparr>)"
    using con_inv_wf [OF assms(1)] by (simp add: con_wf_def layout_ok_def con_height_def scr_cols_def)
  show s: "synced (c\<lparr>fg := f, bg := BG\<rparr>)" if "synced c"
    using recolour_ok [OF _ assms(2)] that con_inv_wf [OF assms(1)] by (simp add: con_ok_def)
  show "con_inv (c\<lparr>fg := f, bg := BG\<rparr>)" using w s assms(1) by (simp add: con_inv_def)
qed

lemma back_inv:
  assumes "con_inv c" and "bg c = BG"
  shows "\<exists>c'. backspace_at c = Some c' \<and> con_inv c' \<and> bg c' = BG \<and> (synced c \<and> \<not> blots Backspace c \<longrightarrow> synced c')"
proof -
  consider "view c = 0" | "view c \<noteq> 0" "curs_col c = 0" | "view c \<noteq> 0" "curs_col c \<noteq> 0" by blast
  then show ?thesis
  proof cases
    case 1
    then obtain c' where "backspace_at c = Some c'" "con_ok c'" "bg c' = bg c"
      using backspace_ok [OF con_inv_ok [OF assms(1)]] by blast
    then show ?thesis using assms(2) by (auto simp: con_ok_inv con_ok_def)
  next
    case 2
    then show ?thesis using assms by (auto simp: backspace_at_def)
  next
    case 3
    obtain F where "draws c F c" using draws_self con_inv_wf [OF assms(1)] by (auto simp: con_wf_def)
    from backspace_view [OF con_inv_wf [OF assms(1)] _ _ this] 3 obtain c2 G where
      b: "backspace_at c = Some c2" "con_wf c2"
      and d: "draws (c\<lparr>curs_col := curs_col c - 1, cells := (cells c)((rows c - 1) * COLS_MAX + (curs_col c - 1) := EMPTY_CELL)\<rparr>) G c2"
      by blast
    then show ?thesis using 3 assms(2) draws_fields [OF d] by (simp add: con_inv_def blots_def)
  qed
qed

lemma step_inv:
  assumes i: "con_inv c" and b: "bg c = BG"
    and room: "\<And>ch. op = Write ch \<Longrightarrow> needs_row ch c \<Longrightarrow> rows c < SCR_ROWS"
  shows "\<exists>c'. con_step op c = Some c' \<and> con_inv c' \<and> bg c' = BG \<and> (repaints op c \<or> synced c \<and> \<not> blots op c \<longrightarrow> synced c')"
proof -
  have w: "con_wf c" by (rule con_inv_wf [OF i])
  have ok_case: ?thesis if "\<exists>c'. con_step op c = Some c' \<and> con_ok c' \<and> bg c' = BG"
    using that by (auto simp: con_ok_inv con_ok_def)
  have scroll: "\<exists>c'. paint (c\<lparr>view := v\<rparr>) = Some c' \<and> con_ok c' \<and> bg c' = BG" if "v \<le> rows c - vis c" for v
    using scroll_ok [OF w that] b by simp
  show ?thesis
  proof (cases op)
    case (Write ch)
    then show ?thesis by (intro ok_case) (use write_char_ok [OF i room [OF Write]] b in \<open>auto simp: con_step_def\<close>)
  next
    case Backspace
    then show ?thesis using back_inv [OF i b] by (auto simp: con_step_def repaints_def)
  next
    case Page_up
    then show ?thesis
      by (intro ok_case) (use scroll [of "min (view c + vis c) (rows c - vis c)"] in \<open>simp add: con_step_def tty_page_up_def\<close>)
  next
    case Page_down
    have "view c - vis c \<le> rows c - vis c" using w by (auto simp: con_wf_def)
    from scroll [OF this] show ?thesis using Page_down by (intro ok_case) (simp add: con_step_def tty_page_down_def)
  next
    case Home
    then show ?thesis by (intro ok_case) (use scroll [of "rows c - vis c"] in \<open>simp add: con_step_def tty_home_def\<close>)
  next
    case End
    then show ?thesis by (intro ok_case) (use scroll [of 0] in \<open>simp add: con_step_def tty_end_def\<close>)
  next
    case Clear
    then show ?thesis by (intro ok_case) (use clear_ok [of c] w b in \<open>auto simp: con_step_def con_wf_def\<close>)
  next
    case (Colour f)
    then show ?thesis using recolour_inv [OF i b] by (simp add: con_step_def set_colors_def repaints_def)
  next
    case Reset
    then show ?thesis using recolour_inv [OF i b] by (simp add: con_step_def reset_colors_def repaints_def)
  qed
qed

lemma step_room:
  assumes "con_inv c" and "con_step op c = Some c'" and "op = Write ch" and "needs_row ch c"
  shows "rows c < SCR_ROWS"
proof (rule ccontr)
  assume "\<not> rows c < SCR_ROWS"
  then have "rows c = SCR_ROWS" using con_inv_wf [OF assms(1)] by (simp add: con_wf_def)
  then show False using write_char_panics [OF assms(1,4)] assms(2,3) by (simp add: con_step_def)
qed

lemma reach_inv: "con_reach clean c \<Longrightarrow> con_inv c \<and> bg c = BG \<and> (clean \<longrightarrow> synced c)"
proof (induction rule: con_reach.induct)
  case (boot b i c)
  then show ?case using init_ok [of b i] by (auto simp: con_ok_inv con_ok_def)
next
  case (step clean c op c')
  have i: "con_inv c" "bg c = BG" "clean \<longrightarrow> synced c" using step.IH by blast+
  have r: "rows c < SCR_ROWS" if "op = Write ch" "needs_row ch c" for ch by (rule step_room [OF i(1) step.hyps(2) that])
  have "\<exists>c1. con_step op c = Some c1 \<and> con_inv c1 \<and> bg c1 = BG \<and> (repaints op c \<or> synced c \<and> \<not> blots op c \<longrightarrow> synced c1)"
    by (rule step_inv [OF i(1,2)]) (rule r)
  then obtain c1 where 1: "con_step op c = Some c1" "con_inv c1" "bg c1 = BG" "repaints op c \<or> synced c \<and> \<not> blots op c \<longrightarrow> synced c1"
    by blast
  then have "c1 = c'" using step.hyps(2) by simp
  then show ?case using 1 i(3) by blast
qed

text \<open>Where an operation panics.\<close>

lemma step_stops:
  assumes "con_reach clean c"
  shows "con_step op c = None \<longleftrightarrow> (\<exists>ch. op = Write ch \<and> needs_row ch c \<and> rows c = SCR_ROWS)"
proof
  have i: "con_inv c" and b: "bg c = BG" using reach_inv [OF assms] by simp_all
  show "\<exists>ch. op = Write ch \<and> needs_row ch c \<and> rows c = SCR_ROWS" if n: "con_step op c = None"
  proof (rule ccontr)
    assume "\<nexists>ch. op = Write ch \<and> needs_row ch c \<and> rows c = SCR_ROWS"
    then have rm: "rows c < SCR_ROWS" if "op = Write ch" "needs_row ch c" for ch
      using that con_inv_wf [OF i] by (fastforce simp: con_wf_def)
    have "\<exists>c'. con_step op c = Some c' \<and> con_inv c' \<and> bg c' = BG \<and> (repaints op c \<or> synced c \<and> \<not> blots op c \<longrightarrow> synced c')"
      by (rule step_inv [OF i b]) (rule rm)
    then show False using n by simp
  qed
  show "con_step op c = None" if "\<exists>ch. op = Write ch \<and> needs_row ch c \<and> rows c = SCR_ROWS"
    using that write_char_panics [OF i] by (auto simp: con_step_def)
qed

section \<open>Properties\<close>

text \<open>C8: after any sequence of characters, backspaces, scrolling, clearing and changes of colour, every
  pixel of the screen is the pixel of the visible window of the scrollback (the
  incremental drawing agrees with a full repaint), if the view follows the bottom or the
  screen has not been blotted since it was last painted anew.  Only one operation blots it, a
  backspace while the view is scrolled back (\<open>backspace_scrolled_back\<close>); the next character,
  scroll or clear paints it anew.  And no operation panics, except a character that needs a row
  when all \<open>SCR_ROWS\<close> rows are in use.
\<close>

theorem screen_always_current:
  assumes "con_reach clean c"
  shows "(clean \<or> view c = 0 \<longrightarrow> (\<forall>x < con_width c. \<forall>y < con_height c. get_pixel c x y = Some (screen_image c x y))) \<and>
    (\<forall>op. con_step op c = None \<longleftrightarrow> (\<exists>ch. op = Write ch \<and> needs_row ch c \<and> rows c = SCR_ROWS))"
proof (intro conjI allI impI)
  have i: "con_inv c" and cl: "clean \<Longrightarrow> synced c" using reach_inv [OF assms] by simp_all
  show "get_pixel c x y = Some (screen_image c x y)" if "clean \<or> view c = 0" "x < con_width c" "y < con_height c" for x y
    using con_ok_draws [OF con_inv_ok [OF i]] cl that by (auto simp: draws_def)
  show "con_step op c = None \<longleftrightarrow> (\<exists>ch. op = Write ch \<and> needs_row ch c \<and> rows c = SCR_ROWS)" for op
    by (rule step_stops [OF assms])
qed

lemma newline_rows:
  assumes "con_inv c" and "rows c < SCR_ROWS"
  shows "\<exists>c'. write_char 10 c = Some c' \<and> con_ok c' \<and> rows c' = rows c + 1"
proof -
  from follow_ok [OF assms(1)] obtain c1 where fo: "follow c = Some c1" and ok1: "con_ok c1" and v1: "view c1 = 0"
    and f1: "rows c1 = rows c" by blast
  have wc: "write_char 10 c = write_char 10 c1"
    using fo v1 by (auto simp: write_char_def follow_def split: if_splits)
  from new_line_ok [OF ok1 v1] assms(2) f1 obtain c2 where n: "new_line c1 = Some c2" "con_ok c2" "view c2 = 0"
    "rows c2 = rows c1 + 1" "curs_col c2 = 0" by auto
  have "0 < rows c2" using n(4) by simp
  from curs_line_bg_ok [OF n(2,3) this n(5)] n v1 f1 show ?thesis unfolding wc by (auto simp: write_char_def)
qed

text \<open>C29: the console survives exactly \<open>SCR_ROWS\<close> rows: printing \<open>n\<close> more lines panics when and only
  when the rows in use and the \<open>n\<close> new ones exceed 2000.  The code means to drop the oldest
  row there, but moves one row too many out of the array.
\<close>

theorem console_panics_after_last_row:
  assumes "con_reach clean c"
  shows "write_str (replicate n 10) c = None \<longleftrightarrow> SCR_ROWS < rows c + n"
proof -
  have "con_inv c" using reach_inv [OF assms] by simp
  then show ?thesis
  proof (induction n arbitrary: c)
    case 0
    then show ?case using con_inv_wf [OF 0] by (auto simp: con_wf_def)
  next
    case (Suc n)
    show ?case
    proof (cases "rows c < SCR_ROWS")
      case True
      from newline_rows [OF Suc.prems this] obtain c' where "write_char 10 c = Some c'" "con_ok c'" "rows c' = rows c + 1"
        by blast
      then show ?thesis using Suc.IH [of c'] con_ok_inv [of c'] by simp
    next
      case False
      then have r: "rows c = SCR_ROWS" using con_inv_wf [OF Suc.prems] by (simp add: con_wf_def)
      then have "write_char 10 c = None"
        using write_char_panics [OF Suc.prems, of 10] by (simp add: needs_row_def)
      then show ?thesis using r by simp
    qed
  qed
qed

text \<open>
  A backspace while the view is scrolled back blanks the cursor's place on the screen although
  the window shows another row there: the scrollback keeps the character that the screen has
  lost.
\<close>

theorem backspace_scrolled_back:
  assumes "con_reach True c" and "0 < view c" and "0 < curs_col c"
  shows "\<exists>c'. backspace_at c = Some c' \<and>
    (\<forall>x < con_width c. \<forall>y < con_height c. x div 8 = curs_col c - 1 \<and> y div 16 = vis c - 1 \<longrightarrow>
       get_pixel c' x y = Some (bg c) \<and> screen_image c' x y = screen_image c x y)"
proof -
  have i: "con_inv c" and sy: "synced c" using reach_inv [OF assms(1)] by simp_all
  have w: "con_wf c" by (rule con_inv_wf [OF i])
  let ?k = "(rows c - 1) * COLS_MAX + (curs_col c - 1)"
  let ?c = "c\<lparr>curs_col := curs_col c - 1, cells := (cells c)(?k := EMPTY_CELL)\<rparr>"
  have v: "view c \<le> rows c - vis c" "1 \<le> vis c" "rows c \<le> SCR_ROWS" "curs_col c \<le> scr_cols c"
    using w by (simp_all add: con_wf_def)
  then have r: "vis c < rows c" using assms(2) by linarith
  have cm: "curs_col c - 1 < COLS_MAX" using v(4) assms(3) scr_cols_le [of c] by linarith
  have sc: "scr_cols ?c = scr_cols c" by (simp add: scr_cols_def)
  from backspace_view [OF w assms(2,3) con_ok_draws [OF con_inv_ok [OF i]]] sy obtain c2 where
    b: "backspace_at c = Some c2"
    and d2: "draws ?c (\<lambda>x y. if x div 8 = curs_col c - 1 \<and> y div 16 = vis c - 1
      then cell_image (bg c) EMPTY_CELL (y mod 16) (x mod 8) else screen_image c x y) c2" by blast
  note f2 = draws_fields [OF d2]
  have st: "window_start c2 = rows c - vis c - view c" "window_start c = rows c - vis c - view c"
    using f2(14) r v by (simp_all add: window_start_def)
  have nk: "(rows c - vis c - view c + (vis c - 1)) * COLS_MAX + (curs_col c - 1) \<noteq> ?k"
    using v r assms(2) cm by (simp add: COLS_MAX_def)
  show ?thesis
  proof (intro exI conjI allI impI)
    show "backspace_at c = Some c2" by (rule b)
    fix x y assume xy: "x < con_width c" "y < con_height c" "x div 8 = curs_col c - 1 \<and> y div 16 = vis c - 1"
    have "con_width ?c = con_width c" "con_height ?c = con_height c" by (simp_all add: con_width_def con_height_def)
    then show "get_pixel c2 x y = Some (bg c)"
      using d2 xy by (simp add: draws_def cell_image_def EMPTY_CELL_def)
    show "screen_image c2 x y = screen_image c x y"
    proof -
      have e: "x div 8 = curs_col c - 1" "y div 16 = vis c - 1" using xy(3) by simp_all
      have g: "bg c2 = bg c" "scr_cols c2 = scr_cols c" "vis c2 = vis c" "rows c2 = rows c"
        "cells c2 ((rows c - vis c - view c + (vis c - 1)) * COLS_MAX + (curs_col c - 1)) =
         cells c ((rows c - vis c - view c + (vis c - 1)) * COLS_MAX + (curs_col c - 1))"
        using f2(3,5,7,13) sc nk unfolding f2(6) by simp_all
      show ?thesis unfolding screen_image_def Let_def e st g ..
    qed
  qed
qed

text \<open>A frame buffer of 80 by 48 pixels.\<close>

definition small_fb :: fb_info where
  "small_fb = \<lparr>fb_width = 80, fb_height = 48, fb_stride = 80, fb_bpp = 4, fb_format = Bgr_format\<rparr>"

lemma small_booted: "\<exists>c. con_reach True c \<and> con_width c = 80 \<and> con_height c = 48 \<and> rows c = 0"
proof -
  have "usable (15360, \<lambda>_. 0) small_fb" by (simp add: usable_def small_fb_def)
  moreover from this init_ok obtain c where c: "console_init (15360, \<lambda>_. 0) small_fb empty_console = Some c" by blast
  ultimately have r: "con_reach True c" by (rule con_reach.boot)
  let ?c = "empty_console\<lparr>buffer := Some (15360, \<lambda>_. 0), fbi := Some small_fb,
     cols := max 1 (min (fb_width small_fb div CELL_W) COLS_MAX), vis := max 1 (min (fb_height small_fb div CELL_H) SCR_ROWS)\<rparr>"
  have l: "layout_ok ?c" by (simp add: layout_ok_def small_fb_def)
  then obtain F where "draws ?c F ?c" using draws_self by blast
  from fill_rect_draws [OF this, of 0 80 0 48 "bg ?c"] obtain c1 F' where
    "fill_rect 0 0 80 48 (bg ?c) ?c = Some c1" and d: "draws ?c F' c1" by auto
  then have "c = c1\<lparr>cells := (\<lambda>k. if k < COLS_MAX * SCR_ROWS then EMPTY_CELL else cells c1 k), rows := 0, view := 0, curs_col := 0\<rparr>"
    using c by (simp add: console_init_def clear_screen_def con_ready_def con_width_def con_height_def small_fb_def)
  then have "rows c = 0" "fbi c = Some small_fb" using draws_fields(1) [OF d] by simp_all
  then show ?thesis using r by (auto simp: con_width_def con_height_def small_fb_def)
qed

theorem screen_always_current_witness:
  "\<exists>c. con_reach True c \<and> (\<forall>x < 80. \<forall>y < 48. get_pixel c x y = Some (screen_image c x y)) \<and> con_step (Write 65) c \<noteq> None"
proof -
  obtain c where c: "con_reach True c" "con_width c = 80" "con_height c = 48" "rows c = 0" using small_booted by blast
  have "con_step (Write 65) c \<noteq> None" using conjunct2 [OF screen_always_current [OF c(1)]] c(4) by (auto simp: SCR_ROWS_def)
  moreover have "\<forall>x < 80. \<forall>y < 48. get_pixel c x y = Some (screen_image c x y)"
    using conjunct1 [OF screen_always_current [OF c(1)]] c(2,3) by simp
  ultimately show ?thesis using c(1) by blast
qed

theorem console_panics_after_last_row_witness:
  "\<exists>c. con_reach True c \<and> write_str (replicate 2000 10) c \<noteq> None \<and> write_str (replicate 2001 10) c = None"
proof -
  obtain c where c: "con_reach True c" "rows c = 0" using small_booted by blast
  then show ?thesis
    using console_panics_after_last_row [OF c(1), of 2000] console_panics_after_last_row [OF c(1), of 2001]
    by (auto simp: SCR_ROWS_def)
qed

end
