(* ===== verification/Pci.thy ===== *)
theory Pci
  imports Paths
begin

text \<open>
  PCI enumeration (\<open>kernel/src/pci.rs\<close>).  The configuration space is the hardware's: a function
  from the address written to port 0xCF8 to the value then read at port 0xCFC.
\<close>

section \<open>Configuration space\<close>

type_synonym config_space = "u32 \<Rightarrow> u32"

record pci_device =
  pci_bus :: byte
  pci_dev :: byte
  pci_func :: byte
  vendor :: "16 word"
  device_id :: "16 word"
  pci_class :: byte
  sub_class :: byte
  progif :: byte
  header_type :: byte
  secondary_bus :: byte
  irq_line :: byte

definition MAX_PCI_DEVICES :: nat where "MAX_PCI_DEVICES = 64"

definition config_addr :: "byte \<Rightarrow> byte \<Rightarrow> byte \<Rightarrow> 16 word \<Rightarrow> u32" where
  "config_addr bus dev func off =
     0x80000000 OR push_bit 16 (ucast bus) OR push_bit 11 (ucast dev) OR push_bit 8 (ucast func) OR (ucast off AND 0xFC)"

definition config_read_u32 :: "config_space \<Rightarrow> byte \<Rightarrow> byte \<Rightarrow> byte \<Rightarrow> 16 word \<Rightarrow> u32" where
  "config_read_u32 hw bus dev func off = hw (config_addr bus dev func off)"

definition config_read_u16 :: "config_space \<Rightarrow> byte \<Rightarrow> byte \<Rightarrow> byte \<Rightarrow> 16 word \<Rightarrow> 16 word" where
  "config_read_u16 hw bus dev func off =
     ucast (drop_bit (unat (off AND 2) * 8) (config_read_u32 hw bus dev func off))"

definition config_read_u8 :: "config_space \<Rightarrow> byte \<Rightarrow> byte \<Rightarrow> byte \<Rightarrow> 16 word \<Rightarrow> byte" where
  "config_read_u8 hw bus dev func off =
     ucast (drop_bit (unat (off AND 3) * 8) (config_read_u32 hw bus dev func off))"

text \<open>What a write of 16 bits sends to the two ports.\<close>

definition config_write_u16 :: "byte \<Rightarrow> byte \<Rightarrow> byte \<Rightarrow> 16 word \<Rightarrow> 16 word \<Rightarrow> u32 \<times> u32" where
  "config_write_u16 bus dev func off v = (config_addr bus dev func off, ucast v)"

section \<open>Enumeration\<close>

record pci_scan =
  found :: "pci_device list"
  buses :: "nat list"

definition header_at :: "config_space \<Rightarrow> byte \<Rightarrow> byte \<Rightarrow> byte \<Rightarrow> byte" where
  "header_at hw bus dev func = config_read_u8 hw bus dev func 0x0E"

definition absent :: "config_space \<Rightarrow> byte \<Rightarrow> byte \<Rightarrow> byte \<Rightarrow> bool" where
  "absent hw bus dev func = (config_read_u16 hw bus dev func 0x00 = 0xFFFF)"

text \<open>The entry of a function, with the bus behind it when it is a bridge.\<close>

definition entry_of :: "config_space \<Rightarrow> byte \<Rightarrow> byte \<Rightarrow> byte \<Rightarrow> pci_device" where
  "entry_of hw bus dev func = (let htype = header_at hw bus dev func AND 0x7F in
     \<lparr>pci_bus = bus, pci_dev = dev, pci_func = func,
      vendor = config_read_u16 hw bus dev func 0x00, device_id = config_read_u16 hw bus dev func 0x02,
      pci_class = config_read_u8 hw bus dev func 0x0B, sub_class = config_read_u8 hw bus dev func 0x0A,
      progif = config_read_u8 hw bus dev func 0x09, header_type = htype,
      secondary_bus = (if htype = 0x01 then config_read_u8 hw bus dev func 0x19 else 0),
      irq_line = config_read_u8 hw bus dev func 0x3C\<rparr>)"

definition add_entry :: "pci_device \<Rightarrow> pci_scan \<Rightarrow> pci_scan" where
  "add_entry d s = (let b = unat (secondary_bus d) in
     s\<lparr>found := found s @ [d],
       buses := (if header_type d = 0x01 \<and> b \<notin> set (buses s) then buses s @ [b] else buses s)\<rparr>)"

text \<open>The functions from \<open>func\<close> on, \<open>n\<close> of them; True is the return with a full table.\<close>

fun scan_funcs :: "config_space \<Rightarrow> byte \<Rightarrow> byte \<Rightarrow> nat \<Rightarrow> nat \<Rightarrow> bool \<Rightarrow> pci_scan \<Rightarrow> bool \<times> pci_scan" where
  "scan_funcs hw bus dev func 0 multi s = (False, s)"
| "scan_funcs hw bus dev func (Suc n) multi s =
    (let f = of_nat func; hdr = header_at hw bus dev f; multi' = (if func = 0 then hdr AND 0x80 \<noteq> 0 else multi) in
     if func \<noteq> 0 \<and> \<not> multi' then (False, s)
     else if absent hw bus dev f then (False, s)
     else if MAX_PCI_DEVICES \<le> length (found s) then (True, s)
     else scan_funcs hw bus dev (func + 1) n multi' (add_entry (entry_of hw bus dev f) s))"

fun scan_devs :: "config_space \<Rightarrow> byte \<Rightarrow> nat \<Rightarrow> nat \<Rightarrow> pci_scan \<Rightarrow> bool \<times> pci_scan" where
  "scan_devs hw bus dev 0 s = (False, s)"
| "scan_devs hw bus dev (Suc n) s = (case scan_funcs hw bus (of_nat dev) 0 8 False s of
     (True, s') \<Rightarrow> (True, s')
   | (False, s') \<Rightarrow> scan_devs hw bus (dev + 1) n s')"

text \<open>What a scan adds to the list of buses is new, without repetition and below 256.\<close>

definition grows :: "pci_scan \<Rightarrow> pci_scan \<Rightarrow> bool" where
  "grows s s' = (\<exists>new more. buses s' = buses s @ new \<and> found s' = found s @ more \<and> distinct new \<and>
     set new \<inter> set (buses s) = {} \<and> (\<forall>b \<in> set new. b < 256))"

lemma grows_refl [simp]: "grows s s"
  by (simp add: grows_def)

lemma grows_trans: "grows s t \<Longrightarrow> grows t u \<Longrightarrow> grows s u"
  by (fastforce simp: grows_def)

lemma grows_add_entry: "grows s (add_entry d s)"
proof -
  have "unat (secondary_bus d) < 2 ^ LENGTH(8)" by (rule unsigned_less)
  then show ?thesis by (auto simp: grows_def add_entry_def Let_def)
qed

text \<open>A scan of a device or a bus is the addition of the functions it finds, up to the limit.\<close>

fun put_all :: "pci_device list \<Rightarrow> pci_scan \<Rightarrow> bool \<times> pci_scan" where
  "put_all [] s = (False, s)"
| "put_all (d # ds) s = (if MAX_PCI_DEVICES \<le> length (found s) then (True, s) else put_all ds (add_entry d s))"

lemma put_all_append: "put_all (xs @ ys) s = (case put_all xs s of (True, s') \<Rightarrow> (True, s') | (False, s') \<Rightarrow> put_all ys s')"
  by (induction xs s rule: put_all.induct) simp_all

lemma put_all_grows: "put_all ds s = (b, s') \<Longrightarrow> grows s s'"
  by (induction ds s rule: put_all.induct) (auto split: if_splits intro: grows_trans [OF grows_add_entry])

fun present_from :: "config_space \<Rightarrow> byte \<Rightarrow> byte \<Rightarrow> nat \<Rightarrow> nat \<Rightarrow> bool \<Rightarrow> nat list" where
  "present_from hw bus dev func 0 multi = []"
| "present_from hw bus dev func (Suc n) multi =
    (let multi' = (if func = 0 then header_at hw bus dev (of_nat func) AND 0x80 \<noteq> 0 else multi) in
     if func \<noteq> 0 \<and> \<not> multi' \<or> absent hw bus dev (of_nat func) then []
     else func # present_from hw bus dev (func + 1) n multi')"

definition entry_at :: "config_space \<Rightarrow> byte \<Rightarrow> nat \<Rightarrow> nat \<Rightarrow> pci_device" where
  "entry_at hw bus dev func = entry_of hw bus (of_nat dev) (of_nat func)"

definition dev_entries :: "config_space \<Rightarrow> byte \<Rightarrow> nat \<Rightarrow> pci_device list" where
  "dev_entries hw bus dev = map (entry_at hw bus dev) (present_from hw bus (of_nat dev) 0 8 False)"

lemma scan_funcs_put: "scan_funcs hw bus dev func n multi s =
    put_all (map (\<lambda>f. entry_of hw bus dev (of_nat f)) (present_from hw bus dev func n multi)) s"
  by (induction n arbitrary: func multi s) (simp_all add: Let_def)

lemma scan_devs_put: "scan_devs hw bus dev n s = put_all (concat (map (dev_entries hw bus) [dev..<dev + n])) s"
proof (induction n arbitrary: dev s)
  case (Suc n)
  have "[dev..<dev + Suc n] = dev # [dev + 1..<dev + 1 + n]" by (simp add: upt_conv_Cons)
  then have "concat (map (dev_entries hw bus) [dev..<dev + Suc n]) =
      dev_entries hw bus dev @ concat (map (dev_entries hw bus) [dev + 1..<dev + 1 + n])"
    by (simp only: list.map concat.simps)
  moreover have "scan_funcs hw bus (of_nat dev) 0 8 False s = put_all (dev_entries hw bus dev) s"
    by (simp add: scan_funcs_put dev_entries_def entry_at_def [abs_def])
  ultimately show ?case by (simp only: put_all_append scan_devs.simps Suc.IH)
qed simp

definition bus_entries :: "config_space \<Rightarrow> byte \<Rightarrow> pci_device list" where
  "bus_entries hw bus = concat (map (dev_entries hw bus) [0..<32])"

lemma scan_bus_put: "scan_devs hw bus 0 32 s = put_all (bus_entries hw bus) s"
  by (simp add: scan_devs_put bus_entries_def)

lemma grows_measure:
  assumes "grows s s'"
  shows "card ({0..<256} - set (buses s')) + length (buses s') = card ({0..<256} - set (buses s)) + length (buses s)"
proof -
  from assms obtain new where new: "buses s' = buses s @ new" "distinct new" "set new \<inter> set (buses s) = {}"
    "\<forall>b \<in> set new. b < 256" by (auto simp: grows_def)
  have sub: "set new \<subseteq> {0..<256} - set (buses s)" using new(3,4) by auto
  have "{0..<256} - set (buses s') = {0..<256} - set (buses s) - set new" using new(1) by auto
  then have "card ({0..<256} - set (buses s')) = card ({0..<256} - set (buses s)) - length new"
    using sub new(2) by (simp add: card_Diff_subset distinct_card)
  moreover have "length new \<le> card ({0..<256} - set (buses s))"
    using card_mono [OF _ sub] new(2) by (simp add: distinct_card)
  ultimately show ?thesis using new(1) by simp
qed

text \<open>The queue of buses grows only by buses below 256 that are not in it, so the scan ends.\<close>

function scan_buses :: "config_space \<Rightarrow> nat \<Rightarrow> pci_scan \<Rightarrow> pci_scan" where
  "scan_buses hw i s =
    (if i < length (buses s) then (case scan_devs hw (of_nat (buses s ! i)) 0 32 s of
         (True, s') \<Rightarrow> s'
       | (False, s') \<Rightarrow> scan_buses hw (i + 1) s')
     else s)"
  by pat_completeness auto
termination
proof (relation "measure (\<lambda>(hw, i, s). card ({0..<256} - set (buses s)) + length (buses s) - i)", goal_cases)
  case (2 hw i s full s')
  then have "put_all (bus_entries hw (of_nat (buses s ! i))) s = (full, s')" by (auto simp: scan_bus_put)
  then have "grows s s'" by (rule put_all_grows)
  from grows_measure [OF this] 2(1) show ?case by simp
qed simp

declare scan_buses.simps [simp del]

definition enumerate :: "config_space \<Rightarrow> pci_device list" where
  "enumerate hw = found (scan_buses hw 0 \<lparr>found = [], buses = [0]\<rparr>)"

section \<open>Names\<close>

definition class_names :: "(byte \<times> string) list" where
  "class_names = [
     (0x00, ''legacy''), (0x01, ''storage''), (0x02, ''network''), (0x03, ''display''),
     (0x04, ''multimedia''), (0x05, ''memory''), (0x06, ''bridge''), (0x07, ''comm''),
     (0x08, ''system''), (0x09, ''input''), (0x0A, ''docking''), (0x0B, ''processor''),
     (0x0C, ''serialbus''), (0x0D, ''wireless''), (0x0E, ''intelligent-io''), (0x0F, ''satellite''),
     (0x10, ''encryption''), (0x11, ''signal-proc''), (0x12, ''accel''), (0x13, ''nonessential'')]"

definition subclass_names :: "((byte \<times> byte) \<times> string) list" where
  "subclass_names = [
     ((0x01, 0x00), ''storage/SCSI''), ((0x01, 0x01), ''storage/IDE''), ((0x01, 0x02), ''storage/Floppy''),
     ((0x01, 0x03), ''storage/IPI''), ((0x01, 0x04), ''storage/RAID''), ((0x01, 0x05), ''storage/ATA''),
     ((0x01, 0x06), ''storage/SATA''), ((0x01, 0x07), ''storage/SAS''), ((0x01, 0x08), ''storage/NVMe''),
     ((0x03, 0x00), ''display/VGA''), ((0x03, 0x01), ''display/XGA''), ((0x03, 0x02), ''display/3D''),
     ((0x04, 0x00), ''multimedia/Video''), ((0x04, 0x01), ''multimedia/Audio''), ((0x04, 0x03), ''multimedia/HDA''),
     ((0x06, 0x00), ''bridge/Host''), ((0x06, 0x01), ''bridge/ISA''), ((0x06, 0x02), ''bridge/EISA''),
     ((0x06, 0x03), ''bridge/MCA''), ((0x06, 0x04), ''bridge/PCI-PCI''), ((0x06, 0x05), ''bridge/CardBus''),
     ((0x06, 0x06), ''bridge/RACEWAY''), ((0x06, 0x0A), ''bridge/PCI-PCI sub''), ((0x08, 0x00), ''system/PIC''),
     ((0x08, 0x01), ''system/DMA''), ((0x08, 0x03), ''system/Timer''), ((0x08, 0x04), ''system/RTC''),
     ((0x09, 0x00), ''input/Keyboard''), ((0x09, 0x01), ''input/Pen''), ((0x09, 0x02), ''input/Mouse''),
     ((0x0C, 0x00), ''serialbus/FireWire''), ((0x0C, 0x03), ''serialbus/USB''), ((0x0C, 0x05), ''serialbus/SMBus''),
     ((0x0C, 0x06), ''serialbus/InfiniBand'')]"

definition class_name :: "pci_device \<Rightarrow> string" where
  "class_name d = (case map_of subclass_names (pci_class d, sub_class d) of
     Some n \<Rightarrow> n
   | None \<Rightarrow> (case map_of class_names (pci_class d) of Some n \<Rightarrow> n | None \<Rightarrow> ''unknown''))"

definition device_name :: "pci_device \<Rightarrow> string" where
  "device_name d = (let v = vendor d; e = device_id d in
     if v = 0x8086 \<and> e = 0x1237 then ''Intel 82371AB/PIIX3 host bridge'' else
     if v = 0x8086 \<and> e = 0x7000 then ''Intel 82371SB PIIX3 ISA bridge'' else
     if v = 0x8086 \<and> e = 0x7010 then ''Intel 82371SB PIIX3 IDE'' else
     if v = 0x8086 \<and> e = 0x7111 then ''Intel PIIX4 IDE'' else
     if v = 0x8086 \<and> e = 0x7113 then ''Intel PIIX4 ACPI'' else
     if v = 0x8086 \<and> e = 0x2415 then ''Intel 82801AA AC97 audio'' else
     if v = 0x8086 \<and> e = 0x7020 then ''Intel UHCI USB controller'' else
     if v = 0x8086 \<and> e = 0x100E then ''Intel PRO/1000 (e1000)'' else
     if v = 0x8086 \<and> e = 0x10D3 then ''Intel 82574L (e1000e)'' else
     if v = 0x1234 \<and> e = 0x1111 then ''QEMU standard VGA'' else
     if v = 0x1AF4 then ''VirtIO device'' else
     if v = 0x10EC \<and> e = 0x8029 then ''Realtek RTL8029 (ne2k)'' else
     if v = 0x1013 \<and> e = 0x00B8 then ''Cirrus CLGD5446 VGA'' else
     if v = 0x1022 then ''AMD device'' else
     '''')"
section \<open>What enumeration finds\<close>

text \<open>
  A function is visible when it and all functions before it are present and, beyond the first,
  the device declares itself multifunction.  A bus is reachable when it is bus 0 or lies
  behind a visible bridge of a reachable bus.
\<close>

definition multifunction :: "config_space \<Rightarrow> byte \<Rightarrow> nat \<Rightarrow> bool" where
  "multifunction hw bus dev = (header_at hw bus (of_nat dev) 0 AND 0x80 \<noteq> 0)"

definition visible :: "config_space \<Rightarrow> byte \<Rightarrow> nat \<Rightarrow> nat \<Rightarrow> bool" where
  "visible hw bus dev func = (dev < 32 \<and> func < 8 \<and> (\<forall>g \<le> func. \<not> absent hw bus (of_nat dev) (of_nat g)) \<and>
     (0 < func \<longrightarrow> multifunction hw bus dev))"

inductive reachable_bus :: "config_space \<Rightarrow> nat \<Rightarrow> bool" for hw where
  root_bus: "reachable_bus hw 0"
| behind_bridge: "reachable_bus hw b \<Longrightarrow> visible hw (of_nat b) dev func \<Longrightarrow>
     header_type (entry_at hw (of_nat b) dev func) = 0x01 \<Longrightarrow>
     reachable_bus hw (unat (secondary_bus (entry_at hw (of_nat b) dev func)))"

lemma present_from_visible:
  "f \<in> set (present_from hw bus dev func n multi) \<longleftrightarrow>
     func \<le> f \<and> f < func + n \<and> (\<forall>g. func \<le> g \<and> g \<le> f \<longrightarrow> \<not> absent hw bus dev (of_nat g)) \<and>
     (0 < f \<longrightarrow> (if func = 0 then header_at hw bus dev 0 AND 0x80 \<noteq> 0 else multi))"
proof (induction n arbitrary: func multi)
  case (Suc n)
  let ?M = "if func = 0 then header_at hw bus dev 0 AND 0x80 \<noteq> 0 else multi"
  let ?A = "\<lambda>g. absent hw bus dev (of_nat g)"
  show ?case
  proof (cases "func < f")
    case True
    have "f \<in> set (present_from hw bus dev func (Suc n) multi) \<longleftrightarrow>
        (func \<noteq> 0 \<longrightarrow> ?M) \<and> \<not> ?A func \<and> f \<in> set (present_from hw bus dev (func + 1) n ?M)"
      using True by (auto simp: Let_def)
    moreover have "f \<in> set (present_from hw bus dev (func + 1) n ?M) \<longleftrightarrow>
        f < func + 1 + n \<and> (\<forall>g. func + 1 \<le> g \<and> g \<le> f \<longrightarrow> \<not> ?A g) \<and> ?M"
      using True by (simp add: Suc.IH)
    moreover have "(\<forall>g. func \<le> g \<and> g \<le> f \<longrightarrow> \<not> ?A g) \<longleftrightarrow> \<not> ?A func \<and> (\<forall>g. func + 1 \<le> g \<and> g \<le> f \<longrightarrow> \<not> ?A g)"
      using True by (metis Suc_eq_plus1 Suc_leD le_antisym less_or_eq_imp_le not_less_eq_eq)
    ultimately show ?thesis using True by auto
  next
    case False
    have "f \<in> set (present_from hw bus dev func (Suc n) multi) \<longleftrightarrow> f = func \<and> (func \<noteq> 0 \<longrightarrow> ?M) \<and> \<not> ?A func"
      using False by (auto simp: Let_def Suc.IH)
    moreover have "(\<forall>g. func \<le> g \<and> g \<le> func \<longrightarrow> \<not> ?A g) \<longleftrightarrow> \<not> ?A func"
      by (metis le_antisym order_refl)
    ultimately show ?thesis using False by auto
  qed
qed simp

lemma bus_entries_visible: "set (bus_entries hw bus) = {entry_at hw bus dev func |dev func. visible hw bus dev func}"
proof -
  have "set (bus_entries hw bus) = {entry_at hw bus dev func |dev func. dev < 32 \<and>
      func \<in> set (present_from hw bus (of_nat dev) 0 8 False)}"
    by (auto simp: bus_entries_def dev_entries_def) blast
  also have "\<dots> = {entry_at hw bus dev func |dev func. visible hw bus dev func}"
    by (simp add: present_from_visible visible_def multifunction_def)
  finally show ?thesis .
qed

lemma present_from_distinct: "distinct (present_from hw bus dev func n multi)"
proof (induction n arbitrary: func multi)
  case (Suc n)
  then show ?case by (auto simp: Let_def present_from_visible)
qed simp

definition address :: "pci_device \<Rightarrow> byte \<times> byte \<times> byte" where
  "address d = (pci_bus d, pci_dev d, pci_func d)"

lemma address_entry_at [simp]: "address (entry_at hw bus dev func) = (bus, of_nat dev, of_nat func)"
  by (simp add: address_def entry_at_def entry_of_def Let_def)

lemma small_byte_inj:
  assumes "m < 256" and "n < 256" and "(of_nat m :: byte) = of_nat n"
  shows "m = n"
proof -
  have "unat (of_nat m :: byte) = unat (of_nat n :: byte)" using assms(3) by simp
  then show ?thesis using assms(1,2) by (simp add: unat_of_nat)
qed
lemma bus_entries_distinct: "distinct (map address (bus_entries hw bus))"
proof -
  have dev: "distinct (map address (dev_entries hw bus d))" for d
  proof -
    have "inj_on (\<lambda>f. (bus, of_nat d :: byte, of_nat f :: byte)) (set (present_from hw bus (of_nat d) 0 8 False))"
      by (rule inj_onI) (auto simp: present_from_visible intro: small_byte_inj)
    then show ?thesis by (simp add: dev_entries_def comp_def distinct_map present_from_distinct)
  qed
  have "distinct (concat (map (\<lambda>d. map address (dev_entries hw bus d)) ds))" if "distinct ds" "set ds \<subseteq> {0..<32}" for ds
    using that
  proof (induction ds)
    case (Cons d ds)
    have "set (map address (dev_entries hw bus d)) \<inter> set (map address (dev_entries hw bus e)) = {}" if "e \<in> set ds" for e
    proof -
      have "(of_nat d :: byte) \<noteq> of_nat e"
        using Cons.prems that small_byte_inj [of d e] by fastforce
      then show ?thesis by (auto simp: dev_entries_def)
    qed
    then show ?case using Cons dev by auto
  qed simp
  from this [of "[0..<32]"] show ?thesis by (simp add: bus_entries_def map_concat comp_def)
qed

text \<open>The state of the scan before bus \<open>i\<close> of the queue is visited.\<close>

definition scan_inv :: "config_space \<Rightarrow> nat \<Rightarrow> pci_scan \<Rightarrow> bool" where
  "scan_inv hw i s = (i \<le> length (buses s) \<and> 0 < length (buses s) \<and> buses s ! 0 = 0 \<and> distinct (buses s) \<and>
     (\<forall>b \<in> set (buses s). b < 256 \<and> reachable_bus hw b) \<and>
     found s = concat (map (\<lambda>b. bus_entries hw (of_nat b)) (take i (buses s))) \<and> length (found s) \<le> MAX_PCI_DEVICES \<and>
     (\<forall>d \<in> set (found s). header_type d = 0x01 \<longrightarrow> unat (secondary_bus d) \<in> set (buses s)))"

lemma put_all_found: "put_all ds s = (b, s') \<Longrightarrow> length (found s) \<le> MAX_PCI_DEVICES \<Longrightarrow>
    length (found s') \<le> MAX_PCI_DEVICES \<and> (\<exists>k. found s' = found s @ take k ds \<and> (\<not> b \<longrightarrow> take k ds = ds) \<and>
      (b \<longrightarrow> length (found s') = MAX_PCI_DEVICES))"
proof (induction ds s rule: put_all.induct)
  case (2 d ds s)
  show ?case
  proof (cases "MAX_PCI_DEVICES \<le> length (found s)")
    case True
    then show ?thesis using 2 by (intro conjI exI [of _ 0]) auto
  next
    case False
    then have "put_all ds (add_entry d s) = (b, s')" "length (found (add_entry d s)) \<le> MAX_PCI_DEVICES"
      using "2.prems" by (simp_all add: add_entry_def Let_def)
    from "2.IH" [OF False this] obtain k where "length (found s') \<le> MAX_PCI_DEVICES"
      "found s' = found (add_entry d s) @ take k ds" "\<not> b \<longrightarrow> take k ds = ds" "b \<longrightarrow> length (found s') = MAX_PCI_DEVICES"
      by blast
    then show ?thesis by (intro conjI exI [of _ "Suc k"]) (auto simp: add_entry_def Let_def)
  qed
qed simp

lemma put_all_buses: "put_all ds s = (b, s') \<Longrightarrow>
    set (buses s') \<subseteq> set (buses s) \<union> {unat (secondary_bus d) |d. d \<in> set ds \<and> header_type d = 0x01} \<and>
    (\<not> b \<longrightarrow> (\<forall>d \<in> set ds. header_type d = 0x01 \<longrightarrow> unat (secondary_bus d) \<in> set (buses s')))"
proof (induction ds s rule: put_all.induct)
  case (2 d ds s)
  show ?case
  proof (cases "MAX_PCI_DEVICES \<le> length (found s)")
    case True
    then show ?thesis using 2 by auto
  next
    case False
    then have p: "put_all ds (add_entry d s) = (b, s')" using "2.prems" by simp
    have "set (buses (add_entry d s)) \<subseteq> set (buses s')" using put_all_grows [OF p] by (auto simp: grows_def)
    moreover have "header_type d = 0x01 \<Longrightarrow> unat (secondary_bus d) \<in> set (buses (add_entry d s))"
      by (simp add: add_entry_def Let_def)
    moreover have "set (buses (add_entry d s)) \<subseteq> set (buses s) \<union> {unat (secondary_bus e) |e. e = d \<and> header_type e = 0x01}"
      by (auto simp: add_entry_def Let_def)
    moreover note "2.IH" [OF False p]
    ultimately show ?thesis
    proof (intro conjI)
      show "set (buses s') \<subseteq> set (buses s) \<union> {unat (secondary_bus e) |e. e \<in> set (d # ds) \<and> header_type e = 0x01}"
        using \<open>set (buses (add_entry d s)) \<subseteq> set (buses s) \<union> _\<close> "2.IH" [OF False p, THEN conjunct1] by fastforce
      show "\<not> b \<longrightarrow> (\<forall>e \<in> set (d # ds). header_type e = 0x01 \<longrightarrow> unat (secondary_bus e) \<in> set (buses s'))"
        using \<open>set (buses (add_entry d s)) \<subseteq> set (buses s')\<close> "2.IH" [OF False p, THEN conjunct2]
          \<open>header_type d = 0x01 \<Longrightarrow> _\<close> by auto
    qed
  qed
qed simp
lemma scan_step:
  assumes inv: "scan_inv hw i s" and i: "i < length (buses s)"
    and p: "put_all (bus_entries hw (of_nat (buses s ! i))) s = (False, s')"
  shows "scan_inv hw (i + 1) s'"
proof -
  let ?b = "buses s ! i"
  obtain new where new: "buses s' = buses s @ new" "distinct new" "set new \<inter> set (buses s) = {}" "\<forall>b \<in> set new. b < 256"
    using put_all_grows [OF p] by (auto simp: grows_def)
  have f: "found s' = found s @ bus_entries hw (of_nat ?b)" "length (found s') \<le> MAX_PCI_DEVICES"
    using put_all_found [OF p] inv by (auto simp: scan_inv_def)
  have b: "reachable_bus hw ?b" using inv i by (simp add: scan_inv_def)
  have reach: "reachable_bus hw (unat (secondary_bus d))"
    if "d \<in> set (bus_entries hw (of_nat ?b))" "header_type d = 0x01" for d
    using that b by (auto simp: bus_entries_visible intro: behind_bridge)
  have n: "\<forall>x \<in> set new. reachable_bus hw x" using put_all_buses [OF p] new(1,3) reach by fastforce
  have t: "take (i + 1) (buses s') = take i (buses s) @ [?b]" using i new(1) by (simp add: take_Suc_conv_app_nth)
  have c: "\<forall>d \<in> set (found s'). header_type d = 0x01 \<longrightarrow> unat (secondary_bus d) \<in> set (buses s')"
    using put_all_buses [OF p] f(1) inv new(1) by (auto simp: scan_inv_def)
  show ?thesis unfolding scan_inv_def t
  proof (intro conjI)
    show "found s' = concat (map (\<lambda>b. bus_entries hw (of_nat b)) (take i (buses s) @ [?b]))"
      using inv f(1) by (simp add: scan_inv_def)
  qed (use inv i new n f(2) c in \<open>auto simp: scan_inv_def nth_append\<close>)
qed

lemma scan_buses_result:
  assumes "scan_inv hw i s"
  shows "length (found (scan_buses hw i s)) \<le> MAX_PCI_DEVICES \<and>
    (\<exists>k bs. found (scan_buses hw i s) = take k (concat (map (\<lambda>b. bus_entries hw (of_nat b)) bs)) \<and>
      distinct bs \<and> (\<forall>b \<in> set bs. b < 256 \<and> reachable_bus hw b)) \<and>
    (length (found (scan_buses hw i s)) < MAX_PCI_DEVICES \<longrightarrow>
      scan_inv hw (length (buses (scan_buses hw i s))) (scan_buses hw i s))"
  using assms
proof (induction hw i s rule: scan_buses.induct)
  case (1 hw i s)
  show ?case
  proof (cases "i < length (buses s)")
    case False
    then have i: "i = length (buses s)" using "1.prems" by (simp add: scan_inv_def)
    have "scan_buses hw i s = s" using False by (simp add: scan_buses.simps)
    moreover have "found s = take (length (found s)) (concat (map (\<lambda>b. bus_entries hw (of_nat b)) (buses s)))"
      using "1.prems" i by (simp add: scan_inv_def)
    ultimately show ?thesis using "1.prems" i unfolding scan_inv_def by metis
  next
    case True
    let ?b = "buses s ! i"
    obtain full s' where p: "put_all (bus_entries hw (of_nat ?b)) s = (full, s')" by fastforce
    show ?thesis
    proof (cases full)
      case False
      then have "scan_buses hw i s = scan_buses hw (i + 1) s'"
        using True p by (subst scan_buses.simps) (simp add: scan_bus_put)
      moreover have "scan_inv hw (i + 1) s'" using scan_step [OF "1.prems" True] p False by simp
      ultimately show ?thesis using "1.IH" [OF True, of full s'] p False by (simp add: scan_bus_put)
    next
      case full: True
      then have r: "scan_buses hw i s = s'"
        using True p by (subst scan_buses.simps) (simp add: scan_bus_put)
      let ?pre = "concat (map (\<lambda>b. bus_entries hw (of_nat b)) (take i (buses s)))"
      have le: "length (found s) \<le> MAX_PCI_DEVICES" and pre: "found s = ?pre"
        using "1.prems" unfolding scan_inv_def by blast+
      from put_all_found [OF p le] full obtain k where
        k: "found s' = ?pre @ take k (bus_entries hw (of_nat ?b))" "length (found s') = MAX_PCI_DEVICES"
        using pre by auto
      have t: "take (i + 1) (buses s) = take i (buses s) @ [?b]" using True by (simp add: take_Suc_conv_app_nth)
      have "found s' = take (length ?pre + k) (concat (map (\<lambda>b. bus_entries hw (of_nat b)) (take (i + 1) (buses s))))"
        by (simp only: k t) simp
      moreover have "distinct (take (i + 1) (buses s))" "\<forall>b \<in> set (take (i + 1) (buses s)). b < 256 \<and> reachable_bus hw b"
        using "1.prems" by (auto simp: scan_inv_def dest: in_set_takeD)
      ultimately show ?thesis using k(2) unfolding r by fastforce
    qed
  qed
qed

lemma distinct_take: "distinct xs \<Longrightarrow> distinct (take k xs)"
  by simp

lemma all_entries_distinct:
  assumes "distinct bs" and "\<forall>b \<in> set bs. b < 256"
  shows "distinct (map address (concat (map (\<lambda>b. bus_entries hw (of_nat b)) bs)))"
  using assms
proof (induction bs)
  case (Cons b bs)
  have "address ` set (bus_entries hw (of_nat b)) \<inter> address ` set (bus_entries hw (of_nat c)) = {}" if "c \<in> set bs" for c
  proof -
    have "(of_nat b :: byte) \<noteq> of_nat c" using Cons.prems that small_byte_inj [of b c] by auto
    then show ?thesis by (auto simp: bus_entries_visible)
  qed
  then show ?case using Cons bus_entries_distinct by auto
qed simp

text \<open>C15: enumeration ends; it lists no function twice, at most 64, each of them visible on a
  reachable bus, and all of these when there are fewer than 64.
\<close>

theorem enumerate_complete:
  "length (enumerate hw) \<le> 64 \<and> distinct (map address (enumerate hw)) \<and>
   set (enumerate hw) \<subseteq> {entry_at hw (of_nat b) dev func |b dev func. reachable_bus hw b \<and> visible hw (of_nat b) dev func} \<and>
   (length (enumerate hw) < 64 \<longrightarrow>
     {entry_at hw (of_nat b) dev func |b dev func. reachable_bus hw b \<and> visible hw (of_nat b) dev func} \<subseteq> set (enumerate hw))"
proof -
  let ?init = "\<lparr>found = [], buses = [0]\<rparr>" and ?all = "\<lambda>bs. concat (map (\<lambda>b. bus_entries hw (of_nat b)) bs)"
  let ?s = "scan_buses hw 0 ?init"
  have "scan_inv hw 0 ?init" by (simp add: scan_inv_def root_bus)
  note res = scan_buses_result [OF this]
  from res obtain k bs where k: "found ?s = take k (?all bs)" "distinct bs" "\<forall>b \<in> set bs. b < 256 \<and> reachable_bus hw b"
    by blast
  have "distinct (map address (?all bs))" using all_entries_distinct [OF k(2)] k(3) by blast
  then have d: "distinct (map address (found ?s))" unfolding k(1) take_map [symmetric] by (rule distinct_take)
  have "set (found ?s) \<subseteq> set (?all bs)" unfolding k(1) by (rule set_take_subset)
  then have sub: "set (found ?s) \<subseteq> {entry_at hw (of_nat b) dev func |b dev func. reachable_bus hw b \<and> visible hw (of_nat b) dev func}"
    using k(3) by (fastforce simp: bus_entries_visible)
  have all: "entry_at hw (of_nat b) dev func \<in> set (found ?s)"
    if len: "length (found ?s) < 64" and r: "reachable_bus hw b" and v: "visible hw (of_nat b) dev func" for b dev func
  proof -
    have inv: "scan_inv hw (length (buses ?s)) ?s" using res len unfolding MAX_PCI_DEVICES_def by blast
    from inv have "found ?s = ?all (take (length (buses ?s)) (buses ?s))" unfolding scan_inv_def by blast
    then have f: "found ?s = ?all (buses ?s)" by (simp only: take_all order_refl)
    have step: "entry_at hw (of_nat c) dev func \<in> set (found ?s)" if "c \<in> set (buses ?s)" "visible hw (of_nat c) dev func" for c dev func
      using that unfolding f by (fastforce simp: bus_entries_visible)
    have "b \<in> set (buses ?s)" using r
    proof (induction rule: reachable_bus.induct)
      case root_bus
      then show ?case using inv nth_mem [of 0 "buses ?s"] by (simp add: scan_inv_def)
    next
      case (behind_bridge c dev func)
      then show ?case using inv step by (auto simp: scan_inv_def)
    qed
    then show ?thesis using v by (rule step)
  qed
  show ?thesis using res d sub all by (auto simp: enumerate_def MAX_PCI_DEVICES_def)
qed

text \<open>An empty configuration space reads as ones everywhere.\<close>

theorem enumerate_complete_witness: "enumerate (\<lambda>a. 0xFFFFFFFF) = []"
proof -
  have "\<not> visible (\<lambda>a. 0xFFFFFFFF) bus dev func" for bus dev func
    by (auto simp: visible_def absent_def config_read_u16_def config_read_u32_def intro!: exI [of _ 0])
  then have "set (enumerate (\<lambda>a. 0xFFFFFFFF)) \<subseteq> {}"
    using enumerate_complete [of "\<lambda>a. 0xFFFFFFFF"] by blast
  then show ?thesis by simp
qed

end
