(* ===== verification/Utf8.thy ===== *)
theory Utf8
  imports Prelude
begin

text \<open>
  UTF-8 as the standard library encodes and validates it (\<open>char::encode_utf8\<close>,
  \<open>str::from_utf8\<close>, \<open>str::chars\<close>); the kernel uses it where text crosses a system call and
  in \<open>Utf8Chars\<close> (\<open>kernel/src/main.rs\<close>).
\<close>

section \<open>Encoding and decoding\<close>

text \<open>A \<open>char\<close> is a Unicode scalar value.\<close>

definition scalar :: "uchar \<Rightarrow> bool" where
  "scalar c = (c < 0xD800 \<or> 0xE000 \<le> c \<and> c < 0x110000)"

definition cont :: "nat \<Rightarrow> byte" where
  "cont v = of_nat (0x80 + v mod 64)"

definition lead :: "nat \<Rightarrow> nat \<Rightarrow> byte" where
  "lead h v = of_nat (h + v)"

definition utf8_enc :: "uchar \<Rightarrow> byte list" where
  "utf8_enc c =
    (if c < 0x80 then [lead 0 c]
     else if c < 0x800 then [lead 0xC0 (c div 64), cont c]
     else if c < 0x10000 then [lead 0xE0 (c div 4096), cont (c div 64), cont c]
     else [lead 0xF0 (c div 262144), cont (c div 4096), cont (c div 64), cont c])"

definition utf8 :: "uchar list \<Rightarrow> byte list" where
  "utf8 cs = concat (map utf8_enc cs)"

definition is_cont :: "byte \<Rightarrow> bool" where
  "is_cont b = (0x80 \<le> unat b \<and> unat b < 0xC0)"

text \<open>The second byte of a sequence of three or four bytes is restricted by the first: no
  surrogates, no overlong forms, nothing beyond U+10FFFF.\<close>

definition second_ok :: "nat \<Rightarrow> byte \<Rightarrow> bool" where
  "second_ok a b = (is_cont b \<and> (a = 0xE0 \<longrightarrow> 0xA0 \<le> unat b) \<and> (a = 0xED \<longrightarrow> unat b < 0xA0) \<and>
     (a = 0xF0 \<longrightarrow> 0x90 \<le> unat b) \<and> (a = 0xF4 \<longrightarrow> unat b < 0x90))"

definition low6 :: "byte \<Rightarrow> nat" where
  "low6 b = unat b - 0x80"

fun utf8_char :: "byte list \<Rightarrow> (uchar \<times> byte list) option" where
  "utf8_char [] = None"
| "utf8_char (a # bs) =
    (if unat a < 0x80 then Some (unat a, bs)
     else if unat a < 0xC2 then None
     else if unat a < 0xE0 then (case bs of
         b # r \<Rightarrow> if is_cont b then Some ((unat a - 0xC0) * 64 + low6 b, r) else None
       | _ \<Rightarrow> None)
     else if unat a < 0xF0 then (case bs of
         b # c # r \<Rightarrow> if second_ok (unat a) b \<and> is_cont c
           then Some ((unat a - 0xE0) * 4096 + low6 b * 64 + low6 c, r) else None
       | _ \<Rightarrow> None)
     else if unat a < 0xF5 then (case bs of
         b # c # d # r \<Rightarrow> if second_ok (unat a) b \<and> is_cont c \<and> is_cont d
           then Some ((unat a - 0xF0) * 262144 + low6 b * 4096 + low6 c * 64 + low6 d, r) else None
       | _ \<Rightarrow> None)
     else None)"

lemma utf8_char_shorter: "utf8_char bs = Some (c, r) \<Longrightarrow> length r < length bs"
  by (cases bs) (auto split: if_splits list.splits)

function from_utf8 :: "byte list \<Rightarrow> uchar list option" where
  "from_utf8 bs = (if bs = [] then Some [] else (case utf8_char bs of
     None \<Rightarrow> None
   | Some (c, r) \<Rightarrow> map_option (\<lambda>cs. c # cs) (from_utf8 r)))"
  by pat_completeness auto
termination by (relation "measure length") (auto simp: utf8_char_shorter)

declare from_utf8.simps [simp del]

lemma from_utf8_Nil [simp]: "from_utf8 [] = Some []"
  by (simp add: from_utf8.simps)

section \<open>Round trips\<close>

lemma unat_byte: "n < 256 \<Longrightarrow> unat (of_nat n :: byte) = n"
  by (simp add: unat_of_nat)

lemma unat_lead [simp]: "h + v < 256 \<Longrightarrow> unat (lead h v) = h + v"
  unfolding lead_def by (rule unat_byte)

lemma cont_simps [simp]: "unat (cont v) = 0x80 + v mod 64" "is_cont (cont v)" "low6 (cont v) = v mod 64"
proof -
  have "v mod 64 < 64" by simp
  then have "0x80 + v mod 64 < 256" by linarith
  then show u: "unat (cont v) = 0x80 + v mod 64" unfolding cont_def by (rule unat_byte)
  show "is_cont (cont v)" "low6 (cont v) = v mod 64" using u by (simp_all add: is_cont_def low6_def)
qed

lemma split64:
  "c div 64 * 64 + c mod 64 = (c :: nat)"
  "c div 4096 * 4096 + c div 64 mod 64 * 64 + c mod 64 = (c :: nat)"
  "c div 262144 * 262144 + c div 4096 mod 64 * 4096 + c div 64 mod 64 * 64 + c mod 64 = (c :: nat)"
proof -
  have d: "c div 4096 = c div 64 div 64" "c div 262144 = c div 64 div 64 div 64"
    by (simp_all add: div_mult2_eq [symmetric])
  have "c div 64 div 64 * 64 + c div 64 mod 64 = c div 64" "c div 64 div 64 div 64 * 64 + c div 64 div 64 mod 64 = c div 64 div 64"
    "c div 64 * 64 + c mod 64 = c" by simp_all
  then show "c div 64 * 64 + c mod 64 = c" "c div 4096 * 4096 + c div 64 mod 64 * 64 + c mod 64 = c"
    "c div 262144 * 262144 + c div 4096 mod 64 * 4096 + c div 64 mod 64 * 64 + c mod 64 = c"
    unfolding d by linarith+
qed

lemma utf8_char_two: "2 \<le> q \<Longrightarrow> q < 32 \<Longrightarrow> utf8_char (lead 0xC0 q # cont v # r) = Some (q * 64 + v mod 64, r)"
  by simp

lemma utf8_char_four:
  "q \<le> 4 \<Longrightarrow> (q = 0 \<longrightarrow> 16 \<le> x mod 64) \<Longrightarrow> (q = 4 \<longrightarrow> x mod 64 < 16) \<Longrightarrow>
   utf8_char (lead 0xF0 q # cont x # cont y # cont z # r) =
     Some (q * 262144 + x mod 64 * 4096 + y mod 64 * 64 + z mod 64, r)"
  by (auto simp: second_ok_def)

lemma utf8_char_enc:
  assumes "scalar c"
  shows "utf8_char (utf8_enc c @ r) = Some (c, r)"
proof -
  consider "c < 0x80" | "0x80 \<le> c" "c < 0x800" | "0x800 \<le> c" "c < 0x10000" | "0x10000 \<le> c" "c < 0x110000"
    using assms by (fastforce simp: scalar_def)
  then show ?thesis
  proof cases
    case 1
    then show ?thesis by (simp add: utf8_enc_def)
  next
    case 2
    have "c div 64 < 32" "2 \<le> c div 64" using 2 by (simp_all add: div_less_iff_less_mult less_eq_div_iff_mult_less_eq)
    from utf8_char_two [OF this(2,1)] show ?thesis using 2 split64(1) [of c] by (simp add: utf8_enc_def del: utf8_char.simps)
  next
    case 3
    have h: "c div 4096 < 16" using 3 by (simp add: div_less_iff_less_mult)
    have e: "c div 4096 = 0 \<Longrightarrow> 32 \<le> c div 64 mod 64"
      using 3 split64(2) [of c] by (cases "c div 64 mod 64 < 32") auto
    have s: "c div 4096 = 13 \<Longrightarrow> c div 64 mod 64 < 32"
      using assms split64(2) [of c] 3 by (cases "c div 64 mod 64 < 32") (auto simp: scalar_def div_less_iff_less_mult)
    show ?thesis using 3 h e s split64(2) [of c]
      by (auto simp: utf8_enc_def second_ok_def)
  next
    case 4
    have h: "c div 262144 \<le> 4" using 4 by (simp add: div_le_mono [of c "0x10FFFF" 262144, simplified])
    have e: "c div 262144 = 0 \<Longrightarrow> 16 \<le> c div 4096 mod 64"
      using 4 split64(3) [of c] by (cases "c div 4096 mod 64 < 16") auto
    have s: "c div 262144 = 4 \<Longrightarrow> c div 4096 mod 64 < 16"
      using 4 split64(3) [of c] by (cases "c div 4096 mod 64 < 16") auto
    have "utf8_char (lead 0xF0 (c div 262144) # cont (c div 4096) # cont (c div 64) # cont c # r) =
        Some (c div 262144 * 262144 + c div 4096 mod 64 * 4096 + c div 64 mod 64 * 64 + c mod 64, r)"
      by (rule utf8_char_four) (use h e s in blast)+
    then have "utf8_char (lead 0xF0 (c div 262144) # cont (c div 4096) # cont (c div 64) # cont c # r) = Some (c, r)"
      by (simp only: split64)
    then show ?thesis using 4 by (simp add: utf8_enc_def del: utf8_char.simps)
  qed
qed

lemma from_utf8_Cons: "scalar c \<Longrightarrow> from_utf8 (utf8_enc c @ r) = map_option (\<lambda>cs. c # cs) (from_utf8 r)"
proof -
  assume c: "scalar c"
  have "utf8_enc c @ r \<noteq> []" by (simp add: utf8_enc_def)
  then show ?thesis using utf8_char_enc [OF c, of r] by (subst from_utf8.simps) (simp del: utf8_char.simps)
qed

lemma from_utf8_utf8: "\<forall>c \<in> set cs. scalar c \<Longrightarrow> from_utf8 (utf8 cs) = Some cs"
  by (induction cs) (simp_all add: utf8_def from_utf8_Cons)

text \<open>Decoding a byte to its place in the scalar value, and back.\<close>

lemma cont_low6: "is_cont b \<Longrightarrow> v mod 64 = low6 b \<Longrightarrow> cont v = b"
  by (rule word_unat_eq_iff [THEN iffD2]) (simp add: is_cont_def low6_def)

lemma low6_less: "is_cont b \<Longrightarrow> low6 b < 64"
  by (auto simp: is_cont_def low6_def)

lemma lead_unat: "unat b = h + v \<Longrightarrow> lead h v = b"
proof -
  assume b: "unat b = h + v"
  have "unat b < 2 ^ LENGTH(8)" by (rule unsigned_less)
  then have "unat (lead h v) = unat b" using b by simp
  then show "lead h v = b" by (simp only: word_unat_eq_iff)
qed

lemma byte_at: "x < 64 \<Longrightarrow> (a * 64 + x) mod 64 = x" "x < 64 \<Longrightarrow> (a * 64 + x) div 64 = (a :: nat)"
  by simp_all

lemma utf8_char_sound:
  assumes "utf8_char bs = Some (c, r)"
  shows "scalar c \<and> bs = utf8_enc c @ r"
proof -
  obtain a t where bs: "bs = a # t" using assms by (cases bs) auto
  consider (one) "unat a < 0x80" | (two) "0xC2 \<le> unat a" "unat a < 0xE0"
    | (three) "0xE0 \<le> unat a" "unat a < 0xF0" | (four) "0xF0 \<le> unat a" "unat a < 0xF5"
    using assms by (force simp: bs split: if_splits)
  then show ?thesis
  proof cases
    case one
    then show ?thesis using assms by (auto simp: bs scalar_def utf8_enc_def intro!: lead_unat [symmetric])
  next
    case two
    then obtain b where t: "t = b # r" "is_cont b" "c = (unat a - 0xC0) * 64 + low6 b"
      using assms by (auto simp: bs split: list.splits if_splits)
    let ?q = "unat a - 0xC0"
    have q: "2 \<le> ?q" "?q < 32" using two by auto
    have d: "c div 64 = ?q" "c mod 64 = low6 b" using t(3) byte_at low6_less [OF t(2)] by simp_all
    have "0x80 \<le> c" "c < 0x800" using t(3) q low6_less [OF t(2)] by auto
    moreover have "lead 0xC0 ?q = a" using two by (intro lead_unat) simp
    ultimately show ?thesis using t(1,2) d by (simp add: bs scalar_def utf8_enc_def cont_low6)
  next
    case three
    then obtain b e where t: "t = b # e # r" "second_ok (unat a) b" "is_cont e"
      "c = (unat a - 0xE0) * 4096 + low6 b * 64 + low6 e"
      using assms by (auto simp: bs split: list.splits if_splits)
    let ?q = "unat a - 0xE0"
    have b: "is_cont b" using t(2) by (simp add: second_ok_def)
    have q: "?q < 16" using three by auto
    have c: "c = (?q * 64 + low6 b) * 64 + low6 e" using t(4) by simp
    have d: "c div 64 = ?q * 64 + low6 b" "c mod 64 = low6 e" unfolding c using byte_at [OF low6_less [OF t(3)]] by (simp_all only:)
    have d2: "c div 64 mod 64 = low6 b" "c div 64 div 64 = ?q" unfolding d using byte_at [OF low6_less [OF b]] by (simp_all only:)
    have d3: "c div 4096 = ?q" using d2(2) by (simp add: div_mult2_eq [symmetric])
    have lo: "?q = 0 \<Longrightarrow> 32 \<le> low6 b" and hi: "?q = 13 \<Longrightarrow> low6 b < 32"
      using t(2) three by (auto simp: second_ok_def low6_def is_cont_def)
    have "0x800 \<le> c" using lo t(4) by (cases "?q = 0") auto
    moreover have "c < 0x10000" using t(4) q low6_less [OF b] low6_less [OF t(3)] by auto
    moreover have "c < 0xD800 \<or> 0xE000 \<le> c"
    proof -
      consider "?q < 13" | "?q = 13" | "14 \<le> ?q" by linarith
      then show ?thesis using t(4) hi low6_less [OF b] low6_less [OF t(3)] by cases auto
    qed
    moreover have "lead 0xE0 ?q = a" using three by (intro lead_unat) simp
    ultimately show ?thesis using t(1,3) b d(2) d2(1) d3 by (simp add: bs scalar_def utf8_enc_def cont_low6)
  next
    case four
    then obtain b e f where t: "t = b # e # f # r" "second_ok (unat a) b" "is_cont e" "is_cont f"
      "c = (unat a - 0xF0) * 262144 + low6 b * 4096 + low6 e * 64 + low6 f"
      using assms by (auto simp: bs split: list.splits if_splits)
    let ?q = "unat a - 0xF0"
    have b: "is_cont b" using t(2) by (simp add: second_ok_def)
    have q: "?q \<le> 4" using four by auto
    have c: "c = ((?q * 64 + low6 b) * 64 + low6 e) * 64 + low6 f" using t(5) by simp
    have d: "c div 64 = (?q * 64 + low6 b) * 64 + low6 e" "c mod 64 = low6 f" unfolding c using byte_at [OF low6_less [OF t(4)]] by (simp_all only:)
    have d2: "c div 64 mod 64 = low6 e" "c div 64 div 64 = ?q * 64 + low6 b" unfolding d using byte_at [OF low6_less [OF t(3)]] by (simp_all only:)
    have d3: "c div 4096 = ?q * 64 + low6 b" using d2(2) by (simp add: div_mult2_eq [symmetric])
    have d4: "c div 4096 mod 64 = low6 b" "c div 4096 div 64 = ?q" unfolding d3 using byte_at [OF low6_less [OF b]] by (simp_all only:)
    have d5: "c div 262144 = ?q" using d4(2) by (simp add: div_mult2_eq [symmetric])
    have lo: "?q = 0 \<Longrightarrow> 16 \<le> low6 b" and hi: "?q = 4 \<Longrightarrow> low6 b < 16"
      using t(2) four by (auto simp: second_ok_def low6_def is_cont_def)
    have "0x10000 \<le> c" using lo t(5) by (cases "?q = 0") auto
    moreover have "c < 0x110000"
      using hi t(5) q low6_less [OF b] low6_less [OF t(3)] low6_less [OF t(4)] by (cases "?q = 4") auto
    moreover have "lead 0xF0 ?q = a" using four by (intro lead_unat) simp
    ultimately show ?thesis using t(1,3,4) b d(2) d2(1) d4(1) d5 by (simp add: bs scalar_def utf8_enc_def cont_low6)
  qed
qed

lemma from_utf8_sound: "from_utf8 bs = Some cs \<Longrightarrow> (\<forall>c \<in> set cs. scalar c) \<and> bs = utf8 cs"
proof (induction bs arbitrary: cs rule: from_utf8.induct)
  case (1 bs)
  show ?case
  proof (cases "bs = []")
    case True
    then show ?thesis using "1.prems" by (simp add: utf8_def)
  next
    case False
    then obtain c r cs' where c: "utf8_char bs = Some (c, r)" "from_utf8 r = Some cs'" "cs = c # cs'"
      using "1.prems" by (subst (asm) from_utf8.simps) (auto split: option.splits)
    from "1.IH" [OF False c(1) refl c(2)] utf8_char_sound [OF c(1)] c(3) show ?thesis by (simp add: utf8_def)
  qed
qed

section \<open>Lengths\<close>

lemma utf8_enc_length: "1 \<le> length (utf8_enc c)" "length (utf8_enc c) \<le> 4"
  by (simp_all add: utf8_enc_def)

lemma utf8_append [simp]: "utf8 (cs @ ds) = utf8 cs @ utf8 ds"
  by (simp add: utf8_def)

lemma utf8_simps [simp]: "utf8 [] = []" "utf8 (c # cs) = utf8_enc c @ utf8 cs"
  by (simp_all add: utf8_def)

lemma utf8_length: "length (utf8 cs) \<le> 4 * length cs"
proof (induction cs)
  case (Cons c cs)
  then show ?case using utf8_enc_length(2) [of c] by simp
qed simp

text \<open>decoding inverts encoding on every text of Unicode scalar values, and the bytes that are
  accepted are exactly the encodings of such texts.
\<close>

theorem utf8_roundtrip:
  "((\<forall>c \<in> set cs. scalar c) \<longrightarrow> from_utf8 (utf8 cs) = Some cs) \<and>
   (from_utf8 bs = Some cs \<longrightarrow> (\<forall>c \<in> set cs. scalar c) \<and> utf8 cs = bs)"
  using from_utf8_utf8 from_utf8_sound by blast

theorem utf8_roundtrip_witness:
  "from_utf8 (utf8 [0x41, 0x11F, 0x2665, 0x1F600]) = Some [0x41, 0x11F, 0x2665, 0x1F600]"
  using utf8_roundtrip [of "[0x41, 0x11F, 0x2665, 0x1F600]" "[]"] by (simp add: scalar_def)

end
