(* ===== verification/Ata.thy ===== *)
theory Ata
  imports Utf8 Disk
begin

text \<open>
  The table of disks (\<open>kernel/src/ata.rs\<close>).  An entry extends the fields that the file systems
  look at (theory Disk).
\<close>

section \<open>The table of devices\<close>

definition MAX_DEVICES :: nat where "MAX_DEVICES = 8"

record ata_entry = ata_device +
  is_secondary :: bool
  master :: bool
  lba_supported :: bool
  model :: "byte list"
  capacity_mb :: nat
  dev_index :: nat
  via_ahci :: bool

definition DEV_NONE :: ata_entry where
  "DEV_NONE = \<lparr>present = False, dev_sectors = 0, is_secondary = False, master = False, lba_supported = False,
     model = replicate 40 0, capacity_mb = 0, dev_index = 0, via_ahci = False\<rparr>"

record ata_table =
  devices :: "ata_entry list"
  dev_count :: nat

definition device :: "nat \<Rightarrow> ata_table \<Rightarrow> ata_entry option" where
  "device i t = idx (devices t) i"

text \<open>\<open>fetch_add\<close> wraps.\<close>

definition set_device :: "nat \<Rightarrow> ata_entry \<Rightarrow> ata_table \<Rightarrow> ata_table option" where
  "set_device i d t = (if i < length (devices t)
     then Some (t\<lparr>devices := (devices t)[i := d], dev_count := (dev_count t + 1) mod 2 ^ 64\<rparr>) else None)"

definition trim_model :: "byte list \<Rightarrow> byte list" where
  "trim_model m = rev (dropWhile (\<lambda>b. b = 32 \<or> b = 0) (rev m))"

definition model_str :: "ata_entry \<Rightarrow> uchar list" where
  "model_str d = (case from_utf8 (trim_model (model d)) of Some cs \<Rightarrow> cs | None \<Rightarrow> [63])"

end
