(* ===== verification/Cmdline.thy ===== *)
theory Cmdline
  imports Utf8
begin

text \<open>
  The command line parser of the kernel service (\<open>kernel/src/commands.rs\<close>) and its copy in the
  user shell (\<open>user/src/main.rs\<close>): splitting into arguments, comparison of names without regard
  to case, decimal arguments.  A line is a list of characters; None is a panic.
\<close>

section \<open>Splitting a line\<close>

definition MAX_ARGS :: nat where "MAX_ARGS = 8"
definition MAX_ARG_LEN :: nat where "MAX_ARG_LEN = 64"

definition blank :: "uchar \<Rightarrow> bool" where
  "blank c = (c = 32 \<or> c = 9)"

record arg_table =
  args :: "uchar list"
  lens :: "nat list"
  arg_count :: nat
  in_arg :: bool

definition no_args :: arg_table where
  "no_args = \<lparr>args = replicate (MAX_ARGS * MAX_ARG_LEN) 0, lens = replicate MAX_ARGS 0, arg_count = 0, in_arg = False\<rparr>"

text \<open>A blank ends the argument; another character goes to place \<open>pos\<close> of the table.\<close>

definition end_arg :: "arg_table \<Rightarrow> arg_table" where
  "end_arg t = (if in_arg t then t\<lparr>arg_count := (if arg_count t < MAX_ARGS then arg_count t + 1 else arg_count t),
     in_arg := False\<rparr> else t)"

definition put_arg :: "nat \<Rightarrow> uchar \<Rightarrow> arg_table \<Rightarrow> arg_table option" where
  "put_arg pos c t = do {
     n \<leftarrow> idx (lens t) (arg_count t);
     if n < MAX_ARG_LEN
     then (if pos + n < length (args t)
           then Some (t\<lparr>args := (args t)[pos + n := c], lens := (lens t)[arg_count t := n + 1]\<rparr>) else None)
     else Some t
   }"

fun parse_loop :: "uchar list \<Rightarrow> nat \<Rightarrow> arg_table \<Rightarrow> arg_table option" where
  "parse_loop [] pos t = Some t"
| "parse_loop (c # cs) pos t =
    (if blank c then parse_loop cs pos (end_arg t)
     else if \<not> in_arg t \<and> MAX_ARGS \<le> arg_count t then Some t
     else (let pos' = (if in_arg t then pos else arg_count t * MAX_ARG_LEN) in
       case put_arg pos' c (t\<lparr>in_arg := True\<rparr>) of None \<Rightarrow> None | Some t' \<Rightarrow> parse_loop cs pos' t'))"

definition close_args :: "arg_table \<Rightarrow> arg_table" where
  "close_args t = (if in_arg t \<and> arg_count t < MAX_ARGS then t\<lparr>arg_count := arg_count t + 1\<rparr> else t)"

definition parse_args :: "uchar list \<Rightarrow> arg_table option" where
  "parse_args cs = map_option close_args (parse_loop cs 0 no_args)"

text \<open>The copy in the user shell computes the place anew for every character.\<close>

fun user_parse_loop :: "uchar list \<Rightarrow> arg_table \<Rightarrow> arg_table option" where
  "user_parse_loop [] t = Some t"
| "user_parse_loop (c # cs) t =
    (if blank c then user_parse_loop cs (end_arg t)
     else if \<not> in_arg t \<and> MAX_ARGS \<le> arg_count t then Some t
     else (case put_arg (arg_count t * MAX_ARG_LEN) c (t\<lparr>in_arg := True\<rparr>) of
         None \<Rightarrow> None | Some t' \<Rightarrow> user_parse_loop cs t'))"

definition user_parse_args :: "uchar list \<Rightarrow> arg_table option" where
  "user_parse_args cs = map_option close_args (user_parse_loop cs no_args)"

text \<open>Argument \<open>i\<close>: empty beyond the last one.\<close>

definition arg_str :: "arg_table \<Rightarrow> nat \<Rightarrow> uchar list" where
  "arg_str t i = (if i < arg_count t then sub (i * MAX_ARG_LEN) (lens t ! i) (args t) else [])"

section \<open>Names and numbers\<close>

definition lower_char :: "uchar \<Rightarrow> uchar" where
  "lower_char c = (if 65 \<le> c \<and> c \<le> 90 then c + 32 else c)"

fun eq_ci_loop :: "uchar list \<Rightarrow> uchar list \<Rightarrow> bool" where
  "eq_ci_loop [] it = (it = [])"
| "eq_ci_loop (x # a) [] = False"
| "eq_ci_loop (x # a) (y # it) = (if lower_char x \<noteq> lower_char y then False else eq_ci_loop a it)"

definition eq_ci_str :: "uchar list \<Rightarrow> uchar list \<Rightarrow> bool" where
  "eq_ci_str a b = (if length a \<noteq> length b then False else eq_ci_loop a b)"

lemma eq_ci_str_iff: "eq_ci_str a b = (map lower_char a = map lower_char b)"
proof -
  have "length a = length b \<Longrightarrow> eq_ci_loop a b = (map lower_char a = map lower_char b)"
    by (induction a b rule: eq_ci_loop.induct) auto
  then show ?thesis by (auto simp: eq_ci_str_def dest: map_eq_imp_length_eq)
qed

definition is_digit :: "uchar \<Rightarrow> bool" where
  "is_digit c = (48 \<le> c \<and> c \<le> 57)"

text \<open>A decimal argument with saturating arithmetic; None is a character that is no digit.\<close>

fun parse_count :: "nat \<Rightarrow> uchar list \<Rightarrow> nat option" where
  "parse_count n [] = Some n"
| "parse_count n (c # cs) =
    (if \<not> is_digit c then None
     else parse_count (min (min (n * 10) (2 ^ 64 - 1) + (c - 48)) (2 ^ 64 - 1)) cs)"

fun skip_blanks :: "uchar list \<Rightarrow> uchar list" where
  "skip_blanks [] = []"
| "skip_blanks (c # cs) = (if blank c then skip_blanks cs else c # cs)"

section \<open>The words of a line\<close>

function words_of :: "uchar list \<Rightarrow> uchar list list" where
  "words_of cs = (case skip_blanks cs of [] \<Rightarrow> []
     | c # r \<Rightarrow> takeWhile (\<lambda>x. \<not> blank x) (c # r) # words_of (dropWhile (\<lambda>x. \<not> blank x) r))"
  by pat_completeness auto
termination
proof (relation "measure length")
  fix cs c r
  have "length (skip_blanks cs) \<le> length cs" by (induction cs rule: skip_blanks.induct) auto
  moreover assume "skip_blanks cs = c # r"
  ultimately have "length r < length cs" by simp
  then show "(dropWhile (\<lambda>x. \<not> blank x) r, cs) \<in> measure length"
    using length_dropWhile_le [of "\<lambda>x. \<not> blank x" r] by simp
qed simp

declare words_of.simps [simp del]

lemma skip_blanks_head: "skip_blanks cs = c # r \<Longrightarrow> \<not> blank c"
  by (induction cs rule: skip_blanks.induct) (auto split: if_splits)

lemma words_of_blank: "blank c \<Longrightarrow> words_of (c # cs) = words_of cs"
  by (subst (1 2) words_of.simps) simp

lemma words_of_Nil [simp]: "words_of [] = []"
  by (simp add: words_of.simps)

lemma words_of_word:
  "\<not> blank c \<Longrightarrow> words_of (c # cs) = (c # takeWhile (\<lambda>x. \<not> blank x) cs) # words_of (dropWhile (\<lambda>x. \<not> blank x) cs)"
  by (subst words_of.simps) simp

text \<open>\<open>stores t ws\<close>: the table holds the words \<open>ws\<close>, each cut to its place.\<close>

definition stores :: "arg_table \<Rightarrow> uchar list list \<Rightarrow> bool" where
  "stores t ws = (length (args t) = MAX_ARGS * MAX_ARG_LEN \<and> length (lens t) = MAX_ARGS \<and> length ws \<le> MAX_ARGS \<and>
     (\<forall>i < length ws. lens t ! i = min MAX_ARG_LEN (length (ws ! i)) \<and>
        sub (i * MAX_ARG_LEN) (lens t ! i) (args t) = take MAX_ARG_LEN (ws ! i)) \<and>
     (\<forall>i. length ws \<le> i \<and> i < MAX_ARGS \<longrightarrow> lens t ! i = 0))"

lemma stores_no_args: "stores no_args []"
  by (simp add: stores_def no_args_def)

lemma stores_flags [simp]: "stores (t\<lparr>in_arg := b\<rparr>) ws = stores t ws" "stores (t\<lparr>arg_count := n\<rparr>) ws = stores t ws"
  by (simp_all add: stores_def)

text \<open>A new word begins; a word grows by a character.\<close>

lemma stores_begin: "stores t ws \<Longrightarrow> length ws < MAX_ARGS \<Longrightarrow> stores t (ws @ [[]])"
  by (auto simp: stores_def nth_append sub_def less_Suc_eq)

lemma stores_grow:
  assumes st: "stores t (ws @ [w])"
  shows "\<exists>t'. put_arg (length ws * MAX_ARG_LEN) c (t\<lparr>arg_count := length ws, in_arg := b\<rparr>) = Some t' \<and>
    stores t' (ws @ [w @ [c]]) \<and> arg_count t' = length ws \<and> in_arg t' = b"
proof -
  let ?k = "length ws" and ?n = "min MAX_ARG_LEN (length w)"
  have k: "?k < MAX_ARGS" and la: "length (args t) = MAX_ARGS * MAX_ARG_LEN" and ll: "length (lens t) = MAX_ARGS"
    using st by (simp_all add: stores_def)
  have n: "lens t ! ?k = ?n" "sub (?k * MAX_ARG_LEN) ?n (args t) = take MAX_ARG_LEN w"
    using st by (auto simp: stores_def dest: spec [of _ ?k])
  show ?thesis
  proof (cases "length w < MAX_ARG_LEN")
    case False
    then show ?thesis using st n k ll
      by (auto simp: put_arg_def idx_def stores_def nth_append min_def less_Suc_eq)
  next
    case True
    let ?p = "?k * MAX_ARG_LEN + length w"
    have "(?k + 1) * MAX_ARG_LEN \<le> MAX_ARGS * MAX_ARG_LEN" using k by (intro mult_le_mono1) simp
    then have p: "?p < length (args t)" using True la by (simp add: algebra_simps)
    let ?t = "t\<lparr>arg_count := ?k, in_arg := b, args := (args t)[?p := c], lens := (lens t)[?k := length w + 1]\<rparr>"
    have put: "put_arg (?k * MAX_ARG_LEN) c (t\<lparr>arg_count := ?k, in_arg := b\<rparr>) = Some ?t"
      using k ll n(1) p True by (simp add: put_arg_def idx_def)
    have other: "sub (i * MAX_ARG_LEN) m ((args t)[?p := c]) = sub (i * MAX_ARG_LEN) m (args t)"
      if "i < ?k" "m \<le> MAX_ARG_LEN" for i m
    proof -
      have "(i + 1) * MAX_ARG_LEN \<le> ?k * MAX_ARG_LEN" using that(1) by (intro mult_le_mono1) simp
      then have "i * MAX_ARG_LEN + m \<le> ?p" using that(2) by (simp add: algebra_simps)
      then show ?thesis by (simp add: sub_def drop_update_swap)
    qed
    have new: "sub (?k * MAX_ARG_LEN) (length w + 1) ((args t)[?p := c]) = w @ [c]"
    proof -
      have w: "take (length w) (drop (?k * MAX_ARG_LEN) (args t)) = w" using n True by (simp add: sub_def)
      have "drop (?k * MAX_ARG_LEN) ((args t)[?p := c]) = (drop (?k * MAX_ARG_LEN) (args t))[length w := c]"
        using p by (simp add: drop_update_swap)
      moreover have "length w < length (drop (?k * MAX_ARG_LEN) (args t))" using p by simp
      ultimately show ?thesis using w by (simp add: sub_def take_Suc_conv_app_nth)
    qed
    have "stores ?t (ws @ [w @ [c]])"
      using st k la ll True new other
      by (auto simp: stores_def nth_append less_Suc_eq nth_list_update min_def)
    then show ?thesis using put by auto
  qed
qed

lemma stores_take: "stores t ws \<Longrightarrow> i < length ws \<Longrightarrow> sub (i * MAX_ARG_LEN) (lens t ! i) (args t) = take MAX_ARG_LEN (ws ! i)"
  unfolding stores_def by blast

lemma stores_length: "stores t ws \<Longrightarrow> length ws \<le> MAX_ARGS"
  by (simp add: stores_def)

definition holds :: "arg_table \<Rightarrow> uchar list list \<Rightarrow> bool" where
  "holds t ws = (stores t (take MAX_ARGS ws) \<and> arg_count (close_args t) = min MAX_ARGS (length ws))"

lemma parse_loop_words:
  "(stores t ws \<and> arg_count t = length ws \<and> \<not> in_arg t \<longrightarrow>
      (\<exists>t'. parse_loop cs pos t = Some t' \<and> holds t' (ws @ words_of cs))) \<and>
   (stores t (ws @ [w]) \<and> arg_count t = length ws \<and> in_arg t \<and> pos = length ws * MAX_ARG_LEN \<longrightarrow>
      (\<exists>t'. parse_loop cs pos t = Some t' \<and>
         holds t' (ws @ (w @ takeWhile (\<lambda>x. \<not> blank x) cs) # words_of (dropWhile (\<lambda>x. \<not> blank x) cs))))"
proof (induction cs arbitrary: t ws w pos)
  case Nil
  have "stores t ws \<Longrightarrow> length ws \<le> MAX_ARGS" for t ws by (rule stores_length)
  then show ?case by (fastforce simp: holds_def close_args_def min_def)
next
  case (Cons c cs)
  let ?nb = "\<lambda>x. \<not> blank x"
  note outside = Cons.IH [THEN conjunct1, rule_format, OF conjI [OF _ conjI]]
  note inside = Cons.IH [THEN conjunct2, rule_format, OF conjI [OF _ conjI [OF _ conjI]]]
  have put: "\<exists>t'. put_arg (length ws * MAX_ARG_LEN) c (s\<lparr>in_arg := True\<rparr>) = Some t' \<and>
      (\<exists>t''. parse_loop cs (length ws * MAX_ARG_LEN) t' = Some t'' \<and>
        holds t'' (ws @ (v @ c # takeWhile ?nb cs) # words_of (dropWhile ?nb cs)))"
    if s: "stores s (ws @ [v])" "arg_count s = length ws" for s ws v
  proof -
    have e: "s\<lparr>arg_count := length ws, in_arg := True\<rparr> = s\<lparr>in_arg := True\<rparr>" using s(2) by simp
    from stores_grow [OF s(1), of c True, unfolded e] obtain t' where
      t': "put_arg (length ws * MAX_ARG_LEN) c (s\<lparr>in_arg := True\<rparr>) = Some t'"
      "stores t' (ws @ [v @ [c]])" "arg_count t' = length ws" "in_arg t'" by blast
    from inside [OF t'(2-4) refl] t'(1) show ?thesis by simp
  qed
  show ?case
  proof (intro conjI impI)
    assume a: "stores t ws \<and> arg_count t = length ws \<and> \<not> in_arg t"
    show "\<exists>t'. parse_loop (c # cs) pos t = Some t' \<and> holds t' (ws @ words_of (c # cs))"
    proof (cases "blank c")
      case True
      then show ?thesis using outside [of t ws pos] a by (simp add: end_arg_def words_of_blank)
    next
      case nb: False
      show ?thesis
      proof (cases "MAX_ARGS \<le> length ws")
        case True
        then show ?thesis using a nb stores_length [of t ws] by (auto simp: holds_def close_args_def)
      next
        case False
        then have "stores t (ws @ [[]])" using a by (intro stores_begin) auto
        from put [OF this] a nb False show ?thesis by (auto simp: words_of_word)
      qed
    qed
  next
    assume b: "stores t (ws @ [w]) \<and> arg_count t = length ws \<and> in_arg t \<and> pos = length ws * MAX_ARG_LEN"
    then have l: "length ws < MAX_ARGS" using stores_length [of t "ws @ [w]"] by simp
    show "\<exists>t'. parse_loop (c # cs) pos t = Some t' \<and>
       holds t' (ws @ (w @ takeWhile ?nb (c # cs)) # words_of (dropWhile ?nb (c # cs)))"
    proof (cases "blank c")
      case True
      then show ?thesis using outside [of "end_arg t" "ws @ [w]" pos] b l by (simp add: end_arg_def words_of_blank)
    next
      case False
      then show ?thesis using put [of t ws w] b by auto
    qed
  qed
qed

lemma parse_args_stores:
  "\<exists>t. parse_args cs = Some t \<and> stores t (take MAX_ARGS (words_of cs)) \<and> arg_count t = min MAX_ARGS (length (words_of cs))"
proof -
  obtain t' where t': "parse_loop cs 0 no_args = Some t'" "holds t' (words_of cs)"
    using parse_loop_words [of no_args "[]" cs 0 "[]", THEN conjunct1] stores_no_args by (auto simp: no_args_def)
  have "stores (close_args t') ws = stores t' ws" for ws by (simp add: close_args_def)
  then show ?thesis using t' by (auto simp: parse_args_def holds_def)
qed

lemma words_of_lengths: "w \<in> set (words_of cs) \<Longrightarrow> length w \<le> length cs"
proof (induction cs arbitrary: w rule: words_of.induct)
  case (1 cs)
  have sk: "length (skip_blanks cs) \<le> length cs" by (induction cs rule: skip_blanks.induct) auto
  show ?case
  proof (cases "skip_blanks cs")
    case Nil
    then show ?thesis using "1.prems" by (simp add: words_of.simps [of cs])
  next
    case (Cons c r)
    have "length (takeWhile (\<lambda>x. \<not> blank x) (c # r)) \<le> length (c # r)" by (rule length_takeWhile_le)
    moreover have "length v \<le> length r" if "v \<in> set (words_of (dropWhile (\<lambda>x. \<not> blank x) r))" for v
      using "1.IH" [OF Cons that] length_dropWhile_le [of "\<lambda>x. \<not> blank x" r] by simp
    ultimately have "length w \<le> length (c # r)"
      using "1.prems" Cons by (fastforce simp: words_of.simps [of cs])
    then show ?thesis using sk Cons by simp
  qed
qed

lemma first_arg_length: "parse_args cs = Some t \<Longrightarrow> lens t ! 0 \<le> length cs"
proof -
  assume p: "parse_args cs = Some t"
  have t: "stores t (take MAX_ARGS (words_of cs))" using parse_args_stores [of cs] p by auto
  show ?thesis
  proof (cases "words_of cs")
    case Nil
    then show ?thesis using t by (simp add: stores_def MAX_ARGS_def)
  next
    case (Cons w ws)
    then have "lens t ! 0 = min MAX_ARG_LEN (length w)" using t by (auto simp: stores_def MAX_ARGS_def)
    then show ?thesis using words_of_lengths [of w cs] Cons by simp
  qed
qed

lemma first_word:
  assumes "parse_args cs = Some t" and "arg_count t \<noteq> 0"
  shows "words_of cs \<noteq> []" "arg_str t 0 = take 64 (hd (words_of cs))" "lens t ! 0 \<le> length cs"
proof -
  have t: "stores t (take MAX_ARGS (words_of cs))" "arg_count t = min MAX_ARGS (length (words_of cs))"
    using parse_args_stores [of cs] assms(1) by auto
  show ne: "words_of cs \<noteq> []" using t(2) assms(2) by auto
  have hd: "take MAX_ARGS (words_of cs) ! 0 = hd (words_of cs)" "0 < length (take MAX_ARGS (words_of cs))"
    using ne by (simp_all add: hd_conv_nth MAX_ARGS_def)
  have "lens t ! 0 = min MAX_ARG_LEN (length (hd (words_of cs)))" using t(1) hd unfolding stores_def by metis
  then show "lens t ! 0 \<le> length cs" using words_of_lengths [of "hd (words_of cs)" cs] ne by simp
  show "arg_str t 0 = take 64 (hd (words_of cs))"
    using stores_take [OF t(1) hd(2)] hd(1) assms(2) by (simp add: arg_str_def MAX_ARG_LEN_def)
qed

lemma user_parse_loop_eq: "(in_arg t \<longrightarrow> pos = arg_count t * MAX_ARG_LEN) \<Longrightarrow> user_parse_loop cs t = parse_loop cs pos t"
proof (induction cs pos t rule: parse_loop.induct)
  case (2 c cs pos t)
  show ?case
  proof (cases "blank c")
    case True
    then show ?thesis using "2.IH"(1) by (simp add: end_arg_def)
  next
    case nb: False
    let ?pos = "arg_count t * MAX_ARG_LEN"
    have p: "(if in_arg t then pos else ?pos) = ?pos" using "2.prems" by simp
    have cnt: "put_arg ?pos c (t\<lparr>in_arg := True\<rparr>) = Some t' \<Longrightarrow> arg_count t' = arg_count t" for t'
      by (auto simp: put_arg_def Let_def split: bind_splits if_splits option.splits)
    show ?thesis
      using nb "2.IH"(2) [OF nb _ p [symmetric]] cnt
      by (auto simp: p Let_def split: option.split)
  qed
qed simp

lemma user_parse_args_eq: "user_parse_args cs = parse_args cs"
  by (simp add: user_parse_args_def parse_args_def user_parse_loop_eq [where pos = 0] no_args_def)

text \<open>C21: both parsers never panic on any line and agree; argument \<open>i\<close> is the \<open>i\<close>-th of the first
  eight words of the line, cut to 64 characters, and there is none beyond.
\<close>

theorem parse_args_words:
  "\<exists>t. parse_args cs = Some t \<and> user_parse_args cs = Some t \<and> arg_count t = min 8 (length (words_of cs)) \<and>
    (\<forall>i. arg_str t i = (if i < min 8 (length (words_of cs)) then take 64 (words_of cs ! i) else []))"
proof -
  obtain t where t: "parse_args cs = Some t" "stores t (take MAX_ARGS (words_of cs))"
    "arg_count t = min MAX_ARGS (length (words_of cs))"
    using parse_args_stores by blast
  then have "arg_str t i = (if i < min 8 (length (words_of cs)) then take 64 (words_of cs ! i) else [])" for i
    using stores_take [OF t(2), of i] by (auto simp: arg_str_def MAX_ARGS_def MAX_ARG_LEN_def)
  then show ?thesis using t user_parse_args_eq by (auto simp: MAX_ARGS_def)
qed

end
