(* ===== verification/Commands.thy ===== *)
theory Commands
  imports Fs Users Input Console Pci Ata Cmdline
begin

text \<open>
  The commands of the kernel service (\<open>kernel/src/commands.rs\<close>, with \<open>Utf8Chars\<close> of
  \<open>kernel/src/main.rs\<close>).  The state joins the file system layer, the user table, the keyboard
  layout and the history with what the commands read of the machine.  Output is the sequence
  of screen events; the characters still to be typed are a list, and a command that waits for
  a character when there is none waits for ever (\<open>Hang\<close>).
\<close>

section \<open>State\<close>

datatype screen_event = Text "uchar list" | Set_fg rgb | Reset_fg | Cleared | Erased

record machine_info =
  mi_ticks :: nat
  mi_brand :: "byte list"
  mi_vendor :: "byte list"
  mi_model :: nat
  mi_mem_mb :: nat
  mi_fb :: "fb_info option"
  mi_format :: "uchar list"
  mi_disks :: ata_table
  mi_pci :: "pci_device list"

record ksys =
  k_fs :: fsys
  k_users :: users
  k_layout :: kbd_layout
  k_history :: "uchar list list"
  k_screen :: "screen_event list"
  k_input :: "uchar list"
  k_info :: machine_info

type_synonym 'a kop = "(ksys, fs_err, 'a) kernel"

definition event :: "screen_event \<Rightarrow> unit kop" where
  "event e = modify (\<lambda>k. k\<lparr>k_screen := k_screen k @ [e]\<rparr>)"

definition say :: "uchar list \<Rightarrow> unit kop" where
  "say cs = event (Text cs)"

definition say_line :: "uchar list \<Rightarrow> unit kop" where
  "say_line cs = say (cs @ [10])"

definition of_opt :: "'a option \<Rightarrow> 'a kop" where
  "of_opt r = (case r of None \<Rightarrow> panic | Some a \<Rightarrow> ret a)"

text \<open>A call of the file system layer; what it prints goes to the screen.\<close>

definition shown :: "fsys \<Rightarrow> ksys \<Rightarrow> ksys" where
  "shown f k = k\<lparr>k_fs := f\<lparr>tty := []\<rparr>, k_screen := k_screen k @ (if tty f = [] then [] else [Text (tty f)])\<rparr>"

definition on_fs :: "'a fsop \<Rightarrow> 'a kop" where
  "on_fs m = (\<lambda>k. case m ((k_fs k)\<lparr>tty := []\<rparr>) of (r, f) \<Rightarrow> (r, shown f k))"

fun each :: "'a list \<Rightarrow> ('a \<Rightarrow> unit kop) \<Rightarrow> unit kop" where
  "each [] f = ret ()"
| "each (x # xs) f = bnd (f x) (\<lambda>_. each xs f)"

section \<open>Tables\<close>

definition HISTORY_MAX :: nat where "HISTORY_MAX = 50"

definition COMMANDS :: "(string \<times> string) list" where
  "COMMANDS = [
     (''help'', ''shows the list of commands''),
     (''clear'', ''clears the screen''),
     (''echo'', ''prints the given text: echo <text>''),
     (''version'', ''shows the SolarOS version''),
     (''solarfetch'', ''shows system info in a fastfetch-style layout''),
     (''count'', ''counts from 1 to n: count <n>''),
     (''color'', ''changes the text color: color <color> (colors: red, green, blue, yellow, purple, cyan, orange, pink, white, default)''),
     (''status'', ''shows the system status (uptime, framebuffer, settings)''),
     (''loadkeys'', ''changes the keyboard layout like Linux: loadkeys <tr|trq|us|qwerty>''),
     (''help2'', ''hidden command''),
     (''wtest'', ''writes a pattern file and verifies it: wtest <path> <size> | verify''),
     (''history'', ''lists recently executed commands (heap-backed)''),
     (''diskinfo'', ''shows the detected ATA disks''),
     (''pci'', ''lists PCI devices (config space enumeration)''),
     (''ls'', ''lists files: ls [path]''),
     (''cd'', ''changes the directory: cd <path>''),
     (''pwd'', ''prints the current directory''),
     (''mkdir'', ''creates a directory: mkdir <path>''),
     (''touch'', ''creates an empty file: touch <path>''),
     (''cat'', ''prints a file: cat <path>''),
     (''rm'', ''removes a file: rm <path>''),
     (''rmdir'', ''removes an empty directory: rmdir <path>''),
     (''mv'', ''moves/renames: mv <old> <new>''),
     (''mkfs'', ''formats the data disk: mkfs [ext4] (default FAT32)''),
     (''whoami'', ''prints the current user''),
     (''users'', ''lists all users''),
     (''adduser'', ''creates a user: adduser <name>''),
     (''passwd'', ''sets a password: passwd [user]''),
     (''login'', ''switches the current user: login <user>''),
     (''su'', ''switches the current user: su <user>'')]"

definition LOGO_WIDTH :: nat where "LOGO_WIDTH = 36"

definition LOGO :: "uchar list list" where
  "LOGO = [
     [0x2800, 0x2800, 0x2800, 0x2800, 0x2800, 0x2800, 0x2800, 0x2800, 0x2800, 0x2800, 0x2800, 0x2800,
       0x2800, 0x28A0, 0x2840],
     [0x2800, 0x2800, 0x2800, 0x2800, 0x2800, 0x2800, 0x2800, 0x2800, 0x2800, 0x2800, 0x2800, 0x2800,
       0x2800, 0x28B8, 0x28F7, 0x2800, 0x2800, 0x2800, 0x2800, 0x2800, 0x2800, 0x2800, 0x2800, 0x2800,
       0x2800, 0x28C4],
     [0x2800, 0x2800, 0x2800, 0x2800, 0x2800, 0x2800, 0x2800, 0x2800, 0x2800, 0x2800, 0x2800, 0x2800,
       0x2800, 0x28FE, 0x285F, 0x2800, 0x2800, 0x2800, 0x2800, 0x2800, 0x2800, 0x2800, 0x2800, 0x2800,
       0x28F8, 0x287F],
     [0x2800, 0x2800, 0x2800, 0x2800, 0x2800, 0x2800, 0x2800, 0x2800, 0x2800, 0x2880, 0x2800, 0x2800,
       0x2800, 0x28B9, 0x28FF, 0x28C4, 0x2800, 0x2800, 0x28C4, 0x2800, 0x2800, 0x2800, 0x28E0, 0x28FE,
       0x285F, 0x2801],
     [0x2800, 0x2800, 0x2800, 0x2800, 0x2800, 0x2800, 0x2800, 0x2800, 0x2800, 0x2808, 0x28B3, 0x28C4,
       0x2800, 0x2800, 0x28BB, 0x28FF, 0x2847, 0x2830, 0x283F, 0x2800, 0x2800, 0x2880, 0x28FF, 0x28FF],
     [0x2800, 0x2800, 0x2824, 0x28C0, 0x28C0, 0x28C0, 0x2800, 0x2800, 0x2800, 0x2800, 0x2800, 0x2819,
       0x2806, 0x2800, 0x28FC, 0x28FF, 0x2877, 0x2820, 0x2866, 0x2800, 0x28E4, 0x28FE, 0x28FF, 0x2807,
       0x2800, 0x28E0, 0x2806],
     [0x2800, 0x2800, 0x2800, 0x2808, 0x281B, 0x28BF, 0x28F6, 0x28E4, 0x28E4, 0x28E4, 0x28C0, 0x28C0,
       0x2834, 0x2807, 0x2808, 0x2880, 0x28C0, 0x28E0, 0x28E4, 0x28E4, 0x2849, 0x281B, 0x280B, 0x28E4,
       0x2858, 0x280B, 0x2800, 0x2800, 0x2880, 0x28E0, 0x28E4, 0x28C4, 0x28E0, 0x28E4, 0x2874, 0x2802],
     [0x2800, 0x2800, 0x2800, 0x2800, 0x2800, 0x2800, 0x2809, 0x281B, 0x281B, 0x28BF, 0x28FF, 0x287F,
       0x2800, 0x28F0, 0x28FE, 0x287F, 0x281F, 0x281B, 0x281B, 0x281B, 0x28BF, 0x28F7, 0x28C4, 0x2808,
       0x28F5, 0x28E4, 0x28E4, 0x28F6, 0x28FF, 0x281F, 0x281B, 0x283B, 0x281B, 0x2819],
     [0x2800, 0x2800, 0x2800, 0x2800, 0x2820, 0x28A4, 0x28E4, 0x28E4, 0x2800, 0x2880, 0x28C9, 0x2801,
       0x28FC, 0x28FF, 0x280B, 0x28E0, 0x28F6, 0x28FF, 0x28FF, 0x28F7, 0x28C4, 0x2819, 0x28FF, 0x28C6,
       0x2818, 0x283F, 0x281F, 0x280B, 0x2801],
     [0x2800, 0x2800, 0x2800, 0x2800, 0x2800, 0x2800, 0x2800, 0x2800, 0x2880, 0x28C8, 0x28CD, 0x2800,
       0x28FF, 0x284F, 0x2808, 0x28FF, 0x28FF, 0x28C1, 0x2848, 0x2839, 0x28FF, 0x2847, 0x28BB, 0x28FF,
       0x2800, 0x283A, 0x2806, 0x2800, 0x28F6, 0x2836, 0x2826, 0x2802],
     [0x2800, 0x2800, 0x2800, 0x2800, 0x2800, 0x2800, 0x28A0, 0x28FE, 0x28FF, 0x28FF, 0x28FF, 0x2847,
       0x283B, 0x28FF, 0x28E6, 0x2848, 0x281B, 0x280B, 0x28C1, 0x28F4, 0x28FF, 0x2883, 0x28FD, 0x28FF,
       0x2800, 0x28E4, 0x2840],
     [0x2880, 0x28E4, 0x28FE, 0x28FF, 0x283F, 0x28FF, 0x287F, 0x281F, 0x2801, 0x2800, 0x2820, 0x28F6,
       0x2880, 0x2848, 0x283B, 0x283F, 0x28FF, 0x28FF, 0x283F, 0x280F, 0x28E1, 0x28FE, 0x287F, 0x2803,
       0x28F8, 0x28FF, 0x28FF, 0x28FF, 0x28FF, 0x28FF, 0x28F7, 0x28E6],
     [0x2800, 0x2800, 0x2800, 0x2800, 0x2800, 0x2800, 0x2800, 0x2880, 0x28F4, 0x281F, 0x2800, 0x2800,
       0x28FF, 0x28FF, 0x28FF, 0x28F7, 0x28F6, 0x28F6, 0x28FE, 0x287F, 0x281F, 0x280B, 0x2880, 0x28E4,
       0x2808, 0x2809, 0x2809, 0x2809, 0x2801, 0x2800, 0x281B, 0x283F, 0x28F6, 0x28E4, 0x28C4, 0x2840],
     [0x2800, 0x2800, 0x2800, 0x2800, 0x2800, 0x2800, 0x2800, 0x2808, 0x2800, 0x2800, 0x2800, 0x28B8,
       0x28FF, 0x285F, 0x2801, 0x2800, 0x28E5, 0x2841, 0x28A0, 0x28E4, 0x28F4, 0x28F6, 0x2800, 0x2801,
       0x28B6, 0x28C6],
     [0x2800, 0x2800, 0x2800, 0x2800, 0x2800, 0x2800, 0x2800, 0x2800, 0x2800, 0x2800, 0x2800, 0x28F8,
       0x28FF, 0x2847, 0x2800, 0x2880, 0x28CC, 0x2800, 0x2808, 0x28FF, 0x28FF, 0x2847, 0x2800, 0x2800,
       0x2800, 0x2809, 0x2803],
     [0x2800, 0x2800, 0x2800, 0x2800, 0x2800, 0x2800, 0x2800, 0x2800, 0x2800, 0x2800, 0x28FC, 0x28FF,
       0x280B, 0x2800, 0x2800, 0x2830, 0x2817, 0x2800, 0x2800, 0x2818, 0x28FF, 0x28FF, 0x2840],
     [0x2800, 0x2800, 0x2800, 0x2800, 0x2800, 0x2800, 0x2800, 0x2800, 0x2800, 0x28B8, 0x287F, 0x2801,
       0x2800, 0x2800, 0x2800, 0x2808, 0x2800, 0x2800, 0x2800, 0x2800, 0x2808, 0x283B, 0x28FF, 0x2844],
     [0x2800, 0x2800, 0x2800, 0x2800, 0x2800, 0x2800, 0x2800, 0x2800, 0x2800, 0x281F, 0x2800, 0x2800,
       0x2800, 0x2800, 0x2800, 0x2800, 0x2800, 0x2800, 0x2800, 0x2800, 0x2800, 0x2800, 0x28BF, 0x2847],
     [0x2800, 0x2800, 0x2800, 0x2800, 0x2800, 0x2800, 0x2800, 0x2800, 0x2800, 0x2800, 0x2800, 0x2800,
       0x2800, 0x2800, 0x2800, 0x2800, 0x2800, 0x2800, 0x2800, 0x2800, 0x2800, 0x2800, 0x2818, 0x2805]]"

definition LOGO_COLORS :: "rgb list" where
  "LOGO_COLORS = [
     (255, 255, 200), (255, 240, 191), (255, 225, 182), (255, 210, 173), (255, 195, 164),
     (255, 180, 155), (255, 165, 146), (255, 150, 137), (255, 135, 128), (255, 120, 119),
     (255, 105, 110), (255, 90, 101), (255, 75, 92), (255, 60, 83), (255, 45, 74),
     (255, 40, 65), (255, 40, 56), (255, 40, 47), (255, 40, 38)]"

definition COLORS :: "(string \<times> rgb) list" where
  "COLORS = [
     (''red'', (255, 90, 90)), (''green'', (120, 255, 140)), (''blue'', (90, 160, 255)), (''yellow'', (255, 210, 110)),
     (''purple'', (200, 120, 255)), (''cyan'', (90, 255, 220)), (''orange'', (255, 150, 60)), (''pink'', (255, 120, 180)),
     (''white'', (255, 255, 255))]"
definition ACCENT :: rgb where "ACCENT = (93, 220, 255)"

section \<open>Text commands\<close>

definition matches :: "uchar list \<Rightarrow> string \<Rightarrow> bool" where
  "matches name cmd = eq_ci_str name (chars cmd)"

definition remember :: "uchar list \<Rightarrow> uchar list list \<Rightarrow> uchar list list" where
  "remember ln h = (if h \<noteq> [] \<and> last h = ln then h
     else (let h' = h @ [ln] in if HISTORY_MAX < length h' then tl h' else h'))"

definition cmd_history :: "unit kop" where
  "cmd_history = bnd (gets k_history) (\<lambda>h.
     if h = [] then say_line (chars ''History is empty.'')
     else each (zip [1..<length h + 1] h) (\<lambda>(i, s). say_line (pad_left 4 (Paths.dec i) @ chars ''  '' @ s)))"

definition cmd_help :: "unit kop" where
  "cmd_help = bnd (say_line (chars ''SolarOS commands:'')) (\<lambda>_.
     each COMMANDS (\<lambda>(n, d). say_line (chars ''  '' @ pad_right 10 (chars n) @ chars '' - '' @ chars d)))"

definition cmd_echo :: "uchar list \<Rightarrow> unit kop" where
  "cmd_echo cs = (let trimmed = skip_blanks cs in
     if trimmed = [] then ret () else say_line (take 256 trimmed))"

definition cmd_count :: "uchar list \<Rightarrow> unit kop" where
  "cmd_count arg = (if arg = [] then say_line (chars ''Usage: count <n>'')
     else (case parse_count 0 arg of
       None \<Rightarrow> say_line (chars ''Error: enter a number.'')
     | Some n \<Rightarrow> (if n = 0 \<or> 100 < n
         then say_line (chars ''Counting to '' @ Paths.dec n @ chars '' is too long! (try 1-100)'')
         else each [1..<n + 1] (\<lambda>i. say_line (Paths.dec i)))))"

text \<open>A colour name: a colour, the default, or nothing known.\<close>

definition color_of :: "uchar list \<Rightarrow> rgb option option" where
  "color_of s = (case List.find (\<lambda>(n, c). eq_ci_str s (chars n)) COLORS of
     Some (n, c) \<Rightarrow> Some (Some c)
   | None \<Rightarrow> (if eq_ci_str s (chars ''default'') \<or> eq_ci_str s (chars ''reset'') then Some None else None))"

definition cmd_color :: "uchar list \<Rightarrow> unit kop" where
  "cmd_color arg = (let s = take 16 arg in case color_of s of
     None \<Rightarrow> say_line (chars ''Unknown color: '' @ [39] @ s @ [39] @ chars ''. (colors: red, green, blue, yellow, purple, cyan, orange, pink, white, default)'')
   | Some (Some c) \<Rightarrow> bnd (event (Set_fg c)) (\<lambda>_. say_line (chars ''Text color changed.''))
   | Some None \<Rightarrow> bnd (event Reset_fg) (\<lambda>_. say_line (chars ''Back to default colors.'')))"

definition layout_of :: "uchar list \<Rightarrow> kbd_layout option" where
  "layout_of s =
    (if eq_ci_str s (chars ''tr'') \<or> eq_ci_str s (chars ''trq'') \<or> eq_ci_str s (chars ''turkish'') \<or> eq_ci_str s (chars ''trf'')
     then Some TurkishQ
     else if eq_ci_str s (chars ''us'') \<or> eq_ci_str s (chars ''qwerty'') \<or> eq_ci_str s (chars ''english'') \<or>
       eq_ci_str s (chars ''us-intl'')
     then Some Us else None)"

definition set_layout :: "kbd_layout \<Rightarrow> unit kop" where
  "set_layout l = modify (\<lambda>k. k\<lparr>k_layout := l\<rparr>)"

definition cmd_loadkeys :: "uchar list \<Rightarrow> unit kop" where
  "cmd_loadkeys arg = (case layout_of (take 16 arg) of
     Some TurkishQ \<Rightarrow> bnd (set_layout TurkishQ) (\<lambda>_. say_line (chars ''Keyboard layout: trq''))
   | Some Us \<Rightarrow> bnd (set_layout Us) (\<lambda>_. say_line (chars ''Keyboard layout: en-us''))
   | None \<Rightarrow> say_line (chars ''Usage: loadkeys <tr|trq|us|qwerty>''))"

section \<open>Reports\<close>

definition user_name :: "nat \<Rightarrow> uchar list kop" where
  "user_name i = bnd (gets k_users) (\<lambda>u. of_opt (do {
     r \<leftarrow> idx (table u) i;
     upto_idx (u_name r) (u_name_len r)
   }))"

definition current_name :: "uchar list kop" where
  "current_name = bnd (gets (\<lambda>k. current_idx (k_users k))) user_name"

definition about_logo :: "nat \<Rightarrow> unit kop" where
  "about_logo i = bnd (event (Set_fg (LOGO_COLORS ! i))) (\<lambda>_.
     bnd (say (pad_right LOGO_WIDTH (LOGO ! i) @ [32, 32])) (\<lambda>_. event Reset_fg))"

definition about_row :: "nat \<Rightarrow> string \<Rightarrow> uchar list \<Rightarrow> unit kop" where
  "about_row i key value = bnd (about_logo i) (\<lambda>_. bnd (event (Set_fg ACCENT)) (\<lambda>_.
     bnd (say (pad_left 10 (chars key))) (\<lambda>_. bnd (say (chars '': '')) (\<lambda>_.
     bnd (event Reset_fg) (\<lambda>_. say_line value)))))"

definition hex_digit :: "nat \<Rightarrow> uchar" where
  "hex_digit d = (if d < 10 then 48 + d else 87 + d)"

fun hex :: "nat \<Rightarrow> uchar list" where
  "hex n = (if n < 16 then [hex_digit n] else hex (n div 16) @ [hex_digit (n mod 16)])"

declare hex.simps [simp del]

definition hex0 :: "nat \<Rightarrow> nat \<Rightarrow> uchar list" where
  "hex0 w n = replicate (w - length (hex n)) 48 @ hex n"

definition uptime :: "nat \<Rightarrow> uchar list" where
  "uptime secs = (if 3600 \<le> secs then Paths.dec (secs div 3600) @ chars ''h '' @ Paths.dec (secs mod 3600 div 60) @ chars ''m''
     else if 60 \<le> secs then Paths.dec (secs div 60) @ chars ''m '' @ Paths.dec (secs mod 60) @ chars ''s''
     else Paths.dec secs @ chars ''s'')"

definition trim_end :: "(uchar \<Rightarrow> bool) \<Rightarrow> uchar list \<Rightarrow> uchar list" where
  "trim_end p cs = rev (dropWhile p (rev cs))"

definition cpu_text :: "machine_info \<Rightarrow> uchar list" where
  "cpu_text i = (let brand = trim_end (\<lambda>c. c = 32 \<or> c = 0) (case from_utf8 (mi_brand i) of Some s \<Rightarrow> s | None \<Rightarrow> []) in
     if brand = []
     then trim_end (\<lambda>c. c = 0) (case from_utf8 (mi_vendor i) of Some s \<Rightarrow> s | None \<Rightarrow> chars ''Unknown'') @
       chars '' (model 0x'' @ hex (mi_model i) @ chars '')''
     else brand)"

text \<open>The capacities are added up in 64 bits.\<close>

fun total_mb :: "ata_entry list \<Rightarrow> nat \<Rightarrow> nat option" where
  "total_mb [] n = Some n"
| "total_mb (d # ds) n = (if \<not> present d then total_mb ds n
     else if n + capacity_mb d < 2 ^ 64 then total_mb ds (n + capacity_mb d) else None)"

definition all_devices :: "ata_table \<Rightarrow> ata_entry list option" where
  "all_devices t = upto_idx (devices t) MAX_DEVICES"

definition cmd_solarfetch :: "unit kop" where
  "cmd_solarfetch = bnd (gets k_info) (\<lambda>i.
     bnd (about_logo 0) (\<lambda>_. bnd (event (Set_fg ACCENT)) (\<lambda>_.
     bnd current_name (\<lambda>n. bnd (say_line (n @ chars ''@solaros'')) (\<lambda>_.
     bnd (about_logo 1) (\<lambda>_. bnd (event (Set_fg ACCENT)) (\<lambda>_.
     bnd (say_line (chars ''----------------'')) (\<lambda>_.
     bnd (about_row 2 ''OS'' (chars ''SolarOS 26.1 x86_64'')) (\<lambda>_.
     bnd (about_row 3 ''Kernel'' (chars ''solarcore 1.0'')) (\<lambda>_.
     bnd (about_row 4 ''Uptime'' (uptime (mi_ticks i div 1000))) (\<lambda>_.
     bnd (about_row 5 ''CPU'' (cpu_text i)) (\<lambda>_.
     bnd (about_row 6 ''Memory'' (Paths.dec (mi_mem_mb i) @ chars '' MB'')) (\<lambda>_.
     bnd (about_row 7 ''Resolution'' (case mi_fb i of
         Some f \<Rightarrow> Paths.dec (fb_width f) @ chars ''x'' @ Paths.dec (fb_height f)
       | None \<Rightarrow> chars ''unknown'')) (\<lambda>_.
     bnd (of_opt (all_devices (mi_disks i))) (\<lambda>ds. bnd (of_opt (total_mb ds 0)) (\<lambda>mb.
     bnd (about_row 8 ''Disks'' (Paths.dec (dev_count (mi_disks i)) @ chars '' devices ('' @ Paths.dec mb @ chars '' MB)'')) (\<lambda>_.
     bnd (gets k_layout) (\<lambda>l. bnd (about_row 9 ''Keyboard'' (chars (layout_code l))) (\<lambda>_.
     bnd (about_row 10 ''Terminal'' (chars ''tty'')) (\<lambda>_.
     each [11..<19] (\<lambda>j. bnd (about_logo j) (\<lambda>_. say [10]))))))))))))))))))))))"

definition cmd_status :: "unit kop" where
  "cmd_status = bnd (gets k_info) (\<lambda>i. let row = (\<lambda>key v. say_line (chars ''  '' @ pad_right 14 (chars key) @ chars '': '' @ v)) in
     bnd (say_line (chars ''System status:'')) (\<lambda>_.
     bnd (row ''Uptime'' (Paths.dec (mi_ticks i div 1000) @ chars '' seconds'')) (\<lambda>_.
     bnd (row ''Framebuffer'' (case mi_fb i of
         Some f \<Rightarrow> Paths.dec (fb_width f) @ chars ''x'' @ Paths.dec (fb_height f) @ chars '' px, '' @ mi_format i
       | None \<Rightarrow> chars ''NONE'')) (\<lambda>_.
     bnd (row ''Command count'' (Paths.dec (length COMMANDS))) (\<lambda>_.
     bnd current_name (\<lambda>n. bnd (row ''User'' n) (\<lambda>_.
     bnd (gets k_layout) (\<lambda>l. row ''Keyboard'' (chars (layout_code l))))))))))"

definition disk_line :: "nat \<Rightarrow> ata_entry \<Rightarrow> uchar list" where
  "disk_line i d =
    (if via_ahci d
     then chars ''  Disk '' @ Paths.dec i @ chars '' ([AHCI]): '' @ Paths.dec (capacity_mb d) @ chars '' MB, '' @ Paths.dec (dev_sectors d) @
       chars '' sectors, LBA48 - '' @ model_str d
     else chars ''  Disk '' @ Paths.dec i @ chars '' ('' @ chars (if is_secondary d then ''secondary'' else ''primary'') @ [58] @
       chars (if master d then ''master'' else ''slave'') @ chars ''): '' @ Paths.dec (capacity_mb d) @ chars '' MB, '' @
       Paths.dec (dev_sectors d) @ chars '' sectors, LBA '' @ chars (if lba_supported d then ''yes'' else ''no'') @ chars '' - '' @ model_str d)"

definition cmd_diskinfo :: "unit kop" where
  "cmd_diskinfo = bnd (say_line (chars ''Storage devices:'')) (\<lambda>_.
     bnd (gets k_info) (\<lambda>i. bnd (of_opt (all_devices (mi_disks i))) (\<lambda>ds.
     each (zip [0..<length ds] ds) (\<lambda>(j, d). if present d then say_line (disk_line j d) else ret ()))))"

definition pci_line :: "pci_device \<Rightarrow> uchar list" where
  "pci_line d = chars ''  '' @ hex0 2 (unat (pci_bus d)) @ [58] @ hex0 2 (unat (pci_dev d)) @ [46] @ Paths.dec (unat (pci_func d)) @
     chars ''  '' @ hex0 4 (unat (vendor d)) @ [58] @ hex0 4 (unat (device_id d)) @ chars ''  '' @
     (if device_name d = '''' then chars (class_name d)
      else pad_right 16 (chars (class_name d)) @ chars ''  '' @ chars (device_name d))"

definition cmd_pci :: "unit kop" where
  "cmd_pci = bnd (gets (\<lambda>k. mi_pci (k_info k))) (\<lambda>ds.
     if ds = [] then say_line (chars ''PCI: no devices found.'')
     else bnd (say_line (chars ''PCI devices ('' @ Paths.dec (length ds) @ chars ''):'')) (\<lambda>_. each ds (\<lambda>d. say_line (pci_line d))))"
section \<open>File commands\<close>

definition say_err :: "string \<Rightarrow> fs_err \<Rightarrow> unit kop" where
  "say_err cmd e = say_line (chars cmd @ chars '': '' @ chars (err_str e))"

definition report :: "string \<Rightarrow> unit fsop \<Rightarrow> unit kop" where
  "report cmd m = bnd (attempt (on_fs m)) (\<lambda>r. case r of Inl e \<Rightarrow> say_err cmd e | Inr u \<Rightarrow> ret ())"

definition if_mounted :: "string \<Rightarrow> unit kop \<Rightarrow> unit kop" where
  "if_mounted cmd m = bnd (gets (\<lambda>k. mounted (k_fs k))) (\<lambda>b. if b then m else say_err cmd NotFormatted)"

definition with_path :: "string \<Rightarrow> uchar list \<Rightarrow> unit fsop \<Rightarrow> unit kop" where
  "with_path cmd arg m = if_mounted cmd (if arg = [] then say_line (chars ''Usage: '' @ chars cmd @ chars '' <path>'')
     else report cmd m)"

definition cmd_ls :: "uchar list \<Rightarrow> unit kop" where "cmd_ls arg = if_mounted ''ls'' (report ''ls'' (Fs.ls arg))"
definition cmd_cd :: "uchar list \<Rightarrow> unit kop" where "cmd_cd arg = if_mounted ''cd'' (report ''cd'' (Fs.cd arg))"
definition cmd_pwd :: "unit kop" where "cmd_pwd = on_fs pwd"
definition cmd_mkdir :: "uchar list \<Rightarrow> unit kop" where "cmd_mkdir arg = with_path ''mkdir'' arg (Fs.mkdir arg)"
definition cmd_touch :: "uchar list \<Rightarrow> unit kop" where "cmd_touch arg = with_path ''touch'' arg (Fs.touch arg)"
definition cmd_cat :: "uchar list \<Rightarrow> unit kop" where "cmd_cat arg = with_path ''cat'' arg (Fs.cat arg)"
definition cmd_rm :: "uchar list \<Rightarrow> unit kop" where "cmd_rm arg = with_path ''rm'' arg (Fs.rm arg)"
definition cmd_rmdir :: "uchar list \<Rightarrow> unit kop" where "cmd_rmdir arg = with_path ''rmdir'' arg (Fs.rmdir arg)"

definition cmd_mv :: "uchar list \<Rightarrow> uchar list \<Rightarrow> unit kop" where
  "cmd_mv a b = if_mounted ''mv'' (if a = [] \<or> b = [] then say_line (chars ''Usage: mv <old> <new>'')
     else report ''mv'' (Fs.mv a b))"

definition cmd_mkfs :: "uchar list \<Rightarrow> unit kop" where
  "cmd_mkfs arg = (let ext4 = (arg \<noteq> [] \<and> arg ! 0 = 101) in
     bnd (attempt (on_fs (if ext4 then Fs.mkfs_ext4 else Fs.mkfs))) (\<lambda>r. case r of
       Inr u \<Rightarrow> say_line (chars ''mkfs: data disk formatted as '' @ chars (if ext4 then ''ext4'' else ''FAT32''))
     | Inl e \<Rightarrow> say_err ''mkfs'' e))"

definition WTEST_MAX :: nat where "WTEST_MAX = 4 * 1024 * 1024"

definition wtest_pattern :: "nat \<Rightarrow> byte" where
  "wtest_pattern i = of_nat (i * 2654435761 div 2 ^ 21) XOR of_nat i * 31"

text \<open>The size argument; the check against the limit comes after every digit.\<close>

fun wtest_size :: "nat \<Rightarrow> uchar list \<Rightarrow> string + nat" where
  "wtest_size n [] = Inr n"
| "wtest_size n (c # cs) =
    (if \<not> is_digit c then Inl ''wtest: invalid size''
     else (let n' = min (min (n * 10) (2 ^ 64 - 1) + (c - 48)) (2 ^ 64 - 1) in
       if WTEST_MAX < n' then Inl ''wtest: size must be <= 4194304'' else wtest_size n' cs))"

fun first_mismatch :: "nat \<Rightarrow> byte list \<Rightarrow> nat option" where
  "first_mismatch i [] = None"
| "first_mismatch i (b # bs) = (if b \<noteq> wtest_pattern i then Some i else first_mismatch (i + 1) bs)"

definition cmd_wtest :: "uchar list \<Rightarrow> uchar list \<Rightarrow> unit kop" where
  "cmd_wtest arg size_arg = if_mounted ''wtest''
    (if arg = [] \<or> size_arg = [] then say_line (chars ''Usage: wtest <path> <size|verify>'')
     else if matches size_arg ''verify'' then
       bnd (attempt (on_fs (Fs.read_file arg WTEST_MAX))) (\<lambda>r. case r of
         Inl e \<Rightarrow> say_err ''wtest'' e
       | Inr bs \<Rightarrow> (case first_mismatch 0 bs of
           Some i \<Rightarrow> say_line (chars ''wtest: MISMATCH at byte '' @ Paths.dec i)
         | None \<Rightarrow> say_line (chars ''wtest: verify OK ('' @ Paths.dec (length bs) @ chars '' bytes)'')))
     else (case wtest_size 0 size_arg of
       Inl msg \<Rightarrow> say_line (chars msg)
     | Inr n \<Rightarrow>
         (if n = 0 then say_line (chars ''wtest: size must be > 0'')
          else bnd (attempt (on_fs (Fs.write_file arg (map wtest_pattern [0..<n])))) (\<lambda>r.
            bnd (attempt (on_fs jbd_commit)) (\<lambda>_. case r of
              Inr u \<Rightarrow> say_line (chars ''wtest: wrote '' @ Paths.dec n @ chars '' bytes to '' @ arg)
            | Inl e \<Rightarrow> say_err ''wtest'' e)))))"

section \<open>Users\<close>

definition cmd_whoami :: "unit kop" where
  "cmd_whoami = bnd current_name say_line"

definition user_at :: "nat \<Rightarrow> user kop" where
  "user_at i = bnd (gets k_users) (\<lambda>u. of_opt (idx (table u) i))"

text \<open>\<open>Utf8Chars\<close> writes its characters and does not look at the width asked for.\<close>

definition cmd_users :: "unit kop" where
  "cmd_users = bnd (gets (\<lambda>k. user_count (k_users k))) (\<lambda>n.
     bnd (say_line (chars ''User accounts ('' @ Paths.dec n @ chars ''):'')) (\<lambda>_.
     each [0..<n] (\<lambda>i. bnd (user_name i) (\<lambda>name. bnd (user_at i) (\<lambda>u.
       say_line (chars ''  '' @ name @ chars '' uid='' @ pad_right 5 (Paths.dec (u_uid u)) @ chars '' gid='' @
         Paths.dec (u_gid u)))))))"

text \<open>
  The user table writes the password file through the file system layer; an error of the write
  is dropped, a panic in it is one.
\<close>

type_synonym fs_run = "(fs_err, unit) outcome \<times> fsys"

definition run_mounted :: "fs_run \<Rightarrow> bool" where
  "run_mounted f = mounted (snd f)"

definition run_write :: "uchar list \<Rightarrow> byte list \<Rightarrow> fs_run \<Rightarrow> fs_run" where
  "run_write path data f = Fs.write_file path data (snd f)"

definition on_users :: "(users \<Rightarrow> fs_run \<Rightarrow> ((string + 'a) \<times> users \<times> fs_run) option) \<Rightarrow> (string + 'a) kop" where
  "on_users m = (\<lambda>k. case m (k_users k) (Ret (), (k_fs k)\<lparr>tty := []\<rparr>) of
     None \<Rightarrow> (Panic, k)
   | Some (r, u, (out, f)) \<Rightarrow> (let k' = shown f (k\<lparr>k_users := u\<rparr>) in case out of
         Ret _ \<Rightarrow> (Ret r, k')
       | Fail _ \<Rightarrow> (Ret r, k')
       | Panic \<Rightarrow> (Panic, k')
       | PowerOff \<Rightarrow> (PowerOff, k')
       | Hang \<Rightarrow> (Hang, k')))"

definition find_user_op :: "uchar list \<Rightarrow> nat option kop" where
  "find_user_op name = bnd (gets k_users) (\<lambda>u. of_opt (find_user name u))"

definition cmd_adduser :: "uchar list \<Rightarrow> unit kop" where
  "cmd_adduser arg = (if arg = [] then say_line (chars ''Usage: adduser <name>'')
     else bnd (on_users (Users.add_user run_mounted run_write arg)) (\<lambda>r. case r of
       Inl msg \<Rightarrow> say_line (chars ''adduser: '' @ chars msg)
     | Inr i \<Rightarrow> bnd (user_name i) (\<lambda>name. bnd (user_at i) (\<lambda>u.
         say_line (chars ''user '' @ [39] @ name @ [39] @ chars '' added with uid '' @ Paths.dec (u_uid u))))))"

definition screen_of :: "screen_op \<Rightarrow> screen_event" where
  "screen_of s = (case s of Put c \<Rightarrow> Text [c] | EraseLast \<Rightarrow> Erased | NewLine \<Rightarrow> Text [10])"

text \<open>\<open>read_line\<close> on the characters that are still to come; None is Ctrl-C.\<close>

definition ask :: "string \<Rightarrow> (uchar list \<times> nat) option kop" where
  "ask prompt = bnd (say (chars prompt)) (\<lambda>_ k. case read_line False (k_input k) of (r, out, rest) \<Rightarrow>
     (let k' = k\<lparr>k_input := rest, k_screen := k_screen k @ map screen_of out\<rparr> in case r of
        Entered l n \<Rightarrow> (Ret (Some (l, n)), k')
      | Cancelled \<Rightarrow> (Ret None, k')
      | Waiting _ _ \<Rightarrow> (Hang, k')))"

definition same_entry :: "uchar list \<times> nat \<Rightarrow> uchar list \<times> nat \<Rightarrow> bool" where
  "same_entry a b = (list_all (\<lambda>(x, y). x = y) (zip (fst a) (fst b)) \<and> snd a = snd b)"

definition new_password :: "nat \<Rightarrow> unit kop" where
  "new_password i = bnd (ask ''New password: '') (\<lambda>a. case a of
     None \<Rightarrow> say_line (chars ''passwd: cancelled'')
   | Some p \<Rightarrow> bnd (ask ''Repeat password: '') (\<lambda>b. case b of
       None \<Rightarrow> say_line (chars ''passwd: cancelled'')
     | Some q \<Rightarrow>
         (if \<not> same_entry p q then say_line (chars ''passwd: passwords do not match'')
          else bnd (of_opt (upto_idx (fst p) (snd p))) (\<lambda>pw.
            bnd (on_users (Users.set_password run_mounted run_write i pw)) (\<lambda>r. case r of
              Inr u \<Rightarrow> say_line (chars ''passwd: password updated'')
            | Inl msg \<Rightarrow> say_line (chars ''passwd: '' @ chars msg))))))"

definition cmd_passwd :: "uchar list \<Rightarrow> unit kop" where
  "cmd_passwd arg = (if arg = [] then bnd (gets (\<lambda>k. current_idx (k_users k))) new_password
     else bnd (find_user_op arg) (\<lambda>r. case r of
       Some i \<Rightarrow> new_password i
     | None \<Rightarrow> say_line (chars ''passwd: no such user'')))"

definition try_login :: "nat \<Rightarrow> uchar list \<times> nat \<Rightarrow> unit kop" where
  "try_login i p = bnd (of_opt (upto_idx (fst p) (snd p))) (\<lambda>pw.
     bnd (gets k_users) (\<lambda>u. bnd (of_opt (check_password i pw u)) (\<lambda>ok.
     if \<not> ok then say_line (chars ''login: authentication failure'')
     else bnd (modify (\<lambda>k. k\<lparr>k_users := set_current i (k_users k)\<rparr>)) (\<lambda>_.
       bnd (user_name i) (\<lambda>name. say_line (chars ''logged in as '' @ name))))))"

definition cmd_login :: "uchar list \<Rightarrow> unit kop" where
  "cmd_login arg = (if arg = [] then say_line (chars ''Usage: login <user>'')
     else bnd (find_user_op arg) (\<lambda>r. case r of
       None \<Rightarrow> say_line (chars ''login: no such user '' @ [39] @ arg @ [39])
     | Some i \<Rightarrow> bnd (gets k_users) (\<lambda>u. bnd (of_opt (has_password i u)) (\<lambda>b.
         if b then bnd (ask ''Password: '') (\<lambda>a. case a of
             None \<Rightarrow> say_line (chars ''login: cancelled'')
           | Some p \<Rightarrow> try_login i p)
         else try_login i (replicate READ_CAP 0, 0)))))"

section \<open>The dispatcher\<close>

definition dispatch :: "uchar list \<Rightarrow> arg_table \<Rightarrow> unit kop" where
  "dispatch cs t = (let name = arg_str t 0; a = arg_str t 1 in
     if matches name ''help'' then cmd_help
     else if matches name ''clear'' then event Cleared
     else if matches name ''echo'' then bnd (guard_panic (lens t ! 0 \<le> length cs)) (\<lambda>_. cmd_echo (drop (lens t ! 0) cs))
     else if matches name ''version'' then say_line (chars ''SolarOS 26.1'')
     else if matches name ''solarfetch'' then cmd_solarfetch
     else if matches name ''count'' then cmd_count a
     else if matches name ''color'' then cmd_color a
     else if matches name ''status'' then cmd_status
     else if matches name ''loadkeys'' then cmd_loadkeys a
     else if matches name ''history'' then cmd_history
     else if matches name ''help2'' then say_line (chars ''Hidden command found! More is coming here in the future.'')
     else if matches name ''diskinfo'' then cmd_diskinfo
     else if matches name ''pci'' then cmd_pci
     else if matches name ''ls'' then cmd_ls a
     else if matches name ''cd'' then cmd_cd a
     else if matches name ''pwd'' then cmd_pwd
     else if matches name ''mkdir'' then cmd_mkdir a
     else if matches name ''touch'' then cmd_touch a
     else if matches name ''cat'' then cmd_cat a
     else if matches name ''rm'' then cmd_rm a
     else if matches name ''rmdir'' then cmd_rmdir a
     else if matches name ''mv'' then cmd_mv a (arg_str t 2)
     else if matches name ''wtest'' then cmd_wtest a (arg_str t 2)
     else if matches name ''mkfs'' then cmd_mkfs a
     else if matches name ''whoami'' then cmd_whoami
     else if matches name ''users'' then cmd_users
     else if matches name ''adduser'' then cmd_adduser a
     else if matches name ''passwd'' then cmd_passwd a
     else if matches name ''login'' \<or> matches name ''su'' then cmd_login a
     else say_line (chars ''Unknown command: '' @ [39] @ take 32 name @ [39] @ chars ''. Type '' @ [39] @ chars ''help'' @ [39] @
       chars '' for a list of commands.''))"

definition execute :: "uchar list \<Rightarrow> unit kop" where
  "execute cs = bnd (of_opt (parse_args cs)) (\<lambda>t.
     if arg_count t = 0 then ret ()
     else bnd (if matches (arg_str t 0) ''history'' then ret ()
         else modify (\<lambda>k. k\<lparr>k_history := remember cs (k_history k)\<rparr>)) (\<lambda>_. dispatch cs t))"

end
