(* ===== verification/Shell.thy ===== *)
theory Shell
  imports Commands
begin

text \<open>
  The user shell (\<open>user/src/main.rs\<close>): a program in ring 3 that edits a line, runs a few commands
  itself and forwards every other line to the kernel service.  Its behaviour is the sequence of
  its system calls; None is a panic, which ends the program.
\<close>

section \<open>System calls of the shell\<close>

datatype call = Write "byte list" | Console_op nat "64 word" | Exec "byte list"

definition put_char :: "uchar \<Rightarrow> call list" where
  "put_char c = [Write (utf8_enc c)]"

definition put_chars :: "uchar list \<Rightarrow> call list" where
  "put_chars cs = concat (map put_char cs)"

definition puts :: "string \<Rightarrow> call list" where
  "puts s = [Write (bytes s)]"

text \<open>\<open>read_char\<close> on the answers of the kernel, a count and the buffer each; it asks again after an
  answer it cannot use.\<close>

datatype got = Got uchar "(nat \<times> byte list) list" | Blocked | Crashed

definition READ_BUF :: nat where "READ_BUF = 64"

fun sh_read_char :: "(nat \<times> byte list) list \<Rightarrow> got" where
  "sh_read_char [] = Blocked"
| "sh_read_char ((n, dat) # rs) =
    (if n = 0 then sh_read_char rs
     else if READ_BUF < n then Crashed
     else (case from_utf8 (take n dat) of
         Some (c # _) \<Rightarrow> Got c rs
       | _ \<Rightarrow> sh_read_char rs))"

text \<open>The digits are found from the last one on.\<close>

fun ordinal_rev :: "nat \<Rightarrow> byte list" where
  "ordinal_rev v = of_nat (48 + v mod 10) # (if v div 10 = 0 then [] else ordinal_rev (v div 10))"

declare ordinal_rev.simps [simp del]

definition write_ordinal :: "nat \<Rightarrow> call list" where
  "write_ordinal v = [Write (rev (ordinal_rev v) @ [32, 32])]"

section \<open>History\<close>

definition HIST_CAP :: nat where "HIST_CAP = 50"
definition HIST_LEN_CAP :: nat where "HIST_LEN_CAP = 64"

record shell =
  hist :: "uchar list list"
  hlen :: "nat list"
  hcount :: nat
  sh_line :: "uchar list"
  sh_len :: nat

text \<open>The newest line again: compared only where the stored length is that of the line.\<close>

definition same_as_last :: "uchar list \<Rightarrow> shell \<Rightarrow> bool option" where
  "same_as_last l s = (if hcount s = 0 then Some False
     else do {
       n \<leftarrow> idx (hlen s) (hcount s - 1);
       if n \<noteq> length l then Some False
       else do {
         row \<leftarrow> idx (hist s) (hcount s - 1);
         p \<leftarrow> upto_idx row (length l);
         Some (p = l)
       }
     })"

text \<open>A full history moves down by one place; the last row keeps its old content.\<close>

definition move_down :: "'a list \<Rightarrow> 'a list" where
  "move_down xs = tl xs @ [last xs]"

definition history_push :: "uchar list \<Rightarrow> shell \<Rightarrow> shell option" where
  "history_push l s = do {
     dup \<leftarrow> same_as_last l s;
     if dup then Some s
     else do {
       let s1 = (if hcount s = HIST_CAP
         then s\<lparr>hist := move_down (hist s), hlen := move_down (hlen s), hcount := hcount s - 1\<rparr> else s);
       let n = min (length l) HIST_LEN_CAP;
       row \<leftarrow> idx (hist s1) (hcount s1);
       Some (s1\<lparr>hist := (hist s1)[hcount s1 := put 0 (take n l) row], hlen := (hlen s1)[hcount s1 := n],
                hcount := hcount s1 + 1\<rparr>)
     }
   }"

section \<open>Commands of the shell\<close>

definition LINE_CAP :: nat where "LINE_CAP = 128"
definition OUT_CAP :: nat where "OUT_CAP = 512"

fun encode_loop :: "uchar list \<Rightarrow> byte list \<Rightarrow> nat \<Rightarrow> byte list \<times> nat" where
  "encode_loop [] out n = (out, n)"
| "encode_loop (c # cs) out n =
    (if length out < n + 4 then (out, n)
     else (let enc = utf8_enc c in
       if length out < n + length enc then (out, n)
       else encode_loop cs (put n enc out) (n + length enc)))"

definition encode_line :: "uchar list \<Rightarrow> byte list" where
  "encode_line l = (let (out, n) = encode_loop l (replicate OUT_CAP 0) 0 in take n out)"

definition sh_help :: "call list" where
  "sh_help =
     puts (''SolarOS shell commands (user-space builtins):'' @ [CHR 0x0A]) @
     puts (''  help       - shows this list'' @ [CHR 0x0A]) @
     puts (''  clear      - clears the screen'' @ [CHR 0x0A]) @
     puts (''  color      - changes the text color: color <name>'' @ [CHR 0x0A]) @
     puts (''  count      - counts from 1 to n: count <n>'' @ [CHR 0x0A]) @
     puts (''  echo       - prints the given text: echo <text>'' @ [CHR 0x0A]) @
     puts (''  history    - lists recently executed commands'' @ [CHR 0x0A]) @
     puts (''  version    - shows the SolarOS version'' @ [CHR 0x0A]) @
     puts (''  help2      - hidden command'' @ [CHR 0x0A]) @
     puts (''Other commands (solarfetch, status, diskinfo, pci, ls, cat, mkfs,'' @ [CHR 0x0A]) @
     puts (''whoami, users, adduser, passwd, login, su, loadkeys, wtest, ...)'' @ [CHR 0x0A]) @
     puts (''run in the kernel service via the exec syscall.'' @ [CHR 0x0A])"

definition sh_echo :: "uchar list \<Rightarrow> call list" where
  "sh_echo rest = put_chars (skip_blanks rest) @ put_char 10"

definition sh_count :: "uchar list \<Rightarrow> call list" where
  "sh_count arg = (if arg = [] then puts (''Usage: count <n>'' @ [CHR 0x0A])
     else (case parse_count 0 arg of
       None \<Rightarrow> puts (''Error: enter a number.'' @ [CHR 0x0A])
     | Some n \<Rightarrow> (if n = 0 \<or> 100 < n then puts (''Counting to that is too long! (try 1-100)'' @ [CHR 0x0A])
         else concat (map (\<lambda>i. write_ordinal i @ put_char 10) [1..<n + 1]))))"

definition sh_version :: "call list" where
  "sh_version = puts (''SolarOS 26.1'' @ [CHR 0x0A])"

definition SH_COLORS :: "(string \<times> rgb) list" where
  "SH_COLORS = [
     (''red'', (255, 90, 90)), (''green'', (120, 255, 140)), (''blue'', (90, 160, 255)), (''yellow'', (255, 210, 110)),
     (''purple'', (200, 120, 255)), (''cyan'', (90, 255, 220)), (''orange'', (255, 150, 60)), (''pink'', (255, 120, 180)),
     (''white'', (255, 255, 255))]"

text \<open>A colour as the one argument of the system call.\<close>

definition rgb_arg :: "rgb \<Rightarrow> 64 word" where
  "rgb_arg c = (case c of (r, g, b) \<Rightarrow> push_bit 16 (ucast r) OR push_bit 8 (ucast g) OR ucast b)"

definition sh_color :: "uchar list \<Rightarrow> call list" where
  "sh_color arg = (let s = take 16 arg in
     case List.find (\<lambda>(n, c). eq_ci_str s (chars n)) SH_COLORS of
       Some (n, c) \<Rightarrow> Console_op 1 (rgb_arg c) # puts (''Text color changed.'' @ [CHR 0x0A])
     | None \<Rightarrow>
         (if eq_ci_str s (chars ''default'') \<or> eq_ci_str s (chars ''reset'')
          then Console_op 2 0 # puts (''Back to default colors.'' @ [CHR 0x0A])
          else puts (''Unknown color. (red, green, blue, yellow, purple, cyan, orange, pink, white, default)'' @ [CHR 0x0A])))"

text \<open>The lines from place \<open>i\<close> on.\<close>

fun list_rows :: "nat \<Rightarrow> (uchar list \<times> nat) list \<Rightarrow> call list option" where
  "list_rows i [] = Some []"
| "list_rows i ((row, n) # rest) = do {
     l \<leftarrow> upto_idx row n;
     later \<leftarrow> list_rows (i + 1) rest;
     Some (write_ordinal i @ put_chars l @ put_char 10 @ later)
   }"

definition sh_history :: "shell \<Rightarrow> call list option" where
  "sh_history s = (if hcount s = 0 then Some (puts (''History is empty.'' @ [CHR 0x0A]))
     else if hcount s \<le> length (hist s) \<and> hcount s \<le> length (hlen s)
     then list_rows 1 (take (hcount s) (zip (hist s) (hlen s))) else None)"

section \<open>The loop\<close>

definition sh_dispatch :: "uchar list \<Rightarrow> arg_table \<Rightarrow> shell \<Rightarrow> call list option" where
  "sh_dispatch l t s = (let name = arg_str t 0; a = arg_str t 1 in
     if matches name ''help'' then Some sh_help
     else if matches name ''clear'' then Some [Console_op 0 0]
     else if matches name ''echo'' then (if lens t ! 0 \<le> length l then Some (sh_echo (drop (lens t ! 0) l)) else None)
     else if matches name ''version'' then Some sh_version
     else if matches name ''count'' then Some (sh_count a)
     else if matches name ''color'' then Some (sh_color a)
     else if matches name ''history'' then sh_history s
     else if matches name ''help2'' then Some (puts (''Hidden command found! More is coming here in the future.'' @ [CHR 0x0A]))
     else Some [Exec (encode_line l)])"

definition sh_execute :: "uchar list \<Rightarrow> shell \<Rightarrow> (call list \<times> shell) option" where
  "sh_execute l s = (if l = [] then Some ([], s)
     else do {
       s1 \<leftarrow> history_push l s;
       t \<leftarrow> user_parse_args l;
       if arg_count t = 0 then Some ([], s1)
       else do { calls \<leftarrow> sh_dispatch l t s1; Some (calls, s1) }
     })"

definition PROMPT_COLOR :: "64 word" where
  "PROMPT_COLOR = push_bit 16 0x5D OR push_bit 8 0xDC OR 0xFF"

definition print_prompt :: "call list" where
  "print_prompt = Console_op 1 PROMPT_COLOR # puts ''solaros> '' @ [Console_op 2 0]"

text \<open>What the loop of \<open>_start\<close> does with a character.\<close>

definition feed :: "uchar \<Rightarrow> shell \<Rightarrow> (call list \<times> shell) option" where
  "feed c s =
    (if c = 10 \<or> c = 13 then do {
       l \<leftarrow> upto_idx (sh_line s) (sh_len s);
       (calls, s1) \<leftarrow> sh_execute l s;
       Some (put_char 10 @ calls @ print_prompt, s1\<lparr>sh_len := 0\<rparr>)
     }
     else if c = 8 then
       (if 0 < sh_len s then Some ([Console_op 3 0], s\<lparr>sh_len := sh_len s - 1\<rparr>) else Some ([], s))
     else if c = 3 then
       Some (replicate (sh_len s) (Console_op 3 0) @ put_char 10 @ print_prompt, s\<lparr>sh_len := 0\<rparr>)
     else if 0x20 \<le> c then
       (if sh_len s < LINE_CAP then
          (if sh_len s < length (sh_line s)
           then Some (put_char c, s\<lparr>sh_line := (sh_line s)[sh_len s := c], sh_len := sh_len s + 1\<rparr>) else None)
        else Some ([], s))
     else Some ([], s))"

definition start_shell :: "call list \<times> shell" where
  "start_shell = (Console_op 1 PROMPT_COLOR # puts (''          S O L A R   O S   26.1'' @ [CHR 0x0A]) @ [Console_op 2 0] @
       puts ([CHR 0x0A] @ ''Welcome to SolarOS. Type '' @ [CHR 0x27] @ ''help'' @ [CHR 0x27] @ '' for a list of commands.'' @
         [CHR 0x0A, CHR 0x0A]) @ print_prompt,
     \<lparr>hist = replicate HIST_CAP (replicate HIST_LEN_CAP 0), hlen = replicate HIST_CAP 0, hcount = 0,
      sh_line = replicate LINE_CAP 0, sh_len = 0\<rparr>)"

fun feed_all :: "uchar list \<Rightarrow> shell \<Rightarrow> (call list \<times> shell) option" where
  "feed_all [] s = Some ([], s)"
| "feed_all (c # cs) s = do { (a, s1) \<leftarrow> feed c s; (b, s2) \<leftarrow> feed_all cs s1; Some (a @ b, s2) }"

section \<open>The shell never panics\<close>

definition row_ok :: "uchar list \<times> nat \<Rightarrow> bool" where
  "row_ok r = (length (fst r) = HIST_LEN_CAP \<and> snd r \<le> HIST_LEN_CAP)"

definition shell_ok :: "shell \<Rightarrow> bool" where
  "shell_ok s = (length (hist s) = HIST_CAP \<and> length (hlen s) = HIST_CAP \<and> hcount s \<le> HIST_CAP \<and>
     list_all row_ok (zip (hist s) (hlen s)) \<and> length (sh_line s) = LINE_CAP \<and> sh_len s \<le> LINE_CAP)"

lemma shell_ok_row: "shell_ok s \<Longrightarrow> i < HIST_CAP \<Longrightarrow> length (hist s ! i) = HIST_LEN_CAP \<and> hlen s ! i \<le> HIST_LEN_CAP"
  by (auto simp: shell_ok_def list_all_length row_ok_def)

text \<open>The lines the history holds.\<close>

definition hist_list :: "shell \<Rightarrow> uchar list list" where
  "hist_list s = map (\<lambda>(row, n). take n row) (take (hcount s) (zip (hist s) (hlen s)))"

lemma hist_list_length [simp]: "shell_ok s \<Longrightarrow> length (hist_list s) = hcount s"
  by (simp add: hist_list_def shell_ok_def)

lemma hist_list_nth: "shell_ok s \<Longrightarrow> i < hcount s \<Longrightarrow> hist_list s ! i = take (hlen s ! i) (hist s ! i)"
  by (simp add: hist_list_def shell_ok_def)

lemma same_as_last_spec:
  assumes s: "shell_ok s"
  shows "same_as_last l s = Some (hist_list s \<noteq> [] \<and> last (hist_list s) = l)"
proof (cases "hcount s = 0")
  case True
  then show ?thesis by (simp add: same_as_last_def hist_list_def)
next
  case False
  let ?i = "hcount s - 1"
  have i: "?i < HIST_CAP" "?i < length (hlen s)" "?i < length (hist s)" using s False by (auto simp: shell_ok_def)
  have ne: "hist_list s \<noteq> []" using s False hist_list_length [OF s] by (metis list.size(3))
  have l: "last (hist_list s) = take (hlen s ! ?i) (hist s ! ?i)"
    using s False ne by (simp add: last_conv_nth hist_list_nth)
  have r: "length (hist s ! ?i) = HIST_LEN_CAP" "hlen s ! ?i \<le> HIST_LEN_CAP" using shell_ok_row [OF s i(1)] by simp_all
  then have "length (take (hlen s ! ?i) (hist s ! ?i)) = hlen s ! ?i" by simp
  then show ?thesis using False i r ne l
    by (auto simp: same_as_last_def idx_def upto_idx_def)
qed

lemma move_down_nth: "xs \<noteq> [] \<Longrightarrow> i < length xs - 1 \<Longrightarrow> move_down xs ! i = xs ! (i + 1)"
  by (simp add: move_down_def nth_append nth_tl)

lemma move_down_length [simp]: "xs \<noteq> [] \<Longrightarrow> length (move_down xs) = length xs"
  by (simp add: move_down_def)

lemma zip_move_down: "length xs = length ys \<Longrightarrow> xs \<noteq> [] \<Longrightarrow> zip (move_down xs) (move_down ys) = move_down (zip xs ys)"
  by (cases xs; cases ys) (auto simp: move_down_def last_zip)

text \<open>The history after a line: what the shell keeps of it is its first 64 characters.\<close>

lemma make_room:
  assumes s: "shell_ok s"
  defines "s1 \<equiv> (if hcount s = HIST_CAP
     then s\<lparr>hist := move_down (hist s), hlen := move_down (hlen s), hcount := hcount s - 1\<rparr> else s)"
  shows "shell_ok s1" "hcount s1 < HIST_CAP" "hist_list s1 = (if length (hist_list s) = HIST_CAP then tl (hist_list s) else hist_list s)"
proof -
  have ne: "hist s \<noteq> []" "hlen s \<noteq> []" "length (hist s) = length (hlen s)" using s by (auto simp: shell_ok_def HIST_CAP_def)
  have zne: "zip (hist s) (hlen s) \<noteq> []" using ne by (cases "hist s"; cases "hlen s") auto
  have all: "list_all row_ok (move_down (zip (hist s) (hlen s)))"
    using s zne by (auto simp: shell_ok_def move_down_def list_all_iff dest: list.set_sel(2) [rotated])
  show "shell_ok s1" using s all ne by (auto simp: s1_def shell_ok_def zip_move_down)
  show "hcount s1 < HIST_CAP" using s by (auto simp: s1_def shell_ok_def HIST_CAP_def)
  have "take (HIST_CAP - 1) (move_down (zip (hist s) (hlen s))) = tl (zip (hist s) (hlen s))"
    using s by (simp add: move_down_def shell_ok_def)
  then show "hist_list s1 = (if length (hist_list s) = HIST_CAP then tl (hist_list s) else hist_list s)"
    using s ne hist_list_length [OF s] by (auto simp: s1_def hist_list_def zip_move_down map_tl shell_ok_def)
qed

lemma history_push_list:
  assumes s: "shell_ok s"
  shows "\<exists>s'. history_push l s = Some s' \<and> shell_ok s' \<and> sh_line s' = sh_line s \<and> sh_len s' = sh_len s \<and>
    hist_list s' = (if hist_list s \<noteq> [] \<and> last (hist_list s) = l then hist_list s
      else (if length (hist_list s) = HIST_CAP then tl (hist_list s) else hist_list s) @ [take 64 l])"
proof (cases "hist_list s \<noteq> [] \<and> last (hist_list s) = l")
  case True
  then show ?thesis using s by (simp add: history_push_def same_as_last_spec)
next
  case False
  let ?s1 = "if hcount s = HIST_CAP then s\<lparr>hist := move_down (hist s), hlen := move_down (hlen s), hcount := hcount s - 1\<rparr> else s"
  note r = make_room [OF s]
  define s1 where "s1 = ?s1"
  have s1: "shell_ok s1" "hcount s1 < HIST_CAP" "sh_line s1 = sh_line s" "sh_len s1 = sh_len s"
    "hist_list s1 = (if length (hist_list s) = HIST_CAP then tl (hist_list s) else hist_list s)"
    using r by (simp_all add: s1_def)
  let ?k = "hcount s1" and ?n = "min (length l) HIST_LEN_CAP"
  let ?row = "put 0 (take ?n l) (hist s1 ! ?k)"
  let ?s' = "s1\<lparr>hist := (hist s1)[?k := ?row], hlen := (hlen s1)[?k := ?n], hcount := ?k + 1\<rparr>"
  have k: "?k < length (hist s1)" "?k < length (hlen s1)" "length (hist s1 ! ?k) = HIST_LEN_CAP"
    using s1(1,2) shell_ok_row [OF s1(1,2)] by (simp_all add: shell_ok_def)
  have p: "history_push l s = Some ?s'"
  proof -
    have "same_as_last l s = Some False" using False same_as_last_spec [OF s] by auto
    then show ?thesis using k(1) by (simp add: history_push_def s1_def [symmetric] Let_def idx_def)
  qed
  have row: "length ?row = HIST_LEN_CAP" "take ?n ?row = take 64 l"
    using k(3) by (simp_all add: put_def HIST_LEN_CAP_def) (simp add: min_def)
  have z: "zip ((hist s1)[?k := ?row]) ((hlen s1)[?k := ?n]) = (zip (hist s1) (hlen s1))[?k := (?row, ?n)]"
    by (simp add: update_zip)
  have "list_all row_ok ((zip (hist s1) (hlen s1))[?k := (?row, ?n)])"
    using s1(1) row(1) by (auto simp: shell_ok_def list_all_iff row_ok_def dest!: set_update_subset_insert [THEN subsetD])
  then have ok: "shell_ok ?s'" using s1(1,2) z by (simp add: shell_ok_def)
  have "take (?k + 1) ((zip (hist s1) (hlen s1))[?k := (?row, ?n)]) = take ?k (zip (hist s1) (hlen s1)) @ [(?row, ?n)]"
    using k by (simp add: take_Suc_conv_app_nth)
  then have "hist_list ?s' = hist_list s1 @ [take 64 l]" using row(2) by (simp add: hist_list_def z)
  then show ?thesis using p ok s1 False by auto
qed

text \<open>Listing the rows.\<close>

lemma list_rows_ok:
  "list_all row_ok rs \<Longrightarrow> list_rows i rs = Some (concat (map (\<lambda>(j, row, n). write_ordinal j @ put_chars (take n row) @ put_char 10)
     (zip [i..<i + length rs] rs)))"
proof (induction i rs rule: list_rows.induct)
  case (2 i row n rest)
  have "[i..<i + length ((row, n) # rest)] = i # [i + 1..<i + 1 + length rest]" by (simp add: upt_conv_Cons del: upt_Suc)
  then show ?case using 2 by (simp add: row_ok_def upto_idx_def del: upt_Suc)
qed simp

lemma sh_history_ok: "shell_ok s \<Longrightarrow> sh_history s \<noteq> None"
  using list_rows_ok [of "take (hcount s) (zip (hist s) (hlen s))" 1]
  by (auto simp: sh_history_def shell_ok_def list_all_iff dest: in_set_takeD)

lemma sh_dispatch_ok: "shell_ok s \<Longrightarrow> lens t ! 0 \<le> length l \<Longrightarrow> sh_dispatch l t s \<noteq> None"
  using sh_history_ok [of s] by (simp add: sh_dispatch_def Let_def)

lemma sh_execute_ok:
  assumes "shell_ok s"
  shows "\<exists>calls s'. sh_execute l s = Some (calls, s') \<and> shell_ok s' \<and> sh_line s' = sh_line s"
proof (cases "l = []")
  case False
  obtain s1 where s1: "history_push l s = Some s1" "shell_ok s1" "sh_line s1 = sh_line s"
    using history_push_list [OF assms, of l] by blast
  obtain t where t: "parse_args l = Some t" using parse_args_stores by blast
  obtain calls where "sh_dispatch l t s1 = Some calls"
    using sh_dispatch_ok [OF s1(2) first_arg_length [OF t]] by auto
  then show ?thesis using False s1 t by (simp add: sh_execute_def user_parse_args_eq)
qed (use assms in \<open>simp add: sh_execute_def\<close>)

lemma feed_ok:
  assumes s: "shell_ok s"
  shows "\<exists>calls s'. feed c s = Some (calls, s') \<and> shell_ok s'"
proof -
  have l: "upto_idx (sh_line s) (sh_len s) = Some (take (sh_len s) (sh_line s))" using s by (simp add: shell_ok_def upto_idx_def)
  obtain calls s1 where "sh_execute (take (sh_len s) (sh_line s)) s = Some (calls, s1)" "shell_ok s1"
    using sh_execute_ok [OF s] by blast
  then show ?thesis using s l by (auto simp: feed_def shell_ok_def LINE_CAP_def)
qed

lemma feed_all_ok: "shell_ok s \<Longrightarrow> \<exists>calls s'. feed_all cs s = Some (calls, s') \<and> shell_ok s'"
proof (induction cs arbitrary: s)
  case (Cons c cs)
  obtain calls s1 where 1: "feed c s = Some (calls, s1)" "shell_ok s1" using feed_ok [OF Cons.prems] by blast
  then show ?case using Cons.IH [OF 1(2)] by auto
qed simp

lemma start_shell_ok: "shell_ok (snd start_shell)"
  by (simp add: start_shell_def shell_ok_def row_ok_def list_all_iff HIST_CAP_def set_zip)

section \<open>Lines\<close>

text \<open>Typing a line of characters that are no control characters.\<close>

definition printable :: "uchar \<Rightarrow> bool" where
  "printable c = (0x20 \<le> c)"

lemma feed_text:
  assumes "shell_ok s" and "\<forall>c \<in> set cs. printable c" and "sh_len s + length cs \<le> LINE_CAP"
  shows "\<exists>s'. feed_all cs s = Some (put_chars cs, s') \<and> shell_ok s' \<and> sh_len s' = sh_len s + length cs \<and>
    take (sh_len s') (sh_line s') = take (sh_len s) (sh_line s) @ cs \<and> hist_list s' = hist_list s"
  using assms
proof (induction cs arbitrary: s)
  case Nil
  then show ?case by (simp add: put_chars_def)
next
  case (Cons c cs)
  let ?s1 = "s\<lparr>sh_line := (sh_line s)[sh_len s := c], sh_len := sh_len s + 1\<rparr>"
  have c: "0x20 \<le> c" and n: "sh_len s < LINE_CAP" "length (sh_line s) = LINE_CAP"
    using Cons.prems by (auto simp: printable_def shell_ok_def)
  have f: "feed c s = Some (put_char c, ?s1)" using c n by (auto simp: feed_def)
  have ok: "shell_ok ?s1" using Cons.prems(1) n by (simp add: shell_ok_def)
  obtain s' where s': "feed_all cs ?s1 = Some (put_chars cs, s')" "shell_ok s'" "sh_len s' = sh_len s + 1 + length cs"
    "take (sh_len s') (sh_line s') = take (sh_len s + 1) ((sh_line s)[sh_len s := c]) @ cs" "hist_list s' = hist_list ?s1"
    using Cons.IH [OF ok] Cons.prems by auto
  have "take (sh_len s + 1) ((sh_line s)[sh_len s := c]) = take (sh_len s) (sh_line s) @ [c]"
    using n by (simp add: take_Suc_conv_app_nth)
  then show ?case using f s' by (simp add: put_chars_def hist_list_def)
qed

text \<open>The forwarded bytes are the whole line: 128 characters fit.\<close>

lemma encode_loop_all:
  "n + 4 * length l \<le> length out \<Longrightarrow> \<exists>out' m. encode_loop l out n = (out', m) \<and> length out' = length out \<and>
     m = n + length (utf8 l) \<and> take m out' = take n out @ utf8 l"
proof (induction l arbitrary: out n)
  case (Cons c l)
  let ?e = "utf8_enc c"
  have e: "length ?e \<le> 4" by (rule utf8_enc_length)
  have f: "n + length ?e \<le> length out" "n + 4 \<le> length out" using Cons.prems e by auto
  have p: "length (put n ?e out) = length out" "take (n + length ?e) (put n ?e out) = take n out @ ?e"
    using f by (simp_all add: put_def)
  obtain out' m where "encode_loop l (put n ?e out) (n + length ?e) = (out', m)" "length out' = length out"
    "m = n + length ?e + length (utf8 l)" "take m out' = take (n + length ?e) (put n ?e out) @ utf8 l"
    using Cons.IH [of "n + length ?e" "put n ?e out"] Cons.prems e p(1) by auto
  then show ?case using f p(2) by (auto simp: Let_def)
qed simp

lemma encode_line_all:
  assumes "length l \<le> LINE_CAP"
  shows "encode_line l = utf8 l"
proof -
  have "0 + 4 * length l \<le> length (replicate OUT_CAP (0 :: byte))" using assms by (simp add: LINE_CAP_def OUT_CAP_def)
  from encode_loop_all [OF this] show ?thesis by (auto simp: encode_line_def)
qed

text \<open>The names that the shell keeps for itself.\<close>

definition builtin :: "uchar list \<Rightarrow> bool" where
  "builtin name = list_ex (matches name) [''help'', ''clear'', ''echo'', ''version'', ''count'', ''color'', ''history'', ''help2'']"

lemma sh_execute_forwards:
  assumes s: "shell_ok s" and w: "words_of l \<noteq> []" and b: "\<not> builtin (take 64 (hd (words_of l)))"
  shows "\<exists>s'. sh_execute l s = Some ([Exec (encode_line l)], s') \<and> shell_ok s' \<and> sh_line s' = sh_line s"
proof -
  have ne: "l \<noteq> []" using w by auto
  obtain s1 where s1: "history_push l s = Some s1" "shell_ok s1" "sh_line s1 = sh_line s"
    using history_push_list [OF s, of l] by blast
  obtain t where t: "parse_args l = Some t" "arg_count t = min MAX_ARGS (length (words_of l))"
    using parse_args_stores by blast
  have c: "arg_count t \<noteq> 0" using w t(2) by (simp add: MAX_ARGS_def)
  have "\<not> builtin (arg_str t 0)" using first_word(2) [OF t(1) c] b by simp
  then have "sh_dispatch l t s1 = Some [Exec (encode_line l)]" by (simp add: sh_dispatch_def builtin_def)
  then show ?thesis using ne s1 t(1) c by (simp add: sh_execute_def user_parse_args_eq)
qed

lemma push_is_remember:
  assumes "shell_ok s" and "length l \<le> 64"
  shows "(if hist_list s \<noteq> [] \<and> last (hist_list s) = l then hist_list s
      else (if length (hist_list s) = HIST_CAP then tl (hist_list s) else hist_list s) @ [take 64 l]) = remember l (hist_list s)"
proof -
  have "length (hist_list s) \<le> 50" using assms(1) by (simp add: shell_ok_def HIST_CAP_def)
  then show ?thesis
    using assms(2) by (cases "hist_list s") (auto simp: remember_def HISTORY_MAX_def HIST_CAP_def Let_def)
qed

text \<open>C16: the history of the shell as a list, for every line.  A line equal to the newest entry is not
  entered again; any other is entered, cut to its first 64 characters, and the oldest of fifty
  goes first.  For lines of at most 64 characters this is the history of the kernel service
  (\<open>remember\<close>); a longer line, up to the 128 that the shell takes, is cut, and so is never seen
  as a repetition.
\<close>

theorem history_refines:
  assumes "shell_ok s"
  shows "\<exists>s'. history_push l s = Some s' \<and> shell_ok s' \<and>
    hist_list s' = (if hist_list s \<noteq> [] \<and> last (hist_list s) = l then hist_list s
      else (if length (hist_list s) = HIST_CAP then tl (hist_list s) else hist_list s) @ [take 64 l]) \<and>
    (length l \<le> 64 \<longrightarrow> hist_list s' = remember l (hist_list s))"
  using history_push_list [OF assms, of l] push_is_remember [OF assms, of l] by auto

theorem history_refines_witness:
  "\<exists>s'. history_push [97] (snd start_shell) = Some s' \<and> hist_list s' = [[97]]"
proof -
  have "hist_list (snd start_shell) = []" by (simp add: start_shell_def hist_list_def)
  then show ?thesis using history_refines [OF start_shell_ok, of "[97]"] by (simp add: remember_def HISTORY_MAX_def) blast
qed

section \<open>What the shell hands to the kernel\<close>

text \<open>Text that the kernel accepts: not empty, UTF-8, within the limit of its copy.\<close>

definition text_ok :: "nat \<Rightarrow> byte list \<Rightarrow> bool" where
  "text_ok n bs = (\<exists>cs. bs = utf8 cs \<and> cs \<noteq> [] \<and> (\<forall>c \<in> set cs. scalar c) \<and> length bs \<le> n)"

definition call_ok :: "call \<Rightarrow> bool" where
  "call_ok c = (case c of Write bs \<Rightarrow> text_ok 256 bs | Console_op n a \<Rightarrow> n \<le> 3 | Exec bs \<Rightarrow> text_ok 512 bs)"

lemma call_ok_simps [simp]: "call_ok (Write bs) = text_ok 256 bs" "call_ok (Console_op n a) = (n \<le> 3)"
  "call_ok (Exec bs) = text_ok 512 bs"
  by (simp_all add: call_ok_def)

lemma ascii_text: "list_all (\<lambda>b. unat b < 128) bs \<Longrightarrow> bs \<noteq> [] \<Longrightarrow> length bs \<le> n \<Longrightarrow> text_ok n bs"
proof -
  assume a: "list_all (\<lambda>b. unat b < 128) bs" and n: "bs \<noteq> []" "length bs \<le> n"
  have "bs = utf8 (map unat bs)" using a by (induction bs) (simp_all add: utf8_enc_def lead_def)
  moreover have "\<forall>c \<in> set (map unat bs). scalar c" using a by (auto simp: list_all_iff scalar_def)
  ultimately show ?thesis using n unfolding text_ok_def by (intro exI [of _ "map unat bs"]) simp
qed

lemma puts_ok: "list_all (\<lambda>c. of_char c < (128 :: nat)) s \<Longrightarrow> s \<noteq> [] \<Longrightarrow> length s \<le> 256 \<Longrightarrow> list_all call_ok (puts s)"
  by (auto simp: puts_def bytes_def list_all_iff unat_of_nat intro!: ascii_text)

lemma char_ok: "scalar c \<Longrightarrow> list_all call_ok (put_char c)"
proof -
  assume c: "scalar c"
  have "length (utf8_enc c) \<le> 256" using utf8_enc_length(2) [of c] by simp
  then show ?thesis using c by (auto simp: put_char_def text_ok_def intro!: exI [of _ "[c]"])
qed

lemma chars_ok: "\<forall>c \<in> set cs. scalar c \<Longrightarrow> list_all call_ok (put_chars cs)"
  using char_ok by (induction cs) (simp_all add: put_chars_def)

lemma ordinal_digits: "list_all (\<lambda>b. unat b < 128) (ordinal_rev v) \<and> length (ordinal_rev v) \<le> v + 1"
proof (induction v rule: ordinal_rev.induct)
  case (1 v)
  have "v mod 10 < 10" by simp
  then have "48 + v mod 10 < 128" by linarith
  then have "unat (of_nat (48 + v mod 10) :: byte) < 128" using unat_byte [of "48 + v mod 10"] by simp
  moreover have "v div 10 \<noteq> 0 \<Longrightarrow> v div 10 < v" by (rule div_less_dividend) (auto intro: ccontr)
  ultimately show ?case using 1 by (subst (1 2) ordinal_rev.simps) auto
qed

lemma ordinal_ok: "v \<le> 200 \<Longrightarrow> list_all call_ok (write_ordinal v)"
  using ordinal_digits [of v] by (auto simp: write_ordinal_def intro!: ascii_text)

lemma newline_ok: "list_all call_ok (put_char 10)"
  by (rule char_ok) (simp add: scalar_def)

definition shell_text :: "shell \<Rightarrow> bool" where
  "shell_text s = ((\<forall>c \<in> set (sh_line s). scalar c) \<and> (\<forall>row \<in> set (hist s). \<forall>c \<in> set row. scalar c))"

lemma skip_blanks_set: "set (skip_blanks cs) \<subseteq> set cs"
  by (induction cs rule: skip_blanks.induct) auto

lemma history_calls_ok:
  assumes "shell_ok s" and "shell_text s" and "sh_history s = Some calls"
  shows "list_all call_ok calls"
proof (cases "hcount s = 0")
  case True
  have "list_all call_ok (puts (''History is empty.'' @ [CHR 0x0A]))" by (rule puts_ok) simp_all
  then show ?thesis using True assms(3) by (simp add: sh_history_def)
next
  case False
  have rows: "list_all row_ok rs \<Longrightarrow> \<forall>r \<in> set rs. \<forall>c \<in> set (fst r). scalar c \<Longrightarrow> i + length rs \<le> 200 \<Longrightarrow>
      list_rows i rs = Some calls \<Longrightarrow> list_all call_ok calls" for i rs calls
  proof (induction i rs arbitrary: calls rule: list_rows.induct)
    case (2 i row n rest)
    then obtain later where l: "list_rows (i + 1) rest = Some later" "n \<le> length row"
      "calls = write_ordinal i @ put_chars (take n row) @ put_char 10 @ later"
      by (auto simp: row_ok_def upto_idx_def split: bind_splits)
    have "list_all call_ok later"
      using "2.IH" [of "take n row" later] "2.prems"(1-3) l(1,2) by (simp add: upto_idx_def)
    then show ?case using l(3) "2.prems"(2,3) by (auto simp: newline_ok intro!: ordinal_ok chars_ok dest: in_set_takeD)
  qed simp
  have "sh_history s = list_rows 1 (take (hcount s) (zip (hist s) (hlen s)))"
    using False assms(1) by (simp add: sh_history_def shell_ok_def)
  moreover have "list_all row_ok (take (hcount s) (zip (hist s) (hlen s)))"
    using assms(1) by (auto simp: shell_ok_def list_all_iff dest: in_set_takeD)
  moreover have "\<forall>r \<in> set (take (hcount s) (zip (hist s) (hlen s))). \<forall>c \<in> set (fst r). scalar c"
    using assms(2) by (auto simp: shell_text_def dest!: in_set_takeD set_zip_leftD)
  moreover have "1 + length (take (hcount s) (zip (hist s) (hlen s))) \<le> 200"
    using assms(1) by (simp add: shell_ok_def HIST_CAP_def)
  ultimately show ?thesis using rows assms(3) by metis
qed

lemma help_ok: "list_all call_ok sh_help"
  unfolding sh_help_def by (simp only: list_all_append, intro conjI; rule puts_ok; simp)

lemma count_ok: "list_all call_ok (sh_count a)"
proof -
  have "list_all call_ok (concat (map (\<lambda>i. write_ordinal i @ put_char 10) [1..<n + 1]))" if "n \<le> 100" for n
  proof -
    have "list_all call_ok (write_ordinal i @ put_char 10)" if "i \<in> set [1..<n + 1]" for i
      using that \<open>n \<le> 100\<close> ordinal_ok [of i] newline_ok by auto
    then show ?thesis unfolding list_all_iff set_concat set_map by blast
  qed
  moreover have "list_all call_ok (puts (''Usage: count <n>'' @ [CHR 0x0A]))"
    "list_all call_ok (puts (''Error: enter a number.'' @ [CHR 0x0A]))"
    "list_all call_ok (puts (''Counting to that is too long! (try 1-100)'' @ [CHR 0x0A]))"
    by (simp_all add: puts_ok)
  ultimately show ?thesis
    by (simp only: sh_count_def not_less de_Morgan_disj split: if_split option.split) blast
qed

lemma color_ok: "list_all call_ok (sh_color a)"
proof -
  have "list_all call_ok (puts (''Text color changed.'' @ [CHR 0x0A]))"
    "list_all call_ok (puts (''Back to default colors.'' @ [CHR 0x0A]))"
    "list_all call_ok (puts (''Unknown color. (red, green, blue, yellow, purple, cyan, orange, pink, white, default)'' @ [CHR 0x0A]))"
    by (simp_all add: puts_ok)
  then show ?thesis unfolding sh_color_def Let_def
    by (simp only: list.pred_inject call_ok_simps split: if_split option.split prod.split) simp
qed

lemma echo_ok: "\<forall>c \<in> set l. scalar c \<Longrightarrow> list_all call_ok (sh_echo l)"
  using skip_blanks_set [of l] unfolding sh_echo_def by (auto simp: newline_ok intro!: chars_ok)

lemma version_ok: "list_all call_ok sh_version"
    "list_all call_ok (puts (''Hidden command found! More is coming here in the future.'' @ [CHR 0x0A]))"
  by (simp_all add: sh_version_def puts_ok)

lemma exec_ok: "\<forall>c \<in> set l. scalar c \<Longrightarrow> l \<noteq> [] \<Longrightarrow> length l \<le> LINE_CAP \<Longrightarrow> call_ok (Exec (encode_line l))"
proof -
  assume a: "\<forall>c \<in> set l. scalar c" "l \<noteq> []" "length l \<le> LINE_CAP"
  have "length (utf8 l) \<le> 512" using utf8_length [of l] a(3) by (simp add: LINE_CAP_def)
  then show ?thesis using a by (auto simp: encode_line_all text_ok_def)
qed

lemma dispatch_ok:
  assumes "shell_ok s" and "shell_text s" and "\<forall>c \<in> set l. scalar c" and "l \<noteq> []" and "length l \<le> LINE_CAP"
    and "sh_dispatch l t s = Some calls"
  shows "list_all call_ok calls"
proof -
  have e: "list_all call_ok (sh_echo (drop n l))" for n using assms(3) by (intro echo_ok) (auto dest: in_set_dropD)
  show ?thesis
    using assms(6) help_ok version_ok count_ok color_ok exec_ok [OF assms(3-5)] e history_calls_ok [OF assms(1,2)]
    by (simp only: sh_dispatch_def Let_def option.inject list.pred_inject call_ok_simps option.distinct simp_thms split: if_splits)
      (auto)
qed

lemma history_push_text:
  assumes "shell_text s" and "\<forall>c \<in> set l. scalar c" and "history_push l s = Some s'" and "shell_ok s"
  shows "shell_text s' \<and> sh_line s' = sh_line s"
proof -
  have md: "set (move_down xs) \<subseteq> set xs" if "xs \<noteq> []" for xs :: "'b list"
    using that by (auto simp: move_down_def dest: list.set_sel(2) [rotated])
  have p: "set (put 0 (take n l) row) \<subseteq> set l \<union> set row" for n row
    by (auto simp: put_def dest: in_set_takeD in_set_dropD)
  define s1 where "s1 = (if hcount s = HIST_CAP
     then s\<lparr>hist := move_down (hist s), hlen := move_down (hlen s), hcount := hcount s - 1\<rparr> else s)"
  obtain dup where d: "same_as_last l s = Some dup" using assms(3) by (auto simp: history_push_def split: bind_splits)
  show ?thesis
  proof (cases dup)
    case True
    then show ?thesis using assms d by (simp add: history_push_def)
  next
    case False
    then obtain row where row: "idx (hist s1) (hcount s1) = Some row"
      and s': "s' = s1\<lparr>hist := (hist s1)[hcount s1 := put 0 (take (min (length l) HIST_LEN_CAP) l) row],
        hlen := (hlen s1)[hcount s1 := min (length l) HIST_LEN_CAP], hcount := hcount s1 + 1\<rparr>"
      using assms(3) d by (auto simp: history_push_def s1_def [symmetric] Let_def split: bind_splits)
    have "hist s \<noteq> []" using assms(4) by (auto simp: shell_ok_def HIST_CAP_def)
    then have "set (hist s1) \<subseteq> set (hist s)" using md by (auto simp: s1_def)
    moreover have "row \<in> set (hist s1)" using row by (auto simp: idx_def split: if_splits)
    ultimately show ?thesis
      using assms(1,2) p unfolding s' shell_text_def s1_def
      by (auto dest!: set_update_subset_insert [THEN subsetD]) blast+
  qed
qed

lemma prompt_ok: "list_all call_ok print_prompt" "list_all call_ok (fst start_shell)"
proof -
  have p: "list_all call_ok (puts ''solaros> '')" "list_all call_ok (puts (''          S O L A R   O S   26.1'' @ [CHR 0x0A]))"
    "list_all call_ok (puts ([CHR 0x0A] @ ''Welcome to SolarOS. Type '' @ [CHR 0x27] @ ''help'' @ [CHR 0x27] @
       '' for a list of commands.'' @ [CHR 0x0A, CHR 0x0A]))"
    by (simp_all add: puts_ok)
  show q: "list_all call_ok print_prompt"
    unfolding print_prompt_def using p(1) by (simp only: list.pred_inject list_all_append call_ok_simps) simp
  show "list_all call_ok (fst start_shell)"
    unfolding start_shell_def fst_conv using p(2,3) q by (simp only: list.pred_inject list_all_append call_ok_simps) simp
qed

lemma sh_execute_calls:
  assumes s: "shell_ok s" "shell_text s" and l: "\<forall>c \<in> set l. scalar c" "length l \<le> LINE_CAP"
    and run: "sh_execute l s = Some (calls, s')"
  shows "shell_text s' \<and> list_all call_ok calls"
proof (cases "l = []")
  case False
  obtain s1 t where s1: "history_push l s = Some s1" and t: "user_parse_args l = Some t"
    using run False by (auto simp: sh_execute_def split: bind_splits)
  have "shell_text s1" using history_push_text [OF s(2) l(1) s1 s(1)] by blast
  moreover have "shell_ok s1" using history_push_list [OF s(1), of l] s1 by auto
  ultimately show ?thesis using run False s1 t dispatch_ok [OF _ _ l(1) False l(2)]
    by (auto simp: sh_execute_def split: if_splits bind_splits)
qed (use assms in \<open>auto simp: sh_execute_def\<close>)

lemma feed_calls:
  assumes s: "shell_ok s" "shell_text s" and c: "scalar c" and run: "feed c s = Some (calls, s')"
  shows "shell_text s' \<and> list_all call_ok calls"
proof -
  let ?l = "take (sh_len s) (sh_line s)"
  have l: "upto_idx (sh_line s) (sh_len s) = Some ?l" using s by (simp add: shell_ok_def upto_idx_def)
  have sc: "\<forall>c \<in> set ?l. scalar c" "length ?l \<le> LINE_CAP" using s by (auto simp: shell_text_def shell_ok_def dest: in_set_takeD)
  show ?thesis
  proof (cases "c = 10 \<or> c = 13")
    case True
    then obtain a s1 where "sh_execute ?l s = Some (a, s1)" "calls = put_char 10 @ a @ print_prompt" "s' = s1\<lparr>sh_len := 0\<rparr>"
      using run l by (auto simp: feed_def split: bind_splits)
    then show ?thesis using sh_execute_calls [OF s sc] prompt_ok newline_ok by (auto simp: shell_text_def)
  next
    case False
    then show ?thesis using run s c prompt_ok newline_ok char_ok [OF c]
      by (auto simp: feed_def shell_text_def list_all_iff split: if_splits dest!: set_update_subset_insert [THEN subsetD])
  qed
qed

lemma feed_all_calls:
  "shell_ok s \<Longrightarrow> shell_text s \<Longrightarrow> \<forall>c \<in> set cs. scalar c \<Longrightarrow>
    \<exists>calls s'. feed_all cs s = Some (calls, s') \<and> shell_ok s' \<and> list_all call_ok calls"
proof (induction cs arbitrary: s)
  case (Cons c cs)
  obtain a s1 where 1: "feed c s = Some (a, s1)" "shell_ok s1" using feed_ok [OF Cons.prems(1)] by blast
  have "shell_text s1 \<and> list_all call_ok a" using feed_calls [OF Cons.prems(1,2) _ 1(1)] Cons.prems(3) by simp
  then show ?case using Cons.IH [OF 1(2)] Cons.prems(3) 1(1) by auto
qed simp

lemma start_shell_text: "shell_text (snd start_shell)"
  by (simp add: start_shell_def shell_text_def scalar_def)

text \<open>C9: whatever is typed, the shell never panics, and every text it hands to the kernel is one the
  kernel accepts: not empty, valid UTF-8, and no longer than the kernel copies.
\<close>

theorem shell_calls_accepted:
  assumes "\<forall>c \<in> set cs. scalar c"
  shows "\<exists>calls s'. feed_all cs (snd start_shell) = Some (calls, s') \<and> shell_ok s' \<and>
    list_all call_ok (fst start_shell @ calls)"
  using feed_all_calls [OF start_shell_ok start_shell_text assms] prompt_ok(2) by auto

theorem shell_calls_accepted_witness:
  "\<exists>calls s'. feed_all [104, 0x11F, 8, 10] (snd start_shell) = Some (calls, s') \<and> list_all call_ok calls"
  using shell_calls_accepted [of "[104, 0x11F, 8, 10]"] by (auto simp: scalar_def)

end
