(* ===== verification/Service.thy ===== *)
theory Service
  imports Commands "HOL-Library.Sublist"
begin

text \<open>
  What the commands of the kernel service keep and promise: a small program logic for them,
  the invariant of the user table and of the history, who the current user is, and the
  behaviour of single commands.
\<close>

section \<open>A logic for commands\<close>

text \<open>
  \<open>meets pan P m Q\<close>: started where \<open>P\<close> holds of the user table, the history and the machine, the
  command \<open>m\<close> keeps \<open>P\<close>, only adds to what has been shown, answers only values in \<open>Q\<close>, and does not
  panic unless \<open>pan\<close> allows it.
\<close>

type_synonym tables_pred = "users \<Rightarrow> uchar list list \<Rightarrow> machine_info \<Rightarrow> bool"

definition on_tables :: "tables_pred \<Rightarrow> ksys \<Rightarrow> bool" where
  "on_tables P k = P (k_users k) (k_history k) (k_info k)"

definition meets :: "bool \<Rightarrow> tables_pred \<Rightarrow> 'a kop \<Rightarrow> ('a \<Rightarrow> bool) \<Rightarrow> bool" where
  "meets pan P m Q = (\<forall>k. on_tables P k \<longrightarrow> on_tables P (snd (m k)) \<and> prefix (k_screen k) (k_screen (snd (m k))) \<and>
     (case fst (m k) of Ret a \<Rightarrow> Q a | Fail e \<Rightarrow> True | Panic \<Rightarrow> pan | PowerOff \<Rightarrow> True | Hang \<Rightarrow> True))"

named_theorems meets_intros \<open>rules of the logic for commands\<close>

lemma meetsD: "meets pan P m Q \<Longrightarrow> on_tables P k \<Longrightarrow> m k = (r, k') \<Longrightarrow>
    on_tables P k' \<and> prefix (k_screen k) (k_screen k') \<and> (r = Panic \<longrightarrow> pan) \<and> (\<forall>a. r = Ret a \<longrightarrow> Q a)"
  unfolding meets_def by (cases r) fastforce+

lemma meets_ret [meets_intros]: "Q a \<Longrightarrow> meets pan P (ret a) Q"
  by (simp add: meets_def)

lemma meets_bnd:
  assumes "meets pan P m R" and "\<And>a. R a \<Longrightarrow> meets pan P (f a) Q"
  shows "meets pan P (bnd m f) Q"
  unfolding meets_def
proof (intro allI impI)
  fix k assume k: "on_tables P k"
  obtain r k1 where m: "m k = (r, k1)" by fastforce
  note a = meetsD [OF assms(1) k m]
  show "on_tables P (snd (bnd m f k)) \<and> prefix (k_screen k) (k_screen (snd (bnd m f k))) \<and> (case fst (bnd m f k) of Ret a \<Rightarrow> Q a | Fail e \<Rightarrow> True | Panic \<Rightarrow> pan | PowerOff \<Rightarrow> True | Hang \<Rightarrow> True)"
  proof (cases r)
    case (Ret b)
    then have "meets pan P (f b) Q" using a assms(2) by blast
    then show ?thesis using m Ret a by (auto simp: bnd_def meets_def elim: prefix_order.trans)
  qed (use m a in \<open>auto simp: bnd_def\<close>)
qed

lemma meets_then [meets_intros]:
  "meets pan P m (\<lambda>_. True) \<Longrightarrow> meets pan P m' Q \<Longrightarrow> meets pan P (bnd m (\<lambda>_. m')) Q"
  by (rule meets_bnd)

lemma meets_gets [meets_intros]:
  "(\<And>k. on_tables P k \<Longrightarrow> meets pan P (f (g k)) Q) \<Longrightarrow> meets pan P (bnd (gets g) f) Q"
  by (simp add: meets_def)

lemma meets_modify: "(\<And>k. on_tables P k \<Longrightarrow> on_tables P (g k)) \<Longrightarrow> (\<And>k. k_screen (g k) = k_screen k) \<Longrightarrow> Q () \<Longrightarrow> meets pan P (modify g) Q"
  by (simp add: meets_def)

lemma meets_weaken: "meets pan P m R \<Longrightarrow> (\<And>a. R a \<Longrightarrow> Q a) \<Longrightarrow> meets pan P m Q"
  by (auto simp: meets_def split: outcome.splits)

lemma meets_True: "meets False P m Q \<Longrightarrow> meets True P m Q"
  by (auto simp: meets_def split: outcome.splits)

lemma meets_event [meets_intros]: "meets pan P (event e) (\<lambda>_. True)"
  by (simp add: meets_def event_def on_tables_def)

lemma meets_say [meets_intros]: "meets pan P (say cs) (\<lambda>_. True)" "meets pan P (say_line cs) (\<lambda>_. True)"
  by (simp_all add: say_def say_line_def meets_event)

lemma meets_panic_ok: "meets True P panic Q"
  by (simp add: meets_def)

lemma meets_of_opt: "(r = None \<Longrightarrow> pan) \<Longrightarrow> (\<And>a. r = Some a \<Longrightarrow> Q a) \<Longrightarrow> meets pan P (of_opt r) Q"
  by (cases r) (simp_all add: of_opt_def meets_def)

lemma meets_if [meets_intros]:
  "(b \<Longrightarrow> meets pan P m Q) \<Longrightarrow> (\<not> b \<Longrightarrow> meets pan P m' Q) \<Longrightarrow> meets pan P (if b then m else m') Q"
  by simp

lemma meets_option [meets_intros]:
  "(r = None \<Longrightarrow> meets pan P m Q) \<Longrightarrow> (\<And>a. r = Some a \<Longrightarrow> meets pan P (f a) Q) \<Longrightarrow>
   meets pan P (case r of None \<Rightarrow> m | Some a \<Rightarrow> f a) Q"
  by (cases r) simp_all

lemma meets_sum [meets_intros]:
  "(\<And>e. r = Inl e \<Longrightarrow> meets pan P (g e) Q) \<Longrightarrow> (\<And>a. r = Inr a \<Longrightarrow> meets pan P (f a) Q) \<Longrightarrow>
   meets pan P (case r of Inl e \<Rightarrow> g e | Inr a \<Rightarrow> f a) Q"
  by (cases r) simp_all

lemma meets_each [meets_intros]:
  "(\<And>x. x \<in> set xs \<Longrightarrow> meets pan P (f x) (\<lambda>_. True)) \<Longrightarrow> meets pan P (each xs f) (\<lambda>_. True)"
  by (induction xs) (auto intro: meets_intros)

lemma meets_guard: "b \<Longrightarrow> meets pan P (guard_panic b) (\<lambda>_. True)"
  by (simp add: meets_def)

lemma meets_attempt: "meets pan P m (\<lambda>_. True) \<Longrightarrow> meets pan P (attempt m) (\<lambda>_. True)"
  by (auto simp: meets_def attempt_def split: prod.splits outcome.splits)

text \<open>The file system layer never touches the tables.\<close>

lemma meets_on_fs: "meets True P (on_fs m) (\<lambda>_. True)"
  by (auto simp: meets_def on_fs_def shown_def on_tables_def split: prod.splits outcome.splits)

lemma meets_ask: "meets pan P (ask prompt) (\<lambda>r. \<forall>l n. r = Some (l, n) \<longrightarrow> n \<le> length l)"
proof -
  have len: "fst (read_line_loop echo line len cs) = Entered l n \<Longrightarrow> length line = READ_CAP \<Longrightarrow> len \<le> READ_CAP \<Longrightarrow>
      n \<le> length l" for echo line len cs l n
    by (induction echo line len cs rule: read_line_loop.induct) (auto simp: split_beta split: if_splits)
  have "n \<le> length l" if "read_line False cs = (Entered l n, out, rest)" for cs l n out rest
    using len [of False "replicate READ_CAP 0" 0 cs l n] that by (simp add: read_line_def)
  then show ?thesis
    by (auto simp: meets_def ask_def bnd_def say_def event_def on_tables_def Let_def split: prod.splits line_end.splits)
qed
section \<open>The invariant of the tables\<close>

text \<open>The history is bounded and has no line twice in a row; the current user may be fixed.\<close>

definition hist_ok :: "uchar list list \<Rightarrow> bool" where
  "hist_ok h = (length h \<le> HISTORY_MAX \<and> (\<forall>i. i + 1 < length h \<longrightarrow> h ! i \<noteq> h ! (i + 1)))"

definition info_ok :: "machine_info \<Rightarrow> bool" where
  "info_ok i = (length (devices (mi_disks i)) = MAX_DEVICES \<and> (\<forall>d \<in> set (devices (mi_disks i)). capacity_mb d \<le> 2 ^ 53))"

definition tables_ok :: "nat option \<Rightarrow> tables_pred" where
  "tables_ok c u h i = (users_ok u \<and> current_idx u < MAX_USERS \<and> hist_ok h \<and> info_ok i \<and> (\<forall>x. c = Some x \<longrightarrow> current_idx u = x))"

lemma remember_ok: "hist_ok h \<Longrightarrow> hist_ok (remember l h)"
proof -
  assume h: "hist_ok h"
  show ?thesis
  proof (cases "h \<noteq> [] \<and> last h = l")
    case False
    have ne: "(h @ [l]) ! i \<noteq> (h @ [l]) ! (i + 1)" if "i + 1 < length (h @ [l])" for i
    proof (cases "i + 1 < length h")
      case True
      then show ?thesis using h by (simp add: hist_ok_def nth_append)
    next
      case last: False
      then have "i = length h - 1" "h \<noteq> []" using that by auto
      then show ?thesis using False by (simp add: nth_append last_conv_nth)
    qed
    have "length h \<le> HISTORY_MAX" using h by (simp add: hist_ok_def)
    then show ?thesis using False ne by (auto simp: remember_def hist_ok_def nth_tl Let_def)
  qed (use h in \<open>simp add: remember_def\<close>)
qed

lemma meets_user_name [meets_intros]: "i < MAX_USERS \<Longrightarrow> meets pan (tables_ok c) (user_name i) (\<lambda>_. True)"
proof -
  assume i: "i < MAX_USERS"
  have "\<exists>n. (do { r \<leftarrow> idx (table u) i; upto_idx (u_name r) (u_name_len r) }) = Some n" if "users_ok u" for u
  proof -
    have "user_ok (table u ! i)" "i < length (table u)" using that i by (auto simp: users_ok_def)
    then show ?thesis by (simp add: idx_def upto_idx_def user_ok_def)
  qed
  then show ?thesis unfolding user_name_def
    by (intro meets_gets meets_of_opt) (fastforce simp: on_tables_def tables_ok_def)+
qed

lemma meets_current_name [meets_intros]: "meets pan (tables_ok c) current_name (\<lambda>_. True)"
  unfolding current_name_def
  by (intro meets_intros) (simp add: on_tables_def tables_ok_def)

lemma meets_user_at [meets_intros]: "i < MAX_USERS \<Longrightarrow> meets pan (tables_ok c) (user_at i) (\<lambda>_. True)"
  unfolding user_at_def
  by (intro meets_gets meets_of_opt) (auto simp: on_tables_def tables_ok_def users_ok_def idx_def)

lemma meets_all_devices: "on_tables (tables_ok c) k \<Longrightarrow> meets pan (tables_ok c) (of_opt (all_devices (mi_disks (k_info k))))
    (\<lambda>ds. length ds = MAX_DEVICES \<and> (\<forall>d \<in> set ds. capacity_mb d \<le> 2 ^ 53))"
  by (rule meets_of_opt) (auto simp: all_devices_def upto_idx_def on_tables_def tables_ok_def info_ok_def)

lemma total_mb_fits: "(\<forall>d \<in> set ds. capacity_mb d \<le> c) \<Longrightarrow> n + length ds * c < 2 ^ 64 \<Longrightarrow> total_mb ds n \<noteq> None"
proof (induction ds arbitrary: n)
  case (Cons d ds)
  have "n + capacity_mb d + length ds * c < 2 ^ 64" using Cons.prems by simp
  then show ?case using Cons by auto
qed simp

lemma meets_total_mb: "length ds = MAX_DEVICES \<and> (\<forall>d \<in> set ds. capacity_mb d \<le> 2 ^ 53) \<Longrightarrow>
    meets pan (tables_ok c) (of_opt (total_mb ds 0)) (\<lambda>_. True)"
  using total_mb_fits [of ds "2 ^ 53" 0] by (intro meets_of_opt) (auto simp: MAX_DEVICES_def)

section \<open>Commands that never panic\<close>

lemma meets_logo [meets_intros]: "meets pan P (about_logo i) (\<lambda>_. True)" "meets pan P (about_row i key v) (\<lambda>_. True)"
  unfolding about_logo_def about_row_def by (intro meets_intros)+

lemma meets_history [meets_intros]: "meets pan P cmd_history (\<lambda>_. True)"
  unfolding cmd_history_def by (intro meets_intros) (auto intro: meets_intros)

lemma meets_help [meets_intros]: "meets pan P cmd_help (\<lambda>_. True)"
  unfolding cmd_help_def by (intro meets_intros) (auto intro: meets_intros)

lemma meets_echo [meets_intros]: "meets pan P (cmd_echo cs) (\<lambda>_. True)"
  unfolding cmd_echo_def Let_def by (intro meets_intros) simp

lemma meets_count [meets_intros]: "meets pan P (cmd_count a) (\<lambda>_. True)"
  unfolding cmd_count_def by (intro meets_intros)

lemma meets_color [meets_intros]: "meets pan P (cmd_color a) (\<lambda>_. True)"
  unfolding cmd_color_def Let_def by (intro meets_intros)

lemma meets_set_layout [meets_intros]: "meets pan P (set_layout l) (\<lambda>_. True)"
  unfolding set_layout_def by (rule meets_modify) (simp_all add: on_tables_def)

lemma meets_loadkeys [meets_intros]: "meets pan P (cmd_loadkeys a) (\<lambda>_. True)"
  unfolding cmd_loadkeys_def
  by (intro meets_intros) (auto intro: meets_intros split: kbd_layout.split)

lemma meets_pci [meets_intros]: "meets pan P cmd_pci (\<lambda>_. True)"
  unfolding cmd_pci_def by (intro meets_intros)

lemma meets_solarfetch [meets_intros]: "meets pan (tables_ok c) cmd_solarfetch (\<lambda>_. True)"
  unfolding cmd_solarfetch_def
  by (intro meets_intros meets_bnd [OF meets_current_name] meets_bnd [OF meets_all_devices] meets_bnd [OF meets_total_mb])

lemma meets_status [meets_intros]: "meets pan (tables_ok c) cmd_status (\<lambda>_. True)"
  unfolding cmd_status_def Let_def
  by (intro meets_intros meets_bnd [OF meets_current_name])

lemma meets_diskinfo [meets_intros]: "meets pan (tables_ok c) cmd_diskinfo (\<lambda>_. True)"
  unfolding cmd_diskinfo_def
  by (intro meets_intros meets_bnd [OF meets_all_devices]) (auto intro: meets_intros)

lemma meets_whoami [meets_intros]: "meets pan (tables_ok c) cmd_whoami (\<lambda>_. True)"
  unfolding cmd_whoami_def by (intro meets_bnd [OF meets_current_name] meets_intros)

lemma meets_users [meets_intros]: "meets pan (tables_ok c) cmd_users (\<lambda>_. True)"
proof -
  have "on_tables (tables_ok c) k \<Longrightarrow> i \<in> set [0..<user_count (k_users k)] \<Longrightarrow> i < MAX_USERS" for k i
    by (auto simp: on_tables_def tables_ok_def users_ok_def)
  then show ?thesis unfolding cmd_users_def
    by (intro meets_gets meets_then meets_say meets_each meets_bnd [OF meets_user_name] meets_bnd [OF meets_user_at])
qed

lemma meets_pwd [meets_intros]: "meets pan P cmd_pwd (\<lambda>_. True)"
  by (simp add: meets_def cmd_pwd_def on_fs_def pwd_def print_def shown_def on_tables_def bnd_def)
section \<open>Commands that use the disk\<close>

lemma meets_report [meets_intros]: "meets True P (report cmd m) (\<lambda>_. True)"
  unfolding report_def say_err_def
  by (intro meets_bnd [OF meets_attempt [OF meets_on_fs]] meets_intros) simp

lemma meets_mounted [meets_intros]: "meets pan P m (\<lambda>_. True) \<Longrightarrow> meets pan P (if_mounted cmd m) (\<lambda>_. True)"
  unfolding if_mounted_def say_err_def by (intro meets_intros)

lemma meets_with_path [meets_intros]: "meets True P (with_path cmd arg m) (\<lambda>_. True)"
  unfolding with_path_def by (intro meets_intros)

lemmas path_commands = cmd_ls_def cmd_cd_def cmd_mkdir_def cmd_touch_def cmd_cat_def cmd_rm_def cmd_rmdir_def cmd_mv_def

lemma meets_path_commands [meets_intros]:
  "meets True P (cmd_ls a) (\<lambda>_. True)" "meets True P (cmd_cd a) (\<lambda>_. True)" "meets True P (cmd_mkdir a) (\<lambda>_. True)"
  "meets True P (cmd_touch a) (\<lambda>_. True)" "meets True P (cmd_cat a) (\<lambda>_. True)" "meets True P (cmd_rm a) (\<lambda>_. True)"
  "meets True P (cmd_rmdir a) (\<lambda>_. True)" "meets True P (cmd_mv a b) (\<lambda>_. True)"
  unfolding path_commands by (intro meets_intros)+

lemma meets_mkfs [meets_intros]: "meets True P (cmd_mkfs a) (\<lambda>_. True)"
  unfolding cmd_mkfs_def Let_def say_err_def
  by (intro meets_bnd [OF meets_attempt [OF meets_on_fs]] meets_intros)

lemma meets_wtest [meets_intros]: "meets True P (cmd_wtest a b) (\<lambda>_. True)"
  unfolding cmd_wtest_def say_err_def
  by (intro meets_mounted meets_if meets_say meets_sum meets_option meets_bnd [OF meets_attempt [OF meets_on_fs]])

section \<open>Users\<close>

lemma meets_find_user [meets_intros]:
  "meets pan (tables_ok c) (find_user_op name) (\<lambda>r. \<forall>i. r = Some i \<longrightarrow> i < MAX_USERS)"
proof -
  have "\<exists>r. find_user name u = Some r \<and> (\<forall>i. r = Some i \<longrightarrow> i < MAX_USERS)" if u: "users_ok u" for u
  proof -
    have "i < length (users_list u)" if "find_name name (users_list u) = Some i" for i
      using that LeastI_ex [of "\<lambda>i. i < length (users_list u) \<and> fst (users_list u ! i) = name"]
      by (auto simp: find_name_def split: if_splits)
    then show ?thesis using find_user_spec [OF u] u by (fastforce simp: users_list_def users_ok_def)
  qed
  then show ?thesis unfolding find_user_op_def
    by (intro meets_gets meets_of_opt) (fastforce simp: on_tables_def tables_ok_def)+
qed

lemma next_uid_bound: "next_uid_from us uid = Some v \<Longrightarrow> uid < 2 ^ 32 \<Longrightarrow> v < 2 ^ 32"
proof (induction us uid rule: next_uid_from.induct)
  case (1 us uid)
  then show ?case by (subst (asm) (2) next_uid_from.simps) (auto split: if_splits)
qed

lemma add_user_table:
  assumes u: "users_ok u" and run: "add_user mn wrf name u f = Some (r, u', f')"
  shows "users_ok u' \<and> current_idx u' = current_idx u \<and> (\<forall>i. r = Inr i \<longrightarrow> i < MAX_USERS)"
proof (cases "valid_name name")
  case True
  obtain uid where uid: "next_uid u = Some uid" using run True by (cases "next_uid u") (auto simp: add_user_def)
  then have "uid < 2 ^ 32" using next_uid_bound by (auto simp: next_uid_def split: bind_splits)
  moreover have "length name \<le> NAME_CAP" using True by (simp add: valid_name_def split: if_splits)
  ultimately obtain r1 u1 where c: "add_user_core name uid uid u = Some (r1, u1)" "users_ok u1"
    "\<forall>i. r1 = Inr i \<longrightarrow> i = user_count u \<and> i < MAX_USERS"
    using add_user_core_ok [OF u, of uid uid name] by (auto split: if_splits)
  have idx: "current_idx u1 = current_idx u"
    using c(1) by (auto simp: add_user_core_def Let_def split: if_splits bind_splits option.splits)
  have "u' = u1 \<and> r = r1"
    using run True uid c(1) by (cases r1) (auto simp: add_user_def split: bind_splits)
  then show ?thesis using c idx by simp
qed (use assms in \<open>auto simp: add_user_def\<close>)

lemma set_password_table:
  assumes u: "users_ok u" and run: "set_password mn wrf i pw u f = Some (r, u', f')"
  shows "users_ok u' \<and> current_idx u' = current_idx u"
proof (cases "PASS_CAP < length pw")
  case False
  have i: "i < length (table u)" using run False by (auto simp: set_password_def idx_def split: if_splits)
  have ok: "user_ok (table u ! i)" using u i by (simp add: users_ok_def)
  have u': "u' = u\<lparr>table := (table u)[i := (table u ! i)\<lparr>u_pass := put 0 pw (u_pass (table u ! i)), u_pass_len := length pw\<rparr>]\<rparr>"
    using run False i by (auto simp: set_password_def idx_def Let_def split: bind_splits)
  have "user_ok ((table u ! i)\<lparr>u_pass := put 0 pw (u_pass (table u ! i)), u_pass_len := length pw\<rparr>)"
    using ok False by (simp add: user_ok_def)
  then show ?thesis using u unfolding u'
    by (auto simp: users_ok_def dest!: set_update_subset_insert [THEN subsetD])
qed (use assms in \<open>auto simp: set_password_def\<close>)

lemma meets_on_users:
  assumes "\<And>k f r u' f'. on_tables P k \<Longrightarrow> m (k_users k) f = Some (r, u', f') \<Longrightarrow>
      P u' (k_history k) (k_info k) \<and> Q r"
  shows "meets True P (on_users m) Q"
proof -
  have "on_tables P (snd (on_users m k)) \<and> prefix (k_screen k) (k_screen (snd (on_users m k))) \<and> (\<forall>a. fst (on_users m k) = Ret a \<longrightarrow> Q a)" if k: "on_tables P k" for k
    using assms [OF k] k
    by (auto simp: on_users_def on_tables_def shown_def Let_def split: option.split outcome.split)
  then show ?thesis by (auto simp: meets_def split: outcome.split)
qed

lemma meets_adduser [meets_intros]: "meets True (tables_ok c) (cmd_adduser a) (\<lambda>_. True)"
proof -
  have "meets True (tables_ok c) (on_users (Users.add_user run_mounted run_write a)) (\<lambda>r. \<forall>i. r = Inr i \<longrightarrow> i < MAX_USERS)"
    by (rule meets_on_users) (auto simp: on_tables_def tables_ok_def dest: add_user_table)
  then show ?thesis unfolding cmd_adduser_def
    by (intro meets_if meets_say meets_bnd [where R = "\<lambda>r. \<forall>i. r = Inr i \<longrightarrow> i < MAX_USERS"] meets_sum
        meets_bnd [OF meets_user_name] meets_bnd [OF meets_user_at]) auto
qed

lemma meets_new_password: "meets True (tables_ok c) (new_password i) (\<lambda>_. True)"
proof -
  have "meets True (tables_ok c) (on_users (Users.set_password run_mounted run_write i pw)) (\<lambda>_. True)" for pw
    by (rule meets_on_users) (auto simp: on_tables_def tables_ok_def dest: set_password_table)
  then show ?thesis unfolding new_password_def
    by (intro meets_bnd [OF meets_ask] meets_option meets_say meets_if meets_sum meets_bnd [OF meets_of_opt [where Q = "\<lambda>_. True"]]
        meets_bnd [where R = "\<lambda>_. True"]) auto
qed

lemma meets_passwd [meets_intros]: "meets True (tables_ok c) (cmd_passwd a) (\<lambda>_. True)"
  unfolding cmd_passwd_def
  by (intro meets_if meets_gets meets_new_password meets_bnd [OF meets_find_user] meets_option meets_say)

lemma meets_try_login:
  assumes "i < MAX_USERS" and "snd p \<le> length (fst p)"
  shows "meets pan (tables_ok None) (try_login i p) (\<lambda>_. True)"
  unfolding try_login_def
proof (intro meets_bnd [OF meets_of_opt [where Q = "\<lambda>_. True"]] meets_gets meets_if meets_say meets_then)
  show "upto_idx (fst p) (snd p) = None \<Longrightarrow> pan" using assms(2) by (simp add: upto_idx_def)
  show "check_password i pw (k_users k) = None \<Longrightarrow> pan" if "on_tables (tables_ok None) k" for k pw
    using that assms(1) by (auto simp: on_tables_def tables_ok_def users_ok_def user_ok_def check_password_def idx_def upto_idx_def
        split: if_splits)
  show "meets pan (tables_ok None) (modify (\<lambda>k. k\<lparr>k_users := set_current i (k_users k)\<rparr>)) (\<lambda>_. True)"
    by (rule meets_modify) (use assms(1) in \<open>auto simp: on_tables_def tables_ok_def users_ok_def set_current_def\<close>)
  show "meets pan (tables_ok None) (bnd (user_name i) (\<lambda>name. say_line (chars ''logged in as '' @ name))) (\<lambda>_. True)"
    by (intro meets_bnd [OF meets_user_name [OF assms(1)]] meets_say)
qed simp_all

lemma meets_login [meets_intros]: "meets pan (tables_ok None) (cmd_login a) (\<lambda>_. True)"
proof -
  have pw: "has_password i (k_users k) \<noteq> None" if "on_tables (tables_ok None) k" "i < MAX_USERS" for k i
    using that by (auto simp: on_tables_def tables_ok_def users_ok_def has_password_def idx_def)
  show ?thesis unfolding cmd_login_def
  proof (intro meets_if meets_say meets_bnd [OF meets_find_user] meets_option meets_gets
      meets_bnd [OF meets_of_opt [where Q = "\<lambda>_. True"]] meets_bnd [OF meets_ask] meets_try_login)
  qed (use pw in auto)
qed

section \<open>The dispatcher\<close>

text \<open>The commands that reach a file system driver, and those that may change the current user.\<close>

definition uses_disk :: "uchar list \<Rightarrow> bool" where
  "uses_disk name = list_ex (matches name)
     [''ls'', ''cd'', ''mkdir'', ''touch'', ''cat'', ''rm'', ''rmdir'', ''mv'', ''wtest'', ''mkfs'', ''adduser'', ''passwd'']"

definition logs_in :: "uchar list \<Rightarrow> bool" where
  "logs_in name = (matches name ''login'' \<or> matches name ''su'')"

lemma meets_pan: "pan \<Longrightarrow> meets True P m Q \<Longrightarrow> meets pan P m Q"
  by simp

lemma meets_dispatch:
  assumes "lens t ! 0 \<le> length cs" and "logs_in (arg_str t 0) \<Longrightarrow> c = None"
  shows "meets (uses_disk (arg_str t 0)) (tables_ok c) (dispatch cs t) (\<lambda>_. True)"
  unfolding dispatch_def Let_def
  apply (intro meets_if meets_then [OF meets_guard [OF assms(1)]] meets_help meets_event meets_echo meets_say
      meets_solarfetch meets_count meets_color meets_status meets_loadkeys meets_history meets_diskinfo meets_pci meets_pwd
      meets_whoami meets_users)
  subgoal by (rule meets_pan) (simp_all add: uses_disk_def meets_path_commands)
  subgoal by (rule meets_pan) (simp_all add: uses_disk_def meets_path_commands)
  subgoal by (rule meets_pan) (simp_all add: uses_disk_def meets_path_commands)
  subgoal by (rule meets_pan) (simp_all add: uses_disk_def meets_path_commands)
  subgoal by (rule meets_pan) (simp_all add: uses_disk_def meets_path_commands)
  subgoal by (rule meets_pan) (simp_all add: uses_disk_def meets_path_commands)
  subgoal by (rule meets_pan) (simp_all add: uses_disk_def meets_path_commands)
  subgoal by (rule meets_pan) (simp_all add: uses_disk_def meets_path_commands)
  subgoal by (rule meets_pan) (simp_all add: uses_disk_def meets_wtest)
  subgoal by (rule meets_pan) (simp_all add: uses_disk_def meets_mkfs)
  subgoal by (rule meets_pan) (simp_all add: uses_disk_def meets_adduser)
  subgoal by (rule meets_pan) (simp_all add: uses_disk_def meets_passwd)
  using assms(2) by (simp add: logs_in_def meets_login)

lemma meets_execute:
  assumes "\<And>t. parse_args cs = Some t \<Longrightarrow> arg_count t \<noteq> 0 \<Longrightarrow> logs_in (arg_str t 0) \<Longrightarrow> c = None"
  shows "meets (words_of cs \<noteq> [] \<and> uses_disk (take 64 (hd (words_of cs)))) (tables_ok c) (execute cs) (\<lambda>_. True)"
proof -
  obtain t where t: "parse_args cs = Some t" using parse_args_stores by blast
  note w = first_word [OF t]
  have h: "meets pan (tables_ok c) (modify (\<lambda>k. k\<lparr>k_history := remember cs (k_history k)\<rparr>)) (\<lambda>_. True)" for pan
    by (rule meets_modify) (auto simp: on_tables_def tables_ok_def remember_ok)
  have d: "meets (words_of cs \<noteq> [] \<and> uses_disk (take 64 (hd (words_of cs)))) (tables_ok c) (dispatch cs t) (\<lambda>_. True)"
    if "arg_count t \<noteq> 0"
    using meets_dispatch [OF w(3) [OF that] assms [OF t that]] w(1,2) [OF that] by simp
  show ?thesis unfolding execute_def t
    by (rule meets_bnd [OF meets_of_opt [where Q = "\<lambda>x. x = t"]]) (auto intro!: meets_if meets_then meets_ret h d)
qed

text \<open>
  What is shown, as operations of the console.  \<open>set_fg\<close> keeps the background, which is always
  the standard one, so it is the operation \<open>Colour\<close>.
\<close>

definition con_ops :: "screen_event \<Rightarrow> con_op list" where
  "con_ops e = (case e of Text cs \<Rightarrow> map Write cs | Set_fg f \<Rightarrow> [Colour f] | Reset_fg \<Rightarrow> [Reset] | Cleared \<Rightarrow> [Clear] | Erased \<Rightarrow> [Backspace])"

fun con_run :: "con_op list \<Rightarrow> console \<Rightarrow> console option" where
  "con_run [] c = Some c"
| "con_run (op # ops) c = (case con_step op c of None \<Rightarrow> None | Some c' \<Rightarrow> con_run ops c')"

lemma set_fg_colour: "con_reach clean c \<Longrightarrow> Console.set_fg f c = the (con_step (Colour f) c)"
  using reach_inv [of clean c] by (simp add: Console.set_fg_def con_step_def set_colors_def)

text \<open>The command line run on a console: it panics with the console, or by itself.\<close>

definition execute_shown :: "uchar list \<Rightarrow> ksys \<times> console \<Rightarrow> (fs_err, unit) outcome \<times> ksys \<times> console" where
  "execute_shown cs = (\<lambda>(k, c). case execute cs k of (r, k') \<Rightarrow>
     (case con_run (concat (map con_ops (drop (length (k_screen k)) (k_screen k')))) c of
        None \<Rightarrow> (Panic, k', c)
      | Some c' \<Rightarrow> (r, k', c')))"

text \<open>Where the console stops.\<close>

definition out_of_rows :: "con_op list \<Rightarrow> console \<Rightarrow> bool" where
  "out_of_rows ops c = (\<exists>xs ch ys c1. ops = xs @ Write ch # ys \<and> con_run xs c = Some c1 \<and> needs_row ch c1 \<and> rows c1 = SCR_ROWS)"

lemma con_run_stops:
  assumes "con_reach clean c"
  shows "case con_run ops c of None \<Rightarrow> out_of_rows ops c | Some c' \<Rightarrow> \<exists>clean'. con_reach clean' c'"
  using assms
proof (induction ops arbitrary: clean c)
  case (Cons op ops)
  show ?case
  proof (cases "con_step op c")
    case None
    then obtain ch where ch: "op = Write ch" "needs_row ch c" "rows c = SCR_ROWS"
      using step_stops [OF Cons.prems, of op] by blast
    then have "out_of_rows (op # ops) c" unfolding out_of_rows_def
      by (intro exI [of _ "[]"] exI [of _ ch] exI [of _ ops] exI [of _ c]) simp
    then show ?thesis using None by simp
  next
    case (Some c1)
    have "out_of_rows (op # ops) c" if o: "out_of_rows ops c1"
    proof -
      obtain xs ch ys c2 where "ops = xs @ Write ch # ys" "con_run xs c1 = Some c2" "needs_row ch c2" "rows c2 = SCR_ROWS"
        using o unfolding out_of_rows_def by blast
      then show ?thesis unfolding out_of_rows_def using Some
        by (intro exI [of _ "op # xs"] exI [of _ ch] exI [of _ ys] exI [of _ c2]) simp
    qed
    then show ?thesis using Cons.IH [OF con_reach.step [OF Cons.prems Some]] Some by (auto split: option.splits)
  qed
qed auto

text \<open>C10: a command line run on a console, which shows what the command prints: it never breaks the user
  table, the current user, the history or the disk table, what it prints comes after what was
  there, and the console is again one of those that operations lead to.  It panics only where the first word names a
  command that uses the file system, or because the console needs a row when all \<open>SCR_ROWS\<close> are in use.
\<close>

theorem service_keeps_tables:
  assumes "execute_shown cs (k, c) = (r, k', c')" and "on_tables (tables_ok None) k" and "con_reach clean c"
  shows "on_tables (tables_ok None) k' \<and>
    (\<exists>es. k_screen k' = k_screen k @ es \<and>
       (r = Panic \<longrightarrow> words_of cs \<noteq> [] \<and> uses_disk (take 64 (hd (words_of cs))) \<or> out_of_rows (concat (map con_ops es)) c)) \<and>
    (r \<noteq> Panic \<longrightarrow> (\<exists>clean'. con_reach clean' c'))"
proof -
  obtain r1 k1 where e: "execute cs k = (r1, k1)" by fastforce
  have m: "on_tables (tables_ok None) k1" "prefix (k_screen k) (k_screen k1)"
    "r1 = Panic \<Longrightarrow> words_of cs \<noteq> [] \<and> uses_disk (take 64 (hd (words_of cs)))"
    using meetsD [OF meets_execute assms(2) e] by simp_all
  obtain es where es: "k_screen k1 = k_screen k @ es" using m(2) by (auto simp: prefix_def)
  have k': "k' = k1" using assms(1) e by (auto simp: execute_shown_def split: option.splits)
  note s = con_run_stops [OF assms(3), of "concat (map con_ops es)"]
  have "r = Panic \<longrightarrow> r1 = Panic \<or> out_of_rows (concat (map con_ops es)) c" and "r \<noteq> Panic \<longrightarrow> (\<exists>clean'. con_reach clean' c')"
    using assms(1) s by (auto simp: execute_shown_def e es split: option.splits)
  then show ?thesis using m es k' by blast
qed

section \<open>Who is logged in\<close>

definition password_of :: "users \<Rightarrow> nat \<Rightarrow> uchar list" where
  "password_of u i = snd (snd (snd (users_list u ! i)))"

lemma check_password_list:
  assumes "users_ok u" and "i < user_count u" and "check_password i pw u = Some True"
  shows "password_of u i = [] \<or> password_of u i = pw"
proof -
  have "users_list u ! i = Users.view (table u ! i)" using assms by (simp add: users_list_def users_ok_def)
  moreover have "i < length (table u)" using assms(1,2) by (simp add: users_ok_def)
  ultimately show ?thesis using assms(3)
    by (auto simp: password_of_def Users.view_def check_password_def idx_def upto_idx_def split: if_splits)
qed

lemma has_password_list:
  assumes "users_ok u" and "i < user_count u" and "has_password i u = Some False"
  shows "password_of u i = []"
proof -
  have "users_list u ! i = Users.view (table u ! i)" using assms by (simp add: users_list_def users_ok_def)
  then show ?thesis using assms
    by (auto simp: password_of_def Users.view_def has_password_def idx_def users_ok_def split: if_splits)
qed

lemma bnd_panic [simp]: "bnd panic f = panic"
  by (rule ext) (simp add: bnd_def)

lemma bnd_bnd_gets [simp]: "bnd (bnd (gets g) h) f k = bnd (h (g k)) f k"
  by (simp add: bnd_def)

text \<open>\<open>may_become k a i\<close>: user \<open>i\<close> is the one named \<open>a\<close> and has no password, or the line typed
  next is the password.\<close>

definition may_become :: "ksys \<Rightarrow> uchar list \<Rightarrow> nat \<Rightarrow> bool" where
  "may_become k a i = (find_name a (users_list (k_users k)) = Some i \<and> (password_of (k_users k) i = [] \<or>
     (case fst (read_line False (k_input k)) of Entered l n \<Rightarrow> take n l = password_of (k_users k) i | _ \<Rightarrow> False)))"

lemma user_name_only: "k_users (snd (bnd (user_name i) (\<lambda>n. say_line (f n)) k)) = k_users k"
  by (cases "do { r \<leftarrow> idx (table (k_users k)) i; upto_idx (u_name r) (u_name_len r) }")
    (simp_all add: user_name_def of_opt_def say_line_def say_def event_def)

lemma try_login_user:
  assumes u: "users_ok (k_users k)" and i: "i < user_count (k_users k)"
    and ch: "current_idx (k_users (snd (try_login i p k))) \<noteq> current_idx (k_users k)"
  shows "current_idx (k_users (snd (try_login i p k))) = i \<and> snd p \<le> length (fst p) \<and>
    (password_of (k_users k) i = [] \<or> password_of (k_users k) i = take (snd p) (fst p))"
proof -
  obtain pw where pw: "upto_idx (fst p) (snd p) = Some pw"
    using ch by (cases "upto_idx (fst p) (snd p)") (simp_all add: try_login_def of_opt_def)
  obtain ok where ok: "check_password i pw (k_users k) = Some ok"
    using ch pw by (cases "check_password i pw (k_users k)") (simp_all add: try_login_def of_opt_def)
  have T: "ok" using ch pw ok
    by (cases ok) (simp_all add: try_login_def of_opt_def say_line_def say_def event_def)
  have "k_users (snd (try_login i p k)) = set_current i (k_users k)"
    using pw ok T by (simp add: try_login_def of_opt_def user_name_only)
  then show ?thesis using check_password_list [OF u i] ok T i pw
    by (auto simp: set_current_def upto_idx_def split: if_splits)
qed

lemma ask_keeps: "ask pr k = (r, k1) \<Longrightarrow> k_users k1 = k_users k \<and>
    (\<forall>l n. r = Ret (Some (l, n)) \<longrightarrow> fst (read_line False (k_input k)) = Entered l n)"
  by (auto simp: ask_def bnd_def say_def event_def Let_def split: prod.splits line_end.splits)

lemma find_name_index: "find_name a us = Some i \<Longrightarrow> i < length us"
  using LeastI_ex [of "\<lambda>i. i < length us \<and> fst (us ! i) = a"] by (auto simp: find_name_def split: if_splits)

lemma cmd_login_user:
  assumes u: "users_ok (k_users k)"
    and ch: "current_idx (k_users (snd (cmd_login a k))) \<noteq> current_idx (k_users k)"
  shows "may_become k a (current_idx (k_users (snd (cmd_login a k))))"
proof -
  note sim = cmd_login_def find_user_op_def of_opt_def say_line_def say_def event_def
  have f: "find_user a (k_users k) = Some (find_name a (users_list (k_users k)))" by (rule find_user_spec [OF u])
  have a: "a \<noteq> []" using ch by (auto simp: sim)
  obtain i where i: "find_name a (users_list (k_users k)) = Some i"
    using ch a f by (cases "find_name a (users_list (k_users k))") (simp_all add: sim)
  have ic: "i < user_count (k_users k)" using find_name_index [OF i] by (simp add: users_list_def)
  then obtain b where b: "has_password i (k_users k) = Some b" using u by (simp add: has_password_def idx_def users_ok_def)
  show ?thesis
  proof (cases b)
    case False
    then have e: "snd (cmd_login a k) = snd (try_login i (replicate READ_CAP 0, 0) k)"
      using a f i b by (simp add: sim)
    have "password_of (k_users k) i = []" using has_password_list [OF u ic] b False by simp
    then show ?thesis using try_login_user [OF u ic, of "(replicate READ_CAP 0, 0)"] ch i e by (simp add: may_become_def)
  next
    case True
    obtain r k1 where r: "ask ''Password: '' k = (r, k1)" by fastforce
    note ak = ask_keeps [OF r]
    have e: "cmd_login a k = bnd (ask ''Password: '') (\<lambda>q. case q of None \<Rightarrow> say_line (chars ''login: cancelled'')
        | Some p \<Rightarrow> try_login i p) k"
      using a f i b True by (simp add: cmd_login_def find_user_op_def of_opt_def)
    obtain l n where ln: "r = Ret (Some (l, n))"
      using ch ak r unfolding e by (cases r) (auto simp: bnd_def say_line_def say_def event_def split: option.splits)
    then have "snd (cmd_login a k) = snd (try_login i (l, n) k1)" using e r by (simp add: bnd_def)
    then show ?thesis using try_login_user [of k1 i "(l, n)"] ak ln u ic ch i by (auto simp: may_become_def)
  qed
qed

lemma say_users [simp]: "k_users (snd (say_line cs k)) = k_users k"
  by (simp add: say_line_def say_def event_def)

text \<open>C3: the current user changes only by \<open>login\<close> or \<open>su\<close>, to the user named there, and only when
  that user has no password or the line typed next is the password.
\<close>

theorem login_needs_password:
  assumes "execute cs k = (r, k')" and "on_tables (tables_ok None) k"
    and "current_idx (k_users k') \<noteq> current_idx (k_users k)"
  shows "1 < length (words_of cs) \<and> logs_in (take 64 (words_of cs ! 0)) \<and>
    may_become k (take 64 (words_of cs ! 1)) (current_idx (k_users k'))"
proof -
  obtain t where t: "parse_args cs = Some t" "stores t (take MAX_ARGS (words_of cs))"
    "arg_count t = min MAX_ARGS (length (words_of cs))"
    using parse_args_stores by blast
  have k: "on_tables (tables_ok (Some (current_idx (k_users k)))) k" using assms(2) by (simp add: on_tables_def tables_ok_def)
  have "\<not> (\<forall>t. parse_args cs = Some t \<longrightarrow> arg_count t \<noteq> 0 \<longrightarrow> logs_in (arg_str t 0) \<longrightarrow> False)"
    using meetsD [OF meets_execute [of cs "Some (current_idx (k_users k))"] k assms(1)] assms(3)
    by (auto simp: on_tables_def tables_ok_def)
  then have li: "arg_count t \<noteq> 0" "logs_in (arg_str t 0)" using t by auto
  have nm: "\<not> matches (arg_str t 0) ''history''" "\<forall>s \<in> set [''help'', ''clear'', ''echo'', ''version'', ''solarfetch'', ''count'', ''color'', ''status'',
      ''loadkeys'', ''history'', ''help2'', ''diskinfo'', ''pci'', ''ls'', ''cd'', ''pwd'', ''mkdir'', ''touch'', ''cat'', ''rm'', ''rmdir'', ''mv'',
      ''wtest'', ''mkfs'', ''whoami'', ''users'', ''adduser'', ''passwd'']. \<not> matches (arg_str t 0) s"
    using li(2) by (auto simp: logs_in_def matches_def eq_ci_str_iff chars_def lower_char_def)
  let ?k = "k\<lparr>k_history := remember cs (k_history k)\<rparr>"
  have e: "snd (execute cs k) = snd (cmd_login (arg_str t 1) ?k)"
    using t(1) li nm by (simp add: execute_def of_opt_def dispatch_def logs_in_def)
  have "may_become ?k (arg_str t 1) (current_idx (k_users k'))"
    using cmd_login_user [of ?k "arg_str t 1"] assms e by (simp add: on_tables_def tables_ok_def)
  then have m: "may_become k (arg_str t 1) (current_idx (k_users k'))" by (simp add: may_become_def cong: line_end.case_cong)
  have "arg_str t 1 \<noteq> []"
    using assms(1,3) e by (auto simp: cmd_login_def)
  then have "1 < length (words_of cs)" using t(3) by (auto simp: arg_str_def split: if_splits)
  then show ?thesis using m li first_word [OF t(1) li(1)] stores_take [OF t(2), of 1]
    by (auto simp: arg_str_def t(3) MAX_ARGS_def MAX_ARG_LEN_def hd_conv_nth)
qed

section \<open>An example machine\<close>

text \<open>No disk, root and a user ``a'' with the password ``x''; ``a'' is logged in and types \<open>cs\<close>.\<close>

definition demo_sys :: "uchar list \<Rightarrow> ksys" where
  "demo_sys cs = \<lparr>k_fs = \<lparr>devs = [], disk = (\<lambda>_. []), rd_ok = (\<lambda>_. True), wr_ok = (\<lambda>_. True), power = 0, fs_base = 0,
       mount_st = None, cwd_st = \<lparr>parts = [], n_parts = 0\<rparr>, fat_st = None, ext_st = None, jbd_st = None, tty = []\<rparr>,
     k_users = demo_users [120], k_layout = Us, k_history = [], k_screen = [], k_input = cs,
     k_info = \<lparr>mi_ticks = 0, mi_brand = [], mi_vendor = [], mi_model = 0, mi_mem_mb = 0, mi_fb = None, mi_format = [],
       mi_disks = \<lparr>devices = replicate MAX_DEVICES DEV_NONE, dev_count = 0\<rparr>, mi_pci = []\<rparr>\<rparr>"

lemma demo_sys_ok: "on_tables (tables_ok None) (demo_sys cs)"
  using demo_ok [of "[120]"]
  by (simp add: on_tables_def tables_ok_def demo_sys_def hist_ok_def info_ok_def DEV_NONE_def demo_users_def MAX_USERS_def)

lemma demo_sys_users: "users_list (k_users (demo_sys cs)) = [(root_name, 0, 0, []), ([97], 1000, 1000, [120])]"
  using demo_ok [of "[120]"] by (simp add: demo_sys_def)

theorem service_keeps_tables_witness:
  "\<exists>c clean. con_reach clean c \<and> on_tables (tables_ok None) (fst (snd (execute_shown (chars ''ls /'') (demo_sys [], c))))"
proof -
  obtain c where c: "con_reach True c" using small_booted by blast
  obtain r k' c' where e: "execute_shown (chars ''ls /'') (demo_sys [], c) = (r, k', c')" by (metis prod_cases3)
  from service_keeps_tables [OF e demo_sys_ok c] e c show ?thesis by (intro exI [of _ c] exI [of _ True]) simp
qed

lemma words_login_root: "words_of (chars ''login root'') = [chars ''login'', chars ''root'']"
  by (simp add: chars_def words_of_word words_of_blank blank_def)

lemma login_root_runs: "current_idx (k_users (snd (execute (chars ''login root'') (demo_sys [])))) = 0"
  by code_simp

theorem login_needs_password_witness:
  "may_become (demo_sys []) (chars ''root'') 0"
  using login_needs_password [of "chars ''login root''" "demo_sys []"] demo_sys_ok login_root_runs
  by (simp add: prod_eq_iff words_login_root) (simp add: demo_sys_def demo_users_def chars_def)

section \<open>Surprises\<close>

text \<open>Setting the password of root asks user ``a'' for nothing.\<close>

lemma passwd_takes_root:
  "password_of (k_users (snd (execute (chars ''passwd root'') (demo_sys [121, 10, 121, 10])))) 0 = [121]"
  by code_simp

text \<open>A password that was corrected while it was typed does not match itself: the comparison
  covers the characters behind the end of both lines.\<close>

lemma passwd_sees_erased_characters:
  "last (k_screen (snd (execute (chars ''passwd'') (demo_sys [97, 98, 8, 10, 97, 10])))) =
    Text (chars ''passwd: passwords do not match'' @ [10])"
  by code_simp

text \<open>The rest of the line that \<open>echo\<close> prints starts at the length of the word, wherever the word
  stands.\<close>

lemma echo_after_blanks:
  "k_screen (snd (execute (chars ''  echo hi'') (demo_sys []))) = [Text (chars ''ho hi'' @ [10])]"
  by code_simp

text \<open>Any argument that does not begin with a small e selects FAT32.\<close>

lemma mkfs_upper_case: "cmd_mkfs (chars ''EXT4'') = cmd_mkfs []"
  by (rule ext) (simp add: cmd_mkfs_def chars_def)

end
