(* ===== verification/Syscall.thy ===== *)
theory Syscall
  imports Shell Service Mem
begin

text \<open>
  System calls (\<open>kernel/src/syscall.rs\<close>): the dispatcher on the saved registers, and the entry
  and exit that save and restore them.  With the shell (theory Shell) on the other side:
  what the user types is what the kernel service runs.
\<close>

section \<open>The dispatcher\<close>

text \<open>The registers as \<open>syscall_entry\<close> pushes them, top of the stack first.\<close>

record frame =
  f_r9 :: "64 word"
  f_r8 :: "64 word"
  f_r10 :: "64 word"
  f_rdx :: "64 word"
  f_rsi :: "64 word"
  f_rdi :: "64 word"
  f_rcx :: "64 word"
  f_rax :: "64 word"
  f_rbx :: "64 word"
  f_rbp :: "64 word"
  f_r12 :: "64 word"
  f_r13 :: "64 word"
  f_r14 :: "64 word"
  f_r15 :: "64 word"
  f_r11 :: "64 word"

text \<open>Messages on the serial line.\<close>

datatype serial_msg = Ping nat | Bye | Write_rejected nat nat | Write_not_utf8 nat | Read_rejected nat nat
  | Exec_rejected nat nat | Exec_not_utf8 | Unknown_call nat

record sstate =
  service :: ksys
  pages :: paging
  umem :: "nat \<Rightarrow> byte"
  pings :: nat
  serial_log :: "serial_msg list"

type_synonym 'a sop = "(sstate, fs_err, 'a) kernel"

definition log_msg :: "serial_msg \<Rightarrow> unit sop" where
  "log_msg m = modify (\<lambda>s. s\<lparr>serial_log := serial_log s @ [m]\<rparr>)"

definition on_service :: "'a kop \<Rightarrow> 'a sop" where
  "on_service m = (\<lambda>s. case m (service s) of (r, k) \<Rightarrow> (r, s\<lparr>service := k\<rparr>))"

text \<open>The range check; a range that runs over the end of the address space is a panic in it.\<close>

definition check_range :: "nat \<Rightarrow> nat \<Rightarrow> bool sop" where
  "check_range ptr n = bnd (gets pages) (\<lambda>p. case is_user_range ptr n p of None \<Rightarrow> panic | Some b \<Rightarrow> ret b)"

definition copy_in :: "nat \<Rightarrow> nat \<Rightarrow> byte list sop" where
  "copy_in ptr n = gets (\<lambda>s. map (umem s) [ptr..<ptr + n])"

fun put_mem :: "nat \<Rightarrow> byte list \<Rightarrow> (nat \<Rightarrow> byte) \<Rightarrow> nat \<Rightarrow> byte" where
  "put_mem ptr [] m = m"
| "put_mem ptr (b # bs) m = put_mem (ptr + 1) bs (m(ptr := b))"

definition copy_out :: "nat \<Rightarrow> byte list \<Rightarrow> unit sop" where
  "copy_out ptr bs = modify (\<lambda>s. s\<lparr>umem := put_mem ptr bs (umem s)\<rparr>)"

text \<open>Blocks without end where no character comes.\<close>

definition next_char :: "uchar sop" where
  "next_char = (\<lambda>s. case k_input (service s) of
     [] \<Rightarrow> (Hang, s)
   | c # cs \<Rightarrow> (Ret c, s\<lparr>service := (service s)\<lparr>k_input := cs\<rparr>\<rparr>))"

text \<open>The answer goes to \<open>rax\<close>; the flag ends the task.\<close>

definition answer :: "frame \<Rightarrow> 64 word \<Rightarrow> (frame \<times> bool) sop" where
  "answer f v = ret (f\<lparr>f_rax := v\<rparr>, False)"

definition sys_ping :: "frame \<Rightarrow> (frame \<times> bool) sop" where
  "sys_ping f = bnd (gets pings) (\<lambda>p.
     bnd (modify (\<lambda>s. s\<lparr>pings := (p + 1) mod 2 ^ 64\<rparr>)) (\<lambda>_.
     bnd (guard_panic (p + 1 < 2 ^ 64)) (\<lambda>_.
     bnd (log_msg (Ping (p + 1))) (\<lambda>_. answer f (of_nat (p + 1))))))"

definition sys_exit :: "frame \<Rightarrow> (frame \<times> bool) sop" where
  "sys_exit f = bnd (log_msg Bye) (\<lambda>_. ret (f, True))"

definition sys_write :: "frame \<Rightarrow> (frame \<times> bool) sop" where
  "sys_write f = (let buf = unat (f_rsi f); n = min (unat (f_rdx f)) 256 in
     if f_rdi f = 0 then answer f (- 1)
     else if buf = 0 \<or> f_rdx f = 0 then answer f 0
     else bnd (check_range buf n) (\<lambda>ok.
       if \<not> ok then bnd (log_msg (Write_rejected buf n)) (\<lambda>_. answer f (- 1))
       else bnd (copy_in buf n) (\<lambda>bs.
         bnd (case from_utf8 bs of Some cs \<Rightarrow> on_service (say cs) | None \<Rightarrow> log_msg (Write_not_utf8 n)) (\<lambda>_.
         answer f (of_nat n)))))"

definition sys_read :: "frame \<Rightarrow> (frame \<times> bool) sop" where
  "sys_read f = (let buf = unat (f_rsi f); n = min (unat (f_rdx f)) 64 in
     if f_rdi f \<noteq> 0 \<or> buf = 0 \<or> f_rdx f = 0 then answer f (- 1)
     else bnd (check_range buf n) (\<lambda>ok.
       if \<not> ok then bnd (log_msg (Read_rejected buf n)) (\<lambda>_. answer f (- 1))
       else bnd next_char (\<lambda>c. let bs = utf8_enc c in
         if n < length bs then answer f 0
         else bnd (copy_out buf bs) (\<lambda>_. answer f (of_nat (length bs))))))"

definition arg_rgb :: "64 word \<Rightarrow> rgb" where
  "arg_rgb a = (ucast (drop_bit 16 a AND 0xFF), ucast (drop_bit 8 a AND 0xFF), ucast (a AND 0xFF))"

definition sys_console :: "frame \<Rightarrow> (frame \<times> bool) sop" where
  "sys_console f = bnd (
     if f_rdi f = 0 then on_service (event Cleared)
     else if f_rdi f = 1 then on_service (event (Set_fg (arg_rgb (f_rsi f))))
     else if f_rdi f = 2 then on_service (event Reset_fg)
     else if f_rdi f = 3 then on_service (event Erased)
     else ret ()) (\<lambda>_. answer f 0)"

definition sys_exec :: "frame \<Rightarrow> (frame \<times> bool) sop" where
  "sys_exec f = (let ptr = unat (f_rdi f); n = min (unat (f_rsi f)) 512 in
     bnd (if ptr = 0 \<or> f_rsi f = 0 then ret False else check_range ptr n) (\<lambda>ok.
     if \<not> ok then bnd (log_msg (Exec_rejected ptr n)) (\<lambda>_. answer f (- 1))
     else bnd (copy_in ptr n) (\<lambda>bs. case from_utf8 bs of
         None \<Rightarrow> bnd (log_msg Exec_not_utf8) (\<lambda>_. answer f (- 1))
       | Some cs \<Rightarrow> bnd (on_service (execute cs)) (\<lambda>_. answer f 0))))"

definition syscall_dispatch :: "frame \<Rightarrow> (frame \<times> bool) sop" where
  "syscall_dispatch f =
    (if f_rax f = 1 then sys_ping f
     else if f_rax f = 2 then sys_exit f
     else if f_rax f = 3 then sys_write f
     else if f_rax f = 4 then sys_read f
     else if f_rax f = 7 then sys_console f
     else if f_rax f = 8 then sys_exec f
     else bnd (log_msg (Unknown_call (unat (f_rax f)))) (\<lambda>_. answer f (- 1)))"

section \<open>Entry and exit\<close>

datatype reg = RAX | RBX | RCX | RDX | RSI | RDI | RBP | R8 | R9 | R10 | R11 | R12 | R13 | R14 | R15

definition entry_pushes :: "reg list" where
  "entry_pushes = [R11, R15, R14, R13, R12, RBP, RBX, RAX, RCX, RDI, RSI, RDX, R10, R8, R9]"

definition exit_pops :: "reg list" where
  "exit_pops = [R9, R8, R10, RDX, RSI, RDI, RCX, RAX, RBX, RBP, R12, R13, R14, R15, R11]"

text \<open>The processor: registers, stack pointer, address of the next instruction and flags; the words
  on the kernel stack of the task; and \<open>SYS_USER_RSP\<close>, one variable of the whole kernel.\<close>

record user_cpu =
  regs :: "reg \<Rightarrow> 64 word"
  rsp :: "64 word"
  rip :: "64 word"
  rflags :: "64 word"
  user_rsp :: "64 word"
  kstack :: "64 word list"

text \<open>The instruction \<open>syscall\<close> puts the return address into \<open>rcx\<close> and the flags into \<open>r11\<close>, clears the
  masked flags (interrupts and direction) and continues at the entry of the kernel; \<open>sysretq\<close> goes
  back to \<open>rcx\<close> with the flags of \<open>r11\<close>, less the reserved ones.\<close>

definition SF_MASK :: "64 word" where "SF_MASK = 0x200 OR 0x400"

definition syscall_instr :: "64 word \<Rightarrow> user_cpu \<Rightarrow> user_cpu" where
  "syscall_instr lstar c = c\<lparr>regs := (regs c)(RCX := rip c, R11 := rflags c), rip := lstar, rflags := rflags c AND NOT SF_MASK\<rparr>"

definition sysretq :: "user_cpu \<Rightarrow> user_cpu" where
  "sysretq c = c\<lparr>rip := regs c RCX, rflags := (regs c R11 AND 0x3C7FD7) OR 2\<rparr>"

definition syscall_entry :: "user_cpu \<Rightarrow> user_cpu" where
  "syscall_entry c = c\<lparr>user_rsp := rsp c, kstack := fold (\<lambda>r st. regs c r # st) entry_pushes []\<rparr>"

text \<open>The structure is laid over the top of the stack.\<close>

definition frame_of :: "64 word list \<Rightarrow> frame option" where
  "frame_of st = (case st of [r9, r8, r10, rdx, rsi, rdi, rcx, rax, rbx, rbp, r12, r13, r14, r15, r11] \<Rightarrow>
     Some \<lparr>f_r9 = r9, f_r8 = r8, f_r10 = r10, f_rdx = rdx, f_rsi = rsi, f_rdi = rdi, f_rcx = rcx, f_rax = rax,
       f_rbx = rbx, f_rbp = rbp, f_r12 = r12, f_r13 = r13, f_r14 = r14, f_r15 = r15, f_r11 = r11\<rparr>
   | _ \<Rightarrow> None)"

definition frame_words :: "frame \<Rightarrow> 64 word list" where
  "frame_words f = [f_r9 f, f_r8 f, f_r10 f, f_rdx f, f_rsi f, f_rdi f, f_rcx f, f_rax f, f_rbx f, f_rbp f,
     f_r12 f, f_r13 f, f_r14 f, f_r15 f, f_r11 f]"

fun pop_all :: "reg list \<Rightarrow> 64 word list \<Rightarrow> (reg \<Rightarrow> 64 word) \<Rightarrow> reg \<Rightarrow> 64 word" where
  "pop_all (r # rs) (w # ws) g = pop_all rs ws (g(r := w))"
| "pop_all _ _ g = g"

text \<open>\<open>junk\<close> are the registers as the dispatcher leaves them, \<open>c\<close> the rest of the machine at that time.\<close>

definition syscall_exit :: "(reg \<Rightarrow> 64 word) \<Rightarrow> frame \<Rightarrow> user_cpu \<Rightarrow> user_cpu" where
  "syscall_exit junk f c = sysretq (c\<lparr>regs := pop_all exit_pops (frame_words f) junk, rsp := user_rsp c, kstack := []\<rparr>)"

section \<open>Registers\<close>

lemma answer_apply [simp]: "answer f v s = (Ret (f\<lparr>f_rax := v\<rparr>, False), s)"
  by (simp add: answer_def)

lemma bnd_answer: "bnd m (\<lambda>_. answer f v) s = (Ret (f', b), s') \<Longrightarrow> f' = f\<lparr>f_rax := v\<rparr> \<and> \<not> b"
  by (auto simp: bnd_def split: prod.splits outcome.splits)

text \<open>\<open>same_frame f m\<close>: the command answers a frame in which at most \<open>rax\<close> is new.\<close>

definition same_frame :: "frame \<Rightarrow> (frame \<times> bool) sop \<Rightarrow> bool" where
  "same_frame f m = (\<forall>s f' b s'. m s = (Ret (f', b), s') \<longrightarrow> f' = f\<lparr>f_rax := f_rax f'\<rparr>)"

lemma same_frame_answer [intro]: "same_frame f (answer f v)" "same_frame f (ret (f, True))"
  by (auto simp: same_frame_def)

lemma same_frame_bnd [intro]: "(\<And>a. same_frame f (g a)) \<Longrightarrow> same_frame f (bnd m g)"
  unfolding same_frame_def by (auto simp: bnd_def split: prod.splits outcome.splits)

lemma same_frame_if [intro]: "same_frame f m \<Longrightarrow> same_frame f m' \<Longrightarrow> same_frame f (if b then m else m')"
  by simp

lemma same_frame_option [intro]:
  "same_frame f m \<Longrightarrow> (\<And>a. same_frame f (g a)) \<Longrightarrow> same_frame f (case r of None \<Rightarrow> m | Some a \<Rightarrow> g a)"
  by (cases r) simp_all

lemma dispatch_frame: "same_frame f (syscall_dispatch f)"
  unfolding syscall_dispatch_def sys_ping_def sys_exit_def sys_write_def sys_read_def sys_console_def sys_exec_def Let_def
  by (intro same_frame_if same_frame_bnd same_frame_option same_frame_answer)

lemma entry_frame: "frame_of (kstack (syscall_entry c)) = Some
    \<lparr>f_r9 = regs c R9, f_r8 = regs c R8, f_r10 = regs c R10, f_rdx = regs c RDX, f_rsi = regs c RSI, f_rdi = regs c RDI,
     f_rcx = regs c RCX, f_rax = regs c RAX, f_rbx = regs c RBX, f_rbp = regs c RBP, f_r12 = regs c R12, f_r13 = regs c R13,
     f_r14 = regs c R14, f_r15 = regs c R15, f_r11 = regs c R11\<rparr>"
  by (simp add: frame_of_def syscall_entry_def entry_pushes_def)

lemma exit_regs: "regs (syscall_exit junk f c) = (\<lambda>r. case r of RAX \<Rightarrow> f_rax f | RBX \<Rightarrow> f_rbx f | RCX \<Rightarrow> f_rcx f
    | RDX \<Rightarrow> f_rdx f | RSI \<Rightarrow> f_rsi f | RDI \<Rightarrow> f_rdi f | RBP \<Rightarrow> f_rbp f | R8 \<Rightarrow> f_r8 f | R9 \<Rightarrow> f_r9 f | R10 \<Rightarrow> f_r10 f
    | R11 \<Rightarrow> f_r11 f | R12 \<Rightarrow> f_r12 f | R13 \<Rightarrow> f_r13 f | R14 \<Rightarrow> f_r14 f | R15 \<Rightarrow> f_r15 f)"
proof
  fix r
  show "regs (syscall_exit junk f c) r = (case r of RAX \<Rightarrow> f_rax f | RBX \<Rightarrow> f_rbx f | RCX \<Rightarrow> f_rcx f
    | RDX \<Rightarrow> f_rdx f | RSI \<Rightarrow> f_rsi f | RDI \<Rightarrow> f_rdi f | RBP \<Rightarrow> f_rbp f | R8 \<Rightarrow> f_r8 f | R9 \<Rightarrow> f_r9 f | R10 \<Rightarrow> f_r10 f
    | R11 \<Rightarrow> f_r11 f | R12 \<Rightarrow> f_r12 f | R13 \<Rightarrow> f_r13 f | R14 \<Rightarrow> f_r14 f | R15 \<Rightarrow> f_r15 f)"
    by (cases r) (simp_all add: syscall_exit_def sysretq_def frame_words_def exit_pops_def)
qed

lemma exit_rest: "rsp (syscall_exit junk f c) = user_rsp c" "rip (syscall_exit junk f c) = f_rcx f"
    "rflags (syscall_exit junk f c) = (f_r11 f AND 0x3C7FD7) OR 2"
  using exit_regs [of junk f c] by (simp_all add: syscall_exit_def sysretq_def)

text \<open>C11: a system call, from the instruction \<open>syscall\<close> to \<open>sysretq\<close>: the task goes on after the
  instruction, with its flags, and with every register as before except three.  \<open>rax\<close> holds the
  answer; \<open>rcx\<close> and \<open>r11\<close> hold, as with every \<open>syscall\<close>, the return address and the flags.  The entry has
  saved the stack pointer in \<open>SYS_USER_RSP\<close>, and the exit takes it from there, so the task has its own stack
  pointer back unless another task has entered the kernel in between (see
  \<open>second_entry_takes_stack\<close>).  The machine \<open>c'\<close> at the exit and the registers the dispatcher
  leaves are arbitrary.
\<close>

theorem syscall_registers:
  assumes "frame_of (kstack (syscall_entry (syscall_instr lstar c))) = Some f"
    and "syscall_dispatch f s = (Ret (f', False), s')"
  shows "regs (syscall_exit junk f' c') = (regs c)(RAX := f_rax f', RCX := rip c, R11 := rflags c) \<and>
    rip (syscall_exit junk f' c') = rip c \<and> rflags (syscall_exit junk f' c') = (rflags c AND 0x3C7FD7) OR 2 \<and>
    user_rsp (syscall_entry (syscall_instr lstar c)) = rsp c \<and>
    rsp (syscall_exit junk f' c') = user_rsp c'"
proof -
  have "f' = f\<lparr>f_rax := f_rax f'\<rparr>" using dispatch_frame assms(2) unfolding same_frame_def by blast
  then obtain v where f': "f' = f\<lparr>f_rax := v\<rparr>" by blast
  have "regs (syscall_exit junk f' c') r = ((regs c)(RAX := f_rax f', RCX := rip c, R11 := rflags c)) r" for r
    unfolding f' exit_regs using assms(1) by (cases r) (auto simp: entry_frame syscall_instr_def)
  moreover have "f_rcx f' = rip c" "f_r11 f' = rflags c"
    using assms(1) f' by (auto simp: entry_frame syscall_instr_def)
  ultimately show ?thesis by (auto simp: exit_rest syscall_entry_def syscall_instr_def)
qed

text \<open>A ping from a task at address 7 with flags \<open>0x246\<close>.\<close>

theorem syscall_registers_witness:
  "\<exists>f' s'. regs (syscall_exit (\<lambda>_. 9) f'
        (syscall_entry (syscall_instr 0x5000 \<lparr>regs = (\<lambda>_. 1), rsp = 16, rip = 7, rflags = 0x246, user_rsp = 0, kstack = []\<rparr>))) =
      (\<lambda>_. 1)(RAX := 5, RCX := 7, R11 := 0x246) \<and>
    (\<exists>f. syscall_dispatch f \<lparr>service = demo_sys [], pages = two_large, umem = (\<lambda>_. 0), pings = 4, serial_log = []\<rparr> = (Ret (f', False), s'))"
proof -
  let ?c = "\<lparr>regs = (\<lambda>_. 1), rsp = 16, rip = 7, rflags = 0x246, user_rsp = 0, kstack = []\<rparr>"
  let ?s = "\<lparr>service = demo_sys [], pages = two_large, umem = (\<lambda>_. 0), pings = 4, serial_log = []\<rparr>"
  obtain f where f: "frame_of (kstack (syscall_entry (syscall_instr 0x5000 ?c))) = Some f" "f_rax f = 1"
    by (simp add: entry_frame syscall_instr_def)
  have d: "syscall_dispatch f ?s = (Ret (f\<lparr>f_rax := 5\<rparr>, False), ?s\<lparr>pings := 5, serial_log := [Ping 5]\<rparr>)"
    using f(2) by (simp add: syscall_dispatch_def sys_ping_def log_msg_def bnd_def)
  with syscall_registers [OF f(1) this, of "\<lambda>_. 9"] show ?thesis by auto
qed

text \<open>The one variable for the stack pointer: a second task that enters the kernel while the first
  one waits in a system call leaves the first one its own stack.\<close>

lemma second_entry_takes_stack:
  "rsp (syscall_exit junk f (syscall_entry (syscall_instr lstar (syscall_entry (syscall_instr lstar c)\<lparr>rsp := sp\<rparr>)))) = sp"
  by (simp add: exit_rest syscall_entry_def syscall_instr_def)

section \<open>Calls of the shell\<close>

text \<open>The registers of a call of the shell, with its text at \<open>ptr\<close>.\<close>

definition call_frame :: "nat \<Rightarrow> call \<Rightarrow> frame \<Rightarrow> frame" where
  "call_frame ptr c f = (case c of
     Write bs \<Rightarrow> f\<lparr>f_rax := 3, f_rdi := 1, f_rsi := of_nat ptr, f_rdx := of_nat (length bs)\<rparr>
   | Console_op n a \<Rightarrow> f\<lparr>f_rax := 7, f_rdi := of_nat n, f_rsi := a, f_rdx := 0\<rparr>
   | Exec bs \<Rightarrow> f\<lparr>f_rax := 8, f_rdi := of_nat ptr, f_rsi := of_nat (length bs), f_rdx := 0\<rparr>)"

text \<open>The text lies in pages that the user may read.\<close>

definition lies_at :: "nat \<Rightarrow> byte list \<Rightarrow> sstate \<Rightarrow> bool" where
  "lies_at ptr bs s = (0 < ptr \<and> ptr + length bs < 2 ^ 64 \<and> map (umem s) [ptr..<ptr + length bs] = bs \<and>
     is_user_range ptr (length bs) (pages s) = Some True)"

lemma unat_of_nat64: "n < 2 ^ 64 \<Longrightarrow> unat (of_nat n :: 64 word) = n"
  by (simp add: unat_of_nat)

lemma of_nat64_zero: "n < 2 ^ 64 \<Longrightarrow> (of_nat n :: 64 word) = 0 \<longleftrightarrow> n = 0"
  by (simp add: word_unat_eq_iff unat_of_nat64 del: word_unat_eq_iff [symmetric])

lemma service_ret: "m (service s) = (Ret a, k) \<Longrightarrow> on_service m s = (Ret a, s\<lparr>service := k\<rparr>)"
  by (simp add: on_service_def)

lemma lies_at_steps:
  assumes "lies_at ptr bs s"
  shows "check_range ptr (length bs) s = (Ret True, s)" "copy_in ptr (length bs) s = (Ret bs, s)"
  using assms by (simp_all add: lies_at_def check_range_def copy_in_def)

lemma write_runs:
  assumes "lies_at ptr (utf8 cs) s" and "cs \<noteq> []" and "length (utf8 cs) \<le> 256" and "\<forall>c \<in> set cs. scalar c"
  shows "\<exists>f'. syscall_dispatch (call_frame ptr (Write (utf8 cs)) f) s =
    (Ret (f', False), s\<lparr>service := snd (say cs (service s))\<rparr>) \<and> f_rax f' = of_nat (length (utf8 cs))"
proof -
  let ?n = "length (utf8 cs)"
  have n: "0 < ?n" using assms(2) by (cases cs) (auto simp: utf8_enc_def)
  have u: "unat (of_nat ptr :: 64 word) = ptr" "unat (of_nat ?n :: 64 word) = ?n" "(of_nat ?n :: 64 word) \<noteq> 0" "ptr \<noteq> 0"
    using assms(1) n by (simp_all add: lies_at_def unat_of_nat64 of_nat64_zero)
  note l = lies_at_steps [OF assms(1)]
  have m: "min ?n 256 = ?n" using assms(3) by simp
  have "on_service (say cs) s = (Ret (), s\<lparr>service := snd (say cs (service s))\<rparr>)"
    by (rule service_ret) (simp add: say_def event_def)
  then show ?thesis
    by (simp add: syscall_dispatch_def call_frame_def sys_write_def Let_def u m l bnd_def
        from_utf8_utf8 [OF assms(4)])
qed

lemma exec_runs:
  assumes "lies_at ptr (utf8 cs) s" and "cs \<noteq> []" and "length (utf8 cs) \<le> 512" and "\<forall>c \<in> set cs. scalar c"
  shows "service (snd (syscall_dispatch (call_frame ptr (Exec (utf8 cs)) f) s)) = snd (execute cs (service s))"
proof -
  let ?n = "length (utf8 cs)"
  have n: "0 < ?n" using assms(2) by (cases cs) (auto simp: utf8_enc_def)
  have u: "unat (of_nat ptr :: 64 word) = ptr" "unat (of_nat ?n :: 64 word) = ?n" "(of_nat ?n :: 64 word) \<noteq> 0" "ptr \<noteq> 0"
    using assms(1) n by (simp_all add: lies_at_def unat_of_nat64 of_nat64_zero)
  note l = lies_at_steps [OF assms(1)]
  have m: "min ?n 512 = ?n" using assms(3) by simp
  have "service (snd (bnd (on_service (execute cs)) (\<lambda>_. answer g 0) s)) = snd (execute cs (service s))" for g
    by (auto simp: bnd_def on_service_def split: prod.split outcome.split)
  then show ?thesis
    by (simp add: syscall_dispatch_def call_frame_def sys_exec_def Let_def u m l bnd_def
        from_utf8_utf8 [OF assms(4)])
qed

text \<open>A colour survives the packing into one word.\<close>

lemma arg_rgb_arg: "arg_rgb (rgb_arg c) = c"
proof (cases c)
  case (fields r g b)
  have m: "(0xFF :: 64 word) = mask 8" by (simp add: mask_eq_exp_minus_1)
  note bits = bit_ucast_iff bit_and_iff bit_or_iff bit_drop_bit_eq bit_push_bit_iff bit_mask_iff comp_apply
  show ?thesis
    unfolding arg_rgb_def rgb_arg_def fields m prod.case prod.inject
    by (intro conjI; rule bit_word_eqI; simp only: bits) (auto dest: bit_imp_le_length)
qed

lemma console_runs:
  "syscall_dispatch (call_frame ptr (Console_op 1 (rgb_arg c)) f) s =
    (Ret ((call_frame ptr (Console_op 1 (rgb_arg c)) f)\<lparr>f_rax := 0\<rparr>, False), s\<lparr>service := snd (event (Set_fg c) (service s))\<rparr>)"
  by (simp add: syscall_dispatch_def call_frame_def sys_console_def arg_rgb_arg bnd_def on_service_def event_def)

section \<open>From the keyboard to the kernel service\<close>

lemma feed_all_append: "feed_all (cs @ ds) s = do { (a, s1) \<leftarrow> feed_all cs s; (b, s2) \<leftarrow> feed_all ds s1; Some (a @ b, s2) }"
proof (induction cs arbitrary: s)
  case Nil
  show ?case by (cases "feed_all ds s") auto
next
  case (Cons c cs)
  show ?case
  proof (cases "feed c s")
    case (Some r)
    obtain a s1 where r: "r = (a, s1)" by fastforce
    show ?thesis
    proof (cases "feed_all cs s1")
      case (Some q)
      then show ?thesis using \<open>feed c s = Some r\<close> r Cons.IH [of s1]
        by (cases q; cases "feed_all ds (snd q)") auto
    qed (use \<open>feed c s = Some r\<close> r Cons.IH [of s1] in simp)
  qed simp
qed

text \<open>C4: a line of up to 128 printable characters whose first word is no command of the shell itself
  arrives unchanged: after Enter the shell makes one \<open>exec\<close> call, and the kernel service executes
  exactly the characters that were typed.
\<close>

theorem typed_line_reaches_kernel:
  assumes "shell_ok s" and "sh_len s = 0" and "\<forall>c \<in> set cs. scalar c \<and> printable c" and "length cs \<le> LINE_CAP"
    and "words_of cs \<noteq> []" and "\<not> builtin (take 64 (hd (words_of cs)))" and "lies_at ptr (utf8 cs) st"
  shows "\<exists>s'. feed_all (cs @ [10]) s = Some (put_chars cs @ put_char 10 @ [Exec (utf8 cs)] @ print_prompt, s') \<and>
    shell_ok s' \<and> sh_len s' = 0 \<and>
    service (snd (syscall_dispatch (call_frame ptr (Exec (utf8 cs)) f) st)) = snd (execute cs (service st))"
proof -
  have pr: "\<forall>c \<in> set cs. printable c" "\<forall>c \<in> set cs. scalar c" using assms(3) by auto
  obtain s1 where s1: "feed_all cs s = Some (put_chars cs, s1)" "shell_ok s1" "sh_len s1 = length cs"
    "take (sh_len s1) (sh_line s1) = cs"
    using feed_text [OF assms(1) pr(1)] assms(2,4) by auto
  obtain s2 where s2: "sh_execute cs s1 = Some ([Exec (encode_line cs)], s2)" "shell_ok s2"
    using sh_execute_forwards [OF s1(2) assms(5,6)] by blast
  have "upto_idx (sh_line s1) (sh_len s1) = Some cs"
    using s1(2,4) by (simp add: upto_idx_def shell_ok_def)
  then have f: "feed 10 s1 = Some (put_char 10 @ [Exec (utf8 cs)] @ print_prompt, s2\<lparr>sh_len := 0\<rparr>)"
    using s2(1) encode_line_all [OF assms(4)] by (simp add: feed_def)
  have "shell_ok (s2\<lparr>sh_len := 0\<rparr>)" using s2(2) by (simp add: shell_ok_def)
  moreover have "length (utf8 cs) \<le> 512" using utf8_length [of cs] assms(4) by (simp add: LINE_CAP_def)
  moreover have "cs \<noteq> []" using assms(5) by auto
  ultimately show ?thesis
    using s1(1) f exec_runs [OF assms(7) _ _ pr(2)] by (simp add: feed_all_append)
qed

text \<open>A machine whose user pages hold the line at an address of the user.\<close>

definition demo_machine :: "paging \<Rightarrow> byte list \<Rightarrow> sstate" where
  "demo_machine p bs = \<lparr>service = demo_sys [], pages = p, umem = (\<lambda>a. bs ! (a - (PMO + 0x5000))), pings = 0, serial_log = []\<rparr>"

lemma demo_machine_lies:
  assumes "length bs = 3"
  shows "\<exists>p. lies_at (PMO + 0x5000) bs (demo_machine p bs)"
proof -
  obtain p' where m: "mark_one_page (PMO + 0x5000) two_large = Some (True, p')" using two_large_mark(1) by blast
  have sp: "page_span (PMO + 0x5000) (length bs) = Some (PMO + 0x5000, 1)"
    using assms by (auto simp: page_span_def PMO_def PAGE_def)
  have mk: "mark_pages (PMO + 0x5000) 1 True two_large = Some (True, p')" using m by simp
  have u: "is_user_range (PMO + 0x5000) (length bs) p' = Some True"
    by (simp only: is_user_range_def sp option.case prod.case mark_pages_check [OF mk])
  obtain a b c where "bs = [a, b, c]" using assms by (auto simp: length_Suc_conv numeral_3_eq_3)
  then have "lies_at (PMO + 0x5000) bs (demo_machine p' bs)"
    using u by (simp add: lies_at_def demo_machine_def PMO_def)
  then show ?thesis by blast
qed

theorem typed_line_reaches_kernel_witness:
  "\<exists>p s' f. feed_all (chars ''pci'' @ [10]) (snd start_shell) =
      Some (put_chars (chars ''pci'') @ put_char 10 @ [Exec (utf8 (chars ''pci''))] @ print_prompt, s') \<and>
    service (snd (syscall_dispatch (call_frame (PMO + 0x5000) (Exec (utf8 (chars ''pci''))) f) (demo_machine p (utf8 (chars ''pci''))))) =
      snd (execute (chars ''pci'') (demo_sys []))"
proof -
  let ?l = "chars ''pci''"
  have l: "words_of ?l = [?l]" by (simp add: chars_def words_of_word blank_def)
  have b: "\<not> builtin ?l" by (simp add: builtin_def matches_def eq_ci_str_iff chars_def lower_char_def)
  have pr: "\<forall>c \<in> set ?l. scalar c \<and> printable c" by (simp add: chars_def scalar_def printable_def)
  obtain p where p: "lies_at (PMO + 0x5000) (utf8 ?l) (demo_machine p (utf8 ?l))"
    using demo_machine_lies [of "utf8 ?l"] by (auto simp: chars_def utf8_enc_def)
  have "service (demo_machine p (utf8 ?l)) = demo_sys []" by (simp add: demo_machine_def)
  then show ?thesis
    using typed_line_reaches_kernel [OF start_shell_ok _ pr _ _ _ p] l b
    by (simp add: start_shell_def LINE_CAP_def chars_def) blast
qed

end
