(* ===== verification/Io.thy ===== *)
theory Io
  imports Prelude
begin

text \<open>
  Device registers.  A device, together with the clock of the machine, is a parameter: what a
  read of a register answers and changes, what a write changes, and what happens while the
  processor halts until the next interrupt.  The drivers run over it and leave a trace of
  what they wrote and read.  A wait loop with a deadline is shared by all of them.
\<close>

section \<open>Registers\<close>

record 'd io =
  reg_in :: "nat \<Rightarrow> 'd \<Rightarrow> nat \<times> 'd"
  reg_out :: "nat \<Rightarrow> nat \<Rightarrow> 'd \<Rightarrow> 'd"
  clock :: "'d \<Rightarrow> nat"
  halt :: "'d \<Rightarrow> 'd"

record 'd bus =
  dv :: 'd
  sent :: "(nat \<times> nat) list"
  seen :: "(nat \<times> nat) list"

type_synonym ('d, 'a) dop = "('d bus, unit, 'a) kernel"

definition reg_write :: "'d io \<Rightarrow> nat \<Rightarrow> nat \<Rightarrow> ('d, unit) dop" where
  "reg_write io r v = modify (\<lambda>b. b\<lparr>dv := reg_out io r v (dv b), sent := sent b @ [(r, v)]\<rparr>)"

definition reg_read :: "'d io \<Rightarrow> nat \<Rightarrow> ('d, nat) dop" where
  "reg_read io r = (\<lambda>b. case reg_in io r (dv b) of (v, d) \<Rightarrow> (Ret v, b\<lparr>dv := d, seen := seen b @ [(r, v)]\<rparr>))"

definition ticks :: "'d io \<Rightarrow> ('d, nat) dop" where
  "ticks io = gets (\<lambda>b. clock io (dv b))"

section \<open>Waiting with a deadline\<close>

text \<open>
  The loop probes, gives up when the clock has reached the deadline, and otherwise halts until
  the next interrupt.  It need not end: None.
\<close>

partial_function (option) poll :: "'d io \<Rightarrow> ('d \<Rightarrow> bool \<times> 'd) \<Rightarrow> nat \<Rightarrow> 'd \<Rightarrow> (bool \<times> 'd) option" where
  "poll io probe deadline d = (case probe d of (ok, d1) \<Rightarrow>
     if ok then Some (True, d1)
     else if deadline \<le> clock io d1 then Some (False, d1)
     else poll io probe deadline (halt io d1))"

definition wait_for :: "'d io \<Rightarrow> nat \<Rightarrow> ('d \<Rightarrow> bool \<times> 'd) \<Rightarrow> ('d, bool) dop" where
  "wait_for io timeout probe = bnd (ticks io) (\<lambda>t. bnd (guard_panic (t + timeout < 2 ^ 64)) (\<lambda>_ b.
     case poll io probe (t + timeout) (dv b) of
       None \<Rightarrow> (Hang, b)
     | Some (ok, d) \<Rightarrow> (Ret ok, b\<lparr>dv := d\<rparr>)))"

text \<open>Probing one register.\<close>

definition probe_reg :: "'d io \<Rightarrow> nat \<Rightarrow> (nat \<Rightarrow> bool) \<Rightarrow> 'd \<Rightarrow> bool \<times> 'd" where
  "probe_reg io r ok d = (case reg_in io r d of (v, d1) \<Rightarrow> (ok v, d1))"

text \<open>
  The clock never runs backwards, and after finitely many rounds of probing and halting it has
  moved: the timer interrupt comes.
\<close>

definition advancing :: "'d io \<Rightarrow> ('d \<Rightarrow> bool \<times> 'd) \<Rightarrow> bool" where
  "advancing io probe = ((\<forall>d. clock io d \<le> clock io (snd (probe d))) \<and> (\<forall>d. clock io d \<le> clock io (halt io d)) \<and>
     (\<forall>d. \<exists>n. clock io d < clock io (((\<lambda>d. halt io (snd (probe d))) ^^ n) d)))"

lemma poll_rounds:
  assumes adv: "advancing io probe"
    and later: "\<And>d'. clock io d < clock io d' \<Longrightarrow> poll io probe deadline d' \<noteq> None"
    and moved: "clock io d0 < clock io (((\<lambda>d. halt io (snd (probe d))) ^^ n) d0)"
    and start: "clock io d \<le> clock io d0"
  shows "poll io probe deadline d0 \<noteq> None"
  using moved start
proof (induction n arbitrary: d0)
  case (Suc n)
  let ?d1 = "halt io (snd (probe d0))"
  have le: "clock io d0 \<le> clock io ?d1" using adv unfolding advancing_def by (meson order_trans)
  have "poll io probe deadline ?d1 \<noteq> None"
  proof (cases "clock io d < clock io ?d1")
    case True
    then show ?thesis by (rule later)
  next
    case False
    then have "clock io ?d1 = clock io d0" using le Suc.prems(2) by simp
    moreover have "clock io d0 < clock io (((\<lambda>d. halt io (snd (probe d))) ^^ n) ?d1)"
      using Suc.prems(1) by (simp only: funpow_Suc_right o_apply)
    ultimately show ?thesis using Suc.IH [of ?d1] Suc.prems(2) by simp
  qed
  then show ?case by (subst poll.simps) (auto split: prod.split)
qed simp

lemma poll_ends:
  assumes adv: "advancing io probe"
  shows "poll io probe deadline d \<noteq> None"
proof (induction "deadline - clock io d" arbitrary: d rule: less_induct)
  case less
  show ?case
  proof (cases "deadline \<le> clock io d")
    case True
    have "clock io d \<le> clock io (snd (probe d))" using adv unfolding advancing_def by blast
    then show ?thesis using True by (subst poll.simps) (auto split: prod.split)
  next
    case False
    obtain n where n: "clock io d < clock io (((\<lambda>d. halt io (snd (probe d))) ^^ n) d)"
      using adv unfolding advancing_def by blast
    show ?thesis
    proof (rule poll_rounds [OF adv _ n order_refl])
      show "poll io probe deadline d' \<noteq> None" if "clock io d < clock io d'" for d'
        using less [of d'] that False by simp
    qed
  qed
qed

text \<open>A loop that gives up has waited until the deadline.\<close>

lemma poll_gives_up:
  assumes "poll io probe deadline d = Some r"
  shows "fst r \<or> deadline \<le> clock io (snd r)"
  by (rule poll.raw_induct [OF _ assms, where P = "\<lambda>io probe deadline d r. fst r \<or> deadline \<le> clock io (snd r)"])
    (auto split: prod.splits if_splits)

text \<open>A wait neither writes nor reads anything that the trace shows, and ends.\<close>

lemma wait_for_ends:
  assumes "advancing io probe"
  shows "fst (wait_for io timeout probe b) \<noteq> Hang"
proof -
  obtain ok d where "poll io probe (clock io (dv b) + timeout) (dv b) = Some (ok, d)"
    using poll_ends [OF assms] by (metis not_None_eq surj_pair)
  then show ?thesis by (simp add: wait_for_def ticks_def bnd_def)
qed

lemma wait_for_trace:
  assumes "wait_for io timeout probe b = (r, b')"
  shows "sent b' = sent b \<and> seen b' = seen b \<and> (r = Ret True \<or> r = Ret False \<or> r = Panic \<or> r = Hang)"
  using assms by (auto simp: wait_for_def ticks_def bnd_def split: option.splits if_splits)

section \<open>Traces of writes\<close>

text \<open>Writes are only added to the trace.\<close>

definition appends :: "('d, 'a) dop \<Rightarrow> bool" where
  "appends m = (\<forall>b r b'. m b = (r, b') \<longrightarrow> (\<exists>xs. sent b' = sent b @ xs))"

lemma appends_ret: "appends (ret a)"
  by (simp add: appends_def)

lemma appends_bnd:
  assumes "appends m" and "\<And>a. appends (f a)"
  shows "appends (bnd m f)"
  unfolding appends_def
proof (intro allI impI)
  fix b r b' assume r: "bnd m f b = (r, b')"
  obtain o1 b1 where 1: "m b = (o1, b1)" by fastforce
  then obtain xs where xs: "sent b1 = sent b @ xs" using assms(1) unfolding appends_def by blast
  show "\<exists>xs. sent b' = sent b @ xs"
  proof (cases "\<exists>a. o1 = Ret a")
    case True
    then obtain a where "f a b1 = (r, b')" using r 1 by (auto simp: bnd_def)
    then show ?thesis using assms(2) xs by (fastforce simp: appends_def)
  next
    case False
    then have "b' = b1" using r 1 by (cases o1) (simp_all add: bnd_def)
    then show ?thesis using xs by blast
  qed
qed

lemma appends_if: "appends m \<Longrightarrow> appends m' \<Longrightarrow> appends (if c then m else m')"
  by simp

lemma appends_reg: "appends (reg_write io r v)" "appends (reg_read io r)" "appends (guard_panic c)" "appends (wait_for io n probe)"
  by (auto simp: appends_def reg_write_def reg_read_def split_beta dest: wait_for_trace)

text \<open>The last writes of an operation that returns.\<close>

definition finishes :: "('d, 'a) dop \<Rightarrow> ('a \<Rightarrow> (nat \<times> nat) list \<Rightarrow> bool) \<Rightarrow> bool" where
  "finishes m Q = (\<forall>b r b'. m b = (Ret r, b') \<longrightarrow> (\<exists>xs ys. sent b' = sent b @ xs @ ys \<and> Q r ys))"

lemma finishes_bnd:
  assumes "appends m" and "\<And>a. finishes (f a) Q"
  shows "finishes (bnd m f) Q"
  unfolding finishes_def
proof (intro allI impI)
  fix b r b' assume "bnd m f b = (Ret r, b')"
  then obtain a b1 where a: "m b = (Ret a, b1)" "f a b1 = (Ret r, b')" by (rule bnd_RetE)
  obtain xs where xs: "sent b1 = sent b @ xs" using assms(1) a(1) unfolding appends_def by blast
  obtain zs ys where "sent b' = sent b1 @ zs @ ys" "Q r ys" using assms(2) a(2) unfolding finishes_def by blast
  then show "\<exists>xs ys. sent b' = sent b @ xs @ ys \<and> Q r ys"
    using xs by (intro exI [of _ "xs @ zs"] exI [of _ ys]) simp
qed

lemma finishes_ret: "Q a [] \<Longrightarrow> finishes (ret a) Q"
  unfolding finishes_def by auto

lemma finishes_if: "(c \<Longrightarrow> finishes m Q) \<Longrightarrow> (\<not> c \<Longrightarrow> finishes m' Q) \<Longrightarrow> finishes (if c then m else m') Q"
  by simp

lemma finishes_sends:
  assumes "\<And>b r b'. m b = (Ret r, b') \<Longrightarrow> sent b' = sent b @ ys \<and> Q r ys"
  shows "finishes m Q"
  unfolding finishes_def using assms by (metis append_Nil)

end
