(* ===== verification/Pio.thy ===== *)
theory Pio
  imports Ata Io
begin

text \<open>
  The programmed I/O disk driver (\<open>kernel/src/ata.rs\<close>) over the registers of theory Io.  The
  texts it prints about errors are left out; the status reads inside them are not.
\<close>

section \<open>Ports\<close>

definition BASE_PRIMARY :: nat where "BASE_PRIMARY = 0x1F0"
definition BASE_SECONDARY :: nat where "BASE_SECONDARY = 0x170"
definition CMD_IDENTIFY :: nat where "CMD_IDENTIFY = 0xEC"
definition TIMEOUT_TICKS :: nat where "TIMEOUT_TICKS = 3000"

definition out8 :: "'d io \<Rightarrow> nat \<Rightarrow> byte \<Rightarrow> ('d, unit) dop" where
  "out8 io p v = reg_write io p (unat v)"

definition out16 :: "'d io \<Rightarrow> nat \<Rightarrow> 16 word \<Rightarrow> ('d, unit) dop" where
  "out16 io p v = reg_write io p (unat v)"

definition in8 :: "'d io \<Rightarrow> nat \<Rightarrow> ('d, byte) dop" where
  "in8 io p = bnd (reg_read io p) (\<lambda>v. ret (of_nat v))"

definition in16 :: "'d io \<Rightarrow> nat \<Rightarrow> ('d, 16 word) dop" where
  "in16 io p = bnd (reg_read io p) (\<lambda>v. ret (of_nat v))"

definition poll_bsy_clear :: "'d io \<Rightarrow> nat \<Rightarrow> ('d, bool) dop" where
  "poll_bsy_clear io base = wait_for io TIMEOUT_TICKS (probe_reg io (base + 7) (\<lambda>v. of_nat v AND 0x80 = (0 :: byte)))"

definition poll_drq :: "'d io \<Rightarrow> nat \<Rightarrow> ('d, bool) dop" where
  "poll_drq io base = wait_for io TIMEOUT_TICKS (probe_reg io (base + 7) (\<lambda>v. of_nat v AND 0x08 \<noteq> (0 :: byte)))"

fun in_words :: "'d io \<Rightarrow> nat \<Rightarrow> nat \<Rightarrow> ('d, 16 word list) dop" where
  "in_words io base 0 = ret []"
| "in_words io base (Suc n) = bnd (in16 io base) (\<lambda>w. bnd (in_words io base n) (\<lambda>ws. ret (w # ws)))"

fun out_words :: "'d io \<Rightarrow> nat \<Rightarrow> 16 word list \<Rightarrow> ('d, unit) dop" where
  "out_words io base [] = ret ()"
| "out_words io base (w # ws) = bnd (out16 io base w) (\<lambda>_. out_words io base ws)"

section \<open>Identification\<close>

definition model_bytes :: "16 word list \<Rightarrow> byte list" where
  "model_bytes ws = concat (map (\<lambda>i. [ucast (drop_bit 8 (ws ! i)), ucast (ws ! i AND 0xFF)]) [27..<47])"

definition entry_from :: "16 word list \<Rightarrow> ata_entry \<Rightarrow> ata_entry" where
  "entry_from ws d = (let n = unat ((ucast (ws ! 60) :: 64 word) OR push_bit 16 (ucast (ws ! 61))) in
     d\<lparr>present := True, dev_sectors := n, lba_supported := bit (ws ! 49) 9, capacity_mb := n div 2048,
       model := model_bytes ws\<rparr>)"

definition identify :: "'d io \<Rightarrow> nat \<Rightarrow> bool \<Rightarrow> ata_entry \<Rightarrow> ('d, ata_entry) dop" where
  "identify io base is_master d =
     bnd (out8 io (base + 1) 0) (\<lambda>_. bnd (out8 io (base + 2) 0) (\<lambda>_. bnd (out8 io (base + 3) 0) (\<lambda>_.
     bnd (out8 io (base + 4) 0) (\<lambda>_. bnd (out8 io (base + 5) 0) (\<lambda>_.
     bnd (out8 io (base + 6) (0xA0 OR (if is_master then 0x00 else 0x10))) (\<lambda>_.
     bnd (out8 io (base + 7) (of_nat CMD_IDENTIFY)) (\<lambda>_.
     bnd (poll_bsy_clear io base) (\<lambda>free. if \<not> free then ret d
     else bnd (in8 io (base + 7)) (\<lambda>status. if status AND 0x01 \<noteq> 0 then ret d
     else bnd (poll_drq io base) (\<lambda>drq. if \<not> drq then ret d
     else bnd (in_words io base 256) (\<lambda>ws. ret (entry_from ws d))))))))))))"

text \<open>The four places of the two channels in the order of the code, from place \<open>i\<close> on.\<close>

definition CHANNELS :: "(bool \<times> bool) list" where
  "CHANNELS = [(False, False), (False, True), (True, False), (True, True)]"

fun scan_channels :: "'d io \<Rightarrow> nat \<Rightarrow> (bool \<times> bool) list \<Rightarrow> ata_table \<Rightarrow> ('d, ata_table) dop" where
  "scan_channels io i [] t = ret t"
| "scan_channels io i ((sec, mas) # cs) t =
     bnd (identify io (if sec then BASE_SECONDARY else BASE_PRIMARY) mas (DEV_NONE\<lparr>is_secondary := sec, master := mas\<rparr>)) (\<lambda>d.
     bnd (guard_panic (i < length (devices t))) (\<lambda>_.
     scan_channels io (i + 1) cs (t\<lparr>devices := (devices t)[i := d],
       dev_count := (if present d then (dev_count t + 1) mod 2 ^ 64 else dev_count t)\<rparr>)))"

definition ata_init :: "'d io \<Rightarrow> ata_table \<Rightarrow> ('d, ata_table) dop" where
  "ata_init io t = scan_channels io 0 CHANNELS (t\<lparr>dev_count := 0\<rparr>)"

section \<open>Sectors\<close>

definition drive_select :: "bool \<Rightarrow> 32 word \<Rightarrow> byte" where
  "drive_select is_master lba = 0xE0 OR (if is_master then 0x00 else 0x10) OR (ucast (drop_bit 24 lba) AND 0x0F)"

definition command :: "'d io \<Rightarrow> nat \<Rightarrow> bool \<Rightarrow> 32 word \<Rightarrow> byte \<Rightarrow> ('d, unit) dop" where
  "command io base is_master lba cmd =
     bnd (out8 io (base + 6) (drive_select is_master lba)) (\<lambda>_.
     bnd (out8 io (base + 5) (ucast (drop_bit 16 lba))) (\<lambda>_.
     bnd (out8 io (base + 4) (ucast (drop_bit 8 lba))) (\<lambda>_.
     bnd (out8 io (base + 3) (ucast lba)) (\<lambda>_.
     bnd (out8 io (base + 2) 0x01) (\<lambda>_.
     out8 io (base + 7) cmd)))))"

text \<open>The status, and the error register too, are read again for the message.\<close>

definition give_up :: "'d io \<Rightarrow> nat list \<Rightarrow> 'a \<Rightarrow> ('d, 'a) dop" where
  "give_up io regs r = foldr (\<lambda>p m. bnd (in8 io p) (\<lambda>_. m)) regs (ret r)"

definition word_bytes :: "16 word \<Rightarrow> byte list" where
  "word_bytes w = [ucast (w AND 0xFF), ucast (drop_bit 8 w)]"

definition read_sector :: "'d io \<Rightarrow> nat \<Rightarrow> bool \<Rightarrow> 32 word \<Rightarrow> byte list \<Rightarrow> ('d, bool \<times> byte list) dop" where
  "read_sector io base is_master lba dat =
    (if lba AND 0x0FFFFFFF \<noteq> lba then ret (False, dat)
     else bnd (command io base is_master lba 0x20) (\<lambda>_.
     bnd (poll_bsy_clear io base) (\<lambda>free. if \<not> free then give_up io [base + 7] (False, dat)
     else bnd (in8 io (base + 7)) (\<lambda>st. if st AND 0x01 \<noteq> 0 then give_up io [base + 1] (False, dat)
     else bnd (poll_drq io base) (\<lambda>drq. if \<not> drq then give_up io [base + 7] (False, dat)
     else bnd (in_words io base 256) (\<lambda>ws. let dat' = concat (map word_bytes ws) in
     bnd (poll_bsy_clear io base) (\<lambda>idle. if \<not> idle then give_up io [base + 7] (False, dat')
     else bnd (in8 io (base + 7)) (\<lambda>st. if st AND 0x01 \<noteq> 0 then give_up io [base + 1] (False, dat')
     else ret (True, dat')))))))))"

fun pair_words :: "byte list \<Rightarrow> 16 word list" where
  "pair_words (lo # hi # bs) = (push_bit 8 (ucast hi) OR ucast lo) # pair_words bs"
| "pair_words _ = []"

definition write_sector :: "'d io \<Rightarrow> nat \<Rightarrow> bool \<Rightarrow> 32 word \<Rightarrow> byte list \<Rightarrow> ('d, bool) dop" where
  "write_sector io base is_master lba dat =
    (if lba AND 0x0FFFFFFF \<noteq> lba then ret False
     else bnd (command io base is_master lba 0x30) (\<lambda>_.
     bnd (poll_bsy_clear io base) (\<lambda>free. if \<not> free then give_up io [base + 7] False
     else bnd (poll_drq io base) (\<lambda>drq. if \<not> drq then give_up io [base + 7] False
     else bnd (out_words io base (pair_words dat)) (\<lambda>_.
     bnd (poll_bsy_clear io base) (\<lambda>idle. if \<not> idle then ret False
     else bnd (in8 io (base + 7)) (\<lambda>st. if st AND 0x01 \<noteq> 0 then give_up io [base + 1] False
     else if st AND 0x08 \<noteq> 0 then ret False
     else ret True)))))))"

section \<open>Every operation returns\<close>

definition timer_runs :: "'d io \<Rightarrow> bool" where
  "timer_runs io = (\<forall>p ok. advancing io (probe_reg io p ok))"

text \<open>
  An operation returns, or panics in one of the few ways that are left, which \<open>bad\<close> describes.
\<close>

definition returns :: "('s \<Rightarrow> bool) \<Rightarrow> ('s, unit, 'a) kernel \<Rightarrow> bool" where
  "returns bad m = (\<forall>b. (\<exists>a b'. m b = (Ret a, b')) \<or> (\<exists>b'. m b = (Panic, b') \<and> bad b'))"

named_theorems returns_intros \<open>operations that return\<close>

lemma returns_ret [returns_intros]: "returns bad (ret a)"
  by (simp add: returns_def)

lemma returns_bnd [returns_intros]:
  assumes "returns bad m" and "\<And>a. returns bad (f a)"
  shows "returns bad (bnd m f)"
  unfolding returns_def
proof
  fix b
  consider a b1 where "m b = (Ret a, b1)" | b1 where "m b = (Panic, b1)" "bad b1"
    using assms(1) unfolding returns_def by blast
  then show "(\<exists>a b'. bnd m f b = (Ret a, b')) \<or> (\<exists>b'. bnd m f b = (Panic, b') \<and> bad b')"
  proof cases
    case 1
    then show ?thesis using assms(2) [of a] unfolding returns_def by (simp add: bnd_def)
  next
    case 2
    then show ?thesis by (simp add: bnd_def)
  qed
qed

lemma returns_if [returns_intros]: "returns bad m \<Longrightarrow> returns bad m' \<Longrightarrow> returns bad (if c then m else m')"
  by simp

lemma returns_guard: "c \<Longrightarrow> returns bad (guard_panic c)"
  by (simp add: returns_def)

lemma returns_reg [returns_intros]: "returns bad (reg_write io r v)" "returns bad (reg_read io r)"
  by (simp_all add: returns_def reg_write_def reg_read_def split_beta)

lemma returns_ports [returns_intros]: "returns bad (out8 io p x)" "returns bad (out16 io p w)" "returns bad (in8 io p)" "returns bad (in16 io p)"
  unfolding out8_def out16_def in8_def in16_def by (intro returns_intros)+

lemma returns_in_words [returns_intros]: "returns bad (in_words io base n)"
proof (induction n)
  case (Suc n)
  show ?case unfolding in_words.simps by (intro returns_intros Suc)
qed (simp only: in_words.simps returns_ret)

lemma returns_out_words [returns_intros]: "returns bad (out_words io base ws)"
proof (induction ws)
  case (Cons w ws)
  show ?case unfolding out_words.simps by (intro returns_intros Cons)
qed (simp only: out_words.simps returns_ret)

lemma returns_give_up [returns_intros]: "returns bad (give_up io rs r)"
  unfolding give_up_def
proof (induction rs)
  case (Cons p rs)
  show ?case unfolding foldr.simps o_apply by (intro returns_intros Cons)
qed (simp only: foldr.simps id_apply returns_ret)

text \<open>A wait computes its deadline, which must fit in the counter.\<close>

definition clock_at_end :: "'d io \<Rightarrow> nat \<Rightarrow> 'd bus \<Rightarrow> bool" where
  "clock_at_end io timeout b = (2 ^ 64 \<le> clock io (dv b) + timeout)"

lemma returns_wait:
  assumes "advancing io probe"
  shows "returns (clock_at_end io timeout) (wait_for io timeout probe)"
proof -
  have "(\<exists>a b'. wait_for io timeout probe b = (Ret a, b')) \<or>
      (\<exists>b'. wait_for io timeout probe b = (Panic, b') \<and> clock_at_end io timeout b')" for b
  proof -
    obtain ok d where "poll io probe (clock io (dv b) + timeout) (dv b) = Some (ok, d)"
      using poll_ends [OF assms] by (metis not_None_eq surj_pair)
    then show ?thesis by (simp add: clock_at_end_def wait_for_def ticks_def bnd_def)
  qed
  then show ?thesis unfolding returns_def ..
qed

lemma returns_polls:
  assumes "timer_runs io"
  shows "returns (clock_at_end io TIMEOUT_TICKS) (poll_bsy_clear io base)"
    and "returns (clock_at_end io TIMEOUT_TICKS) (poll_drq io base)"
  using assms by (auto simp: poll_bsy_clear_def poll_drq_def timer_runs_def intro!: returns_wait)

lemma returns_identify: "timer_runs io \<Longrightarrow> returns (clock_at_end io TIMEOUT_TICKS) (identify io base m d)"
  unfolding identify_def by (intro returns_intros returns_polls)

lemma returns_scan:
  assumes "timer_runs io" and "i + length cs \<le> length (devices t)"
  shows "returns (clock_at_end io TIMEOUT_TICKS) (scan_channels io i cs t)"
  using assms(2)
proof (induction cs arbitrary: i t)
  case (Cons c cs)
  obtain sec mas where "c = (sec, mas)" by fastforce
  then show ?case using Cons unfolding \<open>c = (sec, mas)\<close> scan_channels.simps
    by (intro returns_intros returns_guard returns_identify [OF assms(1)]) simp_all
qed (simp only: scan_channels.simps returns_ret)

text \<open>C32: every disk operation returns, whatever the disk answers or does not answer: identification of
  all four disks into a table that has the places, reading and writing a sector.  The timer
  interrupt must keep coming; the one panic left is that of a deadline beyond the range of
  the 64-bit tick counter.
\<close>

theorem disk_operations_return:
  assumes "timer_runs io" and "4 \<le> length (devices t)"
  shows "((\<exists>r b'. ata_init io t b = (Ret r, b')) \<or> (\<exists>b'. ata_init io t b = (Panic, b') \<and> 2 ^ 64 \<le> clock io (dv b') + 3000)) \<and>
    ((\<exists>r b'. read_sector io base m lba dat b = (Ret r, b')) \<or>
      (\<exists>b'. read_sector io base m lba dat b = (Panic, b') \<and> 2 ^ 64 \<le> clock io (dv b') + 3000)) \<and>
    ((\<exists>r b'. write_sector io base m lba dat b = (Ret r, b')) \<or>
      (\<exists>b'. write_sector io base m lba dat b = (Panic, b') \<and> 2 ^ 64 \<le> clock io (dv b') + 3000))"
proof -
  have "returns (clock_at_end io TIMEOUT_TICKS) (ata_init io t)"
    unfolding ata_init_def by (rule returns_scan [OF assms(1)]) (use assms(2) in \<open>simp add: CHANNELS_def\<close>)
  moreover have "returns (clock_at_end io TIMEOUT_TICKS) (read_sector io base m lba dat)"
    "returns (clock_at_end io TIMEOUT_TICKS) (write_sector io base m lba dat)"
    unfolding read_sector_def write_sector_def command_def Let_def by (intro returns_intros returns_polls [OF assms(1)])+
  ultimately show ?thesis unfolding returns_def clock_at_end_def TIMEOUT_TICKS_def by blast
qed

section \<open>What goes over the ports\<close>

lemma out8_run [simp]: "out8 io p x b = (Ret (), b\<lparr>dv := reg_out io p (unat x) (dv b), sent := sent b @ [(p, unat x)]\<rparr>)"
  by (simp add: out8_def reg_write_def)

lemma out_words_run: "\<exists>d. out_words io base ws b = (Ret (), b\<lparr>dv := d, sent := sent b @ map (\<lambda>w. (base, unat w)) ws\<rparr>)"
proof (induction ws arbitrary: b)
  case Nil
  show ?case by (rule exI [of _ "dv b"]) simp
next
  case (Cons w ws)
  let ?b = "b\<lparr>dv := reg_out io base (unat w) (dv b), sent := sent b @ [(base, unat w)]\<rparr>"
  obtain d where "out_words io base ws ?b = (Ret (), ?b\<lparr>dv := d, sent := sent ?b @ map (\<lambda>w. (base, unat w)) ws\<rparr>)"
    using Cons by blast
  then show ?case by (intro exI [of _ d]) (simp add: out16_def reg_write_def bnd_def)
qed

lemma in8_run: "in8 io p b = (r, b') \<Longrightarrow> sent b' = sent b \<and> (\<exists>v. seen b' = seen b @ [(p, v)] \<and> r = Ret (of_nat v))"
  by (auto simp: in8_def reg_read_def bnd_def split: prod.splits)

lemma in_words_run:
  "in_words io base n b = (r, b') \<Longrightarrow> sent b' = sent b \<and>
     (\<exists>ws vs. r = Ret ws \<and> length ws = n \<and> ws = map of_nat vs \<and> seen b' = seen b @ map (\<lambda>v. (base, v)) vs)"
proof (induction n arbitrary: b r b')
  case (Suc n)
  obtain v d where v: "reg_in io base (dv b) = (v, d)" by fastforce
  let ?b = "b\<lparr>dv := d, seen := seen b @ [(base, v)]\<rparr>"
  obtain r1 b1 where i: "in_words io base n ?b = (r1, b1)" by fastforce
  from Suc.IH [OF i] obtain ws vs where w: "r1 = Ret ws" "length ws = n" "ws = map of_nat vs"
    "seen b1 = seen b @ (base, v) # map (\<lambda>v. (base, v)) vs" "sent b1 = sent b" by auto
  then have "r = Ret (of_nat v # ws)" "b' = b1"
    using Suc.prems i v by (simp_all add: in16_def reg_read_def bnd_def)
  then show ?case using w by (auto intro!: exI [of _ "v # vs"])
qed simp

lemma poll_run:
  "poll_bsy_clear io base b = (r, b') \<Longrightarrow> sent b' = sent b \<and> seen b' = seen b"
  "poll_drq io base b = (r, b') \<Longrightarrow> sent b' = sent b \<and> seen b' = seen b"
  using wait_for_trace unfolding poll_bsy_clear_def poll_drq_def by blast+

lemma command_run: "\<exists>d. command io base m lba cmd b = (Ret (), b\<lparr>dv := d, sent := sent b @
    [(base + 6, unat (drive_select m lba)), (base + 5, unat (ucast (drop_bit 16 lba) :: byte)),
     (base + 4, unat (ucast (drop_bit 8 lba) :: byte)), (base + 3, unat (ucast lba :: byte)), (base + 2, 1),
     (base + 7, unat cmd)]\<rparr>)"
  by (simp add: command_def bnd_def) blast

section \<open>Bytes, words and addresses\<close>

lemma ff_mask: "(0xFF :: 16 word) = mask 8"
  by (simp add: mask_eq_exp_minus_1)

lemma word_bytes_pair: "word_bytes (push_bit 8 (ucast hi) OR ucast lo) = [lo, hi]"
proof -
  note bits = bit_ucast_iff bit_and_iff bit_or_iff bit_drop_bit_eq bit_push_bit_iff bit_mask_iff comp_apply
  show ?thesis unfolding word_bytes_def ff_mask list.inject
    by (intro conjI refl; rule bit_word_eqI; simp only: bits) (auto dest: bit_imp_le_length)
qed

lemma pair_words_bytes: "even (length bs) \<Longrightarrow> concat (map word_bytes (pair_words bs)) = bs"
  by (induction bs rule: pair_words.induct) (simp_all add: word_bytes_pair del: push_bit_numeral)

lemma unat_byte_of: "unat (ucast (drop_bit k lba) :: byte) = unat (lba :: 'a :: len word) div 2 ^ k mod 256"
  unfolding unsigned_ucast_eq unat_drop_bit_eq by (simp add: drop_bit_eq_div take_bit_eq_mod)

lemma word_bytes_nat: "word_bytes w = [of_nat (unat w), of_nat (unat w div 256)]"
proof -
  have "(ucast (w AND 0xFF) :: byte) = ucast w"
    unfolding ff_mask by (rule bit_word_eqI) (auto simp: bit_ucast_iff bit_and_iff bit_mask_iff)
  moreover have "(ucast w :: byte) = of_nat (unat w)"
    unfolding word_unat_eq_iff unsigned_ucast_eq unat_of_nat by (simp add: take_bit_eq_mod)
  moreover have "(ucast (drop_bit 8 w) :: byte) = of_nat (unat w div 256)"
    unfolding word_unat_eq_iff unat_byte_of unat_of_nat by simp
  ultimately show ?thesis unfolding word_bytes_def by (simp only:)
qed

lemma unat_low_bits: "unat (x AND mask n) = unat x mod 2 ^ n"
  unfolding take_bit_eq_mask [symmetric] unsigned_take_bit_eq by (simp add: take_bit_eq_mod)

lemma nibble_cases: "unat (x :: byte) < 16 \<Longrightarrow> x \<in> set (map of_nat [0..<16])"
proof -
  assume "unat x < 16"
  then show ?thesis unfolding set_map by (intro image_eqI [of _ _ "unat x"]) simp_all
qed

lemma nibble_or:
  assumes "unat (x :: byte) < 16" and "d = (0x00 :: byte) \<or> d = 0x10"
  shows "unat (0xE0 OR d OR x) = 16 * (14 + unat d div 16) + unat x"
  using nibble_cases [OF assms(1)] assms(2) by (elim disjE) (auto simp: upt_rec)

lemma drive_select_parts:
  "unat (drive_select m lba) mod 16 = unat lba div 2 ^ 24 mod 16"
  "unat (drive_select m lba) div 16 = (if m then 0xE else 0xF)"
proof -
  let ?x = "ucast (drop_bit 24 lba) AND 0x0F :: byte"
  have f: "(0x0F :: byte) = mask 4" by (simp add: mask_eq_exp_minus_1)
  have x: "unat ?x = unat lba div 2 ^ 24 mod 16" unfolding f unat_low_bits unat_byte_of by (simp add: mod_mod_cancel)
  then have lt: "unat ?x < 16" by simp
  have "unat (drive_select m lba) = 16 * (if m then 0xE else 0xF) + unat ?x"
    unfolding drive_select_def using nibble_or [OF lt, of "if m then 0x00 else 0x10"] by (cases m) simp_all
  then show "unat (drive_select m lba) mod 16 = unat lba div 2 ^ 24 mod 16"
    "unat (drive_select m lba) div 16 = (if m then 0xE else 0xF)"
    using x lt by simp_all
qed

lemma base_256: "n = n div 2 ^ 24 * 2 ^ 24 + n div 2 ^ 16 mod 256 * 2 ^ 16 + n div 2 ^ 8 mod 256 * 2 ^ 8 + n mod (256 :: nat)"
proof -
  have "n div 2 ^ 24 = n div 256 div 256 div 256" "n div 2 ^ 16 = n div 256 div 256" "n div 2 ^ 8 = n div 256"
    by (simp_all add: div_mult2_eq [symmetric])
  then have "n = ((n div 2 ^ 24 * 256 + n div 2 ^ 16 mod 256) * 256 + n div 2 ^ 8 mod 256) * 256 + n mod 256"
    by (simp only: div_mult_mod_eq)
  then show ?thesis by (simp add: algebra_simps)
qed

lemma lba_parts:
  assumes "lba AND 0x0FFFFFFF = (lba :: 32 word)"
  shows "unat (drive_select m lba) mod 16 * 2 ^ 24 + unat (ucast (drop_bit 16 lba) :: byte) * 2 ^ 16 +
    unat (ucast (drop_bit 8 lba) :: byte) * 2 ^ 8 + unat (ucast lba :: byte) = unat lba"
proof -
  have "(0x0FFFFFFF :: 32 word) = mask 28" by (simp add: mask_eq_exp_minus_1)
  then have "unat lba = unat lba mod 2 ^ 28" using assms unat_low_bits [of lba 28] by simp
  moreover have "unat lba mod 2 ^ 28 < 2 ^ 28" by simp
  ultimately have "unat lba < 2 ^ 28" by linarith
  then have hi: "unat (drive_select m lba) mod 16 = unat lba div 2 ^ 24"
    using drive_select_parts(1) [of m lba] by (simp add: div_less_iff_less_mult)
  have lo: "unat (ucast lba :: byte) = unat lba mod 256" using unat_byte_of [of 0 lba] by simp
  show ?thesis using base_256 [of "unat lba"] unfolding hi lo unat_byte_of by simp
qed

section \<open>A logic for what is sent and received\<close>

text \<open>\<open>sends good m xs\<close>: whenever \<open>m\<close> answers a good value, it has sent \<open>xs\<close>.  \<open>reads base m P\<close>: the
  answer and the words read from the data port are related by \<open>P\<close>.\<close>

definition sends :: "('a \<Rightarrow> bool) \<Rightarrow> ('d, 'a) dop \<Rightarrow> (nat \<times> nat) list \<Rightarrow> bool" where
  "sends good m xs = (\<forall>b r b'. m b = (Ret r, b') \<longrightarrow> good r \<longrightarrow> sent b' = sent b @ xs)"

definition data_of :: "nat \<Rightarrow> (nat \<times> nat) list \<Rightarrow> nat list" where
  "data_of base xs = map snd (filter (\<lambda>x. fst x = base) xs)"

definition reads :: "nat \<Rightarrow> ('d, 'a) dop \<Rightarrow> ('a \<Rightarrow> nat list \<Rightarrow> bool) \<Rightarrow> bool" where
  "reads base m P = (\<forall>b r b'. m b = (Ret r, b') \<longrightarrow> (\<exists>xs. seen b' = seen b @ xs \<and> P r (data_of base xs)))"

named_theorems io_intros \<open>rules of the two logics\<close>

lemma sends_bnd [io_intros]:
  assumes "sends (\<lambda>_. True) m xs" and "\<And>a. sends good (f a) ys"
  shows "sends good (bnd m f) (xs @ ys)"
  using assms unfolding sends_def by (fastforce elim: bnd_RetE)

lemma sends_then: "sends (\<lambda>_. True) m [] \<Longrightarrow> (\<And>a. sends good (f a) ys) \<Longrightarrow> sends good (bnd m f) ys"
  using sends_bnd [of m "[]"] by auto

lemma sends_if [io_intros]: "sends good m xs \<Longrightarrow> sends good m' xs \<Longrightarrow> sends good (if c then m else m') xs"
  by simp

lemma sends_ret [io_intros]: "sends good (ret a) []" "\<not> good a \<Longrightarrow> sends good (ret a) xs"
  by (simp_all add: sends_def)

lemma give_up_fails: "give_up io rs r b = (x, b') \<Longrightarrow> x = Ret r"
proof (induction rs arbitrary: b)
  case (Cons p rs)
  obtain y b1 where y: "in8 io p b = (y, b1)" by fastforce
  then obtain v where "y = Ret (of_nat v)" using in8_run by blast
  then have "give_up io rs r b1 = (x, b')" using Cons.prems y by (simp add: give_up_def bnd_def)
  then show ?case by (rule Cons.IH)
qed (simp add: give_up_def)

lemma sends_give_up [io_intros]: "\<not> good r \<Longrightarrow> sends good (give_up io rs r) xs"
  by (auto simp: sends_def dest!: give_up_fails)

lemma sends_out_words: "sends good (out_words io base ws) (map (Pair base) (map unat ws))"
proof -
  have "sent b' = sent b @ map (Pair base) (map unat ws)" if "out_words io base ws b = (Ret r, b')" for b r b'
    using out_words_run [of io base ws b] that by (auto simp: comp_def)
  then show ?thesis by (simp add: sends_def)
qed

lemma sends_nothing: "sends (\<lambda>_. True) (poll_bsy_clear io base) []" "sends (\<lambda>_. True) (poll_drq io base) []"
    "sends (\<lambda>_. True) (in8 io p) []" "sends (\<lambda>_. True) (in_words io base n) []"
  using poll_run in8_run in_words_run unfolding sends_def by fastforce+

lemma reads_bnd:
  assumes "reads base m P" and "\<And>a vs. P a vs \<Longrightarrow> reads base (f a) (\<lambda>r ws. Q r (vs @ ws))"
  shows "reads base (bnd m f) Q"
  unfolding reads_def
proof (intro allI impI)
  fix b r b' assume "bnd m f b = (Ret r, b')"
  then obtain a b1 where a: "m b = (Ret a, b1)" "f a b1 = (Ret r, b')" by (rule bnd_RetE)
  obtain xs where xs: "seen b1 = seen b @ xs" "P a (data_of base xs)" using assms(1) a(1) unfolding reads_def by blast
  obtain ys where "seen b' = seen b1 @ ys" "Q r (data_of base xs @ data_of base ys)"
    using assms(2) [OF xs(2)] a(2) unfolding reads_def by blast
  then show "\<exists>zs. seen b' = seen b @ zs \<and> Q r (data_of base zs)"
    using xs by (intro exI [of _ "xs @ ys"]) (simp add: data_of_def)
qed

lemma reads_then: "reads base m (\<lambda>_ vs. vs = []) \<Longrightarrow> (\<And>a. reads base (f a) Q) \<Longrightarrow> reads base (bnd m f) Q"
  by (rule reads_bnd [where P = "\<lambda>_ vs. vs = []"]) auto

lemma reads_if: "reads base m Q \<Longrightarrow> reads base m' Q \<Longrightarrow> reads base (if c then m else m') Q"
  by simp

lemma reads_ret: "Q a [] \<Longrightarrow> reads base (ret a) Q"
  by (auto simp: reads_def data_of_def)

lemma reads_status: "p \<noteq> base \<Longrightarrow> reads base (in8 io p) (\<lambda>_ vs. vs = [])"
  using in8_run unfolding reads_def by (fastforce simp: data_of_def)

lemma reads_give_up: "base \<notin> set rs \<Longrightarrow> Q r [] \<Longrightarrow> reads base (give_up io rs r) Q"
  unfolding give_up_def
proof (induction rs)
  case (Cons p rs)
  have "reads base (foldr (\<lambda>p m. bnd (in8 io p) (\<lambda>_. m)) rs (ret r)) Q" by (rule Cons.IH) (use Cons.prems in simp_all)
  moreover have "p \<noteq> base" using Cons.prems by simp
  ultimately show ?case unfolding foldr.simps o_apply by (intro reads_then [OF reads_status])
qed (simp only: foldr.simps id_apply reads_ret)

lemma reads_nothing: "reads base (poll_bsy_clear io base) (\<lambda>_ vs. vs = [])" "reads base (poll_drq io base) (\<lambda>_ vs. vs = [])"
    "reads base (out8 io p x) (\<lambda>_ vs. vs = [])"
  using poll_run unfolding reads_def by (fastforce simp: data_of_def)+

lemma reads_words: "reads base (in_words io base n) (\<lambda>ws vs. ws = map of_nat vs \<and> length vs = n)"
  using in_words_run unfolding reads_def by (fastforce simp: data_of_def comp_def)

section \<open>What reading and writing a sector exchange with the disk\<close>

definition select_bytes :: "nat \<Rightarrow> bool \<Rightarrow> 32 word \<Rightarrow> (nat \<times> nat) list" where
  "select_bytes base m lba = [(base + 6, unat (drive_select m lba)), (base + 5, unat (ucast (drop_bit 16 lba) :: byte)),
     (base + 4, unat (ucast (drop_bit 8 lba) :: byte)), (base + 3, unat (ucast lba :: byte)), (base + 2, 1)]"

lemma sends_command: "sends good (command io base m lba cmd) (select_bytes base m lba @ [(base + 7, unat cmd)])"
proof -
  have "sent b' = sent b @ select_bytes base m lba @ [(base + 7, unat cmd)]" if "command io base m lba cmd b = (Ret r, b')" for b r b'
    using command_run [of io base m lba cmd b] that by (auto simp: select_bytes_def)
  then show ?thesis by (simp add: sends_def)
qed

lemma write_sends: "sends id (write_sector io base m lba dat)
    ((select_bytes base m lba @ [(base + 7, 0x30)]) @ map (Pair base) (map unat (pair_words dat)))"
proof -
  have c: "sends (\<lambda>_. True) (command io base m lba 0x30) (select_bytes base m lba @ [(base + 7, 0x30)])"
    using sends_command [of "\<lambda>_. True" io base m lba "0x30"] by simp
  have w: "sends id (bnd (out_words io base (pair_words dat)) f) (map (Pair base) (map unat (pair_words dat)))"
    if "\<And>a. sends id (f a) []" for f using sends_bnd [OF sends_out_words that] by simp
  show ?thesis unfolding write_sector_def
    by (intro sends_if sends_bnd [OF c] sends_then [OF sends_nothing(1)] sends_then [OF sends_nothing(2)]
        sends_then [OF sends_nothing(3)] w sends_ret sends_give_up) simp_all
qed

text \<open>C33: a write that reports success has sent exactly this: the select byte and the address
  bytes of the sector, the count 1 and the command, then the data as 256 words; drive and
  address are read off the bytes.
\<close>

theorem write_sector_sends:
  assumes "write_sector io base m lba dat b = (Ret True, b')" and "length dat = 512"
  shows "\<exists>ds a5 a4 a3 ws. sent b' = sent b @ [(base + 6, ds), (base + 5, a5), (base + 4, a4), (base + 3, a3),
      (base + 2, 1), (base + 7, 0x30)] @ map (Pair base) ws \<and>
    ds div 16 = (if m then 0xE else 0xF) \<and> ds mod 16 * 2 ^ 24 + a5 * 2 ^ 16 + a4 * 2 ^ 8 + a3 = unat lba \<and>
    concat (map (\<lambda>w. [of_nat w, of_nat (w div 256)]) ws) = dat"
proof -
  have lba: "lba AND 0x0FFFFFFF = lba" using assms(1) by (auto simp: write_sector_def split: if_splits)
  have "sent b' = sent b @ (select_bytes base m lba @ [(base + 7, 0x30)]) @ map (Pair base) (map unat (pair_words dat))"
    using write_sends [of io base m lba dat, unfolded sends_def, rule_format, OF assms(1)] by simp
  moreover have "concat (map (\<lambda>w. [of_nat w, of_nat (w div 256)]) (map unat (pair_words dat))) = dat"
    using pair_words_bytes [of dat] assms(2) by (simp only: map_map comp_def word_bytes_nat [symmetric]) simp
  ultimately show ?thesis using drive_select_parts(2) [of m lba] lba_parts [OF lba, of m]
    unfolding select_bytes_def append_Cons append_Nil by blast
qed

lemma read_sends: "sends fst (read_sector io base m lba dat) (select_bytes base m lba @ [(base + 7, 0x20)])"
proof -
  have c: "sends (\<lambda>_. True) (command io base m lba 0x20) (select_bytes base m lba @ [(base + 7, 0x20)])"
    using sends_command [of "\<lambda>_. True" io base m lba "0x20"] by simp
  have e: "sends fst (bnd (command io base m lba 0x20) f) (select_bytes base m lba @ [(base + 7, 0x20)])"
    if "\<And>a. sends fst (f a) []" for f :: "unit \<Rightarrow> ('a, bool \<times> byte list) dop" using sends_bnd [OF c that] by simp
  show ?thesis unfolding read_sector_def Let_def
    by (intro sends_if e sends_then [OF sends_nothing(1)] sends_then [OF sends_nothing(2)]
        sends_then [OF sends_nothing(3)] sends_then [OF sends_nothing(4)] sends_ret sends_give_up) simp_all
qed

lemma read_reads: "reads base (read_sector io base m lba dat)
    (\<lambda>r vs. fst r \<longrightarrow> length vs = 256 \<and> snd r = concat (map word_bytes (map of_nat vs)))"
proof -
  have c: "reads base (command io base m lba cmd) (\<lambda>_ vs. vs = [])" for cmd
    unfolding command_def by (intro reads_then [OF reads_nothing(3)]) (rule reads_nothing(3))
  show ?thesis unfolding read_sector_def Let_def
    by (intro reads_if reads_then [OF c] reads_then [OF reads_nothing(1)] reads_then [OF reads_nothing(2)]
        reads_then [OF reads_status] reads_bnd [OF reads_words] reads_ret reads_give_up) auto
qed

text \<open>C34: a read that reports success has sent the select and address bytes of the sector and the
  command, and returns the 512 bytes that came over the data port as 256 words, low byte first;
  nothing else was read there.
\<close>

theorem read_sector_receives:
  assumes "read_sector io base m lba dat b = (Ret (True, dat'), b')"
  shows "\<exists>ws xs. seen b' = seen b @ xs \<and> data_of base xs = ws \<and> length ws = 256 \<and>
    dat' = concat (map (\<lambda>w. word_bytes (of_nat w)) ws) \<and>
    sent b' = sent b @ select_bytes base m lba @ [(base + 7, 0x20)]"
proof -
  obtain xs where "seen b' = seen b @ xs" "length (data_of base xs) = 256"
    "dat' = concat (map word_bytes (map of_nat (data_of base xs)))"
    using read_reads assms unfolding reads_def by fastforce
  moreover have "sent b' = sent b @ select_bytes base m lba @ [(base + 7, 0x20)]"
    using read_sends assms by (fastforce simp: sends_def)
  ultimately show ?thesis by (auto simp: comp_def)
qed

section \<open>An example disk\<close>

text \<open>A disk that counts the words still to come; the clock moves with every halt.\<close>

definition demo_disk :: "(nat \<times> nat) io" where
  "demo_disk = \<lparr>reg_in = (\<lambda>r (t, n). if r = 0x1F0 then (0x4241, (t, n - 1)) else (if 0 < n then 0x48 else 0x40, (t, n))),
     reg_out = (\<lambda>r v (t, n). if r = 0x1F7 then (t, 256) else if r = 0x1F0 then (t, n - 1) else (t, n)),
     clock = fst, halt = (\<lambda>(t, n). (t + 1, n))\<rparr>"

definition demo_bus :: "(nat \<times> nat) bus" where
  "demo_bus = \<lparr>dv = (0, 0), sent = [], seen = []\<rparr>"

theorem disk_operations_return_witness:
  "(\<exists>r b'. ata_init demo_disk \<lparr>devices = replicate 8 DEV_NONE, dev_count = 0\<rparr> demo_bus = (Ret r, b')) \<or>
    (\<exists>b'. ata_init demo_disk \<lparr>devices = replicate 8 DEV_NONE, dev_count = 0\<rparr> demo_bus = (Panic, b') \<and>
      2 ^ 64 \<le> clock demo_disk (dv b') + 3000)"
proof -
  have "timer_runs demo_disk"
    unfolding timer_runs_def advancing_def
  proof (intro allI conjI)
    fix p ok d
    show "\<exists>n. clock demo_disk d < clock demo_disk (((\<lambda>d. halt demo_disk (snd (probe_reg demo_disk p ok d))) ^^ n) d)"
      by (rule exI [of _ 1]) (cases d; simp add: demo_disk_def probe_reg_def)
  qed (auto simp: demo_disk_def probe_reg_def split: prod.split)
  then show ?thesis using disk_operations_return [of demo_disk "\<lparr>devices = replicate 8 DEV_NONE, dev_count = 0\<rparr>" demo_bus] by simp
qed

lemma wait_for_now: "probe (dv b) = (True, d) \<Longrightarrow> clock io (dv b) + timeout < 2 ^ 64 \<Longrightarrow>
    wait_for io timeout probe b = (Ret True, b\<lparr>dv := d\<rparr>)"
proof -
  assume p: "probe (dv b) = (True, d)" and t: "clock io (dv b) + timeout < 2 ^ 64"
  have "poll io probe deadline (dv b) = Some (True, d)" for deadline by (subst poll.simps) (simp add: p)
  then show ?thesis using t by (simp add: wait_for_def ticks_def bnd_def)
qed

lemma demo_ports:
  "in8 demo_disk 0x1F7 b = (Ret (if 0 < snd (dv b) then 0x48 else 0x40), b\<lparr>seen := seen b @ [(0x1F7, if 0 < snd (dv b) then 0x48 else 0x40)]\<rparr>)"
  "in16 demo_disk 0x1F0 b = (Ret 0x4241, b\<lparr>dv := (fst (dv b), snd (dv b) - 1), seen := seen b @ [(0x1F0, 0x4241)]\<rparr>)"
  by (auto simp: in8_def in16_def reg_read_def demo_disk_def bnd_def split: prod.split)

lemma demo_waits:
  "fst (dv b) = 0 \<Longrightarrow> poll_bsy_clear demo_disk 0x1F0 b = (Ret True, b)"
  "fst (dv b) = 0 \<Longrightarrow> 0 < snd (dv b) \<Longrightarrow> poll_drq demo_disk 0x1F0 b = (Ret True, b)"
  unfolding poll_bsy_clear_def poll_drq_def
  by (cases "dv b"; subst wait_for_now [of _ _ "dv b"]; simp add: probe_reg_def demo_disk_def TIMEOUT_TICKS_def)+

lemma demo_words:
  "\<exists>s. in_words demo_disk 0x1F0 n b = (Ret (replicate n 0x4241), b\<lparr>dv := (fst (dv b), snd (dv b) - n), seen := s\<rparr>)"
  "\<exists>s. out_words demo_disk 0x1F0 ws b = (Ret (), b\<lparr>dv := (fst (dv b), snd (dv b) - length ws), sent := s\<rparr>)"
proof (induction n arbitrary: b)
  case (Suc n)
  {
    case 1
    let ?b = "b\<lparr>dv := (fst (dv b), snd (dv b) - 1), seen := seen b @ [(0x1F0, 0x4241)]\<rparr>"
    obtain s where "in_words demo_disk 0x1F0 n ?b = (Ret (replicate n 0x4241), ?b\<lparr>dv := (fst (dv ?b), snd (dv ?b) - n), seen := s\<rparr>)"
      using Suc by blast
    then show ?case by (intro exI [of _ s]) (simp add: demo_ports(2) bnd_def)
  next
    case 2
    show ?case using Suc by blast
  }
next
  case 0
  {
    case 1
    show ?case by (intro exI [of _ "seen b"]) (cases b; simp)
  next
    case 2
    show ?case
    proof (induction ws arbitrary: b)
      case (Cons w ws)
      let ?b = "b\<lparr>dv := (fst (dv b), snd (dv b) - 1), sent := sent b @ [(0x1F0, unat w)]\<rparr>"
      obtain s where "out_words demo_disk 0x1F0 ws ?b = (Ret (), ?b\<lparr>dv := (fst (dv ?b), snd (dv ?b) - length ws), sent := s\<rparr>)"
        using Cons by blast
      moreover have "out16 demo_disk 0x1F0 w b = (Ret (), ?b)"
        by (simp add: out16_def reg_write_def demo_disk_def split: prod.split)
      ultimately show ?case by (intro exI [of _ s]) (simp add: bnd_def)
    next
      case Nil
      show ?case by (intro exI [of _ "sent b"]) (cases b; simp)
    qed
  }
qed

lemma demo_command: "\<exists>s. command demo_disk 0x1F0 m lba cmd demo_bus = (Ret (), demo_bus\<lparr>dv := (0, 256), sent := s\<rparr>)"
  by (simp add: command_def bnd_def demo_bus_def demo_disk_def)

lemma demo_read: "\<exists>b'. read_sector demo_disk 0x1F0 True 5 [] demo_bus = (Ret (True, concat (replicate 256 [0x41, 0x42])), b')"
proof -
  obtain s where c: "command demo_disk 0x1F0 True 5 0x20 demo_bus = (Ret (), demo_bus\<lparr>dv := (0, 256), sent := s\<rparr>)"
    using demo_command by blast
  let ?b = "demo_bus\<lparr>dv := (0, 256), sent := s, seen := seen demo_bus @ [(0x1F7, 0x48)]\<rparr>"
  obtain s2 where w: "in_words demo_disk 0x1F0 256 ?b = (Ret (replicate 256 0x4241), ?b\<lparr>dv := (0, 0), seen := s2\<rparr>)"
    using demo_words(1) [of 256 ?b] by auto
  have b: "word_bytes 0x4241 = [0x41, 0x42]" by (simp add: word_bytes_def)
  show ?thesis unfolding read_sector_def
    using w by (simp add: bnd_def Let_def c demo_waits demo_ports b map_replicate del: replicate.simps)
qed

lemma demo_write: "fst (write_sector demo_disk 0x1F0 True 5 (replicate 512 7) demo_bus) = Ret True"
proof -
  have n: "length (pair_words (replicate (2 * n) (7 :: byte))) = n" for n by (induction n) simp_all
  obtain s where c: "command demo_disk 0x1F0 True 5 0x30 demo_bus = (Ret (), demo_bus\<lparr>dv := (0, 256), sent := s\<rparr>)"
    using demo_command by blast
  let ?b = "demo_bus\<lparr>dv := (0, 256), sent := s\<rparr>"
  obtain s2 where w: "out_words demo_disk 0x1F0 (pair_words (replicate 512 7)) ?b = (Ret (), ?b\<lparr>dv := (0, 0), sent := s2\<rparr>)"
    using demo_words(2) [of "pair_words (replicate 512 7)" ?b] n [of 256] by auto
  show ?thesis unfolding write_sector_def
    using w by (simp add: bnd_def c demo_waits demo_ports del: replicate.simps)
qed

theorem write_sector_sends_witness:
  "\<exists>(b' :: (nat \<times> nat) bus) ds a5 a4 a3 ws. sent b' = [(0x1F6, ds), (0x1F5, a5), (0x1F4, a4), (0x1F3, a3), (0x1F2, 1), (0x1F7, 0x30)] @ map (Pair 0x1F0) ws \<and>
    ds mod 16 * 2 ^ 24 + a5 * 2 ^ 16 + a4 * 2 ^ 8 + a3 = 5"
proof -
  obtain b' where b: "write_sector demo_disk 0x1F0 True 5 (replicate 512 7) demo_bus = (Ret True, b')"
    using demo_write by (metis prod.collapse)
  from write_sector_sends [OF b] have "\<exists>ds a5 a4 a3 ws. sent b' = [(0x1F6, ds), (0x1F5, a5), (0x1F4, a4), (0x1F3, a3),
      (0x1F2, 1), (0x1F7, 0x30)] @ map (Pair 0x1F0) ws \<and> ds mod 16 * 2 ^ 24 + a5 * 2 ^ 16 + a4 * 2 ^ 8 + a3 = 5"
    by (simp add: demo_bus_def) blast
  then show ?thesis by blast
qed

theorem read_sector_receives_witness:
  "\<exists>b' :: (nat \<times> nat) bus. length (data_of 0x1F0 (seen b')) = 256 \<and>
    concat (replicate 256 [0x41, 0x42]) = concat (map (\<lambda>w. word_bytes (of_nat w)) (data_of 0x1F0 (seen b')))"
proof -
  obtain b' where "read_sector demo_disk 0x1F0 True 5 [] demo_bus = (Ret (True, concat (replicate 256 [0x41, 0x42])), b')"
    using demo_read by blast
  from read_sector_receives [OF this] obtain xs where
    "seen b' = xs" "length (data_of 0x1F0 xs) = 256"
    "concat (replicate 256 [0x41, 0x42]) = concat (map (\<lambda>w. word_bytes (of_nat w)) (data_of 0x1F0 xs))"
    by (auto simp: demo_bus_def)
  then show ?thesis by blast
qed

end
