(* ===== verification/Ahci.thy ===== *)
theory Ahci
  imports Pio Pci Heap
begin

text \<open>
  The AHCI disk driver (\<open>kernel/src/ahci.rs\<close>).  The controller reads its commands from memory
  and moves the data there itself, so memory is part of what a device register can change.
\<close>

section \<open>Registers and memory\<close>

definition HBA_CAP :: nat where "HBA_CAP = 0x00"
definition HBA_GHC :: nat where "HBA_GHC = 0x04"
definition HBA_PI :: nat where "HBA_PI = 0x0C"
definition PORT_OFF :: nat where "PORT_OFF = 0x100"
definition PORT_STRIDE :: nat where "PORT_STRIDE = 0x80"
definition PxCLB :: nat where "PxCLB = 0x00"
definition PxFB :: nat where "PxFB = 0x08"
definition PxIS :: nat where "PxIS = 0x10"
definition PxIE :: nat where "PxIE = 0x14"
definition PxCMD :: nat where "PxCMD = 0x18"
definition PxTFD :: nat where "PxTFD = 0x20"
definition PxSIG :: nat where "PxSIG = 0x24"
definition PxSSTS :: nat where "PxSSTS = 0x28"
definition PxSERR :: nat where "PxSERR = 0x30"
definition PxCI :: nat where "PxCI = 0x38"
definition GHC_HR :: u32 where "GHC_HR = 0x00000001"
definition GHC_AE :: u32 where "GHC_AE = 0x80000000"
definition PxCMD_ST :: u32 where "PxCMD_ST = 0x00000001"
definition PxCMD_FRE :: u32 where "PxCMD_FRE = 0x00000010"
definition PxCMD_CR :: u32 where "PxCMD_CR = 0x00008000"
definition PxCMD_POD :: u32 where "PxCMD_POD = 0x00000004"
definition PxCMD_SUD :: u32 where "PxCMD_SUD = 0x00000002"
definition PxIS_TFES :: u32 where "PxIS_TFES = 0x40000000"
definition PxTFD_ERR :: u32 where "PxTFD_ERR = 0x00000001"
definition PxTFD_BSY :: u32 where "PxTFD_BSY = 0x00000080"
definition SIG_ATA :: u32 where "SIG_ATA = 0x00000101"
definition SIG_ATAPI :: u32 where "SIG_ATAPI = 0xEB140101"
definition CMD_READ_DMA_EXT :: byte where "CMD_READ_DMA_EXT = 0x25"
definition CMD_WRITE_DMA_EXT :: byte where "CMD_WRITE_DMA_EXT = 0x35"
definition ATA_BASE_SLOT :: nat where "ATA_BASE_SLOT = 4"
definition MAX_PORTS :: nat where "MAX_PORTS = 4"
definition AHCI_TIMEOUT :: nat where "AHCI_TIMEOUT = 40"

record 'd dma =
  d_mem :: "nat \<Rightarrow> byte"
  d_hw :: 'd

record ahci_port =
  p_active :: bool
  port_base :: nat
  clb_virt :: nat
  ct_virt :: nat
  dma_virt :: nat

record ahci =
  abar :: nat
  ports :: "ahci_port list"
  disk_count :: nat

record 'd hba_sys =
  h_bus :: "'d dma bus"
  h_heap :: heap_inner
  h_ata :: ata_table
  h_ahci :: "ahci option"

type_synonym ('d, 'a) hop = "('d hba_sys, unit, 'a) kernel"

definition NO_PORT :: ahci_port where
  "NO_PORT = \<lparr>p_active = False, port_base = 0, clb_virt = 0, ct_virt = 0, dma_virt = 0\<rparr>"

definition port_mut :: "nat \<Rightarrow> ahci \<Rightarrow> ahci_port option" where
  "port_mut slot a = (if slot < ATA_BASE_SLOT \<or> ATA_BASE_SLOT + MAX_PORTS \<le> slot then None
     else if p_active (ports a ! (slot - ATA_BASE_SLOT)) then Some (ports a ! (slot - ATA_BASE_SLOT)) else None)"

text \<open>A register at an offset from a base address.\<close>

definition mmio_read :: "'d io \<Rightarrow> nat \<Rightarrow> nat \<Rightarrow> ('d, u32) dop" where
  "mmio_read io base off = bnd (guard_panic (base + off < 2 ^ 64)) (\<lambda>_. bnd (reg_read io (base + off)) (\<lambda>v. ret (of_nat v)))"

definition mmio_write :: "'d io \<Rightarrow> nat \<Rightarrow> nat \<Rightarrow> u32 \<Rightarrow> ('d, unit) dop" where
  "mmio_write io base off v = bnd (guard_panic (base + off < 2 ^ 64)) (\<lambda>_. reg_write io (base + off) (unat v))"

definition mem_put :: "nat \<Rightarrow> byte list \<Rightarrow> ('d dma, unit) dop" where
  "mem_put a bs = modify (\<lambda>b. b\<lparr>dv := (dv b)\<lparr>d_mem := put_bytes a bs (d_mem (dv b))\<rparr>\<rparr>)"

definition mem_get :: "nat \<Rightarrow> nat \<Rightarrow> ('d dma, byte list) dop" where
  "mem_get a n = gets (\<lambda>b. get_bytes a n (d_mem (dv b)))"

definition virt_to_phys :: "nat \<Rightarrow> ('d, nat) dop" where
  "virt_to_phys v = bnd (guard_panic (PMO \<le> v)) (\<lambda>_. ret (v - PMO))"

section \<open>Commands\<close>

text \<open>The port is idle when it is not busy and has no command outstanding; the second register
  is read only when the first one allows it.\<close>

definition idle_probe :: "'d io \<Rightarrow> nat \<Rightarrow> 'd \<Rightarrow> bool \<times> 'd" where
  "idle_probe io pb d = (case reg_in io (pb + PxTFD) d of (t, d1) \<Rightarrow>
     if of_nat t AND PxTFD_BSY \<noteq> 0 then (False, d1)
     else case reg_in io (pb + PxCI) d1 of (c, d2) \<Rightarrow> ((of_nat c :: u32) = 0, d2))"

text \<open>The frame of the command: fourteen bytes, the eleventh of them left zero.\<close>

definition fis_bytes :: "byte \<Rightarrow> 64 word \<Rightarrow> 16 word \<Rightarrow> byte list" where
  "fis_bytes cmd lba count = [0x27, 0x80, cmd, 0,
     ucast (lba AND 0xFF), ucast (drop_bit 8 lba AND 0xFF), ucast (drop_bit 16 lba AND 0xFF), 0x40,
     ucast (drop_bit 24 lba AND 0xFF), ucast (drop_bit 32 lba AND 0xFF), ucast (drop_bit 40 lba AND 0xFF), 0,
     ucast (count AND 0xFF), ucast (drop_bit 8 count AND 0xFF)]"

definition prd_bytes :: "nat \<Rightarrow> nat \<Rightarrow> byte list" where
  "prd_bytes dba dbc = le_enc 4 dba @ le_enc 4 (dba div 2 ^ 32) @ le_enc 4 dbc @ le_enc 4 0"

definition header_bytes :: "bool \<Rightarrow> nat \<Rightarrow> byte list" where
  "header_bytes w ctba = le_enc 4 (unat ((push_bit 16 1 :: u32) OR (if w then push_bit 6 1 else 0) OR 5)) @ le_enc 4 0 @
     le_enc 4 ctba @ le_enc 4 (ctba div 2 ^ 32) @ le_enc 4 0 @ le_enc 4 0 @ le_enc 4 0 @ le_enc 4 0"

definition build_command :: "ahci_port \<Rightarrow> bool \<Rightarrow> byte \<Rightarrow> 64 word \<Rightarrow> 16 word \<Rightarrow> nat \<Rightarrow> ('d dma, unit) dop" where
  "build_command port w cmd lba count dbc =
     bnd (mem_put (ct_virt port) (fis_bytes cmd lba count @ replicate 114 0)) (\<lambda>_.
     bnd (virt_to_phys (dma_virt port)) (\<lambda>dba.
     bnd (mem_put (ct_virt port + 128) (prd_bytes dba dbc)) (\<lambda>_.
     bnd (virt_to_phys (ct_virt port)) (\<lambda>ctba.
     mem_put (clb_virt port) (header_bytes w ctba)))))"

definition start_command :: "'d io \<Rightarrow> nat \<Rightarrow> ('d, bool) dop" where
  "start_command io pb =
     bnd (mmio_write io pb PxIS 0xFFFFFFFF) (\<lambda>_. bnd (mmio_write io pb PxCI 1) (\<lambda>_.
     bnd (wait_for io AHCI_TIMEOUT (probe_reg io (pb + PxCI) (\<lambda>v. of_nat v AND 1 = (0 :: u32)))) (\<lambda>ok.
     if \<not> ok then bnd (mmio_read io pb PxTFD) (\<lambda>_. bnd (mmio_read io pb PxIS) (\<lambda>_. ret False))
     else bnd (mmio_read io pb PxIS) (\<lambda>is. bnd (mmio_read io pb PxTFD) (\<lambda>tfd.
       ret (\<not> (is AND PxIS_TFES \<noteq> 0 \<or> tfd AND PxTFD_ERR \<noteq> 0)))))))"

definition issue :: "'d dma io \<Rightarrow> ahci_port \<Rightarrow> bool \<Rightarrow> byte \<Rightarrow> 64 word \<Rightarrow> 16 word \<Rightarrow> nat \<Rightarrow> ('d dma, bool) dop" where
  "issue io port w cmd lba count dbc = (let pb = port_base port in
     bnd (wait_for io AHCI_TIMEOUT (idle_probe io pb)) (\<lambda>idle.
     if \<not> idle then bnd (mmio_read io pb PxTFD) (\<lambda>_. ret False)
     else bnd (build_command port w cmd lba count dbc) (\<lambda>_. start_command io pb)))"

definition entry_from_dma :: "16 word list \<Rightarrow> ata_entry" where
  "entry_from_dma ws =
    (let short = (ucast (ws ! 60) :: 64 word) OR push_bit 16 (ucast (ws ! 61));
         long = (ucast (ws ! 100) :: 64 word) OR push_bit 16 (ucast (ws ! 101)) OR push_bit 32 (ucast (ws ! 102)) OR
           push_bit 48 (ucast (ws ! 103));
         n = unat (if bit (ws ! 49) 10 then long else short) in
     DEV_NONE\<lparr>present := True, dev_sectors := n, lba_supported := bit (ws ! 49) 9, capacity_mb := n div 2048,
       model := model_bytes ws\<rparr>)"

definition ahci_identify :: "'d dma io \<Rightarrow> ahci_port \<Rightarrow> ('d dma, ata_entry) dop" where
  "ahci_identify io port = bnd (issue io port False (of_nat CMD_IDENTIFY) 0 0 511) (\<lambda>ok.
     if \<not> ok then ret DEV_NONE
     else bnd (mem_get (dma_virt port) 512) (\<lambda>bs. ret (entry_from_dma (pair_words bs))))"

section \<open>Start-up\<close>

definition on_bus :: "('d dma, 'a) dop \<Rightarrow> ('d, 'a) hop" where
  "on_bus m = (\<lambda>s. case m (h_bus s) of (r, b) \<Rightarrow> (r, s\<lparr>h_bus := b\<rparr>))"

definition alloc_dma :: "nat \<Rightarrow> ('d, nat option) hop" where
  "alloc_dma n = (\<lambda>s. case alloc_locked (h_heap s) n 4096 of
     None \<Rightarrow> (Panic, s)
   | Some (0, h) \<Rightarrow> (Ret None, s\<lparr>h_heap := h\<rparr>)
   | Some (v, h) \<Rightarrow> bnd (on_bus (mem_put v (replicate n 0))) (\<lambda>_. ret (Some v)) (s\<lparr>h_heap := h\<rparr>))"

definition find_sata_controller :: "pci_device list \<Rightarrow> pci_device option" where
  "find_sata_controller ds = find (\<lambda>d. pci_class d = 0x01 \<and> sub_class d = 0x06) ds"

text \<open>The command register loses the start bits; the loop waits until the engine has stopped.\<close>

definition stop_port :: "'d io \<Rightarrow> nat \<Rightarrow> ('d, unit) dop" where
  "stop_port io pb = bnd (mmio_read io pb PxCMD) (\<lambda>cmd.
     bnd (mmio_write io pb PxCMD (cmd AND NOT (PxCMD_ST OR PxCMD_FRE))) (\<lambda>_.
     bnd (wait_for io AHCI_TIMEOUT (probe_reg io (pb + PxCMD) (\<lambda>v. of_nat v AND PxCMD_CR = 0))) (\<lambda>_. ret ())))"

definition arm_port :: "'d io \<Rightarrow> nat \<Rightarrow> nat \<Rightarrow> nat \<Rightarrow> ('d, unit) dop" where
  "arm_port io pb clb fb =
     bnd (virt_to_phys clb) (\<lambda>clb_phys. bnd (virt_to_phys fb) (\<lambda>fb_phys.
     bnd (mmio_write io pb PxCLB (of_nat clb_phys)) (\<lambda>_.
     bnd (mmio_write io pb (PxCLB + 4) (of_nat (clb_phys div 2 ^ 32))) (\<lambda>_.
     bnd (mmio_write io pb PxFB (of_nat fb_phys)) (\<lambda>_.
     bnd (mmio_write io pb (PxFB + 4) (of_nat (fb_phys div 2 ^ 32))) (\<lambda>_.
     bnd (mmio_write io pb PxIS 0xFFFFFFFF) (\<lambda>_. bnd (mmio_write io pb PxIE 0) (\<lambda>_.
     bnd (mmio_write io pb PxSERR 0xFFFFFFFF) (\<lambda>_.
     bnd (mmio_read io pb PxCMD) (\<lambda>cmd. let cmd' = cmd OR (PxCMD_FRE OR PxCMD_POD OR PxCMD_SUD) in
     bnd (mmio_write io pb PxCMD cmd') (\<lambda>_. mmio_write io pb PxCMD (cmd' OR PxCMD_ST))))))))))))"

text \<open>The link must be up and the signature that of a disk or an optical drive.\<close>

definition port_has_disk :: "'d io \<Rightarrow> nat \<Rightarrow> ('d, bool) dop" where
  "port_has_disk io pb = bnd (guard_panic (pb + PxSSTS < 2 ^ 64)) (\<lambda>_.
     bnd (wait_for io AHCI_TIMEOUT (probe_reg io (pb + PxSSTS) (\<lambda>v. of_nat v AND 0x0F = (3 :: u32)))) (\<lambda>_.
     bnd (mmio_read io pb PxSSTS) (\<lambda>ssts. if ssts AND 0x0F \<noteq> 3 then ret False
     else bnd (mmio_read io pb PxSIG) (\<lambda>sig. ret (sig = SIG_ATA \<or> sig = SIG_ATAPI)))))"

definition register_disk :: "nat \<Rightarrow> ata_entry \<Rightarrow> ('d, unit) hop" where
  "register_disk slot d = (\<lambda>s. case set_device slot (d\<lparr>dev_index := slot, via_ahci := True\<rparr>) (h_ata s) of
     None \<Rightarrow> (Panic, s)
   | Some t \<Rightarrow> (Ret (), s\<lparr>h_ata := t\<rparr>))"

definition add_port :: "'d dma io \<Rightarrow> ahci_port \<Rightarrow> ahci \<Rightarrow> ('d, ahci) hop" where
  "add_port io port a = bnd (guard_panic (disk_count a < length (ports a))) (\<lambda>_.
     bnd (on_bus (ahci_identify io port)) (\<lambda>d.
     if present d
     then bnd (register_disk (ATA_BASE_SLOT + disk_count a) d) (\<lambda>_.
       ret (a\<lparr>ports := (ports a)[disk_count a := port], disk_count := disk_count a + 1\<rparr>))
     else ret (a\<lparr>ports := (ports a)[disk_count a := port\<lparr>p_active := False\<rparr>]\<rparr>)))"

definition start_port :: "'d dma io \<Rightarrow> nat \<Rightarrow> ahci \<Rightarrow> ('d, ahci) hop" where
  "start_port io pb a =
     bnd (on_bus (stop_port io pb)) (\<lambda>_.
     bnd (alloc_dma 4096) (\<lambda>clb. bnd (alloc_dma 4096) (\<lambda>fb. bnd (alloc_dma 4096) (\<lambda>ct. bnd (alloc_dma 512) (\<lambda>buf.
     case (clb, fb, ct, buf) of
       (Some c, Some f, Some t, Some m) \<Rightarrow>
         bnd (on_bus (arm_port io pb c f)) (\<lambda>_. bnd (on_bus (port_has_disk io pb)) (\<lambda>ok.
         if ok then add_port io \<lparr>p_active = True, port_base = pb, clb_virt = c, ct_virt = t, dma_virt = m\<rparr> a else ret a))
     | _ \<Rightarrow> ret a)))))"

fun start_ports :: "'d dma io \<Rightarrow> u32 \<Rightarrow> nat list \<Rightarrow> ahci \<Rightarrow> ('d, ahci) hop" where
  "start_ports io pi [] a = ret a"
| "start_ports io pi (p # ps) a =
    (if \<not> bit pi p then start_ports io pi ps a
     else bnd (guard_panic (abar a + PORT_OFF + p * PORT_STRIDE < 2 ^ 64)) (\<lambda>_.
       bnd (start_port io (abar a + PORT_OFF + p * PORT_STRIDE) a) (start_ports io pi ps)))"

definition reset_hba :: "'d io \<Rightarrow> nat \<Rightarrow> ('d, bool) dop" where
  "reset_hba io base = bnd (mmio_write io base HBA_GHC GHC_HR) (\<lambda>_.
     wait_for io AHCI_TIMEOUT (probe_reg io (base + HBA_GHC) (\<lambda>v. of_nat v AND GHC_HR = 0)))"

definition enable_controller :: "'d io \<Rightarrow> config_space \<Rightarrow> pci_device \<Rightarrow> ('d, unit) dop" where
  "enable_controller io hw c = (let cmd = config_read_u16 hw (pci_bus c) (pci_dev c) (pci_func c) 0x04 in
     case config_write_u16 (pci_bus c) (pci_dev c) (pci_func c) 0x04 (cmd OR 0x06) of (a, v) \<Rightarrow>
       bnd (reg_write io 0xCF8 (unat a)) (\<lambda>_. reg_write io 0xCFC (unat v)))"

definition abar_of :: "config_space \<Rightarrow> pci_device \<Rightarrow> nat" where
  "abar_of hw c = (let low = config_read_u32 hw (pci_bus c) (pci_dev c) (pci_func c) 0x24;
     high = config_read_u32 hw (pci_bus c) (pci_dev c) (pci_func c) 0x28 in
     unat ((ucast low :: 64 word) AND 0xFFFFFFF0 OR push_bit 32 (ucast high)))"

text \<open>A controller without disks is forgotten.\<close>

definition publish :: "ahci \<Rightarrow> ('d, nat) hop" where
  "publish a = bnd (if 0 < disk_count a then modify (\<lambda>s. s\<lparr>h_ahci := Some a\<rparr>) else ret ()) (\<lambda>_. ret (disk_count a))"

definition ahci_init :: "'d dma io \<Rightarrow> config_space \<Rightarrow> pci_device list \<Rightarrow> ('d, nat) hop" where
  "ahci_init io hw pcis = (case find_sata_controller pcis of None \<Rightarrow> ret 0 | Some c \<Rightarrow>
    (if abar_of hw c = 0 then ret 0
     else bnd (on_bus (enable_controller io hw c)) (\<lambda>_.
     bnd (guard_panic (PMO + abar_of hw c < 2 ^ 64)) (\<lambda>_. let base = PMO + abar_of hw c in
     bnd (on_bus (reset_hba io base)) (\<lambda>ok. if \<not> ok then ret 0
     else bnd (on_bus (mmio_read io base HBA_GHC)) (\<lambda>ghc.
     bnd (on_bus (mmio_write io base HBA_GHC (ghc OR GHC_AE))) (\<lambda>_.
     bnd (on_bus (mmio_read io base HBA_PI)) (\<lambda>pi.
     bnd (on_bus (mmio_read io base HBA_CAP)) (\<lambda>cap.
     bnd (start_ports io pi [0..<min (unat (cap AND 0x1F) + 1) MAX_PORTS]
       \<lparr>abar = base, ports = replicate MAX_PORTS NO_PORT, disk_count = 0\<rparr>) publish)))))))))"

section \<open>Sectors\<close>

definition ahci_read_sector :: "'d dma io \<Rightarrow> nat \<Rightarrow> u32 \<Rightarrow> byte list \<Rightarrow> ('d, bool \<times> byte list) hop" where
  "ahci_read_sector io slot lba buf = bnd (gets h_ahci) (\<lambda>g. case Option.bind g (port_mut slot) of
     None \<Rightarrow> ret (False, buf)
   | Some port \<Rightarrow> bnd (on_bus (issue io port False CMD_READ_DMA_EXT (ucast lba) 1 511)) (\<lambda>ok.
       if \<not> ok then ret (False, buf) else bnd (on_bus (mem_get (dma_virt port) 512)) (\<lambda>bs. ret (True, bs))))"

definition ahci_write_sector :: "'d dma io \<Rightarrow> nat \<Rightarrow> u32 \<Rightarrow> byte list \<Rightarrow> ('d, bool) hop" where
  "ahci_write_sector io slot lba buf = bnd (gets h_ahci) (\<lambda>g. case Option.bind g (port_mut slot) of
     None \<Rightarrow> ret False
   | Some port \<Rightarrow> bnd (on_bus (mem_put (dma_virt port) buf)) (\<lambda>_.
       on_bus (issue io port True CMD_WRITE_DMA_EXT (ucast lba) 1 511)))"
section \<open>Every operation returns\<close>

text \<open>The timer interrupt keeps coming, whichever registers a wait loop reads.\<close>

definition hba_timer :: "'d io \<Rightarrow> bool" where
  "hba_timer io = (timer_runs io \<and> (\<forall>pb. advancing io (idle_probe io pb)))"

abbreviation late :: "'d io \<Rightarrow> 'd bus \<Rightarrow> bool" where
  "late io \<equiv> clock_at_end io AHCI_TIMEOUT"

lemma returns_waits:
  assumes "hba_timer io"
  shows "returns (late io) (wait_for io AHCI_TIMEOUT (probe_reg io p ok))"
    and "returns (late io) (wait_for io AHCI_TIMEOUT (idle_probe io pb))"
  using assms by (auto simp: hba_timer_def timer_runs_def intro!: returns_wait)

lemma returns_mmio: "base + off < 2 ^ 64 \<Longrightarrow> returns bad (mmio_read io base off)" "base + off < 2 ^ 64 \<Longrightarrow> returns bad (mmio_write io base off v)"
  unfolding mmio_read_def mmio_write_def by (intro returns_intros returns_guard; assumption)+

lemma returns_memory: "returns bad (mem_put a bs)" "returns bad (mem_get a n)"
  by (simp_all add: returns_def mem_put_def mem_get_def)

lemma returns_phys: "PMO \<le> v \<Longrightarrow> returns bad (virt_to_phys v)"
  by (simp add: returns_def virt_to_phys_def bnd_def)

definition port_ok :: "ahci_port \<Rightarrow> bool" where
  "port_ok port = (port_base port + 0x40 \<le> 2 ^ 64 \<and> PMO \<le> ct_virt port \<and> PMO \<le> dma_virt port)"

lemma returns_issue:
  assumes "hba_timer io" and "port_ok port"
  shows "returns (late io) (issue io port w cmd lba count dbc)"
proof -
  have p: "port_base port + PxTFD < 2 ^ 64" "port_base port + PxIS < 2 ^ 64" "port_base port + PxCI < 2 ^ 64"
    "PMO \<le> ct_virt port" "PMO \<le> dma_virt port"
    using assms(2) by (simp_all add: port_ok_def PxTFD_def PxIS_def PxCI_def)
  show ?thesis unfolding issue_def build_command_def start_command_def Let_def
    by (intro returns_intros returns_waits [OF assms(1)] returns_mmio returns_memory returns_phys p)
qed

lemma returns_ahci_identify: "hba_timer io \<Longrightarrow> port_ok port \<Longrightarrow> returns (late io) (ahci_identify io port)"
  unfolding ahci_identify_def by (intro returns_intros returns_issue returns_memory)

lemma returns_port_start:
  assumes "hba_timer io" and "pb + 0x40 \<le> 2 ^ 64" and "PMO \<le> clb" and "PMO \<le> fb"
  shows "returns (late io) (stop_port io pb)" and "returns (late io) (arm_port io pb clb fb)" and "returns (late io) (port_has_disk io pb)"
proof -
  have p: "pb + PxCMD < 2 ^ 64" "pb + PxCLB < 2 ^ 64" "pb + (PxCLB + 4) < 2 ^ 64" "pb + PxFB < 2 ^ 64" "pb + (PxFB + 4) < 2 ^ 64"
    "pb + PxIS < 2 ^ 64" "pb + PxIE < 2 ^ 64" "pb + PxSERR < 2 ^ 64" "pb + PxSSTS < 2 ^ 64" "pb + PxSIG < 2 ^ 64"
    using assms(2) by (simp_all add: PxCMD_def PxCLB_def PxFB_def PxIS_def PxIE_def PxSERR_def PxSSTS_def PxSIG_def)
  show "returns (late io) (stop_port io pb)" "returns (late io) (arm_port io pb clb fb)" "returns (late io) (port_has_disk io pb)"
    unfolding stop_port_def arm_port_def port_has_disk_def Let_def
    by (intro returns_intros returns_waits [OF assms(1)] returns_mmio returns_phys returns_guard assms(3,4) p)+
qed

text \<open>
  What the driver relies on: a sound heap above \<open>PMO\<close>, a device table with its eight places, and
  ports that start-up has set up.  An operation that serves keeps it, and returns or is late.
\<close>

definition driver_ok :: "nat \<Rightarrow> nat \<Rightarrow> 'd hba_sys \<Rightarrow> bool" where
  "driver_ok lo hi s = (PMO \<le> lo \<and> (\<exists>L. heap_valid lo hi (h_heap s) L) \<and> 8 \<le> length (devices (h_ata s)) \<and>
     (\<forall>a. h_ahci s = Some a \<longrightarrow> length (ports a) = 4 \<and> (\<forall>p \<in> set (ports a). p_active p \<longrightarrow> port_ok p)))"

definition serves :: "nat \<Rightarrow> nat \<Rightarrow> 'd dma io \<Rightarrow> ('d, 'a) hop \<Rightarrow> ('a \<Rightarrow> bool) \<Rightarrow> bool" where
  "serves lo hi io m Q = (\<forall>s. driver_ok lo hi s \<longrightarrow>
     (\<exists>a s'. m s = (Ret a, s') \<and> driver_ok lo hi s' \<and> Q a) \<or> (\<exists>s'. m s = (Panic, s') \<and> late io (h_bus s')))"

lemma serves_ret: "Q a \<Longrightarrow> serves lo hi io (ret a) Q"
  by (simp add: serves_def)

lemma serves_bnd:
  assumes "serves lo hi io m P" and "\<And>a. P a \<Longrightarrow> serves lo hi io (f a) Q"
  shows "serves lo hi io (bnd m f) Q"
  unfolding serves_def
proof (intro allI impI)
  fix s :: "'a hba_sys" assume "driver_ok lo hi s"
  then consider a s1 where "m s = (Ret a, s1)" "driver_ok lo hi s1" "P a" | s1 where "m s = (Panic, s1)" "late io (h_bus s1)"
    using assms(1) unfolding serves_def by blast
  then show "(\<exists>a s'. bnd m f s = (Ret a, s') \<and> driver_ok lo hi s' \<and> Q a) \<or> (\<exists>s'. bnd m f s = (Panic, s') \<and> late io (h_bus s'))"
  proof cases
    case 1
    then show ?thesis using assms(2) [OF 1(3)] unfolding serves_def by (simp add: bnd_def)
  next
    case 2
    then show ?thesis by (simp add: bnd_def)
  qed
qed

lemma serves_if: "(c \<Longrightarrow> serves lo hi io m Q) \<Longrightarrow> (\<not> c \<Longrightarrow> serves lo hi io m' Q) \<Longrightarrow> serves lo hi io (if c then m else m') Q"
  by simp

lemma serves_guard: "c \<Longrightarrow> serves lo hi io (guard_panic c) (\<lambda>_. True)"
  by (simp add: serves_def)

lemma serves_on_bus:
  assumes "returns (late io) m"
  shows "serves lo hi io (on_bus m) (\<lambda>_. True)"
  unfolding serves_def
proof (intro allI impI)
  fix s :: "'a hba_sys" assume ok: "driver_ok lo hi s"
  have "driver_ok lo hi (s\<lparr>h_bus := b\<rparr>)" for b using ok by (simp add: driver_ok_def)
  then show "(\<exists>a s'. on_bus m s = (Ret a, s') \<and> driver_ok lo hi s' \<and> True) \<or> (\<exists>s'. on_bus m s = (Panic, s') \<and> late io (h_bus s'))"
    using assms [unfolded returns_def, rule_format, of "h_bus s"] by (auto simp: on_bus_def)
qed

lemma serves_alloc:
  assumes "n < 2 ^ 63"
  shows "serves lo hi io (alloc_dma n) (\<lambda>r. \<forall>v. r = Some v \<longrightarrow> PMO \<le> v)"
  unfolding serves_def
proof (intro allI impI disjI1)
  fix s :: "'a hba_sys" assume ok: "driver_ok lo hi s"
  then obtain L where v: "heap_valid lo hi (h_heap s) L" by (auto simp: driver_ok_def)
  obtain p h' where a: "alloc_locked (h_heap s) n 4096 = Some (p, h')" "p = 0 \<and> h' = h_heap s \<or> p \<noteq> 0 \<and> heap_valid lo hi h' ((p, n, 4096) # L)"
    using kheap.alloc_total [OF v good_requests(2) [OF assms]] by blast
  show "\<exists>a s'. alloc_dma n s = (Ret a, s') \<and> driver_ok lo hi s' \<and> (\<forall>v. a = Some v \<longrightarrow> PMO \<le> v)"
  proof (cases p)
    case 0
    then show ?thesis using a ok by (simp add: alloc_dma_def)
  next
    case (Suc k)
    then have h: "heap_valid lo hi h' ((p, n, 4096) # L)" using a(2) by simp
    have "lo < p" using heap_valid_arena [OF h] by auto
    then have "PMO \<le> p" using ok by (simp add: driver_ok_def)
    then show ?thesis using a(1) Suc h ok
      by (auto simp: alloc_dma_def bnd_def on_bus_def mem_put_def driver_ok_def)
  qed
qed

lemma serves_register:
  assumes "slot < 8"
  shows "serves lo hi io (register_disk slot d) (\<lambda>_. True)"
  using assms by (auto simp: serves_def register_disk_def set_device_def driver_ok_def)

text \<open>The ports that start-up collects.\<close>

definition ports_ok :: "ahci \<Rightarrow> bool" where
  "ports_ok a = (length (ports a) = 4 \<and> (\<forall>p \<in> set (ports a). p_active p \<longrightarrow> port_ok p))"

lemma ports_ok_put: "ports_ok a \<Longrightarrow> (p_active p \<longrightarrow> port_ok p) \<Longrightarrow> ports_ok (a\<lparr>ports := (ports a)[i := p]\<rparr>)"
  by (auto simp: ports_ok_def dest!: set_update_subset_insert [THEN subsetD])

lemma ports_ok_count: "ports_ok (a\<lparr>disk_count := n\<rparr>) = ports_ok a"
  by (simp add: ports_ok_def)

lemma serves_add_port:
  assumes "hba_timer io" and "port_ok port" and "ports_ok a" and "disk_count a < 4"
  shows "serves lo hi io (add_port io port a) (\<lambda>a'. ports_ok a' \<and> abar a' = abar a \<and> disk_count a' \<le> disk_count a + 1)"
  unfolding add_port_def
proof (intro serves_bnd [OF serves_guard] serves_bnd [OF serves_on_bus [OF returns_ahci_identify [OF assms(1,2)]]] serves_if)
  show "disk_count a < length (ports a)" using assms(3,4) by (simp add: ports_ok_def)
  show "serves lo hi io (ret (a\<lparr>ports := (ports a)[disk_count a := port\<lparr>p_active := False\<rparr>]\<rparr>))
      (\<lambda>a'. ports_ok a' \<and> abar a' = abar a \<and> disk_count a' \<le> disk_count a + 1)"
    using ports_ok_put [OF assms(3), of "port\<lparr>p_active := False\<rparr>" "disk_count a"] by (intro serves_ret) simp
  show "serves lo hi io (bnd (register_disk (ATA_BASE_SLOT + disk_count a) d)
      (\<lambda>_. ret (a\<lparr>ports := (ports a)[disk_count a := port], disk_count := disk_count a + 1\<rparr>)))
      (\<lambda>a'. ports_ok a' \<and> abar a' = abar a \<and> disk_count a' \<le> disk_count a + 1)" for d
    using ports_ok_put [OF assms(3), of port "disk_count a"] assms(2,4)
    by (intro serves_bnd [OF serves_register] serves_ret) (simp_all add: ATA_BASE_SLOT_def ports_ok_def)
qed

lemma serves_start_port:
  assumes "hba_timer io" and "pb + 0x40 \<le> 2 ^ 64" and "ports_ok a" and "disk_count a < 4"
  shows "serves lo hi io (start_port io pb a) (\<lambda>a'. ports_ok a' \<and> abar a' = abar a \<and> disk_count a' \<le> disk_count a + 1)"
  unfolding start_port_def
proof (intro serves_bnd [OF serves_on_bus [OF returns_port_start(1) [OF assms(1,2) order_refl order_refl]]] serves_bnd [OF serves_alloc])
  fix clb fb ct buf :: "nat option"
  assume v: "\<forall>v. clb = Some v \<longrightarrow> PMO \<le> v" "\<forall>v. fb = Some v \<longrightarrow> PMO \<le> v" "\<forall>v. ct = Some v \<longrightarrow> PMO \<le> v" "\<forall>v. buf = Some v \<longrightarrow> PMO \<le> v"
  have r: "serves lo hi io (ret a) (\<lambda>a'. ports_ok a' \<and> abar a' = abar a \<and> disk_count a' \<le> disk_count a + 1)"
    using assms(3) by (intro serves_ret) simp
  have s: "serves lo hi io (bnd (on_bus (arm_port io pb c f)) (\<lambda>_. bnd (on_bus (port_has_disk io pb)) (\<lambda>ok.
      if ok then add_port io \<lparr>p_active = True, port_base = pb, clb_virt = c, ct_virt = t, dma_virt = m\<rparr> a else ret a)))
      (\<lambda>a'. ports_ok a' \<and> abar a' = abar a \<and> disk_count a' \<le> disk_count a + 1)"
    if "PMO \<le> c" "PMO \<le> f" "PMO \<le> t" "PMO \<le> m" for c f t m
    using that assms(2)
    by (intro serves_bnd [OF serves_on_bus [OF returns_port_start(2)]] serves_bnd [OF serves_on_bus [OF returns_port_start(3) [OF _ _ order_refl order_refl]]]
        serves_if r serves_add_port assms) (simp_all add: port_ok_def)
  show "serves lo hi io (case (clb, fb, ct, buf) of
       (Some c, Some f, Some t, Some m) \<Rightarrow>
         bnd (on_bus (arm_port io pb c f)) (\<lambda>_. bnd (on_bus (port_has_disk io pb)) (\<lambda>ok.
         if ok then add_port io \<lparr>p_active = True, port_base = pb, clb_virt = c, ct_virt = t, dma_virt = m\<rparr> a else ret a))
     | _ \<Rightarrow> ret a) (\<lambda>a'. ports_ok a' \<and> abar a' = abar a \<and> disk_count a' \<le> disk_count a + 1)"
    using v s r by (auto split: option.split)
qed simp_all

lemma serves_start_ports:
  assumes "hba_timer io" and "base + 0x300 \<le> 2 ^ 64"
  shows "\<forall>p \<in> set ps. p < 4 \<Longrightarrow> ports_ok a \<Longrightarrow> abar a = base \<Longrightarrow> disk_count a + length ps \<le> 4 \<Longrightarrow>
    serves lo hi io (start_ports io pi ps a) ports_ok"
proof (induction ps arbitrary: a)
  case Nil
  then show ?case by (simp only: start_ports.simps serves_ret)
next
  case (Cons p ps)
  have pb: "abar a + PORT_OFF + p * PORT_STRIDE + 0x40 \<le> 2 ^ 64"
    using Cons.prems(1,3) assms(2) by (simp add: PORT_OFF_def PORT_STRIDE_def)
  show ?case unfolding start_ports.simps
  proof (intro serves_if serves_bnd [OF serves_guard])
    show "serves lo hi io (start_ports io pi ps a) ports_ok" using Cons by simp
    show "abar a + PORT_OFF + p * PORT_STRIDE < 2 ^ 64" using pb by simp
    show "serves lo hi io (bnd (start_port io (abar a + PORT_OFF + p * PORT_STRIDE) a) (start_ports io pi ps)) ports_ok"
      by (rule serves_bnd [OF serves_start_port [OF assms(1) pb]]) (use Cons in simp_all)
  qed
qed

lemma serves_publish: "ports_ok a \<Longrightarrow> serves lo hi io (publish a) (\<lambda>_. True)"
  by (auto simp: serves_def publish_def bnd_def driver_ok_def ports_ok_def)

lemma serves_init:
  assumes t: "hba_timer io" and bar: "\<And>c. find_sata_controller pcis = Some c \<Longrightarrow> PMO + abar_of hw c + 0x300 \<le> 2 ^ 64"
  shows "serves lo hi io (ahci_init io hw pcis) (\<lambda>_. True)"
proof (cases "find_sata_controller pcis")
  case None
  then show ?thesis by (simp add: ahci_init_def serves_ret)
next
  case (Some c)
  let ?b = "PMO + abar_of hw c"
  have b: "?b + 0x300 \<le> 2 ^ 64" by (rule bar [OF Some])
  then have o: "?b < 2 ^ 64" "?b + HBA_GHC < 2 ^ 64" "?b + HBA_PI < 2 ^ 64" "?b + HBA_CAP < 2 ^ 64"
    by (simp_all add: HBA_GHC_def HBA_PI_def HBA_CAP_def)
  have e: "returns (late io) (enable_controller io hw c)"
    unfolding enable_controller_def Let_def config_write_u16_def prod.case by (intro returns_intros)
  have r: "returns (late io) (reset_hba io ?b)"
    unfolding reset_hba_def by (intro returns_intros returns_mmio returns_waits [OF t] o)
  have p: "ports_ok \<lparr>abar = ?b, ports = replicate MAX_PORTS NO_PORT, disk_count = 0\<rparr>"
    by (simp add: ports_ok_def MAX_PORTS_def NO_PORT_def)
  have s: "serves lo hi io (start_ports io pi [0..<min n MAX_PORTS] \<lparr>abar = ?b, ports = replicate MAX_PORTS NO_PORT, disk_count = 0\<rparr>) ports_ok"
    for pi n by (rule serves_start_ports [OF t b _ p]) (simp_all add: MAX_PORTS_def)
  show ?thesis unfolding ahci_init_def Some option.case Let_def
    by (intro serves_if serves_ret serves_bnd [OF serves_on_bus [OF e]] serves_bnd [OF serves_guard [OF o(1)]] serves_bnd [OF serves_on_bus [OF r]]
        serves_bnd [OF serves_on_bus [OF returns_mmio(1)]] serves_bnd [OF serves_on_bus [OF returns_mmio(2)]] o(2-4)
        serves_bnd [OF s] serves_publish TrueI)
qed

lemma serves_sectors:
  assumes "hba_timer io"
  shows "serves lo hi io (ahci_read_sector io slot lba buf) (\<lambda>_. True)" and "serves lo hi io (ahci_write_sector io slot lba buf) (\<lambda>_. True)"
proof -
  have g: "serves lo hi io (gets h_ahci) (\<lambda>g. \<forall>p. Option.bind g (port_mut slot) = Some p \<longrightarrow> port_ok p)"
    by (auto simp: serves_def driver_ok_def port_mut_def ATA_BASE_SLOT_def MAX_PORTS_def bind_eq_Some_conv split: if_splits)
  have o: "serves lo hi io (case v of None \<Rightarrow> m | Some p \<Rightarrow> f p) (\<lambda>_. True)"
    if "serves lo hi io m (\<lambda>_. True)" "\<And>p. v = Some p \<Longrightarrow> serves lo hi io (f p) (\<lambda>_. True)" for v :: "ahci_port option" and m :: "('a, 'z) hop" and f
    using that by (cases v) simp_all
  show "serves lo hi io (ahci_read_sector io slot lba buf) (\<lambda>_. True)"
    unfolding ahci_read_sector_def
    by (rule serves_bnd [OF g], rule o, rule serves_ret, simp)
      (intro serves_bnd [OF serves_on_bus] returns_issue [OF assms] serves_if serves_ret returns_memory TrueI; blast)
  show "serves lo hi io (ahci_write_sector io slot lba buf) (\<lambda>_. True)"
    unfolding ahci_write_sector_def
    by (rule serves_bnd [OF g], rule o, rule serves_ret, simp)
      (intro serves_bnd [OF serves_on_bus] returns_memory serves_on_bus returns_issue [OF assms]; blast)
qed

text \<open>C37: every operation of the AHCI driver returns, whatever the controller does: start-up with all its
  ports, reading and writing, each leaving the driver fit for the next.  The timer interrupt
  must keep coming, the heap be sound and lie in the window, and the registers of the
  controller lie within the address space; the one panic left is that of a deadline beyond the
  range of the tick counter.
\<close>

theorem ahci_operations_return:
  assumes "hba_timer io" and "driver_ok lo hi s"
    and "\<forall>c. find_sata_controller pcis = Some c \<longrightarrow> PMO + abar_of hw c + 0x300 \<le> 2 ^ 64"
  shows "((\<exists>n s'. ahci_init io hw pcis s = (Ret n, s') \<and> driver_ok lo hi s') \<or>
      (\<exists>s'. ahci_init io hw pcis s = (Panic, s') \<and> 2 ^ 64 \<le> clock io (dv (h_bus s')) + 40)) \<and>
    ((\<exists>r s'. ahci_read_sector io slot lba buf s = (Ret r, s') \<and> driver_ok lo hi s') \<or>
      (\<exists>s'. ahci_read_sector io slot lba buf s = (Panic, s') \<and> 2 ^ 64 \<le> clock io (dv (h_bus s')) + 40)) \<and>
    ((\<exists>r s'. ahci_write_sector io slot lba buf s = (Ret r, s') \<and> driver_ok lo hi s') \<or>
      (\<exists>s'. ahci_write_sector io slot lba buf s = (Panic, s') \<and> 2 ^ 64 \<le> clock io (dv (h_bus s')) + 40))"
proof -
  have "serves lo hi io (ahci_init io hw pcis) (\<lambda>_. True)" using assms(3) by (intro serves_init [OF assms(1)]) blast
  then show ?thesis using serves_sectors [OF assms(1)] assms(2)
    unfolding serves_def clock_at_end_def AHCI_TIMEOUT_def by blast
qed

section \<open>What the controller finds in memory\<close>

text \<open>
  The layout that the controller follows (AHCI 1.3): the command header in the first slot of
  the list names the table, the table begins with the frame of the command, and at its byte
  128 stands the region of the data: address in the first two double words, length less one in
  the fourth.
\<close>

record hba_command =
  c_write :: bool
  c_fis_len :: nat
  c_regions :: nat
  c_fis_type :: byte
  c_opcode :: byte
  c_lba :: nat
  c_count :: nat
  c_buffer :: nat
  c_bytes :: nat

definition fetch_command :: "(nat \<Rightarrow> byte) \<Rightarrow> nat \<Rightarrow> hba_command" where
  "fetch_command m clb = (let h = get_bytes clb 32 m; ct = rd 8 h 8 + PMO; f = get_bytes ct 20 m; r = get_bytes (ct + 128) 16 m in
     \<lparr>c_write = odd (rd 4 h 0 div 64), c_fis_len = 4 * (rd 4 h 0 mod 32), c_regions = rd 4 h 0 div 2 ^ 16,
      c_fis_type = f ! 0, c_opcode = f ! 2, c_lba = le_dec [f ! 4, f ! 5, f ! 6, f ! 8, f ! 9, f ! 10],
      c_count = le_dec [f ! 12, f ! 13], c_buffer = rd 8 r 0 + PMO, c_bytes = rd 4 r 12 mod 2 ^ 22 + 1\<rparr>)"

lemma low_byte: "(ucast (x AND 0xFF :: 'a :: len word) :: byte) = ucast x"
proof -
  have m: "(0xFF :: 'a word) = mask 8" by (simp add: mask_eq_exp_minus_1)
  show ?thesis unfolding m by (rule bit_word_eqI) (auto simp: bit_ucast_iff bit_and_iff bit_mask_iff dest: bit_imp_le_length)
qed

lemma dma_byte_at: "(ucast (drop_bit k x AND 0xFF) :: byte) = of_nat (unat (x :: 'a :: len word) div 2 ^ k)"
  unfolding low_byte word_unat_eq_iff unat_byte_of unat_of_nat by simp

lemma byte_low: "(ucast (x AND 0xFF) :: byte) = of_nat (unat (x :: 'a :: len word))"
  using dma_byte_at [of 0 x] by simp

lemma le_dec_six: "le_dec [of_nat n, of_nat (n div 2 ^ 8), of_nat (n div 2 ^ 16), of_nat (n div 2 ^ 24), of_nat (n div 2 ^ 32),
    of_nat (n div 2 ^ 40)] = n mod 2 ^ 48"
proof -
  have "le_enc 6 n = [of_nat n, of_nat (n div 2 ^ 8), of_nat (n div 2 ^ 16), of_nat (n div 2 ^ 24), of_nat (n div 2 ^ 32),
    of_nat (n div 2 ^ 40)]"
    by (simp add: le_enc_numeral div_mult2_eq [symmetric])
  then show ?thesis using le_dec_enc [of 6 n] by simp
qed

lemma le_dec_two: "le_dec [of_nat n, of_nat (n div 2 ^ 8)] = n mod 2 ^ 16"
proof -
  have "le_enc 2 n = [of_nat n, of_nat (n div 2 ^ 8)]" by (simp add: le_enc_numeral)
  then show ?thesis using le_dec_enc [of 2 n] by simp
qed

lemma frame_nth:
  "[a0, a1, a2, a3, a4, a5, a6, a7, a8, a9, a10, a11, a12, a13] ! 0 = a0"
  "[a0, a1, a2, a3, a4, a5, a6, a7, a8, a9, a10, a11, a12, a13] ! 2 = a2"
  "[a0, a1, a2, a3, a4, a5, a6, a7, a8, a9, a10, a11, a12, a13] ! 4 = a4"
  "[a0, a1, a2, a3, a4, a5, a6, a7, a8, a9, a10, a11, a12, a13] ! 5 = a5"
  "[a0, a1, a2, a3, a4, a5, a6, a7, a8, a9, a10, a11, a12, a13] ! 6 = a6"
  "[a0, a1, a2, a3, a4, a5, a6, a7, a8, a9, a10, a11, a12, a13] ! 8 = a8"
  "[a0, a1, a2, a3, a4, a5, a6, a7, a8, a9, a10, a11, a12, a13] ! 9 = a9"
  "[a0, a1, a2, a3, a4, a5, a6, a7, a8, a9, a10, a11, a12, a13] ! 10 = a10"
  "[a0, a1, a2, a3, a4, a5, a6, a7, a8, a9, a10, a11, a12, a13] ! 12 = a12"
  "[a0, a1, a2, a3, a4, a5, a6, a7, a8, a9, a10, a11, a12, a13] ! 13 = a13"
  by simp_all

lemma fis_parts:
  "le_dec [fis_bytes cmd lba count ! 4, fis_bytes cmd lba count ! 5, fis_bytes cmd lba count ! 6, fis_bytes cmd lba count ! 8,
     fis_bytes cmd lba count ! 9, fis_bytes cmd lba count ! 10] = unat lba mod 2 ^ 48"
  "le_dec [fis_bytes cmd lba count ! 12, fis_bytes cmd lba count ! 13] = unat count"
proof -
  have "unat count < 2 ^ LENGTH(16)" by (rule unsigned_less)
  then have c: "unat count mod 2 ^ 16 = unat count" by simp
  show "le_dec [fis_bytes cmd lba count ! 4, fis_bytes cmd lba count ! 5, fis_bytes cmd lba count ! 6, fis_bytes cmd lba count ! 8,
     fis_bytes cmd lba count ! 9, fis_bytes cmd lba count ! 10] = unat lba mod 2 ^ 48"
    unfolding le_dec_six [symmetric] by (simp only: fis_bytes_def dma_byte_at byte_low [of lba] byte_low [of count] frame_nth)
  have "le_dec [fis_bytes cmd lba count ! 12, fis_bytes cmd lba count ! 13] = unat count mod 2 ^ 16"
    unfolding le_dec_two [symmetric] by (simp only: fis_bytes_def dma_byte_at byte_low [of lba] byte_low [of count] frame_nth)
  then show "le_dec [fis_bytes cmd lba count ! 12, fis_bytes cmd lba count ! 13] = unat count" unfolding c .
qed
lemma header_word: "unat ((push_bit 16 1 :: u32) OR (if w then push_bit 6 1 else 0) OR 5) = (if w then 0x10045 else 0x10005)"
  by simp

lemma rd_enc: "n \<le> k \<Longrightarrow> rd n (le_enc n v @ bs) 0 = v mod 256 ^ n"
  by (simp add: rd_def sub_def le_dec_enc)

lemma rd_skip: "length as = k \<Longrightarrow> rd n (as @ bs) k = rd n bs 0"
  by (simp add: rd_def sub_def)

lemma le_dec_append: "le_dec (as @ bs) = le_dec as + 256 ^ length as * le_dec bs"
  by (induction as) (simp_all add: algebra_simps)

lemma rd8_halves: "a < 2 ^ 64 \<Longrightarrow> rd 8 (le_enc 4 a @ le_enc 4 (a div 2 ^ 32) @ bs) 0 = a"
proof -
  assume a: "a < 2 ^ 64"
  have "rd 8 (le_enc 4 a @ le_enc 4 (a div 2 ^ 32) @ bs) 0 = le_dec (le_enc 4 a @ le_enc 4 (a div 2 ^ 32))"
    by (simp add: rd_def sub_def)
  also have "\<dots> = a mod 256 ^ 4 + 256 ^ 4 * (a div 2 ^ 32 mod 256 ^ 4)"
    unfolding le_dec_append le_dec_enc by simp
  also have "a div 2 ^ 32 mod 256 ^ 4 = a div 2 ^ 32" using a by (simp add: div_less_iff_less_mult)
  finally show ?thesis by simp
qed

lemma header_reads:
  assumes "ct < 2 ^ 64"
  shows "rd 8 (header_bytes w ct) 8 = ct" and "rd 4 (header_bytes w ct) 0 = (if w then 0x10045 else 0x10005)"
proof -
  let ?w = "if w then 0x10045 else 0x10005"
  have h: "header_bytes w ct = (le_enc 4 ?w @ le_enc 4 0) @ (le_enc 4 ct @ le_enc 4 (ct div 2 ^ 32) @
      le_enc 4 0 @ le_enc 4 0 @ le_enc 4 0 @ le_enc 4 0)"
    unfolding header_bytes_def header_word by simp
  show "rd 8 (header_bytes w ct) 8 = ct"
    unfolding h by (subst rd_skip) (simp, rule rd8_halves [OF assms])
  show "rd 4 (header_bytes w ct) 0 = (if w then 0x10045 else 0x10005)"
    unfolding h append_assoc by (subst rd_enc [OF order_refl]) simp
qed

lemma prd_reads:
  assumes "dba < 2 ^ 64"
  shows "rd 8 (prd_bytes dba dbc) 0 = dba" and "rd 4 (prd_bytes dba dbc) 12 = 0"
proof -
  show "rd 8 (prd_bytes dba dbc) 0 = dba"
    unfolding prd_bytes_def by (rule rd8_halves [OF assms])
  have "prd_bytes dba dbc = (le_enc 4 dba @ le_enc 4 (dba div 2 ^ 32) @ le_enc 4 dbc) @ le_enc 4 0 @ []"
    by (simp add: prd_bytes_def)
  then show "rd 4 (prd_bytes dba dbc) 12 = 0"
    using rd_skip [of "le_enc 4 dba @ le_enc 4 (dba div 2 ^ 32) @ le_enc 4 dbc" 12 4 "le_enc 4 0 @ []"] rd_enc [of 4 4 0 "[]"] by simp
qed

lemma build_command_run:
  assumes "build_command port w cmd lba count dbc b = (Ret (), b1)"
  shows "PMO \<le> dma_virt port \<and> PMO \<le> ct_virt port \<and> b1 = b\<lparr>dv := (dv b)\<lparr>d_mem :=
    put_bytes (clb_virt port) (header_bytes w (ct_virt port - PMO))
      (put_bytes (ct_virt port + 128) (prd_bytes (dma_virt port - PMO) dbc)
      (put_bytes (ct_virt port) (fis_bytes cmd lba count @ replicate 114 0) (d_mem (dv b))))\<rparr>\<rparr>"
  using assms by (auto simp: build_command_def mem_put_def virt_to_phys_def bnd_def split: if_splits)

lemma lengths [simp]: "length (header_bytes w ct) = 32" "length (prd_bytes dba dbc) = 16" "length (fis_bytes cmd lba count) = 14"
  by (simp_all add: header_bytes_def prd_bytes_def fis_bytes_def)

definition port_blocks :: "ahci_port \<Rightarrow> bool" where
  "port_blocks port = ((clb_virt port + 32 \<le> ct_virt port \<or> ct_virt port + 144 \<le> clb_virt port) \<and>
     ct_virt port < 2 ^ 64 \<and> dma_virt port < 2 ^ 64)"

lemma command_fetched:
  assumes "build_command port w cmd lba count dbc b = (Ret (), b1)" and "port_blocks port"
  shows "fetch_command (d_mem (dv b1)) (clb_virt port) =
    \<lparr>c_write = w, c_fis_len = 20, c_regions = 1, c_fis_type = 0x27, c_opcode = cmd, c_lba = unat lba mod 2 ^ 48,
     c_count = unat count, c_buffer = dma_virt port, c_bytes = 1\<rparr>"
proof -
  let ?m0 = "put_bytes (ct_virt port) (fis_bytes cmd lba count @ replicate 114 0) (d_mem (dv b))"
  let ?m1 = "put_bytes (ct_virt port + 128) (prd_bytes (dma_virt port - PMO) dbc) ?m0"
  have b1: "PMO \<le> dma_virt port" "PMO \<le> ct_virt port"
    "d_mem (dv b1) = put_bytes (clb_virt port) (header_bytes w (ct_virt port - PMO)) ?m1"
    using build_command_run [OF assms(1)] by simp_all
  have blocks: "clb_virt port + 32 \<le> ct_virt port \<or> ct_virt port + 144 \<le> clb_virt port"
    "ct_virt port - PMO < 2 ^ 64" "dma_virt port - PMO < 2 ^ 64"
    using assms(2) b1(1,2) by (auto simp: port_blocks_def)
  have h: "get_bytes (clb_virt port) 32 (d_mem (dv b1)) = header_bytes w (ct_virt port - PMO)"
    unfolding b1(3) by (subst get_put_bytes) (simp_all add: sub_def)
  have f: "get_bytes (ct_virt port) 20 (d_mem (dv b1)) = fis_bytes cmd lba count @ replicate 6 0"
    unfolding b1(3) using blocks by (subst get_put_bytes_other, simp, linarith, subst get_put_bytes_other, simp, subst get_put_bytes)
      (simp_all add: sub_def)
  have r: "get_bytes (ct_virt port + 128) 16 (d_mem (dv b1)) = prd_bytes (dma_virt port - PMO) dbc"
    unfolding b1(3) using blocks by (subst get_put_bytes_other, simp, linarith, subst get_put_bytes) (simp_all add: sub_def)
  have ct: "ct_virt port - PMO + PMO = ct_virt port" "dma_virt port - PMO + PMO = dma_virt port" using b1 by simp_all
  have n: "(fis_bytes cmd lba count @ replicate 6 0) ! i = fis_bytes cmd lba count ! i" if "i < 14" for i
    using that by (simp add: nth_append)
  have v: "fis_bytes cmd lba count ! 0 = 0x27" "fis_bytes cmd lba count ! 2 = cmd"
    by (simp_all only: fis_bytes_def frame_nth)
  show ?thesis
    unfolding fetch_command_def Let_def h header_reads [OF blocks(2)] ct f r prd_reads [OF blocks(3)]
    by (simp add: n v fis_parts del: le_dec.simps)
qed
lemma mmio_write_run:
  "mmio_write io a off v b = (if a + off < 2 ^ 64
     then (Ret (), b\<lparr>dv := reg_out io (a + off) (unat v) (dv b), sent := sent b @ [(a + off, unat v)]\<rparr>) else (Panic, b))"
  by (simp add: mmio_write_def reg_write_def bnd_def)

lemma mmio_read_sends: "mmio_read io a off b = (r, b') \<Longrightarrow> sent b' = sent b"
  by (auto simp: mmio_read_def reg_read_def bnd_def split: prod.splits if_splits)

lemma start_command_sends:
  assumes "start_command io pb b = (Ret r, b')"
  shows "sent b' = sent b @ [(pb + PxIS, 0xFFFFFFFF), (pb + PxCI, 1)]"
  using assms unfolding start_command_def
  by (auto elim!: bnd_RetE simp: mmio_write_run split: if_splits dest!: wait_for_trace mmio_read_sends)

text \<open>C35: a disk command that succeeds was started (the writes to \<open>PxIS\<close> and \<open>PxCI\<close>) at a moment when the
  controller, following header, table and frame in memory, found in slot 0 exactly the request:
  direction, operation, the 48-bit sector number, the count and the buffer of the port; the
  byte count it found was 1, not the 512 of a sector, whatever the driver asked for.
\<close>

theorem command_names_request:
  assumes "issue io port w cmd lba count dbc b = (Ret True, b')" and "port_blocks port"
  shows "\<exists>b1. start_command io (port_base port) b1 = (Ret True, b') \<and>
    sent b' = sent b @ [(port_base port + PxIS, 0xFFFFFFFF), (port_base port + PxCI, 1)] \<and>
    fetch_command (d_mem (dv b1)) (clb_virt port) =
      \<lparr>c_write = w, c_fis_len = 20, c_regions = 1, c_fis_type = 0x27, c_opcode = cmd, c_lba = unat lba mod 2 ^ 48,
       c_count = unat count, c_buffer = dma_virt port, c_bytes = 1\<rparr>"
proof -
  let ?pb = "port_base port"
  obtain idle b0 where i: "wait_for io AHCI_TIMEOUT (idle_probe io ?pb) b = (Ret idle, b0)"
    "(if \<not> idle then bnd (mmio_read io ?pb PxTFD) (\<lambda>_. ret False)
      else bnd (build_command port w cmd lba count dbc) (\<lambda>_. start_command io ?pb)) b0 = (Ret True, b')"
    using assms(1) unfolding issue_def Let_def by (rule bnd_RetE)
  then have "idle" by (auto elim!: bnd_RetE split: if_splits)
  then have "bnd (build_command port w cmd lba count dbc) (\<lambda>_. start_command io ?pb) b0 = (Ret True, b')" using i(2) by simp
  then obtain b1 where b: "build_command port w cmd lba count dbc b0 = (Ret (), b1)" "start_command io ?pb b1 = (Ret True, b')"
    by (auto elim!: bnd_RetE)
  have "sent b1 = sent b0" using build_command_run [OF b(1)] by simp
  moreover have "sent b0 = sent b" using wait_for_trace [OF i(1)] by blast
  ultimately show ?thesis using start_command_sends [OF b(2)] b(2) command_fetched [OF b(1) assms(2)] by auto
qed

section \<open>The disks that start-up registers\<close>

definition keeps :: "('d, 'a) hop \<Rightarrow> bool" where
  "keeps m = (\<forall>s r s'. m s = (r, s') \<longrightarrow> h_ata s' = h_ata s \<and> h_ahci s' = h_ahci s)"

lemma keepsD: "keeps m \<Longrightarrow> m s = (r, s') \<Longrightarrow> h_ata s' = h_ata s \<and> h_ahci s' = h_ahci s"
  by (simp add: keeps_def)

lemma keeps_on_bus: "keeps (on_bus m)"
  by (simp add: keeps_def on_bus_def split_beta)

lemma keeps_alloc_dma: "keeps (alloc_dma n)"
  by (auto simp: keeps_def alloc_dma_def on_bus_def mem_put_def bnd_def split: option.splits nat.splits)

definition registered :: "nat \<Rightarrow> ata_entry \<Rightarrow> bool" where
  "registered slot d = (present d \<and> via_ahci d \<and> dev_index d = slot)"

definition disk_inv :: "ata_entry list \<Rightarrow> ahci \<Rightarrow> 'd hba_sys \<Rightarrow> bool" where
  "disk_inv t a s = (length (ports a) = 4 \<and> disk_count a \<le> 4 \<and> (\<forall>i < 4. p_active (ports a ! i) = (i < disk_count a)) \<and>
     (\<forall>i < disk_count a. registered (4 + i) (devices (h_ata s) ! (4 + i))) \<and>
     take 4 (devices (h_ata s)) = take 4 t \<and> length (devices (h_ata s)) = length t)"

lemma disk_inv_keeps: "keeps m \<Longrightarrow> m s = (r, s') \<Longrightarrow> disk_inv t a s \<Longrightarrow> disk_inv t a s'"
  by (simp add: disk_inv_def keepsD)

lemma add_port_inv:
  assumes "add_port io port a s = (Ret a', s')" and "disk_inv t a s" and "p_active port"
  shows "disk_inv t a' s' \<and> h_ahci s' = h_ahci s"
proof -
  have n: "disk_count a < length (ports a)"
    using assms(1) by (auto simp: add_port_def elim!: bnd_RetE split: if_splits)
  obtain d s1 where d: "on_bus (ahci_identify io port) s = (Ret d, s1)"
    "(if present d then bnd (register_disk (ATA_BASE_SLOT + disk_count a) d) (\<lambda>_.
       ret (a\<lparr>ports := (ports a)[disk_count a := port], disk_count := disk_count a + 1\<rparr>))
      else ret (a\<lparr>ports := (ports a)[disk_count a := port\<lparr>p_active := False\<rparr>]\<rparr>)) s1 = (Ret a', s')"
    using assms(1) n unfolding add_port_def by (auto simp: bnd_def split: prod.splits outcome.splits)
  have s1: "disk_inv t a s1" "h_ahci s1 = h_ahci s"
    using disk_inv_keeps [OF keeps_on_bus d(1) assms(2)] keepsD [OF keeps_on_bus d(1)] by blast+
  show ?thesis
  proof (cases "present d")
    case False
    then show ?thesis using d(2) s1 n by (auto simp: disk_inv_def nth_list_update split: if_splits)
  next
    case True
    then obtain s2 where s2: "register_disk (ATA_BASE_SLOT + disk_count a) d s1 = (Ret (), s2)" "s' = s2"
      "a' = a\<lparr>ports := (ports a)[disk_count a := port], disk_count := disk_count a + 1\<rparr>"
      using d(2) by (auto elim!: bnd_RetE)
    let ?d = "d\<lparr>dev_index := 4 + disk_count a, via_ahci := True\<rparr>"
    have t: "4 + disk_count a < length (devices (h_ata s1))"
      "devices (h_ata s') = (devices (h_ata s1))[4 + disk_count a := ?d]" "h_ahci s' = h_ahci s1"
      using s2(1,2) by (auto simp: register_disk_def set_device_def ATA_BASE_SLOT_def split: if_splits)
    show ?thesis using s1 n assms(3) t True unfolding s2(3)
      by (auto simp: disk_inv_def nth_list_update registered_def less_Suc_eq)
  qed
qed

lemma start_port_inv:
  assumes "start_port io pb a s = (Ret a', s')" and "disk_inv t a s"
  shows "disk_inv t a' s' \<and> h_ahci s' = h_ahci s"
proof -
  note k = disk_inv_keeps [OF keeps_on_bus] disk_inv_keeps [OF keeps_alloc_dma]
  note h = keepsD [OF keeps_on_bus] keepsD [OF keeps_alloc_dma]
  obtain s1 u where s1: "on_bus (stop_port io pb) s = (Ret u, s1)"
    "bnd (alloc_dma 4096) (\<lambda>clb. bnd (alloc_dma 4096) (\<lambda>fb. bnd (alloc_dma 4096) (\<lambda>ct. bnd (alloc_dma 512) (\<lambda>buf.
     case (clb, fb, ct, buf) of
       (Some c, Some f, Some t, Some m) \<Rightarrow>
         bnd (on_bus (arm_port io pb c f)) (\<lambda>_. bnd (on_bus (port_has_disk io pb)) (\<lambda>ok.
         if ok then add_port io \<lparr>p_active = True, port_base = pb, clb_virt = c, ct_virt = t, dma_virt = m\<rparr> a else ret a))
     | _ \<Rightarrow> ret a)))) s1 = (Ret a', s')"
    using assms(1) unfolding start_port_def by (rule bnd_RetE)
  obtain c s2 f s3 ct s4 m s5 where s5: "alloc_dma 4096 s1 = (Ret c, s2)" "alloc_dma 4096 s2 = (Ret f, s3)"
    "alloc_dma 4096 s3 = (Ret ct, s4)" "alloc_dma 512 s4 = (Ret m, s5)"
    "(case (c, f, ct, m) of
       (Some c, Some f, Some t, Some m) \<Rightarrow>
         bnd (on_bus (arm_port io pb c f)) (\<lambda>_. bnd (on_bus (port_has_disk io pb)) (\<lambda>ok.
         if ok then add_port io \<lparr>p_active = True, port_base = pb, clb_virt = c, ct_virt = t, dma_virt = m\<rparr> a else ret a))
     | _ \<Rightarrow> ret a) s5 = (Ret a', s')"
    using s1(2) by (elim bnd_RetE) blast
  have i5: "disk_inv t a s5" "h_ahci s5 = h_ahci s"
    using s5(1-4) s1(1) assms(2) k h by metis+
  show ?thesis
  proof (cases "\<exists>c' f' t' m'. c = Some c' \<and> f = Some f' \<and> ct = Some t' \<and> m = Some m'")
    case False
    then have "a' = a \<and> s' = s5" using s5(5) by (auto split: option.splits)
    then show ?thesis using i5 by simp
  next
    case True
    then obtain c' f' t' m' where p: "bnd (on_bus (arm_port io pb c' f')) (\<lambda>_. bnd (on_bus (port_has_disk io pb)) (\<lambda>ok.
         if ok then add_port io \<lparr>p_active = True, port_base = pb, clb_virt = c', ct_virt = t', dma_virt = m'\<rparr> a else ret a)) s5
         = (Ret a', s')" using s5(5) by auto
    then obtain u s6 ok s7 where s7: "on_bus (arm_port io pb c' f') s5 = (Ret u, s6)" "on_bus (port_has_disk io pb) s6 = (Ret ok, s7)"
      "(if ok then add_port io \<lparr>p_active = True, port_base = pb, clb_virt = c', ct_virt = t', dma_virt = m'\<rparr> a else ret a) s7 = (Ret a', s')"
      by (elim bnd_RetE) blast
    have i7: "disk_inv t a s7" "h_ahci s7 = h_ahci s" using s7(1,2) i5 k h by metis+
    show ?thesis
    proof (cases ok)
      case True
      then show ?thesis using add_port_inv [OF _ i7(1)] s7(3) i7(2) by fastforce
    next
      case False
      then show ?thesis using s7(3) i7 by simp
    qed
  qed
qed

lemma start_ports_inv:
  assumes "start_ports io pi ps a s = (Ret a', s')" and "disk_inv t a s"
  shows "disk_inv t a' s' \<and> h_ahci s' = h_ahci s"
  using assms
proof (induction ps arbitrary: a s)
  case (Cons p ps)
  show ?case
  proof (cases "bit pi p")
    case False
    then show ?thesis using Cons by simp
  next
    case True
    then obtain a1 s1 where a1: "start_port io (abar a + PORT_OFF + p * PORT_STRIDE) a s = (Ret a1, s1)"
      "start_ports io pi ps a1 s1 = (Ret a', s')"
      using Cons.prems(1) by (auto elim!: bnd_RetE split: if_splits)
    show ?thesis using Cons.IH [OF a1(2)] start_port_inv [OF a1(1) Cons.prems(2)] by auto
  qed
qed simp
lemma port_mut_iff: "length (ports a) = 4 \<Longrightarrow> disk_count a \<le> 4 \<Longrightarrow> \<forall>i < 4. p_active (ports a ! i) = (i < disk_count a) \<Longrightarrow>
    port_mut slot a = None \<longleftrightarrow> \<not> (4 \<le> slot \<and> slot < 4 + disk_count a)"
  by (auto simp: port_mut_def ATA_BASE_SLOT_def MAX_PORTS_def)

lemma init_none: "disk_inv (devices (h_ata s)) \<lparr>abar = base, ports = replicate MAX_PORTS NO_PORT, disk_count = 0\<rparr> s"
  by (simp add: disk_inv_def MAX_PORTS_def NO_PORT_def)

lemma on_bus_RetE:
  assumes "bnd (on_bus m) f s = (Ret r, s')"
  obtains a s1 where "f a s1 = (Ret r, s')" and "h_ata s1 = h_ata s"
  using assms by (elim bnd_RetE) (metis keepsD [OF keeps_on_bus])

lemma bnd_guard: "bnd (guard_panic c) f s = (if c then f () s else (Panic, s))"
  by (simp add: bnd_def)

lemma ahci_init_registers:
  assumes "ahci_init io hw pcis s = (Ret n, s')" and "0 < n"
  shows "\<exists>a. h_ahci s' = Some a \<and> disk_count a = n \<and> disk_inv (devices (h_ata s)) a s'"
proof -
  obtain c where c: "find_sata_controller pcis = Some c"
    using assms by (auto simp: ahci_init_def split: option.splits)
  define base where "base = PMO + abar_of hw c"
  let ?a0 = "\<lparr>abar = base, ports = replicate MAX_PORTS NO_PORT, disk_count = 0\<rparr>"
  have "\<exists>s1 pi cap a s2. h_ata s1 = h_ata s \<and> start_ports io pi [0..<min (unat (cap AND (0x1F :: u32)) + 1) MAX_PORTS] ?a0 s1 = (Ret a, s2) \<and>
    publish a s2 = (Ret n, s')"
    using assms unfolding ahci_init_def c base_def [symmetric] Let_def option.case
    by (auto simp: bnd_guard elim!: on_bus_RetE split: if_splits) (elim bnd_RetE, blast)
  then obtain s1 pi cap a s2 where s: "h_ata s1 = h_ata s"
    "start_ports io pi [0..<min (unat (cap AND (0x1F :: u32)) + 1) MAX_PORTS] ?a0 s1 = (Ret a, s2)"
    "publish a s2 = (Ret n, s')"
    by blast
  have "disk_inv (devices (h_ata s)) a s2" using start_ports_inv [OF s(2) init_none] s(1) by simp
  moreover have "n = disk_count a" using s(3) by (auto simp: publish_def elim!: bnd_RetE)
  moreover from this have "s' = s2\<lparr>h_ahci := Some a\<rparr>" using s(3) assms(2) by (simp add: publish_def)
  ultimately show ?thesis by (simp add: disk_inv_def)
qed

text \<open>C36: start-up that reports disks found at most four of them, has entered each in the device table
  under the slots from 4 on, in order, as present, with its slot number and driver, and left the
  four slots of the PIO driver alone; from then on reads and writes of every other slot are refused
  without touching a device.
\<close>

theorem ahci_disks_registered:
  assumes "ahci_init io hw pcis s = (Ret n, s')" and "0 < n"
  shows "n \<le> 4 \<and> (\<forall>i < n. case devices (h_ata s') ! (4 + i) of d \<Rightarrow> present d \<and> via_ahci d \<and> dev_index d = 4 + i) \<and>
    take 4 (devices (h_ata s')) = take 4 (devices (h_ata s)) \<and>
    (\<forall>slot lba buf. (slot < 4 \<or> 4 + n \<le> slot) \<longrightarrow>
       ahci_read_sector io slot lba buf s' = (Ret (False, buf), s') \<and> ahci_write_sector io slot lba buf s' = (Ret False, s'))"
proof -
  obtain a where a: "h_ahci s' = Some a" "disk_count a = n" "disk_inv (devices (h_ata s)) a s'"
    using ahci_init_registers [OF assms] by blast
  have "port_mut slot a = None" if "slot < 4 \<or> 4 + n \<le> slot" for slot
    using a that port_mut_iff [of a slot] by (auto simp: disk_inv_def)
  then have "ahci_read_sector io slot lba buf s' = (Ret (False, buf), s') \<and> ahci_write_sector io slot lba buf s' = (Ret False, s')"
    if "slot < 4 \<or> 4 + n \<le> slot" for slot lba buf
    using that a(1) by (simp add: ahci_read_sector_def ahci_write_sector_def)
  then show ?thesis using a by (auto simp: disk_inv_def registered_def)
qed
section \<open>An example controller\<close>

text \<open>One disk on the first port, which answers every command at once; the clock moves with every halt.\<close>

definition demo_hba :: "nat dma io" where
  "demo_hba = \<lparr>reg_in = (\<lambda>r d. (if r = PMO + 0x100000001C then 1
       else if r = PMO + 0x1000000138 then 3 else if r = PMO + 0x1000000134 then 0x101 else 0, d)),
     reg_out = (\<lambda>r v d. d), clock = d_hw, halt = (\<lambda>d. d\<lparr>d_hw := d_hw d + 1\<rparr>)\<rparr>"

definition demo_port :: ahci_port where
  "demo_port = \<lparr>p_active = True, port_base = PMO + 0x1000000110, clb_virt = PMO + 0x1000, ct_virt = PMO + 0x2000, dma_virt = PMO + 0x3000\<rparr>"

definition demo_dma :: "nat dma bus" where
  "demo_dma = \<lparr>dv = \<lparr>d_mem = (\<lambda>a. 0), d_hw = 0\<rparr>, sent = [], seen = []\<rparr>"

text \<open>Free blocks of exactly two pages, one after the other.\<close>

definition demo_blocks :: heap_inner where
  "demo_blocks = \<lparr>hmem = (\<lambda>a. \<lparr>blk_size = 8192, blk_next = a + 0x10000\<rparr>), free_head = PMO + 0x10000, h_total = 0x100000,
     h_used = 0, h_allocs = 0, h_frees = 0\<rparr>"

lemma demo_timer: "hba_timer demo_hba"
proof -
  have "advancing demo_hba probe" if "\<And>d. snd (probe d) = d" for probe
    unfolding advancing_def
  proof (intro conjI allI)
    show "\<exists>n. clock demo_hba d < clock demo_hba (((\<lambda>d. halt demo_hba (snd (probe d))) ^^ n) d)" for d
      by (rule exI [of _ 1]) (simp add: demo_hba_def that)
  qed (simp_all add: demo_hba_def that)
  moreover have "snd (probe_reg demo_hba p ok d) = d" "snd (idle_probe demo_hba pb d) = d" for p ok pb d
    by (simp_all add: demo_hba_def probe_reg_def idle_probe_def)
  ultimately show ?thesis unfolding hba_timer_def timer_runs_def by blast
qed

lemma demo_register:
  "mmio_read demo_hba a off b = (if a + off < 2 ^ 64
     then (Ret (of_nat (fst (reg_in demo_hba (a + off) (dv b)))), b\<lparr>seen := seen b @ [(a + off, fst (reg_in demo_hba (a + off) (dv b)))]\<rparr>)
     else (Panic, b))"
  "mmio_write demo_hba a off v b = (if a + off < 2 ^ 64 then (Ret (), b\<lparr>sent := sent b @ [(a + off, unat v)]\<rparr>) else (Panic, b))"
  "reg_write demo_hba p n b = (Ret (), b\<lparr>sent := sent b @ [(p, n)]\<rparr>)"
  by (simp_all add: mmio_read_def mmio_write_run bnd_def reg_read_def reg_write_def demo_hba_def)

lemma demo_wait: "probe (dv b) = (True, dv b) \<Longrightarrow> d_hw (dv b) = 0 \<Longrightarrow> wait_for demo_hba AHCI_TIMEOUT probe b = (Ret True, b)"
  by (subst wait_for_now [of probe b "dv b"]) (simp_all add: demo_hba_def AHCI_TIMEOUT_def)

lemma demo_issue:
  assumes "p = PMO + 0x1000000110" and "port_base port = p" and "PMO \<le> dma_virt port" and "PMO \<le> ct_virt port" and "d_hw (dv b) = 0"
  shows "\<exists>b'. issue demo_hba port w cmd lba count dbc b = (Ret True, b') \<and> d_hw (dv b') = 0"
proof -
  have r: "fst (reg_in demo_hba (p + PxTFD) d) = 0" "fst (reg_in demo_hba (p + PxCI) d) = 0" "fst (reg_in demo_hba (p + PxIS) d) = 0"
    "snd (reg_in demo_hba r d) = d" "p + 0x38 < 2 ^ 64" for r d
    by (simp_all add: demo_hba_def assms(1) PxTFD_def PxCI_def PxIS_def PMO_def)
  have i: "wait_for demo_hba AHCI_TIMEOUT (idle_probe demo_hba p) b = (Ret True, b)"
    using r assms(5) by (intro demo_wait) (simp_all add: idle_probe_def split_beta)
  obtain b1 where b1: "build_command port w cmd lba count dbc b = (Ret (), b1)" "d_hw (dv b1) = 0"
    using assms by (simp add: build_command_def mem_put_def virt_to_phys_def bnd_def)
  have s: "wait_for demo_hba AHCI_TIMEOUT (probe_reg demo_hba (p + PxCI) (\<lambda>v. of_nat v AND 1 = (0 :: u32))) b2 = (Ret True, b2)"
    if "dv b2 = dv b1" for b2
    using r b1(2) that by (intro demo_wait) (simp_all add: probe_reg_def split_beta)
  have "\<exists>b'. start_command demo_hba p b1 = (Ret True, b') \<and> d_hw (dv b') = 0"
    using r(5) by (simp add: start_command_def bnd_def demo_register s r(1,2,3) b1(2) PxIS_TFES_def PxTFD_ERR_def)
      (simp add: PxTFD_def PxCI_def PxIS_def b1)
  then show ?thesis unfolding issue_def assms(2) Let_def using i b1(1) by (simp add: bnd_def)
qed

theorem command_names_request_witness:
  "\<exists>b1 :: nat dma bus. fetch_command (d_mem (dv b1)) (PMO + 0x1000) =
     \<lparr>c_write = True, c_fis_len = 20, c_regions = 1, c_fis_type = 0x27, c_opcode = 0x35, c_lba = 0x12345678, c_count = 1,
      c_buffer = PMO + 0x3000, c_bytes = 1\<rparr>"
proof -
  have "\<exists>b'. issue demo_hba demo_port True 0x35 0x12345678 1 511 demo_dma = (Ret True, b') \<and> d_hw (dv b') = 0"
    by (rule demo_issue [OF refl]) (simp_all add: demo_port_def demo_dma_def)
  then obtain b' where b: "issue demo_hba demo_port True 0x35 0x12345678 1 511 demo_dma = (Ret True, b')" by blast
  have "port_blocks demo_port" by (simp add: port_blocks_def demo_port_def PMO_def)
  from command_names_request [OF b this] show ?thesis by (auto simp: demo_port_def)
qed
definition demo_pci :: pci_device where
  "demo_pci = \<lparr>pci_bus = 0, pci_dev = 3, pci_func = 0, vendor = 0x8086, device_id = 0x2922, pci_class = 1, sub_class = 6, progif = 1,
     header_type = 0, secondary_bus = 0, irq_line = 11\<rparr>"

definition demo_sys :: "nat hba_sys" where
  "demo_sys = \<lparr>h_bus = demo_dma, h_heap = demo_blocks, h_ata = \<lparr>devices = replicate 8 DEV_NONE, dev_count = 0\<rparr>, h_ahci = None\<rparr>"

definition blocks_from :: "nat \<Rightarrow> nat hba_sys \<Rightarrow> bool" where
  "blocks_from k s = (d_hw (dv (h_bus s)) = 0 \<and> length (devices (h_ata s)) = 8 \<and> free_head (h_heap s) = PMO + k * 0x10000 \<and>
     (\<forall>j \<ge> k. hmem (h_heap s) (PMO + j * 0x10000) = \<lparr>blk_size = 8192, blk_next = PMO + (j + 1) * 0x10000\<rparr>))"

lemma alloc_exact:
  assumes "free_head h = c" and "hmem h c = \<lparr>blk_size = 8192, blk_next = n\<rparr>"
    and "c \<in> {PMO + 0x10000, PMO + 0x20000, PMO + 0x30000, PMO + 0x40000}"
  shows "\<exists>h'. alloc_locked h 4096 4096 = Some (c + 4096, h') \<and> free_head h' = n \<and> (\<forall>x. x \<noteq> c \<longrightarrow> hmem h' x = hmem h x)"
    and "\<exists>h'. alloc_locked h 512 4096 = Some (c + 4096, h')"
  using assms by (auto simp: alloc_locked_def align_up_def usz_def alloc_loop.simps [of h _ _ 0 c] BLOCK_HEADER_def PMO_def Let_def)

lemma demo_alloc:
  assumes "blocks_from k s" and "k \<in> {1, 2, 3, 4}"
  shows "\<exists>s'. alloc_dma 4096 s = (Ret (Some (PMO + k * 0x10000 + 4096)), s') \<and> blocks_from (k + 1) s'"
    and "\<exists>s'. alloc_dma 512 s = (Ret (Some (PMO + k * 0x10000 + 4096)), s') \<and> d_hw (dv (h_bus s')) = 0 \<and> length (devices (h_ata s')) = 8"
proof -
  have c: "PMO + k * 0x10000 \<in> {PMO + 0x10000, PMO + 0x20000, PMO + 0x30000, PMO + 0x40000}" using assms(2) by auto
  have h: "free_head (h_heap s) = PMO + k * 0x10000"
    "hmem (h_heap s) (PMO + k * 0x10000) = \<lparr>blk_size = 8192, blk_next = PMO + (k + 1) * 0x10000\<rparr>"
    using assms(1) by (simp_all add: blocks_from_def)
  have v: "PMO + k * 0x10000 + 4096 = Suc (PMO + k * 0x10000 + 4095)" by simp
  obtain h1 where h1: "alloc_locked (h_heap s) 4096 4096 = Some (PMO + k * 0x10000 + 4096, h1)" "free_head h1 = PMO + (k + 1) * 0x10000"
    "\<And>x. x \<noteq> PMO + k * 0x10000 \<Longrightarrow> hmem h1 x = hmem (h_heap s) x"
    using alloc_exact(1) [OF h c] by blast
  show "\<exists>s'. alloc_dma 4096 s = (Ret (Some (PMO + k * 0x10000 + 4096)), s') \<and> blocks_from (k + 1) s'"
    using h1 assms(1) by (simp add: alloc_dma_def v bnd_def on_bus_def mem_put_def blocks_from_def)
  obtain h2 where h2: "alloc_locked (h_heap s) 512 4096 = Some (PMO + k * 0x10000 + 4096, h2)"
    using alloc_exact(2) [OF h c] by blast
  show "\<exists>s'. alloc_dma 512 s = (Ret (Some (PMO + k * 0x10000 + 4096)), s') \<and> d_hw (dv (h_bus s')) = 0 \<and> length (devices (h_ata s')) = 8"
    using h2 assms(1) by (simp add: alloc_dma_def v bnd_def on_bus_def mem_put_def blocks_from_def)
qed

lemma demo_stop:
  assumes "p = PMO + 0x1000000110" and "d_hw (dv b) = 0"
  shows "\<exists>b'. stop_port demo_hba p b = (Ret (), b') \<and> dv b' = dv b"
proof -
  have w: "wait_for demo_hba AHCI_TIMEOUT (probe_reg demo_hba (p + PxCMD) (\<lambda>v. of_nat v AND PxCMD_CR = 0)) b2 = (Ret True, b2)"
    if "dv b2 = dv b" for b2
    using that assms by (intro demo_wait) (simp_all add: probe_reg_def demo_hba_def PxCMD_def)
  have "p + PxCMD < 2 ^ 64" by (simp add: assms(1) PxCMD_def PMO_def)
  then show ?thesis by (simp add: stop_port_def bnd_def demo_register w)
qed

lemma demo_arm:
  assumes "p = PMO + 0x1000000110"
  shows "\<exists>b'. arm_port demo_hba p (PMO + c) (PMO + f) b = (Ret (), b') \<and> dv b' = dv b"
proof -
  have "p + PxCLB < 2 ^ 64" "p + (PxCLB + 4) < 2 ^ 64" "p + PxFB < 2 ^ 64" "p + (PxFB + 4) < 2 ^ 64" "p + PxIS < 2 ^ 64"
    "p + PxIE < 2 ^ 64" "p + PxSERR < 2 ^ 64" "p + PxCMD < 2 ^ 64"
    by (simp_all add: assms PxCLB_def PxFB_def PxIS_def PxIE_def PxSERR_def PxCMD_def PMO_def)
  then show ?thesis by (simp add: arm_port_def bnd_def demo_register virt_to_phys_def Let_def)
qed

lemma demo_link:
  assumes "p = PMO + 0x1000000110" and "d_hw (dv b) = 0"
  shows "\<exists>b'. port_has_disk demo_hba p b = (Ret True, b') \<and> dv b' = dv b"
proof -
  have w: "wait_for demo_hba AHCI_TIMEOUT (probe_reg demo_hba (p + PxSSTS) (\<lambda>v. of_nat v AND 0x0F = (3 :: u32))) b = (Ret True, b)"
    using assms by (intro demo_wait) (simp_all add: probe_reg_def demo_hba_def PxSSTS_def)
  have r: "fst (reg_in demo_hba (p + PxSSTS) d) = 3" "fst (reg_in demo_hba (p + PxSIG) d) = 0x101"
    "p + PxSSTS < 2 ^ 64" "p + PxSIG < 2 ^ 64" for d
    by (simp_all add: demo_hba_def assms(1) PxSSTS_def PxSIG_def PMO_def)
  show ?thesis using r by (simp add: port_has_disk_def bnd_def demo_register w SIG_ATA_def)
qed
lemma demo_start_port:
  assumes "p = PMO + 0x1000000110" and "blocks_from 1 s" and "disk_count a = 0" and "length (ports a) = 4"
  shows "\<exists>s' a'. start_port demo_hba p a s = (Ret a', s') \<and> disk_count a' = 1"
proof -
  have q: "on_bus m s1 = (Ret r, s1\<lparr>h_bus := b'\<rparr>)" if "m (h_bus s1) = (Ret r, b')" for m s1 and r :: 'z and b'
    using that by (simp add: on_bus_def)
  have d: "d_hw (dv (h_bus s)) = 0" using assms(2) by (simp add: blocks_from_def)
  obtain b1 where b1: "stop_port demo_hba p (h_bus s) = (Ret (), b1)" "dv b1 = dv (h_bus s)"
    using demo_stop [OF assms(1) d] by blast
  have "blocks_from 1 (s\<lparr>h_bus := b1\<rparr>)" using assms(2) b1(2) by (simp add: blocks_from_def)
  from demo_alloc(1) [OF this] obtain s2 where s2: "alloc_dma 4096 (s\<lparr>h_bus := b1\<rparr>) = (Ret (Some (PMO + 0x11000)), s2)" "blocks_from 2 s2"
    by (auto simp: numeral_2_eq_2)
  from demo_alloc(1) [OF s2(2)] obtain s3 where s3: "alloc_dma 4096 s2 = (Ret (Some (PMO + 0x21000)), s3)" "blocks_from 3 s3"
    by auto
  from demo_alloc(1) [OF s3(2)] obtain s4 where s4: "alloc_dma 4096 s3 = (Ret (Some (PMO + 0x31000)), s4)" "blocks_from 4 s4"
    by auto
  from demo_alloc(2) [OF s4(2)] obtain s5 where s5: "alloc_dma 512 s4 = (Ret (Some (PMO + 0x41000)), s5)"
    "d_hw (dv (h_bus s5)) = 0" "length (devices (h_ata s5)) = 8"
    by auto
  obtain b6 where b6: "arm_port demo_hba p (PMO + 0x11000) (PMO + 0x21000) (h_bus s5) = (Ret (), b6)" "dv b6 = dv (h_bus s5)"
    using demo_arm [OF assms(1)] by blast
  obtain b7 where b7: "port_has_disk demo_hba p b6 = (Ret True, b7)" "dv b7 = dv b6"
    using demo_link [OF assms(1)] b6(2) s5(2) by metis
  let ?port = "\<lparr>p_active = True, port_base = p, clb_virt = PMO + 0x11000, ct_virt = PMO + 0x31000, dma_virt = PMO + 0x41000\<rparr>"
  have "\<exists>b'. issue demo_hba ?port False (of_nat CMD_IDENTIFY) 0 0 511 b7 = (Ret True, b') \<and> d_hw (dv b') = 0"
    using b7(2) b6(2) s5(2) by (intro demo_issue [OF assms(1)]) simp_all
  then obtain b8 ws where i: "ahci_identify demo_hba ?port b7 = (Ret (entry_from_dma ws), b8)"
    by (auto simp: ahci_identify_def bnd_def mem_get_def)
  have "present (entry_from_dma ws)" by (simp add: entry_from_dma_def Let_def)
  then have "\<exists>s' a'. add_port demo_hba ?port a (s5\<lparr>h_bus := b6\<rparr>\<lparr>h_bus := b7\<rparr>) = (Ret a', s') \<and> disk_count a' = 1"
    using assms(3,4) s5(3) i by (simp add: add_port_def bnd_def on_bus_def register_disk_def set_device_def ATA_BASE_SLOT_def)
  then show ?thesis
    unfolding start_port_def using q [of "stop_port demo_hba p" s, OF b1(1)] s2(1) s3(1) s4(1) s5(1) q [of "arm_port demo_hba p _ _" s5, OF b6(1)]
      q [of "port_has_disk demo_hba p" "s5\<lparr>h_bus := b6\<rparr>"] b7(1)
    by (simp add: bnd_def)
qed

lemma demo_init: "\<exists>s'. ahci_init demo_hba (\<lambda>_. 0x10) [demo_pci] demo_sys = (Ret 1, s')"
proof -
  let ?base = "PMO + 0x1000000010"
  have c: "find_sata_controller [demo_pci] = Some demo_pci" by (simp add: find_sata_controller_def demo_pci_def)
  have a: "abar_of (\<lambda>_. 0x10) demo_pci = 0x1000000010" by (simp add: abar_of_def config_read_u32_def Let_def)
  have r: "fst (reg_in demo_hba (?base + HBA_PI) d) = 1" "fst (reg_in demo_hba (?base + HBA_CAP) d) = 0" for d
    by (simp_all add: demo_hba_def HBA_PI_def HBA_CAP_def)
  have l: "?base + HBA_GHC < 2 ^ 64" "?base + HBA_PI < 2 ^ 64" "?base + HBA_CAP < 2 ^ 64" "PMO + 0x1000000010 < 2 ^ 64"
    by (simp_all add: HBA_GHC_def HBA_PI_def HBA_CAP_def PMO_def)
  have w: "wait_for demo_hba AHCI_TIMEOUT (probe_reg demo_hba (?base + HBA_GHC) (\<lambda>v. of_nat v AND GHC_HR = 0)) b = (Ret True, b)"
    if "d_hw (dv b) = 0" for b
    using that by (intro demo_wait) (simp_all add: probe_reg_def demo_hba_def HBA_GHC_def)
  have z: "d_hw (dv (h_bus demo_sys)) = 0" by (simp add: demo_sys_def demo_dma_def)
  have k: "blocks_from 1 (demo_sys\<lparr>h_bus := b\<rparr>)" if "dv b = dv (h_bus demo_sys)" for b
    using that by (simp add: blocks_from_def demo_sys_def demo_blocks_def demo_dma_def algebra_simps)
  obtain b where pre: "\<And>f :: u32 \<Rightarrow> u32 \<Rightarrow> (nat, nat) hop. bnd (on_bus (enable_controller demo_hba (\<lambda>_. 0x10) demo_pci)) (\<lambda>_. bnd (on_bus (reset_hba demo_hba ?base)) (\<lambda>ok. if \<not> ok then ret 0
     else bnd (on_bus (mmio_read demo_hba ?base HBA_GHC)) (\<lambda>ghc. bnd (on_bus (mmio_write demo_hba ?base HBA_GHC (ghc OR GHC_AE))) (\<lambda>_.
     bnd (on_bus (mmio_read demo_hba ?base HBA_PI)) (\<lambda>pi. bnd (on_bus (mmio_read demo_hba ?base HBA_CAP)) (\<lambda>cap. f pi cap)))))) demo_sys
     = f 1 0 (demo_sys\<lparr>h_bus := b\<rparr>)" "dv b = dv (h_bus demo_sys)"
    using l z by (simp add: bnd_def on_bus_def enable_controller_def config_write_u16_def Let_def demo_register reset_hba_def w r)
  have "\<exists>s' a'. start_port demo_hba (?base + 0x100) \<lparr>abar = ?base, ports = replicate MAX_PORTS NO_PORT, disk_count = 0\<rparr>
      (demo_sys\<lparr>h_bus := b\<rparr>) = (Ret a', s') \<and> disk_count a' = 1"
    by (rule demo_start_port [OF _ k [OF pre(2)]]) (simp_all add: MAX_PORTS_def)
  then obtain s' a' where s': "start_port demo_hba (?base + 0x100) \<lparr>abar = ?base, ports = replicate MAX_PORTS NO_PORT, disk_count = 0\<rparr>
      (demo_sys\<lparr>h_bus := b\<rparr>) = (Ret a', s')" "disk_count a' = 1"
    by blast
  have l2: "?base + PORT_OFF + 0 * PORT_STRIDE < 2 ^ 64" "?base + PORT_OFF + 0 * PORT_STRIDE = ?base + 0x100"
    by (simp_all add: PORT_OFF_def PMO_def)
  let ?a = "\<lparr>abar = ?base, ports = replicate MAX_PORTS NO_PORT, disk_count = 0\<rparr>"
  have g: "guard_panic (PMO + 0x1000000010 < 2 ^ 64) = ret ()" using l(4) by (simp only: guard_panic_def if_True)
  have n: "(0x1000000010 :: nat) \<noteq> 0" by simp
  have "ahci_init demo_hba (\<lambda>_. 0x10) [demo_pci] demo_sys =
      bnd (start_ports demo_hba 1 [0..<min (unat (0 AND 0x1F :: u32) + 1) MAX_PORTS] ?a) publish (demo_sys\<lparr>h_bus := b\<rparr>)"
    unfolding ahci_init_def c option.case a Let_def g bnd_ret if_not_P [OF n]
    using pre(1) [of "\<lambda>pi cap. bnd (start_ports demo_hba pi [0..<min (unat (cap AND 0x1F) + 1) MAX_PORTS] ?a) publish"] by (simp only:)
  moreover have "start_ports demo_hba 1 [0..<min (unat (0 AND 0x1F :: u32) + 1) MAX_PORTS] ?a (demo_sys\<lparr>h_bus := b\<rparr>) = (Ret a', s')"
  proof -
    have "[0..<min (unat (0 AND 0x1F :: u32) + 1) MAX_PORTS] = [0]" by (simp add: MAX_PORTS_def)
    moreover have "bit (1 :: u32) 0" by simp
    moreover have "start_port demo_hba (?base + PORT_OFF + 0 * PORT_STRIDE) ?a (demo_sys\<lparr>h_bus := b\<rparr>) = (Ret a', s')"
      unfolding l2(2) by (rule s'(1))
    ultimately show ?thesis using l2(1)
      by (simp only: start_ports.simps ahci.select_convs bnd_guard if_True not_True_eq_False if_False bnd_Ret [of "start_port _ _ _"]) simp
  qed
  ultimately show ?thesis using s'(2) by (simp add: bnd_def publish_def)
qed

theorem ahci_disks_registered_witness:
  "\<exists>s' :: nat hba_sys. present (devices (h_ata s') ! 4) \<and> ahci_read_sector demo_hba 5 0 [] s' = (Ret (False, []), s')"
proof -
  obtain s' where s': "ahci_init demo_hba (\<lambda>_. 0x10) [demo_pci] demo_sys = (Ret 1, s')" using demo_init by blast
  from ahci_disks_registered [OF s'] show ?thesis by force
qed
theorem ahci_operations_return_witness:
  "\<exists>s lo hi. driver_ok lo hi s \<and> h_ahci s = Some \<lparr>abar = 0, ports = [demo_port, NO_PORT, NO_PORT, NO_PORT], disk_count = 1\<rparr> \<and>
    ((\<exists>r s'. ahci_write_sector demo_hba 4 7 (replicate 512 1) s = (Ret r, s') \<and> driver_ok lo hi s') \<or>
     (\<exists>s'. ahci_write_sector demo_hba 4 7 (replicate 512 1) s = (Panic, s') \<and> 2 ^ 64 \<le> clock demo_hba (dv (h_bus s')) + 40))"
proof -
  have "64 \<le> HEAP_BYTES" "0x1000000 + PMO + HEAP_BYTES + 32 \<le> 2 ^ 64" by (simp_all add: HEAP_BYTES_def PMO_def)
  from heap_setup_valid [OF this, of zero_heap] obtain h where
    h: "heap_valid (up 0x1000000 16 + PMO) (0x1000000 + PMO + HEAP_BYTES) h []" by blast
  let ?s = "\<lparr>h_bus = demo_dma, h_heap = h, h_ata = \<lparr>devices = replicate 8 DEV_NONE, dev_count = 0\<rparr>,
    h_ahci = Some \<lparr>abar = 0, ports = [demo_port, NO_PORT, NO_PORT, NO_PORT], disk_count = 1\<rparr>\<rparr>"
  have ok: "driver_ok (up 0x1000000 16 + PMO) (0x1000000 + PMO + HEAP_BYTES) ?s"
    using h by (auto simp: driver_ok_def demo_port_def NO_PORT_def port_ok_def PMO_def)
  have "\<forall>c. find_sata_controller [] = Some c \<longrightarrow> PMO + abar_of (\<lambda>_. 0) c + 0x300 \<le> 2 ^ 64"
    by (simp add: find_sata_controller_def)
  from ahci_operations_return [OF demo_timer ok this, of 4 7 "replicate 512 1"] ok show ?thesis by (intro exI [of _ ?s] exI conjI) auto
qed

end
