(* ===== verification/Ps2.thy ===== *)
theory Ps2
  imports Pio
begin

text \<open>
  Start-up of the keyboard controller (\<open>kernel/src/ps2.rs\<close>) over the registers of theory Io.
  Every wait is a bounded number of status reads.
\<close>

section \<open>Bytes to and from the controller\<close>

definition CMD_PORT :: nat where "CMD_PORT = 0x64"
definition DATA_PORT :: nat where "DATA_PORT = 0x60"
definition CMD_DISABLE_P1 :: byte where "CMD_DISABLE_P1 = 0xAD"
definition CMD_ENABLE_P1 :: byte where "CMD_ENABLE_P1 = 0xAE"
definition CMD_SELF_TEST :: byte where "CMD_SELF_TEST = 0xAA"
definition CMD_TEST_P1 :: byte where "CMD_TEST_P1 = 0xAB"
definition CMD_READ_CFG :: byte where "CMD_READ_CFG = 0x20"
definition CMD_WRITE_CFG :: byte where "CMD_WRITE_CFG = 0x60"
definition DEV_SELF_TEST :: byte where "DEV_SELF_TEST = 0xFF"
definition DEV_SCAN_ON :: byte where "DEV_SCAN_ON = 0xF4"
definition DEV_ACK :: byte where "DEV_ACK = 0xFA"
definition DEV_RESEND :: byte where "DEV_RESEND = 0xFE"
definition DEV_SELF_TEST_OK :: byte where "DEV_SELF_TEST_OK = 0xAA"
definition CMD_SELF_TEST_OK :: byte where "CMD_SELF_TEST_OK = 0x55"
definition CTRL_PORT_TEST_OK :: byte where "CTRL_PORT_TEST_OK = 0x00"
definition CFG_IRQ_P1 :: byte where "CFG_IRQ_P1 = 0x01"
definition CFG_IRQ_P2 :: byte where "CFG_IRQ_P2 = 0x02"
definition CFG_CLK_P1 :: byte where "CFG_CLK_P1 = 0x04"
definition CFG_CLK_P2 :: byte where "CFG_CLK_P2 = 0x08"
definition CFG_TRANSLATE :: byte where "CFG_TRANSLATE = 0x10"
definition POLL_LIMIT :: nat where "POLL_LIMIT = 65536"

record ps2_report =
  controller_ok :: bool
  device_ok :: bool

fun wait_status :: "'d io \<Rightarrow> (byte \<Rightarrow> bool) \<Rightarrow> nat \<Rightarrow> ('d, bool) dop" where
  "wait_status io ok 0 = ret False"
| "wait_status io ok (Suc n) = bnd (in8 io CMD_PORT) (\<lambda>s. if ok s then ret True else wait_status io ok n)"

definition wait_in_ready :: "'d io \<Rightarrow> ('d, bool) dop" where
  "wait_in_ready io = wait_status io (\<lambda>s. s AND 0x02 = 0) POLL_LIMIT"

definition wait_out_ready :: "'d io \<Rightarrow> ('d, bool) dop" where
  "wait_out_ready io = wait_status io (\<lambda>s. s AND 0x01 \<noteq> 0) POLL_LIMIT"

definition send_cmd :: "'d io \<Rightarrow> byte \<Rightarrow> ('d, bool) dop" where
  "send_cmd io v = bnd (wait_in_ready io) (\<lambda>ok. if \<not> ok then ret False else bnd (out8 io CMD_PORT v) (\<lambda>_. ret True))"

definition send_data :: "'d io \<Rightarrow> byte \<Rightarrow> ('d, bool) dop" where
  "send_data io v = bnd (wait_in_ready io) (\<lambda>ok. if \<not> ok then ret False else bnd (out8 io DATA_PORT v) (\<lambda>_. ret True))"

definition recv :: "'d io \<Rightarrow> ('d, byte option) dop" where
  "recv io = bnd (wait_out_ready io) (\<lambda>ok. if ok then bnd (in8 io DATA_PORT) (\<lambda>v. ret (Some v)) else ret None)"

definition ctrl_cmd :: "'d io \<Rightarrow> byte \<Rightarrow> ('d, byte option) dop" where
  "ctrl_cmd io v = bnd (send_cmd io v) (\<lambda>ok. if \<not> ok then ret None else recv io)"

definition read_config :: "'d io \<Rightarrow> ('d, byte option) dop" where
  "read_config io = ctrl_cmd io CMD_READ_CFG"

definition write_config :: "'d io \<Rightarrow> byte \<Rightarrow> ('d, bool) dop" where
  "write_config io v = bnd (send_cmd io CMD_WRITE_CFG) (\<lambda>ok. if ok then send_data io v else ret False)"

fun flush_loop :: "'d io \<Rightarrow> nat \<Rightarrow> ('d, unit) dop" where
  "flush_loop io 0 = ret ()"
| "flush_loop io (Suc n) = bnd (in8 io CMD_PORT) (\<lambda>s. if s AND 0x01 = 0 then ret ()
     else bnd (in8 io DATA_PORT) (\<lambda>_. flush_loop io n))"

definition flush_buffer :: "'d io \<Rightarrow> ('d, unit) dop" where
  "flush_buffer io = flush_loop io 16"

fun send_device_loop :: "'d io \<Rightarrow> byte \<Rightarrow> nat \<Rightarrow> ('d, bool) dop" where
  "send_device_loop io v 0 = ret False"
| "send_device_loop io v (Suc n) = bnd (send_data io v) (\<lambda>ok. if \<not> ok then ret False
     else bnd (recv io) (\<lambda>r. if r = Some DEV_ACK then ret True
       else if r = Some DEV_RESEND then send_device_loop io v n else ret False))"

definition send_device :: "'d io \<Rightarrow> byte \<Rightarrow> ('d, bool) dop" where
  "send_device io v = send_device_loop io v 4"

fun self_test_loop :: "'d io \<Rightarrow> nat \<Rightarrow> ('d, bool) dop" where
  "self_test_loop io 0 = ret False"
| "self_test_loop io (Suc n) = bnd (send_data io DEV_SELF_TEST) (\<lambda>ok. if \<not> ok then ret False
     else bnd (recv io) (\<lambda>r. if r \<noteq> Some DEV_ACK then self_test_loop io n
       else bnd (recv io) (\<lambda>r2. if r2 = Some DEV_SELF_TEST_OK then ret True else self_test_loop io n)))"

definition device_self_test :: "'d io \<Rightarrow> ('d, bool) dop" where
  "device_self_test io = self_test_loop io 3"

section \<open>Start-up\<close>

definition quiet_cfg :: "byte \<Rightarrow> byte" where
  "quiet_cfg base = (base AND NOT (CFG_IRQ_P1 OR CFG_IRQ_P2 OR CFG_TRANSLATE OR CFG_CLK_P1)) OR CFG_CLK_P2"

definition final_cfg :: "byte \<Rightarrow> byte" where
  "final_cfg base = (base AND NOT (CFG_IRQ_P2 OR CFG_CLK_P2)) OR CFG_IRQ_P1 OR CFG_TRANSLATE"

definition ps2_init :: "'d io \<Rightarrow> ('d, ps2_report) dop" where
  "ps2_init io =
     bnd (send_cmd io CMD_DISABLE_P1) (\<lambda>_. bnd (flush_buffer io) (\<lambda>_.
     bnd (ctrl_cmd io CMD_SELF_TEST) (\<lambda>t. bnd (ctrl_cmd io CMD_TEST_P1) (\<lambda>_.
     bnd (read_config io) (\<lambda>c. let base = (case c of Some b \<Rightarrow> b | None \<Rightarrow> 0) in
     bnd (write_config io (quiet_cfg base)) (\<lambda>_.
     bnd (device_self_test io) (\<lambda>dev. bnd (send_device io DEV_SCAN_ON) (\<lambda>_.
     bnd (write_config io (final_cfg base)) (\<lambda>_. bnd (send_cmd io CMD_ENABLE_P1) (\<lambda>_.
     ret \<lparr>controller_ok = (t = Some CMD_SELF_TEST_OK), device_ok = dev\<rparr>))))))))))"

section \<open>Start-up is bounded\<close>

text \<open>Returns whatever the device answers, after at most so many register accesses.\<close>

definition within :: "nat \<Rightarrow> ('d, 'a) dop \<Rightarrow> bool" where
  "within n m = (\<forall>b. \<exists>a b'. m b = (Ret a, b') \<and> length (seen b') + length (sent b') \<le> length (seen b) + length (sent b) + n)"

lemma within_ret: "within 0 (ret a)"
  by (simp add: within_def)

lemma within_bnd:
  assumes "within i m" and "\<And>a. within j (f a)"
  shows "within (i + j) (bnd m f)"
  unfolding within_def
proof
  fix b
  obtain a b1 where 1: "m b = (Ret a, b1)" "length (seen b1) + length (sent b1) \<le> length (seen b) + length (sent b) + i"
    using assms(1) unfolding within_def by blast
  obtain c b2 where "f a b1 = (Ret c, b2)" "length (seen b2) + length (sent b2) \<le> length (seen b1) + length (sent b1) + j"
    using assms(2) unfolding within_def by blast
  then show "\<exists>a b'. bnd m f b = (Ret a, b') \<and> length (seen b') + length (sent b') \<le> length (seen b) + length (sent b) + (i + j)"
    using 1 by (intro exI [of _ c] exI [of _ b2]) (simp add: bnd_def)
qed

lemma within_mono: "within i m \<Longrightarrow> i \<le> j \<Longrightarrow> within j m"
  unfolding within_def by (meson add_left_mono order_trans)

lemma within_if: "within i m \<Longrightarrow> within j m' \<Longrightarrow> within (max i j) (if c then m else m')"
  by (auto intro: within_mono)

lemma within_in8: "within 1 (in8 io p)"
  by (simp add: within_def in8_def reg_read_def bnd_def split_beta)

lemma within_out8: "within 1 (out8 io p v)"
  by (simp add: within_def)

lemma within_wait: "within n (wait_status io ok n)"
proof (induction n)
  case (Suc n)
  have "within (1 + max 0 n) (wait_status io ok (Suc n))"
    unfolding wait_status.simps by (intro within_bnd within_if within_in8 within_ret Suc)
  then show ?case by simp
qed (simp only: wait_status.simps flush_loop.simps send_device_loop.simps self_test_loop.simps mult_0 mult_0_right within_ret)

lemma within_send: "within 65537 (send_cmd io v)" "within 65537 (send_data io v)"
proof -
  have "within (POLL_LIMIT + max 0 (1 + 0)) (send_cmd io v)" "within (POLL_LIMIT + max 0 (1 + 0)) (send_data io v)"
    unfolding send_cmd_def send_data_def wait_in_ready_def
    by (intro within_bnd within_if within_ret within_out8 within_wait)+
  then show "within 65537 (send_cmd io v)" "within 65537 (send_data io v)" by (simp_all add: POLL_LIMIT_def)
qed

lemma within_recv: "within 65537 (recv io)"
proof -
  have "within (POLL_LIMIT + max (1 + 0) 0) (recv io)"
    unfolding recv_def wait_out_ready_def by (intro within_bnd within_if within_ret within_in8 within_wait)
  then show ?thesis by (simp add: POLL_LIMIT_def)
qed

lemma within_ctrl: "within 131074 (ctrl_cmd io v)" "within 131074 (write_config io v)"
proof -
  have "within (65537 + max 0 65537) (ctrl_cmd io v)"
    unfolding ctrl_cmd_def by (intro within_bnd within_if within_ret within_send within_recv)
  moreover have "within (65537 + max 65537 0) (write_config io v)"
    unfolding write_config_def by (intro within_bnd within_if within_ret within_send)
  ultimately show "within 131074 (ctrl_cmd io v)" "within 131074 (write_config io v)" by simp_all
qed

lemma within_flush: "within (2 * n) (flush_loop io n)"
proof (induction n)
  case (Suc n)
  have "within (1 + max 0 (1 + 2 * n)) (flush_loop io (Suc n))"
    unfolding flush_loop.simps by (intro within_bnd within_if within_in8 within_ret Suc)
  then show ?case by simp
qed (simp only: wait_status.simps flush_loop.simps send_device_loop.simps self_test_loop.simps mult_0 mult_0_right within_ret)

lemma within_send_device: "within (n * 131074) (send_device_loop io v n)"
proof (induction n)
  case (Suc n)
  have "within (65537 + max 0 (65537 + max 0 (max (n * 131074) 0))) (send_device_loop io v (Suc n))"
    unfolding send_device_loop.simps by (intro within_bnd within_if within_ret within_send within_recv Suc)
  then show ?case by simp
qed (simp only: wait_status.simps flush_loop.simps send_device_loop.simps self_test_loop.simps mult_0 mult_0_right within_ret)

lemma within_self_test: "within (n * 196611) (self_test_loop io n)"
proof (induction n)
  case (Suc n)
  have "within (65537 + max 0 (65537 + max (n * 196611) (65537 + max 0 (n * 196611)))) (self_test_loop io (Suc n))"
    unfolding self_test_loop.simps by (intro within_bnd within_if within_ret within_send within_recv Suc)
  then show ?case by simp
qed (simp only: wait_status.simps flush_loop.simps send_device_loop.simps self_test_loop.simps mult_0 mult_0_right within_ret)

lemma within_init: "within (29 * 65537 + 32) (ps2_init io)"
proof -
  have "within (65537 + (2 * 16 + (131074 + (131074 + (131074 + (131074 + (3 * 196611 + (4 * 131074 + (131074 + (65537 + 0))))))))))
      (ps2_init io)"
    unfolding ps2_init_def Let_def flush_buffer_def read_config_def device_self_test_def send_device_def
    by (intro within_bnd within_ret within_send(1) within_flush within_ctrl within_self_test within_send_device)
  then show ?thesis by (rule within_mono) simp
qed

text \<open>C38: start-up of the keyboard controller returns a report whatever the controller answers, or if it
  does not answer at all, after at most 29 times 65537 and 32 register accesses.
\<close>

theorem ps2_init_bounded:
  "\<exists>r b'. ps2_init io b = (Ret r, b') \<and>
    length (seen b') + length (sent b') \<le> length (seen b) + length (sent b) + 29 * 65537 + 32"
  using within_init [of io] by (simp only: within_def add.assoc)

section \<open>What the controller is left with\<close>

lemma final_cfg_bits:
  "bit (final_cfg base) 0" "bit (final_cfg base) 4" "\<not> bit (final_cfg base) 1" "\<not> bit (final_cfg base) 3"
  "n \<in> {2, 5, 6, 7} \<Longrightarrow> bit (final_cfg base) n = bit base n"
  unfolding final_cfg_def CFG_IRQ_P1_def CFG_IRQ_P2_def CFG_CLK_P2_def CFG_TRANSLATE_def
  by (auto simp: bit_or_iff bit_and_iff bit_not_iff)
lemma appends_ports: "appends (in8 io p)" "appends (out8 io p v)"
  by (auto simp: appends_def dest: in8_run)

lemma appends_wait: "appends (wait_status io ok n)"
proof (induction n)
  case (Suc n)
  then show ?case unfolding wait_status.simps by (intro appends_bnd appends_if appends_ports appends_ret)
qed (simp only: wait_status.simps appends_ret)

lemma appends_bytes: "appends (send_cmd io v)" "appends (send_data io v)" "appends (recv io)"
  unfolding send_cmd_def send_data_def recv_def wait_in_ready_def wait_out_ready_def
  by (intro appends_bnd appends_if appends_ports appends_ret appends_wait)+

lemma appends_ctrl: "appends (ctrl_cmd io v)" "appends (write_config io v)"
  unfolding ctrl_cmd_def write_config_def by (intro appends_bnd appends_if appends_ret appends_bytes)+

lemma appends_flush: "appends (flush_loop io n)"
proof (induction n)
  case (Suc n)
  then show ?case unfolding flush_loop.simps by (intro appends_bnd appends_if appends_ports appends_ret)
qed (simp only: flush_loop.simps appends_ret)

lemma appends_send_device: "appends (send_device_loop io v n)"
proof (induction n)
  case (Suc n)
  then show ?case unfolding send_device_loop.simps by (intro appends_bnd appends_if appends_bytes appends_ret)
qed (simp only: send_device_loop.simps appends_ret)

lemma appends_self_test: "appends (self_test_loop io n)"
proof (induction n)
  case (Suc n)
  then show ?case unfolding self_test_loop.simps by (intro appends_bnd appends_if appends_bytes appends_ret)
qed (simp only: self_test_loop.simps appends_ret)

text \<open>A controller that takes every byte: its input buffer is never seen full.\<close>

definition takes_bytes :: "'d io \<Rightarrow> bool" where
  "takes_bytes io = (\<forall>d. of_nat (fst (reg_in io CMD_PORT d)) AND 0x02 = (0 :: byte))"

lemma send_taken:
  assumes "takes_bytes io"
  shows "\<exists>b'. send_cmd io v b = (Ret True, b') \<and> sent b' = sent b @ [(CMD_PORT, unat v)]"
    and "\<exists>b'. send_data io v b = (Ret True, b') \<and> sent b' = sent b @ [(DATA_PORT, unat v)]"
proof -
  have limit: "POLL_LIMIT = Suc 65535" by (simp add: POLL_LIMIT_def)
  have "\<exists>b1. wait_in_ready io b = (Ret True, b1) \<and> sent b1 = sent b"
    using assms unfolding wait_in_ready_def limit wait_status.simps
    by (simp add: in8_def reg_read_def bnd_def takes_bytes_def split_beta)
  then show "\<exists>b'. send_cmd io v b = (Ret True, b') \<and> sent b' = sent b @ [(CMD_PORT, unat v)]"
    "\<exists>b'. send_data io v b = (Ret True, b') \<and> sent b' = sent b @ [(DATA_PORT, unat v)]"
    by (auto simp: send_cmd_def send_data_def bnd_def)
qed

definition left_configured :: "(nat \<times> nat) list \<Rightarrow> bool" where
  "left_configured ys = (\<exists>c :: byte. ys = [(CMD_PORT, 0x60), (DATA_PORT, unat c), (CMD_PORT, 0xAE)] \<and>
     bit c 0 \<and> bit c 4 \<and> \<not> bit c 1 \<and> \<not> bit c 3)"

lemma last_steps:
  assumes "takes_bytes io"
  shows "finishes (bnd (write_config io (final_cfg base)) (\<lambda>_. bnd (send_cmd io CMD_ENABLE_P1) (\<lambda>_. ret rep))) (\<lambda>_. left_configured)"
  unfolding finishes_def
proof (intro allI impI)
  fix b r b'
  assume r: "bnd (write_config io (final_cfg base)) (\<lambda>_. bnd (send_cmd io CMD_ENABLE_P1) (\<lambda>_. ret rep)) b = (Ret r, b')"
  obtain b1 where b1: "send_cmd io CMD_WRITE_CFG b = (Ret True, b1)" "sent b1 = sent b @ [(CMD_PORT, unat CMD_WRITE_CFG)]"
    using send_taken(1) [OF assms] by blast
  obtain b2 where b2: "send_data io (final_cfg base) b1 = (Ret True, b2)" "sent b2 = sent b1 @ [(DATA_PORT, unat (final_cfg base))]"
    using send_taken(2) [OF assms] by blast
  obtain b3 where b3: "send_cmd io CMD_ENABLE_P1 b2 = (Ret True, b3)" "sent b3 = sent b2 @ [(CMD_PORT, unat CMD_ENABLE_P1)]"
    using send_taken(1) [OF assms] by blast
  have "b' = b3" using r b1(1) b2(1) b3(1) by (simp add: write_config_def bnd_def)
  then have "sent b' = sent b @ [] @ [(CMD_PORT, 0x60), (DATA_PORT, unat (final_cfg base)), (CMD_PORT, 0xAE)]"
    using b1(2) b2(2) b3(2) by (simp add: CMD_WRITE_CFG_def CMD_ENABLE_P1_def)
  then show "\<exists>xs ys. sent b' = sent b @ xs @ ys \<and> left_configured ys"
    using final_cfg_bits(1-4) [of base] unfolding left_configured_def by blast
qed

text \<open>with a controller that takes every byte, start-up ends with writing the configuration and
  enabling the keyboard port.  The names of the bits are the code's.  In the byte of the
  controller bits 0 and 1 are the interrupts of keyboard and mouse, so the first is on and the
  second off; but bits 5 and 6, the clock of the mouse and the translation, stay as they were
  read, and bit 4, which is set, stops the clock of the keyboard until the command that follows
  (\<open>final_cfg_bits\<close>).
\<close>

theorem ps2_final_configuration:
  assumes "takes_bytes io" and "ps2_init io b = (Ret r, b')"
  shows "\<exists>xs c. sent b' = sent b @ xs @ [(CMD_PORT, 0x60), (DATA_PORT, unat (c :: byte)), (CMD_PORT, 0xAE)] \<and>
    bit c 0 \<and> bit c 4 \<and> \<not> bit c 1 \<and> \<not> bit c 3"
proof -
  have "finishes (ps2_init io) (\<lambda>_. left_configured)"
    unfolding ps2_init_def Let_def flush_buffer_def read_config_def device_self_test_def send_device_def
    by (intro finishes_bnd [OF appends_bytes(1)] finishes_bnd [OF appends_flush] finishes_bnd [OF appends_ctrl(1)]
        finishes_bnd [OF appends_self_test] finishes_bnd [OF appends_send_device] finishes_bnd [OF appends_ctrl(2)] last_steps [OF assms(1)])
  then show ?thesis using assms(2) unfolding finishes_def left_configured_def by blast
qed

text \<open>A controller with an empty input buffer and one byte, an acknowledge, always ready.\<close>

definition demo_kbc :: "unit io" where
  "demo_kbc = \<lparr>reg_in = (\<lambda>r d. (if r = 0x64 then 1 else 0xFA, d)), reg_out = (\<lambda>r v d. d), clock = (\<lambda>d. 0), halt = (\<lambda>d. d)\<rparr>"

theorem ps2_final_configuration_witness:
  "\<exists>(b' :: unit bus) c. last (sent b') = (CMD_PORT, 0xAE) \<and> sent b' ! (length (sent b') - 2) = (DATA_PORT, unat (c :: byte)) \<and> bit c 0"
proof -
  let ?b = "\<lparr>dv = (), sent = [], seen = []\<rparr>"
  have t: "takes_bytes demo_kbc" by (simp add: takes_bytes_def demo_kbc_def CMD_PORT_def)
  obtain r b' where r: "ps2_init demo_kbc ?b = (Ret r, b')" using within_init unfolding within_def by blast
  from ps2_final_configuration [OF t r] obtain xs c where
    "sent b' = xs @ [(CMD_PORT, 0x60), (DATA_PORT, unat (c :: byte)), (CMD_PORT, 0xAE)]" "bit c 0" by auto
  then show ?thesis by (intro exI [of _ b'] exI [of _ c]) (simp add: nth_append)
qed

end
