(* ===== verification/Acpi.thy ===== *)
theory Acpi
  imports Heap
begin

text \<open>
  The ACPI tables (\<open>kernel/src/acpi.rs\<close>) in the bytes of memory, which are the state here.
  \<open>Fail ()\<close> is the \<open>None\<close> of the code.
\<close>

section \<open>Tables\<close>

type_synonym 'a acpi_op = "(nat \<Rightarrow> byte, unit, 'a) kernel"

record sdt_header =
  sig :: "byte list"
  sdt_len :: nat
  revision :: byte

record acpi_table =
  t_sig :: "byte list"
  t_addr :: nat

record acpi =
  a_revision :: nat
  a_xsdt :: bool
  tables :: "acpi_table list"
  table_count :: nat

definition XSDT :: "byte list" where "XSDT = [0x58, 0x53, 0x44, 0x54]"
definition RSDT :: "byte list" where "RSDT = [0x52, 0x53, 0x44, 0x54]"
definition RSD_PTR :: "byte list" where "RSD_PTR = [0x52, 0x53, 0x44, 0x20, 0x50, 0x54, 0x52, 0x20]"

definition ptr :: "nat \<Rightarrow> nat acpi_op" where
  "ptr a = bnd (guard_panic (a + PMO < 2 ^ 64)) (\<lambda>_. ret (a + PMO))"

text \<open>Bytes at a physical address.\<close>

definition fetch :: "nat \<Rightarrow> nat \<Rightarrow> nat \<Rightarrow> byte list acpi_op" where
  "fetch a off n = bnd (ptr a) (\<lambda>p. gets (get_bytes (p + off) n))"

definition checksum_ok :: "byte list \<Rightarrow> bool" where
  "checksum_ok bs = (foldl (+) 0 bs = 0)"

definition sdt_at :: "nat \<Rightarrow> sdt_header acpi_op" where
  "sdt_at a = (if a = 0 then fail ()
     else bnd (fetch a 0 36) (\<lambda>h. let n = rd 4 h 4 in
       if 64 * 1024 < n then fail ()
       else bnd (fetch a 0 n) (\<lambda>bs.
         if \<not> checksum_ok bs then fail () else ret \<lparr>sig = take 4 h, sdt_len = n, revision = h ! 8\<rparr>)))"

section \<open>The root table\<close>

definition root_here :: "nat \<Rightarrow> (nat \<times> sdt_header) option acpi_op" where
  "root_here a = bnd (fetch a 0 4) (\<lambda>s. if s = XSDT \<or> s = RSDT
     then bnd (attempt (sdt_at a)) (\<lambda>r. ret (case r of Inr h \<Rightarrow> Some (a, h) | Inl _ \<Rightarrow> None))
     else ret None)"

text \<open>The loop over one memory region, from \<open>a\<close> downwards; None when it does not end.\<close>

partial_function (option) region_loop ::
  "(nat \<Rightarrow> byte) \<Rightarrow> nat \<Rightarrow> nat \<Rightarrow> nat \<Rightarrow> (unit, (nat \<times> sdt_header) option) outcome option" where
  "region_loop m start stop a =
    (if a < stop \<and> a < (stop - 0x10000) + 0x10000 \<and> start \<le> a + 256 then
       (case fst (root_here a m) of
          Ret None \<Rightarrow>
            (if a < start then Some (Ret None)
             else if (a - 16) + 256 < stop - 0x10000 then Some (Ret None)
             else region_loop m start stop (a - 16))
        | r \<Rightarrow> Some r)
     else Some (Ret None))"

fun find_root :: "(nat \<times> nat) list \<Rightarrow> (nat \<times> sdt_header) acpi_op" where
  "find_root [] = fail ()"
| "find_root ((start, stop) # rs) = (\<lambda>m. case region_loop m start stop (stop - 0x10000) of
     None \<Rightarrow> (Hang, m)
   | Some (Ret None) \<Rightarrow> find_root rs m
   | Some (Ret (Some x)) \<Rightarrow> (Ret x, m)
   | Some (Fail e) \<Rightarrow> (Fail e, m)
   | Some Panic \<Rightarrow> (Panic, m)
   | Some PowerOff \<Rightarrow> (PowerOff, m)
   | Some Hang \<Rightarrow> (Hang, m))"

definition root_table :: "nat option \<Rightarrow> (nat \<times> nat) list \<Rightarrow> (nat \<times> sdt_header) acpi_op" where
  "root_table rsdp regions = (case rsdp of
     None \<Rightarrow> find_root regions
   | Some r \<Rightarrow> bnd (fetch r 0 36) (\<lambda>hdr.
       if take 8 hdr \<noteq> RSD_PTR \<or> \<not> checksum_ok (take 20 hdr) then find_root regions
       else bnd (if 2 \<le> unat (hdr ! 15) then fetch r 24 8 else fetch r 16 4) (\<lambda>bs.
         bnd (sdt_at (le_dec bs)) (\<lambda>h. ret (le_dec bs, h)))))"

section \<open>The list of tables\<close>

fun list_tables :: "nat \<Rightarrow> bool \<Rightarrow> nat list \<Rightarrow> acpi_table list acpi_op" where
  "list_tables root xsdt [] = ret []"
| "list_tables root xsdt (i # is) =
    bnd (if xsdt then fetch root (36 + i * 8) 8 else fetch root (36 + i * 4) 4) (\<lambda>bs.
    bnd (attempt (sdt_at (le_dec bs))) (\<lambda>r.
    bnd (list_tables root xsdt is) (\<lambda>ts.
    ret (case r of Inr h \<Rightarrow> \<lparr>t_sig = sig h, t_addr = le_dec bs\<rparr> # ts | Inl _ \<Rightarrow> ts))))"

text \<open>The array of 32 is filled up with empty entries.\<close>

definition acpi_init :: "nat option \<Rightarrow> (nat \<times> nat) list \<Rightarrow> acpi acpi_op" where
  "acpi_init rsdp regions =
     bnd (root_table rsdp regions) (\<lambda>(root, h0). let xsdt = (sig h0 = XSDT) in
     bnd (sdt_at root) (\<lambda>h.
     bnd (guard_panic (36 \<le> sdt_len h)) (\<lambda>_. let entries = (sdt_len h - 36) div (if xsdt then 8 else 4) in
     bnd (list_tables root xsdt [0..<min entries 32]) (\<lambda>ts.
     ret \<lparr>a_revision = (if xsdt then 2 else 1), a_xsdt = xsdt,
       tables = ts @ replicate (32 - length ts) \<lparr>t_sig = [0, 0, 0, 0], t_addr = 0\<rparr>, table_count = length ts\<rparr>))))"

definition find_table :: "acpi \<Rightarrow> byte list \<Rightarrow> acpi_table option" where
  "find_table a s = find (\<lambda>t. t_sig t = s) (take (table_count a) (tables a))"

section \<open>What the list holds\<close>

text \<open>A table in memory: its header names its signature and length, and its bytes sum to zero.\<close>

definition valid_table :: "(nat \<Rightarrow> byte) \<Rightarrow> acpi_table \<Rightarrow> bool" where
  "valid_table m t = (t_addr t \<noteq> 0 \<and> t_sig t = get_bytes (t_addr t + PMO) 4 m \<and>
     (let n = le_dec (get_bytes (t_addr t + PMO + 4) 4 m) in n \<le> 65536 \<and> checksum_ok (get_bytes (t_addr t + PMO) n m)))"

lemma fetch_run: "fetch a off n m = (if a + PMO < 2 ^ 64 then (Ret (get_bytes (a + PMO + off) n m), m) else (Panic, m))"
  by (simp add: fetch_def ptr_def bnd_def)

lemma take_get_bytes: "k \<le> n \<Longrightarrow> take k (get_bytes a n m) = get_bytes a k m"
  by (simp add: get_bytes_def take_map)

lemma rd_get_bytes: "off + k \<le> n \<Longrightarrow> rd k (get_bytes a n m) off = le_dec (get_bytes (a + off) k m)"
  by (simp add: rd_def sub_def get_bytes_def drop_map take_map add.assoc)

lemma sdt_at_state: "snd (sdt_at a m) = m"
  by (simp add: sdt_at_def bnd_def fetch_run Let_def)

lemma sdt_at_Ret: "sdt_at a m = (r, m') \<Longrightarrow> m' = m"
  using sdt_at_state [of a m] by simp

lemma find_root_state: "snd (find_root rs m) = m"
proof (induction rs)
  case (Cons p rs)
  show ?case
    by (cases p; cases "region_loop m (fst p) (snd p) (snd p - 0x10000)")
      (simp_all add: Cons split: outcome.split option.split)
qed simp

lemma find_root_Ret: "find_root rs m = (r, m') \<Longrightarrow> m' = m"
  using find_root_state [of rs m] by simp

lemma sdt_at_valid:
  assumes "sdt_at a m = (Ret h, m')"
  shows "valid_table m \<lparr>t_sig = sig h, t_addr = a\<rparr>"
  using assms by (auto simp: sdt_at_def bnd_def fetch_run Let_def valid_table_def take_get_bytes rd_get_bytes split: if_splits)

lemma attempt_sdt: "attempt (sdt_at a) m = (Ret r, m') \<Longrightarrow> m' = m \<and> (\<forall>h. r = Inr h \<longrightarrow> sdt_at a m = (Ret h, m))"
  using sdt_at_state [of a m] by (auto simp: attempt_def split: prod.splits outcome.splits)

lemma list_tables_valid:
  "list_tables root xsdt is m = (Ret ts, m') \<Longrightarrow> m' = m \<and> length ts \<le> length is \<and> (\<forall>t \<in> set ts. valid_table m t)"
proof (induction "is" arbitrary: ts m')
  case (Cons i "is")
  obtain bs r ts1 where *: "attempt (sdt_at (le_dec bs)) m = (Ret r, m)" "list_tables root xsdt is m = (Ret ts1, m)"
    "ts = (case r of Inr h \<Rightarrow> \<lparr>t_sig = sig h, t_addr = le_dec bs\<rparr> # ts1 | Inl _ \<Rightarrow> ts1)" "m' = m"
  proof -
    obtain bs m1 where 1: "(if xsdt then fetch root (36 + i * 8) 8 else fetch root (36 + i * 4) 4) m = (Ret bs, m1)"
      "bnd (attempt (sdt_at (le_dec bs))) (\<lambda>r. bnd (list_tables root xsdt is) (\<lambda>ts.
        ret (case r of Inr h \<Rightarrow> \<lparr>t_sig = sig h, t_addr = le_dec bs\<rparr> # ts | Inl _ \<Rightarrow> ts))) m1 = (Ret ts, m')"
      using Cons.prems unfolding list_tables.simps by (rule bnd_RetE)
    then have "m1 = m" by (auto simp: fetch_run split: if_splits)
    obtain r m2 where 2: "attempt (sdt_at (le_dec bs)) m = (Ret r, m2)" "bnd (list_tables root xsdt is) (\<lambda>ts.
        ret (case r of Inr h \<Rightarrow> \<lparr>t_sig = sig h, t_addr = le_dec bs\<rparr> # ts | Inl _ \<Rightarrow> ts)) m2 = (Ret ts, m')"
      using 1(2) unfolding \<open>m1 = m\<close> by (rule bnd_RetE)
    have m2: "m2 = m" using attempt_sdt [OF 2(1)] by simp
    obtain ts1 m3 where 3: "list_tables root xsdt is m = (Ret ts1, m3)"
      "ts = (case r of Inr h \<Rightarrow> \<lparr>t_sig = sig h, t_addr = le_dec bs\<rparr> # ts1 | Inl _ \<Rightarrow> ts1)" "m' = m3"
      using 2(2) unfolding m2 by (rule bnd_RetE) simp
    have "m3 = m" using Cons.IH [OF 3(1)] by simp
    then show thesis using that 2(1) 3 unfolding m2 by simp
  qed
  then show ?case using Cons.IH [OF *(2)] attempt_sdt [OF *(1)] sdt_at_valid by (auto split: sum.splits)
qed simp

lemma root_table_state: "snd (root_table rsdp regions m) = m"
proof (cases rsdp)
  case None
  then show ?thesis by (simp add: root_table_def find_root_state)
next
  case (Some a)
  have "snd (bnd (sdt_at x) (\<lambda>h. ret (x, h)) m) = m" for x
    using sdt_at_state [of x m] by (auto simp: bnd_def split: prod.split outcome.split)
  then show ?thesis unfolding root_table_def Some option.case bnd_def fetch_run
    by (simp add: find_root_state fetch_run split: prod.split)
qed

lemma root_table_Ret: "root_table rsdp regions m = (r, m') \<Longrightarrow> m' = m"
  using root_table_state [of rsdp regions m] by simp

text \<open>C39: every table that start-up lists, at most 32, is a valid one at its address: not at address 0, no
  longer than 64 KiB, with a checksum of zero and the listed signature; and the search for a
  signature finds such a table with this signature.
\<close>

theorem listed_tables_valid:
  assumes "acpi_init rsdp regions m = (Ret a, m')"
  shows "m' = m \<and> table_count a \<le> 32 \<and> length (tables a) = 32 \<and>
    (\<forall>t \<in> set (take (table_count a) (tables a)). valid_table m t) \<and>
    (\<forall>s t. find_table a s = Some t \<longrightarrow> valid_table m t \<and> t_sig t = s)"
proof -
  obtain root h0 m1 where 1: "root_table rsdp regions m = (Ret (root, h0), m1)"
    "bnd (sdt_at root) (\<lambda>h. bnd (guard_panic (36 \<le> sdt_len h)) (\<lambda>_.
     bnd (list_tables root (sig h0 = XSDT) [0..<min ((sdt_len h - 36) div (if sig h0 = XSDT then 8 else 4)) 32]) (\<lambda>ts.
     ret \<lparr>a_revision = (if sig h0 = XSDT then 2 else 1), a_xsdt = (sig h0 = XSDT),
       tables = ts @ replicate (32 - length ts) \<lparr>t_sig = [0, 0, 0, 0], t_addr = 0\<rparr>, table_count = length ts\<rparr>))) m1 = (Ret a, m')"
    using assms unfolding acpi_init_def Let_def by (auto elim!: bnd_RetE [where m = "root_table _ _"])
  have m1: "m1 = m" by (rule root_table_Ret [OF 1(1)])
  obtain h m2 where 2: "sdt_at root m = (Ret h, m2)"
    "bnd (guard_panic (36 \<le> sdt_len h)) (\<lambda>_.
     bnd (list_tables root (sig h0 = XSDT) [0..<min ((sdt_len h - 36) div (if sig h0 = XSDT then 8 else 4)) 32]) (\<lambda>ts.
     ret \<lparr>a_revision = (if sig h0 = XSDT then 2 else 1), a_xsdt = (sig h0 = XSDT),
       tables = ts @ replicate (32 - length ts) \<lparr>t_sig = [0, 0, 0, 0], t_addr = 0\<rparr>, table_count = length ts\<rparr>)) m2 = (Ret a, m')"
    using 1(2) unfolding m1 by (rule bnd_RetE)
  have m2: "m2 = m" by (rule sdt_at_Ret [OF 2(1)])
  obtain ts m3 where 3: "list_tables root (sig h0 = XSDT) [0..<min ((sdt_len h - 36) div (if sig h0 = XSDT then 8 else 4)) 32] m = (Ret ts, m3)"
    "tables a = ts @ replicate (32 - length ts) \<lparr>t_sig = [0, 0, 0, 0], t_addr = 0\<rparr>" "table_count a = length ts" "m' = m3"
    using 2(2) unfolding m2 by (auto elim!: bnd_RetE split: if_splits)
  have "length ts \<le> 32" "\<forall>t \<in> set ts. valid_table m t" using list_tables_valid [OF 3(1)] by simp_all
  moreover have "m' = m" using list_tables_valid [OF 3(1)] 3(4) by simp
  ultimately show ?thesis using 3(2,3) by (auto simp: find_table_def find_Some_iff)
qed

section \<open>Searches that do not end and tables that are too short\<close>

text \<open>A region that begins at address 0 and ends within 256 bytes of 64 KiB is searched for ever
  when it holds no root table.\<close>

lemma region_loop_stuck:
  assumes "region_loop m 0 stop a = Some r" and "stop \<le> 0x10100" and "0 < stop" and "a < stop" and "a < (stop - 0x10000) + 0x10000"
    and "\<And>a. a < stop \<Longrightarrow> fst (root_here a m) = Ret None"
  shows False
proof -
  have "\<not> (a < stop \<and> a < (stop - 0x10000) + 0x10000)" if "region_loop m start stop a = Some r" "start = 0" for start a r
    by (rule region_loop.raw_induct [OF _ that(1), where P = "\<lambda>m' start' stop' a' r'. m' = m \<longrightarrow> start' = start \<longrightarrow> stop' = stop \<longrightarrow>
        \<not> (a' < stop' \<and> a' < (stop' - 0x10000) + 0x10000)", rule_format])
      (use assms(2,3,6) that(2) in \<open>auto split: if_splits\<close>, metis less_imp_diff_less)
  then show ?thesis using assms(1,4,5) by blast
qed
lemma search_hangs:
  assumes "0 < stop" and "stop \<le> 0x10100" and "\<And>a. a < stop \<Longrightarrow> fst (root_here a m) = Ret None"
  shows "find_root ((0, stop) # rs) m = (Hang, m)"
proof (cases "region_loop m 0 stop (stop - 0x10000)")
  case None
  then show ?thesis by simp
next
  case (Some r)
  have False by (rule region_loop_stuck [OF Some assms(2,1) _ _ assms(3)]) (use assms(1,2) in simp_all)
  then show ?thesis ..
qed

lemma search_hangs_in_empty_memory: "find_root [(0, 0x1000)] (\<lambda>_. 0) = (Hang, \<lambda>_. 0)"
  by (rule search_hangs) (simp_all add: root_here_def fetch_run bnd_def get_bytes_def XSDT_def RSDT_def PMO_def map_replicate_const replicate_num)

lemma short_root_panics:
  assumes "root_table rsdp regions m = (Ret (root, h0), m)" and "sdt_at root m = (Ret h, m)" and "sdt_len h < 36"
  shows "acpi_init rsdp regions m = (Panic, m)"
  using assms by (simp add: acpi_init_def bnd_def Let_def)

section \<open>An example\<close>

text \<open>A root pointer, a root table with one entry and that table.\<close>

definition demo_rsdp :: "byte list" where
  "demo_rsdp = [82, 83, 68, 32, 80, 84, 82, 32, 193, 0, 0, 0, 0, 0, 0, 0, 0, 32, 0, 0, 0, 0, 0, 0, 0, 0, 0, 0, 0, 0, 0, 0, 0, 0, 0, 0]"

definition demo_rsdt :: "byte list" where
  "demo_rsdt = [82, 83, 68, 84, 40, 0, 0, 0, 1, 106, 0, 0, 0, 0, 0, 0, 0, 0, 0, 0, 0, 0, 0, 0, 0, 0, 0, 0, 0, 0, 0, 0, 0, 0, 0, 0, 0, 48, 0, 0]"

definition demo_madt :: "byte list" where
  "demo_madt = [65, 80, 73, 67, 36, 0, 0, 0, 1, 190, 0, 0, 0, 0, 0, 0, 0, 0, 0, 0, 0, 0, 0, 0, 0, 0, 0, 0, 0, 0, 0, 0, 0, 0, 0, 0]"

definition demo_memory :: "nat \<Rightarrow> byte" where
  "demo_memory = put_bytes (0x1000 + PMO) demo_rsdp (put_bytes (0x2000 + PMO) demo_rsdt (put_bytes (0x3000 + PMO) demo_madt (\<lambda>_. 0)))"

lemma demo_lengths: "length demo_rsdp = 36" "length demo_rsdt = 40" "length demo_madt = 36"
  by (simp_all add: demo_rsdp_def demo_rsdt_def demo_madt_def)

lemma demo_bytes:
  "off + n \<le> 36 \<Longrightarrow> get_bytes (0x1000 + PMO + off) n demo_memory = sub off n demo_rsdp"
  "off + n \<le> 40 \<Longrightarrow> get_bytes (0x2000 + PMO + off) n demo_memory = sub off n demo_rsdt"
  "off + n \<le> 36 \<Longrightarrow> get_bytes (0x3000 + PMO + off) n demo_memory = sub off n demo_madt"
  unfolding demo_memory_def by (simp_all add: get_put_bytes get_put_bytes_other demo_lengths)

lemma demo_fetch:
  "off + n \<le> 36 \<Longrightarrow> fetch 0x1000 off n demo_memory = (Ret (sub off n demo_rsdp), demo_memory)"
  "off + n \<le> 40 \<Longrightarrow> fetch 0x2000 off n demo_memory = (Ret (sub off n demo_rsdt), demo_memory)"
  "off + n \<le> 36 \<Longrightarrow> fetch 0x3000 off n demo_memory = (Ret (sub off n demo_madt), demo_memory)"
  using demo_bytes by (simp_all add: fetch_run PMO_def)

lemma demo_tables:
  "sdt_at 0x2000 demo_memory = (Ret \<lparr>sig = RSDT, sdt_len = 40, revision = 1\<rparr>, demo_memory)"
  "sdt_at 0x3000 demo_memory = (Ret \<lparr>sig = [0x41, 0x50, 0x49, 0x43], sdt_len = 36, revision = 1\<rparr>, demo_memory)"
  by (simp_all add: sdt_at_def bnd_def demo_fetch Let_def sub_def rd_def demo_rsdt_def demo_madt_def checksum_ok_def RSDT_def)

lemma demo_acpi: "acpi_init (Some 0x1000) [] demo_memory =
    (Ret \<lparr>a_revision = 1, a_xsdt = False, tables = \<lparr>t_sig = [0x41, 0x50, 0x49, 0x43], t_addr = 0x3000\<rparr> #
      replicate 31 \<lparr>t_sig = [0, 0, 0, 0], t_addr = 0\<rparr>, table_count = 1\<rparr>, demo_memory)"
proof -
  have "root_table (Some 0x1000) [] demo_memory = (Ret (0x2000, \<lparr>sig = RSDT, sdt_len = 40, revision = 1\<rparr>), demo_memory)"
    by (simp add: root_table_def bnd_def demo_fetch demo_tables sub_def demo_rsdp_def RSD_PTR_def checksum_ok_def)
  moreover have "list_tables 0x2000 False [0] demo_memory = (Ret [\<lparr>t_sig = [0x41, 0x50, 0x49, 0x43], t_addr = 0x3000\<rparr>], demo_memory)"
    by (simp add: bnd_def demo_fetch demo_tables attempt_def sub_def demo_rsdt_def)
  ultimately show ?thesis
    by (simp add: acpi_init_def Let_def bnd_def demo_tables RSDT_def XSDT_def del: replicate.simps)
qed

theorem listed_tables_valid_witness:
  "find_table (\<lparr>a_revision = 1, a_xsdt = False, tables = \<lparr>t_sig = [0x41, 0x50, 0x49, 0x43], t_addr = 0x3000\<rparr> #
      replicate 31 \<lparr>t_sig = [0, 0, 0, 0], t_addr = 0\<rparr>, table_count = 1\<rparr>) [0x41, 0x50, 0x49, 0x43] =
     Some \<lparr>t_sig = [0x41, 0x50, 0x49, 0x43], t_addr = 0x3000\<rparr> \<and>
   valid_table demo_memory \<lparr>t_sig = [0x41, 0x50, 0x49, 0x43], t_addr = 0x3000\<rparr>"
proof -
  let ?t = "\<lparr>t_sig = [0x41, 0x50, 0x49, 0x43], t_addr = 0x3000\<rparr>"
  have f: "find_table (\<lparr>a_revision = 1, a_xsdt = False, tables = ?t # replicate 31 \<lparr>t_sig = [0, 0, 0, 0], t_addr = 0\<rparr>,
      table_count = 1\<rparr>) [0x41, 0x50, 0x49, 0x43] = Some ?t"
    unfolding find_table_def acpi.select_convs by (simp del: replicate.simps)
  show ?thesis using f conjunct2 [OF conjunct2 [OF conjunct2 [OF conjunct2 [OF listed_tables_valid [OF demo_acpi]]]]] by blast
qed

end
