(* ===== verification/Apic.thy ===== *)
theory Apic
  imports Pio Acpi
begin

text \<open>
  The interrupt controllers (\<open>kernel/src/apic.rs\<close>, the masking of the old controllers in
  \<open>interrupts.rs\<close>): the records of the MADT, the redirection entries and the calibration of
  the timer.  Device registers are those of theory Io, at their virtual addresses.
\<close>

section \<open>The records of the MADT\<close>

definition LAPIC_DEF :: nat where "LAPIC_DEF = 0xFEE00000"
definition IOAPIC_DEF :: nat where "IOAPIC_DEF = 0xFEC00000"
definition IOREGSEL :: nat where "IOREGSEL = 0x00"
definition IOREGWIN :: nat where "IOREGWIN = 0x10"
definition IOAPIC_VER :: u32 where "IOAPIC_VER = 0x01"
definition IOAPIC_REDIR :: u32 where "IOAPIC_REDIR = 0x10"
definition MAX_PINS :: u32 where "MAX_PINS = 24"
definition REDIR_MASK :: "64 word" where "REDIR_MASK = push_bit 16 1"
definition REDIR_POLARITY :: "64 word" where "REDIR_POLARITY = push_bit 12 1"
definition REDIR_TRIGGER :: "64 word" where "REDIR_TRIGGER = push_bit 13 1"
definition LVT_TIMER :: nat where "LVT_TIMER = 0x320"
definition LAPIC_DIV_CONF :: nat where "LAPIC_DIV_CONF = 0x3E0"
definition LAPIC_INIT_COUNT :: nat where "LAPIC_INIT_COUNT = 0x380"
definition LAPIC_CURR_COUNT :: nat where "LAPIC_CURR_COUNT = 0x390"
definition TIMER_PERIODIC :: u32 where "TIMER_PERIODIC = 0x20000"
definition TIMER_MASKED :: u32 where "TIMER_MASKED = 0x10000"
definition TIMER_VECTOR :: u32 where "TIMER_VECTOR = 32"

record apic_state =
  iso :: "(u32 \<times> 16 word) list"
  ioapic_base :: nat

definition APIC_STATE :: apic_state where
  "APIC_STATE = \<lparr>iso = replicate 16 (0xFFFFFFFF, 0xFFFF), ioapic_base = IOAPIC_DEF\<rparr>"

definition num_at :: "(nat \<Rightarrow> byte) \<Rightarrow> nat \<Rightarrow> nat \<Rightarrow> nat" where
  "num_at m n a = le_dec (get_bytes a n m)"

text \<open>One record: a controller sets the base address, an override its interrupt.\<close>

definition madt_record :: "(nat \<Rightarrow> byte) \<Rightarrow> nat \<Rightarrow> apic_state \<Rightarrow> apic_state" where
  "madt_record m r s = (let typ = unat (m r) in
     if typ = 1 then s\<lparr>ioapic_base := num_at m 4 (r + 4)\<rparr>
     else if typ = 2 then
       (if unat (m (r + 3)) < 16
        then s\<lparr>iso := (iso s)[unat (m (r + 3)) := (of_nat (num_at m 4 (r + 4)), of_nat (num_at m 2 (r + 8)))]\<rparr> else s)
     else s)"

function madt_loop :: "(nat \<Rightarrow> byte) \<Rightarrow> nat \<Rightarrow> nat \<Rightarrow> nat \<Rightarrow> apic_state \<Rightarrow> apic_state" where
  "madt_loop m base n off s =
    (if off + 2 \<le> n then
       (let len = unat (m (base + off + 1)) in
        if len < 2 \<or> n < off + len then s else madt_loop m base n (off + len) (madt_record m (base + off) s))
     else s)"
  by pat_completeness auto
termination by (relation "measure (\<lambda>(m, base, n, off, s). n - off)") auto

declare madt_loop.simps [simp del]

text \<open>Without a controller among the records the base is the default one.\<close>

definition read_madt :: "(nat \<Rightarrow> byte) \<Rightarrow> nat \<Rightarrow> apic_state \<Rightarrow> apic_state" where
  "read_madt m base s = madt_loop m base (num_at m 4 (base + 4)) 0x2C (s\<lparr>ioapic_base := IOAPIC_DEF\<rparr>)"

definition gsi_of :: "nat \<Rightarrow> apic_state \<Rightarrow> u32 \<times> 16 word" where
  "gsi_of irq s = (let e = iso s ! (irq mod 16) in if e = (0xFFFFFFFF, 0xFFFF) then (of_nat irq, 0) else e)"

section \<open>Registers\<close>

definition lapic_read :: "'d io \<Rightarrow> nat \<Rightarrow> ('d, u32) dop" where
  "lapic_read io off = bnd (reg_read io (LAPIC_DEF + off + PMO)) (\<lambda>v. ret (of_nat v))"

definition lapic_write :: "'d io \<Rightarrow> nat \<Rightarrow> u32 \<Rightarrow> ('d, unit) dop" where
  "lapic_write io off v = reg_write io (LAPIC_DEF + off + PMO) (unat v)"

definition eoi :: "'d io \<Rightarrow> ('d, unit) dop" where
  "eoi io = lapic_write io 0xB0 0"

definition ioapic_read :: "'d io \<Rightarrow> nat \<Rightarrow> u32 \<Rightarrow> ('d, u32) dop" where
  "ioapic_read io base reg = bnd (reg_write io (base + IOREGSEL + PMO) (unat reg)) (\<lambda>_.
     bnd (reg_read io (base + IOREGWIN + PMO)) (\<lambda>v. ret (of_nat v)))"

definition ioapic_write :: "'d io \<Rightarrow> nat \<Rightarrow> u32 \<Rightarrow> u32 \<Rightarrow> ('d, unit) dop" where
  "ioapic_write io base reg v = bnd (reg_write io (base + IOREGSEL + PMO) (unat reg)) (\<lambda>_.
     reg_write io (base + IOREGWIN + PMO) (unat v))"

text \<open>\<open>IOAPIC_REDIR + pin * 2\<close> in 32 bits; with \<open>k = 1\<close> the register of the upper half.\<close>

definition redir_reg :: "u32 \<Rightarrow> nat \<Rightarrow> ('d, u32) dop" where
  "redir_reg pin k = bnd (guard_panic (0x10 + unat pin * 2 + k < 2 ^ 32)) (\<lambda>_. ret (IOAPIC_REDIR + pin * 2 + of_nat k))"

definition ioapic_mask_pin :: "'d io \<Rightarrow> nat \<Rightarrow> u32 \<Rightarrow> ('d, unit) dop" where
  "ioapic_mask_pin io base pin =
     bnd (redir_reg pin 0) (\<lambda>reg. bnd (ioapic_read io base reg) (\<lambda>lo.
     bnd (redir_reg pin 1) (\<lambda>reg1. bnd (ioapic_read io base reg1) (\<lambda>hi.
     bnd (ioapic_write io base reg lo) (\<lambda>_. ioapic_write io base reg1 (hi OR 0x00010000))))))"

definition redir_entry :: "byte \<Rightarrow> 16 word \<Rightarrow> 64 word" where
  "redir_entry vector flags = ucast vector OR (ucast flags AND 0x3F) OR (drop_bit 7 (ucast flags) AND REDIR_POLARITY) OR
     (drop_bit 3 (ucast flags) AND REDIR_TRIGGER)"

definition program_pin :: "'d io \<Rightarrow> nat \<Rightarrow> u32 \<Rightarrow> byte \<Rightarrow> 16 word \<Rightarrow> ('d, unit) dop" where
  "program_pin io base pin vector flags = (let e = redir_entry vector flags in
     bnd (redir_reg pin 0) (\<lambda>reg. bnd (ioapic_write io base reg (ucast e)) (\<lambda>_.
     bnd (redir_reg pin 1) (\<lambda>reg1. ioapic_write io base reg1 (ucast (drop_bit 32 e))))))"

definition pic_mask_all :: "'d io \<Rightarrow> ('d, unit) dop" where
  "pic_mask_all io = bnd (out8 io 0x21 0xFF) (\<lambda>_. out8 io 0xA1 0xFF)"

section \<open>Routing the interrupts\<close>

text \<open>Unmasked pins other than those of timer and keyboard get the vector of stray interrupts.\<close>

fun stray_pins :: "'d io \<Rightarrow> nat \<Rightarrow> u32 \<Rightarrow> u32 \<Rightarrow> nat list \<Rightarrow> ('d, unit) dop" where
  "stray_pins io base pit kbd [] = ret ()"
| "stray_pins io base pit kbd (p # ps) =
    (if of_nat p = pit \<or> of_nat p = kbd then stray_pins io base pit kbd ps
     else bnd (redir_reg (of_nat p) 0) (\<lambda>reg. bnd (ioapic_read io base reg) (\<lambda>lo.
     bnd (redir_reg (of_nat p) 1) (\<lambda>reg1. bnd (ioapic_read io base reg1) (\<lambda>hi.
     bnd (if ((ucast lo :: 64 word) OR push_bit 32 (ucast hi)) AND REDIR_MASK = 0 then program_pin io base (of_nat p) 0xEF 0x8000
       else ret ()) (\<lambda>_. stray_pins io base pit kbd ps))))))"

definition route_irqs :: "'d io \<Rightarrow> apic_state \<Rightarrow> ('d, unit) dop" where
  "route_irqs io s =
     bnd (lapic_read io 0xF0) (\<lambda>svr. bnd (lapic_write io 0xF0 (svr OR 0x100)) (\<lambda>_.
     bnd (ioapic_read io (ioapic_base s) IOAPIC_VER) (\<lambda>ver. let pins = (drop_bit 16 ver AND 0xFF) + 1 in
     bnd (stray_pins io (ioapic_base s) (fst (gsi_of 0 s)) (fst (gsi_of 1 s)) [0..<unat (min pins MAX_PINS)]) (\<lambda>_.
     bnd (program_pin io (ioapic_base s) (min (fst (gsi_of 0 s)) (pins - 1)) 32 (snd (gsi_of 0 s))) (\<lambda>_.
     bnd (program_pin io (ioapic_base s) (min (fst (gsi_of 1 s)) (pins - 1)) 33 (snd (gsi_of 1 s))) (\<lambda>_.
     pic_mask_all io))))))"

definition MADT_SIG :: "byte list" where "MADT_SIG = [0x41, 0x50, 0x49, 0x43]"

definition apic_init :: "'d io \<Rightarrow> (nat \<Rightarrow> byte) \<Rightarrow> acpi \<Rightarrow> apic_state \<Rightarrow> ('d, bool \<times> apic_state) dop" where
  "apic_init io m a s = (case find_table a MADT_SIG of
     None \<Rightarrow> ret (False, s)
   | Some t \<Rightarrow> bnd (guard_panic (t_addr t + PMO < 2 ^ 64)) (\<lambda>_. let s' = read_madt m (t_addr t + PMO) s in
       bnd (route_irqs io s') (\<lambda>_. ret (True, s'))))"

section \<open>The timer\<close>

text \<open>\<open>sleep_ms\<close> before the scheduler runs: halt until the clock has come so far.\<close>

definition sleep_idle :: "'d io \<Rightarrow> nat \<Rightarrow> ('d, unit) dop" where
  "sleep_idle io ms = bnd (wait_for io (max ms 1) (\<lambda>d. (False, d))) (\<lambda>_. ret ())"

definition calibrated :: "u32 \<Rightarrow> u32 \<Rightarrow> u32" where
  "calibrated used10 used100 = (if unat used100 < 2 ^ 31 - 1 then used100 div 100 else used10 div 10)"

definition timer_init :: "'d io \<Rightarrow> apic_state \<Rightarrow> ('d, bool) dop" where
  "timer_init io s =
     bnd (lapic_write io LVT_TIMER (TIMER_MASKED OR TIMER_PERIODIC OR TIMER_VECTOR)) (\<lambda>_.
     bnd (lapic_write io LAPIC_DIV_CONF 11) (\<lambda>_.
     bnd (lapic_write io LAPIC_INIT_COUNT 0xFFFFFFFF) (\<lambda>_. bnd (sleep_idle io 10) (\<lambda>_.
     bnd (lapic_read io LAPIC_CURR_COUNT) (\<lambda>c10. let used10 = 0xFFFFFFFF - c10 in
     if used10 = 0 \<or> 2 ^ 31 - 1 \<le> unat used10 then ret False
     else bnd (lapic_write io LAPIC_INIT_COUNT 0xFFFFFFFF) (\<lambda>_. bnd (sleep_idle io 100) (\<lambda>_.
     bnd (lapic_read io LAPIC_CURR_COUNT) (\<lambda>c100. let per_ms = calibrated used10 (0xFFFFFFFF - c100) in
     if per_ms = 0 then ret False
     else bnd (ioapic_mask_pin io (ioapic_base s) (fst (gsi_of 0 s))) (\<lambda>_.
     bnd (lapic_write io LAPIC_DIV_CONF 11) (\<lambda>_. bnd (lapic_write io LAPIC_INIT_COUNT per_ms) (\<lambda>_.
     bnd (lapic_write io LVT_TIMER (TIMER_PERIODIC OR TIMER_VECTOR)) (\<lambda>_. ret True))))))))))))"
section \<open>Redirection entries\<close>

text \<open>The overrides' polarity and trigger mode never reach the entry; their low six bits go into the vector.\<close>

lemma redir_entry_flags: "redir_entry v flags = ucast v OR (ucast flags AND 0x3F)"
proof -
  have p: "drop_bit 7 (ucast flags :: 64 word) AND REDIR_POLARITY = 0"
    by (rule bit_word_eqI, unfold REDIR_POLARITY_def bit_and_iff bit_drop_bit_eq bit_ucast_iff bit_push_bit_iff bit_1_iff comp_apply)
      (auto dest: bit_imp_le_length)
  have t: "drop_bit 3 (ucast flags :: 64 word) AND REDIR_TRIGGER = 0"
    by (rule bit_word_eqI, unfold REDIR_TRIGGER_def bit_and_iff bit_drop_bit_eq bit_ucast_iff bit_push_bit_iff bit_1_iff comp_apply)
      (auto dest: bit_imp_le_length)
  show ?thesis unfolding redir_entry_def p t by simp
qed

lemma redir_entry_high: "drop_bit 32 (redir_entry v flags) = 0"
  unfolding redir_entry_flags
  by (rule bit_word_eqI) (auto simp: bit_or_iff bit_and_iff bit_drop_bit_eq bit_ucast_iff dest: bit_imp_le_length)

lemma flags_change_vector: "redir_entry 33 0x000D = 45"
  unfolding redir_entry_flags by simp

text \<open>The mask bit of the timer pin is set in the wrong half: the half that holds it is written
  back as it was.\<close>

lemma mask_pin_writes:
  assumes "ioapic_mask_pin io base pin b = (Ret r, b')"
  shows "\<exists>lo hi. seen b' = seen b @ [(base + 0x10 + PMO, lo), (base + 0x10 + PMO, hi)] \<and>
    sent b' = sent b @ [(base + PMO, unat (IOAPIC_REDIR + pin * 2)), (base + PMO, unat (IOAPIC_REDIR + pin * 2 + 1)),
      (base + PMO, unat (IOAPIC_REDIR + pin * 2)), (base + 0x10 + PMO, unat (of_nat lo :: u32)),
      (base + PMO, unat (IOAPIC_REDIR + pin * 2 + 1)), (base + 0x10 + PMO, unat ((of_nat hi :: u32) OR 0x00010000))]"
  using assms by (auto simp: ioapic_mask_pin_def redir_reg_def ioapic_read_def ioapic_write_def reg_write_def reg_read_def bnd_def
      IOREGSEL_def IOREGWIN_def split: prod.splits if_splits)

section \<open>What start-up leaves in the controller\<close>

definition pin_writes :: "nat \<Rightarrow> u32 \<Rightarrow> byte \<Rightarrow> 16 word \<Rightarrow> (nat \<times> nat) list" where
  "pin_writes base pin v flags = [(base + PMO, 0x10 + unat pin * 2), (base + 0x10 + PMO, unat (ucast v OR (ucast flags AND 0x3F) :: u32)),
     (base + PMO, 0x10 + unat pin * 2 + 1), (base + 0x10 + PMO, 0)]"

lemma plain_vector:
  assumes "flags AND 0x3F = 0"
  shows "pin_writes base pin v flags =
    [(base + PMO, 0x10 + unat pin * 2), (base + 0x10 + PMO, unat v), (base + PMO, 0x10 + unat pin * 2 + 1), (base + 0x10 + PMO, 0)]"
proof -
  have "ucast flags AND 0x3F = (ucast (flags AND 0x3F) :: u32)" by (simp add: unsigned_and_eq)
  then have "ucast flags AND 0x3F = (0 :: u32)" using assms by simp
  moreover have "unat v < 2 ^ 32" by (rule less_le_trans [OF unsigned_less]) simp
  ultimately show ?thesis by (simp add: pin_writes_def unsigned_ucast_eq take_bit_nat_eq_self)
qed

lemma redir_reg_run: "redir_reg pin k b = (if 0x10 + unat pin * 2 + k < 2 ^ 32 then (Ret (IOAPIC_REDIR + pin * 2 + of_nat k), b) else (Panic, b))"
  by (simp add: redir_reg_def bnd_def)

lemma redir_reg_value:
  assumes "0x10 + unat pin * 2 + k < (2 :: nat) ^ 32"
  shows "unat (IOAPIC_REDIR + pin * 2 + of_nat k) = 0x10 + unat pin * 2 + k"
proof -
  have "IOAPIC_REDIR + pin * 2 + of_nat k = of_nat (0x10 + unat pin * 2 + k)" by (simp add: IOAPIC_REDIR_def)
  then show ?thesis using assms by (simp only: unat_of_nat) simp
qed

lemma program_pin_sends:
  assumes "program_pin io base pin v flags b = (Ret r, b')"
  shows "sent b' = sent b @ pin_writes base pin v flags"
proof -
  have g: "0x10 + unat pin * 2 + 0 < (2 :: nat) ^ 32" "0x10 + unat pin * 2 + 1 < (2 :: nat) ^ 32"
    using assms by (auto simp: program_pin_def Let_def redir_reg_run ioapic_write_def reg_write_def bnd_def split: if_splits)
  have e: "ucast (redir_entry v flags) = (ucast v OR (ucast flags AND 0x3F) :: u32)"
    unfolding redir_entry_flags by (rule bit_word_eqI) (auto simp: bit_ucast_iff bit_or_iff bit_and_iff dest: bit_imp_le_length)
  show ?thesis using assms g redir_reg_value [OF g(1)] redir_reg_value [OF g(2)]
    by (auto simp: program_pin_def Let_def redir_reg_run ioapic_write_def reg_write_def bnd_def pin_writes_def e redir_entry_high
        IOREGSEL_def IOREGWIN_def)
qed
lemma appends_io: "appends (ioapic_read io base reg)" "appends (ioapic_write io base reg v)" "appends (lapic_read io off)"
    "appends (lapic_write io off v)" "appends (redir_reg pin k)"
  unfolding ioapic_read_def ioapic_write_def lapic_read_def lapic_write_def redir_reg_def
  by (intro appends_bnd appends_reg appends_ret)+

lemma appends_program: "appends (program_pin io base pin v flags)"
  unfolding program_pin_def Let_def by (intro appends_bnd appends_io)

lemma appends_stray: "appends (stray_pins io base pit kbd ps)"
proof (induction ps)
  case (Cons p ps)
  then show ?case unfolding stray_pins.simps by (intro appends_bnd appends_if appends_io appends_program appends_ret)
qed (simp only: stray_pins.simps appends_ret)

definition routed :: "apic_state \<Rightarrow> u32 \<Rightarrow> (nat \<times> nat) list" where
  "routed s pmax = pin_writes (ioapic_base s) (min (fst (gsi_of 0 s)) pmax) 32 (snd (gsi_of 0 s)) @
     pin_writes (ioapic_base s) (min (fst (gsi_of 1 s)) pmax) 33 (snd (gsi_of 1 s)) @ [(0x21, 0xFF), (0xA1, 0xFF)]"

text \<open>The trace of reads only grows, too.\<close>

definition watches :: "('d, 'a) dop \<Rightarrow> bool" where
  "watches m = (\<forall>b r b'. m b = (Ret r, b') \<longrightarrow> (\<exists>xs. seen b' = seen b @ xs))"

lemma watches_bnd: "watches m \<Longrightarrow> (\<And>a. watches (f a)) \<Longrightarrow> watches (bnd m f)"
  unfolding watches_def by (elim bnd_RetE | intro allI impI)+ (metis append.assoc bnd_RetE)

lemma watches_basic: "watches (ret a)" "watches (reg_write io r v)" "watches (reg_read io r)" "watches (guard_panic c)" "watches (out8 io p x)"
  by (auto simp: watches_def out8_def reg_write_def reg_read_def split: prod.splits)

lemma watches_if: "watches m \<Longrightarrow> watches m' \<Longrightarrow> watches (if c then m else m')"
  by simp

lemma watches_io: "watches (ioapic_read io base reg)" "watches (ioapic_write io base reg v)" "watches (redir_reg pin k)"
    "watches (program_pin io base pin vec flags)" "watches (pic_mask_all io)"
  unfolding program_pin_def ioapic_read_def ioapic_write_def redir_reg_def pic_mask_all_def Let_def
  by (intro watches_bnd watches_basic)+

lemma watches_stray: "watches (stray_pins io base pit kbd ps)"
proof (induction ps)
  case (Cons p ps)
  then show ?case unfolding stray_pins.simps by (intro watches_bnd watches_if watches_io watches_basic)
qed (simp only: stray_pins.simps watches_basic)

text \<open>After the version register has been read, the rest of start-up for a controller with that many pins.\<close>

definition route_rest :: "'d io \<Rightarrow> apic_state \<Rightarrow> u32 \<Rightarrow> ('d, unit) dop" where
  "route_rest io s pmax =
     bnd (stray_pins io (ioapic_base s) (fst (gsi_of 0 s)) (fst (gsi_of 1 s)) [0..<unat (min (pmax + 1) MAX_PINS)]) (\<lambda>_.
     bnd (program_pin io (ioapic_base s) (min (fst (gsi_of 0 s)) pmax) 32 (snd (gsi_of 0 s))) (\<lambda>_.
     bnd (program_pin io (ioapic_base s) (min (fst (gsi_of 1 s)) pmax) 33 (snd (gsi_of 1 s))) (\<lambda>_. pic_mask_all io)))"

lemma route_rest_sends:
  assumes "route_rest io s pmax b = (Ret r, b')"
  shows "\<exists>xs rest. sent b' = sent b @ xs @ routed s pmax \<and> seen b' = seen b @ rest"
proof -
  have "finishes (route_rest io s pmax) (\<lambda>_ ys. ys = routed s pmax)"
    unfolding route_rest_def
    by (intro finishes_bnd [OF appends_stray] finishes_sends [where ys = "routed s pmax"], elim bnd_RetE)
      (auto simp: pic_mask_all_def bnd_def routed_def dest!: program_pin_sends)
  moreover have "watches (route_rest io s pmax)"
    unfolding route_rest_def by (intro watches_bnd watches_stray watches_io)
  ultimately show ?thesis using assms unfolding finishes_def watches_def by blast
qed

lemma route_irqs_sends:
  assumes "route_irqs io s b = (Ret r, b')"
  shows "\<exists>svr ver xs rest. seen b' = seen b @ (LAPIC_DEF + 0xF0 + PMO, svr) # (ioapic_base s + 0x10 + PMO, ver) # rest \<and>
    sent b' = sent b @ (LAPIC_DEF + 0xF0 + PMO, unat ((of_nat svr :: u32) OR 0x100)) # (ioapic_base s + PMO, 1) # xs @
      routed s (drop_bit 16 (of_nat ver) AND 0xFF)"
proof -
  obtain svr d1 where 1: "reg_in io (LAPIC_DEF + 0xF0 + PMO) (dv b) = (svr, d1)" by fastforce
  let ?d2 = "reg_out io (ioapic_base s + PMO) 1 (reg_out io (LAPIC_DEF + 0xF0 + PMO) (unat ((of_nat svr :: u32) OR 0x100)) d1)"
  obtain ver d3 where 2: "reg_in io (ioapic_base s + 0x10 + PMO) ?d2 = (ver, d3)" by fastforce
  let ?b = "b\<lparr>sent := sent b @ [(LAPIC_DEF + 0xF0 + PMO, unat ((of_nat svr :: u32) OR 0x100)), (ioapic_base s + PMO, 1)], dv := d3,
    seen := seen b @ [(LAPIC_DEF + 0xF0 + PMO, svr), (ioapic_base s + 0x10 + PMO, ver)]\<rparr>"
  have "route_irqs io s = bnd (lapic_read io 0xF0) (\<lambda>svr. bnd (lapic_write io 0xF0 (svr OR 0x100)) (\<lambda>_.
     bnd (ioapic_read io (ioapic_base s) IOAPIC_VER) (\<lambda>ver. route_rest io s (drop_bit 16 ver AND 0xFF))))"
    by (simp add: route_irqs_def route_rest_def Let_def)
  then have "route_irqs io s b = route_rest io s (drop_bit 16 (of_nat ver) AND 0xFF) ?b"
    using 1 2 by (simp add: lapic_read_def lapic_write_def ioapic_read_def reg_read_def reg_write_def bnd_def
        Let_def IOREGSEL_def IOREGWIN_def IOAPIC_VER_def)
  from route_rest_sends [OF assms [unfolded this]] show ?thesis by force
qed

text \<open>C40: when start-up of the interrupt controllers succeeds, it has enabled the local controller and read the
  version register of the other, and its last writes send the timer and the keyboard, unmasked,
  to the pins of their overrides (without one, pins 0 and 1), but at most to the last pin that the
  version register names, and mask both old controllers.  The vectors are 32 and 33 with
  the low six flag bits of the override put in: exactly 32 and 33 when these bits are zero, as they are
  without an override.
\<close>

theorem irqs_routed:
  assumes "apic_init io m a s b = (Ret (True, s'), b')"
  shows "\<exists>t svr ver xs rest pmax. find_table a MADT_SIG = Some t \<and> s' = read_madt m (t_addr t + PMO) s \<and>
    seen b' = seen b @ (LAPIC_DEF + 0xF0 + PMO, svr) # (ioapic_base s' + 0x10 + PMO, ver) # rest \<and>
    pmax = drop_bit 16 (of_nat ver) AND 0xFF \<and>
    sent b' = sent b @ (LAPIC_DEF + 0xF0 + PMO, unat ((of_nat svr :: u32) OR 0x100)) # (ioapic_base s' + PMO, 1) # xs @
      pin_writes (ioapic_base s') (min (fst (gsi_of 0 s')) pmax) 32 (snd (gsi_of 0 s')) @
      pin_writes (ioapic_base s') (min (fst (gsi_of 1 s')) pmax) 33 (snd (gsi_of 1 s')) @ [(0x21, 0xFF), (0xA1, 0xFF)] \<and>
    (\<forall>base pin v flags. flags AND 0x3F = 0 \<longrightarrow> pin_writes base pin v flags =
      [(base + PMO, 0x10 + unat pin * 2), (base + 0x10 + PMO, unat v), (base + PMO, 0x10 + unat pin * 2 + 1), (base + 0x10 + PMO, 0)])"
proof -
  obtain t where t: "find_table a MADT_SIG = Some t" using assms by (auto simp: apic_init_def split: option.splits)
  have s': "s' = read_madt m (t_addr t + PMO) s" and "\<exists>r. route_irqs io s' b = (Ret r, b')"
    using assms unfolding apic_init_def t option.case Let_def by (auto elim!: bnd_RetE split: if_splits)
  then obtain svr ver xs rest where
      "seen b' = seen b @ (LAPIC_DEF + 0xF0 + PMO, svr) # (ioapic_base s' + 0x10 + PMO, ver) # rest"
      "sent b' = sent b @ (LAPIC_DEF + 0xF0 + PMO, unat ((of_nat svr :: u32) OR 0x100)) # (ioapic_base s' + PMO, 1) # xs @
        routed s' (drop_bit 16 (of_nat ver) AND 0xFF)"
    using route_irqs_sends by blast
  note q = this
  show ?thesis
    by (rule exI [of _ t], rule exI [of _ svr], rule exI [of _ ver], rule exI [of _ xs], rule exI [of _ rest], rule exI,
        intro conjI allI impI, rule t, rule s', rule q, rule refl, rule q(2) [unfolded routed_def], erule plain_vector)
qed

text \<open>Overrides: the last record of an interrupt counts.\<close>

lemma record_overrides:
  assumes "unat (m r) = 2" and "unat (m (r + 3)) = irq" and "irq < 16" and "length (iso s) = 16"
  shows "gsi_of irq (madt_record m r s) = (let e = (of_nat (num_at m 4 (r + 4)), of_nat (num_at m 2 (r + 8))) in
    if e = (0xFFFFFFFF, 0xFFFF) then (of_nat irq, 0) else e)"
  using assms by (simp add: gsi_of_def madt_record_def Let_def)

lemma no_override: "irq < 16 \<Longrightarrow> gsi_of irq APIC_STATE = (of_nat irq, 0)"
  by (simp add: gsi_of_def APIC_STATE_def Let_def)

section \<open>The timer\<close>

definition periodic :: "bool \<Rightarrow> (nat \<times> nat) list \<Rightarrow> bool" where
  "periodic ok ys = (ok \<longrightarrow> (\<exists>per_ms :: u32. per_ms \<noteq> 0 \<and> ys =
     [(LAPIC_DEF + 0x3E0 + PMO, 11), (LAPIC_DEF + 0x380 + PMO, unat per_ms), (LAPIC_DEF + 0x320 + PMO, 0x20020)]))"

lemma timer_finishes: "finishes (timer_init io s) periodic"
proof -
  have w: "appends (sleep_idle io ms)" for ms
    unfolding sleep_idle_def by (intro appends_bnd appends_reg appends_ret)
  have p: "appends (ioapic_mask_pin io base pin)" for base pin
    unfolding ioapic_mask_pin_def by (intro appends_bnd appends_io)
  have f: "finishes (bnd (lapic_write io LAPIC_DIV_CONF 11) (\<lambda>_. bnd (lapic_write io LAPIC_INIT_COUNT per_ms) (\<lambda>_.
     bnd (lapic_write io LVT_TIMER (TIMER_PERIODIC OR TIMER_VECTOR)) (\<lambda>_. ret True)))) periodic" if "per_ms \<noteq> 0" for per_ms
    using that by (intro finishes_sends [where ys = "[(LAPIC_DEF + 0x3E0 + PMO, 11), (LAPIC_DEF + 0x380 + PMO, unat per_ms),
        (LAPIC_DEF + 0x320 + PMO, 0x20020)]"])
      (auto simp: lapic_write_def reg_write_def bnd_def periodic_def LAPIC_DIV_CONF_def LAPIC_INIT_COUNT_def LVT_TIMER_def
        TIMER_PERIODIC_def TIMER_VECTOR_def)
  show ?thesis unfolding timer_init_def Let_def
    by (intro finishes_bnd [OF appends_io(4)] finishes_bnd [OF appends_io(3)] finishes_bnd [OF w] finishes_bnd [OF p] finishes_if f
        finishes_ret) (simp_all add: periodic_def)
qed

text \<open>calibration of the timer always ends while the clock runs, and when it reports success its last
  writes start the timer periodically on vector 32, with a count that is not zero.
\<close>

theorem timer_calibration:
  assumes "advancing io (\<lambda>d. (False, d))"
  shows "fst (timer_init io s b) \<noteq> Hang \<and>
    (\<forall>b'. timer_init io s b = (Ret True, b') \<longrightarrow> (\<exists>xs (per_ms :: u32). per_ms \<noteq> 0 \<and> sent b' = sent b @ xs @
       [(LAPIC_DEF + 0x3E0 + PMO, 11), (LAPIC_DEF + 0x380 + PMO, unat per_ms), (LAPIC_DEF + 0x320 + PMO, 0x20020)]))"
proof -
  let ?r = "returns (\<lambda>_. True)"
  have w: "?r (sleep_idle io ms)" for ms
  proof -
    have "?r (wait_for io n (\<lambda>d. (False, d)))" for n using returns_wait [OF assms, of n] unfolding returns_def by blast
    then show ?thesis unfolding sleep_idle_def by (intro returns_bnd returns_ret)
  qed
  have e: "?r (lapic_write io off v)" "?r (lapic_read io off)" "?r (redir_reg pin k)" for off v pin k
    unfolding lapic_write_def lapic_read_def redir_reg_def by (intro returns_intros | simp add: returns_def)+
  have p: "?r (ioapic_mask_pin io base pin)" for base pin
    unfolding ioapic_mask_pin_def ioapic_read_def ioapic_write_def by (intro returns_intros e)
  have "?r (timer_init io s)"
    unfolding timer_init_def Let_def by (intro returns_intros e w p)
  then have "fst (timer_init io s b) \<noteq> Hang" unfolding returns_def by (metis fst_conv outcome.distinct)
  then show ?thesis using timer_finishes [of io s] unfolding finishes_def periodic_def by blast
qed

section \<open>An example machine\<close>

text \<open>A controller with one pin, registers that read zero, and a clock that moves with every halt.\<close>

definition demo_apic :: "nat io" where
  "demo_apic = \<lparr>reg_in = (\<lambda>r d. (0, d)), reg_out = (\<lambda>r v d. d),
     clock = (\<lambda>d. d), halt = Suc\<rparr>"

theorem timer_calibration_witness: "fst (timer_init demo_apic APIC_STATE \<lparr>dv = 0, sent = [], seen = []\<rparr>) \<noteq> Hang"
proof -
  have "advancing demo_apic (\<lambda>d. (False, d))"
    unfolding advancing_def by (auto simp: demo_apic_def intro: exI [of _ 1])
  from timer_calibration [OF this] show ?thesis by blast
qed

definition demo_list :: acpi where
  "demo_list = \<lparr>a_revision = 1, a_xsdt = False, tables = [\<lparr>t_sig = MADT_SIG, t_addr = 0x3000\<rparr>], table_count = 1\<rparr>"

lemma demo_read_madt: "read_madt (\<lambda>_. 0) base APIC_STATE = APIC_STATE"
  by (simp add: read_madt_def num_at_def get_bytes_def APIC_STATE_def madt_loop.simps)

definition runs :: "('d, 'a) dop \<Rightarrow> bool" where
  "runs m = (\<forall>b. \<exists>a b'. m b = (Ret a, b'))"

lemma runs_bnd: "runs m \<Longrightarrow> (\<And>a. runs (f a)) \<Longrightarrow> runs (bnd m f)"
  unfolding runs_def by (metis bnd_Ret)

lemma runs_basic: "runs (ret a)" "runs (reg_write io r v)" "runs (reg_read io r)" "runs (out8 io p x)"
  by (simp_all add: runs_def reg_write_def reg_read_def split_beta)

lemma runs_regs: "runs (lapic_read io off)" "runs (lapic_write io off v)" "runs (ioapic_read io base reg)" "runs (ioapic_write io base reg v)"
  unfolding lapic_read_def lapic_write_def ioapic_read_def ioapic_write_def by (intro runs_bnd runs_basic)+

lemma runs_pin: "unat pin < 100 \<Longrightarrow> k < 2 \<Longrightarrow> runs (redir_reg pin k)" "unat pin < 100 \<Longrightarrow> runs (program_pin io base pin v flags)"
proof -
  show r: "runs (redir_reg pin k)" if "unat pin < 100" "k < 2" for k using that by (simp add: runs_def redir_reg_run)
  show "runs (program_pin io base pin v flags)" if "unat pin < 100"
    unfolding program_pin_def Let_def using that by (intro runs_bnd runs_regs r) simp_all
qed

lemma runs_stray: "\<forall>p \<in> set ps. p < 100 \<Longrightarrow> runs (stray_pins io base pit kbd ps)"
proof (induction ps)
  case (Cons p ps)
  then have "unat (of_nat p :: u32) < 100" by (simp add: unat_of_nat)
  then show ?case using Cons unfolding stray_pins.simps
    by (auto intro!: runs_bnd runs_regs runs_pin runs_basic simp del: ret_apply)
qed (simp only: stray_pins.simps runs_basic)

lemma runs_route: "runs (route_irqs io APIC_STATE)"
proof -
  have p: "unat (min x y) < 100" if "unat x < (100 :: nat)" for x y :: u32
    using that by (auto simp: min_def word_le_nat_alt)
  have s: "\<forall>p \<in> set [0..<unat (min x MAX_PINS)]. p < 100" for x
    using p [of MAX_PINS x] by (auto simp: MAX_PINS_def min.commute)
  show ?thesis unfolding route_irqs_def Let_def pic_mask_all_def
    by (intro runs_bnd runs_regs runs_basic runs_stray [OF s] runs_pin(2) p) (simp_all add: no_override)
qed

lemma demo_routed:
  "\<exists>b'. apic_init demo_apic (\<lambda>_. 0) demo_list APIC_STATE \<lparr>dv = 0, sent = [], seen = []\<rparr> = (Ret (True, APIC_STATE), b')"
proof -
  obtain b' where "route_irqs demo_apic APIC_STATE \<lparr>dv = 0, sent = [], seen = []\<rparr> = (Ret (), b')"
    using runs_route unfolding runs_def by (metis (full_types) unit.exhaust)
  then show ?thesis by (simp add: apic_init_def find_table_def demo_list_def bnd_def Let_def demo_read_madt PMO_def)
qed

theorem irqs_routed_witness:
  "\<exists>b' ver xs pmax. apic_init demo_apic (\<lambda>_. 0) demo_list APIC_STATE \<lparr>dv = 0, sent = [], seen = []\<rparr> = (Ret (True, APIC_STATE), b') \<and>
     pmax = drop_bit 16 (of_nat ver) AND 0xFF \<and>
     sent b' = xs @ pin_writes IOAPIC_DEF (min 0 pmax) 32 0 @ pin_writes IOAPIC_DEF (min 1 pmax) 33 0 @ [(0x21, 0xFF), (0xA1, 0xFF)]"
proof -
  obtain b' where i: "apic_init demo_apic (\<lambda>_. 0) demo_list APIC_STATE \<lparr>dv = 0, sent = [], seen = []\<rparr> = (Ret (True, APIC_STATE), b')"
    using demo_routed by blast
  from irqs_routed [OF i] obtain x y ver xs where
    "sent b' = x # y # xs @ pin_writes IOAPIC_DEF (min 0 (drop_bit 16 (of_nat ver) AND 0xFF)) 32 0 @
       pin_writes IOAPIC_DEF (min 1 (drop_bit 16 (of_nat ver) AND 0xFF)) 33 0 @ [(0x21, 0xFF), (0xA1, 0xFF)]"
    by (auto simp: no_override APIC_STATE_def [THEN arg_cong, of ioapic_base])
  then show ?thesis using i by (intro exI [of _ b'] exI [of _ ver] exI [of _ "x # y # xs"] exI conjI refl) simp_all
qed

end
