(* ===== verification/Spec2Isabelle.thy ===== *)
theory Spec2Isabelle
  imports Heap Sched Elf Syscall Ahci Ps2 Apic
begin

text \<open>
  A verification development for the SolarOS kernel and its shell (Rust, \<open>kernel/src\<close> and
  \<open>user/src\<close>).

  \<^bold>\<open>The program.\<close>  SolarOS is a single-processor x86-64 kernel with one user program, a shell.
  A first-fit heap (\<open>heap.rs\<close>) provides task stacks and the memory of programs and of the AHCI
  driver; a round-robin scheduler (\<open>sched.rs\<close>) switches between tasks from the timer interrupt
  (\<open>interrupts.rs\<close>) and keeps a list of sleepers.  At start-up the kernel reads the tables of the
  firmware (\<open>acpi.rs\<close>), routes the interrupts and calibrates the timer (\<open>apic.rs\<close>), sets up the
  keyboard controller (\<open>ps2.rs\<close>), walks the PCI buses (\<open>pci.rs\<close>) and enters the disks of the PIO
  driver (\<open>ata.rs\<close>) and of the AHCI driver (\<open>ahci.rs\<close>) into one table.  The file system layer
  (\<open>fs.rs\<close>) chooses a disk of that table and dispatches every command to a FAT32 driver
  (\<open>fat.rs\<close>) or to an ext4 driver (\<open>ext4.rs\<close>) with a write-ahead journal.  Serial and keyboard
  interrupts put bytes into two lock-free rings (\<open>input.rs\<close>, \<open>keyboard.rs\<close>) that the console
  reader and its line editor (\<open>terminal.rs\<close>) empty.  The shell (\<open>user/src/main.rs\<close>), placed in
  memory by the loader (\<open>elf.rs\<close>) in pages that \<open>mem.rs\<close> opens, reads characters by a system call
  (\<open>syscall.rs\<close>), runs its own commands and hands every other line to the command service
  of the kernel (\<open>commands.rs\<close>), which works on the user table (\<open>users.rs\<close>, kept in
  \<open>/etc/passwd\<close>), the history and the file system.  Output goes through a console of cells
  drawn into the frame buffer (\<open>framebuffer.rs\<close>, \<open>vga_font.rs\<close>).

  \<^bold>\<open>Conventions.\<close>  A routine of the kernel that can fail is a state transformer with an
  \<open>outcome\<close> (theory Prelude): a value, an error of the code's own error type, a panic, a loss
  of power or a loop that never ends.  Routines without errors return an option, where None
  is the panic.  A panic is every failed index, slice, \<open>unwrap\<close> and, since the kernel is
  built and tested in the dev profile, every sum, difference or product that leaves its
  machine type.  Numbers whose wrap-around the code never uses are natural numbers with the
  check written out; bytes, checksums, registers and flag words are machine words.  Log lines on
  the serial port are left out, except those of the system calls.

  \<^bold>\<open>The theories.\<close>
  \<^item> Prelude: outcomes and their laws, array updates and slices, little-endian fields.
  \<^item> Heap (\<open>heap.rs\<close>): \<open>alloc_locked\<close>, \<open>dealloc\<close>, \<open>realloc\<close> and the set-up over the header
    memory the code writes; refinement of first fit on the list of free blocks; the locale
    \<open>allocator\<close>, interpreted by the code, in which scripts of requests are shown safe.
  \<^item> Sched (\<open>sched.rs\<close>, the timer of \<open>interrupts.rs\<close>, \<open>set_rsp0\<close> of \<open>gdt.rs\<close>): tasks, ready
    queue, sleepers, the context switch over the stack memory; runs of the machine as an
    inductive relation, with the invariant of all reachable states, bounded waiting and the
    transparency of preemption.
  \<^item> Input (\<open>input.rs\<close>, \<open>keyboard.rs\<close>, \<open>settings.rs\<close>, \<open>terminal.rs\<close>, the receiver of
    \<open>serial.rs\<close>): the rings as instances of the locale \<open>bounded_queue\<close>, interrupts inside a
    pop, the keyboard layouts, the decoder and the line editor.
  \<^item> Users (\<open>users.rs\<close>): table operations, the image of the password file and its parser.
  \<^item> Crc (\<open>crc.rs\<close>) and Disk (sector access of \<open>fs.rs\<close>, the state records of the file system
    layer): the disk is a function from sector numbers to sectors; a read or write may be
    refused, and the field \<open>power\<close> holds the number of sector writes that still reach the
    disk, so that every crash point is a state.  The file systems stand on this disk, not on the
    register-level drivers of Pio and Ahci.
  \<^item> Journal (\<open>ext4.rs\<close>): journal-aware block access, commit, replay and opening.  A commit is
    analysed as its list of block writes; cutting the list at any sector gives the crash
    points.
  \<^item> Paths: path components and text helpers shared by the drivers.  Fat: all of \<open>fat.rs\<close>.
    FatTable and FatDir: the allocation table and its copies, chains, the data of a file, 8.3
    names, listings and directory entries.
  \<^item> Ext4, Ext4Dir, Ext4Mkfs: superblock, descriptors, inodes, extents, allocators, mount,
    directories, commands and formatter of \<open>ext4.rs\<close>.  Fs: \<open>fs.rs\<close> on top of both drivers.
  \<^item> Font and Console (\<open>vga_font.rs\<close>, \<open>framebuffer.rs\<close>): the glyphs, the cells with their
    scrolling window and the drawing to the bytes of the frame buffer; reachable consoles as
    an inductive predicate, with the condition under which the screen shows the cells of the
    window and the one panic of the console.
  \<^item> Mem (\<open>mem.rs\<close>): the walks that open and check user pages.  Elf (\<open>elf.rs\<close>): the loader
    over the heap, the bytes of memory and the page tables.
  \<^item> Utf8: encoding and decoding of characters, as \<open>core::str\<close> does it.  Cmdline: the argument parser
    of the kernel and its copy in the shell, against a splitter of words.
  \<^item> Commands (\<open>commands.rs\<close>): the command service, every command over the state of the components
    it uses; output is a sequence of screen events.  Service: a small program logic for the commands
    (\<open>meets\<close>), the invariant of the tables, who is logged in, and the service run on a console
    (\<open>execute_shown\<close>), where its output can make the console panic.
  \<^item> Shell (\<open>user/src/main.rs\<close>): line editor, history and commands as sequences of system calls.
    Syscall (\<open>syscall.rs\<close>): the dispatcher, the registers from the instruction \<open>syscall\<close> to
    \<open>sysretq\<close>, and a typed line from the shell through the kernel.
  \<^item> Io: device registers and the clock as a parameter, the trace of reads and writes, the wait loop
    with a deadline.  Pci (\<open>pci.rs\<close>): configuration space and enumeration.  Ata and Pio (\<open>ata.rs\<close>):
    device table and PIO driver.  Ahci (\<open>ahci.rs\<close>): start-up, command tables in memory, sectors.
    Ps2 (\<open>ps2.rs\<close>), Acpi (\<open>acpi.rs\<close>) and Apic (\<open>apic.rs\<close>): start-up of keyboard controller, firmware
    tables and interrupt controllers.

  \<^bold>\<open>Devices.\<close>  The register-level theories take the device as a function (\<open>io\<close> of theory Io): what a
  read answers and changes, what a write changes, and what happens while the processor halts.
  Nothing is assumed of it unless a theorem says so.  \<open>advancing\<close> and \<open>timer_runs\<close> say that the clock
  never runs backwards and that the timer interrupt comes; then a wait loop ends, and a theorem on
  an operation that waits says that it returns (\<open>returns\<close>), or panics with the clock near the end of its
  64 bits.

  \<^bold>\<open>Bounds and fuel.\<close>  Loops that the code bounds keep the bound (\<open>FREE_STEPS\<close>, the walks of
  \<open>fat.rs\<close> with one step per cluster of the volume, 32 rounds of the table sizing, \<open>POLL_LIMIT\<close> status
  reads of \<open>ps2.rs\<close>).  Loops that wait for a device are partial functions; not ending is \<open>Hang\<close>.  The
  descent of \<open>extent_map\<close> has no bound in the code; it is given \<open>DESCENTS\<close> steps, one more than
  there are block numbers, so running out of them means that a block repeats and the loop
  never ends, which is the outcome \<open>Hang\<close>.  \<open>jbd_replay\<close> ends because the sequence number
  grows and overflows.

  \<^bold>\<open>Simplified.\<close>  The counters of the heap's statistics are unbounded (the code's are 64 bits and
  panic after as many operations).  The vectors that the kernel keeps on its own heap (tasks, ready queue,
  program headers, history) grow without allocation; a task stack, a program and the memory of the AHCI
  driver do come from the heap.  The buffers of 24 and 26 bytes in which the shell writes
  ordinals are lists: 64-bit numbers fit.  The addresses of device registers are added without
  a bound: they lie in fixed windows, except the AHCI one, where the check is made.

  \<^bold>\<open>Not modelled.\<close>  The descriptor tables, exception messages and the programming of the 8259 and the
  PIT (\<open>interrupts.rs\<close> above the timer), \<open>gdt.rs\<close> beyond \<open>set_rsp0\<close>, \<open>boot.rs\<close>, and in \<open>main.rs\<close> the
  order of start-up and \<open>cpuid\<close>: constants, inline assembly and messages.  \<open>Syscall\<close> leaves out the
  model-specific registers that \<open>init\<close> writes.  The decoder of the crate \<open>pc_keyboard\<close> is a parameter.
  The build scripts run on the host.
\<close>

end
